(* ===== verification/Prelude.thy ===== *)
theory Prelude
  imports Main "HOL-Library.Word"
begin

text \<open>
  Shared vocabulary and helper lemmas: the theorem collections of the
  development, arithmetic of residues over the integers, the machine-integer
  types of the Rust code, results of fallible and possibly diverging code, and a
  few facts on lists.
\<close>

section \<open>Collections\<close>

named_theorems fc_value \<open>value of a field constant built by an operation\<close>
named_theorems fp_value \<open>canonical representative of a field element built by an operation\<close>
named_theorems fp_wf \<open>operations keep field elements well formed\<close>
named_theorems lc_value \<open>value of a linear combination built by an operation\<close>

section \<open>Machine integers\<close>

type_synonym u8 = "8 word"
type_synonym u32 = "32 word"
type_synonym u64 = "64 word"
type_synonym i64 = "64 word" \<comment> \<open>read with \<open>sint\<close>\<close>

definition i64_fits :: "int \<Rightarrow> bool" where
  "i64_fits z \<longleftrightarrow> - (2 ^ 63) \<le> z \<and> z < 2 ^ 63"

lemma sint_word_of_int_i64: "i64_fits z \<Longrightarrow> sint (word_of_int z :: i64) = z"
  by (simp add: i64_fits_def signed_take_bit_int_eq_self sint_sbintrunc')

lemma i64_fits_sint [simp]: "i64_fits (sint (w :: i64))"
  using sint_ge [of w] sint_lt [of w] by (simp add: i64_fits_def)

lemma i64_eq_iff: "(a :: i64) = b \<longleftrightarrow> sint a = sint b"
  by (simp add: word_eq_iff_signed)

lemma unat_u32_max: "unat (- 1 :: u32) = 4294967295"
  by (simp add: unsigned_minus_1_eq_mask mask_eq_exp_minus_1)

lemma unat_u32_less: "unat (w :: u32) < 4294967296"
  by (rule order.strict_trans2 [OF unsigned_less]) simp

section \<open>Results\<close>

text \<open>
  A fallible function of the code returns \<open>'e + 'a\<close>, \<open>Inl\<close> the error. One whose loop
  has no termination argument returns \<open>('e + 'a) option\<close>, where \<open>None\<close> says that it
  does not return; \<open>obind\<close> is \<open>?\<close> there.
\<close>

definition rbind :: "'e + 'a \<Rightarrow> ('a \<Rightarrow> 'e + 'b) \<Rightarrow> 'e + 'b" where
  "rbind r f = (case r of Inl e \<Rightarrow> Inl e | Inr x \<Rightarrow> f x)"

lemma rbind_simps [simp]: "rbind (Inl e) f = Inl e" "rbind (Inr x) f = f x"
  by (simp_all add: rbind_def)

lemma rbind_eq_Inr: "rbind r f = Inr y \<longleftrightarrow> (\<exists>x. r = Inr x \<and> f x = Inr y)"
  by (cases r) auto

lemma rbind_eq_Inl: "rbind r f = Inl e \<longleftrightarrow> r = Inl e \<or> (\<exists>x. r = Inr x \<and> f x = Inl e)"
  by (cases r) auto

definition obind :: "('e + 'a) option \<Rightarrow> ('a \<Rightarrow> ('e + 'b) option) \<Rightarrow> ('e + 'b) option" where
  "obind r f = (case r of None \<Rightarrow> None | Some (Inl e) \<Rightarrow> Some (Inl e) | Some (Inr x) \<Rightarrow> f x)"

lemma obind_simps [simp]:
  "obind None f = None" "obind (Some (Inl e)) f = Some (Inl e)" "obind (Some (Inr x)) f = f x"
  by (simp_all add: obind_def)

lemma obind_eq_Inr: "obind r f = Some (Inr y) \<longleftrightarrow> (\<exists>x. r = Some (Inr x) \<and> f x = Some (Inr y))"
  by (auto simp: obind_def split: option.splits sum.splits)

lemma obind_assoc: "obind (obind r f) g = obind r (\<lambda>x. obind (f x) g)"
  by (auto simp: obind_def split: option.splits sum.splits)

lemma obind_return [simp]: "obind r (\<lambda>x. Some (Inr x)) = r"
  by (auto simp: obind_def split: option.splits sum.splits)

section \<open>Residues\<close>

lemma mod_eq_zero_dvd: "(a :: int) mod m = 0 \<longleftrightarrow> m dvd a"
  by (rule dvd_eq_mod_eq_0 [symmetric])

lemma mod_sub_self: "0 \<le> v \<Longrightarrow> v < (m :: int) \<Longrightarrow> (if v = 0 then 0 else m - v) = (- v) mod m"
  by (auto simp: zmod_zminus1_eq_if mod_pos_pos_trivial)

lemma mod_eq_self: "0 \<le> v \<Longrightarrow> v < (m :: int) \<Longrightarrow> v mod m = v"
  by (rule mod_pos_pos_trivial)

text \<open>Primality of naturals, as the moduli of the code have it.\<close>

definition nat_prime :: "nat \<Rightarrow> bool" where
  "nat_prime p \<longleftrightarrow> 1 < p \<and> (\<forall>d. d dvd p \<longrightarrow> d = 1 \<or> d = p)"

lemma nat_prime_gt_1: "nat_prime p \<Longrightarrow> 1 < p"
  by (simp add: nat_prime_def)

lemma nat_prime_coprime: "nat_prime p \<Longrightarrow> \<not> p dvd a \<Longrightarrow> coprime a p"
proof -
  assume p: "nat_prime p" and a: "\<not> p dvd a"
  have "gcd a p dvd p" "gcd a p dvd a" by simp_all
  moreover from this p have "gcd a p = 1 \<or> gcd a p = p" unfolding nat_prime_def by blast
  ultimately have "gcd a p = 1" using a by metis
  then show ?thesis by (simp add: coprime_iff_gcd_eq_1)
qed

lemma nat_prime_dvd_mult:
  assumes "nat_prime p"
  shows "p dvd a * b \<longleftrightarrow> p dvd a \<or> p dvd b"
proof (cases "p dvd a")
  case False
  then have "coprime p a" using nat_prime_coprime [OF assms] by (simp add: coprime_commute)
  then show ?thesis using False by (simp add: coprime_dvd_mult_right_iff)
qed simp

lemma int_prime_dvd_mult:
  assumes "nat_prime p"
  shows "int p dvd a * b \<longleftrightarrow> int p dvd a \<or> int p dvd b"
proof -
  have "int p dvd x \<longleftrightarrow> p dvd nat \<bar>x\<bar>" for x :: int
    by (metis abs_ge_zero dvd_abs_iff int_dvd_int_iff nat_0_le)
  moreover have "nat \<bar>a * b\<bar> = nat \<bar>a\<bar> * nat \<bar>b\<bar>"
    by (simp add: abs_mult nat_mult_distrib)
  ultimately show ?thesis using nat_prime_dvd_mult [OF assms] by metis
qed

text \<open>Primality of a numeral by trial division, for witnesses.\<close>

fun no_divisor :: "nat \<Rightarrow> nat \<Rightarrow> nat \<Rightarrow> bool" where
  "no_divisor 0 d p = True"
| "no_divisor (Suc k) d p = (\<not> d dvd p \<and> no_divisor k (Suc d) p)"

lemma no_divisor_numeral:
  "no_divisor (numeral k) d p = (\<not> d dvd p \<and> no_divisor (pred_numeral k) (d + 1) p)"
  by (simp add: numeral_eq_Suc)

lemma no_divisor_iff: "no_divisor k d p \<longleftrightarrow> (\<forall>e. d \<le> e \<and> e < d + k \<longrightarrow> \<not> e dvd p)"
proof (induction k arbitrary: d)
  case 0
  then show ?case by auto
next
  case (Suc k)
  have "(d \<le> e \<and> e < d + Suc k) \<longleftrightarrow> e = d \<or> (Suc d \<le> e \<and> e < Suc d + k)" for e
    by auto
  then show ?case using Suc.IH [of "Suc d"] by auto
qed

lemma nat_prime_by_trial: "1 < p \<Longrightarrow> no_divisor (p - 2) 2 p \<Longrightarrow> nat_prime p"
  unfolding nat_prime_def no_divisor_iff
proof (intro conjI allI impI)
  fix d
  assume p: "1 < p" and nd: "\<forall>e. 2 \<le> e \<and> e < 2 + (p - 2) \<longrightarrow> \<not> e dvd p" and d: "d dvd p"
  have "d \<noteq> 0" using p d by (metis dvd_0_left_iff not_one_less_zero)
  moreover have "d \<le> p" using p d by (simp add: dvd_imp_le)
  moreover have "\<not> (2 \<le> d \<and> d < p)" using nd d p by auto
  ultimately show "d = 1 \<or> d = p" by linarith
qed auto

text \<open>Lengths in bits, as \<open>bits()\<close> of \<open>num-bigint\<close> and \<open>num_bits\<close> count them.\<close>

fun bit_len :: "nat \<Rightarrow> nat" where
  "bit_len n = (if n = 0 then 0 else Suc (bit_len (n div 2)))"

declare bit_len.simps [simp del]

lemma bit_len_0 [simp]: "bit_len 0 = 0"
  by (simp add: bit_len.simps)

lemma bit_len_le_iff: "bit_len n \<le> k \<longleftrightarrow> n < 2 ^ k"
proof (induction n arbitrary: k rule: bit_len.induct)
  case (1 n)
  show ?case
  proof (cases "n = 0")
    case False
    show ?thesis
    proof (cases k)
      case 0
      then show ?thesis using False by (simp add: bit_len.simps [of n])
    next
      case (Suc j)
      have "bit_len n \<le> k \<longleftrightarrow> n div 2 < 2 ^ j"
        using False 1 [OF False, of j] Suc by (simp add: bit_len.simps [of n])
      also have "\<dots> \<longleftrightarrow> n < 2 ^ k" using Suc by (simp add: div_less_iff_less_mult mult.commute)
      finally show ?thesis .
    qed
  qed simp
qed

text \<open>The value of a list of little-endian bits.\<close>

fun bits_value :: "bool list \<Rightarrow> nat" where
  "bits_value [] = 0"
| "bits_value (b # bs) = of_bool b + 2 * bits_value bs"

lemma bits_value_map_bit: "bits_value (map (bit n) [0..<k]) = n mod 2 ^ k"
proof (induction k arbitrary: n)
  case (Suc k)
  have "[0..<Suc k] = 0 # map Suc [0..<k]"
    by (simp add: upt_conv_Cons map_Suc_upt del: upt_Suc)
  then have "bits_value (map (bit n) [0..<Suc k]) =
      of_bool (odd n) + 2 * bits_value (map (bit (n div 2)) [0..<k])"
    by (simp add: bit_0 bit_Suc comp_def del: upt_Suc)
  also have "\<dots> = n mod 2 ^ Suc k"
    using Suc by (simp add: mod2_eq_if mod_mult2_eq)
  finally show ?case .
qed simp

section \<open>Lists\<close>

lemma filter_id_conv_not_in: "\<forall>x \<in> set xs. P x \<Longrightarrow> filter P xs = xs"
  by (simp add: filter_id_conv)

lemma sum_list_map_cong: "(\<And>x. x \<in> set xs \<Longrightarrow> f x = g x) \<Longrightarrow> sum_list (map f xs) = sum_list (map g xs)"
  by (metis map_cong)

lemma sum_list_mod_cong:
  "(\<And>x. x \<in> set xs \<Longrightarrow> f x mod m = g x mod m) \<Longrightarrow>
   sum_list (map f xs) mod m = sum_list (map g xs) mod (m :: int)"
proof (induction xs)
  case (Cons x xs)
  then have "f x mod m = g x mod m" "sum_list (map f xs) mod m = sum_list (map g xs) mod m"
    by auto
  then show ?case by (simp) (metis mod_add_cong)
qed simp

lemma list_all2_iff_all:
  "list_all2 (\<lambda>x y. P x \<longleftrightarrow> Q y) xs ys \<Longrightarrow> (\<forall>x \<in> set xs. P x) \<longleftrightarrow> (\<forall>y \<in> set ys. Q y)"
  by (induction rule: list_all2_induct) auto

lemma list_all2_right: "list_all2 P xs ys \<Longrightarrow> y \<in> set ys \<Longrightarrow> \<exists>x \<in> set xs. P x y"
  by (induction rule: list_all2_induct) auto

end
