(* ===== verification/Lattice_Hint.thy ===== *)
theory Lattice_Hint
  imports Prelude "HOL-Library.Signed_Division"
begin

text \<open>
  The lattice hint of \<^verbatim>\<open>solver.rs\<close>: \<^verbatim>\<open>fake_glv\<close> and its integral LLL reduction. Matrices are
  lists of rows; \<^verbatim>\<open>BigInt\<close> division truncates (\<open>sdiv\<close>). The reduction loop is a partial
  function: \<open>None\<close> says that it does not return (\<open>Lattice_Reduction\<close> shows that it does).

  Shown here: every row operation stays in the lattice, so whatever vector the hint returns
  satisfies the congruence its constraints check, is nonzero and is below the bound.
\<close>

type_synonym vec = "int list"

section \<open>LLL\<close>

definition dot :: "vec \<Rightarrow> vec \<Rightarrow> int" where
  "dot x y = sum_list (map (\<lambda>(p, q). p * q) (zip x y))"

text \<open>One \<open>(k, j)\<close> step of \<^verbatim>\<open>gram\<close>; \<open>d\<close> has five entries, \<open>lam\<close> four rows of four.\<close>

fun gram_entry :: "vec list \<Rightarrow> vec \<times> vec list \<Rightarrow> nat \<times> nat \<Rightarrow> vec \<times> vec list" where
  "gram_entry b (d, lam) (k, j) =
    (let v = foldl (\<lambda>v i. (d ! (i + 1) * v - lam ! k ! i * lam ! j ! i) sdiv (d ! i))
               (dot (b ! k) (b ! j)) [0..<j]
     in if j < k then (d, lam[k := (lam ! k)[j := v]]) else (d[k + 1 := v], lam))"

definition gram :: "vec list \<Rightarrow> vec \<times> vec list" where
  "gram b = foldl (gram_entry b) (replicate 5 1, replicate 4 (replicate 4 0))
    (concat (map (\<lambda>k. map (Pair k) [0..<Suc k]) [0..<4]))"

text \<open>\<^verbatim>\<open>round\<close>: the nearest integer of \<open>x / y\<close> for \<open>y > 0\<close>.\<close>

definition round_div :: "int \<Rightarrow> int \<Rightarrow> int" where
  "round_div x y =
    (let n = x * 2 + y; d = y * 2; q = n sdiv d
     in if n smod d < 0 then q - 1 else q)"

definition size_reduce :: "nat \<Rightarrow> vec list \<Rightarrow> nat \<Rightarrow> vec list" where
  "size_reduce k b j =
    (let (d, lam) = gram b in
     if \<bar>lam ! k ! j * 2\<bar> > \<bar>d ! (j + 1)\<bar> then
       (let q = round_div (lam ! k ! j) (d ! (j + 1)); row = b ! j
        in b[k := map2 (\<lambda>x y. x - q * y) (b ! k) row])
     else b)"

definition swap_rows :: "'a list \<Rightarrow> nat \<Rightarrow> nat \<Rightarrow> 'a list" where
  "swap_rows b i j = b[i := b ! j, j := b ! i]"

partial_function (option) lll_loop :: "vec list \<Rightarrow> nat \<Rightarrow> vec list option" where
  "lll_loop b k =
    (if k < 4 then
       (let b = foldl (size_reduce k) b (rev [0..<k]); (d, lam) = gram b; l = lam ! k ! (k - 1) in
        if d ! (k + 1) * d ! (k - 1) * 100 < d ! k * d ! k * 99 - l * l * 100
        then lll_loop (swap_rows b k (k - 1)) (max (k - 1) 1)
        else lll_loop b (k + 1))
     else Some b)"

declare lll_loop.simps [code]

definition lll :: "vec list \<Rightarrow> vec list option" where
  "lll b = lll_loop b 1"

section \<open>The hint\<close>

definition glv_basis :: "nat \<Rightarrow> nat \<Rightarrow> nat \<Rightarrow> vec list" where
  "glv_basis u m lam =
    (let int' = (\<lambda>x. int (x mod m)) in
     [[int m, 0, 0, 0], [- int' lam, 1, 0, 0], [int' u, 0, 1, 0], [int' (u * lam), 0, 0, 1]])"

definition glv_coeff :: "nat \<Rightarrow> nat \<Rightarrow> int" where
  "glv_coeff idx i = int (idx div 7 ^ i mod 7) - 3"

definition glv_combine :: "vec list \<Rightarrow> nat \<Rightarrow> vec" where
  "glv_combine b idx =
    map (\<lambda>j. sum_list (map (\<lambda>i. b ! i ! j * glv_coeff idx i) [0..<4])) [0..<4]"

definition max_norm :: "vec \<Rightarrow> int" where
  "max_norm v = fold max (map abs v) 0"

definition glv_better :: "vec list \<Rightarrow> int \<Rightarrow> (int \<times> vec) option \<Rightarrow> nat \<Rightarrow> (int \<times> vec) option" where
  "glv_better b bound best idx =
    (let v = glv_combine b idx; nrm = max_norm v in
     if nrm \<noteq> 0 \<and> nrm < bound \<and> (case best of None \<Rightarrow> True | Some (n, _) \<Rightarrow> nrm < n)
     then Some (nrm, v) else best)"

definition fake_glv :: "nat \<Rightarrow> nat \<Rightarrow> nat \<Rightarrow> vec option option" where
  "fake_glv u m lam =
    (if m = 0 then Some None
     else map_option (\<lambda>b.
        let bound = 2 ^ ((bit_len m + 3) div 4);
            best = foldl (glv_better b bound) None [0..<7 ^ 4]
        in map_option snd best) (lll (glv_basis u m lam)))"

section \<open>Rows stay in the lattice\<close>

definition in_lattice :: "nat \<Rightarrow> nat \<Rightarrow> nat \<Rightarrow> vec \<Rightarrow> bool" where
  "in_lattice u m lam v \<longleftrightarrow> length v = 4 \<and>
    int m dvd (v ! 0 + int lam * v ! 1) - int u * (v ! 2 + int lam * v ! 3)"

definition glv_rows_ok :: "nat \<Rightarrow> nat \<Rightarrow> nat \<Rightarrow> vec list \<Rightarrow> bool" where
  "glv_rows_ok u m lam b \<longleftrightarrow> length b = 4 \<and> list_all (in_lattice u m lam) b"

lemma length4_cases:
  assumes "length v = 4"
  obtains a b c d where "v = [a, b, c, d]"
  using assms by (auto simp: length_Suc_conv eval_nat_numeral)

lemma in_lattice_simp [simp]:
  "in_lattice u m lam [a1, a2, b1, b2] \<longleftrightarrow>
    int m dvd (a1 + int lam * a2) - int u * (b1 + int lam * b2)"
  by (simp add: in_lattice_def)

lemma in_lattice_combine:
  assumes "in_lattice u m lam x" "in_lattice u m lam y"
  shows "in_lattice u m lam (map2 (\<lambda>x y. x - q * y) x y)"
proof -
  obtain a b c d where x: "x = [a, b, c, d]"
    using assms(1) by (auto simp: in_lattice_def elim: length4_cases)
  obtain e f g h where y: "y = [e, f, g, h]"
    using assms(2) by (auto simp: in_lattice_def elim: length4_cases)
  have "(a - q * e + int lam * (b - q * f)) - int u * (c - q * g + int lam * (d - q * h)) =
      ((a + int lam * b) - int u * (c + int lam * d)) - q * ((e + int lam * f) - int u * (g + int lam * h))"
    by (simp add: algebra_simps)
  also have "int m dvd \<dots>" using assms unfolding x y in_lattice_simp by (rule dvd_diff [OF _ dvd_mult])
  finally show ?thesis unfolding x y by simp
qed

lemma glv_rows_update:
  "glv_rows_ok u m lam b \<Longrightarrow> in_lattice u m lam v \<Longrightarrow> glv_rows_ok u m lam (b[i := v])"
  by (auto simp: glv_rows_ok_def list_all_iff dest: set_update_subset_insert [THEN subsetD])

lemma glv_rows_nth: "glv_rows_ok u m lam b \<Longrightarrow> i < 4 \<Longrightarrow> in_lattice u m lam (b ! i)"
  by (simp add: glv_rows_ok_def list_all_length)

lemma size_reduce_rows:
  "glv_rows_ok u m lam b \<Longrightarrow> k < 4 \<Longrightarrow> j < 4 \<Longrightarrow> glv_rows_ok u m lam (size_reduce k b j)"
  by (auto simp: size_reduce_def Let_def glv_rows_nth split: prod.split
      intro!: glv_rows_update in_lattice_combine)

lemma foldl_size_reduce_rows:
  "glv_rows_ok u m lam b \<Longrightarrow> k < 4 \<Longrightarrow> \<forall>j \<in> set js. j < 4 \<Longrightarrow>
   glv_rows_ok u m lam (foldl (size_reduce k) b js)"
  by (induction js arbitrary: b) (simp_all add: size_reduce_rows)

lemma swap_rows_ok:
  "glv_rows_ok u m lam b \<Longrightarrow> i < 4 \<Longrightarrow> j < 4 \<Longrightarrow> glv_rows_ok u m lam (swap_rows b i j)"
  by (simp add: swap_rows_def glv_rows_update glv_rows_nth)

lemma lll_loop_rows:
  assumes "lll_loop b k = Some b'"
  shows "glv_rows_ok u m lam b \<longrightarrow> glv_rows_ok u m lam b'"
proof (rule lll_loop.raw_induct [OF _ assms, where P = "\<lambda>b k b'. glv_rows_ok u m lam b \<longrightarrow> glv_rows_ok u m lam b'"])
  fix loop :: "vec list \<Rightarrow> nat \<Rightarrow> vec list option" and b k b'
  assume IH: "\<And>b k b'. loop b k = Some b' \<Longrightarrow> glv_rows_ok u m lam b \<longrightarrow> glv_rows_ok u m lam b'"
    and eq: "(if k < 4 then
       (let b = foldl (size_reduce k) b (rev [0..<k]); (d, lam) = gram b; l = lam ! k ! (k - 1) in
        if d ! (k + 1) * d ! (k - 1) * 100 < d ! k * d ! k * 99 - l * l * 100
        then loop (swap_rows b k (k - 1)) (max (k - 1) 1)
        else loop b (k + 1))
     else Some b) = Some b'"
  show "glv_rows_ok u m lam b \<longrightarrow> glv_rows_ok u m lam b'"
  proof (cases "k < 4")
    case True
    define c where "c = foldl (size_reduce k) b (rev [0..<k])"
    obtain d l where g: "gram c = (d, l)" by fastforce
    have "glv_rows_ok u m lam b \<longrightarrow> glv_rows_ok u m lam c"
      using True by (auto simp: c_def intro!: foldl_size_reduce_rows)
    moreover have "loop (swap_rows c k (k - 1)) (max (k - 1) 1) = Some b' \<or> loop c (k + 1) = Some b'"
      using eq True by (simp add: c_def [symmetric] g Let_def split: if_splits)
    moreover have "glv_rows_ok u m lam c \<longrightarrow> glv_rows_ok u m lam (swap_rows c k (k - 1))"
      using True by (simp add: swap_rows_ok)
    ultimately show ?thesis using IH by blast
  next
    case False
    then show ?thesis using eq by simp
  qed
qed

lemma glv_basis_rows: "glv_rows_ok u m lam (glv_basis u m lam)"
proof -
  have "int m dvd int (x mod m) - int x" for x
    by (simp add: of_nat_mod mod_eq_dvd_iff [symmetric])
  from this [of lam] this [of u] this [of "u * lam"] show ?thesis
    by (simp add: glv_rows_ok_def glv_basis_def Let_def dvd_diff_commute)
qed

lemma glv_combine_lattice:
  assumes "glv_rows_ok u m lam b"
  shows "in_lattice u m lam (glv_combine b idx)"
proof -
  let ?f = "\<lambda>v. (v ! 0 + int lam * v ! 1) - int u * (v ! 2 + int lam * v ! 3)"
  have rows: "int m dvd ?f (b ! i)" if "i < 4" for i
    using glv_rows_nth [OF assms that] by (simp add: in_lattice_def)
  have "?f (glv_combine b idx) = (\<Sum>i \<leftarrow> [0..<4]. ?f (b ! i) * glv_coeff idx i)"
    by (simp add: glv_combine_def upt_rec numeral_2_eq_2 numeral_3_eq_3 algebra_simps)
  also have "int m dvd \<dots>"
    using rows by (simp add: upt_rec dvd_add)
  finally show ?thesis by (simp add: in_lattice_def glv_combine_def)
qed

section \<open>The search keeps a least combination\<close>

definition glv_good :: "vec list \<Rightarrow> int \<Rightarrow> nat \<Rightarrow> bool" where
  "glv_good b bound idx \<longleftrightarrow>
    max_norm (glv_combine b idx) \<noteq> 0 \<and> max_norm (glv_combine b idx) < bound"

lemma glv_search:
  "case foldl (glv_better b bound) None idxs of
     None \<Rightarrow> \<forall>i \<in> set idxs. \<not> glv_good b bound i
   | Some (n, v) \<Rightarrow> n = max_norm v \<and> (\<exists>i \<in> set idxs. glv_good b bound i \<and> v = glv_combine b i) \<and>
       (\<forall>i \<in> set idxs. glv_good b bound i \<longrightarrow> n \<le> max_norm (glv_combine b i))"
proof (induction idxs rule: rev_induct)
  case (snoc x xs)
  then show ?case
    by (auto simp: glv_better_def Let_def glv_good_def split: option.splits)
qed simp

lemma max_norm_bounds: "x \<in> set v \<Longrightarrow> \<bar>x\<bar> \<le> max_norm v" "max_norm v \<noteq> 0 \<Longrightarrow> \<exists>x \<in> set v. x \<noteq> 0"
proof -
  have ge: "a \<le> fold max xs a \<and> (\<forall>x \<in> set xs. x \<le> fold max xs a)" for xs and a :: int
    by (induction xs arbitrary: a) (auto intro: order_trans max.cobounded1 max.cobounded2,
        meson max.cobounded1 max.cobounded2 order_trans, meson max.cobounded1 max.cobounded2 order_trans)
  then show "x \<in> set v \<Longrightarrow> \<bar>x\<bar> \<le> max_norm v" by (auto simp: max_norm_def)
  have "\<forall>x \<in> set xs. x = 0 \<Longrightarrow> fold max (map abs xs) 0 = (0 :: int)" for xs
    by (induction xs) auto
  then show "max_norm v \<noteq> 0 \<Longrightarrow> \<exists>x \<in> set v. x \<noteq> 0" unfolding max_norm_def by blast
qed

lemma fake_glv_basis:
  assumes "m \<noteq> 0" "lll (glv_basis u m lam) = Some b"
  shows "fake_glv u m lam = Some (map_option snd
    (foldl (glv_better b (2 ^ ((bit_len m + 3) div 4))) None [0..<7 ^ 4]))"
  using assms by (simp add: fake_glv_def)

lemma fake_glv_cases:
  assumes "m \<noteq> 0" "lll (glv_basis u m lam) = Some b"
  shows "case fake_glv u m lam of
      Some (Some v) \<Rightarrow> in_lattice u m lam v \<and> (\<exists>x \<in> set v. x \<noteq> 0) \<and>
        (\<forall>x \<in> set v. \<bar>x\<bar> < 2 ^ ((bit_len m + 3) div 4))
    | Some None \<Rightarrow> \<forall>idx < 7 ^ 4. \<not> glv_good b (2 ^ ((bit_len m + 3) div 4)) idx
    | None \<Rightarrow> False"
proof -
  have rows: "glv_rows_ok u m lam b"
    using lll_loop_rows assms(2) glv_basis_rows unfolding lll_def by blast
  let ?bound = "2 ^ ((bit_len m + 3) div 4) :: int"
  have good: "in_lattice u m lam (glv_combine b i) \<and> (\<exists>x \<in> set (glv_combine b i). x \<noteq> 0) \<and>
      (\<forall>x \<in> set (glv_combine b i). \<bar>x\<bar> < ?bound)" if "glv_good b ?bound i" for i
    using that glv_combine_lattice [OF rows] max_norm_bounds
    by (fastforce simp: glv_good_def)
  show ?thesis
    unfolding fake_glv_basis [OF assms]
    using glv_search [where b = b and bound = ?bound and idxs = "[0..<7 ^ 4]"] good
    by (auto split: option.splits)
qed

lemma fake_glv_sound:
  assumes "m \<noteq> 0" "lll (glv_basis u m lam) = Some b" "fake_glv u m lam = Some (Some v)"
  shows "in_lattice u m lam v" "\<exists>x \<in> set v. x \<noteq> 0"
    "\<forall>x \<in> set v. \<bar>x\<bar> < 2 ^ ((bit_len m + 3) div 4)"
  using fake_glv_cases [OF assms(1,2)] assms(3) by simp_all

lemma fake_glv_search:
  assumes "m \<noteq> 0" "lll (glv_basis u m lam) = Some b" "fake_glv u m lam = Some (Some v)"
  defines "bound \<equiv> 2 ^ ((bit_len m + 3) div 4)"
  shows "max_norm v < bound \<and> (\<exists>i < 7 ^ 4. v = glv_combine b i) \<and>
    (\<forall>i < 7 ^ 4. glv_good b bound i \<longrightarrow> max_norm v \<le> max_norm (glv_combine b i))"
  using glv_search [where b = b and bound = bound and idxs = "[0..<7 ^ 4]"]
    assms(3) unfolding fake_glv_basis [OF assms(1,2)] bound_def
  by (auto simp: glv_good_def split: option.splits)

end
