(* ===== verification/Lattice_Reduction.thy ===== *)
theory Lattice_Reduction
  imports Lattice_Hint
begin

text \<open>
  That the integral LLL reduction of \<^verbatim>\<open>solver.rs\<close> returns, and what it returns. The quantities the
  closure \<^verbatim>\<open>gram\<close> computes with truncating divisions are the leading determinants of the Gram matrix
  (\<open>gd\<close>) and the numerators of the Gram-Schmidt coefficients (\<open>gl\<close>): every division is exact
  (\<open>gram_explicit\<close>). Size reduction keeps all the determinants, a swap of rows \<open>k\<close> and \<open>k - 1\<close> changes
  only the \<open>k\<close>-th one and lowers it, so the loop ends by the measure \<open>lll_measure\<close>: the product of the
  first three determinants, then the distance of \<open>k\<close> from 4. The basis it returns is reduced
  (\<open>reduced_to\<close>), which bounds its first row and with it settles when the hint finds a vector.
\<close>

section \<open>Gram determinants\<close>

text \<open>The determinants of the symmetric matrix with rows \<open>(a b d x)\<close>, \<open>(b c e y)\<close>,
  \<open>(d e f z)\<close>, \<open>(x y z w)\<close> and of its leading blocks, and the minors whose last row is
  taken further down.\<close>

definition minor2 :: "int \<Rightarrow> int \<Rightarrow> int \<Rightarrow> int \<Rightarrow> int" where
  "minor2 a b x y = a * y - x * b"

definition minor3 :: "int \<Rightarrow> int \<Rightarrow> int \<Rightarrow> int \<Rightarrow> int \<Rightarrow> int \<Rightarrow> int \<Rightarrow> int \<Rightarrow> int" where
  "minor3 a b c d e x y z = x * (b * e - c * d) - y * (a * e - b * d) + z * (a * c - b * b)"

definition det4 :: "int \<Rightarrow> int \<Rightarrow> int \<Rightarrow> int \<Rightarrow> int \<Rightarrow> int \<Rightarrow> int \<Rightarrow> int \<Rightarrow> int \<Rightarrow> int \<Rightarrow> int" where
  "det4 a b c d e f x y z w =
    w * minor3 a b c d e d e f
    - z * minor3 a b c d e x y z
    + y * (x * (b * f - d * e) - y * (a * f - d * d) + z * (a * e - b * d))
    - x * (x * (c * f - e * e) - y * (b * f - d * e) + z * (b * e - c * d))"

lemma minor3_step:
  "minor2 a b b c * minor2 a d x z - minor2 a b x y * minor2 a b d e = minor3 a b c d e x y z * a"
  by (simp add: minor2_def minor3_def algebra_simps)

lemma det4_step:
  "minor3 a b c d e d e f * minor3 a b c x y x y w - minor3 a b c d e x y z * minor3 a b c d e x y z =
    det4 a b c d e f x y z w * minor2 a b b c"
  by (simp add: minor2_def minor3_def det4_def algebra_simps)

text \<open>The entries of the Gram matrix and its leading determinants, for a basis \<open>b\<close> of four rows.\<close>

definition ge :: "vec list \<Rightarrow> nat \<Rightarrow> nat \<Rightarrow> int" where
  "ge b i j = dot (b ! i) (b ! j)"

definition gd :: "vec list \<Rightarrow> nat \<Rightarrow> int" where
  "gd b i =
    (if i = 0 then 1
     else if i = 1 then ge b 0 0
     else if i = 2 then minor2 (ge b 0 0) (ge b 1 0) (ge b 1 0) (ge b 1 1)
     else if i = 3 then
       minor3 (ge b 0 0) (ge b 1 0) (ge b 1 1) (ge b 2 0) (ge b 2 1) (ge b 2 0) (ge b 2 1) (ge b 2 2)
     else det4 (ge b 0 0) (ge b 1 0) (ge b 1 1) (ge b 2 0) (ge b 2 1) (ge b 2 2)
       (ge b 3 0) (ge b 3 1) (ge b 3 2) (ge b 3 3))"

definition gl :: "vec list \<Rightarrow> nat \<Rightarrow> nat \<Rightarrow> int" where
  "gl b k j =
    (if j = 0 then ge b k 0
     else if j = 1 then minor2 (ge b 0 0) (ge b 1 0) (ge b k 0) (ge b k 1)
     else minor3 (ge b 0 0) (ge b 1 0) (ge b 1 1) (ge b 2 0) (ge b 2 1) (ge b k 0) (ge b k 1) (ge b k 2))"

lemma sdiv_one [simp]: "x sdiv 1 = (x :: int)"
  by (simp add: signed_divide_int_def sgn_if)

lemma sdiv_cancel: "d \<noteq> 0 \<Longrightarrow> (x * d) sdiv d = (x :: int)"
proof -
  assume "d \<noteq> 0"
  then have "(x * d) sdiv d = sgn x * \<bar>x\<bar>"
    by (simp add: signed_divide_int_def abs_mult sgn_mult mult.assoc)
  also have "\<dots> = x" by (simp add: sgn_if)
  finally show ?thesis .
qed

lemma gram_explicit:
  assumes "gd b 1 \<noteq> 0" "gd b 2 \<noteq> 0"
  shows "gram b = ([1, gd b 1, gd b 2, gd b 3, gd b 4],
    [[0, 0, 0, 0], [gl b 1 0, 0, 0, 0], [gl b 2 0, gl b 2 1, 0, 0], [gl b 3 0, gl b 3 1, gl b 3 2, 0]])"
proof -
  have pairs: "concat (map (\<lambda>k. map (Pair k) [0..<Suc k]) [0..<4]) =
      [(0, 0), (1, 0), (1, 1), (2, 0), (2, 1), (2, 2), (3, 0), (3, 1), (3, 2), (3, 3 :: nat)]"
    by (simp add: upt_rec eval_nat_numeral)
  have rep: "replicate 4 x = [x, x, x, x]" "replicate 5 x = [x, x, x, x, x]" for x :: 'z
    by (simp_all add: numeral_eq_Suc)
  have s1: "((a * c - b * b) * (a * z - x * d) - (a * y - x * b) * (a * e - d * b)) sdiv a =
      minor3 a b c d e x y z" if "a \<noteq> 0" for a b c d e x y z
    using that minor3_step [of a b c d x z y e] by (simp add: minor2_def sdiv_cancel)
  have s2: "(minor3 a b c d e d e f * minor3 a b c x y x y w - minor3 a b c d e x y z * minor3 a b c d e x y z)
      sdiv (a * c - b * b) = det4 a b c d e f x y z w" if "a * c - b * b \<noteq> 0" for a b c d e f x y z w
    using that det4_step [of a b c d e f x y w z] by (simp add: minor2_def sdiv_cancel)
  have nz: "ge b 0 0 \<noteq> 0" "ge b 0 0 * ge b 1 1 \<noteq> ge b 1 0 * ge b 1 0"
    using assms by (simp_all add: gd_def minor2_def)
  show ?thesis
    unfolding gram_def pairs rep
    by (simp add: upt_rec gd_def gl_def ge_def [symmetric] s1 s2 nz [unfolded One_nat_def] minor2_def)
qed

section \<open>What the steps do to the determinants\<close>

definition square4 :: "vec list \<Rightarrow> bool" where
  "square4 b \<longleftrightarrow> length b = 4 \<and> (\<forall>i < 4. length (b ! i) = 4)"

definition row_sub :: "vec list \<Rightarrow> nat \<Rightarrow> int \<Rightarrow> nat \<Rightarrow> vec list" where
  "row_sub b k q j = b[k := map2 (\<lambda>x y. x - q * y) (b ! k) (b ! j)]"

lemma dot_commute: "dot x y = dot y x"
  unfolding dot_def
  by (induction x y rule: list_induct2') (simp_all add: mult.commute)

lemma dot_row_sub:
  assumes "length x = length y" "length y = length z"
  shows "dot (map2 (\<lambda>x y. x - q * y) x y) z = dot x z - q * dot y z"
  using assms unfolding dot_def
  by (induction x y z rule: list_induct3) (simp_all add: algebra_simps)

lemma ge_commute: "ge b i j = ge b j i"
  by (simp add: ge_def dot_commute)

lemmas ge_lower = ge_commute [of _ 0 1] ge_commute [of _ 0 2] ge_commute [of _ 0 3]
  ge_commute [of _ 1 2] ge_commute [of _ 1 3] ge_commute [of _ 2 3]

lemma square4_row_sub [simp]: "square4 b \<Longrightarrow> k < 4 \<Longrightarrow> j < 4 \<Longrightarrow> square4 (row_sub b k q j)"
  by (auto simp: square4_def row_sub_def nth_list_update)

lemma square4_swap [simp]: "square4 b \<Longrightarrow> k < 4 \<Longrightarrow> j < 4 \<Longrightarrow> square4 (swap_rows b k j)"
  by (auto simp: square4_def swap_rows_def nth_list_update)

lemma ge_row_sub:
  assumes "square4 b" "k < 4" "j < 4" "r < 4" "s < 4" "j \<noteq> k"
  shows "ge (row_sub b k q j) r s =
    (if r = k then (if s = k then ge b k k - 2 * q * ge b k j + q * q * ge b j j else ge b k s - q * ge b j s)
     else if s = k then ge b r k - q * ge b r j else ge b r s)"
proof -
  let ?v = "map2 (\<lambda>x y. x - q * y) (b ! k) (b ! j)"
  have left: "dot ?v z = dot (b ! k) z - q * dot (b ! j) z" if "length z = 4" for z
    using assms that by (intro dot_row_sub) (auto simp: square4_def)
  have right: "dot z ?v = dot z (b ! k) - q * dot z (b ! j)" if "length z = 4" for z
    using left [OF that] by (simp add: dot_commute)
  have "length ?v = 4" using assms by (simp add: square4_def)
  then have both: "dot ?v ?v = ge b k k - 2 * q * ge b k j + q * q * ge b j j"
    using assms left [of ?v] right [of "b ! k"] right [of "b ! j"]
    by (simp add: ge_def dot_commute [of "b ! j" "b ! k"] square4_def) (simp add: algebra_simps)
  show ?thesis
  proof (cases "r = k \<and> s = k")
    case True
    then show ?thesis
      using assms(1,2) both by (simp add: ge_def row_sub_def nth_list_update square4_def)
  next
    case False
    then show ?thesis
      using assms by (auto simp: ge_def row_sub_def nth_list_update square4_def left right)
  qed
qed

lemma ge_swap:
  assumes "square4 b" "k < 4" "j < 4" "r < 4" "s < 4"
  shows "ge (swap_rows b k j) r s =
    ge b (if r = k then j else if r = j then k else r) (if s = k then j else if s = j then k else s)"
  using assms by (auto simp: ge_def swap_rows_def nth_list_update square4_def)

lemma less_four_cases:
  fixes n :: nat
  assumes "n < 4"
  obtains "n = 0" | "n = 1" | "n = 2" | "n = 3"
  using assms by linarith

lemma gd_nums: "gd b 0 = 1" "gd b (Suc 0) = ge b 0 0"
  "gd b (Suc (Suc 0)) = minor2 (ge b 0 0) (ge b 1 0) (ge b 1 0) (ge b 1 1)"
  "gd b 2 = minor2 (ge b 0 0) (ge b 1 0) (ge b 1 0) (ge b 1 1)"
  "gd b 3 = minor3 (ge b 0 0) (ge b 1 0) (ge b 1 1) (ge b 2 0) (ge b 2 1) (ge b 2 0) (ge b 2 1) (ge b 2 2)"
  "gd b 4 = det4 (ge b 0 0) (ge b 1 0) (ge b 1 1) (ge b 2 0) (ge b 2 1) (ge b 2 2)
       (ge b 3 0) (ge b 3 1) (ge b 3 2) (ge b 3 3)"
  by (simp_all add: gd_def)

lemma gl_nums: "gl b k 0 = ge b k 0"
  "gl b k (Suc 0) = minor2 (ge b 0 0) (ge b 1 0) (ge b k 0) (ge b k 1)"
  "gl b k 2 = minor3 (ge b 0 0) (ge b 1 0) (ge b 1 1) (ge b 2 0) (ge b 2 1) (ge b k 0) (ge b k 1) (ge b k 2)"
  by (simp_all add: gl_def)

lemmas minors = minor2_def minor3_def det4_def ge_lower [unfolded One_nat_def]

lemma gd_cases: "P (gd b 0) (gd c 0) \<Longrightarrow> P (gd b 1) (gd c 1) \<Longrightarrow> P (gd b 2) (gd c 2) \<Longrightarrow> P (gd b 3) (gd c 3) \<Longrightarrow>
    P (gd b 4) (gd c 4) \<Longrightarrow> P (gd b i) (gd c i)"
  by (auto simp: gd_def split: if_splits)

lemma low_pairs:
  fixes j k :: nat
  assumes "j < k" "k < 4"
  obtains "k = 1" "j = 0" | "k = 2" "j = 0" | "k = 2" "j = 1" | "k = 3" "j = 0" | "k = 3" "j = 1" | "k = 3" "j = 2"
  using assms by linarith

lemma gd_row_sub:
  assumes "square4 b" "j < k" "k < 4"
  shows "gd (row_sub b k q j) i = gd b i"
  by (rule gd_cases; rule low_pairs [OF assms(2,3)]; hypsubst_thin;
      simp add: gd_nums ge_row_sub assms(1); (simp only: minors)?; algebra)

lemma gl_row_sub_self:
  assumes "square4 b" "j < k" "k < 4"
  shows "gl (row_sub b k q j) k j = gl b k j - q * gd b (j + 1)"
  by (rule low_pairs [OF assms(2,3)]; hypsubst_thin;
      simp add: gd_nums gl_nums ge_row_sub assms(1); (simp only: minors)?; algebra)

lemma gl_row_sub_above:
  assumes "square4 b" "j < i" "i < k" "k < 4"
  shows "gl (row_sub b k q j) k i = gl b k i"
proof -
  have "gl (row_sub b 2 q 0) 2 1 = gl b 2 1" "gl (row_sub b 3 q 0) 3 1 = gl b 3 1"
    "gl (row_sub b 3 q 0) 3 2 = gl b 3 2" "gl (row_sub b 3 q 1) 3 2 = gl b 3 2"
    by (simp add: gl_nums ge_row_sub assms(1); simp only: minors; algebra)+
  moreover have "i = 1 \<and> j = 0 \<and> k = 2 \<or> i = 1 \<and> j = 0 \<and> k = 3 \<or> i = 2 \<and> j = 0 \<and> k = 3 \<or> i = 2 \<and> j = 1 \<and> k = 3"
    using assms(2-) by linarith
  ultimately show ?thesis by auto
qed

lemma gl_row_sub_below:
  assumes "square4 b" "j < k" "k < 4" "r < k" "i < r"
  shows "gl (row_sub b k q j) r i = gl b r i"
proof -
  have "k = 2 \<and> r = 1 \<and> i = 0 \<or> k = 3 \<and> r = 1 \<and> i = 0 \<or> k = 3 \<and> r = 2 \<and> i = 0 \<or> k = 3 \<and> r = 2 \<and> i = 1"
    using assms(3-) by linarith
  moreover have "j = 0 \<or> j = 1 \<or> j = 2" using assms(2,3) by linarith
  ultimately show ?thesis
    using assms(2) by (elim disjE; simp add: gl_nums ge_row_sub assms(1))
qed

lemma swap_cases:
  fixes k :: nat
  assumes "0 < k" "k < 4"
  obtains "k = 1" | "k = 2" | "k = 3"
  using assms by linarith

lemma gd_swap_other:
  assumes "square4 b" "0 < k" "k < 4" "i \<noteq> k"
  shows "gd (swap_rows b k (k - 1)) i = gd b i"
proof -
  consider "i = 0" | "i = 1" | "i = 2" | "i = 3" | "4 \<le> i" by linarith
  then show ?thesis
  proof cases
    case 5
    then have "gd c i = gd c 4" for c by (simp add: gd_def)
    moreover have "gd (swap_rows b k (k - 1)) 4 = gd b 4"
      by (rule swap_cases [OF assms(2,3)]; hypsubst_thin; simp add: gd_nums ge_swap assms(1);
          (simp only: minors)?; algebra)
    ultimately show ?thesis by simp
  next
    case 4
    then have "k = 1 \<or> k = 2" using assms(2-4) by linarith
    moreover have "gd (swap_rows b 1 0) 3 = gd b 3" "gd (swap_rows b 2 1) 3 = gd b 3"
      by (simp add: gd_nums ge_swap assms(1); simp only: minors; algebra)+
    ultimately show ?thesis using 4 by auto
  next
    case 3
    then have "k = 1 \<or> k = 3" using assms(2-4) by linarith
    moreover have "gd (swap_rows b 1 0) 2 = gd b 2" "gd (swap_rows b 3 2) 2 = gd b 2"
      by (simp add: gd_nums ge_swap assms(1); (simp only: minors)?; algebra)+
    ultimately show ?thesis using 3 by auto
  next
    case 2
    then have "k = 2 \<or> k = 3" using assms(2-4) by linarith
    then show ?thesis using 2 by (auto simp: gd_nums ge_swap assms(1))
  qed (simp add: gd_nums)
qed

lemma gd_swap_self:
  assumes "square4 b" "0 < k" "k < 4"
  shows "gd b k * gd (swap_rows b k (k - 1)) k = gd b (k + 1) * gd b (k - 1) + gl b k (k - 1) * gl b k (k - 1)"
  by (rule swap_cases [OF assms(2,3)]; hypsubst_thin;
      simp add: gd_nums gl_nums ge_swap assms(1); (simp only: minors)?; algebra)

lemma gl_swap_below:
  assumes "square4 b" "0 < k" "k < 4" "r < k - 1" "i < r"
  shows "gl (swap_rows b k (k - 1)) r i = gl b r i"
proof -
  have "r = 1" "i = 0" "k = 3" using assms(2-) by linarith+
  then show ?thesis by (simp add: gl_nums ge_swap assms(1))
qed

section \<open>The reduction\<close>

definition gram_pos :: "vec list \<Rightarrow> bool" where
  "gram_pos b \<longleftrightarrow> square4 b \<and> (\<forall>i. 0 < gd b i)"

text \<open>The first \<open>k\<close> rows are reduced: size-reduced against the rows above them, and the swap test
  of the loop fails between neighbours.\<close>

definition reduced_to :: "nat \<Rightarrow> vec list \<Rightarrow> bool" where
  "reduced_to k b \<longleftrightarrow>
    (\<forall>i < k. \<forall>j < i. 2 * \<bar>gl b i j\<bar> \<le> gd b (j + 1)) \<and>
    (\<forall>i < k. 0 < i \<longrightarrow>
      99 * (gd b i * gd b i) - 100 * (gl b i (i - 1) * gl b i (i - 1)) \<le> 100 * (gd b (i + 1) * gd b (i - 1)))"

lemma gram_pos_entries:
  assumes "gram_pos b" "gram b = (d, lam)"
  shows "i \<le> 4 \<Longrightarrow> d ! i = gd b i" and "k < 4 \<Longrightarrow> j < k \<Longrightarrow> lam ! k ! j = gl b k j"
proof -
  have "gd b 1 \<noteq> 0" "gd b 2 \<noteq> 0"
    using assms(1) by (simp_all add: gram_pos_def less_imp_neq [THEN not_sym])
  note g = gram_explicit [OF this]
  have i: "i = 0 \<or> i = 1 \<or> i = 2 \<or> i = 3 \<or> i = 4" if "i \<le> 4" using that by linarith
  show "d ! i = gd b i" if "i \<le> 4"
    using i [OF that] assms(2) g by (elim disjE) (auto simp: gd_nums(1))
  show "lam ! k ! j = gl b k j" if "k < 4" "j < k"
    by (rule low_pairs [OF that(2,1)]) (use assms(2) g in auto)
qed

lemma round_div_bounds:
  assumes "0 < y"
  shows "2 * \<bar>x - round_div x y * y\<bar> \<le> y"
proof -
  define n where "n = x * 2 + y"
  define d where "d = y * 2"
  have d: "0 < d" using assms by (simp add: d_def)
  define a where "a = \<bar>n\<bar> div d"
  define r where "r = \<bar>n\<bar> mod d"
  have split: "\<bar>n\<bar> = a * d + r" and r: "0 \<le> r" "r < d"
    using d by (simp_all add: a_def r_def)
  have q: "n sdiv d = sgn n * a" "n smod d = sgn n * r"
    using d by (simp_all add: signed_divide_int_def signed_modulo_int_def a_def r_def)
  have "0 \<le> n - round_div x y * d \<and> n - round_div x y * d < d"
  proof (cases "n < 0")
    case True
    then have "round_div x y = (if 0 < r then - a - 1 else - a)"
      using r by (simp add: round_div_def Let_def n_def [symmetric] d_def [symmetric] q)
    then show ?thesis using True split r by (auto simp: algebra_simps)
  next
    case False
    then have "round_div x y = a"
      using r split d by (cases "n = 0") (auto simp: round_div_def Let_def n_def [symmetric] d_def [symmetric] q a_def)
    then show ?thesis using False split r by auto
  qed
  then have "- y \<le> 2 * (x - round_div x y * y) \<and> 2 * (x - round_div x y * y) < y"
    unfolding n_def d_def by (simp add: algebra_simps)
  then show ?thesis by linarith
qed

text \<open>What \<^verbatim>\<open>size_reduce\<close> and the pass over a row leave alone.\<close>

definition same_above :: "nat \<Rightarrow> vec list \<Rightarrow> vec list \<Rightarrow> bool" where
  "same_above k b c \<longleftrightarrow> gram_pos c \<and> (\<forall>i. gd c i = gd b i) \<and> (\<forall>r < k. \<forall>i < r. gl c r i = gl b r i)"

lemma same_above_refl: "gram_pos b \<Longrightarrow> same_above k b b"
  by (simp add: same_above_def)

lemma same_above_trans: "same_above k a b \<Longrightarrow> same_above k b c \<Longrightarrow> same_above k a c"
  by (simp add: same_above_def)

lemma same_above_row_sub: "gram_pos b \<Longrightarrow> j < k \<Longrightarrow> k < 4 \<Longrightarrow> same_above k b (row_sub b k q j)"
  by (simp add: same_above_def gram_pos_def gd_row_sub gl_row_sub_below)

lemma size_reduce_effect:
  assumes "gram_pos b" "j < k" "k < 4"
  shows "same_above k b (size_reduce k b j)"
    and "2 * \<bar>gl (size_reduce k b j) k j\<bar> \<le> gd b (j + 1)"
    and "j < i \<Longrightarrow> i < k \<Longrightarrow> gl (size_reduce k b j) k i = gl b k i"
proof -
  obtain d lam where g: "gram b = (d, lam)" by fastforce
  have e: "lam ! k ! j = gl b k j" "d ! (j + 1) = gd b (j + 1)"
    using gram_pos_entries [OF assms(1) g] assms(2,3) by simp_all
  have pos: "0 < gd b (j + 1)" and sq: "square4 b" using assms(1) by (simp_all add: gram_pos_def)
  define q where "q = round_div (gl b k j) (gd b (j + 1))"
  have cases: "size_reduce k b j = row_sub b k q j \<or>
      size_reduce k b j = b \<and> 2 * \<bar>gl b k j\<bar> \<le> gd b (j + 1)"
    using pos by (auto simp: size_reduce_def g Let_def e e [simplified] row_sub_def q_def abs_mult)
  have "2 * \<bar>gl (row_sub b k q j) k j\<bar> \<le> gd b (j + 1)"
    using round_div_bounds [OF pos] gl_row_sub_self [OF sq assms(2,3)] by (simp add: q_def)
  then show "2 * \<bar>gl (size_reduce k b j) k j\<bar> \<le> gd b (j + 1)" using cases by auto
  show "same_above k b (size_reduce k b j)"
    using cases assms by (auto intro: same_above_row_sub same_above_refl)
  show "gl (size_reduce k b j) k i = gl b k i" if "j < i" "i < k"
    using cases that gl_row_sub_above [OF sq that assms(3)] by auto
qed

lemma row_reduced:
  assumes "gram_pos b" "n \<le> k" "k < 4" "\<forall>i. n \<le> i \<and> i < k \<longrightarrow> 2 * \<bar>gl b k i\<bar> \<le> gd b (i + 1)"
  defines "c \<equiv> foldl (size_reduce k) b (rev [0..<n])"
  shows "same_above k b c \<and> (\<forall>i < k. 2 * \<bar>gl c k i\<bar> \<le> gd b (i + 1))"
  using assms(1,2,4) unfolding c_def
proof (induction n arbitrary: b)
  case (Suc n)
  let ?s = "size_reduce k b n"
  note eff = size_reduce_effect [OF Suc.prems(1) _ assms(3), of n]
  have s: "same_above k b ?s" using eff(1) Suc.prems(2) by simp
  then have pos: "gram_pos ?s" and gd: "\<And>i. gd ?s i = gd b i" by (simp_all add: same_above_def)
  have "2 * \<bar>gl ?s k i\<bar> \<le> gd ?s (i + 1)" if "n \<le> i" "i < k" for i
    using that eff(2,3) Suc.prems(2,3) gd by (cases "i = n") auto
  then have "same_above k ?s (foldl (size_reduce k) ?s (rev [0..<n])) \<and>
      (\<forall>i < k. 2 * \<bar>gl (foldl (size_reduce k) ?s (rev [0..<n])) k i\<bar> \<le> gd ?s (i + 1))"
    using Suc.IH [OF pos] Suc.prems(2) by simp
  then show ?case using same_above_trans [OF s] gd by simp
qed (simp add: same_above_refl)

lemma reduced_to_same_above: "reduced_to k b \<Longrightarrow> same_above k b c \<Longrightarrow> reduced_to k c"
  by (auto simp: reduced_to_def same_above_def)

lemma swap_effect:
  assumes "gram_pos b" "0 < k" "k < 4" "reduced_to k b"
    and test: "gd b (k + 1) * gd b (k - 1) * 100 <
      gd b k * gd b k * 99 - gl b k (k - 1) * gl b k (k - 1) * 100"
  defines "c \<equiv> swap_rows b k (k - 1)"
  shows "gram_pos c" and "gd c k < gd b k" and "i \<noteq> k \<Longrightarrow> gd c i = gd b i" and "reduced_to (max (k - 1) 1) c"
proof -
  have sq: "square4 b" and pos: "\<And>i. 0 < gd b i" using assms(1) by (simp_all add: gram_pos_def)
  have sw: "gd b k * gd c k = gd b (k + 1) * gd b (k - 1) + gl b k (k - 1) * gl b k (k - 1)"
    unfolding c_def by (rule gd_swap_self [OF sq assms(2,3)])
  show other: "gd c i = gd b i" if "i \<noteq> k" for i
    unfolding c_def by (rule gd_swap_other [OF sq assms(2,3) that])
  have "0 < gd b k * gd c k"
    unfolding sw using pos by (simp add: add_pos_nonneg)
  then have ck: "0 < gd c k" using pos [of k] by (simp add: zero_less_mult_iff)
  have "gd b k * gd c k * 100 < gd b k * gd b k * 99" using test sw by simp
  then have "gd b k * (gd c k * 100) < gd b k * (gd b k * 99)" by (simp add: mult.assoc)
  then have "gd c k * 100 < gd b k * 99" using pos [of k] by simp
  then show "gd c k < gd b k" using pos [of k] by linarith
  show "gram_pos c"
    unfolding gram_pos_def
  proof (intro conjI allI)
    show "square4 c" unfolding c_def using sq assms(2,3) by simp
    show "0 < gd c i" for i using ck other pos by (cases "i = k") auto
  qed
  have gl: "gl c r i = gl b r i" if "r < k - 1" "i < r" for r i
    unfolding c_def by (rule gl_swap_below [OF sq assms(2,3) that])
  show "reduced_to (max (k - 1) 1) c"
    using assms(4) unfolding reduced_to_def by (auto simp: gl other less_max_iff_disj)
qed

definition lll_measure :: "(vec list \<times> nat) rel" where
  "lll_measure = measures [\<lambda>(b, k). nat (gd b 1 * gd b 2 * gd b 3), \<lambda>(b, k). 4 - k]"

lemma swap_measure:
  assumes "gram_pos b" "gram_pos c" "0 < k" "k < 4" "gd c k < gd b k" "\<And>i. i \<noteq> k \<Longrightarrow> gd c i = gd b i"
  shows "((c, k'), (b, k)) \<in> lll_measure"
proof -
  have pos: "0 < gd b i" "0 < gd c i" for i using assms(1,2) by (simp_all add: gram_pos_def)
  have "gd c 1 * gd c 2 * gd c 3 < gd b 1 * gd b 2 * gd b 3"
    by (rule swap_cases [OF assms(3,4)])
      (use assms(5) pos in \<open>simp_all add: assms(6) mult_less_cancel_left_pos mult_less_cancel_right_pos mult_pos_pos\<close>)
  moreover have "0 < gd b 1 * gd b 2 * gd b 3" by (intro mult_pos_pos pos)
  ultimately show ?thesis by (simp add: lll_measure_def nat_mono_iff)
qed

lemma wf_lll_measure: "wf lll_measure"
  by (simp add: lll_measure_def)

theorem lll_loop_returns:
  assumes "gram_pos b" "0 < k" "k \<le> 4" "reduced_to k b"
  shows "\<exists>c. lll_loop b k = Some c \<and> gram_pos c \<and> reduced_to 4 c \<and> gd c 4 = gd b 4"
  using assms
proof (induction "(b, k)" arbitrary: b k rule: wf_induct_rule [OF wf_lll_measure])
  case (1 b k)
  show ?case
  proof (cases "k < 4")
    case False
    then show ?thesis using 1 by (subst lll_loop.simps) simp
  next
    case k: True
    define c where "c = foldl (size_reduce k) b (rev [0..<k])"
    have same: "same_above k b c" and row: "\<forall>i < k. 2 * \<bar>gl c k i\<bar> \<le> gd b (i + 1)"
      using row_reduced [OF 1(2) order_refl k] by (simp_all add: c_def)
    then have pos: "gram_pos c" and gd: "\<And>i. gd c i = gd b i" by (simp_all add: same_above_def)
    have red: "reduced_to k c" by (rule reduced_to_same_above [OF 1(5) same])
    obtain d lam where g: "gram c = (d, lam)" by fastforce
    have e: "d ! (k + 1) = gd c (k + 1)" "d ! (k - 1) = gd c (k - 1)" "d ! k = gd c k"
      "lam ! k ! (k - 1) = gl c k (k - 1)"
      using gram_pos_entries [OF pos g] k 1(3) by simp_all
    let ?test = "gd c (k + 1) * gd c (k - 1) * 100 <
      gd c k * gd c k * 99 - gl c k (k - 1) * gl c k (k - 1) * 100"
    have step: "lll_loop b k = (if ?test then lll_loop (swap_rows c k (k - 1)) (max (k - 1) 1) else lll_loop c (k + 1))"
      using k by (subst lll_loop.simps) (simp add: c_def [symmetric] g Let_def e [simplified])
    show ?thesis
    proof (cases ?test)
      case True
      note eff = swap_effect [OF pos 1(3) k red True]
      let ?c = "swap_rows c k (k - 1)"
      have "((?c, max (k - 1) 1), (b, k)) \<in> lll_measure"
        by (rule swap_measure [OF 1(2) eff(1) 1(3) k]) (use eff(2,3) gd in auto)
      then obtain r where "lll_loop ?c (max (k - 1) 1) = Some r \<and> gram_pos r \<and> reduced_to 4 r \<and> gd r 4 = gd ?c 4"
        using 1(1) [OF _ eff(1)] eff(4) k by fastforce
      then show ?thesis using step True eff(3) [of 4] gd k by auto
    next
      case False
      have "reduced_to (k + 1) c"
        using red row False unfolding reduced_to_def by (auto simp: less_Suc_eq gd)
      moreover have "((c, k + 1), (b, k)) \<in> lll_measure"
        using k by (simp add: lll_measure_def gd)
      ultimately obtain r where "lll_loop c (k + 1) = Some r \<and> gram_pos r \<and> reduced_to 4 r \<and> gd r 4 = gd c 4"
        using 1(1) [OF _ pos] k by fastforce
      then show ?thesis using step False gd by auto
    qed
  qed
qed

lemma basis_gram:
  fixes M l u t :: int
  defines "b \<equiv> [[M, 0, 0, 0], [- l, 1, 0, 0], [u, 0, 1, 0], [t, 0, 0, 1]]"
  shows "gd b 1 = M * M" "gd b 2 = M * M" "gd b 3 = M * M" "gd b 4 = M * M"
proof -
  have e: "ge b 0 0 = M * M" "ge b 1 0 = - l * M" "ge b 1 1 = l * l + 1" "ge b 2 0 = u * M" "ge b 2 1 = - u * l"
    "ge b 2 2 = u * u + 1" "ge b 3 0 = t * M" "ge b 3 1 = - t * l" "ge b 3 2 = t * u" "ge b 3 3 = t * t + 1"
    by (simp_all add: ge_def dot_def b_def)
  show "gd b 1 = M * M" by (simp add: gd_nums e)
  show "gd b 2 = M * M" by (simp only: gd_nums e minor2_def) algebra
  show "gd b 3 = M * M" by (simp only: gd_nums e minor3_def) algebra
  show "gd b 4 = M * M" by (simp only: gd_nums e minor3_def det4_def) algebra
qed

lemma glv_basis_gram:
  assumes "m \<noteq> 0"
  shows "gram_pos (glv_basis u m lam)" "gd (glv_basis u m lam) 4 = (int m)\<^sup>2"
proof -
  let ?b = "glv_basis u m lam"
  have sq: "square4 ?b" by (simp add: square4_def glv_basis_def numeral_eq_Suc less_Suc_eq)
  have g: "gd ?b i = (int m)\<^sup>2" if "i \<noteq> 0" for i
  proof -
    consider "i = 1" | "i = 2" | "i = 3" | "4 \<le> i" using \<open>i \<noteq> 0\<close> by linarith
    moreover have "4 \<le> i \<Longrightarrow> gd ?b i = gd ?b 4" by (simp add: gd_def)
    ultimately show ?thesis
      by cases (auto simp: glv_basis_def Let_def basis_gram [unfolded One_nat_def] basis_gram power2_eq_square)
  qed
  show "gd ?b 4 = (int m)\<^sup>2" by (rule g) simp
  have "0 < gd ?b i" for i using g [of i] assms by (cases "i = 0") (simp_all add: gd_nums)
  then show "gram_pos ?b" using sq by (simp add: gram_pos_def)
qed

section \<open>How short the first row is\<close>

lemma reduced_ratio:
  assumes "gram_pos b" "reduced_to 4 b" "0 < i" "i < 4"
  shows "37 * (gd b i * gd b i) \<le> 50 * (gd b (i + 1) * gd b (i - 1))"
proof -
  let ?l = "gl b i (i - 1)"
  have "2 * \<bar>?l\<bar> \<le> gd b i" using assms(2-4) unfolding reduced_to_def by (metis Suc_diff_1 Suc_eq_plus1 diff_less zero_less_one)
  then have "(2 * \<bar>?l\<bar>) * (2 * \<bar>?l\<bar>) \<le> gd b i * gd b i" by (intro mult_mono) auto
  then have "4 * (?l * ?l) \<le> gd b i * gd b i" by (simp add: abs_mult_self_eq)
  moreover have "99 * (gd b i * gd b i) - 100 * (?l * ?l) \<le> 100 * (gd b (i + 1) * gd b (i - 1))"
    using assms(2-4) by (simp add: reduced_to_def)
  ultimately show ?thesis by linarith
qed

lemma short_chain:
  fixes A B C D :: int
  assumes "0 < A" "0 < B" "0 < C" "37 * (A * A) \<le> 50 * B" "37 * (B * B) \<le> 50 * (C * A)" "37 * (C * C) \<le> 50 * (D * B)"
  shows "37 ^ 6 * A ^ 4 \<le> 50 ^ 6 * D"
proof -
  have "(37 * (B * B)) * (37 * (B * B)) \<le> (50 * (C * A)) * (50 * (C * A))"
    using assms(1-3) by (intro mult_mono [OF assms(5) assms(5)]) auto
  then have "37 ^ 3 * B ^ 4 \<le> 50 ^ 2 * A ^ 2 * (37 * (C * C))"
    by (simp add: power2_eq_square power3_eq_cube power4_eq_xxxx algebra_simps)
  also have "\<dots> \<le> 50 ^ 2 * A ^ 2 * (50 * (D * B))"
    using assms(6) by (intro mult_left_mono) auto
  finally have "(37 ^ 3 * B ^ 3) * B \<le> (50 ^ 3 * A ^ 2 * D) * B"
    by (simp add: power2_eq_square power3_eq_cube power4_eq_xxxx algebra_simps)
  then have B: "37 ^ 3 * B ^ 3 \<le> 50 ^ 3 * A ^ 2 * D" using assms(2) by simp
  have "(37 * (A * A)) ^ 3 \<le> (50 * B) ^ 3" using assms by (intro power_mono) auto
  then have "37 ^ 3 * (37 * (A * A)) ^ 3 \<le> 50 ^ 3 * (37 ^ 3 * B ^ 3)" by (simp add: power_mult_distrib)
  also have "\<dots> \<le> 50 ^ 3 * (50 ^ 3 * A ^ 2 * D)" using B by (intro mult_left_mono) auto
  finally have "A ^ 2 * (37 ^ 6 * A ^ 4) \<le> A ^ 2 * (50 ^ 6 * D)"
    by (simp add: power2_eq_square power3_eq_cube power4_eq_xxxx algebra_simps)
  then show ?thesis using assms(1) by simp
qed

lemma first_row_short:
  assumes "gram_pos b" "reduced_to 4 b"
  shows "37 ^ 6 * dot (b ! 0) (b ! 0) ^ 4 \<le> 50 ^ 6 * gd b 4"
proof -
  have pos: "0 < gd b i" for i using assms(1) by (simp add: gram_pos_def)
  note r = reduced_ratio [OF assms]
  have "37 ^ 6 * gd b 1 ^ 4 \<le> 50 ^ 6 * gd b 4"
    using short_chain [OF pos pos pos, of 1 2 3 "gd b 4"] r [of 1] r [of 2] r [of 3]
    by (simp add: gd_nums(1) numeral_2_eq_2 [symmetric])
  then show ?thesis by (simp add: gd_nums ge_def)
qed

lemma max_norm_square: "max_norm v * max_norm v \<le> dot v v"
proof -
  have ge: "x * x \<le> dot v v" if "x \<in> set v" for x
    using that unfolding dot_def
  proof (induction v)
    case (Cons y v)
    have "0 \<le> sum_list (map (\<lambda>(p, q). p * q) (zip v v))"
      by (rule sum_list_nonneg) (auto simp: set_zip)
    then show ?case using Cons by (auto intro: order_trans)
  qed simp
  have "fold max (map abs v) a = a \<or> (\<exists>x \<in> set v. fold max (map abs v) a = \<bar>x\<bar>)" for a :: int
    by (induction v arbitrary: a) (auto simp: max_def)
  then have "max_norm v = 0 \<or> (\<exists>x \<in> set v. max_norm v = \<bar>x\<bar>)" by (simp add: max_norm_def)
  moreover have "0 \<le> dot v v"
    unfolding dot_def by (rule sum_list_nonneg) (auto simp: set_zip)
  ultimately show ?thesis using ge by (auto simp: abs_mult_self_eq)
qed

lemma dot_zero: "(\<forall>x \<in> set v. x = 0) \<Longrightarrow> dot v v = 0"
  unfolding dot_def by (induction v) auto

text \<open>A field of \<open>4 k + 1\<close> or \<open>4 k + 2\<close> bits (254 for the scalar field of BN254) leaves room enough
  for the first row of the reduced basis to be below the bound.\<close>

lemma first_row_good:
  assumes pos: "gram_pos b" and red: "reduced_to 4 b" and d4: "gd b 4 = (int m)\<^sup>2"
    and bits: "bit_len m mod 4 = 1 \<or> bit_len m mod 4 = 2"
  shows "max_norm (b ! 0) \<noteq> 0 \<and> max_norm (b ! 0) < 2 ^ ((bit_len m + 3) div 4)"
proof -
  let ?n = "max_norm (b ! 0)" and ?L = "bit_len m"
  define e where "e = (?L + 3) div 4"
  have e: "?L + 2 \<le> 4 * e" using bits unfolding e_def by presburger
  have "0 < gd b 1" using pos by (simp add: gram_pos_def)
  then have "0 < dot (b ! 0) (b ! 0)" by (simp add: gd_nums ge_def)
  then have nz: "?n \<noteq> 0" using max_norm_bounds(1) [of _ "b ! 0"] dot_zero [of "b ! 0"] by fastforce
  have n0: "0 \<le> ?n"
    using max_norm_bounds(2) [OF nz] max_norm_bounds(1) by (meson abs_ge_zero order_trans)
  have "?n < 2 ^ e"
  proof (rule ccontr)
    assume "\<not> ?n < 2 ^ e"
    then have "(2 ^ e) ^ 8 \<le> ?n ^ 8" by (intro power_mono) auto
    also have "?n ^ 8 = (?n * ?n) ^ 4" by (simp add: power_mult_distrib flip: power_add)
    also have "\<dots> \<le> dot (b ! 0) (b ! 0) ^ 4" using max_norm_square n0 by (intro power_mono) auto
    finally have "37 ^ 6 * (2 ^ e) ^ 8 \<le> 37 ^ 6 * dot (b ! 0) (b ! 0) ^ 4" by simp
    also have "\<dots> \<le> 50 ^ 6 * (int m)\<^sup>2" using first_row_short [OF pos red] d4 by simp
    also have "\<dots> \<le> 50 ^ 6 * (2 ^ ?L)\<^sup>2"
    proof -
      have "m < 2 ^ ?L" using bit_len_le_iff by blast
      then have "int m \<le> 2 ^ ?L" by (metis less_imp_le of_nat_le_iff of_nat_numeral of_nat_power)
      then show ?thesis by (intro mult_left_mono power_mono) auto
    qed
    finally have le: "37 ^ 6 * (2 ^ e) ^ 8 \<le> 50 ^ 6 * ((2 :: int) ^ ?L)\<^sup>2" .
    have "(2 :: int) ^ (2 * ?L + 4) \<le> 2 ^ (8 * e)" using e by (intro power_increasing) auto
    then have "37 ^ 6 * (16 * (2 ^ ?L)\<^sup>2) \<le> 37 ^ 6 * ((2 :: int) ^ e) ^ 8"
      by (simp add: power_add power_mult [symmetric] mult.commute)
    from order_trans [OF this le]
    have "2565726409 * (16 * (2 ^ ?L)\<^sup>2) \<le> 15625000000 * ((2 :: int) ^ ?L)\<^sup>2" by simp
    moreover have "0 < ((2 :: int) ^ ?L)\<^sup>2" by simp
    ultimately show False by linarith
  qed
  then show ?thesis using nz by (simp add: e_def)
qed

lemma glv_combine_first:
  assumes "square4 b"
  shows "glv_combine b 1201 = b ! 0"
proof -
  have "b ! 0 = map ((!) (b ! 0)) [0..<4]" using assms by (metis map_nth square4_def zero_less_numeral)
  then show ?thesis by (simp add: glv_combine_def glv_coeff_def upt_rec)
qed

section \<open>Properties\<close>

text \<open>C35: the lattice hint. The reduction returns, and what it returns is an LLL-reduced basis of the
  lattice \<open>a\<^sub>1 + \<lambda> a\<^sub>2 \<equiv> u (b\<^sub>1 + \<lambda> b\<^sub>2)\<close> modulo \<open>m\<close>: its rows lie in the lattice, their Gram determinant is
  that of the whole lattice, they are size-reduced and meet the exchange condition with factor 0.99,
  and the first one is as short as that implies. The hint's answer is a nonzero vector of the lattice with
  every entry below the bound, and the shortest of the 2401 small combinations of the basis; it is refused only when none of these is
  short enough, and never when the bit length of \<open>m\<close> is 1 or 2 modulo 4 (the scalar field of BN254 has
  254 bits).\<close>

theorem fake_glv_correct:
  assumes "m \<noteq> 0"
  shows "\<exists>b. lll (glv_basis u m lam) = Some b \<and> glv_rows_ok u m lam b \<and> gd b 4 = (int m)\<^sup>2 \<and> reduced_to 4 b \<and>
    37 ^ 6 * dot (b ! 0) (b ! 0) ^ 4 \<le> 50 ^ 6 * (int m)\<^sup>2 \<and>
    (case fake_glv u m lam of
       Some (Some v) \<Rightarrow> in_lattice u m lam v \<and> (\<exists>x \<in> set v. x \<noteq> 0) \<and>
         (\<forall>x \<in> set v. \<bar>x\<bar> < 2 ^ ((bit_len m + 3) div 4)) \<and>
         (\<exists>idx < 7 ^ 4. v = glv_combine b idx) \<and>
         (\<forall>idx < 7 ^ 4. max_norm (glv_combine b idx) \<noteq> 0 \<longrightarrow> max_norm v \<le> max_norm (glv_combine b idx))
     | Some None \<Rightarrow> (\<forall>idx < 7 ^ 4. \<not> glv_good b (2 ^ ((bit_len m + 3) div 4)) idx) \<and>
         bit_len m mod 4 \<noteq> 1 \<and> bit_len m mod 4 \<noteq> 2
     | None \<Rightarrow> False)"
proof -
  have "reduced_to 1 (glv_basis u m lam)" by (simp add: reduced_to_def)
  from lll_loop_returns [OF glv_basis_gram(1) [OF assms] _ _ this]
  obtain b where b: "lll (glv_basis u m lam) = Some b" "gram_pos b" "reduced_to 4 b" "gd b 4 = (int m)\<^sup>2"
    using glv_basis_gram(2) [OF assms, of u lam] unfolding lll_def by fastforce
  let ?bound = "2 ^ ((bit_len m + 3) div 4) :: int"
  have rows: "glv_rows_ok u m lam b"
    using lll_loop_rows b(1) glv_basis_rows unfolding lll_def by blast
  have first: "glv_good b ?bound 1201" if "bit_len m mod 4 = 1 \<or> bit_len m mod 4 = 2"
    using first_row_good [OF b(2-4) that] glv_combine_first b(2)
    by (simp add: glv_good_def gram_pos_def)
  have refused: "bit_len m mod 4 \<noteq> 1 \<and> bit_len m mod 4 \<noteq> 2" if none: "\<forall>idx < 7 ^ 4. \<not> glv_good b ?bound idx"
  proof -
    have "\<not> glv_good b ?bound 1201" using none by simp
    then show ?thesis using first by blast
  qed
  have least: "max_norm v \<le> max_norm (glv_combine b i)"
    if v: "max_norm v < ?bound" and le: "\<forall>i < 7 ^ 4. glv_good b ?bound i \<longrightarrow> max_norm v \<le> max_norm (glv_combine b i)"
      and i: "i < 7 ^ 4" "max_norm (glv_combine b i) \<noteq> 0" for v i
    using that by (cases "max_norm (glv_combine b i) < ?bound") (auto simp: glv_good_def)
  have "case fake_glv u m lam of
       Some (Some v) \<Rightarrow> in_lattice u m lam v \<and> (\<exists>x \<in> set v. x \<noteq> 0) \<and> (\<forall>x \<in> set v. \<bar>x\<bar> < ?bound) \<and>
         (\<exists>idx < 7 ^ 4. v = glv_combine b idx) \<and>
         (\<forall>idx < 7 ^ 4. max_norm (glv_combine b idx) \<noteq> 0 \<longrightarrow> max_norm v \<le> max_norm (glv_combine b idx))
     | Some None \<Rightarrow> (\<forall>idx < 7 ^ 4. \<not> glv_good b ?bound idx) \<and> bit_len m mod 4 \<noteq> 1 \<and> bit_len m mod 4 \<noteq> 2
     | None \<Rightarrow> False"
    using fake_glv_cases [OF assms b(1)] fake_glv_search [OF assms b(1)] refused least
    by (auto split: option.splits)
  then show ?thesis using b rows first_row_short [OF b(2,3)] by auto
qed

theorem fake_glv_correct_witness:
  "\<exists>v. fake_glv 5 37 10 = Some (Some v) \<and> in_lattice 5 37 10 v \<and> (\<exists>x \<in> set v. x \<noteq> 0) \<and> (\<forall>x \<in> set v. \<bar>x\<bar> < 4)"
proof -
  have "bit_len 37 = 6" by (simp add: bit_len.simps)
  then show ?thesis
    using fake_glv_correct [of 37 5 10] by (auto split: option.splits)
qed

end
