(* ===== verification/Ext_Libs.thy ===== *)
theory Ext_Libs
  imports Prelude
begin

text \<open>
  What the code takes from outside the repository and from Rust's standard library.

  \<^item> \<^verbatim>\<open>num-bigint\<close>'s \<^verbatim>\<open>BigUint\<close> and \<^verbatim>\<open>BigInt\<close> are the naturals and the integers;
    their decimal parsers are parameters, their bytes, digits and bit counts are computed
    on the numbers (in \<open>Bytecode\<close>).
  \<^item> \<^verbatim>\<open>ark_bn254::Fr\<close>, the BN254 scalar field, is a parameter: a record of the operations
    the code calls, used by every definition that computes with it. The locale
    \<open>fr_laws\<close> states the documented behaviour: arithmetic on canonical residues.
  \<^item> Rust's decimal printing, \<^verbatim>\<open>i64::parse\<close> and \<^verbatim>\<open>str::trim\<close> are modelled directly, on
    strings of bytes (\<open>trim\<close> strips the ASCII white space).

  \<open>ref_libs\<close> is a concrete instance of all parameters, on which the locales are
  interpreted and the witnesses of the development run.
\<close>

section \<open>The parameters\<close>

record 'f libs =
  fr_of_nat :: "nat \<Rightarrow> 'f" \<comment> \<open>\<^verbatim>\<open>Fr::from\<close>, \<^verbatim>\<open>from_le_bytes_mod_order\<close>, \<^verbatim>\<open>from_bigint\<close>\<close>
  fr_to_nat :: "'f \<Rightarrow> nat" \<comment> \<open>\<^verbatim>\<open>into_bigint\<close>\<close>
  fr_add :: "'f \<Rightarrow> 'f \<Rightarrow> 'f"
  fr_sub :: "'f \<Rightarrow> 'f \<Rightarrow> 'f"
  fr_mul :: "'f \<Rightarrow> 'f \<Rightarrow> 'f"
  fr_neg :: "'f \<Rightarrow> 'f"
  fr_inverse :: "'f \<Rightarrow> 'f option"
  biguint_parse :: "string \<Rightarrow> nat option" \<comment> \<open>\<^verbatim>\<open>BigUint::parse_bytes(_, 10)\<close>\<close>
  bigint_parse :: "string \<Rightarrow> int option" \<comment> \<open>\<^verbatim>\<open>BigInt::from_str\<close>\<close>

text \<open>\<^verbatim>\<open>Fr::MODULUS\<close>.\<close>

definition bn254_modulus :: nat where
  "bn254_modulus =
    21888242871839275222246405745257275088548364400416034343698204186575808495617"

lemma bn254_modulus_gt_1 [simp]: "1 < bn254_modulus" "0 < bn254_modulus"
  by (simp_all add: bn254_modulus_def)

locale fr_laws =
  fixes L :: "('f, 'z) libs_scheme"
  assumes fr_to_nat_less: "fr_to_nat L x < bn254_modulus"
    and fr_to_of_nat: "fr_to_nat L (fr_of_nat L n) = n mod bn254_modulus"
    and fr_of_to_nat: "fr_of_nat L (fr_to_nat L x) = x"
    and fr_add: "fr_to_nat L (fr_add L x y) = (fr_to_nat L x + fr_to_nat L y) mod bn254_modulus"
    and fr_mul: "fr_to_nat L (fr_mul L x y) = (fr_to_nat L x * fr_to_nat L y) mod bn254_modulus"
    and fr_neg: "int (fr_to_nat L (fr_neg L x)) = (- int (fr_to_nat L x)) mod int bn254_modulus"
    and fr_sub: "fr_sub L x y = fr_add L x (fr_neg L y)"
    and fr_inverse_Some:
      "fr_inverse L x = Some y \<Longrightarrow> (fr_to_nat L x * fr_to_nat L y) mod bn254_modulus = 1"
    and fr_inverse_None: "fr_inverse L x = None \<longleftrightarrow> \<not> coprime (fr_to_nat L x) bn254_modulus"
begin

lemma fr_eq_iff: "x = y \<longleftrightarrow> fr_to_nat L x = fr_to_nat L y"
  by (metis fr_of_to_nat)

end

section \<open>Rust's decimal strings\<close>

definition digit_char :: "nat \<Rightarrow> char" where
  "digit_char d = char_of (48 + d)"

definition is_ascii_digit :: "char \<Rightarrow> bool" where
  "is_ascii_digit c \<longleftrightarrow> 48 \<le> (of_char c :: nat) \<and> (of_char c :: nat) \<le> 57"

fun show_nat :: "nat \<Rightarrow> string" where
  "show_nat n = (if n < 10 then [digit_char n] else show_nat (n div 10) @ [digit_char (n mod 10)])"

declare show_nat.simps [simp del]

definition show_int :: "int \<Rightarrow> string" where
  "show_int z = (if z < 0 then CHR ''-'' # show_nat (nat (- z)) else show_nat (nat z))"

definition digits_value :: "string \<Rightarrow> nat" where
  "digits_value s = foldl (\<lambda>v c. v * 10 + (of_char c - 48)) 0 s"

definition parse_digits :: "string \<Rightarrow> nat option" where
  "parse_digits s = (if s \<noteq> [] \<and> list_all is_ascii_digit s then Some (digits_value s) else None)"

text \<open>\<^verbatim>\<open>str::parse::<i64>\<close>: an optional sign, at least one digit, in range.\<close>

definition parse_i64 :: "string \<Rightarrow> i64 option" where
  "parse_i64 s =
    (let (neg, ds) = (case s of CHR ''-'' # r \<Rightarrow> (True, r) | CHR ''+'' # r \<Rightarrow> (False, r) | _ \<Rightarrow> (False, s))
     in case parse_digits ds of
          None \<Rightarrow> None
        | Some n \<Rightarrow> (let z = (if neg then - int n else int n) in
                      if i64_fits z then Some (word_of_int z) else None))"

definition is_ascii_space :: "char \<Rightarrow> bool" where
  "is_ascii_space c \<longleftrightarrow> (of_char c :: nat) = 32 \<or> (9 \<le> (of_char c :: nat) \<and> (of_char c :: nat) \<le> 13)"

definition trim :: "string \<Rightarrow> string" where
  "trim s = rev (dropWhile is_ascii_space (rev (dropWhile is_ascii_space s)))"

lemma of_digit_char: "d < 10 \<Longrightarrow> (of_char (digit_char d) :: nat) = 48 + d"
  by (simp add: digit_char_def)

lemma digit_char_is_digit: "d < 10 \<Longrightarrow> is_ascii_digit (digit_char d)"
  by (simp add: is_ascii_digit_def of_digit_char)

lemma show_nat_digits: "list_all is_ascii_digit (show_nat n)" "show_nat n \<noteq> []"
proof (induction n rule: show_nat.induct)
  case (1 n)
  {
    case 1
    show ?case using "1.IH"(1)
      by (subst show_nat.simps) (simp add: digit_char_is_digit)
  next
    case 2
    show ?case by (subst show_nat.simps) simp
  }
qed

lemma digits_value_show_nat: "digits_value (show_nat n) = n"
proof (induction n rule: show_nat.induct)
  case (1 n)
  show ?case
  proof (cases "n < 10")
    case True
    then show ?thesis by (subst show_nat.simps) (simp add: digits_value_def of_digit_char)
  next
    case False
    then show ?thesis using 1
      by (subst show_nat.simps) (simp add: digits_value_def of_digit_char)
  qed
qed

lemma parse_digits_show_nat [simp]: "parse_digits (show_nat n) = Some n"
  by (simp add: parse_digits_def show_nat_digits digits_value_show_nat)

lemma not_digit_minus: "\<not> is_ascii_digit (CHR ''-'')" "\<not> is_ascii_digit (CHR ''+'')"
  by (simp_all add: is_ascii_digit_def)

lemma show_nat_head: "show_nat n = c # cs \<Longrightarrow> is_ascii_digit c"
  using show_nat_digits(1) [of n] by simp

lemma parse_i64_show_int: "parse_i64 (show_int z) = (if i64_fits z then Some (word_of_int z) else None)"
proof (cases "z < 0")
  case True
  then show ?thesis by (simp add: parse_i64_def show_int_def)
next
  case False
  obtain c cs where c: "show_nat (nat z) = c # cs"
    using show_nat_digits(2) [of "nat z"] by (cases "show_nat (nat z)") auto
  then have "c \<noteq> CHR ''-''" "c \<noteq> CHR ''+''"
    using show_nat_head [OF c] not_digit_minus by auto
  then have "(case show_nat (nat z) of CHR ''-'' # r \<Rightarrow> (True, r) | CHR ''+'' # r \<Rightarrow> (False, r)
      | _ \<Rightarrow> (False, show_nat (nat z))) = (False, show_nat (nat z))"
    unfolding c by (auto split: char.split bool.split)
  then show ?thesis using False by (simp add: parse_i64_def show_int_def)
qed

lemma digit_not_space: "is_ascii_digit c \<Longrightarrow> \<not> is_ascii_space c"
  by (auto simp: is_ascii_digit_def is_ascii_space_def)

lemma trim_id: "s \<noteq> [] \<Longrightarrow> \<not> is_ascii_space (hd s) \<Longrightarrow> \<not> is_ascii_space (last s) \<Longrightarrow> trim s = s"
proof -
  assume s: "s \<noteq> []" "\<not> is_ascii_space (hd s)" "\<not> is_ascii_space (last s)"
  have "dropWhile is_ascii_space s = s" using s(1,2) by (cases s) auto
  moreover have "dropWhile is_ascii_space (rev s) = rev s"
    using s(1,3) by (cases s rule: rev_cases) auto
  ultimately show "trim s = s" by (simp add: trim_def)
qed

lemma trim_show_int [simp]: "trim (show_int z) = show_int z"
proof (rule trim_id)
  have ds: "\<forall>c \<in> set (show_nat n). \<not> is_ascii_space c" for n
    using show_nat_digits(1) [of n] by (auto simp: list_all_iff dest: digit_not_space)
  have "\<not> is_ascii_space (CHR ''-'')" by (simp add: is_ascii_space_def)
  moreover have "hd (show_nat n) \<in> set (show_nat n)" for n
    using show_nat_digits(2) by simp
  ultimately show "\<not> is_ascii_space (hd (show_int z))"
    using ds by (auto simp: show_int_def)
  have "\<not> is_ascii_space (last (show_nat n))" for n
    using ds show_nat_digits(2) last_in_set by blast
  then show "\<not> is_ascii_space (last (show_int z))"
    using ds show_nat_digits(2) by (auto simp: show_int_def)
qed (simp add: show_int_def show_nat_digits)

text \<open>\<^verbatim>\<open>str::strip_prefix\<close> of one character.\<close>

fun strip_char :: "char \<Rightarrow> string \<Rightarrow> string option" where
  "strip_char c [] = None"
| "strip_char c (x # xs) = (if x = c then Some xs else None)"

lemma strip_char_show_int:
  "strip_char (CHR ''-'') (show_int z) = (if z < 0 then Some (show_nat (nat (- z))) else None)"
proof (cases "z < 0")
  case False
  obtain c cs where c: "show_nat (nat z) = c # cs"
    using show_nat_digits(2) [of "nat z"] by (cases "show_nat (nat z)") auto
  then have "c \<noteq> CHR ''-''" using show_nat_head [OF c] not_digit_minus by auto
  then show ?thesis using False by (simp add: show_int_def c)
qed (simp add: show_int_def)

text \<open>The decimal laws: the bignum parsers read what Rust prints.\<close>

locale decimal_laws =
  fixes L :: "('f, 'z) libs_scheme"
  assumes biguint_parse_show: "biguint_parse L (show_nat n) = Some n"
    and bigint_parse_show: "bigint_parse L (show_int z) = Some z"

locale num_libs = fr_laws L + decimal_laws L
  for L :: "('f, 'z) libs_scheme"

section \<open>A concrete instance\<close>

typedef fr_ref = "{n :: nat. n < bn254_modulus}"
  by (rule exI [of _ 0]) simp

definition ref_of_nat :: "nat \<Rightarrow> fr_ref" where
  "ref_of_nat n = Abs_fr_ref (n mod bn254_modulus)"

definition ref_inverse :: "fr_ref \<Rightarrow> fr_ref option" where
  "ref_inverse x =
    (let a = Rep_fr_ref x in
     if gcd a bn254_modulus = 1
     then Some (ref_of_nat (nat (fst (bezw a bn254_modulus) mod int bn254_modulus)))
     else None)"

definition ref_bigint_parse :: "string \<Rightarrow> int option" where
  "ref_bigint_parse s = (case s of
      CHR ''-'' # r \<Rightarrow> map_option (\<lambda>n. - int n) (parse_digits r)
    | _ \<Rightarrow> map_option int (parse_digits s))"

definition ref_libs :: "fr_ref libs" where
  "ref_libs = \<lparr>
     fr_of_nat = ref_of_nat,
     fr_to_nat = Rep_fr_ref,
     fr_add = (\<lambda>x y. ref_of_nat (Rep_fr_ref x + Rep_fr_ref y)),
     fr_sub = (\<lambda>x y. ref_of_nat (Rep_fr_ref x + (bn254_modulus - Rep_fr_ref y))),
     fr_mul = (\<lambda>x y. ref_of_nat (Rep_fr_ref x * Rep_fr_ref y)),
     fr_neg = (\<lambda>x. ref_of_nat (bn254_modulus - Rep_fr_ref x)),
     fr_inverse = ref_inverse,
     biguint_parse = parse_digits,
     bigint_parse = ref_bigint_parse\<rparr>"

lemma Rep_ref_less: "Rep_fr_ref x < bn254_modulus"
  using Rep_fr_ref [of x] by simp

lemma Rep_ref_of_nat [simp]: "Rep_fr_ref (ref_of_nat n) = n mod bn254_modulus"
  by (simp add: ref_of_nat_def Abs_fr_ref_inverse)

lemma ref_of_nat_eqI: "n mod bn254_modulus = k mod bn254_modulus \<Longrightarrow> ref_of_nat n = ref_of_nat k"
  by (simp add: ref_of_nat_def)

lemma bezw_inverse:
  assumes "gcd a p = 1" "1 < p"
  shows "(int a * (fst (bezw a p) mod int p)) mod int p = 1"
proof -
  have "int a * fst (bezw a p) = 1 + int p * (- snd (bezw a p))"
    using bezw_aux [of a p] assms(1) by (simp add: algebra_simps)
  then have "(int a * fst (bezw a p)) mod int p = 1 mod int p"
    by (simp only: mod_mult_self2)
  then show ?thesis using assms(2) by (simp add: mod_mult_right_eq)
qed

lemma ref_inverse_mult:
  assumes "ref_inverse x = Some y"
  shows "(Rep_fr_ref x * Rep_fr_ref y) mod bn254_modulus = 1"
proof -
  let ?a = "Rep_fr_ref x" and ?p = bn254_modulus
  let ?b = "fst (bezw ?a ?p) mod int ?p"
  have g: "gcd ?a ?p = 1" and y: "y = ref_of_nat (nat ?b)"
    using assms unfolding ref_inverse_def Let_def by (simp_all split: if_splits)
  have b: "0 \<le> ?b" "?b < int ?p" by simp_all
  then have "nat ?b < ?p" by (simp only: nat_less_iff)
  then have "int (Rep_fr_ref y) = ?b" unfolding y Rep_ref_of_nat using b(1) by simp
  then have "int ((?a * Rep_fr_ref y) mod ?p) = (int ?a * ?b) mod int ?p"
    by (simp only: of_nat_mod of_nat_mult)
  also have "\<dots> = 1" by (rule bezw_inverse [OF g bn254_modulus_gt_1(1)])
  finally show ?thesis by simp
qed

interpretation ref: num_libs ref_libs
proof
  fix x y :: fr_ref and n z
  let ?p = bn254_modulus
  show "fr_to_nat ref_libs x < ?p" by (simp add: ref_libs_def Rep_ref_less)
  show "fr_to_nat ref_libs (fr_of_nat ref_libs n) = n mod ?p" by (simp add: ref_libs_def)
  show "fr_of_nat ref_libs (fr_to_nat ref_libs x) = x"
    by (simp add: ref_libs_def ref_of_nat_def Rep_ref_less Rep_fr_ref_inverse)
  show "fr_to_nat ref_libs (fr_add ref_libs x y) = (fr_to_nat ref_libs x + fr_to_nat ref_libs y) mod ?p"
    by (simp add: ref_libs_def)
  show "fr_to_nat ref_libs (fr_mul ref_libs x y) = (fr_to_nat ref_libs x * fr_to_nat ref_libs y) mod ?p"
    by (simp add: ref_libs_def)
  show "int (fr_to_nat ref_libs (fr_neg ref_libs x)) = (- int (fr_to_nat ref_libs x)) mod int ?p"
  proof -
    have "int (Rep_fr_ref (ref_of_nat (?p - Rep_fr_ref x))) = int (?p - Rep_fr_ref x) mod int ?p"
      unfolding Rep_ref_of_nat by (rule of_nat_mod)
    also have "int (?p - Rep_fr_ref x) = int ?p - int (Rep_fr_ref x)"
      using Rep_ref_less [of x] by (simp only: of_nat_diff less_imp_le)
    also have "\<dots> mod int ?p = (- int (Rep_fr_ref x)) mod int ?p" by (rule minus_mod_self1)
    finally show ?thesis by (simp add: ref_libs_def)
  qed
  show "fr_sub ref_libs x y = fr_add ref_libs x (fr_neg ref_libs y)"
    unfolding ref_libs_def libs.simps Rep_ref_of_nat by (rule ref_of_nat_eqI) (simp only: mod_add_right_eq)
  show "fr_inverse ref_libs x = None \<longleftrightarrow> \<not> coprime (fr_to_nat ref_libs x) ?p"
    by (simp add: ref_libs_def ref_inverse_def Let_def coprime_iff_gcd_eq_1)
  show "(fr_to_nat ref_libs x * fr_to_nat ref_libs y) mod ?p = 1" if "fr_inverse ref_libs x = Some y"
    using that by (simp add: ref_libs_def ref_inverse_mult)
  show "biguint_parse ref_libs (show_nat n) = Some n" by (simp add: ref_libs_def)
  show "bigint_parse ref_libs (show_int z) = Some z"
  proof (cases "z < 0")
    case False
    obtain c cs where c: "show_nat (nat z) = c # cs"
      using show_nat_digits(2) [of "nat z"] by (cases "show_nat (nat z)") auto
    then have m: "c \<noteq> CHR ''-''" using show_nat_head [OF c] not_digit_minus by auto
    have "ref_bigint_parse (show_nat (nat z)) = map_option int (parse_digits (show_nat (nat z)))"
      using m unfolding ref_bigint_parse_def c by (auto split: char.split bool.split)
    then show ?thesis using False by (simp add: ref_libs_def show_int_def)
  qed (simp add: ref_libs_def show_int_def ref_bigint_parse_def)
qed

end
