(* ===== verification/Field_Const.thy ===== *)
theory Field_Const
  imports Ext_Libs
begin

text \<open>
  Field constants, \<^verbatim>\<open>crates/ir/src/field.rs\<close>: exact signed integers, an \<^verbatim>\<open>i64\<close> inline
  when they fit and a big integer otherwise, reduced into a prime field only by the
  backends. The struct has one field, its \<^verbatim>\<open>Repr\<close>, which is the datatype here; the
  cached BN254 reduction of a big value is a cache and not part of it (equality, order
  and printing ignore it in the code too).

  Shown: every operation is exact on the integers, keeps the \<^verbatim>\<open>Small\<close>/\<^verbatim>\<open>Big\<close> split
  canonical (so that the derived equality is equality of integers), decimal strings
  and bit decompositions round-trip.
\<close>

section \<open>Representation\<close>

datatype field_const = Small i64 | Big int

fun fc_big :: "field_const \<Rightarrow> int" where
  "fc_big (Small i) = sint i"
| "fc_big (Big v) = v"

fun fc_wf :: "field_const \<Rightarrow> bool" where
  "fc_wf (Small i) = True"
| "fc_wf (Big v) = (\<not> i64_fits v)"

definition norm :: "int \<Rightarrow> field_const" where
  "norm v = (if i64_fits v then Small (word_of_int v) else Big v)"

text \<open>The derived order: every \<^verbatim>\<open>Small\<close> before every \<^verbatim>\<open>Big\<close>, then by value.\<close>

fun fc_cmp_key :: "field_const \<Rightarrow> bool \<times> int" where
  "fc_cmp_key (Small i) = (False, sint i)"
| "fc_cmp_key (Big v) = (True, v)"

lemma fc_cmp_key_inj: "fc_cmp_key a = fc_cmp_key b \<Longrightarrow> a = b"
  by (cases a; cases b) (auto simp: i64_eq_iff)

instantiation field_const :: linorder
begin

definition less_eq_field_const :: "field_const \<Rightarrow> field_const \<Rightarrow> bool" where
  "less_eq_field_const a b \<longleftrightarrow>
    fst (fc_cmp_key a) < fst (fc_cmp_key b) \<or>
    fst (fc_cmp_key a) = fst (fc_cmp_key b) \<and> snd (fc_cmp_key a) \<le> snd (fc_cmp_key b)"

definition less_field_const :: "field_const \<Rightarrow> field_const \<Rightarrow> bool" where
  "less_field_const a b \<longleftrightarrow> a \<le> b \<and> \<not> b \<le> a"

instance
proof
  fix a b c :: field_const
  show "a < b \<longleftrightarrow> a \<le> b \<and> \<not> b \<le> a" by (rule less_field_const_def)
  show "a \<le> a" by (simp add: less_eq_field_const_def)
  show "a \<le> b \<Longrightarrow> b \<le> c \<Longrightarrow> a \<le> c" by (auto simp: less_eq_field_const_def)
  show "a \<le> b \<Longrightarrow> b \<le> a \<Longrightarrow> a = b"
    by (rule fc_cmp_key_inj) (auto simp: less_eq_field_const_def prod_eq_iff)
  show "a \<le> b \<or> b \<le> a" by (auto simp: less_eq_field_const_def)
qed

end

section \<open>Operations\<close>

definition fc_as_big :: "field_const \<Rightarrow> int option" where
  "fc_as_big c = (case c of Small _ \<Rightarrow> None | Big v \<Rightarrow> Some v)"

definition fc_from_bigint :: "int \<Rightarrow> field_const" where
  "fc_from_bigint v = norm v"

definition fc_from_i64 :: "i64 \<Rightarrow> field_const" where
  "fc_from_i64 i = Small i"

definition fc_from_decimal :: "('f, 'z) libs_scheme \<Rightarrow> string \<Rightarrow> field_const option" where
  "fc_from_decimal L s = map_option fc_from_bigint (bigint_parse L (trim s))"

definition fc_zero :: field_const where
  "fc_zero = fc_from_i64 0"

definition fc_one :: field_const where
  "fc_one = fc_from_i64 1"

definition fc_decimal :: "field_const \<Rightarrow> string" where
  "fc_decimal c = (case c of Small i \<Rightarrow> show_int (sint i) | Big v \<Rightarrow> show_int v)"

definition fc_as_i64 :: "field_const \<Rightarrow> i64 option" where
  "fc_as_i64 c = (case c of Small i \<Rightarrow> Some i | Big _ \<Rightarrow> None)"

definition fc_is_zero :: "field_const \<Rightarrow> bool" where
  "fc_is_zero c \<longleftrightarrow> (case c of Small i \<Rightarrow> i = 0 | Big _ \<Rightarrow> False)"

definition fc_is_one :: "field_const \<Rightarrow> bool" where
  "fc_is_one c \<longleftrightarrow> (case c of Small i \<Rightarrow> i = 1 | Big _ \<Rightarrow> False)"

definition fc_is_neg_one :: "field_const \<Rightarrow> bool" where
  "fc_is_neg_one c \<longleftrightarrow> (case c of Small i \<Rightarrow> i = - 1 | Big _ \<Rightarrow> False)"

definition fc_is_negative :: "field_const \<Rightarrow> bool" where
  "fc_is_negative c \<longleftrightarrow> (case c of Small i \<Rightarrow> sint i < 0 | Big v \<Rightarrow> v < 0)"

text \<open>\<^verbatim>\<open>checked_add\<close>, \<^verbatim>\<open>checked_mul\<close> and \<^verbatim>\<open>checked_neg\<close> of \<^verbatim>\<open>i64\<close>.\<close>

definition i64_checked :: "int \<Rightarrow> i64 option" where
  "i64_checked z = (if i64_fits z then Some (word_of_int z) else None)"

definition fc_add :: "field_const \<Rightarrow> field_const \<Rightarrow> field_const" where
  "fc_add a b =
    (case (case (a, b) of (Small x, Small y) \<Rightarrow> i64_checked (sint x + sint y) | _ \<Rightarrow> None) of
       Some s \<Rightarrow> Small s
     | None \<Rightarrow> fc_from_bigint (fc_big a + fc_big b))"

definition fc_mul :: "field_const \<Rightarrow> field_const \<Rightarrow> field_const" where
  "fc_mul a b =
    (case (case (a, b) of (Small x, Small y) \<Rightarrow> i64_checked (sint x * sint y) | _ \<Rightarrow> None) of
       Some p \<Rightarrow> Small p
     | None \<Rightarrow> fc_from_bigint (fc_big a * fc_big b))"

definition fc_neg :: "field_const \<Rightarrow> field_const" where
  "fc_neg a =
    (case (case a of Small x \<Rightarrow> i64_checked (- sint x) | _ \<Rightarrow> None) of
       Some n \<Rightarrow> Small n
     | None \<Rightarrow> fc_from_bigint (- fc_big a))"

definition reduce_bn254 :: "('f, 'z) libs_scheme \<Rightarrow> int \<Rightarrow> 'f" where
  "reduce_bn254 L v =
    (let m = nat \<bar>v\<bar> mod bn254_modulus; f = fr_of_nat L m
     in if v < 0 then fr_neg L f else f)"

fun fc_to_bn254_fr :: "('f, 'z) libs_scheme \<Rightarrow> field_const \<Rightarrow> 'f" where
  "fc_to_bn254_fr L (Small i) =
     (if sint i < 0 then fr_neg L (fr_of_nat L (nat \<bar>sint i\<bar>)) else fr_of_nat L (nat (sint i)))"
| "fc_to_bn254_fr L (Big v) = reduce_bn254 L v"

definition fc_to_bits_le :: "('f, 'z) libs_scheme \<Rightarrow> field_const \<Rightarrow> nat \<Rightarrow> bool list option" where
  "fc_to_bits_le L c n =
    (let v = fr_to_nat L (fc_to_bn254_fr L c)
     in if bit_len v > n then None else Some (map (\<lambda>i. i < 256 \<and> bit v i) [0..<n]))"

definition fc_render_parts :: "field_const \<Rightarrow> bool \<times> bool \<times> string" where
  "fc_render_parts c = (case c of
      Small i \<Rightarrow> (sint i < 0, nat \<bar>sint i\<bar> = 1, show_nat (nat \<bar>sint i\<bar>))
    | Big v \<Rightarrow> (let a = \<bar>v\<bar> in (v < 0, a = 1, show_int a)))"

definition fc_from_str :: "('f, 'z) libs_scheme \<Rightarrow> string \<Rightarrow> field_const" where
  "fc_from_str L s = (case fc_from_decimal L s of Some c \<Rightarrow> c | None \<Rightarrow> fc_zero)"

section \<open>Exactness and canonicity\<close>

lemma norm_value [simp, fc_value]: "fc_big (norm v) = v" "fc_wf (norm v)"
  by (simp_all add: norm_def sint_word_of_int_i64)

lemma fc_from_bigint_value [simp, fc_value]: "fc_big (fc_from_bigint v) = v" "fc_wf (fc_from_bigint v)"
  by (simp_all add: fc_from_bigint_def)

lemma fc_from_i64_value [simp, fc_value]: "fc_big (fc_from_i64 i) = sint i" "fc_wf (fc_from_i64 i)"
  by (simp_all add: fc_from_i64_def)

lemma fc_zero_one_value [simp, fc_value]:
  "fc_big fc_zero = 0" "fc_wf fc_zero" "fc_big fc_one = 1" "fc_wf fc_one"
  by (simp_all add: fc_zero_def fc_one_def fc_from_i64_def)

lemma i64_checked_Some: "i64_checked z = Some w \<Longrightarrow> sint w = z"
  by (auto simp: i64_checked_def sint_word_of_int_i64 split: if_splits)

lemma fc_add_value [simp, fc_value]: "fc_big (fc_add a b) = fc_big a + fc_big b" "fc_wf (fc_add a b)"
  by (auto simp: fc_add_def split: field_const.splits option.splits dest: i64_checked_Some)

lemma fc_mul_value [simp, fc_value]: "fc_big (fc_mul a b) = fc_big a * fc_big b" "fc_wf (fc_mul a b)"
  by (auto simp: fc_mul_def split: field_const.splits option.splits dest: i64_checked_Some)

lemma fc_neg_value [simp, fc_value]: "fc_big (fc_neg a) = - fc_big a" "fc_wf (fc_neg a)"
  by (auto simp: fc_neg_def split: field_const.splits option.splits dest: i64_checked_Some)

lemma i64_fits_0 [simp]: "i64_fits 0" "i64_fits 1" "i64_fits (- 1)"
  by (simp_all add: i64_fits_def)

lemma fc_norm_big: "fc_wf c \<Longrightarrow> norm (fc_big c) = c"
  by (cases c) (simp_all add: norm_def)

lemma fc_eq_iff: "fc_wf a \<Longrightarrow> fc_wf b \<Longrightarrow> a = b \<longleftrightarrow> fc_big a = fc_big b"
  by (metis fc_norm_big)

lemma fc_is_zero_iff: "fc_wf c \<Longrightarrow> fc_is_zero c \<longleftrightarrow> fc_big c = 0"
  by (cases c) (auto simp: fc_is_zero_def i64_eq_iff)

lemma fc_is_one_iff: "fc_wf c \<Longrightarrow> fc_is_one c \<longleftrightarrow> fc_big c = 1"
  by (cases c) (auto simp: fc_is_one_def i64_eq_iff)

lemma fc_is_neg_one_iff: "fc_wf c \<Longrightarrow> fc_is_neg_one c \<longleftrightarrow> fc_big c = - 1"
  by (cases c) (auto simp: fc_is_neg_one_def i64_eq_iff)

lemma fc_is_zero_big: "fc_is_zero c \<Longrightarrow> fc_big c = 0"
  by (cases c) (auto simp: fc_is_zero_def)

lemma fc_is_zero_zero [simp]: "fc_is_zero fc_zero"
  by (simp add: fc_is_zero_def fc_zero_def fc_from_i64_def)

text \<open>C38: arithmetic on field constants is exact integer arithmetic, whatever the widths:
  sums, products and negations have the integer value they should (no \<^verbatim>\<open>i64\<close> overflow is
  lost), their results are canonical, and on canonical constants the structural equality
  the code derives is equality of the integers.\<close>

theorem field_const_exact:
  assumes "fc_wf a" "fc_wf b"
  shows "fc_big (fc_add a b) = fc_big a + fc_big b \<and>
    fc_big (fc_mul a b) = fc_big a * fc_big b \<and>
    fc_big (fc_neg a) = - fc_big a \<and>
    fc_wf (fc_add a b) \<and> fc_wf (fc_mul a b) \<and> fc_wf (fc_neg a) \<and>
    (a = b \<longleftrightarrow> fc_big a = fc_big b)"
  using fc_eq_iff [OF assms] by simp

theorem field_const_exact_witness:
  "fc_big (fc_add (norm (2 ^ 63 - 1)) (norm 1)) = 2 ^ 63 \<and>
   fc_add (norm (2 ^ 63 - 1)) (norm 1) = Big (2 ^ 63)"
proof -
  have "fc_big (fc_add (norm (2 ^ 63 - 1)) (norm 1)) = (2 ^ 63 - 1) + 1 \<and>
      fc_wf (fc_add (norm (2 ^ 63 - 1)) (norm 1))"
    using field_const_exact [of "norm (2 ^ 63 - 1)" "norm 1"] by (simp only: norm_value)
  moreover from this have "fc_add (norm (2 ^ 63 - 1)) (norm 1) = norm (2 ^ 63)"
    using fc_norm_big by (metis diff_add_cancel)
  ultimately show ?thesis by (simp add: norm_def i64_fits_def)
qed

section \<open>Decimal strings\<close>

lemma fc_decimal_show: "fc_decimal c = show_int (fc_big c)"
  by (cases c) (simp_all add: fc_decimal_def)

lemma fc_render_parts_value:
  "fc_render_parts c = (fc_big c < 0, \<bar>fc_big c\<bar> = 1, show_nat (nat \<bar>fc_big c\<bar>))"
  by (cases c) (auto simp: fc_render_parts_def Let_def show_int_def)

context decimal_laws begin

lemma fc_from_decimal_show: "fc_from_decimal L (show_int z) = Some (norm z)"
  by (simp add: fc_from_decimal_def bigint_parse_show fc_from_bigint_def)

lemma fc_decimal_roundtrip: "fc_wf c \<Longrightarrow> fc_from_decimal L (fc_decimal c) = Some c"
  by (simp add: fc_decimal_show fc_from_decimal_show fc_norm_big)

end

section \<open>Reduction into BN254\<close>

context fr_laws begin

lemma fr_to_nat_signed:
  "int (fr_to_nat L (if z < 0 then fr_neg L (fr_of_nat L (nat \<bar>z\<bar>)) else fr_of_nat L (nat z)))
    = z mod int bn254_modulus"
  by (simp add: fr_neg fr_to_of_nat of_nat_mod mod_minus_eq)

lemma reduce_bn254_value: "int (fr_to_nat L (reduce_bn254 L v)) = v mod int bn254_modulus"
  by (simp add: reduce_bn254_def Let_def fr_neg fr_to_of_nat of_nat_mod mod_minus_eq)

lemma fc_to_bn254_fr_value:
  "int (fr_to_nat L (fc_to_bn254_fr L c)) = fc_big c mod int bn254_modulus"
  by (cases c) (simp_all add: fr_to_nat_signed reduce_bn254_value)

lemma fc_to_bits_le_value:
  "fc_to_bits_le L c n =
    (let v = nat (fc_big c mod int bn254_modulus)
     in if v < 2 ^ n then Some (map (bit v) [0..<n]) else None)"
proof -
  let ?v = "fr_to_nat L (fc_to_bn254_fr L c)"
  have v: "?v = nat (fc_big c mod int bn254_modulus)"
    using fc_to_bn254_fr_value [of c] by simp
  have "?v < 2 ^ 256" using fr_to_nat_less [of "fc_to_bn254_fr L c"] by (simp add: bn254_modulus_def)
  then have b: "(i < 256 \<and> bit ?v i) = bit ?v i" for i
    using bit_take_bit_iff [of 256 ?v i] by (auto simp: take_bit_nat_eq_self)
  have "fc_to_bits_le L c n = (if ?v < 2 ^ n then Some (map (bit ?v) [0..<n]) else None)"
    unfolding fc_to_bits_le_def Let_def b by (simp add: bit_len_le_iff flip: not_le)
  then show ?thesis unfolding v Let_def .
qed

end

end
