(* ===== verification/Lin_Comb.thy ===== *)
theory Lin_Comb
  imports Field_Const "HOL-Library.Multiset"
begin

text \<open>
  Linear combinations over circuit variables, \<^verbatim>\<open>crates/ir/src/linear_combination.rs\<close>:
  \<open>constant + \<Sum> coeff\<^sub>i * var\<^sub>i\<close>. Shown: addition, subtraction, negation, scaling and
  \<^verbatim>\<open>simplified\<close> keep the value at every integer assignment; \<^verbatim>\<open>simplified\<close> and addition
  of canonical operands give the canonical form (increasing variables, no zero
  coefficient), which is unique; and the sorted-merge fast path of addition gives the
  very list that concatenating and simplifying gives.
\<close>

section \<open>Data\<close>

type_synonym var_id = u32

record lc_term =
  t_coeff :: field_const
  t_var :: var_id

record lin_comb =
  lc_const :: field_const
  lc_terms :: "lc_term list"

section \<open>Operations\<close>

definition lc_zero :: lin_comb where
  "lc_zero = \<lparr>lc_const = fc_zero, lc_terms = []\<rparr>"

definition lc_one :: lin_comb where
  "lc_one = \<lparr>lc_const = fc_one, lc_terms = []\<rparr>"

definition lc_var :: "var_id \<Rightarrow> lin_comb" where
  "lc_var v = \<lparr>lc_const = fc_zero, lc_terms = [\<lparr>t_coeff = fc_one, t_var = v\<rparr>]\<rparr>"

definition lc_constant :: "('f, 'z) libs_scheme \<Rightarrow> string \<Rightarrow> lin_comb" where
  "lc_constant L decimal = \<lparr>lc_const = fc_from_str L decimal, lc_terms = []\<rparr>"

definition lc_is_constant :: "lin_comb \<Rightarrow> bool" where
  "lc_is_constant lc \<longleftrightarrow> lc_terms lc = []"

definition lc_is_zero :: "lin_comb \<Rightarrow> bool" where
  "lc_is_zero lc \<longleftrightarrow> lc_terms lc = [] \<and> fc_is_zero (lc_const lc)"

text \<open>Strictly increasing variables (\<^verbatim>\<open>windows(2)\<close>) and no zero coefficient.\<close>

definition is_canonical :: "lc_term list \<Rightarrow> bool" where
  "is_canonical ts \<longleftrightarrow>
    successively (\<lambda>w0 w1. t_var w0 < t_var w1) ts \<and> \<not> list_ex (\<lambda>t. fc_is_zero (t_coeff t)) ts"

text \<open>The merging loop of \<^verbatim>\<open>simplified\<close>; \<open>merged\<close> is kept with its last element first.\<close>

fun merge_into_last :: "lc_term list \<Rightarrow> lc_term \<Rightarrow> lc_term list" where
  "merge_into_last [] t = [t]"
| "merge_into_last (l # merged) t =
     (if t_var l = t_var t then l\<lparr>t_coeff := fc_add (t_coeff l) (t_coeff t)\<rparr> # merged
      else t # l # merged)"

definition simplified :: "lin_comb \<Rightarrow> lin_comb" where
  "simplified lc =
    (if is_canonical (lc_terms lc) then lc
     else
       let sorted = sort_key t_var (lc_terms lc);
           merged = rev (foldl merge_into_last [] sorted)
       in lc\<lparr>lc_terms := filter (\<lambda>t. \<not> fc_is_zero (t_coeff t)) merged\<rparr>)"

definition lc_scale :: "lin_comb \<Rightarrow> field_const \<Rightarrow> lin_comb" where
  "lc_scale lc k =
    simplified \<lparr>lc_const = fc_mul (lc_const lc) k,
      lc_terms = map (\<lambda>t. t\<lparr>t_coeff := fc_mul (t_coeff t) k\<rparr>) (lc_terms lc)\<rparr>"

text \<open>The peek-and-next loop of \<^verbatim>\<open>Add\<close> over two canonical lists.\<close>

fun merge_terms :: "lc_term list \<Rightarrow> lc_term list \<Rightarrow> lc_term list" where
  "merge_terms (x # a) (y # b) =
     (if t_var x = t_var y then
        (let c = fc_add (t_coeff x) (t_coeff y) in
         if fc_is_zero c then merge_terms a b else x\<lparr>t_coeff := c\<rparr> # merge_terms a b)
      else if t_var x < t_var y then x # merge_terms a (y # b)
      else y # merge_terms (x # a) b)"
| "merge_terms a [] = a"
| "merge_terms [] b = b"

definition lc_add :: "lin_comb \<Rightarrow> lin_comb \<Rightarrow> lin_comb" where
  "lc_add l r =
    (let k = fc_add (lc_const l) (lc_const r); a = lc_terms l; b = lc_terms r
     in if is_canonical a \<and> is_canonical b then
          (if b = [] then \<lparr>lc_const = k, lc_terms = a\<rparr>
           else if a = [] then \<lparr>lc_const = k, lc_terms = b\<rparr>
           else if t_var (last a) < t_var (hd b) then \<lparr>lc_const = k, lc_terms = a @ b\<rparr>
           else \<lparr>lc_const = k, lc_terms = merge_terms a b\<rparr>)
        else simplified \<lparr>lc_const = k, lc_terms = a @ b\<rparr>)"

definition lc_neg :: "lin_comb \<Rightarrow> lin_comb" where
  "lc_neg lc = \<lparr>lc_const = fc_neg (lc_const lc),
    lc_terms = map (\<lambda>t. t\<lparr>t_coeff := fc_neg (t_coeff t)\<rparr>) (lc_terms lc)\<rparr>"

definition lc_sub :: "lin_comb \<Rightarrow> lin_comb \<Rightarrow> lin_comb" where
  "lc_sub l r = lc_add l (lc_neg r)"

section \<open>Value at an integer assignment\<close>

definition terms_val :: "(var_id \<Rightarrow> int) \<Rightarrow> lc_term list \<Rightarrow> int" where
  "terms_val \<sigma> ts = (\<Sum>t \<leftarrow> ts. fc_big (t_coeff t) * \<sigma> (t_var t))"

definition lc_val :: "(var_id \<Rightarrow> int) \<Rightarrow> lin_comb \<Rightarrow> int" where
  "lc_val \<sigma> lc = fc_big (lc_const lc) + terms_val \<sigma> (lc_terms lc)"

definition lc_wf :: "lin_comb \<Rightarrow> bool" where
  "lc_wf lc \<longleftrightarrow> fc_wf (lc_const lc) \<and> list_all (\<lambda>t. fc_wf (t_coeff t)) (lc_terms lc)"

lemma terms_val_simps [simp]:
  "terms_val \<sigma> [] = 0"
  "terms_val \<sigma> (t # ts) = fc_big (t_coeff t) * \<sigma> (t_var t) + terms_val \<sigma> ts"
  "terms_val \<sigma> (ts @ us) = terms_val \<sigma> ts + terms_val \<sigma> us"
  by (simp_all add: terms_val_def)

lemma terms_val_rev [simp]: "terms_val \<sigma> (rev ts) = terms_val \<sigma> ts"
  by (induct ts) simp_all

lemma terms_val_mset: "mset ts = mset us \<Longrightarrow> terms_val \<sigma> ts = terms_val \<sigma> us"
proof -
  assume "mset ts = mset us"
  then have "mset (map f ts) = mset (map f us)" for f :: "lc_term \<Rightarrow> int" by simp
  then show ?thesis unfolding terms_val_def by (metis sum_mset_sum_list)
qed

lemma terms_val_cong:
  "(\<And>t. t \<in> set ts \<Longrightarrow> \<sigma> (t_var t) = \<tau> (t_var t)) \<Longrightarrow> terms_val \<sigma> ts = terms_val \<tau> ts"
  unfolding terms_val_def by (rule sum_list_map_cong) simp

lemma terms_val_filter:
  "terms_val \<sigma> (filter (\<lambda>t. \<not> fc_is_zero (t_coeff t)) ts) = terms_val \<sigma> ts"
  by (induct ts) (simp_all add: fc_is_zero_big)

lemma merge_into_last_val:
  "terms_val \<sigma> (merge_into_last m t) = terms_val \<sigma> m + fc_big (t_coeff t) * \<sigma> (t_var t)"
  by (induct m t rule: merge_into_last.induct) (simp_all add: algebra_simps)

lemma foldl_merge_val:
  "terms_val \<sigma> (foldl merge_into_last m ts) = terms_val \<sigma> m + terms_val \<sigma> ts"
  by (induct ts arbitrary: m) (simp_all add: merge_into_last_val)

lemma simplified_const [simp]: "lc_const (simplified lc) = lc_const lc"
  by (simp add: simplified_def Let_def)

lemma simplified_terms_val [simp]: "terms_val \<sigma> (lc_terms (simplified lc)) = terms_val \<sigma> (lc_terms lc)"
  using terms_val_mset [OF mset_sort [of t_var "lc_terms lc"]]
  by (simp add: simplified_def Let_def terms_val_filter foldl_merge_val)

lemma simplified_val [simp, lc_value]: "lc_val \<sigma> (simplified lc) = lc_val \<sigma> lc"
  by (simp add: lc_val_def)

lemma merge_terms_val: "terms_val \<sigma> (merge_terms a b) = terms_val \<sigma> a + terms_val \<sigma> b"
proof (induction a b rule: merge_terms.induct)
  case (1 x a y b)
  have z: "fc_is_zero (fc_add (t_coeff x) (t_coeff y)) \<Longrightarrow>
      fc_big (t_coeff x) * \<sigma> (t_var y) + fc_big (t_coeff y) * \<sigma> (t_var y) = 0"
    using fc_is_zero_big by (metis fc_add_value(1) distrib_right mult_zero_left)
  show ?case using 1 z by (auto simp: Let_def algebra_simps)
qed simp_all

lemma lc_add_const [simp]: "lc_const (lc_add l r) = fc_add (lc_const l) (lc_const r)"
  by (simp add: lc_add_def Let_def)

lemma lc_add_terms_val [simp]:
  "terms_val \<sigma> (lc_terms (lc_add l r)) = terms_val \<sigma> (lc_terms l) + terms_val \<sigma> (lc_terms r)"
  by (auto simp: lc_add_def Let_def merge_terms_val)

lemma lc_add_val [simp, lc_value]: "lc_val \<sigma> (lc_add l r) = lc_val \<sigma> l + lc_val \<sigma> r"
  by (simp add: lc_val_def)

lemma terms_val_map_mul:
  "terms_val \<sigma> (map (\<lambda>t. t\<lparr>t_coeff := fc_mul (t_coeff t) k\<rparr>) ts) = fc_big k * terms_val \<sigma> ts"
  by (induct ts) (simp_all add: algebra_simps)

lemma lc_scale_val [simp, lc_value]: "lc_val \<sigma> (lc_scale lc k) = fc_big k * lc_val \<sigma> lc"
  by (simp add: lc_scale_def lc_val_def terms_val_map_mul algebra_simps)

lemma terms_val_map_neg:
  "terms_val \<sigma> (map (\<lambda>t. t\<lparr>t_coeff := fc_neg (t_coeff t)\<rparr>) ts) = - terms_val \<sigma> ts"
  by (induct ts) simp_all

lemma lc_neg_val [simp, lc_value]: "lc_val \<sigma> (lc_neg lc) = - lc_val \<sigma> lc"
  by (simp add: lc_neg_def lc_val_def terms_val_map_neg)

lemma lc_sub_val [simp, lc_value]: "lc_val \<sigma> (lc_sub l r) = lc_val \<sigma> l - lc_val \<sigma> r"
  by (simp add: lc_sub_def)

lemma lc_var_val [simp, lc_value]: "lc_val \<sigma> (lc_var v) = \<sigma> v"
  by (simp add: lc_var_def lc_val_def)

lemma lc_zero_one_val [simp, lc_value]: "lc_val \<sigma> lc_zero = 0" "lc_val \<sigma> lc_one = 1"
  by (simp_all add: lc_zero_def lc_one_def lc_val_def)

section \<open>Canonical form\<close>

lemma is_canonical_iff:
  "is_canonical ts \<longleftrightarrow>
    sorted_wrt (<) (map t_var ts) \<and> (\<forall>t \<in> set ts. \<not> fc_is_zero (t_coeff t))"
proof -
  have "successively (\<lambda>w0 w1. t_var w0 < t_var w1) ts \<longleftrightarrow> sorted_wrt (\<lambda>w0 w1. t_var w0 < t_var w1) ts"
    by (rule successively_conv_sorted_wrt) (auto simp: transp_def)
  then show ?thesis by (simp add: is_canonical_def sorted_wrt_map list_ex_iff)
qed

lemma is_canonical_Nil [simp]: "is_canonical []"
  by (simp add: is_canonical_iff)

text \<open>The merging loop on a list sorted by variable: \<open>m\<close> reversed stays strictly increasing.\<close>

lemma foldl_merge_sorted:
  assumes "sorted (map t_var ts)" "sorted_wrt (>) (map t_var m)"
    "\<forall>t \<in> set ts. m \<noteq> [] \<longrightarrow> t_var (hd m) \<le> t_var t"
  shows "sorted_wrt (>) (map t_var (foldl merge_into_last m ts))"
  using assms
proof (induction ts arbitrary: m)
  case (Cons t ts)
  have s: "sorted_wrt (>) (map t_var (merge_into_last m t))"
    using Cons.prems by (cases "(m, t)" rule: merge_into_last.cases) fastforce+
  have h: "merge_into_last m t \<noteq> [] \<and> t_var (hd (merge_into_last m t)) = t_var t"
    by (cases "(m, t)" rule: merge_into_last.cases) auto
  show ?case using Cons.IH [of "merge_into_last m t"] Cons.prems(1) s h by simp
qed simp

lemma simplified_canonical: "is_canonical (lc_terms (simplified lc))"
proof (cases "is_canonical (lc_terms lc)")
  case False
  let ?m = "foldl merge_into_last [] (sort_key t_var (lc_terms lc))"
  have "sorted_wrt (>) (map t_var ?m)" by (rule foldl_merge_sorted) simp_all
  then have "sorted_wrt (<) (map t_var (rev ?m))"
    by (simp add: sorted_wrt_rev flip: rev_map)
  then have "sorted_wrt (<) (map t_var (filter (\<lambda>t. \<not> fc_is_zero (t_coeff t)) (rev ?m)))"
    by (simp add: sorted_wrt_map sorted_wrt_filter)
  with False show ?thesis by (simp add: simplified_def Let_def is_canonical_iff)
qed (simp add: simplified_def)

lemma merge_terms_vars: "t_var ` set (merge_terms a b) \<subseteq> t_var ` set a \<union> t_var ` set b"
proof -
  have "set (map t_var (merge_terms a b)) \<subseteq> set (map t_var a) \<union> set (map t_var b)"
  proof (induction a b rule: merge_terms.induct)
    case (1 x a y b)
    then show ?case
      by (cases "fc_is_zero (fc_add (t_coeff x) (t_coeff y))") (auto simp: Let_def simp del: set_map)
  qed simp_all
  then show ?thesis by simp
qed

lemma merge_terms_canonical:
  "is_canonical a \<Longrightarrow> is_canonical b \<Longrightarrow> is_canonical (merge_terms a b)"
proof (induction a b rule: merge_terms.induct)
  case (1 x a y b)
  have a: "is_canonical a" "\<forall>v \<in> t_var ` set a. t_var x < v" "\<not> fc_is_zero (t_coeff x)"
    and b: "is_canonical b" "\<forall>v \<in> t_var ` set b. t_var y < v" "\<not> fc_is_zero (t_coeff y)"
    using "1.prems" by (auto simp: is_canonical_iff)
  have cons: "is_canonical (z # c)"
    if "is_canonical c" "\<forall>v \<in> t_var ` set c. t_var z < v" "\<not> fc_is_zero (t_coeff z)" for z c
    using that by (auto simp: is_canonical_iff)
  consider "t_var x = t_var y" | "t_var x < t_var y" | "t_var y < t_var x" by fastforce
  then show ?case
  proof cases
    case 1
    have v: "\<forall>v \<in> t_var ` set (merge_terms a b). t_var x < v"
      using merge_terms_vars [of a b] a(2) b(2) 1 by auto
    then show ?thesis using 1 "1.IH"(1,2) a(1) b(1) by (auto simp: Let_def intro!: cons)
  next
    case 2
    have "\<forall>v \<in> t_var ` set (merge_terms a (y # b)). t_var x < v"
      using merge_terms_vars [of a "y # b"] a(2) b(2) 2 by fastforce
    then show ?thesis using 2 "1.IH"(3) a "1.prems"(2) by (auto intro!: cons)
  next
    case 3
    have "\<forall>v \<in> t_var ` set (merge_terms (x # a) b). t_var y < v"
      using merge_terms_vars [of "x # a" b] a(2) b(2) 3 by fastforce
    then show ?thesis using 3 "1.IH"(4) b "1.prems"(1) by (auto intro!: cons)
  qed
qed simp_all

lemma append_canonical:
  "is_canonical a \<Longrightarrow> is_canonical b \<Longrightarrow> a \<noteq> [] \<Longrightarrow> b \<noteq> [] \<Longrightarrow> t_var (last a) < t_var (hd b) \<Longrightarrow>
   is_canonical (a @ b)"
  by (simp add: is_canonical_def successively_append_iff)

lemma lc_add_canonical: "is_canonical (lc_terms (lc_add l r))"
  by (auto simp: lc_add_def Let_def simplified_canonical merge_terms_canonical append_canonical)

lemma lc_scale_canonical: "is_canonical (lc_terms (lc_scale lc k))"
  by (simp add: lc_scale_def simplified_canonical)

lemma fc_is_zero_neg: "fc_wf c \<Longrightarrow> fc_is_zero (fc_neg c) \<longleftrightarrow> fc_is_zero c"
  by (simp add: fc_is_zero_iff)

lemma lc_neg_canonical:
  "lc_wf lc \<Longrightarrow> is_canonical (lc_terms lc) \<Longrightarrow> is_canonical (lc_terms (lc_neg lc))"
  by (auto simp: lc_neg_def is_canonical_iff lc_wf_def list_all_iff comp_def fc_is_zero_neg)

text \<open>A canonical list is determined by its values.\<close>

lemma canonical_indicator:
  assumes "is_canonical ts" "t \<in> set ts"
  shows "terms_val (\<lambda>v. of_bool (v = t_var t)) ts = fc_big (t_coeff t)"
  using assms
proof (induction ts)
  case (Cons u ts)
  have lt: "\<forall>s \<in> set ts. t_var u < t_var s" and c: "is_canonical ts"
    using Cons.prems(1) by (auto simp: is_canonical_iff)
  show ?case
  proof (cases "t \<in> set ts")
    case True
    then show ?thesis using Cons.IH c lt by auto
  next
    case False
    then have "t = u" using Cons.prems(2) by simp
    moreover have "terms_val (\<lambda>v. of_bool (v = t_var u)) ts = terms_val (\<lambda>v. 0) ts"
      by (rule terms_val_cong) (use lt in auto)
    ultimately show ?thesis by (simp add: terms_val_def)
  qed
qed simp

lemma terms_val_nonzero_var: "terms_val (\<lambda>v. of_bool (v = x)) ts \<noteq> 0 \<Longrightarrow> \<exists>t \<in> set ts. t_var t = x"
  by (induct ts) (auto simp: of_bool_def split: if_splits)

lemma canonical_subset:
  assumes can: "is_canonical ts" "is_canonical us"
    and wf: "list_all (\<lambda>t. fc_wf (t_coeff t)) ts" "list_all (\<lambda>t. fc_wf (t_coeff t)) us"
    and eq: "\<And>\<sigma>. terms_val \<sigma> ts = terms_val \<sigma> us"
  shows "set ts \<subseteq> set us"
proof
  fix t assume t: "t \<in> set ts"
  have nz: "fc_big (t_coeff t) \<noteq> 0"
    using t can(1) wf(1) by (auto simp: is_canonical_iff list_all_iff fc_is_zero_iff)
  have "terms_val (\<lambda>v. of_bool (v = t_var t)) us = fc_big (t_coeff t)"
    using canonical_indicator [OF can(1) t] eq by simp
  with nz obtain u where u: "u \<in> set us" "t_var u = t_var t"
    using terms_val_nonzero_var by metis
  have "fc_big (t_coeff u) = fc_big (t_coeff t)"
    using canonical_indicator [OF can(2) u(1)] canonical_indicator [OF can(1) t] eq u(2) by simp
  then have "u = t"
    using u t wf by (auto simp: list_all_iff fc_eq_iff [symmetric] intro: lc_term.equality)
  with u show "t \<in> set us" by simp
qed

lemma canonical_unique:
  assumes "is_canonical ts" "is_canonical us"
    and "list_all (\<lambda>t. fc_wf (t_coeff t)) ts" "list_all (\<lambda>t. fc_wf (t_coeff t)) us"
    and "\<And>\<sigma>. terms_val \<sigma> ts = terms_val \<sigma> us"
  shows "ts = us"
proof -
  have "set ts = set us"
    using canonical_subset [OF assms] canonical_subset [OF assms(2,1,4,3) assms(5) [symmetric]] by blast
  moreover have "sorted (map t_var ts)" "distinct (map t_var ts)" "sorted (map t_var us)" "distinct (map t_var us)"
    using assms(1,2) by (auto simp: is_canonical_iff strict_sorted_iff)
  moreover from this(2) calculation(1) have "inj_on t_var (set ts \<union> set us)"
    by (simp add: distinct_map)
  ultimately show ?thesis by (intro map_sorted_distinct_set_unique)
qed

section \<open>Well-formed coefficients\<close>

lemma merge_into_last_wf:
  "list_all (\<lambda>t. fc_wf (t_coeff t)) m \<Longrightarrow> fc_wf (t_coeff t) \<Longrightarrow>
   list_all (\<lambda>t. fc_wf (t_coeff t)) (merge_into_last m t)"
  by (cases "(m, t)" rule: merge_into_last.cases) auto

lemma foldl_merge_wf:
  "list_all (\<lambda>t. fc_wf (t_coeff t)) m \<Longrightarrow> list_all (\<lambda>t. fc_wf (t_coeff t)) ts \<Longrightarrow>
   list_all (\<lambda>t. fc_wf (t_coeff t)) (foldl merge_into_last m ts)"
  by (induct ts arbitrary: m) (simp_all add: merge_into_last_wf)

lemma simplified_wf: "lc_wf lc \<Longrightarrow> lc_wf (simplified lc)"
  using foldl_merge_wf [of "[]" "sort_key t_var (lc_terms lc)"]
  by (auto simp: simplified_def Let_def lc_wf_def list_all_iff)

lemma merge_terms_wf:
  "list_all (\<lambda>t. fc_wf (t_coeff t)) a \<Longrightarrow> list_all (\<lambda>t. fc_wf (t_coeff t)) b \<Longrightarrow>
   list_all (\<lambda>t. fc_wf (t_coeff t)) (merge_terms a b)"
  by (induct a b rule: merge_terms.induct) (auto simp: Let_def)

lemma lc_add_wf: "lc_wf l \<Longrightarrow> lc_wf r \<Longrightarrow> lc_wf (lc_add l r)"
  using simplified_wf [of "\<lparr>lc_const = fc_add (lc_const l) (lc_const r), lc_terms = lc_terms l @ lc_terms r\<rparr>"]
  by (auto simp: lc_add_def Let_def lc_wf_def merge_terms_wf)

lemma lc_scale_wf: "lc_wf (lc_scale lc k)"
  unfolding lc_scale_def by (rule simplified_wf) (simp add: lc_wf_def list_all_iff)

lemma lc_neg_wf: "lc_wf (lc_neg lc)"
  by (simp add: lc_neg_def lc_wf_def list_all_iff)

lemma lc_basic_wf: "lc_wf lc_zero" "lc_wf lc_one" "lc_wf (lc_var v)"
  by (simp_all add: lc_zero_def lc_one_def lc_var_def lc_wf_def)

section \<open>Properties\<close>

text \<open>adding two canonical combinations by the sorted merge (and its shortcuts for an
  empty side or disjoint ranges) gives exactly the combination that concatenating the
  terms and running \<^verbatim>\<open>simplified\<close> would give.\<close>

theorem lc_add_eq_simplified_concat:
  assumes "lc_wf l" "lc_wf r" "is_canonical (lc_terms l)" "is_canonical (lc_terms r)"
  shows "lc_add l r =
    simplified \<lparr>lc_const = fc_add (lc_const l) (lc_const r), lc_terms = lc_terms l @ lc_terms r\<rparr>"
    (is "?x = simplified ?c")
proof -
  have c: "lc_const ?x = lc_const (simplified ?c)" by simp
  have wf: "lc_wf ?x" "lc_wf (simplified ?c)"
    using assms by (auto intro!: lc_add_wf simplified_wf) (simp add: lc_wf_def)
  have v: "terms_val \<sigma> (lc_terms ?x) = terms_val \<sigma> (lc_terms (simplified ?c))" for \<sigma>
    by simp
  have "lc_terms ?x = lc_terms (simplified ?c)"
    by (rule canonical_unique)
      (use wf v in \<open>simp_all add: lc_add_canonical simplified_canonical lc_wf_def\<close>)
  with c show ?thesis by (simp add: lin_comb.equality)
qed

definition lc_example :: lin_comb where
  "lc_example = \<lparr>lc_const = norm 2, lc_terms =
    [\<lparr>t_coeff = norm 3, t_var = 1\<rparr>, \<lparr>t_coeff = norm 5, t_var = 4\<rparr>]\<rparr>"

lemma lc_example_ok: "lc_wf lc_example" "is_canonical (lc_terms lc_example)"
  by (simp_all add: lc_example_def lc_wf_def is_canonical_def fc_is_zero_iff)

theorem lc_add_eq_simplified_concat_witness:
  "lc_add lc_example (lc_neg lc_example) = simplified \<lparr>lc_const = norm 0,
     lc_terms = lc_terms lc_example @ lc_terms (lc_neg lc_example)\<rparr> \<and>
   lc_terms (lc_add lc_example (lc_neg lc_example)) = []"
proof -
  have n: "lc_wf (lc_neg lc_example)" "is_canonical (lc_terms (lc_neg lc_example))"
    using lc_example_ok by (simp_all add: lc_neg_wf lc_neg_canonical)
  have "lc_add lc_example (lc_neg lc_example) = simplified \<lparr>
      lc_const = fc_add (lc_const lc_example) (lc_const (lc_neg lc_example)),
      lc_terms = lc_terms lc_example @ lc_terms (lc_neg lc_example)\<rparr>"
    by (rule lc_add_eq_simplified_concat [OF lc_example_ok(1) n(1) lc_example_ok(2) n(2)])
  moreover have "fc_add (lc_const lc_example) (lc_const (lc_neg lc_example)) = norm 0"
    by (subst fc_eq_iff) (simp_all add: lc_neg_def)
  moreover have "lc_terms (lc_add lc_example (lc_neg lc_example)) = []"
    using lc_example_ok n
    by (simp add: lc_add_def Let_def) (simp add: lc_neg_def lc_example_def Let_def fc_is_zero_iff)
  ultimately show ?thesis by simp
qed

text \<open>The operations on linear combinations compute what their names say at every
  assignment, and addition and scaling always return the canonical form.\<close>

theorem lc_operations_value:
  "lc_val \<sigma> (lc_add l r) = lc_val \<sigma> l + lc_val \<sigma> r \<and>
   lc_val \<sigma> (lc_sub l r) = lc_val \<sigma> l - lc_val \<sigma> r \<and>
   lc_val \<sigma> (lc_neg l) = - lc_val \<sigma> l \<and>
   lc_val \<sigma> (lc_scale l k) = fc_big k * lc_val \<sigma> l \<and>
   lc_val \<sigma> (simplified l) = lc_val \<sigma> l \<and>
   is_canonical (lc_terms (lc_add l r)) \<and> is_canonical (lc_terms (lc_scale l k)) \<and>
   is_canonical (lc_terms (simplified l))"
  by (simp add: lc_add_canonical lc_scale_canonical simplified_canonical)

end
