(* ===== verification/Ordered_Map.thy ===== *)
theory Ordered_Map
  imports Prelude
begin

text \<open>
  Rust's \<^verbatim>\<open>BTreeMap\<close>: the interface its clients use (lookup, the \<^verbatim>\<open>entry\<close> API that
  reads and rewrites one key, removal, iteration in ascending key order) as a locale,
  and the model of it, an association list with strictly increasing keys. The client
  lemmas say how a sum over the entries changes with one \<^verbatim>\<open>entry\<close> update; every map of
  coefficients in the code is built that way.
\<close>

section \<open>The interface\<close>

definition opt_weight :: "('k \<Rightarrow> 'v \<Rightarrow> 'c :: comm_monoid_add) \<Rightarrow> 'k \<Rightarrow> 'v option \<Rightarrow> 'c" where
  "opt_weight w k x = (case x of None \<Rightarrow> 0 | Some v \<Rightarrow> w k v)"

lemma opt_weight_simps [simp]:
  "opt_weight w k None = 0" "opt_weight w k (Some v) = w k v"
  by (simp_all add: opt_weight_def)

definition entries_sum :: "('k \<Rightarrow> 'v \<Rightarrow> 'c :: comm_monoid_add) \<Rightarrow> ('k \<times> 'v) list \<Rightarrow> 'c" where
  "entries_sum w xs = (\<Sum>(k, v) \<leftarrow> xs. w k v)"

lemma entries_sum_simps [simp]:
  "entries_sum w [] = 0"
  "entries_sum w ((k, v) # xs) = w k v + entries_sum w xs"
  by (simp_all add: entries_sum_def)

locale ordered_map =
  fixes invar :: "'m \<Rightarrow> bool"
    and lookup :: "'m \<Rightarrow> 'k :: linorder \<Rightarrow> 'v option"
    and entry :: "'k \<Rightarrow> ('v option \<Rightarrow> 'v option) \<Rightarrow> 'm \<Rightarrow> 'm"
    and items :: "'m \<Rightarrow> ('k \<times> 'v) list"
  assumes items_ascending: "invar t \<Longrightarrow> sorted_wrt (<) (map fst (items t))"
    and lookup_items: "invar t \<Longrightarrow> lookup t = map_of (items t)"
    and lookup_entry: "invar t \<Longrightarrow> lookup (entry k f t) = (lookup t)(k := f (lookup t k))"
    and invar_entry: "invar t \<Longrightarrow> invar (entry k f t)"
begin

lemma items_distinct: "invar t \<Longrightarrow> distinct (map fst (items t))"
  using items_ascending strict_sorted_iff by blast

lemma dom_lookup: "invar t \<Longrightarrow> dom (lookup t) = fst ` set (items t)"
  by (simp add: lookup_items dom_map_of_conv_image_fst)

lemma lookup_in_items: "invar t \<Longrightarrow> lookup t k = Some v \<longleftrightarrow> (k, v) \<in> set (items t)"
  by (simp add: lookup_items items_distinct map_of_eq_Some_iff)

lemma entries_sum_lookup:
  fixes w :: "'k \<Rightarrow> 'v \<Rightarrow> 'c :: comm_monoid_add"
  assumes "invar t"
  shows "entries_sum w (items t) = (\<Sum>k \<in> dom (lookup t). opt_weight w k (lookup t k))"
proof -
  have d: "distinct (map fst (items t))" using assms by (rule items_distinct)
  then have "entries_sum w (items t) = (\<Sum>(k, v) \<in> set (items t). w k v)"
    by (simp add: entries_sum_def sum_list_distinct_conv_sum_set distinct_map)
  also have "\<dots> = (\<Sum>(k, v) \<in> set (items t). opt_weight w k (lookup t k))"
    by (rule sum.cong) (auto simp: lookup_in_items [OF assms, symmetric])
  also have "\<dots> = (\<Sum>k \<in> fst ` set (items t). opt_weight w k (lookup t k))"
    using d by (simp add: distinct_map sum.reindex split_beta)
  finally show ?thesis by (simp add: dom_lookup assms)
qed

text \<open>The sum after an update of key \<open>k\<close>: what was there goes, what is there comes.\<close>

lemma entries_sum_entry:
  fixes w :: "'k \<Rightarrow> 'v \<Rightarrow> 'c :: comm_monoid_add"
  assumes "invar t"
  shows "entries_sum w (items (entry k f t)) + opt_weight w k (lookup t k) =
    entries_sum w (items t) + opt_weight w k (f (lookup t k))"
proof -
  let ?g = "\<lambda>t k. opt_weight w k (lookup t k)"
  let ?t' = "entry k f t"
  have i': "invar ?t'" using assms by (rule invar_entry)
  have all: "entries_sum w (items u) = ?g u k + (\<Sum>j \<in> D - {k}. ?g u j)"
    if u: "invar u" and D: "finite D" "dom (lookup u) \<subseteq> D" "k \<in> D" for u D
  proof -
    have "entries_sum w (items u) = (\<Sum>j \<in> D. ?g u j)"
      unfolding entries_sum_lookup [OF u]
      using D by (intro sum.mono_neutral_left) (auto simp: domIff)
    then show ?thesis using D by (simp add: sum.remove)
  qed
  let ?D = "insert k (dom (lookup t) \<union> dom (lookup ?t'))"
  have D: "finite ?D" using assms i' by (simp add: dom_lookup)
  have rest: "(\<Sum>j \<in> ?D - {k}. ?g ?t' j) = (\<Sum>j \<in> ?D - {k}. ?g t j)"
    by (rule sum.cong) (auto simp: lookup_entry [OF assms])
  have "?g ?t' k = opt_weight w k (f (lookup t k))"
    by (simp add: lookup_entry [OF assms])
  moreover have "entries_sum w (items t) = ?g t k + (\<Sum>j \<in> ?D - {k}. ?g t j)"
    by (rule all [OF assms D]) auto
  moreover have "entries_sum w (items ?t') = ?g ?t' k + (\<Sum>j \<in> ?D - {k}. ?g ?t' j)"
    by (rule all [OF i' D]) auto
  ultimately show ?thesis using rest by (simp add: ac_simps)
qed

lemma lookup_fold_other:
  "invar t \<Longrightarrow> j \<notin> fst ` set es \<Longrightarrow>
   lookup (fold (\<lambda>(k, f). entry k f) es t) j = lookup t j \<and> invar (fold (\<lambda>(k, f). entry k f) es t)"
proof (induction es arbitrary: t)
  case (Cons e es)
  obtain k f where e: "e = (k, f)" by (cases e)
  have "invar (entry k f t)" using Cons.prems by (simp add: invar_entry)
  from Cons.IH [OF this] Cons.prems e show ?case by (auto simp: lookup_entry)
qed simp

end

section \<open>The model: association lists with increasing keys\<close>

type_synonym ('k, 'v) btree = "('k \<times> 'v) list"

definition bt_invar :: "('k :: linorder, 'v) btree \<Rightarrow> bool" where
  "bt_invar t \<longleftrightarrow> sorted_wrt (<) (map fst t)"

fun bt_get :: "('k :: linorder, 'v) btree \<Rightarrow> 'k \<Rightarrow> 'v option" where
  "bt_get [] k = None"
| "bt_get ((j, v) # t) k = (if k = j then Some v else bt_get t k)"

fun bt_entry :: "'k :: linorder \<Rightarrow> ('v option \<Rightarrow> 'v option) \<Rightarrow> ('k, 'v) btree \<Rightarrow> ('k, 'v) btree" where
  "bt_entry k f [] = (case f None of None \<Rightarrow> [] | Some v \<Rightarrow> [(k, v)])"
| "bt_entry k f ((j, v) # t) =
     (if k < j then (case f None of None \<Rightarrow> (j, v) # t | Some x \<Rightarrow> (k, x) # (j, v) # t)
      else if k = j then (case f (Some v) of None \<Rightarrow> t | Some x \<Rightarrow> (k, x) # t)
      else (j, v) # bt_entry k f t)"

definition bt_insert :: "'k :: linorder \<Rightarrow> 'v \<Rightarrow> ('k, 'v) btree \<Rightarrow> ('k, 'v) btree" where
  "bt_insert k v = bt_entry k (\<lambda>_. Some v)"

definition bt_remove :: "'k :: linorder \<Rightarrow> ('k, 'v) btree \<Rightarrow> ('k, 'v) btree" where
  "bt_remove k = bt_entry k (\<lambda>_. None)"

definition bt_keys :: "('k :: linorder, 'v) btree \<Rightarrow> 'k list" where
  "bt_keys t = map fst t"

lemma bt_invar_Nil [simp]: "bt_invar []"
  by (simp add: bt_invar_def)

lemma bt_invar_Cons: "bt_invar ((k, v) # t) \<longleftrightarrow> (\<forall>x \<in> fst ` set t. k < x) \<and> bt_invar t"
  by (auto simp: bt_invar_def)

lemma bt_get_map_of: "bt_get t = map_of t"
  by (rule ext, induct t) auto

lemma keys_bt_entry: "fst ` set (bt_entry k f t) \<subseteq> insert k (fst ` set t)"
  by (induction t rule: bt_entry.induct [of _ k f t for t, case_names Nil Cons])
    (auto split: option.splits)

lemma bt_invar_entry: "bt_invar t \<Longrightarrow> bt_invar (bt_entry k f t)"
proof (induction t)
  case (Cons e t)
  obtain j v where e: "e = (j, v)" by (cases e)
  have "\<forall>x \<in> fst ` set (bt_entry k f t). j < x" if "j < k"
    using keys_bt_entry [of k f t] Cons.prems that unfolding e bt_invar_Cons by blast
  then show ?case using Cons
    by (auto simp: e bt_invar_Cons not_less split: option.splits)
qed (simp add: bt_invar_Cons split: option.split)

lemma bt_get_notin: "k \<notin> fst ` set t \<Longrightarrow> bt_get t k = None"
  by (induct t) auto

lemma bt_get_entry:
  "bt_invar t \<Longrightarrow> bt_get (bt_entry k f t) = (bt_get t)(k := f (bt_get t k))"
proof (induction t)
  case Nil
  then show ?case by (auto simp: fun_eq_iff split: option.split)
next
  case (Cons e t)
  obtain j v where e: "e = (j, v)" by (cases e)
  have t: "\<forall>x \<in> fst ` set t. j < x" "bt_invar t" using Cons.prems by (auto simp: e bt_invar_Cons)
  have small: "bt_get t k = None" if "k \<le> j"
    using t that by (intro bt_get_notin) auto
  show ?case using Cons.IH [OF t(2)] small
    by (auto simp: e fun_eq_iff split: option.split)
qed

interpretation btree: ordered_map bt_invar bt_get bt_entry "\<lambda>t. t"
  by unfold_locales (simp_all add: bt_invar_def bt_get_map_of bt_get_entry [unfolded bt_invar_def bt_get_map_of]
    bt_invar_entry [unfolded bt_invar_def])

lemma bt_get_insert [simp]: "bt_invar t \<Longrightarrow> bt_get (bt_insert k v t) = (bt_get t)(k \<mapsto> v)"
  by (simp add: bt_insert_def btree.lookup_entry)

lemma bt_get_remove [simp]: "bt_invar t \<Longrightarrow> bt_get (bt_remove k t) = (bt_get t)(k := None)"
  by (simp add: bt_remove_def btree.lookup_entry)

lemma bt_invar_insert [simp]: "bt_invar t \<Longrightarrow> bt_invar (bt_insert k v t)"
  by (simp add: bt_insert_def btree.invar_entry)

lemma bt_invar_remove [simp]: "bt_invar t \<Longrightarrow> bt_invar (bt_remove k t)"
  by (simp add: bt_remove_def btree.invar_entry)

lemma bt_keys_dom: "set (bt_keys t) = dom (bt_get t)"
  by (simp add: bt_keys_def bt_get_map_of dom_map_of_conv_image_fst)

text \<open>Two maps with the same lookups are the same list.\<close>

lemma bt_eqI:
  assumes "bt_invar s" "bt_invar t" "bt_get s = bt_get t"
  shows "s = t"
proof -
  have st: "set s = set t"
    using btree.lookup_in_items [OF assms(1)] btree.lookup_in_items [OF assms(2)] assms(3) by auto
  moreover have "distinct (map fst s)" "distinct (map fst t)"
    "sorted (map fst s)" "sorted (map fst t)"
    using assms(1,2) unfolding bt_invar_def strict_sorted_iff by auto
  moreover from this(1) st have "inj_on fst (set s \<union> set t)" by (simp add: distinct_map)
  ultimately show ?thesis by (intro map_sorted_distinct_set_unique) auto
qed

end
