(* ===== verification/Field_Spec.thy ===== *)
theory Field_Spec
  imports Ext_Libs
begin

text \<open>
  Naming a field: \<^verbatim>\<open>FieldSpec::parse\<close> and \<^verbatim>\<open>FieldSpec::named\<close> with the Miller-Rabin test
  \<^verbatim>\<open>is_probable_prime\<close> they rest on (\<^verbatim>\<open>crates/ir/src/r1cs.rs\<close>). The number theory they
  need (Fermat's little theorem, square roots of one modulo a prime) is proved here, and
  the generic field inverse uses it too.

  Shown: no prime is ever refused, and below \<open>73\<^sup>2\<close> exactly the primes are accepted.
\<close>

section \<open>Number theory\<close>

lemma fermat_little:
  assumes p: "nat_prime p" and a: "\<not> p dvd a"
  shows "a ^ (p - 1) mod p = 1"
proof -
  let ?S = "{1..<p}" and ?f = "\<lambda>i. a * i mod p"
  have p1: "1 < p" using p by (rule nat_prime_gt_1)
  have nd: "\<not> p dvd i" if "i \<in> ?S" for i
    using that by (auto dest: nat_dvd_not_less)
  have inj: "inj_on ?f ?S"
  proof (rule inj_onI)
    fix i j assume ij: "i \<in> ?S" "j \<in> ?S" "a * i mod p = a * j mod p"
    have wlog: "i = j" if "i \<le> j" "i \<in> ?S" "j \<in> ?S" "a * i mod p = a * j mod p" for i j
    proof -
      have "p dvd a * j - a * i"
        using that(4) mod_eq_dvd_iff_nat [OF mult_le_mono2 [OF that(1), of a], of p] by simp
      then have "p dvd a * (j - i)" by (simp add: diff_mult_distrib2)
      then have "p dvd j - i" using a by (simp add: nat_prime_dvd_mult [OF p])
      moreover have "j - i < p" using that by auto
      ultimately have "j - i = 0" using nat_dvd_not_less [of "j - i" p] by linarith
      then show "i = j" using that(1) by simp
    qed
    show "i = j"
    proof (cases "i \<le> j")
      case True
      then show ?thesis using ij by (rule wlog)
    next
      case False
      then show ?thesis using wlog [of j i] ij by simp
    qed
  qed
  have "?f ` ?S \<subseteq> ?S"
  proof
    fix x assume "x \<in> ?f ` ?S"
    then obtain i where i: "i \<in> ?S" "x = a * i mod p" by blast
    then have "\<not> p dvd a * i" using a nd by (simp add: nat_prime_dvd_mult [OF p])
    then have "x \<noteq> 0" using i(2) by (simp add: dvd_eq_mod_eq_0)
    then show "x \<in> ?S" using i(2) p1 by auto
  qed
  then have "?f ` ?S = ?S" using inj by (intro endo_inj_surj) auto
  then have "prod (\<lambda>i. i) ?S = prod ?f ?S" using prod.reindex [OF inj, of "\<lambda>i. i"] by simp
  then have "prod (\<lambda>i. i) ?S mod p = prod (\<lambda>i. a * i) ?S mod p"
    by (simp add: mod_prod_eq)
  also have "prod (\<lambda>i. a * i) ?S = a ^ (p - 1) * prod (\<lambda>i. i) ?S"
    by (simp add: prod.distrib)
  finally have eq: "prod (\<lambda>i. i) ?S mod p = a ^ (p - 1) * prod (\<lambda>i. i) ?S mod p" .
  have a1: "1 \<le> a ^ (p - 1)" using a by (cases "a = 0") auto
  have "p dvd a ^ (p - 1) * prod (\<lambda>i. i) ?S - prod (\<lambda>i. i) ?S"
    using eq a1 by (metis mod_eq_dvd_iff_nat mult_le_mono1 mult_1)
  then have "p dvd (a ^ (p - 1) - 1) * prod (\<lambda>i. i) ?S" by (simp add: diff_mult_distrib)
  moreover have "\<not> p dvd prod (\<lambda>i. i) T" if "finite T" "T \<subseteq> ?S" for T
    using that
  proof (induction T)
    case (insert x T)
    then have "\<not> p dvd x" using nd by blast
    with insert show ?case by (simp add: nat_prime_dvd_mult [OF p])
  qed (use p1 in simp)
  then have "\<not> p dvd prod (\<lambda>i. i) ?S" by simp
  ultimately have "p dvd a ^ (p - 1) - 1" by (simp add: nat_prime_dvd_mult [OF p])
  then have "a ^ (p - 1) mod p = 1 mod p" using a1 by (metis mod_eq_dvd_iff_nat)
  then show ?thesis using p1 by simp
qed

lemma sqrt_one_mod_prime:
  assumes p: "nat_prime p" and x: "x < p" "x * x mod p = 1"
  shows "x = 1 \<or> x = p - 1"
proof -
  have p1: "1 < p" using p by (rule nat_prime_gt_1)
  have x0: "1 \<le> x" using x p1 by (cases x) auto
  have "1 \<le> x * x" using x0 by (cases x) auto
  then have "p dvd x * x - 1"
    using x(2) p1 mod_eq_dvd_iff_nat [of 1 "x * x" p] by simp
  moreover have "x * x - 1 = (x - 1) * (x + 1)" using x0
    by (simp add: algebra_simps diff_mult_distrib2)
  ultimately have "p dvd (x - 1) * (x + 1)" by (simp only:)
  then have "p dvd x - 1 \<or> p dvd x + 1" unfolding nat_prime_dvd_mult [OF p] .
  then show ?thesis
  proof
    assume "p dvd x - 1"
    then have "x - 1 = 0" using x(1) nat_dvd_not_less [of "x - 1" p] by linarith
    then show ?thesis using x0 by simp
  next
    assume "p dvd x + 1"
    then have "p \<le> x + 1" by (rule dvd_imp_le) simp
    then show ?thesis using x(1) by linarith
  qed
qed

section \<open>The primality test\<close>

definition BASES :: "nat list" where
  "BASES = [2, 3, 5, 7, 11, 13, 17, 19, 23, 29, 31, 37, 41, 43, 47, 53, 59, 61, 67, 71]"

text \<open>\<^verbatim>\<open>BigUint::modpow\<close> and \<^verbatim>\<open>trailing_zeros\<close> (\<^verbatim>\<open>None\<close>, and so 0, for zero).\<close>

definition modpow :: "nat \<Rightarrow> nat \<Rightarrow> nat \<Rightarrow> nat" where
  "modpow b e n = b ^ e mod n"

fun trailing_zeros :: "nat \<Rightarrow> nat" where
  "trailing_zeros n = (if n = 0 \<or> odd n then 0 else Suc (trailing_zeros (n div 2)))"

declare trailing_zeros.simps [simp del]

text \<open>The first loop: \<open>Some\<close> answer, or \<open>None\<close> to go on.\<close>

fun trial_bases :: "nat list \<Rightarrow> nat \<Rightarrow> bool option" where
  "trial_bases [] n = None"
| "trial_bases (b # bs) n =
     (if n = b then Some True else if n mod b = 0 then Some False else trial_bases bs n)"

text \<open>The squarings \<^verbatim>\<open>for _ in 1..s\<close> of one base, \<open>k = s - 1\<close> of them.\<close>

fun reaches_minus_one :: "nat \<Rightarrow> nat \<Rightarrow> nat \<Rightarrow> bool" where
  "reaches_minus_one n 0 x = False"
| "reaches_minus_one n (Suc k) x =
     (let x = modpow x 2 n in x = n - 1 \<or> reaches_minus_one n k x)"

definition base_passes :: "nat \<Rightarrow> nat \<Rightarrow> nat \<Rightarrow> nat \<Rightarrow> bool" where
  "base_passes n d s b =
    (let x = modpow b d n in x = 1 \<or> x = n - 1 \<or> reaches_minus_one n (s - 1) x)"

definition is_probable_prime :: "nat \<Rightarrow> bool" where
  "is_probable_prime n =
    (if n < 2 then False
     else case trial_bases BASES n of
       Some r \<Rightarrow> r
     | None \<Rightarrow>
        let n1 = n - 1; s = trailing_zeros n1; d = n1 div 2 ^ s
        in list_all (base_passes n d s) BASES)"

lemma trailing_zeros_split: "n \<noteq> 0 \<Longrightarrow> n = 2 ^ trailing_zeros n * (n div 2 ^ trailing_zeros n)"
proof (induction n rule: trailing_zeros.induct)
  case (1 n)
  show ?case
  proof (cases "odd n")
    case False
    with "1.IH" "1.prems"
    have "n div 2 = 2 ^ trailing_zeros (n div 2) * (n div 2 div 2 ^ trailing_zeros (n div 2))"
      by auto
    moreover have "trailing_zeros n = Suc (trailing_zeros (n div 2))"
      using False "1.prems" by (simp add: trailing_zeros.simps [of n])
    moreover have "n = 2 * (n div 2)" using False by simp
    ultimately show ?thesis by (metis div_mult2_eq mult.assoc power_Suc)
  qed (simp add: trailing_zeros.simps [of n])
qed

lemma trailing_zeros_even: "even n \<Longrightarrow> n \<noteq> 0 \<Longrightarrow> 1 \<le> trailing_zeros n"
  by (simp add: trailing_zeros.simps [of n])

lemma reaches_minus_one_prime:
  assumes p: "nat_prime n"
  shows "x < n \<Longrightarrow> x \<noteq> 1 \<Longrightarrow> x \<noteq> n - 1 \<Longrightarrow> x ^ (2 ^ Suc k) mod n = 1 \<Longrightarrow> reaches_minus_one n k x"
proof (induction k arbitrary: x)
  case 0
  then have "x * x mod n = 1" by (simp add: power2_eq_square)
  then show ?case using sqrt_one_mod_prime [OF p, of x] 0 by simp
next
  case (Suc k)
  let ?y = "x ^ 2 mod n"
  have "x ^ (2 ^ Suc (Suc k)) = (x ^ 2) ^ (2 ^ Suc k)"
    by (simp flip: power_mult)
  then have y: "?y ^ (2 ^ Suc k) mod n = 1" using Suc.prems(4) by (simp only: power_mod)
  have "?y < n" using nat_prime_gt_1 [OF p] by simp
  moreover have "?y \<noteq> 1"
    using sqrt_one_mod_prime [OF p Suc.prems(1)] Suc.prems(2,3) by (auto simp: power2_eq_square)
  ultimately show ?case using Suc.IH [of ?y] y by (auto simp: modpow_def Let_def)
qed

lemma base_passes_prime:
  assumes p: "nat_prime n" and b: "\<not> n dvd b" and n1: "n - 1 = 2 ^ s * d" and s: "1 \<le> s"
  shows "base_passes n d s b"
proof -
  let ?x = "b ^ d mod n"
  obtain k where k: "s = Suc k" using s by (cases s) auto
  have "(b ^ d) ^ (2 ^ s) = b ^ (n - 1)" unfolding n1 by (simp add: mult.commute flip: power_mult)
  then have "?x ^ (2 ^ s) mod n = 1" using fermat_little [OF p b] by (simp add: power_mod)
  moreover have "?x < n" using nat_prime_gt_1 [OF p] by simp
  ultimately show ?thesis
    using reaches_minus_one_prime [OF p, of ?x k] k by (auto simp: base_passes_def Let_def modpow_def)
qed

lemma trial_bases_prime:
  "nat_prime n \<Longrightarrow> 1 \<notin> set bs \<Longrightarrow> (case trial_bases bs n of Some r \<Rightarrow> r | None \<Rightarrow> n \<notin> set bs)"
proof (induction bs)
  case (Cons b bs)
  show ?case
  proof (cases "n = b \<or> n mod b \<noteq> 0")
    case False
    then have "b dvd n" "b \<noteq> n" by auto
    then have "b = 1" using Cons.prems(1) unfolding nat_prime_def by blast
    then show ?thesis using Cons.prems(2) by simp
  qed (use Cons in \<open>auto split: option.splits\<close>)
qed simp

lemma trial_bases_None: "trial_bases bs n = None \<Longrightarrow> \<forall>b \<in> set bs. n \<noteq> b \<and> \<not> b dvd n"
  by (induct bs) (auto split: if_splits)

lemma BASES_elems: "1 \<notin> set BASES" "2 \<in> set BASES" "\<forall>b \<in> set BASES. 2 \<le> b"
  by (simp_all add: BASES_def)

lemma BASES_cover:
  assumes "2 \<le> q" "q < 73"
  shows "\<exists>c \<in> set BASES. c dvd q"
proof -
  have "list_all (\<lambda>q. list_ex (\<lambda>c. c dvd q) BASES) [2..<73]" by code_simp
  then have "list_ex (\<lambda>c. c dvd q) BASES"
    unfolding list_all_iff
    by (rule bspec) (use assms in \<open>simp only: set_upt atLeastLessThan_iff\<close>)
  then show ?thesis by (simp add: list_ex_iff)
qed

lemma prime_is_probable: "nat_prime p \<Longrightarrow> is_probable_prime p"
proof -
  assume p: "nat_prime p"
  have p1: "1 < p" using p by (rule nat_prime_gt_1)
  show "is_probable_prime p"
  proof (cases "trial_bases BASES p")
    case (Some r)
    then show ?thesis
      using trial_bases_prime [OF p BASES_elems(1)] p1 by (simp add: is_probable_prime_def)
  next
    case None
    note nb = trial_bases_None [OF None]
    let ?s = "trailing_zeros (p - 1)" and ?d = "(p - 1) div 2 ^ trailing_zeros (p - 1)"
    have "odd p" using nb BASES_elems(2) by blast
    then have s: "1 \<le> ?s" using p1 by (intro trailing_zeros_even) auto
    have n1: "p - 1 = 2 ^ ?s * ?d" using p1 by (intro trailing_zeros_split) simp
    have "\<not> p dvd b" if "b \<in> set BASES" for b
    proof
      assume "p dvd b"
      have "p \<le> b" using \<open>p dvd b\<close> that BASES_elems(3) by (intro dvd_imp_le) auto
      have "b \<le> 71" using that by (auto simp: BASES_def)
      have "p \<noteq> b" using nb that by blast
      obtain c where c: "c \<in> set BASES" "c dvd p"
        using BASES_cover [of p] \<open>p \<le> b\<close> \<open>b \<le> 71\<close> p1 by auto
      then show False using nb by blast
    qed
    then have "list_all (base_passes p ?d ?s) BASES"
      using base_passes_prime [OF p _ n1 s] by (simp add: list_all_iff)
    then show ?thesis using p1 None by (simp add: is_probable_prime_def Let_def)
  qed
qed

lemma trial_bases_composite:
  "\<exists>b \<in> set bs. b dvd n \<Longrightarrow> n \<notin> set bs \<Longrightarrow> trial_bases bs n = Some False"
  by (induct bs) auto

lemma BASES_prime: "b \<in> set BASES \<Longrightarrow> nat_prime b"
proof -
  have "list_all (\<lambda>b. 1 < b \<and> no_divisor (b - 2) 2 b) BASES" by code_simp
  then show "b \<in> set BASES \<Longrightarrow> nat_prime b" by (auto simp: list_all_iff intro: nat_prime_by_trial)
qed

lemma small_probable_is_prime:
  assumes "n < 5329" "is_probable_prime n"
  shows "nat_prime n"
proof (rule ccontr)
  assume np: "\<not> nat_prime n"
  have n2: "1 < n" using assms(2) by (simp add: is_probable_prime_def split: if_splits)
  then obtain d where d: "d dvd n" "d \<noteq> 1" "d \<noteq> n" using np by (auto simp: nat_prime_def)
  then obtain e where e: "n = d * e" by (auto simp: dvd_def)
  have pos: "2 \<le> d" "2 \<le> e" using d e n2 by (cases d; cases e; force)+
  obtain c where c: "2 \<le> c" "c \<le> 72" "c dvd n"
  proof (cases "d \<le> 72")
    case True
    then show ?thesis using that pos d by blast
  next
    case False
    then have "e \<le> 72" using e assms(1) mult_le_mono [of 73 d 73 e] by (cases "e \<le> 72") auto
    then show ?thesis using that pos e by auto
  qed
  obtain b where "b \<in> set BASES" "b dvd n"
    using BASES_cover [of c] c by (auto intro: dvd_trans)
  then have "trial_bases BASES n = Some False"
    using BASES_prime np by (intro trial_bases_composite) auto
  then show False using assms(2) n2 by (simp add: is_probable_prime_def)
qed

section \<open>What the test accepts\<close>

text \<open>\<open>n\<close> is a strong probable prime to the base \<open>b\<close>, as number theory defines it.\<close>

definition strong_probable_prime :: "nat \<Rightarrow> nat \<Rightarrow> bool" where
  "strong_probable_prime n b \<longleftrightarrow>
    (\<exists>s d. n - 1 = 2 ^ s * d \<and> odd d \<and> (b ^ d mod n = 1 \<or> (\<exists>r < s. b ^ (2 ^ r * d) mod n = n - 1)))"

lemma trailing_zeros_odd_part: "n \<noteq> 0 \<Longrightarrow> odd (n div 2 ^ trailing_zeros n)"
proof (induction n rule: trailing_zeros.induct)
  case (1 n)
  show ?case
  proof (cases "odd n")
    case False
    then have "odd (n div 2 div 2 ^ trailing_zeros (n div 2))" using 1 by auto
    moreover have "trailing_zeros n = Suc (trailing_zeros (n div 2))"
      using False 1(2) by (simp add: trailing_zeros.simps [of n])
    ultimately show ?thesis by (simp add: div_mult2_eq)
  qed (simp add: trailing_zeros.simps [of n])
qed

lemma trailing_zeros_product: "odd d \<Longrightarrow> trailing_zeros (2 ^ s * d) = s"
proof (induction s)
  case (Suc s)
  have "2 ^ s * d \<noteq> 0" using Suc.prems by (simp add: odd_pos)
  then show ?case using Suc by (simp add: trailing_zeros.simps [of "2 * (2 ^ s * d)"] mult.assoc)
qed (simp add: trailing_zeros.simps)

lemma reaches_minus_one_iff:
  "reaches_minus_one n k x \<longleftrightarrow> (\<exists>i. 1 \<le> i \<and> i \<le> k \<and> x ^ (2 ^ i) mod n = n - 1)"
proof (induction k arbitrary: x)
  case (Suc k)
  have sq: "(x\<^sup>2 mod n) ^ (2 ^ i) mod n = x ^ (2 ^ Suc i) mod n" for i
    by (simp add: power_mod flip: power_mult)
  show ?case (is "_ \<longleftrightarrow> ?R")
  proof
    assume "reaches_minus_one n (Suc k) x"
    then have "x\<^sup>2 mod n = n - 1 \<or> reaches_minus_one n k (x\<^sup>2 mod n)" by (simp add: modpow_def Let_def)
    then show ?R
    proof
      assume "reaches_minus_one n k (x\<^sup>2 mod n)"
      then obtain i where "1 \<le> i" "i \<le> k" "x ^ (2 ^ Suc i) mod n = n - 1" using Suc.IH sq by metis
      then show ?R by (intro exI [of _ "Suc i"]) simp
    qed (intro exI [of _ 1], simp)
  next
    assume ?R
    then obtain i where i: "1 \<le> i" "i \<le> Suc k" "x ^ (2 ^ i) mod n = n - 1" by blast
    show "reaches_minus_one n (Suc k) x"
    proof (cases "i = 1")
      case False
      then obtain j where "i = Suc j" "1 \<le> j" using i(1) by (cases i) auto
      then show ?thesis using i Suc.IH [of "x\<^sup>2 mod n"] sq by (auto simp: modpow_def Let_def)
    qed (use i in \<open>simp add: modpow_def Let_def\<close>)
  qed
qed simp

lemma base_passes_iff:
  assumes "n - 1 = 2 ^ s * d" "odd d" "1 \<le> s"
  shows "base_passes n d s b \<longleftrightarrow> strong_probable_prime n b"
proof -
  have pw: "(b ^ d mod n) ^ (2 ^ i) mod n = b ^ (2 ^ i * d) mod n" for i
    by (simp add: power_mod mult.commute flip: power_mult)
  have "base_passes n d s b \<longleftrightarrow>
      b ^ d mod n = 1 \<or> b ^ d mod n = n - 1 \<or> (\<exists>i. 1 \<le> i \<and> i \<le> s - 1 \<and> b ^ (2 ^ i * d) mod n = n - 1)"
    by (simp add: base_passes_def Let_def modpow_def reaches_minus_one_iff pw)
  also have "\<dots> \<longleftrightarrow> b ^ d mod n = 1 \<or> (\<exists>r < s. b ^ (2 ^ r * d) mod n = n - 1)"
  proof -
    have "(\<exists>r < s. b ^ (2 ^ r * d) mod n = n - 1) \<longleftrightarrow>
        b ^ (2 ^ 0 * d) mod n = n - 1 \<or> (\<exists>r. 1 \<le> r \<and> r \<le> s - 1 \<and> b ^ (2 ^ r * d) mod n = n - 1)" (is "?L \<longleftrightarrow> ?Z \<or> ?M")
    proof
      assume ?L
      then obtain r where "r < s" "b ^ (2 ^ r * d) mod n = n - 1" by blast
      then show "?Z \<or> ?M" by (cases "r = 0") (auto intro!: exI [of _ r])
    next
      assume "?Z \<or> ?M"
      then show ?L
      proof
        assume ?Z
        then show ?L using assms(3) by (intro exI [of _ 0]) simp
      next
        assume ?M
        then obtain r where "1 \<le> r" "r \<le> s - 1" "b ^ (2 ^ r * d) mod n = n - 1" by blast
        then show ?L by (intro exI [of _ r]) auto
      qed
    qed
    then show ?thesis by simp
  qed
  also have "\<dots> \<longleftrightarrow> strong_probable_prime n b"
  proof -
    have "s' = s \<and> d' = d" if "n - 1 = 2 ^ s' * d'" "odd d'" for s' d'
      using trailing_zeros_product [of d s] trailing_zeros_product [OF that(2), of s'] that assms(1,2) by auto
    then show ?thesis unfolding strong_probable_prime_def using assms(1,2) by blast
  qed
  finally show ?thesis .
qed

text \<open>The two loops decide this.\<close>

lemma is_probable_prime_iff:
  "is_probable_prime n \<longleftrightarrow> n \<in> set BASES \<or>
    2 \<le> n \<and> (\<forall>b \<in> set BASES. \<not> b dvd n \<and> strong_probable_prime n b)"
proof (cases "trial_bases BASES n")
  case None
  note nb = trial_bases_None [OF None]
  show ?thesis
  proof (cases "n < 2")
    case False
    have "odd n" using nb BASES_elems(2) by blast
    then have s: "1 \<le> trailing_zeros (n - 1)" using False by (intro trailing_zeros_even) auto
    have n1: "n - 1 = 2 ^ trailing_zeros (n - 1) * ((n - 1) div 2 ^ trailing_zeros (n - 1))"
      using False by (intro trailing_zeros_split) simp
    have "odd ((n - 1) div 2 ^ trailing_zeros (n - 1))" using False by (intro trailing_zeros_odd_part) simp
    from base_passes_iff [OF n1 this s] show ?thesis
      using False None nb by (auto simp: is_probable_prime_def Let_def list_all_iff)
  qed (use nb BASES_elems in \<open>auto simp: is_probable_prime_def\<close>)
next
  case (Some r)
  have "(n \<in> set bs \<or> (\<exists>b \<in> set bs. b dvd n))" if "trial_bases bs n = Some r" for bs
    using that by (induct bs) (auto split: if_splits)
  then have dv: "n \<in> set BASES \<or> (\<exists>b \<in> set BASES. b dvd n)" using Some by blast
  have mem: "n \<in> set BASES \<Longrightarrow> is_probable_prime n" by (intro prime_is_probable BASES_prime)
  have "\<not> is_probable_prime n" if "n \<notin> set BASES"
    using that dv trial_bases_composite [of BASES n] by (auto simp: is_probable_prime_def)
  then show ?thesis using mem dv by blast
qed

section \<open>Field specifications\<close>

text \<open>\<^verbatim>\<open>r1cs::FieldSpec\<close>: the R1CS program's field, its modulus possibly unknown.\<close>

record field_spec =
  fs_name :: string
  fs_modulus_decimal :: "string option"

definition bn254_decimal :: string where
  "bn254_decimal =
    ''21888242871839275222246405745257275088548364400416034343698204186575808495617''"

definition fs_unknown :: field_spec where
  "fs_unknown = \<lparr>fs_name = ''unknown'', fs_modulus_decimal = None\<rparr>"

definition fs_bn254 :: field_spec where
  "fs_bn254 = \<lparr>fs_name = ''bn254'', fs_modulus_decimal = Some bn254_decimal\<rparr>"

definition fs_named :: "string \<Rightarrow> field_spec" where
  "fs_named name =
    (if name = ''bn254'' \<or> name = ''bn128'' then fs_bn254
     else if name = ''unknown'' then fs_unknown
     else \<lparr>fs_name = ''custom'', fs_modulus_decimal = Some name\<rparr>)"

text \<open>The two refusals of \<^verbatim>\<open>parse\<close>, each carrying the text it was given.\<close>

datatype field_parse_error = NotAField string | NotPrime string

definition fs_parse :: "string \<Rightarrow> field_parse_error + field_spec" where
  "fs_parse s =
    (let t = trim s in
     if t = ''bn254'' \<or> t = ''bn128'' then Inr fs_bn254
     else if t = [] \<or> \<not> list_all is_ascii_digit t then Inl (NotAField s)
     else let p = digits_value t in
       if \<not> is_probable_prime p then Inl (NotPrime s)
       else Inr (fs_named (show_nat p)))"

lemma bn254_decimal_value: "parse_digits bn254_decimal = Some bn254_modulus"
  by (simp add: bn254_decimal_def bn254_modulus_def parse_digits_def digits_value_def is_ascii_digit_def)

lemma show_nat_not_name: "show_nat n \<noteq> ''bn254''" "show_nat n \<noteq> ''bn128''" "show_nat n \<noteq> ''unknown''"
proof -
  have "list_all is_ascii_digit (show_nat n)" by (rule show_nat_digits)
  moreover have "\<not> list_all is_ascii_digit ''bn254''" "\<not> list_all is_ascii_digit ''bn128''"
    "\<not> list_all is_ascii_digit ''unknown''" by (simp_all add: is_ascii_digit_def)
  ultimately show "show_nat n \<noteq> ''bn254''" "show_nat n \<noteq> ''bn128''" "show_nat n \<noteq> ''unknown''"
    by metis+
qed

lemma trim_show_nat [simp]: "trim (show_nat n) = show_nat n"
  using trim_show_int [of "int n"] by (simp add: show_int_def)

lemma fs_parse_show:
  "fs_parse (show_nat p) =
    (if is_probable_prime p then Inr \<lparr>fs_name = ''custom'', fs_modulus_decimal = Some (show_nat p)\<rparr>
     else Inl (NotPrime (show_nat p)))"
  by (simp add: fs_parse_def Let_def show_nat_not_name show_nat_digits digits_value_show_nat fs_named_def)

text \<open>C37: naming a field, for every text. It is accepted in exactly two cases: it is (up to white space)
  one of the two names of BN254, or it is a decimal whose value \<open>n\<close> is one of the first twenty primes, or
  has none of them as a divisor and is a strong probable prime to each of these bases; then it is the
  custom field of modulus \<open>n\<close>. A text that is no decimal is refused as no field, any other decimal as
  not prime. So no prime is ever refused, and what is accepted below \<open>73\<^sup>2\<close> is prime.\<close>

theorem fs_parse_exact:
  "(fs_parse s = Inr f \<longleftrightarrow>
      trim s \<in> {''bn254'', ''bn128''} \<and> f = fs_bn254 \<or>
      trim s \<noteq> [] \<and> list_all is_ascii_digit (trim s) \<and>
      f = \<lparr>fs_name = ''custom'', fs_modulus_decimal = Some (show_nat (digits_value (trim s)))\<rparr> \<and>
      (digits_value (trim s) \<in> set BASES \<or> 2 \<le> digits_value (trim s) \<and>
        (\<forall>b \<in> set BASES. \<not> b dvd digits_value (trim s) \<and> strong_probable_prime (digits_value (trim s)) b))) \<and>
   (fs_parse s = Inl (NotAField s) \<longleftrightarrow>
      trim s \<notin> {''bn254'', ''bn128''} \<and> (trim s = [] \<or> \<not> list_all is_ascii_digit (trim s))) \<and>
   (fs_parse s \<in> {Inl (NotAField s), Inl (NotPrime s)} \<union> range Inr) \<and>
   (nat_prime p \<longrightarrow>
      fs_parse (show_nat p) = Inr \<lparr>fs_name = ''custom'', fs_modulus_decimal = Some (show_nat p)\<rparr>) \<and>
   (p < 5329 \<longrightarrow> \<not> nat_prime p \<longrightarrow> fs_parse (show_nat p) = Inl (NotPrime (show_nat p)))"
proof -
  have nd: "\<not> list_all is_ascii_digit ''bn254''" "\<not> list_all is_ascii_digit ''bn128''"
    by (simp_all add: is_ascii_digit_def)
  let ?n = "digits_value (trim s)"
  let ?dec = "trim s \<noteq> [] \<and> list_all is_ascii_digit (trim s)"
  let ?custom = "\<lparr>fs_name = ''custom'', fs_modulus_decimal = Some (show_nat ?n)\<rparr>"
  have "fs_named (show_nat ?n) = ?custom" by (simp add: fs_named_def show_nat_not_name)
  then have parse: "fs_parse s =
      (if trim s \<in> {''bn254'', ''bn128''} then Inr fs_bn254 else if \<not> ?dec then Inl (NotAField s)
       else if is_probable_prime ?n then Inr ?custom else Inl (NotPrime s))"
    by (simp add: fs_parse_def Let_def)
  have names: "\<not> ?dec" if "trim s \<in> {''bn254'', ''bn128''}" using that nd by auto
  have "fs_parse s = Inr f \<longleftrightarrow>
      trim s \<in> {''bn254'', ''bn128''} \<and> f = fs_bn254 \<or> ?dec \<and> f = ?custom \<and> is_probable_prime ?n"
    using names unfolding parse by (auto simp del: insert_iff)
  then have accepted: "fs_parse s = Inr f \<longleftrightarrow>
      trim s \<in> {''bn254'', ''bn128''} \<and> f = fs_bn254 \<or>
      trim s \<noteq> [] \<and> list_all is_ascii_digit (trim s) \<and> f = ?custom \<and>
      (?n \<in> set BASES \<or> 2 \<le> ?n \<and> (\<forall>b \<in> set BASES. \<not> b dvd ?n \<and> strong_probable_prime ?n b))"
    unfolding is_probable_prime_iff by simp
  have "fs_parse s = Inl (NotAField s) \<longleftrightarrow>
      trim s \<notin> {''bn254'', ''bn128''} \<and> (trim s = [] \<or> \<not> list_all is_ascii_digit (trim s))"
    "fs_parse s \<in> {Inl (NotAField s), Inl (NotPrime s)} \<union> range Inr"
    unfolding parse by simp_all
  then show ?thesis
    using accepted prime_is_probable [of p] small_probable_is_prime [of p] by (simp add: fs_parse_show)
qed

theorem fs_parse_exact_witness:
  "fs_parse (show_nat 97) = Inr \<lparr>fs_name = ''custom'', fs_modulus_decimal = Some (show_nat 97)\<rparr> \<and>
   fs_parse (show_nat 91) = Inl (NotPrime (show_nat 91))"
proof -
  have "nat_prime 97" by (rule nat_prime_by_trial) (simp, code_simp)
  moreover have "\<not> nat_prime 91" unfolding nat_prime_def by (auto intro!: exI [of _ 7])
  ultimately show ?thesis
    using fs_parse_exact [where p = 97] fs_parse_exact [where p = 91] by simp
qed

end
