(* ===== verification/Prim_IR.thy ===== *)
theory Prim_IR
  imports Lin_Comb Ordered_Map Field_Spec
begin

text \<open>
  The programs of xark-IR: \<^verbatim>\<open>primitive.rs\<close> (variables, \<open>expression = 0\<close> constraints, the
  thirteen witness-generation operations), \<^verbatim>\<open>r1cs.rs\<close> (rank-1 rows with identifiers and
  debug information) and \<^verbatim>\<open>circuit.rs\<close> (the lossless circuit program and its two views).

  Shown: flattening a row \<open>a * b = c\<close> keeps its value; the solver view \<^verbatim>\<open>to_primitive\<close>,
  which names the larger side of a big product as a fresh variable, accepts exactly the
  assignments of the rows, extended uniquely to the fresh variables.
\<close>

section \<open>\<^verbatim>\<open>primitive.rs\<close>: data\<close>

datatype var_role = PublicInput | PrivateInput | Derived

record var =
  v_id :: var_id
  v_name :: string
  v_role :: var_role

record mul_term =
  m_coeff :: field_const
  m_left :: var_id
  m_right :: var_id

record linear_term =
  l_coeff :: field_const
  l_var :: var_id

record expression =
  e_mul_terms :: "mul_term list"
  e_linear_terms :: "linear_term list"
  e_constant :: field_const
  e_note :: "string option"

text \<open>The fields of each constructor stand in the order of the code's declaration.\<close>

datatype ('l, 'v) witness_gen =
    Product 'v 'l 'l \<comment> \<open>\<^verbatim>\<open>out, left, right\<close>\<close>
  | Linear 'v 'l
  | Xor 'v 'l 'l
  | Or 'v 'l 'l
  | Inverse 'v 'l
  | InverseOrZero 'v 'l
  | Bit 'v 'l u32 \<comment> \<open>\<^verbatim>\<open>out, input, index\<close>\<close>
  | Bits "'v list" 'l
  | DivRem 'v 'v 'l 'l \<comment> \<open>\<^verbatim>\<open>q, r, num, den\<close>\<close>
  | MulModDivMod "'v list" "'v list" "'l list" "'l list" "'l list" u32
      \<comment> \<open>\<^verbatim>\<open>q, r, a, b, modulus, limb_bits\<close>\<close>
  | ModInverse "'v list" "'l list" "'l list" u32 \<comment> \<open>\<^verbatim>\<open>out, a, modulus, limb_bits\<close>\<close>
  | FakeGlv "'v list" "'l list" "'l list" "'l list" u32
      \<comment> \<open>\<^verbatim>\<open>out, u, modulus, lambda, limb_bits\<close>\<close>
  | Sub2 'v "'v list" "'l list" "'l list" "'l list" "'l list" u32
      \<comment> \<open>\<^verbatim>\<open>qabs, r, a, b, c, modulus, limb_bits\<close>\<close>

fun wg_map :: "('l \<Rightarrow> 'k) \<Rightarrow> ('v \<Rightarrow> 'w) \<Rightarrow> ('l, 'v) witness_gen \<Rightarrow> ('k, 'w) witness_gen" where
  "wg_map lc var (Product out left right) = Product (var out) (lc left) (lc right)"
| "wg_map lc var (Linear out l) = Linear (var out) (lc l)"
| "wg_map lc var (Xor out a b) = Xor (var out) (lc a) (lc b)"
| "wg_map lc var (Or out a b) = Or (var out) (lc a) (lc b)"
| "wg_map lc var (Inverse out input) = Inverse (var out) (lc input)"
| "wg_map lc var (InverseOrZero out input) = InverseOrZero (var out) (lc input)"
| "wg_map lc var (Bit out input index) = Bit (var out) (lc input) index"
| "wg_map lc var (Bits outs input) = Bits (map var outs) (lc input)"
| "wg_map lc var (DivRem q r num den) = DivRem (var q) (var r) (lc num) (lc den)"
| "wg_map lc var (MulModDivMod q r a b modulus limb_bits) =
     MulModDivMod (map var q) (map var r) (map lc a) (map lc b) (map lc modulus) limb_bits"
| "wg_map lc var (ModInverse out a modulus limb_bits) =
     ModInverse (map var out) (map lc a) (map lc modulus) limb_bits"
| "wg_map lc var (FakeGlv out u modulus lambda limb_bits) =
     FakeGlv (map var out) (map lc u) (map lc modulus) (map lc lambda) limb_bits"
| "wg_map lc var (Sub2 qabs r a b c modulus limb_bits) =
     Sub2 (var qabs) (map var r) (map lc a) (map lc b) (map lc c) (map lc modulus) limb_bits"

lemma wg_map_functor:
  "wg_map id id w = w" "wg_map f g (wg_map f' g' w) = wg_map (f \<circ> f') (g \<circ> g') w"
  by (cases w; simp)+

type_synonym witness_op = "(lin_comb, var_id) witness_gen"

record prim_field_spec =
  pf_name :: string
  pf_modulus_decimal :: string

definition pf_bn254 :: prim_field_spec where
  "pf_bn254 = \<lparr>pf_name = ''bn254'', pf_modulus_decimal = bn254_decimal\<rparr>"

record primitive_program =
  pp_field :: prim_field_spec
  pp_vars :: "var list"
  pp_constraints :: "expression list"
  pp_witness_gen :: "witness_op list"

section \<open>\<^verbatim>\<open>r1cs.rs\<close>: the backend's program\<close>

datatype visibility = Private | Public | Internal

record variable =
  rv_id :: var_id
  rv_name :: string
  rv_visibility :: visibility

record debug_info =
  d_source_span :: "string option"
  d_note :: "string option"

record r1cs_constraint =
  rc_id :: u32
  rc_a :: lin_comb
  rc_b :: lin_comb
  rc_c :: lin_comb
  rc_debug :: "debug_info option"

record r1cs_program =
  rp_field :: field_spec
  rp_variables :: "variable list"
  rp_constraints :: "r1cs_constraint list"

definition rc_mul :: "u32 \<Rightarrow> lin_comb \<Rightarrow> lin_comb \<Rightarrow> var_id \<Rightarrow> string \<Rightarrow> r1cs_constraint" where
  "rc_mul i lhs rhs out note = \<lparr>rc_id = i, rc_a = lhs, rc_b = rhs, rc_c = lc_var out,
    rc_debug = Some \<lparr>d_source_span = None, d_note = Some note\<rparr>\<rparr>"

definition rc_general :: "u32 \<Rightarrow> lin_comb \<Rightarrow> lin_comb \<Rightarrow> lin_comb \<Rightarrow> string \<Rightarrow> r1cs_constraint" where
  "rc_general i a b c note = \<lparr>rc_id = i, rc_a = a, rc_b = b, rc_c = c,
    rc_debug = Some \<lparr>d_source_span = None, d_note = Some note\<rparr>\<rparr>"

definition rc_equal :: "u32 \<Rightarrow> lin_comb \<Rightarrow> lin_comb \<Rightarrow> string \<Rightarrow> r1cs_constraint" where
  "rc_equal i lhs rhs note = \<lparr>rc_id = i, rc_a = lc_sub lhs rhs, rc_b = lc_one,
    rc_c = \<lparr>lc_const = fc_zero, lc_terms = []\<rparr>,
    rc_debug = Some \<lparr>d_source_span = None, d_note = Some note\<rparr>\<rparr>"

section \<open>\<^verbatim>\<open>circuit.rs\<close>: the circuit program and its views\<close>

record r1cs_row =
  r_a :: lin_comb
  r_b :: lin_comb
  r_c :: lin_comb
  r_note :: "string option"

record circuit_program =
  cp_field :: prim_field_spec
  cp_vars :: "var list"
  cp_constraints :: "r1cs_row list"
  cp_witness_gen :: "witness_op list"

text \<open>\<^verbatim>\<open>add_lin\<close>: the \<^verbatim>\<open>BTreeMap\<close> of linear coefficients, one \<^verbatim>\<open>entry\<close> at a time.\<close>

definition add_lin :: "var_id \<Rightarrow> field_const \<Rightarrow> (var_id, field_const) btree \<Rightarrow> (var_id, field_const) btree" where
  "add_lin v coeff linear =
    bt_entry v (\<lambda>e. Some (fc_add (case e of None \<Rightarrow> fc_zero | Some c \<Rightarrow> c) coeff)) linear"

definition mul_terms_of :: "lc_term list \<Rightarrow> lc_term list \<Rightarrow> mul_term list" where
  "mul_terms_of as bs = concat (map (\<lambda>ta. concat (map (\<lambda>tb.
     (let coeff = fc_mul (t_coeff ta) (t_coeff tb) in
      if fc_is_zero coeff then []
      else [\<lparr>m_coeff = coeff, m_left = t_var ta, m_right = t_var tb\<rparr>])) bs)) as)"

definition expr_from_r1cs :: "lin_comb \<Rightarrow> lin_comb \<Rightarrow> lin_comb \<Rightarrow> string option \<Rightarrow> expression" where
  "expr_from_r1cs a b c note =
    (let linear = [];
         constant = fc_mul (lc_const a) (lc_const b);
         linear = fold (\<lambda>ta. add_lin (t_var ta) (fc_mul (t_coeff ta) (lc_const b))) (lc_terms a) linear;
         linear = fold (\<lambda>tb. add_lin (t_var tb) (fc_mul (lc_const a) (t_coeff tb))) (lc_terms b) linear;
         mul_terms = mul_terms_of (lc_terms a) (lc_terms b);
         constant = fc_add constant (fc_neg (lc_const c));
         linear = fold (\<lambda>tc. add_lin (t_var tc) (fc_neg (t_coeff tc))) (lc_terms c) linear;
         linear_terms = map (\<lambda>(v, coeff). \<lparr>l_coeff = coeff, l_var = v\<rparr>)
           (filter (\<lambda>(_, coeff). \<not> fc_is_zero coeff) linear)
     in \<lparr>e_mul_terms = mul_terms, e_linear_terms = linear_terms, e_constant = constant, e_note = note\<rparr>)"

definition MAX_PRODUCTS :: nat where
  "MAX_PRODUCTS = 4096"

text \<open>What the closure of \<^verbatim>\<open>to_primitive\<close> captures and changes.\<close>

record factor_state =
  fs_next :: var_id
  fs_vars :: "var list"
  fs_witness :: "witness_op list"
  fs_extra :: "expression list"

definition factored :: "r1cs_row \<Rightarrow> bool" where
  "factored r \<longleftrightarrow> \<not> length (lc_terms (r_a r)) * length (lc_terms (r_b r)) \<le> MAX_PRODUCTS"

definition flatten_row :: "r1cs_row \<Rightarrow> factor_state \<Rightarrow> expression \<times> factor_state" where
  "flatten_row r st =
    (if length (lc_terms (r_a r)) * length (lc_terms (r_b r)) \<le> MAX_PRODUCTS then
       (expr_from_r1cs (r_a r) (r_b r) (r_c r) (r_note r), st)
     else
       let (big, small) =
             (if length (lc_terms (r_a r)) \<ge> length (lc_terms (r_b r)) then (r_a r, r_b r) else (r_b r, r_a r));
           t = fs_next st;
           tv = lc_var t;
           st = \<lparr>fs_next = t + 1,
             fs_vars = fs_vars st @ [\<lparr>v_id = t, v_name = ''$factor'' @ show_nat (unat t), v_role = Derived\<rparr>],
             fs_witness = fs_witness st @ [Linear t big],
             fs_extra = fs_extra st @ [expr_from_r1cs big lc_one tv None]\<rparr>
       in if lc_terms small = lc_terms big then
            let shifted = tv\<lparr>lc_const := fc_add (lc_const small) (fc_neg (lc_const big))\<rparr>
            in (expr_from_r1cs tv shifted (r_c r) (r_note r), st)
          else (expr_from_r1cs tv small (r_c r) (r_note r), st))"

fun flatten_rows :: "r1cs_row list \<Rightarrow> factor_state \<Rightarrow> expression list \<times> factor_state" where
  "flatten_rows [] st = ([], st)"
| "flatten_rows (r # rows) st =
     (let (e, st) = flatten_row r st; (es, st) = flatten_rows rows st in (e # es, st))"

text \<open>\<^verbatim>\<open>max().unwrap_or(0)\<close> of \<open>id + 1\<close>, on 32 bits.\<close>

definition next_id :: "var list \<Rightarrow> var_id" where
  "next_id vars = fold max (map (\<lambda>v. v_id v + 1) vars) 0"

definition to_primitive :: "circuit_program \<Rightarrow> primitive_program" where
  "to_primitive cp =
    (let st = \<lparr>fs_next = next_id (cp_vars cp), fs_vars = cp_vars cp,
           fs_witness = cp_witness_gen cp, fs_extra = []\<rparr>;
         (constraints, st) = flatten_rows (cp_constraints cp) st
     in \<lparr>pp_field = cp_field cp, pp_vars = fs_vars st,
         pp_constraints = constraints @ fs_extra st, pp_witness_gen = fs_witness st\<rparr>)"

fun role_visibility :: "var_role \<Rightarrow> visibility" where
  "role_visibility PublicInput = Public"
| "role_visibility PrivateInput = Private"
| "role_visibility Derived = Internal"

definition to_r1cs :: "circuit_program \<Rightarrow> r1cs_program" where
  "to_r1cs cp = \<lparr>
     rp_field = \<lparr>fs_name = pf_name (cp_field cp),
       fs_modulus_decimal = Some (pf_modulus_decimal (cp_field cp))\<rparr>,
     rp_variables = map (\<lambda>v. \<lparr>rv_id = v_id v, rv_name = v_name v,
       rv_visibility = role_visibility (v_role v)\<rparr>) (cp_vars cp),
     rp_constraints = map (\<lambda>(i, r). \<lparr>rc_id = of_nat i, rc_a = r_a r, rc_b = r_b r, rc_c = r_c r,
       rc_debug = map_option (\<lambda>n. \<lparr>d_source_span = None, d_note = Some n\<rparr>) (r_note r)\<rparr>)
       (enumerate 0 (cp_constraints cp))\<rparr>"


definition into_r1cs :: "circuit_program \<Rightarrow> r1cs_program" where
  "into_r1cs cp = \<lparr>
     rp_field = \<lparr>fs_name = pf_name (cp_field cp),
       fs_modulus_decimal = Some (pf_modulus_decimal (cp_field cp))\<rparr>,
     rp_variables = map (\<lambda>v. \<lparr>rv_id = v_id v, rv_name = v_name v,
       rv_visibility = role_visibility (v_role v)\<rparr>) (cp_vars cp),
     rp_constraints = map (\<lambda>(i, r). \<lparr>rc_id = of_nat i, rc_a = r_a r, rc_b = r_b r, rc_c = r_c r,
       rc_debug = map_option (\<lambda>n. \<lparr>d_source_span = None, d_note = Some n\<rparr>) (r_note r)\<rparr>)
       (enumerate 0 (cp_constraints cp))\<rparr>"

section \<open>Values of expressions\<close>

definition mul_val :: "(var_id \<Rightarrow> int) \<Rightarrow> mul_term \<Rightarrow> int" where
  "mul_val \<sigma> t = fc_big (m_coeff t) * \<sigma> (m_left t) * \<sigma> (m_right t)"

definition linear_val :: "(var_id \<Rightarrow> int) \<Rightarrow> linear_term \<Rightarrow> int" where
  "linear_val \<sigma> t = fc_big (l_coeff t) * \<sigma> (l_var t)"

definition expr_val :: "(var_id \<Rightarrow> int) \<Rightarrow> expression \<Rightarrow> int" where
  "expr_val \<sigma> e = (\<Sum>t \<leftarrow> e_mul_terms e. mul_val \<sigma> t) + (\<Sum>t \<leftarrow> e_linear_terms e. linear_val \<sigma> t)
    + fc_big (e_constant e)"

definition row_val :: "(var_id \<Rightarrow> int) \<Rightarrow> r1cs_row \<Rightarrow> int" where
  "row_val \<sigma> r = lc_val \<sigma> (r_a r) * lc_val \<sigma> (r_b r) - lc_val \<sigma> (r_c r)"

definition coeff_weight :: "(var_id \<Rightarrow> int) \<Rightarrow> var_id \<Rightarrow> field_const \<Rightarrow> int" where
  "coeff_weight \<sigma> v c = fc_big c * \<sigma> v"

lemma add_lin_sum:
  assumes "bt_invar t"
  shows "bt_invar (add_lin v c t)"
    "entries_sum (coeff_weight \<sigma>) (add_lin v c t) = entries_sum (coeff_weight \<sigma>) t + fc_big c * \<sigma> v"
proof -
  show "bt_invar (add_lin v c t)" using assms by (simp add: add_lin_def bt_invar_entry)
  show "entries_sum (coeff_weight \<sigma>) (add_lin v c t) = entries_sum (coeff_weight \<sigma>) t + fc_big c * \<sigma> v"
    using btree.entries_sum_entry [OF assms, of "coeff_weight \<sigma>" v
        "\<lambda>e. Some (fc_add (case e of None \<Rightarrow> fc_zero | Some c \<Rightarrow> c) c)"]
    by (cases "bt_get t v") (simp_all add: add_lin_def coeff_weight_def distrib_right)
qed

lemma fold_add_lin_sum:
  assumes "bt_invar t"
  shows "bt_invar (fold (\<lambda>x. add_lin (f x) (g x)) xs t)"
    "entries_sum (coeff_weight \<sigma>) (fold (\<lambda>x. add_lin (f x) (g x)) xs t) =
      entries_sum (coeff_weight \<sigma>) t + (\<Sum>x \<leftarrow> xs. fc_big (g x) * \<sigma> (f x))"
proof -
  have "bt_invar (fold (\<lambda>x. add_lin (f x) (g x)) xs t) \<and>
    entries_sum (coeff_weight \<sigma>) (fold (\<lambda>x. add_lin (f x) (g x)) xs t) =
      entries_sum (coeff_weight \<sigma>) t + (\<Sum>x \<leftarrow> xs. fc_big (g x) * \<sigma> (f x))"
    using assms
  proof (induction xs arbitrary: t)
    case (Cons x xs)
    from add_lin_sum(1) [OF Cons.prems, of "f x" "g x"] add_lin_sum(2) [OF Cons.prems, of \<sigma> "f x" "g x"]
    have i: "bt_invar (add_lin (f x) (g x) t)" and
      v: "entries_sum (coeff_weight \<sigma>) (add_lin (f x) (g x) t) =
        entries_sum (coeff_weight \<sigma>) t + fc_big (g x) * \<sigma> (f x)"
      by auto
    from Cons.IH [OF i] show ?case by (simp add: v)
  qed simp
  then show "bt_invar (fold (\<lambda>x. add_lin (f x) (g x)) xs t)"
    "entries_sum (coeff_weight \<sigma>) (fold (\<lambda>x. add_lin (f x) (g x)) xs t) =
      entries_sum (coeff_weight \<sigma>) t + (\<Sum>x \<leftarrow> xs. fc_big (g x) * \<sigma> (f x))"
    by simp_all
qed

text \<open>Dropping the zero coefficients keeps the sum.\<close>

lemma linear_terms_sum:
  "(\<Sum>t \<leftarrow> map (\<lambda>(v, c). \<lparr>l_coeff = c, l_var = v\<rparr>) (filter (\<lambda>(_, c). \<not> fc_is_zero c) t). linear_val \<sigma> t) =
    entries_sum (coeff_weight \<sigma>) t"
  by (induct t) (auto simp: linear_val_def coeff_weight_def dest: fc_is_zero_big)

lemma mul_terms_sum:
  "(\<Sum>t \<leftarrow> mul_terms_of as bs. mul_val \<sigma> t) = terms_val \<sigma> as * terms_val \<sigma> bs"
proof -
  let ?t = "\<lambda>ta tb. let coeff = fc_mul (t_coeff ta) (t_coeff tb) in
      if fc_is_zero coeff then [] else [\<lparr>m_coeff = coeff, m_left = t_var ta, m_right = t_var tb\<rparr>]"
  have one: "(\<Sum>t \<leftarrow> ?t ta tb. mul_val \<sigma> t) =
      (fc_big (t_coeff ta) * \<sigma> (t_var ta)) * (fc_big (t_coeff tb) * \<sigma> (t_var tb))" for ta tb
    using fc_is_zero_big [of "fc_mul (t_coeff ta) (t_coeff tb)"]
    by (auto simp: Let_def mul_val_def)
  have inner: "(\<Sum>t \<leftarrow> concat (map (?t ta) bs). mul_val \<sigma> t) =
      (fc_big (t_coeff ta) * \<sigma> (t_var ta)) * terms_val \<sigma> bs" for ta
    by (induct bs) (simp_all only: list.map concat.simps map_append sum_list_append one
        terms_val_simps distrib_left sum_list.Nil mult_zero_right)
  show ?thesis unfolding mul_terms_of_def
    by (induct as) (simp_all only: list.map concat.simps map_append sum_list_append inner
        terms_val_simps distrib_right sum_list.Nil mult_zero_left)
qed

lemma terms_val_scaled:
  "(\<Sum>t \<leftarrow> ts. fc_big (t_coeff t) * (k * \<sigma> (t_var t))) = k * terms_val \<sigma> ts"
  "(\<Sum>t \<leftarrow> ts. - (fc_big (t_coeff t) * \<sigma> (t_var t))) = - terms_val \<sigma> ts"
  by (induct ts) (simp_all add: algebra_simps)

lemma expr_from_r1cs_val [simp]:
  "expr_val \<sigma> (expr_from_r1cs a b c n) = lc_val \<sigma> a * lc_val \<sigma> b - lc_val \<sigma> c"
  by (simp add: expr_from_r1cs_def Let_def expr_val_def mul_terms_sum linear_terms_sum [simplified]
      fold_add_lin_sum terms_val_scaled lc_val_def algebra_simps)

section \<open>The solver view accepts what the rows accept\<close>

definition lc_vars :: "lin_comb \<Rightarrow> var_id set" where
  "lc_vars lc = t_var ` set (lc_terms lc)"

definition row_vars :: "r1cs_row \<Rightarrow> var_id set" where
  "row_vars r = lc_vars (r_a r) \<union> lc_vars (r_b r) \<union> lc_vars (r_c r)"

definition cp_holds :: "int \<Rightarrow> (var_id \<Rightarrow> int) \<Rightarrow> circuit_program \<Rightarrow> bool" where
  "cp_holds m \<sigma> cp \<longleftrightarrow> list_all (\<lambda>r. m dvd row_val \<sigma> r) (cp_constraints cp)"

definition pp_holds :: "int \<Rightarrow> (var_id \<Rightarrow> int) \<Rightarrow> primitive_program \<Rightarrow> bool" where
  "pp_holds m \<sigma> pp \<longleftrightarrow> list_all (\<lambda>e. m dvd expr_val \<sigma> e) (pp_constraints pp)"

text \<open>Rows use declared variables only, and the identifiers leave room for the fresh ones.\<close>

definition cp_closed :: "circuit_program \<Rightarrow> bool" where
  "cp_closed cp \<longleftrightarrow>
    list_all (\<lambda>r. row_vars r \<subseteq> v_id ` set (cp_vars cp)) (cp_constraints cp) \<and>
    list_all (\<lambda>v. v_id v \<noteq> - 1) (cp_vars cp) \<and>
    unat (next_id (cp_vars cp)) + length (cp_constraints cp) < 2 ^ 32"

lemma terms_val_dvd_cong:
  "(\<And>v. v \<in> t_var ` set ts \<Longrightarrow> m dvd \<sigma> v - \<tau> v) \<Longrightarrow> m dvd terms_val \<sigma> ts - terms_val \<tau> ts"
proof (induct ts)
  case (Cons t ts)
  then have "m dvd fc_big (t_coeff t) * (\<sigma> (t_var t) - \<tau> (t_var t)) + (terms_val \<sigma> ts - terms_val \<tau> ts)"
    by (intro dvd_add dvd_mult) auto
  then show ?case by (simp add: algebra_simps)
qed simp

lemma lc_val_dvd_cong:
  "(\<And>v. v \<in> lc_vars lc \<Longrightarrow> m dvd \<sigma> v - \<tau> v) \<Longrightarrow> m dvd lc_val \<sigma> lc - lc_val \<tau> lc"
  using terms_val_dvd_cong [of "lc_terms lc" m \<sigma> \<tau>] by (simp add: lc_val_def lc_vars_def)

lemma lc_val_cong: "(\<And>v. v \<in> lc_vars lc \<Longrightarrow> \<sigma> v = \<tau> v) \<Longrightarrow> lc_val \<sigma> lc = lc_val \<tau> lc"
  by (auto simp: lc_val_def lc_vars_def intro!: terms_val_cong)

lemma row_val_cong:
  assumes "\<And>v. v \<in> row_vars r \<Longrightarrow> \<sigma> v = \<tau> v"
  shows "row_val \<sigma> r = row_val \<tau> r"
proof -
  have "lc_val \<sigma> (r_a r) = lc_val \<tau> (r_a r)" "lc_val \<sigma> (r_b r) = lc_val \<tau> (r_b r)"
    "lc_val \<sigma> (r_c r) = lc_val \<tau> (r_c r)"
    by (rule lc_val_cong; simp add: assms row_vars_def)+
  then show ?thesis by (simp add: row_val_def)
qed

text \<open>One row: unchanged, or named through the fresh variable, up to a multiple of the defining row.\<close>

lemma flatten_row_cases:
  assumes "flatten_row r st = (e, st')"
  obtains (kept) "\<not> factored r" "st' = st" "\<And>\<sigma>. expr_val \<sigma> e = row_val \<sigma> r"
  | (named) big x nm where "factored r" "lc_vars big \<subseteq> row_vars r"
      "fs_next st' = fs_next st + 1" "fs_extra st' = fs_extra st @ [x]"
      "fs_vars st' = fs_vars st @ [\<lparr>v_id = fs_next st, v_name = nm, v_role = Derived\<rparr>]"
      "fs_witness st' = fs_witness st @ [Linear (fs_next st) big]"
      "\<And>\<sigma>. expr_val \<sigma> x = lc_val \<sigma> big - \<sigma> (fs_next st)"
      "\<And>\<sigma>. \<exists>k. expr_val \<sigma> e = row_val \<sigma> r - k * (lc_val \<sigma> big - \<sigma> (fs_next st))"
proof (cases "factored r")
  case False
  then show ?thesis using assms kept by (auto simp: flatten_row_def factored_def row_val_def)
next
  case True
  define big where "big = (if length (lc_terms (r_a r)) \<ge> length (lc_terms (r_b r)) then r_a r else r_b r)"
  define small where "small = (if length (lc_terms (r_a r)) \<ge> length (lc_terms (r_b r)) then r_b r else r_a r)"
  let ?t = "fs_next st"
  let ?shifted = "(lc_var ?t)\<lparr>lc_const := fc_add (lc_const small) (fc_neg (lc_const big))\<rparr>"
  have pair: "(if length (lc_terms (r_a r)) \<ge> length (lc_terms (r_b r)) then (r_a r, r_b r) else (r_b r, r_a r))
      = (big, small)"
    by (simp add: big_def small_def)
  have e: "e = (if lc_terms small = lc_terms big then expr_from_r1cs (lc_var ?t) ?shifted (r_c r) (r_note r)
      else expr_from_r1cs (lc_var ?t) small (r_c r) (r_note r))"
    and st': "st' = \<lparr>fs_next = ?t + 1,
      fs_vars = fs_vars st @ [\<lparr>v_id = ?t, v_name = ''$factor'' @ show_nat (unat ?t), v_role = Derived\<rparr>],
      fs_witness = fs_witness st @ [Linear ?t big],
      fs_extra = fs_extra st @ [expr_from_r1cs big lc_one (lc_var ?t) None]\<rparr>"
    using assms True unfolding flatten_row_def factored_def pair by (auto simp: Let_def split: if_splits)
  have prod: "row_val \<sigma> r = lc_val \<sigma> big * lc_val \<sigma> small - lc_val \<sigma> (r_c r)" for \<sigma>
    by (simp add: row_val_def big_def small_def)
  have sh: "lc_val \<sigma> ?shifted = lc_val \<sigma> small - lc_val \<sigma> big + \<sigma> ?t" if "lc_terms small = lc_terms big" for \<sigma>
    using that by (simp add: lc_val_def lc_var_def)
  have "\<exists>k. expr_val \<sigma> e = row_val \<sigma> r - k * (lc_val \<sigma> big - \<sigma> ?t)" for \<sigma>
  proof (cases "lc_terms small = lc_terms big")
    case True
    then show ?thesis unfolding e prod
      by (intro exI [of _ "lc_val \<sigma> small + \<sigma> ?t"]) (simp add: sh algebra_simps)
  next
    case False
    then show ?thesis unfolding e prod
      by (intro exI [of _ "lc_val \<sigma> small"]) (simp add: algebra_simps)
  qed
  moreover have "lc_vars big \<subseteq> row_vars r" by (auto simp: big_def row_vars_def)
  ultimately show ?thesis using True
    by (intro named [of big "expr_from_r1cs big lc_one (lc_var ?t) None" "''$factor'' @ show_nat (unat ?t)"])
      (simp_all add: st')
qed

lemma flatten_rows_Cons:
  assumes "flatten_rows (r # rows) st = (es, st')"
  obtains e st1 es1 where "flatten_row r st = (e, st1)" "flatten_rows rows st1 = (es1, st')" "es = e # es1"
  using assms by (auto split: prod.splits)

lemma flatten_rows_extra:
  "flatten_rows rows st = (es, st') \<Longrightarrow> set (fs_extra st) \<subseteq> set (fs_extra st')"
proof (induction rows arbitrary: st es)
  case (Cons r rows)
  from Cons.prems obtain e st1 es1 where *: "flatten_row r st = (e, st1)" "flatten_rows rows st1 = (es1, st')"
    by (rule flatten_rows_Cons)
  from *(1) have "set (fs_extra st) \<subseteq> set (fs_extra st1)" by (cases rule: flatten_row_cases) auto
  with Cons.IH [OF *(2)] show ?case by blast
qed simp

text \<open>Where the defining rows hold, constraint \<open>i\<close> holds iff row \<open>i\<close> does.\<close>

lemma flatten_rows_iff:
  "flatten_rows rows st = (es, st') \<Longrightarrow> \<forall>x \<in> set (fs_extra st'). m dvd expr_val \<sigma> x \<Longrightarrow>
   list_all2 (\<lambda>e r. (m :: int) dvd expr_val \<sigma> e \<longleftrightarrow> m dvd row_val \<sigma> r) es rows"
proof (induction rows arbitrary: st es)
  case (Cons r rows)
  from Cons.prems(1) obtain e st1 es1 where *: "flatten_row r st = (e, st1)"
    "flatten_rows rows st1 = (es1, st')" "es = e # es1"
    by (rule flatten_rows_Cons)
  have "m dvd expr_val \<sigma> e \<longleftrightarrow> m dvd row_val \<sigma> r"
    using *(1)
  proof (cases rule: flatten_row_cases)
    case (named big x nm)
    then have "m dvd expr_val \<sigma> x" using Cons.prems(2) flatten_rows_extra [OF *(2)] by auto
    then have d: "m dvd k * (lc_val \<sigma> big - \<sigma> (fs_next st))" for k using named by simp
    obtain k where "expr_val \<sigma> e = row_val \<sigma> r - k * (lc_val \<sigma> big - \<sigma> (fs_next st))"
      using named by blast
    then show ?thesis using dvd_diff_left_iff [OF d [of k]] by simp
  qed simp
  with Cons.IH [OF *(2) Cons.prems(2)] *(3) show ?case by simp
qed simp

text \<open>Every assignment extends to the fresh variables.\<close>

lemma flatten_rows_extend:
  "flatten_rows rows st = (es, st') \<Longrightarrow> unat (fs_next st) + length rows < 2 ^ 32 \<Longrightarrow>
   \<forall>r \<in> set rows. \<forall>v \<in> row_vars r. unat v < unat (fs_next st) \<Longrightarrow>
   \<exists>\<sigma>'. (\<forall>v. unat v < unat (fs_next st) \<longrightarrow> \<sigma>' v = \<sigma> v) \<and>
     (\<forall>x \<in> set (fs_extra st') - set (fs_extra st). expr_val \<sigma>' x = 0)"
proof (induction rows arbitrary: st es \<sigma>)
  case (Cons r rows)
  from Cons.prems(1) obtain e st1 es1 where *: "flatten_row r st = (e, st1)"
    "flatten_rows rows st1 = (es1, st')" "es = e # es1"
    by (rule flatten_rows_Cons)
  from *(1) show ?case
  proof (cases rule: flatten_row_cases)
    case kept
    then show ?thesis using Cons.IH [OF *(2), of \<sigma>] Cons.prems by auto
  next
    case (named big x nm)
    let ?t = "fs_next st"
    let ?\<sigma>1 = "\<sigma>(?t := lc_val \<sigma> big)"
    have n: "unat (fs_next st1) = Suc (unat ?t)"
      using named Cons.prems(2) by (simp add: unat_word_ariths)
    have "\<forall>r \<in> set rows. \<forall>v \<in> row_vars r. unat v < unat (fs_next st1)"
      using Cons.prems(3) n by (simp add: less_SucI)
    from Cons.IH [OF *(2) _ this, of ?\<sigma>1] n Cons.prems(2) obtain \<sigma>' where
      s: "\<forall>v. unat v < Suc (unat ?t) \<longrightarrow> \<sigma>' v = ?\<sigma>1 v"
        "\<forall>x \<in> set (fs_extra st') - set (fs_extra st1). expr_val \<sigma>' x = 0"
      by auto
    have "lc_val \<sigma>' big = lc_val \<sigma> big"
    proof (rule lc_val_cong)
      fix v assume "v \<in> lc_vars big"
      then have v: "unat v < unat ?t" using named(2) Cons.prems(3) by auto
      then have "v \<noteq> ?t" by auto
      then show "\<sigma>' v = \<sigma> v" using s(1) v by simp
    qed
    moreover have "\<sigma>' ?t = lc_val \<sigma> big" using s(1) by simp
    ultimately have "expr_val \<sigma>' x = 0" using named(7) by simp
    then have "\<forall>x \<in> set (fs_extra st') - set (fs_extra st). expr_val \<sigma>' x = 0"
      using s(2) named(4) by auto
    moreover have "\<sigma>' v = \<sigma> v" if "unat v < unat ?t" for v
      using s(1) that by (auto simp: less_SucI)
    ultimately show ?thesis by blast
  qed
qed auto

text \<open>The extension is unique modulo the field's modulus.\<close>

lemma flatten_rows_unique:
  "flatten_rows rows st = (es, st') \<Longrightarrow>
   \<forall>x \<in> set (fs_extra st'). m dvd expr_val \<sigma> x \<and> m dvd expr_val \<tau> x \<Longrightarrow>
   \<forall>r \<in> set rows. \<forall>v \<in> row_vars r. (m :: int) dvd \<sigma> v - \<tau> v \<Longrightarrow>
   \<forall>v \<in> set (fs_vars st). m dvd \<sigma> (v_id v) - \<tau> (v_id v) \<Longrightarrow>
   \<forall>v \<in> set (fs_vars st'). m dvd \<sigma> (v_id v) - \<tau> (v_id v)"
proof (induction rows arbitrary: st es)
  case (Cons r rows)
  from Cons.prems(1) obtain e st1 es1 where *: "flatten_row r st = (e, st1)"
    "flatten_rows rows st1 = (es1, st')" "es = e # es1"
    by (rule flatten_rows_Cons)
  have "\<forall>v \<in> set (fs_vars st1). m dvd \<sigma> (v_id v) - \<tau> (v_id v)"
    using *(1)
  proof (cases rule: flatten_row_cases)
    case (named big x nm)
    let ?t = "fs_next st"
    have "m dvd expr_val \<sigma> x" "m dvd expr_val \<tau> x"
      using Cons.prems(2) flatten_rows_extra [OF *(2)] named(4) by auto
    then have 1: "m dvd lc_val \<sigma> big - \<sigma> ?t" "m dvd lc_val \<tau> big - \<tau> ?t"
      by (simp_all add: named(7))
    have 2: "m dvd lc_val \<sigma> big - lc_val \<tau> big"
      using named(2) Cons.prems(3) by (intro lc_val_dvd_cong) auto
    have "\<sigma> ?t - \<tau> ?t = lc_val \<sigma> big - lc_val \<tau> big - (lc_val \<sigma> big - \<sigma> ?t) + (lc_val \<tau> big - \<tau> ?t)"
      by simp
    also have "m dvd \<dots>" by (intro dvd_add dvd_diff 1 2)
    finally show ?thesis using named(5) Cons.prems(4) by auto
  qed (use Cons.prems(4) in simp)
  with Cons.IH [OF *(2)] Cons.prems(2,3) show ?case by simp
qed simp

lemma fold_max_ge: "x \<le> fold max xs (x :: 'a :: linorder)" "\<forall>y \<in> set xs. y \<le> fold max xs x"
proof (induction xs arbitrary: x)
  case (Cons y ys)
  {
    case 1
    have "x \<le> max y x" "max y x \<le> fold max ys (max y x)" using Cons.IH(1) by simp_all
    then show ?case by (metis fold_simps(2) order_trans)
  next
    case 2
    have "y \<le> max y x" "max y x \<le> fold max ys (max y x)" using Cons.IH(1) by simp_all
    then show ?case using Cons.IH(2) [of "max y x"] by (metis fold_simps(2) order_trans set_ConsD)
  }
qed simp_all

lemma next_id_fresh:
  assumes "v \<in> set vars" "v_id v \<noteq> - 1"
  shows "unat (v_id v) < unat (next_id vars)"
proof -
  have "v_id v + 1 \<le> next_id vars"
    using fold_max_ge(2) [of "map (\<lambda>v. v_id v + 1) vars" 0] assms(1) by (auto simp: next_id_def)
  moreover have "unat (v_id v + 1) = Suc (unat (v_id v))"
  proof -
    have "unat (v_id v) \<noteq> unat (- 1 :: u32)" using assms(2) by (metis word_unat_eq_iff)
    then have "unat (v_id v) + 1 < 2 ^ 32"
      using unat_u32_less [of "v_id v"] by (simp add: unat_u32_max)
    then show ?thesis by (simp add: unat_word_ariths)
  qed
  ultimately show ?thesis by (simp add: word_le_nat_alt)
qed

lemma flatten_rows_length: "flatten_rows rows st = (es, st') \<Longrightarrow> length es = length rows"
  by (induction rows arbitrary: st es) (auto split: prod.splits)

lemma to_primitive_parts:
  obtains es st where
    "flatten_rows (cp_constraints cp) \<lparr>fs_next = next_id (cp_vars cp), fs_vars = cp_vars cp,
      fs_witness = cp_witness_gen cp, fs_extra = []\<rparr> = (es, st)"
    "pp_constraints (to_primitive cp) = es @ fs_extra st"
    "pp_vars (to_primitive cp) = fs_vars st" "pp_witness_gen (to_primitive cp) = fs_witness st"
proof -
  obtain es st where "flatten_rows (cp_constraints cp) \<lparr>fs_next = next_id (cp_vars cp),
      fs_vars = cp_vars cp, fs_witness = cp_witness_gen cp, fs_extra = []\<rparr> = (es, st)"
    by fastforce
  then show ?thesis by (intro that) (simp_all add: to_primitive_def)
qed

section \<open>Properties\<close>

text \<open>Flattening an R1CS row \<open>a * b = c\<close> gives the expression whose value, at every
  assignment, is \<open>a * b - c\<close>: merging linear terms in the ordered map, dropping zero
  coefficients and skipping zero products lose nothing.\<close>

theorem expr_from_r1cs_value:
  "expr_val \<sigma> (expr_from_r1cs a b c note) = lc_val \<sigma> a * lc_val \<sigma> b - lc_val \<sigma> c"
  by simp

text \<open>C1: the solver view of a circuit accepts what its R1CS rows accept. Its constraints are one
  expression per row, in order, followed by the factor rows that define the fresh variables. At any assignment
  where the factor rows hold, satisfying or not, expression \<open>i\<close> vanishes exactly when row \<open>i\<close> holds; so what
  satisfies the flattened program satisfies every row. An assignment that satisfies the rows
  extends to the fresh variables so that the flattened program holds, and the extension is unique
  modulo the field's modulus.\<close>

theorem to_primitive_equivalent:
  assumes "cp_closed cp"
  shows "(\<forall>\<sigma>. (\<forall>e \<in> set (drop (length (cp_constraints cp)) (pp_constraints (to_primitive cp))). m dvd expr_val \<sigma> e) \<longrightarrow>
      list_all2 (\<lambda>e r. m dvd expr_val \<sigma> e \<longleftrightarrow> m dvd row_val \<sigma> r)
        (take (length (cp_constraints cp)) (pp_constraints (to_primitive cp))) (cp_constraints cp)) \<and>
    (\<forall>\<sigma>. pp_holds m \<sigma> (to_primitive cp) \<longrightarrow> cp_holds m \<sigma> cp) \<and>
    (\<forall>\<sigma>. cp_holds m \<sigma> cp \<longrightarrow>
      (\<exists>\<sigma>'. (\<forall>v \<in> set (cp_vars cp). \<sigma>' (v_id v) = \<sigma> (v_id v)) \<and> pp_holds m \<sigma>' (to_primitive cp))) \<and>
    (\<forall>\<sigma> \<tau>. pp_holds m \<sigma> (to_primitive cp) \<longrightarrow> pp_holds m \<tau> (to_primitive cp) \<longrightarrow>
      (\<forall>v \<in> set (cp_vars cp). m dvd \<sigma> (v_id v) - \<tau> (v_id v)) \<longrightarrow>
      (\<forall>v \<in> set (pp_vars (to_primitive cp)). m dvd \<sigma> (v_id v) - \<tau> (v_id v)))"
proof -
  let ?st = "\<lparr>fs_next = next_id (cp_vars cp), fs_vars = cp_vars cp,
      fs_witness = cp_witness_gen cp, fs_extra = []\<rparr>"
  obtain es st where fl: "flatten_rows (cp_constraints cp) ?st = (es, st)"
    and cs: "pp_constraints (to_primitive cp) = es @ fs_extra st"
    and vs: "pp_vars (to_primitive cp) = fs_vars st"
    by (rule to_primitive_parts)
  have rows: "\<forall>r \<in> set (cp_constraints cp). row_vars r \<subseteq> v_id ` set (cp_vars cp)"
    and ids: "\<forall>v \<in> set (cp_vars cp). unat (v_id v) < unat (next_id (cp_vars cp))"
    and room: "unat (next_id (cp_vars cp)) + length (cp_constraints cp) < 2 ^ 32"
    using assms next_id_fresh by (auto simp: cp_closed_def list_all_iff)
  have iff: "list_all2 (\<lambda>e r. m dvd expr_val \<sigma> e \<longleftrightarrow> m dvd row_val \<sigma> r) es (cp_constraints cp)"
    if "\<forall>x \<in> set (fs_extra st). m dvd expr_val \<sigma> x" for \<sigma>
    using flatten_rows_iff [OF fl] that .
  have len: "length es = length (cp_constraints cp)" using fl by (rule flatten_rows_length)
  have rowwise: "list_all2 (\<lambda>e r. m dvd expr_val \<sigma> e \<longleftrightarrow> m dvd row_val \<sigma> r)
      (take (length (cp_constraints cp)) (pp_constraints (to_primitive cp))) (cp_constraints cp)"
    if "\<forall>e \<in> set (drop (length (cp_constraints cp)) (pp_constraints (to_primitive cp))). m dvd expr_val \<sigma> e" for \<sigma>
    using iff [of \<sigma>] that by (simp add: cs len [symmetric])
  have sound: "cp_holds m \<sigma> cp" if "pp_holds m \<sigma> (to_primitive cp)" for \<sigma>
  proof -
    have *: "list_all2 (\<lambda>e r. m dvd expr_val \<sigma> e \<longleftrightarrow> m dvd row_val \<sigma> r) es (cp_constraints cp)"
      using that by (intro iff) (simp add: pp_holds_def cs list_all_iff)
    have "\<forall>e \<in> set es. m dvd expr_val \<sigma> e" using that by (simp add: pp_holds_def cs list_all_iff)
    with list_all2_iff_all [OF *] show ?thesis by (simp add: cp_holds_def list_all_iff)
  qed
  have complete: "\<exists>\<sigma>'. (\<forall>v \<in> set (cp_vars cp). \<sigma>' (v_id v) = \<sigma> (v_id v)) \<and> pp_holds m \<sigma>' (to_primitive cp)"
    if h: "cp_holds m \<sigma> cp" for \<sigma>
  proof -
    let ?n = "next_id (cp_vars cp)"
    have fresh: "\<forall>r \<in> set (cp_constraints cp). \<forall>v \<in> row_vars r. unat v < unat ?n"
      using rows ids by fastforce
    obtain \<sigma>' where s: "\<forall>v. unat v < unat (next_id (cp_vars cp)) \<longrightarrow> \<sigma>' v = \<sigma> v"
      and x: "\<forall>x \<in> set (fs_extra st). expr_val \<sigma>' x = 0"
      using flatten_rows_extend [OF fl, of \<sigma>] room fresh by auto
    have "row_val \<sigma>' r = row_val \<sigma> r" if "r \<in> set (cp_constraints cp)" for r
      using fresh s that by (intro row_val_cong) auto
    then have rows': "\<forall>r \<in> set (cp_constraints cp). m dvd row_val \<sigma>' r"
      using h by (simp add: cp_holds_def list_all_iff)
    have "list_all2 (\<lambda>e r. m dvd expr_val \<sigma>' e \<longleftrightarrow> m dvd row_val \<sigma>' r) es (cp_constraints cp)"
      using x by (intro iff) simp
    from list_all2_iff_all [OF this] rows' have "\<forall>e \<in> set es. m dvd expr_val \<sigma>' e" by simp
    then have "pp_holds m \<sigma>' (to_primitive cp)" using x by (auto simp: pp_holds_def cs list_all_iff)
    then show ?thesis using s ids by blast
  qed
  have unique: "\<forall>v \<in> set (pp_vars (to_primitive cp)). m dvd \<sigma> (v_id v) - \<tau> (v_id v)"
    if h: "pp_holds m \<sigma> (to_primitive cp)" "pp_holds m \<tau> (to_primitive cp)"
      and eq: "\<forall>v \<in> set (cp_vars cp). m dvd \<sigma> (v_id v) - \<tau> (v_id v)" for \<sigma> \<tau>
    unfolding vs
  proof (rule flatten_rows_unique [OF fl])
    show "\<forall>x \<in> set (fs_extra st). m dvd expr_val \<sigma> x \<and> m dvd expr_val \<tau> x"
      using h by (simp add: pp_holds_def cs list_all_iff)
    show "\<forall>r \<in> set (cp_constraints cp). \<forall>v \<in> row_vars r. m dvd \<sigma> v - \<tau> v"
      using rows eq by blast
  qed (use eq in simp)
  show ?thesis using rowwise sound complete unique by blast
qed

text \<open>A row of 65 by 65 terms: 4225 products, so the first side becomes a variable.\<close>

definition wide_lc :: lin_comb where
  "wide_lc = \<lparr>lc_const = fc_zero, lc_terms = map (\<lambda>i. \<lparr>t_coeff = fc_one, t_var = of_nat i\<rparr>) [0..<65]\<rparr>"

definition wide_circuit :: circuit_program where
  "wide_circuit = \<lparr>cp_field = pf_bn254,
    cp_vars = map (\<lambda>i. \<lparr>v_id = of_nat i, v_name = ''x'', v_role = PrivateInput\<rparr>) [0..<66],
    cp_constraints = [\<lparr>r_a = wide_lc, r_b = wide_lc, r_c = lc_var 65, r_note = None\<rparr>],
    cp_witness_gen = []\<rparr>"

lemma wide_next_id: "next_id (cp_vars wide_circuit) = 66"
  by (simp add: wide_circuit_def next_id_def upt_rec)

lemma wide_closed: "cp_closed wide_circuit"
proof -
  have ids: "v_id ` set (cp_vars wide_circuit) = of_nat ` {0..<66}"
    by (simp add: wide_circuit_def image_image)
  have "lc_vars wide_lc \<subseteq> of_nat ` {0..<66}" by (auto simp: lc_vars_def wide_lc_def)
  moreover have "(65 :: u32) \<in> of_nat ` {0..<66}" by (rule image_eqI [of _ _ 65]) simp_all
  ultimately have "row_vars r \<subseteq> v_id ` set (cp_vars wide_circuit)"
    if "r \<in> set (cp_constraints wide_circuit)" for r
    using that unfolding ids by (auto simp: wide_circuit_def row_vars_def) (simp add: lc_vars_def lc_var_def)
  moreover have "v_id v \<noteq> - 1" if "v \<in> set (cp_vars wide_circuit)" for v
  proof -
    have "v_id v \<in> of_nat ` {0..<66}" using that unfolding ids [symmetric] by simp
    then obtain i where "v_id v = of_nat i" "i < 66" by auto
    then have "unat (v_id v) = i" by (simp add: unat_of_nat)
    with \<open>i < 66\<close> show ?thesis by (auto simp: unat_u32_max)
  qed
  ultimately show ?thesis
    unfolding cp_closed_def wide_next_id by (simp add: list_all_iff wide_circuit_def)
qed

theorem to_primitive_equivalent_witness:
  "factored (hd (cp_constraints wide_circuit)) \<and>
   (\<exists>\<sigma>'. (\<forall>v \<in> set (cp_vars wide_circuit). \<sigma>' (v_id v) = 0) \<and> pp_holds 97 \<sigma>' (to_primitive wide_circuit))"
proof
  show "factored (hd (cp_constraints wide_circuit))"
    by (simp add: factored_def wide_circuit_def wide_lc_def MAX_PRODUCTS_def)
  have "terms_val (\<lambda>_. 0) ts = 0" for ts by (induct ts) simp_all
  then have "cp_holds 97 (\<lambda>_. 0) wide_circuit"
    by (simp add: cp_holds_def wide_circuit_def row_val_def lc_val_def wide_lc_def lc_var_def)
  then show "\<exists>\<sigma>'. (\<forall>v \<in> set (cp_vars wide_circuit). \<sigma>' (v_id v) = 0) \<and>
      pp_holds 97 \<sigma>' (to_primitive wide_circuit)"
    using to_primitive_equivalent [OF wide_closed, of 97] by blast
qed

text \<open>The backend's view loses nothing of the constraint system: two circuits with the same
  R1CS program have the same field, variable table and rows, notes included (the row's identifier
  is its position), and the consuming conversion gives the same program.\<close>

theorem to_r1cs_lossless:
  "into_r1cs cp = to_r1cs cp \<and>
   (to_r1cs cp = to_r1cs dp \<longleftrightarrow>
     cp_field cp = cp_field dp \<and> cp_vars cp = cp_vars dp \<and> cp_constraints cp = cp_constraints dp)"
proof (intro conjI iffI)
  show "into_r1cs cp = to_r1cs cp" by (simp add: into_r1cs_def to_r1cs_def)
next
  assume eq: "to_r1cs cp = to_r1cs dp"
  then show "cp_field cp = cp_field dp" by (simp add: to_r1cs_def)
  have vis: "role_visibility x = role_visibility y \<longleftrightarrow> x = y" for x y by (cases x; cases y) auto
  have "inj (\<lambda>v :: var. \<lparr>rv_id = v_id v, rv_name = v_name v, rv_visibility = role_visibility (v_role v)\<rparr>)"
    by (rule injI) (simp add: vis)
  moreover have "map (\<lambda>v :: var. \<lparr>rv_id = v_id v, rv_name = v_name v, rv_visibility = role_visibility (v_role v)\<rparr>) (cp_vars cp)
     = map (\<lambda>v. \<lparr>rv_id = v_id v, rv_name = v_name v, rv_visibility = role_visibility (v_role v)\<rparr>) (cp_vars dp)"
    using eq unfolding to_r1cs_def by simp
  ultimately show "cp_vars cp = cp_vars dp" by (simp add: inj_map_eq_map)
  let ?f = "\<lambda>(i :: nat, r). \<lparr>rc_id = of_nat i, rc_a = r_a r, rc_b = r_b r, rc_c = r_c r,
       rc_debug = map_option (\<lambda>n. \<lparr>d_source_span = None, d_note = Some n\<rparr>) (r_note r)\<rparr>"
  have rows: "map ?f (enumerate 0 (cp_constraints cp)) = map ?f (enumerate 0 (cp_constraints dp))"
    using eq unfolding to_r1cs_def by simp
  show "cp_constraints cp = cp_constraints dp"
  proof (rule nth_equalityI)
    show "length (cp_constraints cp) = length (cp_constraints dp)"
      using arg_cong [OF rows, of length] by simp
    fix i assume i: "i < length (cp_constraints cp)"
    have "?f (i, cp_constraints cp ! i) = ?f (i, cp_constraints dp ! i)"
      using arg_cong [OF rows, of "\<lambda>xs. xs ! i"] i \<open>length _ = length _\<close>
      by (simp add: nth_enumerate_eq)
    moreover have "map_option (\<lambda>n. \<lparr>d_source_span = None, d_note = Some n\<rparr>) x =
        map_option (\<lambda>n. \<lparr>d_source_span = None, d_note = Some n\<rparr>) y \<Longrightarrow> x = y" for x y :: "string option"
      by (cases x; cases y) auto
    ultimately show "cp_constraints cp ! i = cp_constraints dp ! i" by simp
  qed
qed (simp_all add: to_r1cs_def)

end
