(* ===== verification/Fp.thy ===== *)
theory Fp
  imports Field_Const Field_Spec
begin

text \<open>
  The solver's field elements, \<^verbatim>\<open>Fp\<close> of \<^verbatim>\<open>crates/ir/src/solver.rs\<close>: a BN254 scalar on
  the fast path, a big integer with its modulus for any other field. Every operation is
  a refinement of arithmetic on residues: \<open>fp_val\<close> (the code's \<^verbatim>\<open>to_biguint\<close>) of a
  result is the integer operation modulo the field's modulus, well-formed elements stay
  well formed, and structural equality is equality of residues.

  The locale \<open>residue_ops\<close> is the interface the rest of the solver uses; the clients'
  lemmas (sums, univariate quadratics, Vieta's second root) are proved in it once.
\<close>

section \<open>The interface: arithmetic of residues\<close>

locale residue_ops =
  fixes m :: nat
    and ok :: "'e \<Rightarrow> bool"
    and val :: "'e \<Rightarrow> int"
    and zero :: 'e
    and add sub mul :: "'e \<Rightarrow> 'e \<Rightarrow> 'e"
    and neg :: "'e \<Rightarrow> 'e"
    and inv :: "'e \<Rightarrow> 'e option"
    and isz :: "'e \<Rightarrow> bool"
  assumes modulus_gt_1: "1 < m"
    and val_range: "ok x \<Longrightarrow> 0 \<le> val x \<and> val x < int m"
    and val_inj: "ok x \<Longrightarrow> ok y \<Longrightarrow> val x = val y \<Longrightarrow> x = y"
    and ok_zero: "ok zero" and val_zero: "val zero = 0"
    and ok_add: "ok x \<Longrightarrow> ok y \<Longrightarrow> ok (add x y)"
    and val_add: "ok x \<Longrightarrow> ok y \<Longrightarrow> val (add x y) = (val x + val y) mod int m"
    and ok_mul: "ok x \<Longrightarrow> ok y \<Longrightarrow> ok (mul x y)"
    and val_mul: "ok x \<Longrightarrow> ok y \<Longrightarrow> val (mul x y) = (val x * val y) mod int m"
    and ok_neg: "ok x \<Longrightarrow> ok (neg x)"
    and val_neg: "ok x \<Longrightarrow> val (neg x) = (- val x) mod int m"
    and ok_sub: "ok x \<Longrightarrow> ok y \<Longrightarrow> ok (sub x y)"
    and val_sub: "ok x \<Longrightarrow> ok y \<Longrightarrow> val (sub x y) = (val x - val y) mod int m"
    and isz_val: "ok x \<Longrightarrow> isz x \<longleftrightarrow> val x = 0"
    and inv_zero: "ok x \<Longrightarrow> val x = 0 \<Longrightarrow> inv x = None"
    and inv_unit: "nat_prime m \<Longrightarrow> ok x \<Longrightarrow> val x \<noteq> 0 \<Longrightarrow>
      \<exists>y. inv x = Some y \<and> ok y \<and> (val x * val y) mod int m = 1"
begin

lemmas ok_ops = ok_zero ok_add ok_mul ok_neg ok_sub

lemma val_mod [simp]: "ok x \<Longrightarrow> val x mod int m = val x"
  using val_range [of x] by simp

lemma val_eq_iff: "ok x \<Longrightarrow> ok y \<Longrightarrow> x = y \<longleftrightarrow> val x = val y"
  using val_inj by blast

lemma val_eqI: "ok x \<Longrightarrow> ok y \<Longrightarrow> val x = z mod int m \<Longrightarrow> val y = z mod int m \<Longrightarrow> x = y"
  by (simp add: val_eq_iff)

text \<open>Values with their reductions pushed outside.\<close>

lemmas val_ops = val_zero val_add val_mul val_neg val_sub

lemmas val_mods = mod_simps mod_add_left_eq mod_add_right_eq mod_mult_left_eq mod_mult_right_eq
  mod_diff_left_eq mod_diff_right_eq mod_minus_eq

lemma isz_iff_dvd:
  assumes "ok x" "val x = z mod int m"
  shows "isz x \<longleftrightarrow> int m dvd z"
  using assms by (simp add: isz_val mod_eq_zero_dvd)

text \<open>A loop \<open>acc = acc.add(f(x))\<close> over a list.\<close>

lemma foldl_add:
  assumes "ok a" "\<And>x. x \<in> set xs \<Longrightarrow> ok (f x)"
  shows "ok (foldl (\<lambda>acc x. add acc (f x)) a xs) \<and>
    val (foldl (\<lambda>acc x. add acc (f x)) a xs) = (val a + (\<Sum>x \<leftarrow> xs. val (f x))) mod int m"
  using assms
proof (induction xs arbitrary: a)
  case (Cons x xs)
  then have "ok (add a (f x))" by (simp add: ok_add)
  from Cons.IH [OF this] Cons.prems show ?case
    by (simp add: val_add mod_add_left_eq add.assoc)
qed simp

lemma foldl_add_mod:
  assumes "ok a" "val a = A mod int m"
    and "\<And>x. x \<in> set xs \<Longrightarrow> ok (f x) \<and> val (f x) = g x mod int m"
  shows "ok (foldl (\<lambda>acc x. add acc (f x)) a xs)"
    "val (foldl (\<lambda>acc x. add acc (f x)) a xs) = (A + (\<Sum>x \<leftarrow> xs. g x)) mod int m"
proof -
  have f: "ok (foldl (\<lambda>acc x. add acc (f x)) a xs) \<and>
    val (foldl (\<lambda>acc x. add acc (f x)) a xs) = (val a + (\<Sum>x \<leftarrow> xs. val (f x))) mod int m"
    using assms by (intro foldl_add) auto
  then show "ok (foldl (\<lambda>acc x. add acc (f x)) a xs)" by simp
  have "(\<Sum>x \<leftarrow> xs. val (f x)) mod int m = (\<Sum>x \<leftarrow> xs. g x) mod int m"
    using assms(3) by (intro sum_list_mod_cong) simp
  then show "val (foldl (\<lambda>acc x. add acc (f x)) a xs) = (A + (\<Sum>x \<leftarrow> xs. g x)) mod int m"
    using f assms(2) by (metis mod_add_cong mod_mod_trivial)
qed

text \<open>The value of \<open>a v\<^sup>2 + b v + c\<close> as the code computes it.\<close>

definition horner :: "'e \<Rightarrow> 'e \<Rightarrow> 'e \<Rightarrow> 'e \<Rightarrow> 'e" where
  "horner a b c x = add (add (mul (mul a x) x) (mul b x)) c"

lemma horner_val:
  assumes "ok a" "ok b" "ok c" "ok x"
  shows "ok (horner a b c x)"
    "val (horner a b c x) = (val a * val x * val x + val b * val x + val c) mod int m"
  using assms by (simp_all add: horner_def ok_ops val_ops mod_simps)

text \<open>
  Over a prime modulus, with \<open>\<alpha>\<close> a root: a linear polynomial has no other, and the only
  other root of a quadratic is \<open>- b / a - \<alpha>\<close>, which the code computes.
\<close>

lemma linear_root_unique:
  assumes "nat_prime m" "ok b" "ok x" "ok y" "val b \<noteq> 0"
    "(val b * val x + c) mod int m = 0" "(val b * val y + c) mod int m = 0"
  shows "x = y"
proof -
  have "int m dvd val b * val x + c" "int m dvd val b * val y + c"
    using assms(6,7) by (simp_all only: mod_eq_zero_dvd)
  then have "int m dvd (val b * val x + c) - (val b * val y + c)" by (rule dvd_diff)
  then have "int m dvd val b * (val x - val y)" by (simp add: algebra_simps)
  moreover have "\<not> int m dvd val b"
    using assms(2,5) val_range [of b] zdvd_not_zless [of "val b" "int m"] by fastforce
  ultimately have "int m dvd val x - val y" by (simp add: int_prime_dvd_mult [OF assms(1)])
  then have "val x mod int m = val y mod int m" by (simp add: mod_eq_dvd_iff)
  then show ?thesis using assms(3,4) by (simp add: val_eq_iff)
qed

definition second_root :: "'e \<Rightarrow> 'e \<Rightarrow> 'e \<Rightarrow> 'e" where
  "second_root a_inv b alpha = sub (mul (neg b) a_inv) alpha"

lemma second_root_unique:
  assumes p: "nat_prime m" and a: "ok a" "ok ai" "(val a * val ai) mod int m = 1"
    and b: "ok b" and x: "ok x" and y: "ok y" "y \<noteq> x"
    and rx: "(val a * val x * val x + val b * val x + c) mod int m = 0"
    and ry: "(val a * val y * val y + val b * val y + c) mod int m = 0"
  shows "y = second_root ai b x"
proof -
  have "int m dvd val a * val x * val x + val b * val x + c"
    "int m dvd val a * val y * val y + val b * val y + c"
    using rx ry by (simp_all only: mod_eq_zero_dvd)
  then have "int m dvd (val a * val x * val x + val b * val x + c) - (val a * val y * val y + val b * val y + c)"
    by (rule dvd_diff)
  then have "int m dvd (val x - val y) * (val a * (val x + val y) + val b)"
    by (simp add: algebra_simps)
  moreover have "\<not> int m dvd val x - val y"
    using x y val_eq_iff by (auto simp: mod_eq_dvd_iff [symmetric])
  ultimately have d: "int m dvd val a * (val x + val y) + val b"
    by (simp add: int_prime_dvd_mult [OF p])
  have ok: "ok (second_root ai b x)" using a b x by (simp add: second_root_def ok_ops)
  have v: "val (second_root ai b x) = (- val b * val ai - val x) mod int m"
    using a b x by (simp add: second_root_def val_ops ok_ops mod_simps)
  have "int m dvd val ai * (val a * (val x + val y) + val b)" using d by simp
  moreover have "int m dvd (val a * val ai - 1) * (val x + val y)"
  proof -
    have "int m dvd val a * val ai - 1"
      using a(3) modulus_gt_1 by (simp flip: mod_eq_dvd_iff)
    then show ?thesis by simp
  qed
  ultimately have "int m dvd val ai * (val a * (val x + val y) + val b) - (val a * val ai - 1) * (val x + val y)"
    by (rule dvd_diff)
  then have "int m dvd val y - (- val b * val ai - val x)" by (simp add: algebra_simps)
  then have "val y mod int m = (- val b * val ai - val x) mod int m" by (simp add: mod_eq_dvd_iff)
  then show ?thesis using ok v y(1) by (simp add: val_eq_iff)
qed

end

section \<open>Field elements\<close>

datatype 'f fp = Bn254 'f | Generic (fp_value_of: nat) (fp_modulus_of: nat)

definition is_bn254 :: "nat \<Rightarrow> bool" where
  "is_bn254 modulus \<longleftrightarrow> modulus = bn254_modulus"

definition fp_new :: "('f, 'z) libs_scheme \<Rightarrow> nat \<Rightarrow> nat \<Rightarrow> 'f fp" where
  "fp_new L value modulus =
    (if is_bn254 modulus then Bn254 (fr_of_nat L value) else Generic (value mod modulus) modulus)"

definition fp_zero :: "('f, 'z) libs_scheme \<Rightarrow> nat \<Rightarrow> 'f fp" where
  "fp_zero L modulus = (if is_bn254 modulus then Bn254 (fr_of_nat L 0) else Generic 0 modulus)"

text \<open>The mismatched cases are \<^verbatim>\<open>unreachable!\<close> in the code: one program has one modulus.\<close>

fun fp_add :: "('f, 'z) libs_scheme \<Rightarrow> 'f fp \<Rightarrow> 'f fp \<Rightarrow> 'f fp" where
  "fp_add L (Bn254 a) (Bn254 b) = Bn254 (fr_add L a b)"
| "fp_add L (Generic a modulus) (Generic b _) = Generic ((a + b) mod modulus) modulus"
| "fp_add L _ _ = undefined"

fun fp_mul :: "('f, 'z) libs_scheme \<Rightarrow> 'f fp \<Rightarrow> 'f fp \<Rightarrow> 'f fp" where
  "fp_mul L (Bn254 a) (Bn254 b) = Bn254 (fr_mul L a b)"
| "fp_mul L (Generic a modulus) (Generic b _) = Generic ((a * b) mod modulus) modulus"
| "fp_mul L _ _ = undefined"

fun fp_neg :: "('f, 'z) libs_scheme \<Rightarrow> 'f fp \<Rightarrow> 'f fp" where
  "fp_neg L (Bn254 a) = Bn254 (fr_neg L a)"
| "fp_neg L (Generic value modulus) = Generic (if value = 0 then 0 else modulus - value) modulus"

fun fp_sub :: "('f, 'z) libs_scheme \<Rightarrow> 'f fp \<Rightarrow> 'f fp \<Rightarrow> 'f fp" where
  "fp_sub L (Bn254 a) (Bn254 b) = Bn254 (fr_sub L a b)"
| "fp_sub L x y = fp_add L x (fp_neg L y)"

fun fp_inverse :: "('f, 'z) libs_scheme \<Rightarrow> 'f fp \<Rightarrow> 'f fp option" where
  "fp_inverse L (Bn254 a) = map_option Bn254 (fr_inverse L a)"
| "fp_inverse L (Generic value modulus) =
     (if value = 0 then None else Some (Generic (modpow value (modulus - 2) modulus) modulus))"

fun fp_is_zero :: "('f, 'z) libs_scheme \<Rightarrow> 'f fp \<Rightarrow> bool" where
  "fp_is_zero L (Bn254 a) = (a = fr_of_nat L 0)"
| "fp_is_zero L (Generic value _) = (value = 0)"

fun fp_bits :: "('f, 'z) libs_scheme \<Rightarrow> 'f fp \<Rightarrow> nat \<Rightarrow> 'f fp" where
  "fp_bits L (Bn254 a) i = Bn254 (if bit (fr_to_nat L a) i then fr_of_nat L 1 else fr_of_nat L 0)"
| "fp_bits L (Generic value modulus) i = Generic (and (drop_bit i value) 1) modulus"

fun fp_to_biguint :: "('f, 'z) libs_scheme \<Rightarrow> 'f fp \<Rightarrow> nat" where
  "fp_to_biguint L (Bn254 a) = fr_to_nat L a"
| "fp_to_biguint L (Generic value _) = value"

definition fp_to_decimal :: "('f, 'z) libs_scheme \<Rightarrow> 'f fp \<Rightarrow> string" where
  "fp_to_decimal L x = show_nat (fp_to_biguint L x)"

definition fp_as_bn254_fr :: "'f fp \<Rightarrow> 'f option" where
  "fp_as_bn254_fr x = (case x of Bn254 a \<Rightarrow> Some a | Generic _ _ \<Rightarrow> None)"

definition fp_from_i64 :: "('f, 'z) libs_scheme \<Rightarrow> i64 \<Rightarrow> nat \<Rightarrow> 'f fp" where
  "fp_from_i64 L n modulus =
    (if is_bn254 modulus then
       let mag = fr_of_nat L (nat \<bar>sint n\<bar>) in Bn254 (if sint n < 0 then fr_neg L mag else mag)
     else
       let mag = fp_new L (nat \<bar>sint n\<bar>) modulus in if sint n < 0 then fp_neg L mag else mag)"

definition fp_from_bigint :: "('f, 'z) libs_scheme \<Rightarrow> int \<Rightarrow> nat \<Rightarrow> 'f fp" where
  "fp_from_bigint L v modulus =
    (let f = fp_new L (nat \<bar>v\<bar>) modulus in if v < 0 then fp_neg L f else f)"

definition fp_from_const :: "('f, 'z) libs_scheme \<Rightarrow> field_const \<Rightarrow> nat \<Rightarrow> 'f fp" where
  "fp_from_const L c modulus = (case fc_as_i64 c of
      Some n \<Rightarrow> fp_from_i64 L n modulus
    | None \<Rightarrow> if is_bn254 modulus then Bn254 (fc_to_bn254_fr L c)
              else fp_from_bigint L (fc_big c) modulus)"

definition fp_from_decimal :: "('f, 'z) libs_scheme \<Rightarrow> string \<Rightarrow> nat \<Rightarrow> 'f fp" where
  "fp_from_decimal L s modulus =
    (let trimmed = trim s in
     case parse_i64 trimmed of
       Some n \<Rightarrow> fp_from_i64 L n modulus
     | None \<Rightarrow>
        let (neg, mag) = (case strip_char (CHR ''-'') trimmed of Some r \<Rightarrow> (True, r) | None \<Rightarrow> (False, trimmed));
            k = (case biguint_parse L mag of Some k \<Rightarrow> k | None \<Rightarrow> 0);
            v = fp_new L k modulus
        in if neg then fp_neg L v else v)"

section \<open>Refinement of residue arithmetic\<close>

definition fp_val :: "('f, 'z) libs_scheme \<Rightarrow> 'f fp \<Rightarrow> int" where
  "fp_val L x = int (fp_to_biguint L x)"

fun fp_wf :: "nat \<Rightarrow> 'f fp \<Rightarrow> bool" where
  "fp_wf modulus (Bn254 a) = is_bn254 modulus"
| "fp_wf modulus (Generic v k) = (k = modulus \<and> \<not> is_bn254 modulus \<and> v < modulus)"

locale field_ctx = num_libs L
  for L :: "('f, 'z) libs_scheme" +
  fixes m :: nat
  assumes m_gt_1: "1 < m"
begin

lemma fp_val_Bn254 [simp]: "fp_val L (Bn254 a) = int (fr_to_nat L a)"
  by (simp add: fp_val_def)

lemma fp_val_Generic [simp]: "fp_val L (Generic v k) = int v"
  by (simp add: fp_val_def)

lemma fp_wf_cases:
  assumes "fp_wf m x"
  obtains (bn) a where "x = Bn254 a" "m = bn254_modulus"
  | (gen) v where "x = Generic v m" "m \<noteq> bn254_modulus" "v < m"
  using assms by (cases x) (auto simp: is_bn254_def)

lemma fp_wf_cases2:
  assumes "fp_wf m x" "fp_wf m y"
  obtains (bn) a b where "x = Bn254 a" "y = Bn254 b" "m = bn254_modulus"
  | (gen) v w where "x = Generic v m" "y = Generic w m" "m \<noteq> bn254_modulus" "v < m" "w < m"
  using assms by (cases x; cases y) (auto simp: is_bn254_def)

lemma fp_new_val: "fp_wf m (fp_new L v m)" "fp_val L (fp_new L v m) = int v mod int m"
  using m_gt_1 by (auto simp: fp_new_def is_bn254_def fr_to_of_nat of_nat_mod)

lemma fp_zero_val: "fp_wf m (fp_zero L m)" "fp_val L (fp_zero L m) = 0"
  using m_gt_1 by (auto simp: fp_zero_def is_bn254_def fr_to_of_nat)

lemma fp_add_val:
  assumes "fp_wf m x" "fp_wf m y"
  shows "fp_wf m (fp_add L x y)" "fp_val L (fp_add L x y) = (fp_val L x + fp_val L y) mod int m"
  using assms m_gt_1 by (cases rule: fp_wf_cases2; simp add: is_bn254_def fr_add of_nat_mod)+

lemma fp_mul_val:
  assumes "fp_wf m x" "fp_wf m y"
  shows "fp_wf m (fp_mul L x y)" "fp_val L (fp_mul L x y) = (fp_val L x * fp_val L y) mod int m"
  using assms m_gt_1 by (cases rule: fp_wf_cases2; simp add: is_bn254_def fr_mul of_nat_mod)+

lemma fp_neg_val:
  "fp_wf m x \<Longrightarrow> fp_wf m (fp_neg L x)"
  "fp_wf m x \<Longrightarrow> fp_val L (fp_neg L x) = (- fp_val L x) mod int m"
proof -
  assume x: "fp_wf m x"
  then show "fp_wf m (fp_neg L x)"
    using m_gt_1 by (auto elim!: fp_wf_cases simp: is_bn254_def)
  from x show "fp_val L (fp_neg L x) = (- fp_val L x) mod int m"
  proof (cases rule: fp_wf_cases)
    case (gen v)
    then show ?thesis using mod_sub_self [of "int v" "int m"] by (auto simp: of_nat_diff)
  qed (simp add: fr_neg)
qed

lemma fp_sub_val:
  "fp_wf m x \<Longrightarrow> fp_wf m y \<Longrightarrow> fp_wf m (fp_sub L x y)"
  "fp_wf m x \<Longrightarrow> fp_wf m y \<Longrightarrow> fp_val L (fp_sub L x y) = (fp_val L x - fp_val L y) mod int m"
proof -
  assume xy: "fp_wf m x" "fp_wf m y"
  have eq: "fp_sub L x y = fp_add L x (fp_neg L y)"
    using xy by (cases rule: fp_wf_cases2) (simp_all add: fr_sub)
  show "fp_wf m (fp_sub L x y)" unfolding eq using xy by (simp add: fp_add_val fp_neg_val)
  show "fp_val L (fp_sub L x y) = (fp_val L x - fp_val L y) mod int m"
    unfolding eq using xy by (simp add: fp_add_val fp_neg_val mod_add_right_eq)
qed

lemma fp_is_zero_val: "fp_wf m x \<Longrightarrow> fp_is_zero L x \<longleftrightarrow> fp_val L x = 0"
  by (cases x) (simp_all add: fr_eq_iff fr_to_of_nat)

lemma fp_val_range: "fp_wf m x \<Longrightarrow> 0 \<le> fp_val L x \<and> fp_val L x < int m"
  using fr_to_nat_less by (cases x) (auto simp: is_bn254_def)

lemma fp_val_inj: "fp_wf m x \<Longrightarrow> fp_wf m y \<Longrightarrow> fp_val L x = fp_val L y \<Longrightarrow> x = y"
  by (cases x; cases y) (auto simp: fr_eq_iff)

lemma fp_inverse_zero: "fp_wf m x \<Longrightarrow> fp_val L x = 0 \<Longrightarrow> fp_inverse L x = None"
  by (cases x) (auto simp: fr_inverse_None bn254_modulus_def)

lemma fermat_inverse:
  assumes "nat_prime m" "v < m" "v \<noteq> 0"
  shows "(v * (v ^ (m - 2) mod m)) mod m = 1"
proof -
  have "\<not> m dvd v" using assms(2,3) by (auto dest: dvd_imp_le)
  moreover have "v * v ^ (m - 2) = v ^ (m - 1)"
    using m_gt_1 by (cases m; cases "m - 1") (auto simp: numeral_2_eq_2)
  ultimately show ?thesis using fermat_little [OF assms(1)] by (simp add: mod_mult_right_eq)
qed

lemma fp_inverse_unit:
  assumes p: "nat_prime m" and x: "fp_wf m x" "fp_val L x \<noteq> 0"
  shows "\<exists>y. fp_inverse L x = Some y \<and> fp_wf m y \<and> (fp_val L x * fp_val L y) mod int m = 1"
  using x(1)
proof (cases rule: fp_wf_cases)
  case (bn a)
  have "\<not> m dvd fr_to_nat L a"
    using bn x(2) fr_to_nat_less [of a] by (auto dest: dvd_imp_le)
  then obtain b where b: "fr_inverse L a = Some b"
    using nat_prime_coprime [OF p] fr_inverse_None [of a] bn(2) by (cases "fr_inverse L a") auto
  from fr_inverse_Some [OF b] have "int (fr_to_nat L a * fr_to_nat L b) mod int m = 1"
    unfolding bn(2) by (metis of_nat_1 of_nat_mod)
  then show ?thesis using bn b by (simp add: is_bn254_def)
next
  case (gen v)
  have "(v * (v ^ (m - 2) mod m)) mod m = 1" using gen x(2) by (intro fermat_inverse [OF p]) auto
  then have "int (v * (v ^ (m - 2) mod m)) mod int m = 1" by (metis of_nat_1 of_nat_mod)
  then show ?thesis using gen x(2) m_gt_1 by (simp add: is_bn254_def modpow_def)
qed

lemma fp_from_i64_val: "fp_wf m (fp_from_i64 L n m)" "fp_val L (fp_from_i64 L n m) = sint n mod int m"
proof -
  show "fp_wf m (fp_from_i64 L n m)"
    by (simp add: fp_from_i64_def Let_def is_bn254_def fp_neg_val fp_new_val)
  show "fp_val L (fp_from_i64 L n m) = sint n mod int m"
  proof (cases "is_bn254 m")
    case True
    then show ?thesis using fr_to_nat_signed [of "sint n"]
      by (auto simp: fp_from_i64_def Let_def is_bn254_def split: if_splits)
  next
    case False
    then show ?thesis by (simp add: fp_from_i64_def Let_def fp_neg_val fp_new_val mod_minus_eq)
  qed
qed

lemma fp_from_bigint_val:
  "fp_wf m (fp_from_bigint L v m)" "fp_val L (fp_from_bigint L v m) = v mod int m"
  by (simp_all add: fp_from_bigint_def Let_def fp_neg_val fp_new_val mod_minus_eq)

lemma fp_from_const_val:
  "fp_wf m (fp_from_const L c m)" "fp_val L (fp_from_const L c m) = fc_big c mod int m"
proof -
  have "fp_wf m (fp_from_const L c m) \<and> fp_val L (fp_from_const L c m) = fc_big c mod int m"
  proof (cases c)
    case (Small n)
    then show ?thesis using fp_from_i64_val [of n] by (simp add: fp_from_const_def fc_as_i64_def)
  next
    case (Big z)
    show ?thesis
    proof (cases "is_bn254 m")
      case True
      have "fp_val L (fp_from_const L c m) = fc_big c mod int bn254_modulus"
        unfolding fp_from_const_def using True Big fc_to_bn254_fr_value [of c]
        by (simp add: fc_as_i64_def)
      then show ?thesis using True Big by (simp add: fp_from_const_def fc_as_i64_def is_bn254_def)
    qed (use Big fp_from_bigint_val [of z] in \<open>simp add: fp_from_const_def fc_as_i64_def\<close>)
  qed
  then show "fp_wf m (fp_from_const L c m)" "fp_val L (fp_from_const L c m) = fc_big c mod int m"
    by simp_all
qed

lemma fp_from_decimal_val:
  "fp_wf m (fp_from_decimal L s m)"
  "fp_val L (fp_from_decimal L (show_int z) m) = z mod int m"
proof -
  show "fp_wf m (fp_from_decimal L s m)"
    by (auto simp: fp_from_decimal_def Let_def fp_from_i64_val fp_neg_val fp_new_val
        split: option.split prod.split)
  show "fp_val L (fp_from_decimal L (show_int z) m) = z mod int m"
  proof (cases "i64_fits z")
    case True
    then show ?thesis
      by (simp add: fp_from_decimal_def Let_def parse_i64_show_int fp_from_i64_val sint_word_of_int_i64)
  next
    case False
    then have pd: "fp_from_decimal L (show_int z) m =
        (let v = fp_new L (nat \<bar>z\<bar>) m in if z < 0 then fp_neg L v else v)"
      by (simp add: fp_from_decimal_def parse_i64_show_int strip_char_show_int biguint_parse_show)
        (simp add: show_int_def biguint_parse_show)
    then show ?thesis by (simp add: Let_def fp_neg_val fp_new_val mod_minus_eq)
  qed
qed

lemma fp_bits_val:
  assumes "fp_wf m x"
  shows "fp_wf m (fp_bits L x i)" "fp_val L (fp_bits L x i) = of_bool (bit (fp_to_biguint L x) i)"
  using assms m_gt_1
  by (auto elim!: fp_wf_cases simp: is_bn254_def fr_to_of_nat and_one_eq
      bit_iff_odd_drop_bit mod_2_eq_odd bn254_modulus_def)

end

text \<open>The provider discharges the interface for every field context.\<close>

sublocale field_ctx \<subseteq> res: residue_ops m "fp_wf m" "fp_val L" "fp_zero L m" "fp_add L" "fp_sub L"
  "fp_mul L" "fp_neg L" "fp_inverse L" "fp_is_zero L"
  by unfold_locales
    (rule m_gt_1 fp_val_range fp_zero_val fp_add_val fp_mul_val fp_neg_val fp_sub_val
      fp_is_zero_val fp_inverse_zero fp_inverse_unit fp_val_inj; assumption)+

text \<open>BN254 itself, and a small generic field the witnesses compute in.\<close>

interpretation bn: field_ctx ref_libs bn254_modulus
  by unfold_locales (rule bn254_modulus_gt_1)

interpretation f97: field_ctx ref_libs 97
  by unfold_locales simp

lemma nat_prime_97: "nat_prime 97"
  by (rule nat_prime_by_trial) (simp, simp add: no_divisor_numeral)

lemma is_bn254_97 [simp]: "\<not> is_bn254 97"
  by (simp add: is_bn254_def bn254_modulus_def)

section \<open>Properties\<close>



text \<open>The inverse: over a prime modulus every nonzero element has one (the field's own
  inversion on BN254, Fermat's power otherwise) and their product is one; zero has none.\<close>

theorem fp_inverse_correct:
  assumes "field_ctx L m" "nat_prime m" "fp_wf m x"
  shows "(fp_is_zero L x \<longrightarrow> fp_inverse L x = None) \<and>
    (\<not> fp_is_zero L x \<longrightarrow>
      (\<exists>y. fp_inverse L x = Some y \<and> fp_wf m y \<and> fp_val L (fp_mul L x y) = 1))"
proof -
  have "fp_val L x = 0 \<longleftrightarrow> fp_is_zero L x"
    using field_ctx.fp_is_zero_val [OF assms(1,3)] by simp
  then show ?thesis
    using field_ctx.fp_inverse_zero [OF assms(1,3)] field_ctx.fp_inverse_unit [OF assms]
      field_ctx.fp_mul_val(2) [OF assms(1,3)] by metis
qed

theorem fp_inverse_correct_witness:
  "\<exists>y. fp_inverse ref_libs (Generic 2 97) = Some y \<and> fp_val ref_libs (fp_mul ref_libs (Generic 2 97) y) = 1"
  using fp_inverse_correct [OF f97.field_ctx_axioms nat_prime_97, of "Generic 2 97"] by auto

text \<open>Constants and decimal inputs of any size and sign enter the field as their residue,
  so the \<^verbatim>\<open>i64\<close> fast path, the big-integer path and the decimal parser agree.\<close>

theorem fp_constants_agree:
  assumes "field_ctx L m" "fc_wf c"
  shows "fp_from_const L c m = fp_from_bigint L (fc_big c) m \<and>
    fp_from_decimal L (fc_decimal c) m = fp_from_const L c m \<and>
    fp_val L (fp_from_const L c m) = fc_big c mod int m"
proof -
  note ctx = assms(1)
  have "fp_from_const L c m = fp_from_bigint L (fc_big c) m"
    by (rule field_ctx.fp_val_inj [OF ctx])
      (simp_all add: field_ctx.fp_from_const_val [OF ctx] field_ctx.fp_from_bigint_val [OF ctx])
  moreover have "fp_from_decimal L (fc_decimal c) m = fp_from_const L c m"
    unfolding fc_decimal_show
    by (rule field_ctx.fp_val_inj [OF ctx])
      (simp_all add: field_ctx.fp_from_const_val [OF ctx] field_ctx.fp_from_decimal_val [OF ctx])
  ultimately show ?thesis using field_ctx.fp_from_const_val [OF ctx] by blast
qed

theorem fp_constants_agree_witness:
  "fp_from_decimal ref_libs (fc_decimal (norm (- 5))) 97 = fp_from_const ref_libs (norm (- 5)) 97 \<and>
   fp_val ref_libs (fp_from_const ref_libs (norm (- 5)) 97) = 92 \<and>
   fp_val ref_libs (fp_from_const ref_libs (norm (- 1)) bn254_modulus) = int bn254_modulus - 1"
proof (intro conjI)
  note c = fp_constants_agree [OF f97.field_ctx_axioms, of "norm (- 5)", OF norm_value(2)]
  show "fp_from_decimal ref_libs (fc_decimal (norm (- 5))) 97 = fp_from_const ref_libs (norm (- 5)) 97"
    using c by simp
  have "fc_big (norm (- 5)) mod int 97 = 92" by simp
  then show "fp_val ref_libs (fp_from_const ref_libs (norm (- 5)) 97) = 92" using c by metis
  have "fp_val ref_libs (fp_from_const ref_libs (norm (- 1)) bn254_modulus) =
      fc_big (norm (- 1)) mod int bn254_modulus"
    using fp_constants_agree [OF bn.field_ctx_axioms norm_value(2)] by blast
  then show "fp_val ref_libs (fp_from_const ref_libs (norm (- 1)) bn254_modulus) = int bn254_modulus - 1"
    by (simp add: bn254_modulus_def)
qed

end
