(* ===== verification/Witness_Exec.thy ===== *)
theory Witness_Exec
  imports Prim_IR Fp Lattice_Hint
begin

text \<open>
  Executing the hint program, first half of \<^verbatim>\<open>solver.rs\<close>: the errors, the assignments (dense
  slots and ordered maps behind one interface), the evaluation of linear combinations and
  expressions, and \<^verbatim>\<open>exec_witness_op\<close> with all its thirteen operations.

  Shown: evaluation refines the integer value of the combination modulo the field's
  modulus, in any assignment; both assignment stores keep the interface; and each hint
  operation outputs what its constraints expect.
\<close>

section \<open>Errors\<close>

datatype solve_error =
    MissingInput var_id
  | DivisionByZero
  | NonInvertible
  | MalformedHint string
  | ConstraintFailed nat
  | MalformedModulus

text \<open>\<^verbatim>\<open>Display\<close>.\<close>

fun show_solve_error :: "solve_error \<Rightarrow> string" where
  "show_solve_error (MissingInput v) = ''missing input for variable '' @ show_nat (unat v)"
| "show_solve_error DivisionByZero = ''division by zero''"
| "show_solve_error NonInvertible = ''value is not invertible''"
| "show_solve_error (MalformedHint msg) = ''malformed hint: '' @ msg"
| "show_solve_error (ConstraintFailed i) = ''constraint '' @ show_nat i @ '' is not satisfied''"
| "show_solve_error MalformedModulus = ''field modulus is missing, unparseable, or < 2''"

definition MAX_LIMB_BITS :: u32 where
  "MAX_LIMB_BITS = 128"

definition modulus_of_field :: "('f, 'z) libs_scheme \<Rightarrow> prim_field_spec \<Rightarrow> solve_error + nat" where
  "modulus_of_field L field = (case biguint_parse L (pf_modulus_decimal field) of
      None \<Rightarrow> Inl MalformedModulus
    | Some m \<Rightarrow> if m < 2 then Inl MalformedModulus else Inr m)"

definition modulus_of :: "('f, 'z) libs_scheme \<Rightarrow> primitive_program \<Rightarrow> solve_error + nat" where
  "modulus_of L pp = modulus_of_field L (pp_field pp)"

section \<open>Assignments\<close>

text \<open>The trait \<^verbatim>\<open>Assignment\<close> reads a variable; the solver's store also writes one.\<close>

locale assignment =
  fixes invar :: "'s \<Rightarrow> bool"
    and get :: "'s \<Rightarrow> 'k \<Rightarrow> 'e option"
    and put :: "'k \<Rightarrow> 'e \<Rightarrow> 's \<Rightarrow> 's"
  assumes get_put: "invar s \<Longrightarrow> get (put v x s) = (get s)(v \<mapsto> x)"
    and invar_put: "invar s \<Longrightarrow> invar (put v x s)"
begin

lemma put_all:
  "invar s \<Longrightarrow> invar (foldl (\<lambda>s (v, x). put v x s) s outs) \<and>
   get (foldl (\<lambda>s (v, x). put v x s) s outs) = get s ++ map_of (rev outs)"
proof (induction outs arbitrary: s)
  case (Cons o' outs)
  obtain v x where o': "o' = (v, x)" by fastforce
  from Cons.IH [OF invar_put [OF Cons.prems, of v x]] show ?case
    by (simp add: o' get_put Cons.prems map_add_def fun_eq_iff split: option.splits)
qed simp

end

type_synonym 'f slots = "'f fp option list"

definition slots_get :: "'f slots \<Rightarrow> var_id \<Rightarrow> 'f fp option" where
  "slots_get slots v = (if unat v < length slots then slots ! unat v else None)"

definition dense_with_len :: "nat \<Rightarrow> 'f slots" where
  "dense_with_len n = replicate n None"

definition dense_set :: "var_id \<Rightarrow> 'f fp \<Rightarrow> 'f slots \<Rightarrow> 'f slots" where
  "dense_set v val slots =
    (let i = unat v;
         slots = (if i \<ge> length slots then slots @ replicate (i + 1 - length slots) None else slots)
     in slots[i := Some val])"

text \<open>\<^verbatim>\<open>collect\<close> into a \<^verbatim>\<open>BTreeMap\<close>: one insertion per item, in order.\<close>

definition bt_collect :: "('k :: linorder \<times> 'v) list \<Rightarrow> ('k, 'v) btree" where
  "bt_collect kvs = foldl (\<lambda>t (k, v). bt_insert k v t) [] kvs"

definition into_btreemap :: "'f slots \<Rightarrow> (var_id, 'f fp) btree" where
  "into_btreemap slots =
    bt_collect (List.map_filter (\<lambda>(i, o'). map_option (\<lambda>v. (of_nat i, v)) o') (enumerate 0 slots))"

definition slots_into_map :: "'f slots \<Rightarrow> (var_id, 'f fp) btree" where
  "slots_into_map slots = into_btreemap slots"

text \<open>Slots are written at 32-bit indices only.\<close>

definition slots_ok :: "'f slots \<Rightarrow> bool" where
  "slots_ok slots \<longleftrightarrow> length slots \<le> 2 ^ 32"

lemma slots_get_set: "slots_get (dense_set v x slots) = (slots_get slots)(v \<mapsto> x)"
proof
  fix w :: var_id
  have "unat w = unat v \<longleftrightarrow> w = v" by (simp add: word_unat_eq_iff)
  then show "slots_get (dense_set v x slots) w = ((slots_get slots)(v \<mapsto> x)) w"
    by (auto simp: slots_get_def dense_set_def Let_def nth_list_update nth_append)
qed

lemma slots_ok_set: "slots_ok slots \<Longrightarrow> slots_ok (dense_set v x slots)"
  using unat_u32_less [of v] by (simp add: slots_ok_def dense_set_def Let_def)

interpretation dense: assignment slots_ok slots_get dense_set
  by unfold_locales (simp_all add: slots_get_set slots_ok_set)

interpretation sparse: assignment bt_invar bt_get bt_insert
  by unfold_locales simp_all

lemma bt_collect_get:
  "bt_invar (bt_collect kvs)" "bt_get (bt_collect kvs) = map_of (rev kvs)"
  using sparse.put_all [of "[]" kvs] by (simp_all add: bt_collect_def fun_eq_iff map_add_def split: option.split)

section \<open>Evaluation\<close>

definition fp_or_zero :: "('f, 'z) libs_scheme \<Rightarrow> nat \<Rightarrow> 'f fp option \<Rightarrow> 'f fp" where
  "fp_or_zero L m x = (case x of Some v \<Rightarrow> v | None \<Rightarrow> fp_zero L m)"

definition eval_lc :: "('f, 'z) libs_scheme \<Rightarrow> lin_comb \<Rightarrow> (var_id \<Rightarrow> 'f fp option) \<Rightarrow> nat \<Rightarrow> 'f fp" where
  "eval_lc L lc get m =
    foldl (\<lambda>acc term. fp_add L acc (fp_mul L (fp_from_const L (t_coeff term) m) (fp_or_zero L m (get (t_var term)))))
      (fp_from_const L (lc_const lc) m) (lc_terms lc)"

definition eval_expression :: "('f, 'z) libs_scheme \<Rightarrow> expression \<Rightarrow> (var_id \<Rightarrow> 'f fp option) \<Rightarrow> nat \<Rightarrow> 'f fp" where
  "eval_expression L expr get m =
    (let acc = fp_from_const L (e_constant expr) m;
         acc = foldl (\<lambda>acc lt. fp_add L acc
           (fp_mul L (fp_from_const L (l_coeff lt) m) (fp_or_zero L m (get (l_var lt))))) acc (e_linear_terms expr)
     in foldl (\<lambda>acc mt. fp_add L acc
           (fp_mul L (fp_mul L (fp_from_const L (m_coeff mt) m) (fp_or_zero L m (get (m_left mt))))
             (fp_or_zero L m (get (m_right mt))))) acc (e_mul_terms expr))"

definition asg_wf :: "nat \<Rightarrow> (var_id \<Rightarrow> 'f fp option) \<Rightarrow> bool" where
  "asg_wf m get \<longleftrightarrow> (\<forall>v x. get v = Some x \<longrightarrow> fp_wf m x)"

text \<open>The integer assignment a store stands for: unassigned variables read as zero.\<close>

definition asg_val :: "('f, 'z) libs_scheme \<Rightarrow> nat \<Rightarrow> (var_id \<Rightarrow> 'f fp option) \<Rightarrow> var_id \<Rightarrow> int" where
  "asg_val L m get v = fp_val L (fp_or_zero L m (get v))"

context field_ctx begin

lemma fp_or_zero_wf: "asg_wf m get \<Longrightarrow> fp_wf m (fp_or_zero L m (get v))"
  by (auto simp: asg_wf_def fp_or_zero_def fp_zero_val split: option.split)

lemma eval_lc_val:
  assumes "asg_wf m get"
  shows "fp_wf m (eval_lc L lc get m)"
    "fp_val L (eval_lc L lc get m) = lc_val (asg_val L m get) lc mod int m"
proof -
  note f = res.foldl_add_mod [where a = "fp_from_const L (lc_const lc) m" and xs = "lc_terms lc"
      and A = "fc_big (lc_const lc)" and g = "\<lambda>t. fc_big (t_coeff t) * asg_val L m get (t_var t)"
      and f = "\<lambda>t. fp_mul L (fp_from_const L (t_coeff t) m) (fp_or_zero L m (get (t_var t)))"]
  have t: "fp_wf m (fp_mul L (fp_from_const L (t_coeff t) m) (fp_or_zero L m (get (t_var t)))) \<and>
      fp_val L (fp_mul L (fp_from_const L (t_coeff t) m) (fp_or_zero L m (get (t_var t)))) =
        fc_big (t_coeff t) * asg_val L m get (t_var t) mod int m" for t
    using fp_or_zero_wf [OF assms]
    by (simp add: fp_mul_val fp_from_const_val asg_val_def mod_mult_left_eq)
  show "fp_wf m (eval_lc L lc get m)"
    unfolding eval_lc_def by (rule f(1)) (simp_all add: fp_from_const_val t)
  show "fp_val L (eval_lc L lc get m) = lc_val (asg_val L m get) lc mod int m"
    unfolding eval_lc_def lc_val_def terms_val_def by (rule f(2)) (simp_all add: fp_from_const_val t)
qed

lemma eval_expression_val:
  assumes "asg_wf m get"
  shows "fp_wf m (eval_expression L e get m)"
    "fp_val L (eval_expression L e get m) = expr_val (asg_val L m get) e mod int m"
proof -
  let ?\<sigma> = "asg_val L m get"
  let ?lin = "\<lambda>lt. fp_mul L (fp_from_const L (l_coeff lt) m) (fp_or_zero L m (get (l_var lt)))"
  let ?mul = "\<lambda>mt. fp_mul L (fp_mul L (fp_from_const L (m_coeff mt) m) (fp_or_zero L m (get (m_left mt))))
             (fp_or_zero L m (get (m_right mt)))"
  let ?acc = "foldl (\<lambda>acc lt. fp_add L acc (?lin lt)) (fp_from_const L (e_constant e) m) (e_linear_terms e)"
  note wf = fp_or_zero_wf [OF assms]
  have lin: "fp_wf m (?lin t) \<and> fp_val L (?lin t) = linear_val ?\<sigma> t mod int m" for t
    using wf by (simp add: fp_mul_val fp_from_const_val asg_val_def linear_val_def mod_mult_left_eq)
  have mul: "fp_wf m (?mul t) \<and> fp_val L (?mul t) = mul_val ?\<sigma> t mod int m" for t
    using wf by (simp add: fp_mul_val fp_from_const_val asg_val_def mul_val_def mod_simps)
  note f1 = res.foldl_add_mod [where a = "fp_from_const L (e_constant e) m" and xs = "e_linear_terms e"
      and A = "fc_big (e_constant e)" and g = "linear_val ?\<sigma>" and f = ?lin]
  have acc: "fp_wf m ?acc"
    "fp_val L ?acc = (fc_big (e_constant e) + (\<Sum>t \<leftarrow> e_linear_terms e. linear_val ?\<sigma> t)) mod int m"
    by (rule f1; simp add: fp_from_const_val lin)+
  note f2 = res.foldl_add_mod [where a = ?acc and xs = "e_mul_terms e"
      and A = "fc_big (e_constant e) + (\<Sum>t \<leftarrow> e_linear_terms e. linear_val ?\<sigma> t)"
      and g = "mul_val ?\<sigma>" and f = ?mul]
  show "fp_wf m (eval_expression L e get m)"
    unfolding eval_expression_def Let_def by (rule f2) (simp_all add: acc mul)
  have "fp_val L (eval_expression L e get m) =
      (fc_big (e_constant e) + (\<Sum>t \<leftarrow> e_linear_terms e. linear_val ?\<sigma> t)
        + (\<Sum>t \<leftarrow> e_mul_terms e. mul_val ?\<sigma> t)) mod int m"
    unfolding eval_expression_def Let_def by (rule f2) (simp_all add: acc mul)
  then show "fp_val L (eval_expression L e get m) = expr_val ?\<sigma> e mod int m"
    by (simp add: expr_val_def add.commute add.left_commute)
qed

end

section \<open>One witness operation\<close>

text \<open>\<^verbatim>\<open>recompose\<close>: the integer of little-endian limbs; \<open>split_limbs\<close> the emission of an integer's limbs.\<close>

definition recompose :: "('f, 'z) libs_scheme \<Rightarrow> ('l \<Rightarrow> 'f fp) \<Rightarrow> u32 \<Rightarrow> 'l list \<Rightarrow> nat" where
  "recompose L ev limb_bits limbs =
    foldl (\<lambda>acc (i, lc). acc + push_bit (unat limb_bits * i) (fp_to_biguint L (ev lc))) 0 (enumerate 0 limbs)"

definition split_limbs :: "('f, 'z) libs_scheme \<Rightarrow> nat \<Rightarrow> u32 \<Rightarrow> nat \<Rightarrow> 'v list \<Rightarrow> ('v \<times> 'f fp) list" where
  "split_limbs L m limb_bits x outs =
    (let mask = 2 ^ unat limb_bits - 1 in
     map (\<lambda>(i, out). (out, fp_new L (and (drop_bit (unat limb_bits * i) x) mask) m)) (enumerate 0 outs))"

text \<open>
  The values an operation emits, in order, or its error; \<open>None\<close> when the lattice reduction
  does not return. \<open>ev\<close> is the evaluation of the operation's combinations.
\<close>

fun exec_witness_op :: "('f, 'z) libs_scheme \<Rightarrow> ('l, 'v) witness_gen \<Rightarrow> ('l \<Rightarrow> 'f fp) \<Rightarrow> nat \<Rightarrow>
    (solve_error + ('v \<times> 'f fp) list) option" where
  "exec_witness_op L (Product out left right) ev m =
     Some (Inr [(out, fp_mul L (ev left) (ev right))])"
| "exec_witness_op L (Linear out lc) ev m = Some (Inr [(out, ev lc)])"
| "exec_witness_op L (Xor out a b) ev m =
     (let av = ev a; bv = ev b; ab = fp_mul L av bv
      in Some (Inr [(out, fp_sub L (fp_add L av bv) (fp_add L ab ab))]))"
| "exec_witness_op L (Or out a b) ev m =
     (let av = ev a; bv = ev b; ab = fp_mul L av bv
      in Some (Inr [(out, fp_sub L (fp_add L av bv) ab)]))"
| "exec_witness_op L (Inverse out input) ev m =
     Some (Inr [(out, case fp_inverse L (ev input) of Some x \<Rightarrow> x | None \<Rightarrow> fp_zero L m)])"
| "exec_witness_op L (InverseOrZero out input) ev m =
     Some (Inr [(out, case fp_inverse L (ev input) of Some x \<Rightarrow> x | None \<Rightarrow> fp_zero L m)])"
| "exec_witness_op L (Bit out input index) ev m =
     Some (Inr [(out, fp_bits L (ev input) (unat index))])"
| "exec_witness_op L (Bits outs input) ev m =
     Some (Inr (map (\<lambda>(i, out). (out, fp_bits L (ev input) i)) (enumerate 0 outs)))"
| "exec_witness_op L (DivRem q r num den) ev m =
     (let n = ev num; d = ev den in
      if fp_is_zero L d then Some (Inl DivisionByZero)
      else let nb = fp_to_biguint L n; db = fp_to_biguint L d
           in Some (Inr [(q, fp_new L (nb div db) m), (r, fp_new L (nb mod db) m)]))"
| "exec_witness_op L (MulModDivMod q r a b modulus limb_bits) ev m =
     (if limb_bits > MAX_LIMB_BITS then Some (Inl (MalformedHint ''limb_bits exceeds MAX_LIMB_BITS''))
      else let a_big = recompose L ev limb_bits a; b_big = recompose L ev limb_bits b;
               m_big = recompose L ev limb_bits modulus in
        if m_big = 0 then Some (Inl DivisionByZero)
        else let p = a_big * b_big
             in Some (Inr (split_limbs L m limb_bits (p div m_big) q @ split_limbs L m limb_bits (p mod m_big) r)))"
| "exec_witness_op L (ModInverse out a modulus limb_bits) ev m =
     (if limb_bits > MAX_LIMB_BITS then Some (Inl (MalformedHint ''limb_bits exceeds MAX_LIMB_BITS''))
      else let m_big = recompose L ev limb_bits modulus in
        if m_big < 2 then Some (Inl (MalformedHint ''mod_inverse: modulus < 2''))
        else let a_big = recompose L ev limb_bits a mod m_big in
          if a_big = 0 then Some (Inl DivisionByZero)
          else Some (Inr (split_limbs L m limb_bits (modpow a_big (m_big - 2) m_big) out)))"
| "exec_witness_op L (FakeGlv out u modulus lambda limb_bits) ev m =
     (if limb_bits > MAX_LIMB_BITS \<or> length out \<noteq> 4
      then Some (Inl (MalformedHint ''fake_glv: limb_bits or output count''))
      else map_option (\<lambda>v. case v of
          None \<Rightarrow> Inl (MalformedHint ''fake_glv: no short lattice vector'')
        | Some v \<Rightarrow> Inr (map (\<lambda>(out, x). (out, fp_from_bigint L x m)) (zip out v)))
        (fake_glv (recompose L ev limb_bits u) (recompose L ev limb_bits modulus)
          (recompose L ev limb_bits lambda)))"
| "exec_witness_op L (Sub2 qabs r a b c modulus limb_bits) ev m =
     (if limb_bits > MAX_LIMB_BITS then Some (Inl (MalformedHint ''limb_bits exceeds MAX_LIMB_BITS''))
      else let a_big = recompose L ev limb_bits a; b_big = recompose L ev limb_bits b;
               c_big = recompose L ev limb_bits c; m_big = recompose L ev limb_bits modulus in
        if m_big = 0 then Some (Inl DivisionByZero)
        else let lhs = a_big + m_big + m_big; rhs = b_big + c_big in
          if lhs < rhs then Some (Inl (MalformedHint ''sub2: a + 2m < b + c''))
          else let s = lhs - rhs; remainder = s mod m_big; q_s = s div m_big in
            if q_s > 2 then Some (Inl (MalformedHint ''sub2: quotient out of range (inputs >= modulus)''))
            else Some (Inr ((qabs, fp_new L (2 - q_s) m) # split_limbs L m limb_bits remainder r)))"

fun op_output_vars :: "('l, 'v) witness_gen \<Rightarrow> 'v list" where
  "op_output_vars (Product out _ _) = [out]"
| "op_output_vars (Linear out _) = [out]"
| "op_output_vars (Xor out _ _) = [out]"
| "op_output_vars (Or out _ _) = [out]"
| "op_output_vars (Inverse out _) = [out]"
| "op_output_vars (InverseOrZero out _) = [out]"
| "op_output_vars (Bit out _ _) = [out]"
| "op_output_vars (Bits outs _) = outs"
| "op_output_vars (DivRem q r _ _) = [q, r]"
| "op_output_vars (MulModDivMod q r _ _ _ _) = q @ r"
| "op_output_vars (ModInverse out _ _ _) = out"
| "op_output_vars (FakeGlv out _ _ _ _) = out"
| "op_output_vars (Sub2 qabs r _ _ _ _ _) = qabs # r"

fun op_inputs :: "('l, 'v) witness_gen \<Rightarrow> 'l list" where
  "op_inputs (Product _ left right) = [left, right]"
| "op_inputs (Linear _ lc) = [lc]"
| "op_inputs (Xor _ a b) = [a, b]"
| "op_inputs (Or _ a b) = [a, b]"
| "op_inputs (Inverse _ input) = [input]"
| "op_inputs (InverseOrZero _ input) = [input]"
| "op_inputs (Bit _ input _) = [input]"
| "op_inputs (Bits _ input) = [input]"
| "op_inputs (DivRem _ _ num den) = [num, den]"
| "op_inputs (MulModDivMod _ _ a b modulus _) = a @ b @ modulus"
| "op_inputs (ModInverse _ a modulus _) = a @ modulus"
| "op_inputs (FakeGlv _ u modulus lambda _) = u @ modulus @ lambda"
| "op_inputs (Sub2 _ _ a b c modulus _) = a @ b @ c @ modulus"

definition op_read_vars :: "witness_op \<Rightarrow> var_id list" where
  "op_read_vars op = concat (map (\<lambda>lc. map t_var (lc_terms lc)) (op_inputs op))"

text \<open>An operation emits exactly its outputs, and depends on its inputs' values only.\<close>

lemma split_limbs_vars [simp]: "map fst (split_limbs L m k x outs) = outs"
  by (simp add: split_limbs_def Let_def comp_def split_def map_fst_enumerate flip: map_map)
    (simp add: comp_def)

lemma fake_glv_length: "fake_glv u m lam = Some (Some v) \<Longrightarrow> length v = 4"
proof -
  assume a: "fake_glv u m lam = Some (Some v)"
  then obtain b where b: "m \<noteq> 0" "lll (glv_basis u m lam) = Some b"
    by (auto simp: fake_glv_def split: if_splits)
  have "\<exists>n. foldl (glv_better b (2 ^ ((bit_len m + 3) div 4))) None [0..<7 ^ 4] = Some (n, v)"
    using a unfolding fake_glv_basis [OF b] by auto
  then show ?thesis
    using glv_search [where b = b and bound = "2 ^ ((bit_len m + 3) div 4)" and idxs = "[0..<7 ^ 4]"]
    by (auto simp: glv_combine_def split: option.splits)
qed

lemma exec_outputs:
  "exec_witness_op L op ev m = Some (Inr outs) \<Longrightarrow> map fst outs = op_output_vars op"
proof (cases op)
  case (FakeGlv out u modulus lambda k)
  assume "exec_witness_op L op ev m = Some (Inr outs)"
  then obtain v where v: "length out = 4" "fake_glv (recompose L ev k u) (recompose L ev k modulus)
      (recompose L ev k lambda) = Some (Some v)"
      "outs = map (\<lambda>(out, x). (out, fp_from_bigint L x m)) (zip out v)"
    unfolding FakeGlv by (auto split: if_splits option.splits)
  then show ?thesis using fake_glv_length [OF v(2)] FakeGlv
    by (simp add: comp_def split_def)
qed (auto simp: Let_def comp_def split_def split: if_splits)

lemma recompose_cong:
  "(\<And>l. l \<in> set ls \<Longrightarrow> ev l = ev' l) \<Longrightarrow> recompose L ev k ls = recompose L ev' k ls"
  unfolding recompose_def by (intro foldl_cong) (auto simp: in_set_enumerate_eq)

lemma exec_cong:
  "(\<And>l. l \<in> set (op_inputs op) \<Longrightarrow> ev l = ev' l) \<Longrightarrow> exec_witness_op L op ev m = exec_witness_op L op ev' m"
proof -
  assume eq: "\<And>l. l \<in> set (op_inputs op) \<Longrightarrow> ev l = ev' l"
  then have rc: "set ls \<subseteq> set (op_inputs op) \<Longrightarrow> recompose L ev k ls = recompose L ev' k ls" for ls k
    by (intro recompose_cong) auto
  show ?thesis using eq rc by (cases op) (simp_all add: Let_def le_supI1 le_supI2)
qed

lemma eval_lc_cong:
  "(\<And>v. v \<in> t_var ` set (lc_terms lc) \<Longrightarrow> g v = g' v) \<Longrightarrow> eval_lc L lc g m = eval_lc L lc g' m"
  unfolding eval_lc_def by (intro foldl_cong) auto

lemma exec_read_cong:
  assumes "\<And>v. v \<in> set (op_read_vars op) \<Longrightarrow> g v = g' v"
  shows "exec_witness_op L op (\<lambda>lc. eval_lc L lc g m) m = exec_witness_op L op (\<lambda>lc. eval_lc L lc g' m) m"
  using assms by (intro exec_cong eval_lc_cong) (auto simp: op_read_vars_def)

end
