(* ===== verification/Hint_Props.thy ===== *)
theory Hint_Props
  imports Witness_Exec
begin

text \<open>
  What the hint operations of \<^verbatim>\<open>exec_witness_op\<close> compute, operation by operation: the
  relation the circuit's constraints then check. Limbs are little-endian digits in base
  \<open>2 ^ limb_bits\<close>; the statements read the emitted field elements by their canonical
  representatives.
\<close>

section \<open>Limbs\<close>

fun limbs_value :: "nat \<Rightarrow> nat list \<Rightarrow> nat" where
  "limbs_value k [] = 0"
| "limbs_value k (x # xs) = x + 2 ^ k * limbs_value k xs"

lemma limbs_value_append: "limbs_value k (xs @ ys) = limbs_value k xs + 2 ^ (k * length xs) * limbs_value k ys"
  by (induct xs) (simp_all add: algebra_simps power_add)

lemma recompose_limbs: "recompose L ev k ls = limbs_value (unat k) (map (fp_to_biguint L \<circ> ev) ls)"
proof (induct ls rule: rev_induct)
  case (snoc l ls)
  then show ?case
    by (simp add: recompose_def enumerate_append_eq limbs_value_append push_bit_eq_mult mult.commute)
qed (simp add: recompose_def)

lemma limbs_of_value:
  "limbs_value k (map (\<lambda>i. x div 2 ^ (k * i) mod 2 ^ k) [0..<n]) = x mod 2 ^ (k * n)"
proof (induct n)
  case (Suc n)
  have "x mod 2 ^ (k * Suc n) = 2 ^ (k * n) * (x div 2 ^ (k * n) mod 2 ^ k) + x mod 2 ^ (k * n)"
    using mod_mult2_eq [of x "2 ^ (k * n)" "2 ^ k"] by (simp add: power_add mult.commute)
  then show ?case using Suc by (simp add: limbs_value_append)
qed simp

definition out_nats :: "('f, 'z) libs_scheme \<Rightarrow> ('v \<times> 'f fp) list \<Rightarrow> nat list" where
  "out_nats L outs = map (fp_to_biguint L \<circ> snd) outs"

lemma out_nats_simps [simp]:
  "out_nats L [] = []" "out_nats L (o' # outs) = fp_to_biguint L (snd o') # out_nats L outs"
  "out_nats L (xs @ ys) = out_nats L xs @ out_nats L ys"
  "length (out_nats L xs) = length xs"
  by (simp_all add: out_nats_def)

context field_ctx begin

lemma fp_new_nat: "fp_to_biguint L (fp_new L v m) = v mod m"
  using fp_new_val(2) [of v] by (simp add: fp_val_def flip: of_nat_mod)

lemma split_limbs_length [simp]: "length (split_limbs L m k x outs) = length outs"
  by (simp add: split_limbs_def Let_def)

lemma split_limbs_nats:
  assumes "2 ^ unat k \<le> m"
  shows "limbs_value (unat k) (out_nats L (split_limbs L m k x outs)) = x mod 2 ^ (unat k * length outs)"
    "\<forall>y \<in> set (out_nats L (split_limbs L m k x outs)). y < 2 ^ unat k"
proof -
  have limb: "and (drop_bit (unat k * i) x) (2 ^ unat k - 1) = x div 2 ^ (unat k * i) mod 2 ^ unat k" for i
    unfolding mask_eq_exp_minus_1 [symmetric] take_bit_eq_mask [symmetric]
    by (simp add: drop_bit_eq_div take_bit_eq_mod)
  have "x div 2 ^ (unat k * i) mod 2 ^ unat k < m" for i
    using assms by (meson mod_less_divisor order_less_le_trans zero_less_numeral zero_less_power)
  then have eq: "out_nats L (split_limbs L m k x outs) =
      map (\<lambda>i. x div 2 ^ (unat k * i) mod 2 ^ unat k) [0..<length outs]"
    by (intro nth_equalityI)
      (simp_all add: split_limbs_def Let_def out_nats_def nth_enumerate_eq fp_new_nat limb del: One_nat_def)
  show "limbs_value (unat k) (out_nats L (split_limbs L m k x outs)) = x mod 2 ^ (unat k * length outs)"
    unfolding eq by (rule limbs_of_value)
  show "\<forall>y \<in> set (out_nats L (split_limbs L m k x outs)). y < 2 ^ unat k"
    unfolding eq by simp
qed

lemma fp_bits_nat: "fp_wf m x \<Longrightarrow> fp_to_biguint L (fp_bits L x i) = of_bool (bit (fp_to_biguint L x) i)"
  using fp_bits_val(2) [of x i] by (auto simp: fp_val_def split: if_splits)

lemma fp_to_biguint_less: "fp_wf m x \<Longrightarrow> fp_to_biguint L x < m"
  using fp_val_range [of x] by (simp add: fp_val_def)

end

section \<open>Specifications\<close>

text \<open>The one-output operations over residues.\<close>

fun arith_hint :: "int \<Rightarrow> ('l \<Rightarrow> int) \<Rightarrow> ('l, 'v) witness_gen \<Rightarrow> ('v \<times> int) option" where
  "arith_hint m ev (Product v x y) = Some (v, ev x * ev y mod m)"
| "arith_hint m ev (Linear v x) = Some (v, ev x)"
| "arith_hint m ev (Xor v x y) = Some (v, (ev x + ev y - 2 * ev x * ev y) mod m)"
| "arith_hint m ev (Or v x y) = Some (v, (ev x + ev y - ev x * ev y) mod m)"
| "arith_hint m ev (Bit v x i) = Some (v, of_bool (bit (ev x) (unat i)))"
| "arith_hint m ev _ = None"

definition inputs_wf :: "nat \<Rightarrow> ('l \<Rightarrow> 'f fp) \<Rightarrow> ('l, 'v) witness_gen \<Rightarrow> bool" where
  "inputs_wf m ev op \<longleftrightarrow> list_all (\<lambda>l. fp_wf m (ev l)) (op_inputs op)"

lemma bit_fp_val: "bit (fp_val L x) i = bit (fp_to_biguint L x) i"
  by (simp add: fp_val_def bit_of_nat_iff)

context field_ctx begin

lemma arith_hint_refine:
  assumes "inputs_wf m ev op" "arith_hint (int m) (fp_val L \<circ> ev) op = Some (v, z)"
  shows "\<exists>r. exec_witness_op L op ev m = Some (Inr [(v, r)]) \<and> fp_wf m r \<and> fp_val L r = z"
  using assms
  by (cases op)
    (auto simp: inputs_wf_def Let_def res.ok_ops res.val_ops fp_bits_val bit_fp_val mod_simps algebra_simps)

lemma inverse_hint_val:
  assumes "nat_prime m" "fp_wf m x" "fp_val L x \<noteq> 0"
  obtains y where "fp_inverse L x = Some y" "fp_wf m y" "fp_val L x * fp_val L y mod int m = 1"
  using fp_inverse_unit [OF assms] by blast

lemma bits_hint_nats:
  assumes "fp_wf m (ev x)"
  shows "out_nats L (map (\<lambda>(i, out). (out, fp_bits L (ev x) i)) (enumerate 0 outs)) =
    map (\<lambda>i. of_bool (bit (fp_to_biguint L (ev x)) i)) [0..<length outs]"
  using fp_bits_nat [OF assms]
  by (intro nth_equalityI) (simp_all add: out_nats_def nth_enumerate_eq)

lemma limbs_bits: "limbs_value 1 (map (\<lambda>i. of_bool (bit x i)) [0..<n]) = x mod 2 ^ n"
proof -
  have "of_bool (bit x i) = x div 2 ^ i mod 2 ^ 1" for i
    by (simp add: bit_iff_odd mod2_eq_if)
  then show ?thesis using limbs_of_value [of 1 x n] by (simp only: mult_1)
qed

end

section \<open>Properties\<close>

text \<open>the arithmetic hints refine their specification over residues: a product, a named
  combination, the fused XOR \<open>a + b - 2ab\<close> and OR \<open>a + b - ab\<close>, and one bit of the canonical
  representative.\<close>

theorem arithmetic_hints_refine:
  assumes "field_ctx L m" "inputs_wf m ev op" "arith_hint (int m) (fp_val L \<circ> ev) op = Some (v, z)"
  shows "\<exists>r. exec_witness_op L op ev m = Some (Inr [(v, r)]) \<and> fp_wf m r \<and> fp_val L r = z"
  by (rule field_ctx.arith_hint_refine [OF assms])

theorem arithmetic_hints_refine_witness:
  "\<exists>r. exec_witness_op ref_libs (Xor (0 :: nat) (3 :: nat) 5) (\<lambda>l. Generic l 97) 97 = Some (Inr [(0, r)]) \<and>
    fp_val ref_libs r = 75"
  using arithmetic_hints_refine [OF f97.field_ctx_axioms,
      of "\<lambda>l. Generic l 97" "Xor (0 :: nat) (3 :: nat) 5" 0 75]
  by (simp add: inputs_wf_def fp_val_def)

text \<open>On zero-one operands the XOR and OR hints are the boolean operations, in every field.\<close>

theorem boolean_hints_correct:
  assumes "field_ctx L m" "fp_wf m (ev x)" "fp_wf m (ev y)"
    "fp_val L (ev x) = of_bool s" "fp_val L (ev y) = of_bool t"
  shows "\<exists>p r. exec_witness_op L (Xor v x y) ev m = Some (Inr [(v, p)]) \<and> fp_val L p = of_bool (s \<noteq> t) \<and>
    exec_witness_op L (Or v x y) ev m = Some (Inr [(v, r)]) \<and> fp_val L r = of_bool (s \<or> t)"
proof -
  have m: "1 < m" using field_ctx.m_gt_1 [OF assms(1)] .
  have "\<exists>p. exec_witness_op L (Xor v x y) ev m = Some (Inr [(v, p)]) \<and> fp_wf m p \<and> fp_val L p = of_bool (s \<noteq> t)"
    using assms(2-5) m by (intro field_ctx.arith_hint_refine [OF assms(1)]) (auto simp: inputs_wf_def)
  moreover have "\<exists>r. exec_witness_op L (Or v x y) ev m = Some (Inr [(v, r)]) \<and> fp_wf m r \<and> fp_val L r = of_bool (s \<or> t)"
    using assms(2-5) m by (intro field_ctx.arith_hint_refine [OF assms(1)]) (auto simp: inputs_wf_def)
  ultimately show ?thesis by blast
qed

theorem boolean_hints_correct_witness:
  "\<exists>p. exec_witness_op ref_libs (Xor (0 :: nat) (1 :: nat) 1) (\<lambda>l. Generic l 97) 97 = Some (Inr [(0, p)]) \<and>
    fp_val ref_libs p = 0"
  using boolean_hints_correct [OF f97.field_ctx_axioms, of "\<lambda>l. Generic l 97" 1 1 True True "0 :: nat"]
  by (auto simp: fp_val_def)

text \<open>The inverse hints. Over a prime field both \<^verbatim>\<open>Inverse\<close> and \<^verbatim>\<open>InverseOrZero\<close> emit the
  inverse of a nonzero value and zero for zero; neither raises an error.\<close>

theorem inverse_hints_correct:
  assumes "field_ctx L m" "nat_prime m" "fp_wf m (ev x)"
  shows "\<exists>y. exec_witness_op L (Inverse v x) ev m = Some (Inr [(v, y)]) \<and>
    exec_witness_op L (InverseOrZero v x) ev m = Some (Inr [(v, y)]) \<and> fp_wf m y \<and>
    (if fp_val L (ev x) = 0 then fp_val L y = 0 else fp_val L (ev x) * fp_val L y mod int m = 1)"
proof (cases "fp_val L (ev x) = 0")
  case True
  then show ?thesis
    using field_ctx.fp_inverse_zero [OF assms(1,3)] field_ctx.fp_zero_val [OF assms(1)] by simp
next
  case False
  obtain y where "fp_inverse L (ev x) = Some y" "fp_wf m y" "fp_val L (ev x) * fp_val L y mod int m = 1"
    by (rule field_ctx.inverse_hint_val [OF assms(1,2,3) False])
  then show ?thesis using False by simp
qed

theorem inverse_hints_correct_witness:
  "\<exists>y. exec_witness_op ref_libs (Inverse (0 :: nat) (2 :: nat)) (\<lambda>l. Generic l 97) 97 = Some (Inr [(0, y)]) \<and>
    2 * fp_val ref_libs y mod 97 = 1"
  using inverse_hints_correct [OF f97.field_ctx_axioms nat_prime_97, of "\<lambda>l. Generic l 97" 2 "0 :: nat"]
  by (auto simp: fp_val_def)

text \<open>bit decomposition. The batched hint emits zero-one values, one per output, whose
  weighted sum is the canonical representative reduced to that many bits; it is the sequence of
  the single-bit hints.\<close>

theorem bits_hint_correct:
  assumes "field_ctx L m" "fp_wf m (ev x)"
  shows "\<exists>bits. exec_witness_op L (Bits outs x) ev m = Some (Inr bits) \<and> map fst bits = outs \<and>
    set (out_nats L bits) \<subseteq> {0, 1} \<and>
    limbs_value 1 (out_nats L bits) = fp_to_biguint L (ev x) mod 2 ^ length outs \<and>
    list_all (\<lambda>i. unat (of_nat i :: u32) = i \<longrightarrow>
      exec_witness_op L (Bit (outs ! i) x (of_nat i)) ev m = Some (Inr [bits ! i])) [0..<length outs]"
proof -
  let ?bits = "map (\<lambda>(i, out). (out, fp_bits L (ev x) i)) (enumerate 0 outs)"
  have nats: "out_nats L ?bits = map (\<lambda>i. of_bool (bit (fp_to_biguint L (ev x)) i)) [0..<length outs]"
    by (rule field_ctx.bits_hint_nats [where ev = ev, OF assms])
  have "set (out_nats L ?bits) \<subseteq> {0, 1}" unfolding nats by auto
  moreover have "limbs_value 1 (out_nats L ?bits) = fp_to_biguint L (ev x) mod 2 ^ length outs"
    unfolding nats by (rule field_ctx.limbs_bits [OF assms(1)])
  ultimately show ?thesis
    by (intro exI [of _ ?bits]) (auto simp: comp_def split_def list_all_length nth_enumerate_eq)
qed

theorem bits_hint_correct_witness:
  "\<exists>bits. exec_witness_op ref_libs (Bits [0, 1, 2 :: nat] (13 :: nat)) (\<lambda>l. Generic l 97) 97 = Some (Inr bits) \<and>
    limbs_value 1 (out_nats ref_libs bits) = 5"
  using bits_hint_correct [OF f97.field_ctx_axioms, of "\<lambda>l. Generic l 97" 13 "[0, 1, 2 :: nat]"]
  by auto

text \<open>division with remainder, on canonical representatives: a zero divisor is the error
  \<^verbatim>\<open>DivisionByZero\<close>, otherwise quotient and remainder satisfy \<open>q * d + r = n\<close> over the
  integers (not only in the field) with \<open>r < d\<close>.\<close>

theorem div_rem_hint_correct:
  assumes "field_ctx L m" "fp_wf m (ev num)" "fp_wf m (ev den)"
  shows "if fp_to_biguint L (ev den) = 0
    then exec_witness_op L (DivRem q r num den) ev m = Some (Inl DivisionByZero)
    else \<exists>x y. exec_witness_op L (DivRem q r num den) ev m = Some (Inr [(q, x), (r, y)]) \<and>
      fp_to_biguint L x * fp_to_biguint L (ev den) + fp_to_biguint L y = fp_to_biguint L (ev num) \<and>
      fp_to_biguint L y < fp_to_biguint L (ev den)"
proof (cases "fp_to_biguint L (ev den) = 0")
  case True
  then show ?thesis using field_ctx.fp_is_zero_val [OF assms(1,3)] by (simp add: fp_val_def)
next
  case False
  let ?n = "fp_to_biguint L (ev num)" and ?d = "fp_to_biguint L (ev den)"
  have less: "?n < m" "?d < m" using field_ctx.fp_to_biguint_less [OF assms(1)] assms(2,3) by auto
  have "?n div ?d < m" using div_le_dividend less(1) by (rule order.strict_trans1)
  moreover have "?n mod ?d < m" using False less(2) by (meson less_trans mod_less_divisor neq0_conv)
  ultimately have "?n div ?d mod m = ?n div ?d" "?n mod ?d mod m = ?n mod ?d" by simp_all
  then have vals: "fp_to_biguint L (fp_new L (?n div ?d) m) = ?n div ?d"
    "fp_to_biguint L (fp_new L (?n mod ?d) m) = ?n mod ?d"
    by (simp_all only: field_ctx.fp_new_nat [OF assms(1)])
  have "exec_witness_op L (DivRem q r num den) ev m =
      Some (Inr [(q, fp_new L (?n div ?d) m), (r, fp_new L (?n mod ?d) m)])"
    using False field_ctx.fp_is_zero_val [OF assms(1,3)] by (simp add: fp_val_def Let_def)
  moreover have "?n div ?d * ?d + ?n mod ?d = ?n" by (rule div_mult_mod_eq)
  moreover have "?n mod ?d < ?d" using False by simp
  ultimately show ?thesis unfolding if_not_P [OF False] by (metis vals)
qed

theorem div_rem_hint_correct_witness:
  "\<exists>x y. exec_witness_op ref_libs (DivRem (0 :: nat) 1 (17 :: nat) 5) (\<lambda>l. Generic l 97) 97 =
      Some (Inr [(0, x), (1, y)]) \<and> fp_to_biguint ref_libs x * 5 + fp_to_biguint ref_libs y = 17"
  using div_rem_hint_correct [OF f97.field_ctx_axioms, of "\<lambda>l. Generic l 97" 17 5 "0 :: nat" 1]
  by auto

text \<open>C33: the non-native product hint. With a nonzero modulus, limbs that fit the field and enough
  output limbs for the quotient and the remainder, the emitted limbs are digits below
  \<open>2 ^ limb_bits\<close> whose values satisfy \<open>q * M + r = A * B\<close> over the integers, \<open>r < M\<close>.\<close>

theorem mul_mod_hint_correct:
  assumes ctx: "field_ctx L m" and k: "k \<le> MAX_LIMB_BITS" "2 ^ unat k \<le> m"
    and M: "recompose L ev k modulus = M" "M \<noteq> 0" "M \<le> 2 ^ (unat k * length r)"
    and A: "recompose L ev k a = A" "recompose L ev k b = B" "A * B div M < 2 ^ (unat k * length q)"
  shows "\<exists>qo ro. exec_witness_op L (MulModDivMod q r a b modulus k) ev m = Some (Inr (qo @ ro)) \<and>
    map fst qo = q \<and> map fst ro = r \<and>
    limbs_value (unat k) (out_nats L qo) * M + limbs_value (unat k) (out_nats L ro) = A * B \<and>
    limbs_value (unat k) (out_nats L ro) < M \<and>
    list_all (\<lambda>x. x < 2 ^ unat k) (out_nats L (qo @ ro))"
proof -
  let ?qo = "split_limbs L m k (A * B div M) q" and ?ro = "split_limbs L m k (A * B mod M) r"
  note limbs = field_ctx.split_limbs_nats [OF ctx k(2)]
  have "A * B mod M < M" using M by simp
  then have r: "limbs_value (unat k) (out_nats L ?ro) = A * B mod M" using M(3) by (simp add: limbs)
  have q: "limbs_value (unat k) (out_nats L ?qo) = A * B div M" using A(3) by (simp add: limbs)
  show ?thesis
  proof (intro exI conjI)
    show "exec_witness_op L (MulModDivMod q r a b modulus k) ev m = Some (Inr (?qo @ ?ro))"
      using k M A by (simp add: Let_def not_less)
    show "limbs_value (unat k) (out_nats L ?qo) * M + limbs_value (unat k) (out_nats L ?ro) = A * B"
      unfolding q r by (rule div_mult_mod_eq)
    show "list_all (\<lambda>x. x < 2 ^ unat k) (out_nats L (?qo @ ?ro))"
      using limbs(2) by (auto simp: list_all_iff)
  qed (use M in \<open>simp_all add: r\<close>)
qed

text \<open>Base-16 limbs in the field of order 97.\<close>

lemma recompose_digits: "recompose ref_libs (\<lambda>l. Generic l 97) k ls = limbs_value (unat k) ls"
  by (simp add: recompose_limbs comp_def)

theorem mul_mod_hint_correct_witness:
  "\<exists>qo ro. exec_witness_op ref_libs (MulModDivMod [0, 1 :: nat] [2, 3] [7, 5 :: nat] [9, 2] [1, 3] 4)
      (\<lambda>l. Generic l 97) 97 = Some (Inr (qo @ ro)) \<and>
    limbs_value 4 (out_nats ref_libs qo) * 49 + limbs_value 4 (out_nats ref_libs ro) = 87 * 41"
  using mul_mod_hint_correct [OF f97.field_ctx_axioms, of 4 "\<lambda>l. Generic l 97" "[1, 3]" 49 "[2, 3 :: nat]"
      "[7, 5]" 87 "[9, 2]" 41 "[0, 1 :: nat]"]
  by (auto simp: recompose_digits MAX_LIMB_BITS_def word_le_nat_alt)

text \<open>C34: the modular-inverse hint. For a prime modulus of the limbs' integers and a residue that
  is not zero, the emitted limbs are the digits of \<open>w < M\<close> with \<open>A * w \<equiv> 1\<close> modulo \<open>M\<close>; a zero
  residue is the error \<^verbatim>\<open>DivisionByZero\<close>.\<close>

theorem mod_inverse_hint_correct:
  assumes ctx: "field_ctx L m" and k: "k \<le> MAX_LIMB_BITS" "2 ^ unat k \<le> m"
    and M: "recompose L ev k modulus = M" "nat_prime M" "M \<le> 2 ^ (unat k * length out)"
    and A: "recompose L ev k a = A"
  shows "if A mod M = 0 then exec_witness_op L (ModInverse out a modulus k) ev m = Some (Inl DivisionByZero)
    else \<exists>wo. exec_witness_op L (ModInverse out a modulus k) ev m = Some (Inr wo) \<and> map fst wo = out \<and>
      A * limbs_value (unat k) (out_nats L wo) mod M = 1 \<and> limbs_value (unat k) (out_nats L wo) < M"
proof (cases "A mod M = 0")
  case True
  then show ?thesis using k M A nat_prime_gt_1 [OF M(2)] by (simp add: Let_def not_less)
next
  case False
  let ?w = "modpow (A mod M) (M - 2) M"
  let ?wo = "split_limbs L m k ?w out"
  have M1: "1 < M" using nat_prime_gt_1 [OF M(2)] .
  have "field_ctx L M" using ctx M1 by (simp add: field_ctx_def field_ctx_axioms_def)
  then have inv: "A mod M * ?w mod M = 1"
    unfolding modpow_def using M1 False by (intro field_ctx.fermat_inverse [OF _ M(2)]) auto
  have "?w < M" using M1 by (simp add: modpow_def)
  then have w: "limbs_value (unat k) (out_nats L ?wo) = ?w"
    using M(3) by (simp add: field_ctx.split_limbs_nats [OF ctx k(2)])
  have "exec_witness_op L (ModInverse out a modulus k) ev m = Some (Inr ?wo)"
    using k M A False M1 by (simp add: Let_def not_less)
  then show ?thesis using False inv \<open>?w < M\<close>
    by (auto simp: w mod_mult_left_eq intro!: exI [of _ ?wo])
qed

theorem mod_inverse_hint_correct_witness:
  "\<exists>wo. exec_witness_op ref_libs (ModInverse [0, 1 :: nat] [7, 5 :: nat] [1, 6] 4) (\<lambda>l. Generic l 97) 97 =
      Some (Inr wo) \<and> 87 * limbs_value 4 (out_nats ref_libs wo) mod 97 = 1"
  using mod_inverse_hint_correct [OF f97.field_ctx_axioms, of 4 "\<lambda>l. Generic l 97" "[1, 6]" 97
      "[0, 1 :: nat]" "[7, 5]" 87] nat_prime_97
  by (auto simp: recompose_digits MAX_LIMB_BITS_def word_le_nat_alt)

text \<open>the fused-subtraction hint. On reduced operands it emits the canonical remainder of
  \<open>a - b - c\<close> and the factor \<open>qabs \<le> 2\<close> with \<open>a + qabs * M = b + c + r\<close>.\<close>

theorem sub2_hint_correct:
  assumes ctx: "field_ctx L m" and k: "k \<le> MAX_LIMB_BITS" "2 ^ unat k \<le> m" "2 < m"
    and M: "recompose L ev k modulus = M" "M \<le> 2 ^ (unat k * length r)"
    and abc: "recompose L ev k a = A" "recompose L ev k b = B" "recompose L ev k c = C"
    and less: "A < M" "B < M" "C < M"
  shows "\<exists>x ro. exec_witness_op L (Sub2 qabs r a b c modulus k) ev m = Some (Inr ((qabs, x) # ro)) \<and>
    map fst ro = r \<and> fp_to_biguint L x \<le> 2 \<and>
    A + fp_to_biguint L x * M = B + C + limbs_value (unat k) (out_nats L ro) \<and>
    limbs_value (unat k) (out_nats L ro) < M"
proof -
  let ?s = "A + M + M - (B + C)"
  let ?ro = "split_limbs L m k (?s mod M) r"
  have M0: "M \<noteq> 0" using less by auto
  have "?s < 3 * M" using less by linarith
  then have "?s div M < 3" by (rule less_mult_imp_div_less)
  then have q: "?s div M \<le> 2" by linarith
  have "?s mod M < M" using M0 by simp
  then have r: "limbs_value (unat k) (out_nats L ?ro) = ?s mod M"
    using M(2) by (simp add: field_ctx.split_limbs_nats [OF ctx k(2)])
  have x: "fp_to_biguint L (fp_new L (2 - ?s div M) m) = 2 - ?s div M"
    using k(3) by (simp add: field_ctx.fp_new_nat [OF ctx])
  have "exec_witness_op L (Sub2 qabs r a b c modulus k) ev m =
      Some (Inr ((qabs, fp_new L (2 - ?s div M) m) # ?ro))"
    using k M abc less q M0 by (simp add: Let_def not_less)
  moreover have "A + (2 - ?s div M) * M = B + C + ?s mod M"
  proof -
    have "?s = ?s div M * M + ?s mod M" by simp
    moreover have "(2 - ?s div M) * M = 2 * M - ?s div M * M" by (rule diff_mult_distrib)
    moreover have "?s div M * M \<le> 2 * M" using q by (rule mult_le_mono1)
    ultimately show ?thesis using less by linarith
  qed
  ultimately show ?thesis using \<open>?s mod M < M\<close>
    by (intro exI [of _ "fp_new L (2 - ?s div M) m"] exI [of _ ?ro]) (simp add: x r)
qed

theorem sub2_hint_correct_witness:
  "\<exists>x ro. exec_witness_op ref_libs (Sub2 (0 :: nat) [1, 2] [7, 2 :: nat] [9, 2] [1, 1] [1, 3] 4)
      (\<lambda>l. Generic l 97) 97 = Some (Inr ((0, x) # ro)) \<and>
    39 + fp_to_biguint ref_libs x * 49 = 41 + 17 + limbs_value 4 (out_nats ref_libs ro)"
  using sub2_hint_correct [OF f97.field_ctx_axioms, of 4 "\<lambda>l. Generic l 97" "[1, 3]" 49 "[1, 2 :: nat]"
      "[7, 2]" 39 "[9, 2]" 41 "[1, 1]" 17 "0 :: nat"]
  by (auto simp: recompose_digits MAX_LIMB_BITS_def word_le_nat_alt)

text \<open>The lattice hint as an operation: what it emits, read back as the signed vector it came
  from, satisfies the congruence \<open>a\<^sub>1 + \<lambda> a\<^sub>2 \<equiv> u (b\<^sub>1 + \<lambda> b\<^sub>2)\<close> of the recomposed limbs modulo their
  modulus, is nonzero, below the bound, and enters the field entry by entry.\<close>

theorem fake_glv_hint_correct:
  assumes ctx: "field_ctx L m"
    and ok: "exec_witness_op L (FakeGlv out u modulus lambda k) ev m = Some (Inr outs)"
  shows "\<exists>v. map fst outs = out \<and> length out = 4 \<and>
    map (fp_val L \<circ> snd) outs = map (\<lambda>x. x mod int m) v \<and>
    in_lattice (recompose L ev k u) (recompose L ev k modulus) (recompose L ev k lambda) v \<and>
    (\<exists>x \<in> set v. x \<noteq> 0) \<and>
    list_all (\<lambda>x. \<bar>x\<bar> < 2 ^ ((bit_len (recompose L ev k modulus) + 3) div 4)) v"
proof -
  let ?u = "recompose L ev k u" and ?M = "recompose L ev k modulus" and ?l = "recompose L ev k lambda"
  obtain v where v: "length out = 4" "fake_glv ?u ?M ?l = Some (Some v)"
    and outs: "outs = map (\<lambda>(out, x). (out, fp_from_bigint L x m)) (zip out v)"
    using ok by (auto split: if_splits option.splits)
  have len: "length v = 4" using fake_glv_length [OF v(2)] .
  obtain b where b: "?M \<noteq> 0" "lll (glv_basis ?u ?M ?l) = Some b"
    using v(2) by (auto simp: fake_glv_def split: if_splits)
  have "map fst outs = out" using exec_outputs [OF ok] by simp
  moreover have "map (fp_val L \<circ> snd) outs = map (\<lambda>x. x mod int m) v"
    unfolding outs using len v(1)
    by (intro nth_equalityI) (simp_all add: field_ctx.fp_from_bigint_val [OF ctx])
  ultimately show ?thesis
    using fake_glv_sound [OF b] v by (auto simp: list_all_iff)
qed

lemma lll_example:
  "lll (glv_basis 5 97 35) = Some [[- 2, 1, - 1, - 2], [0, 1, - 1, 3], [1, - 1, - 3, 1], [- 3, - 2, 1, - 1]]"
  by code_simp

lemma fake_glv_example: "\<exists>v. fake_glv 5 97 35 = Some (Some v)"
proof -
  have "glv_good [[- 2, 1, - 1, - 2], [0, 1, - 1, 3], [1, - 1, - 3, 1], [- 3, - 2, 1, - 1]]
      (2 ^ ((bit_len 97 + 3) div 4)) 1201"
    by (simp add: bit_len.simps glv_good_def glv_combine_def glv_coeff_def max_norm_def upt_rec)
  moreover have "(1201 :: nat) < 7 ^ 4" by simp
  ultimately show ?thesis
    using fake_glv_cases [OF _ lll_example] by (fastforce split: option.splits)
qed

theorem fake_glv_hint_correct_witness:
  "\<exists>v. in_lattice 5 97 35 v \<and> (\<exists>x \<in> set v. x \<noteq> 0) \<and> list_all (\<lambda>x. \<bar>x\<bar> < 4) v"
proof -
  let ?op = "FakeGlv [2, 3, 4, 5 :: nat] [5 :: nat] [17, 5] [3, 2] 4"
  have limbs: "recompose ref_libs (\<lambda>l. Generic l 97) 4 [5] = 5"
    "recompose ref_libs (\<lambda>l. Generic l 97) 4 [17, 5] = 97" "recompose ref_libs (\<lambda>l. Generic l 97) 4 [3, 2] = 35"
    by (simp_all add: recompose_digits)
  obtain v where "fake_glv 5 97 35 = Some (Some v)" using fake_glv_example by blast
  then have "exec_witness_op ref_libs ?op (\<lambda>l. Generic l 97) 97 =
      Some (Inr (map (\<lambda>(out, x). (out, fp_from_bigint ref_libs x 97)) (zip [2, 3, 4, 5] v)))"
    by (simp add: limbs MAX_LIMB_BITS_def)
  from fake_glv_hint_correct [OF f97.field_ctx_axioms this]
  obtain w where "in_lattice 5 97 35 w" "\<exists>x \<in> set w. x \<noteq> 0"
    "list_all (\<lambda>x. \<bar>x\<bar> < 2 ^ ((bit_len 97 + 3) div 4)) w"
    unfolding limbs by blast
  moreover have "2 ^ ((bit_len 97 + 3) div 4) = (4 :: int)" by (simp add: bit_len.simps)
  ultimately show ?thesis by auto
qed

end
