(* ===== verification/Witness_Run.thy ===== *)
theory Witness_Run
  imports Witness_Exec
begin

text \<open>
  Running the hint program of \<^verbatim>\<open>solver.rs\<close>: one operation at a time, in streamed batches,
  and level by level in parallel; then the entry points that solve and check a program.

  Shown: streaming gives exactly the sequential run; the parallel run succeeds with an
  assignment exactly when the sequential run does, whatever the scheduling of errors, for
  programs in dependency order with one writer per variable; and checking a program decides
  whether every constraint vanishes modulo the field's modulus.
\<close>

section \<open>Sequential\<close>

definition apply_outs :: "'f slots \<Rightarrow> (var_id \<times> 'f fp) list \<Rightarrow> 'f slots" where
  "apply_outs assign outs = foldl (\<lambda>assign (v, val). dense_set v val assign) assign outs"

definition exec_in :: "('f, 'z) libs_scheme \<Rightarrow> nat \<Rightarrow> 'f slots \<Rightarrow> witness_op \<Rightarrow>
    (solve_error + (var_id \<times> 'f fp) list) option" where
  "exec_in L m assign op = exec_witness_op L op (\<lambda>lc. eval_lc L lc (slots_get assign) m) m"

fun solve_witness_sequential :: "('f, 'z) libs_scheme \<Rightarrow> nat \<Rightarrow> witness_op list \<Rightarrow> 'f slots \<Rightarrow>
    (solve_error + 'f slots) option" where
  "solve_witness_sequential L m [] assign = Some (Inr assign)"
| "solve_witness_sequential L m (op # ops) assign =
     obind (exec_in L m assign op) (\<lambda>outs. solve_witness_sequential L m ops (apply_outs assign outs))"

section \<open>Parallel, by levels\<close>

definition PAR_LEVEL :: nat where "PAR_LEVEL = 256"
definition PAR_THRESHOLD :: nat where "PAR_THRESHOLD = 4096"

text \<open>The level of each operation, and the map from variables to the level that produces them.\<close>

definition op_level :: "(var_id \<Rightarrow> nat option) \<Rightarrow> witness_op \<Rightarrow> nat" where
  "op_level produced_at op =
    fold (\<lambda>rv lv. case produced_at rv of Some p \<Rightarrow> max lv (p + 1) | None \<Rightarrow> lv) (op_read_vars op) 0"

fun assign_levels :: "(var_id \<Rightarrow> nat option) \<Rightarrow> witness_op list \<Rightarrow> nat list" where
  "assign_levels produced_at [] = []"
| "assign_levels produced_at (op # ops) =
     (let lv = op_level produced_at op in
      lv # assign_levels (fold (\<lambda>v produced_at. produced_at(v \<mapsto> lv)) (op_output_vars op) produced_at) ops)"

definition level_groups :: "nat list \<Rightarrow> nat list list" where
  "level_groups level =
    map (\<lambda>lv. filter (\<lambda>idx. level ! idx = lv) [0..<length level]) [0..<fold max level 0 + 1]"

fun chunks :: "nat \<Rightarrow> 'a list \<Rightarrow> 'a list list" where
  "chunks n [] = []"
| "chunks n (x # xs) = take (Suc n) (x # xs) # chunks n (drop n xs)"

text \<open>One chunk, against the snapshot: its outputs in order, or its first error.\<close>

fun run_chunk :: "('f, 'z) libs_scheme \<Rightarrow> nat \<Rightarrow> 'f slots \<Rightarrow> witness_op list \<Rightarrow>
    (solve_error + (var_id \<times> 'f fp) list) option" where
  "run_chunk L m snapshot [] = Some (Inr [])"
| "run_chunk L m snapshot (op # ops) =
     obind (exec_in L m snapshot op) (\<lambda>o1. obind (run_chunk L m snapshot ops) (\<lambda>o2. Some (Inr (o1 @ o2))))"

text \<open>
  Collecting the chunks' results: when several fail, \<^verbatim>\<open>rayon\<close> returns one of the errors,
  chosen by \<open>pick\<close>.
\<close>

definition collect_results :: "(solve_error list \<Rightarrow> solve_error) \<Rightarrow> (solve_error + 'a) option list \<Rightarrow>
    (solve_error + 'a list) option" where
  "collect_results pick results =
    (if None \<in> set results then None
     else let errors = List.map_filter (\<lambda>r. case r of Some (Inl e) \<Rightarrow> Some e | _ \<Rightarrow> None) results in
       if errors \<noteq> [] then Some (Inl (pick errors))
       else Some (Inr (List.map_filter (\<lambda>r. case r of Some (Inr x) \<Rightarrow> Some x | _ \<Rightarrow> None) results)))"

definition run_level :: "('f, 'z) libs_scheme \<Rightarrow> (solve_error list \<Rightarrow> solve_error) \<Rightarrow> nat \<Rightarrow>
    witness_op list \<Rightarrow> 'f slots \<Rightarrow> (solve_error + 'f slots) option" where
  "run_level L pick m ops assign =
    (if length ops < PAR_LEVEL then solve_witness_sequential L m ops assign
     else obind (collect_results pick (map (run_chunk L m assign) (chunks 63 ops)))
       (\<lambda>produced. Some (Inr (foldl apply_outs assign produced))))"

fun run_levels :: "('f, 'z) libs_scheme \<Rightarrow> (solve_error list \<Rightarrow> solve_error) \<Rightarrow> nat \<Rightarrow>
    witness_op list list \<Rightarrow> 'f slots \<Rightarrow> (solve_error + 'f slots) option" where
  "run_levels L pick m [] assign = Some (Inr assign)"
| "run_levels L pick m (ops # levels) assign =
     obind (run_level L pick m ops assign) (run_levels L pick m levels)"

text \<open>\<open>threads\<close>: \<^verbatim>\<open>rayon::current_num_threads\<close>, and 1 on wasm32.\<close>

definition solve_witness_parallel :: "('f, 'z) libs_scheme \<Rightarrow> nat \<Rightarrow> (solve_error list \<Rightarrow> solve_error) \<Rightarrow>
    nat \<Rightarrow> witness_op list \<Rightarrow> 'f slots \<Rightarrow> (solve_error + 'f slots) option" where
  "solve_witness_parallel L threads pick m witness_gen assign =
    (if threads \<le> 1 then solve_witness_sequential L m witness_gen assign
     else run_levels L pick m
       (map (map ((!) witness_gen)) (level_groups (assign_levels (\<lambda>_. None) witness_gen))) assign)"

section \<open>Entry points\<close>

fun is_input :: "var_role \<Rightarrow> bool" where
  "is_input PublicInput = True"
| "is_input PrivateInput = True"
| "is_input Derived = False"

fun seed_inputs :: "('f, 'z) libs_scheme \<Rightarrow> nat \<Rightarrow> (var_id, string) btree \<Rightarrow> var list \<Rightarrow> 'f slots \<Rightarrow>
    solve_error + 'f slots" where
  "seed_inputs L m inputs [] assign = Inr assign"
| "seed_inputs L m inputs (var # vars) assign =
     (if is_input (v_role var) then
        (case bt_get inputs (v_id var) of
           None \<Rightarrow> Inl (MissingInput (v_id var))
         | Some decimal \<Rightarrow>
             seed_inputs L m inputs vars (dense_set (v_id var) (fp_from_decimal L decimal m) assign))
      else seed_inputs L m inputs vars assign)"

definition max_id_len :: "var list \<Rightarrow> nat" where
  "max_id_len vars = (case map (\<lambda>v. unat (v_id v)) vars of [] \<Rightarrow> 0 | i # is \<Rightarrow> fold max is i + 1)"

definition solve_witness :: "('f, 'z) libs_scheme \<Rightarrow> nat \<Rightarrow> (solve_error list \<Rightarrow> solve_error) \<Rightarrow>
    var list \<Rightarrow> witness_op list \<Rightarrow> nat \<Rightarrow> (var_id, string) btree \<Rightarrow>
    (solve_error + (var_id, 'f fp) btree) option" where
  "solve_witness L threads pick vars witness_gen m inputs =
    obind (Some (seed_inputs L m inputs vars (dense_with_len (max_id_len vars))))
      (\<lambda>assign. obind
        (if length witness_gen \<ge> PAR_THRESHOLD
         then solve_witness_parallel L threads pick m witness_gen assign
         else solve_witness_sequential L m witness_gen assign)
        (\<lambda>assign. Some (Inr (into_btreemap assign))))"

definition solve :: "('f, 'z) libs_scheme \<Rightarrow> nat \<Rightarrow> (solve_error list \<Rightarrow> solve_error) \<Rightarrow>
    primitive_program \<Rightarrow> (var_id, string) btree \<Rightarrow> (solve_error + (var_id, 'f fp) btree) option" where
  "solve L threads pick program inputs =
    obind (Some (modulus_of L program))
      (\<lambda>m. solve_witness L threads pick (pp_vars program) (pp_witness_gen program) m inputs)"

definition solve_cp :: "('f, 'z) libs_scheme \<Rightarrow> nat \<Rightarrow> (solve_error list \<Rightarrow> solve_error) \<Rightarrow>
    circuit_program \<Rightarrow> (var_id, string) btree \<Rightarrow> (solve_error + (var_id, 'f fp) btree) option" where
  "solve_cp L threads pick program inputs =
    obind (Some (modulus_of_field L (cp_field program)))
      (\<lambda>m. solve_witness L threads pick (cp_vars program) (cp_witness_gen program) m inputs)"

text \<open>\<^verbatim>\<open>solve_witness_streamed_dense\<close>: the sink's state is the batch, the error, the assignment.\<close>

definition STREAM_BATCH :: nat where "STREAM_BATCH = 100000"

record 'f sink =
  sk_batch :: "witness_op list"
  sk_err :: "solve_error option"
  sk_assign :: "'f slots"

definition sink_op :: "('f, 'z) libs_scheme \<Rightarrow> nat \<Rightarrow> 'f sink \<Rightarrow> witness_op \<Rightarrow> 'f sink option" where
  "sink_op L m sk op =
    (if sk_err sk \<noteq> None then Some sk
     else let batch = sk_batch sk @ [op] in
       if length batch \<ge> STREAM_BATCH then
         (case solve_witness_sequential L m batch (sk_assign sk) of
            None \<Rightarrow> None
          | Some (Inl e) \<Rightarrow> Some (sk\<lparr>sk_err := Some e, sk_batch := []\<rparr>)
          | Some (Inr assign) \<Rightarrow> Some (sk\<lparr>sk_assign := assign, sk_batch := []\<rparr>))
       else Some (sk\<lparr>sk_batch := batch\<rparr>))"

fun feed_sink :: "('f, 'z) libs_scheme \<Rightarrow> nat \<Rightarrow> 'f sink \<Rightarrow> witness_op list \<Rightarrow> 'f sink option" where
  "feed_sink L m sk [] = Some sk"
| "feed_sink L m sk (op # ops) = (case sink_op L m sk op of None \<Rightarrow> None | Some sk \<Rightarrow> feed_sink L m sk ops)"

text \<open>\<open>ops\<close> is what the caller's \<^verbatim>\<open>feed\<close> emits.\<close>

definition solve_witness_streamed_dense :: "('f, 'z) libs_scheme \<Rightarrow> var list \<Rightarrow> nat \<Rightarrow> nat \<Rightarrow>
    (var_id, string) btree \<Rightarrow> witness_op list \<Rightarrow> (solve_error + 'f slots) option" where
  "solve_witness_streamed_dense L vars n m inputs ops =
    obind (Some (seed_inputs L m inputs vars (dense_with_len n)))
      (\<lambda>assign. case feed_sink L m \<lparr>sk_batch = [], sk_err = None, sk_assign = assign\<rparr> ops of
          None \<Rightarrow> None
        | Some sk \<Rightarrow> (case sk_err sk of
            Some e \<Rightarrow> Some (Inl e)
          | None \<Rightarrow> if sk_batch sk \<noteq> [] then solve_witness_sequential L m (sk_batch sk) (sk_assign sk)
                    else Some (Inr (sk_assign sk))))"

text \<open>The checks.\<close>

fun check_from :: "('c \<Rightarrow> bool) \<Rightarrow> nat \<Rightarrow> 'c list \<Rightarrow> solve_error + unit" where
  "check_from ok i [] = Inr ()"
| "check_from ok i (c # cs) = (if \<not> ok c then Inl (ConstraintFailed i) else check_from ok (i + 1) cs)"

definition check :: "('f, 'z) libs_scheme \<Rightarrow> primitive_program \<Rightarrow> (var_id, 'f fp) btree \<Rightarrow> solve_error + unit" where
  "check L program assign =
    rbind (modulus_of L program) (\<lambda>m.
      check_from (\<lambda>c. fp_is_zero L (eval_expression L c (bt_get assign) m)) 0 (pp_constraints program))"

definition check_cp :: "('f, 'z) libs_scheme \<Rightarrow> circuit_program \<Rightarrow> (var_id, 'f fp) btree \<Rightarrow> solve_error + unit" where
  "check_cp L program assign =
    rbind (modulus_of_field L (cp_field program)) (\<lambda>m.
      check_from (\<lambda>row.
        let a = eval_lc L (r_a row) (bt_get assign) m;
            b = eval_lc L (r_b row) (bt_get assign) m;
            c = eval_lc L (r_c row) (bt_get assign) m
        in fp_is_zero L (fp_sub L (fp_mul L a b) c)) 0 (cp_constraints program))"

definition row_satisfied :: "('f, 'z) libs_scheme \<Rightarrow> lin_comb \<Rightarrow> lin_comb \<Rightarrow> lin_comb \<Rightarrow>
    (var_id \<Rightarrow> 'f fp option) \<Rightarrow> nat \<Rightarrow> bool" where
  "row_satisfied L a b c get m \<longleftrightarrow>
    fp_mul L (eval_lc L a get m) (eval_lc L b get m) = eval_lc L c get m"

definition solve_and_check :: "('f, 'z) libs_scheme \<Rightarrow> nat \<Rightarrow> (solve_error list \<Rightarrow> solve_error) \<Rightarrow>
    primitive_program \<Rightarrow> (var_id, string) btree \<Rightarrow> (solve_error + (var_id, 'f fp) btree) option" where
  "solve_and_check L threads pick program inputs =
    obind (solve L threads pick program inputs) (\<lambda>assign.
      Some (rbind (check L program assign) (\<lambda>_. Inr assign)))"

section \<open>Streaming\<close>

lemma sequential_append:
  "solve_witness_sequential L m (xs @ ys) a =
    obind (solve_witness_sequential L m xs a) (solve_witness_sequential L m ys)"
  by (induction xs arbitrary: a) (simp_all add: obind_assoc)

definition sink_result :: "('f, 'z) libs_scheme \<Rightarrow> nat \<Rightarrow> 'f sink \<Rightarrow> (solve_error + 'f slots) option" where
  "sink_result L m sk = (case sk_err sk of
      Some e \<Rightarrow> Some (Inl e)
    | None \<Rightarrow> if sk_batch sk \<noteq> [] then solve_witness_sequential L m (sk_batch sk) (sk_assign sk)
              else Some (Inr (sk_assign sk)))"

lemma sink_result_None:
  "sk_err sk = None \<Longrightarrow> sink_result L m sk = solve_witness_sequential L m (sk_batch sk) (sk_assign sk)"
  by (simp add: sink_result_def)

lemma feed_sink_result:
  "(case feed_sink L m sk ops of None \<Rightarrow> None | Some sk' \<Rightarrow> sink_result L m sk') =
   (case sk_err sk of Some e \<Rightarrow> Some (Inl e)
    | None \<Rightarrow> solve_witness_sequential L m (sk_batch sk @ ops) (sk_assign sk))"
proof (induction ops arbitrary: sk)
  case Nil
  show ?case by (cases "sk_err sk") (simp_all add: sink_result_def)
next
  case (Cons op ops)
  show ?case
  proof (cases "sk_err sk")
    case None
    let ?batch = "sk_batch sk @ [op]"
    have split: "solve_witness_sequential L m (sk_batch sk @ op # ops) (sk_assign sk) =
        obind (solve_witness_sequential L m ?batch (sk_assign sk)) (solve_witness_sequential L m ops)"
      using sequential_append [of L m ?batch ops] by simp
    show ?thesis
    proof (cases "length ?batch \<ge> STREAM_BATCH")
      case full: True
      consider "solve_witness_sequential L m ?batch (sk_assign sk) = None"
        | e where "solve_witness_sequential L m ?batch (sk_assign sk) = Some (Inl e)"
        | a where "solve_witness_sequential L m ?batch (sk_assign sk) = Some (Inr a)"
        by (metis option.exhaust sum.exhaust)
      then show ?thesis
      proof cases
        case (2 e)
        then show ?thesis
          using None full Cons.IH [of "sk\<lparr>sk_err := Some e, sk_batch := []\<rparr>"] split
          by (simp add: sink_op_def)
      next
        case (3 a)
        then show ?thesis
          using None full Cons.IH [of "sk\<lparr>sk_assign := a, sk_batch := []\<rparr>"] split
          by (simp add: sink_op_def)
      qed (use None full split in \<open>simp add: sink_op_def\<close>)
    next
      case False
      then show ?thesis
        using None Cons.IH [of "sk\<lparr>sk_batch := ?batch\<rparr>"] by (simp add: sink_op_def)
    qed
  next
    case (Some e)
    then show ?thesis using Cons.IH [of sk] by (simp add: sink_op_def)
  qed
qed

section \<open>Runs as fixed points\<close>

text \<open>
  Two operations are ordered when the first reads nothing the second writes and they write
  different variables; a program is in dependency order when that holds for every pair,
  and no operation reads its own output.
\<close>

abbreviation reads :: "witness_op \<Rightarrow> var_id set" where "reads op \<equiv> set (op_read_vars op)"
abbreviation writes :: "witness_op \<Rightarrow> var_id set" where "writes op \<equiv> set (op_output_vars op)"

definition op_before :: "witness_op \<Rightarrow> witness_op \<Rightarrow> bool" where
  "op_before o1 o2 \<longleftrightarrow> reads o1 \<inter> writes o2 = {} \<and> writes o1 \<inter> writes o2 = {}"

definition in_order :: "witness_op list \<Rightarrow> bool" where
  "in_order ops \<longleftrightarrow> list_all (\<lambda>op. reads op \<inter> writes op = {}) ops \<and> sorted_wrt op_before ops"

definition all_writes :: "witness_op list \<Rightarrow> var_id set" where
  "all_writes ops = (\<Union>op \<in> set ops. writes op)"

definition op_fixed :: "('f, 'z) libs_scheme \<Rightarrow> nat \<Rightarrow> (var_id \<Rightarrow> 'f fp option) \<Rightarrow> witness_op \<Rightarrow> bool" where
  "op_fixed L m g op \<longleftrightarrow>
    (\<exists>outs. exec_witness_op L op (\<lambda>lc. eval_lc L lc g m) m = Some (Inr outs) \<and>
      (\<forall>v \<in> writes op. g v = map_of (rev outs) v))"

lemma in_order_Cons:
  "in_order (op # ops) \<longleftrightarrow> in_order ops \<and> reads op \<inter> writes op = {} \<and>
    reads op \<inter> all_writes ops = {} \<and> writes op \<inter> all_writes ops = {}"
  by (auto simp: in_order_def op_before_def all_writes_def)

lemma all_writes_simps [simp]:
  "all_writes [] = {}" "all_writes (op # ops) = writes op \<union> all_writes ops"
  by (simp_all add: all_writes_def)

lemma get_apply_outs: "slots_get (apply_outs a outs) = slots_get a ++ map_of (rev outs)"
proof (induction outs arbitrary: a)
  case (Cons o' outs)
  then show ?case
    by (cases o') (simp add: apply_outs_def slots_get_set map_add_def fun_eq_iff split: option.splits)
qed (simp add: apply_outs_def)

lemma slots_ok_apply: "slots_ok a \<Longrightarrow> slots_ok (apply_outs a outs)"
  by (induction outs arbitrary: a) (auto simp: apply_outs_def slots_ok_set)

lemma apply_outs_append: "apply_outs a (xs @ ys) = apply_outs (apply_outs a xs) ys"
  by (simp add: apply_outs_def)

lemma get_after_op:
  assumes "exec_in L m a op = Some (Inr outs)"
  shows "v \<notin> writes op \<Longrightarrow> slots_get (apply_outs a outs) v = slots_get a v"
    "v \<in> writes op \<Longrightarrow> slots_get (apply_outs a outs) v = map_of (rev outs) v"
proof -
  have "fst ` set outs = writes op"
    using exec_outputs assms unfolding exec_in_def by (metis set_map)
  then have d: "dom (map_of (rev outs)) = writes op" by (simp add: dom_map_of_conv_image_fst)
  show "v \<notin> writes op \<Longrightarrow> slots_get (apply_outs a outs) v = slots_get a v"
    using d by (simp add: get_apply_outs map_add_dom_app_simps(3))
  show "v \<in> writes op \<Longrightarrow> slots_get (apply_outs a outs) v = map_of (rev outs) v"
    using d by (simp add: get_apply_outs map_add_dom_app_simps(1))
qed

lemma sequential_sound:
  "in_order ops \<Longrightarrow> solve_witness_sequential L m ops a = Some (Inr a') \<Longrightarrow>
   (\<forall>v. v \<notin> all_writes ops \<longrightarrow> slots_get a' v = slots_get a v) \<and> list_all (op_fixed L m (slots_get a')) ops"
proof (induction ops arbitrary: a)
  case (Cons op ops)
  obtain outs where o': "exec_in L m a op = Some (Inr outs)"
    "solve_witness_sequential L m ops (apply_outs a outs) = Some (Inr a')"
    using Cons.prems(2) by (auto simp: obind_eq_Inr)
  note ord = Cons.prems(1) [unfolded in_order_Cons]
  note IH = Cons.IH [OF conjunct1 [OF ord] o'(2)]
  note after = get_after_op [OF o'(1)]
  have "slots_get a' v = slots_get a v" if "v \<notin> writes op \<union> all_writes ops" for v
    using IH after that by simp
  moreover have "op_fixed L m (slots_get a') op"
    unfolding op_fixed_def
  proof (intro exI conjI)
    have "slots_get a' v = slots_get a v" if "v \<in> reads op" for v
      using calculation ord that by blast
    then show "exec_witness_op L op (\<lambda>lc. eval_lc L lc (slots_get a') m) m = Some (Inr outs)"
      using o'(1) exec_read_cong [of op "slots_get a'" "slots_get a" L m] by (simp add: exec_in_def)
    show "\<forall>v \<in> writes op. slots_get a' v = map_of (rev outs) v"
      using IH after ord by (metis disjoint_iff)
  qed
  ultimately show ?case using IH by simp
qed (simp add: all_writes_def)

lemma sequential_complete:
  "in_order ops \<Longrightarrow> \<forall>v. v \<notin> all_writes ops \<longrightarrow> g v = slots_get a v \<Longrightarrow> list_all (op_fixed L m g) ops \<Longrightarrow>
   \<exists>a'. solve_witness_sequential L m ops a = Some (Inr a') \<and> slots_get a' = g"
proof (induction ops arbitrary: a)
  case (Cons op ops)
  note ord = Cons.prems(1) [unfolded in_order_Cons]
  obtain outs where o': "exec_witness_op L op (\<lambda>lc. eval_lc L lc g m) m = Some (Inr outs)"
    "\<forall>v \<in> writes op. g v = map_of (rev outs) v"
    using Cons.prems(3) by (auto simp: op_fixed_def)
  have "g v = slots_get a v" if "v \<in> reads op" for v
    using Cons.prems(2) ord that by auto
  then have ex: "exec_in L m a op = Some (Inr outs)"
    using o'(1) exec_read_cong [of op g "slots_get a" L m] by (simp add: exec_in_def)
  have "\<forall>v. v \<notin> all_writes ops \<longrightarrow> g v = slots_get (apply_outs a outs) v"
  proof (intro allI impI)
    fix v assume v: "v \<notin> all_writes ops"
    show "g v = slots_get (apply_outs a outs) v"
      using v o'(2) Cons.prems(2) get_after_op [OF ex] by (cases "v \<in> writes op") simp_all
  qed
  from Cons.IH [OF _ this] Cons.prems(3) ord ex show ?case by simp
qed auto

section \<open>Levels\<close>

text \<open>A chunked run against a snapshot, on operations that do not read each other.\<close>

definition independent :: "witness_op list \<Rightarrow> bool" where
  "independent ops \<longleftrightarrow> (\<forall>o1 \<in> set ops. \<forall>o2 \<in> set ops. reads o1 \<inter> writes o2 = {})"

lemma run_chunk_append:
  "run_chunk L m s (xs @ ys) =
    obind (run_chunk L m s xs) (\<lambda>o1. obind (run_chunk L m s ys) (\<lambda>o2. Some (Inr (o1 @ o2))))"
  by (induction xs) (simp_all add: obind_assoc)

lemma sequential_independent:
  "\<forall>o1 \<in> set ops. \<forall>v \<in> reads o1. slots_get a v = slots_get s v \<Longrightarrow> independent ops \<Longrightarrow>
   solve_witness_sequential L m ops a = Some (Inr a') \<longleftrightarrow>
     (\<exists>outs. run_chunk L m s ops = Some (Inr outs) \<and> a' = apply_outs a outs)"
proof (induction ops arbitrary: a)
  case Nil
  then show ?case by (auto simp: apply_outs_def)
next
  case (Cons op ops)
  have ex: "exec_in L m a op = exec_in L m s op"
    unfolding exec_in_def using Cons.prems(1) by (intro exec_read_cong) simp
  have ind: "independent ops" using Cons.prems(2) by (simp add: independent_def)
  have IH: "solve_witness_sequential L m ops (apply_outs a o1) = Some (Inr a') \<longleftrightarrow>
      (\<exists>outs. run_chunk L m s ops = Some (Inr outs) \<and> a' = apply_outs (apply_outs a o1) outs)"
    if o1: "exec_in L m s op = Some (Inr o1)" for o1
  proof (rule Cons.IH [OF _ ind], intro ballI)
    fix o2 v assume v: "o2 \<in> set ops" "v \<in> reads o2"
    then have "v \<notin> writes op" using Cons.prems(2) by (auto simp: independent_def)
    then show "slots_get (apply_outs a o1) v = slots_get s v"
      using get_after_op(1) [OF o1 [folded ex]] Cons.prems(1) v by simp
  qed
  show ?case
    using IH by (auto simp: ex obind_eq_Inr apply_outs_append)
qed

lemma collect_results_Inr:
  "collect_results pick rs = Some (Inr xs) \<longleftrightarrow> rs = map (\<lambda>x. Some (Inr x)) xs"
proof
  assume a: "collect_results pick rs = Some (Inr xs)"
  then have n: "None \<notin> set rs"
    and e: "List.map_filter (\<lambda>r. case r of Some (Inl e) \<Rightarrow> Some e | _ \<Rightarrow> None) rs = []"
    and x: "xs = List.map_filter (\<lambda>r. case r of Some (Inr x) \<Rightarrow> Some x | _ \<Rightarrow> None) rs"
    by (auto simp: collect_results_def Let_def split: if_splits)
  show "rs = map (\<lambda>x. Some (Inr x)) xs" unfolding x using n e
    by (induction rs) (auto simp: map_filter_simps split: option.splits sum.splits)
next
  assume "rs = map (\<lambda>x. Some (Inr x)) xs"
  moreover have "List.map_filter (\<lambda>r. case r of Some (Inl e) \<Rightarrow> Some e | _ \<Rightarrow> None) (map (\<lambda>x. Some (Inr x)) xs) = []"
    "List.map_filter (\<lambda>r. case r of Some (Inr x) \<Rightarrow> Some x | _ \<Rightarrow> None) (map (\<lambda>x. Some (Inr x)) xs) = xs"
    by (induction xs) (simp_all add: map_filter_simps)
  ultimately show "collect_results pick rs = Some (Inr xs)"
    by (auto simp: collect_results_def Let_def comp_def)
qed

lemma concat_chunks: "concat (chunks n xs) = xs"
  by (induction n xs rule: chunks.induct) simp_all

lemma run_chunks_Inr:
  "(\<exists>ps. map (run_chunk L m s) cs = map (\<lambda>x. Some (Inr x)) ps \<and> concat ps = outs) \<longleftrightarrow>
   run_chunk L m s (concat cs) = Some (Inr outs)"
proof (induction cs arbitrary: outs)
  case (Cons c cs)
  show ?case
  proof
    assume "\<exists>ps. map (run_chunk L m s) (c # cs) = map (\<lambda>x. Some (Inr x)) ps \<and> concat ps = outs"
    then obtain p ps where "run_chunk L m s c = Some (Inr p)"
      "map (run_chunk L m s) cs = map (\<lambda>x. Some (Inr x)) ps" "p @ concat ps = outs"
      by (auto simp: Cons_eq_map_conv)
    moreover have "run_chunk L m s (concat cs) = Some (Inr (concat ps))"
      using Cons.IH [of "concat ps"] calculation(2) by blast
    ultimately show "run_chunk L m s (concat (c # cs)) = Some (Inr outs)"
      by (auto simp: run_chunk_append)
  next
    assume "run_chunk L m s (concat (c # cs)) = Some (Inr outs)"
    then obtain p q where p: "run_chunk L m s c = Some (Inr p)"
      "run_chunk L m s (concat cs) = Some (Inr q)" "outs = p @ q"
      by (auto simp: run_chunk_append obind_eq_Inr)
    from p(2) Cons.IH [of q] obtain ps where "map (run_chunk L m s) cs = map (\<lambda>x. Some (Inr x)) ps" "concat ps = q"
      by blast
    with p show "\<exists>ps. map (run_chunk L m s) (c # cs) = map (\<lambda>x. Some (Inr x)) ps \<and> concat ps = outs"
      by (intro exI [of _ "p # ps"]) simp
  qed
qed auto

lemma foldl_apply_outs: "foldl apply_outs a ps = apply_outs a (concat ps)"
  by (induction ps arbitrary: a) (simp_all add: apply_outs_append, simp add: apply_outs_def)

lemma run_level_iff:
  assumes "independent ops"
  shows "run_level L pick m ops a = Some (Inr a') \<longleftrightarrow> solve_witness_sequential L m ops a = Some (Inr a')"
proof (cases "length ops < PAR_LEVEL")
  case False
  have "run_level L pick m ops a = Some (Inr a') \<longleftrightarrow>
      (\<exists>ps. map (run_chunk L m a) (chunks 63 ops) = map (\<lambda>x. Some (Inr x)) ps \<and> a' = apply_outs a (concat ps))"
    using False by (auto simp: run_level_def obind_eq_Inr collect_results_Inr foldl_apply_outs)
  also have "\<dots> \<longleftrightarrow> (\<exists>outs. run_chunk L m a ops = Some (Inr outs) \<and> a' = apply_outs a outs)"
    using run_chunks_Inr [of L m a "chunks 63 ops"] unfolding concat_chunks by metis
  also have "\<dots> \<longleftrightarrow> solve_witness_sequential L m ops a = Some (Inr a')"
    using assms by (intro sequential_independent [symmetric]) simp_all
  finally show ?thesis .
qed (simp add: run_level_def)

lemma run_levels_iff:
  "\<forall>ops \<in> set levels. independent ops \<Longrightarrow>
   run_levels L pick m levels a = Some (Inr a') \<longleftrightarrow>
     solve_witness_sequential L m (concat levels) a = Some (Inr a')"
  by (induction levels arbitrary: a) (simp_all add: sequential_append obind_eq_Inr run_level_iff)

text \<open>Levels respect dependencies.\<close>

lemma op_level_above:
  "v \<in> reads op \<Longrightarrow> pa v = Some p \<Longrightarrow> p < op_level pa op"
proof -
  let ?f = "\<lambda>rv lv. case pa rv of Some p \<Rightarrow> max lv (p + 1) | None \<Rightarrow> lv"
  have mono: "lv \<le> fold ?f vs lv" for vs lv
  proof (induction vs arbitrary: lv)
    case (Cons w vs)
    have "lv \<le> ?f w lv" by (simp split: option.split)
    then show ?case using Cons [of "?f w lv"] by simp
  qed simp
  have "v \<in> set vs \<Longrightarrow> pa v = Some p \<Longrightarrow> p < fold ?f vs lv" for vs lv
  proof (induction vs arbitrary: lv)
    case (Cons w vs)
    show ?case
    proof (cases "v = w")
      case True
      then have "p < ?f w lv" using Cons.prems(2) by simp
      then show ?thesis using mono [of "?f w lv" vs] by simp
    qed (use Cons in simp)
  qed simp
  then show "v \<in> reads op \<Longrightarrow> pa v = Some p \<Longrightarrow> p < op_level pa op" by (simp add: op_level_def)
qed

lemma length_assign_levels [simp]: "length (assign_levels pa ops) = length ops"
  by (induction ops arbitrary: pa) (simp_all add: Let_def)

lemma fold_produced: "fold (\<lambda>v pa. pa(v \<mapsto> lv)) vs pa w = (if w \<in> set vs then Some lv else pa w)"
  by (induction vs arbitrary: pa) auto

lemma assign_levels_above:
  "in_order ops \<Longrightarrow> i < length ops \<Longrightarrow> v \<in> reads (ops ! i) \<Longrightarrow>
   (\<forall>p. pa v = Some p \<longrightarrow> v \<notin> all_writes (take i ops) \<longrightarrow> p < assign_levels pa ops ! i) \<and>
   (\<forall>j < i. v \<in> writes (ops ! j) \<longrightarrow> assign_levels pa ops ! j < assign_levels pa ops ! i)"
proof (induction ops arbitrary: i pa)
  case (Cons op ops)
  note ord = Cons.prems(1) [unfolded in_order_Cons]
  show ?case
  proof (cases i)
    case 0
    then show ?thesis using Cons.prems op_level_above [of v op pa] by (simp add: Let_def)
  next
    case (Suc i')
    let ?lv = "op_level pa op"
    let ?pa = "fold (\<lambda>v pa. pa(v \<mapsto> ?lv)) (op_output_vars op) pa"
    have IH: "(\<forall>p. ?pa v = Some p \<longrightarrow> v \<notin> all_writes (take i' ops) \<longrightarrow> p < assign_levels ?pa ops ! i') \<and>
       (\<forall>j < i'. v \<in> writes (ops ! j) \<longrightarrow> assign_levels ?pa ops ! j < assign_levels ?pa ops ! i')"
      using Cons.prems Suc ord by (intro Cons.IH) auto
    have disj: "v \<in> writes op \<Longrightarrow> v \<notin> all_writes (take i' ops)"
      using ord set_take_subset [of i' ops] unfolding all_writes_def by blast
    show ?thesis
    proof (intro conjI allI impI)
      fix p assume "pa v = Some p" "v \<notin> all_writes (take i (op # ops))"
      then show "p < assign_levels pa (op # ops) ! i"
        using IH Suc by (simp add: Let_def fold_produced)
    next
      fix j assume j: "j < i" "v \<in> writes ((op # ops) ! j)"
      show "assign_levels pa (op # ops) ! j < assign_levels pa (op # ops) ! i"
      proof (cases j)
        case 0
        then show ?thesis using IH Suc j disj by (simp add: Let_def fold_produced)
      next
        case (Suc j')
        then show ?thesis using IH \<open>i = Suc i'\<close> j by (simp add: Let_def)
      qed
    qed
  qed
qed simp

lemma sorted_wrt_levels:
  "sorted_wrt (\<lambda>i j. f i \<le> f j \<and> i \<noteq> j)
    (concat (map (\<lambda>lv. filter (\<lambda>idx. f idx = lv) [0..<n]) [0..<k])) \<and>
   (\<forall>i \<in> set (concat (map (\<lambda>lv. filter (\<lambda>idx. f idx = lv) [0..<n]) [0..<k])). f i < k)"
  for f :: "nat \<Rightarrow> nat"
proof (induction k)
  case (Suc k)
  have "sorted_wrt (\<lambda>i j. i < j) (filter (\<lambda>idx. f idx = k) [0..<n])"
    by (intro sorted_wrt_filter sorted_wrt_upt)
  then have "sorted_wrt (\<lambda>i j. f i \<le> f j \<and> i \<noteq> j) (filter (\<lambda>idx. f idx = k) [0..<n])"
    by (rule sorted_wrt_mono_rel [rotated]) auto
  with Suc show ?case by (auto simp: sorted_wrt_append)
qed simp

lemma level_groups_set:
  "set (concat (level_groups level)) = {0..<length level}"
proof -
  have "level ! i < fold max level 0 + 1" if "i < length level" for i
    using fold_max_ge(2) [of level 0] that by (metis Suc_eq_plus1 le_imp_less_Suc nth_mem)
  then show ?thesis by (fastforce simp: level_groups_def)
qed

text \<open>The level order is a dependency order of the same operations, and levels are independent.\<close>

lemma levels_in_order:
  fixes ops
  defines "lvs \<equiv> assign_levels (\<lambda>_. None) ops"
  defines "groups \<equiv> map (map ((!) ops)) (level_groups lvs)"
  assumes ord: "in_order ops"
  shows "in_order (concat groups)" "set (concat groups) = set ops" "\<forall>g \<in> set groups. independent g"
proof -
  let ?is = "concat (level_groups lvs)"
  have len: "length lvs = length ops" by (simp add: lvs_def)
  have set_is: "set ?is = {0..<length ops}" using level_groups_set [of lvs] len by simp
  have cg: "concat groups = map ((!) ops) ?is" by (simp add: groups_def map_concat)
  show set: "set (concat groups) = set ops"
    unfolding cg set_map set_is by (metis list.set_map map_nth set_upt)
  have pair: "reads (ops ! i) \<inter> writes (ops ! j) = {} \<or> lvs ! j < lvs ! i"
    if "i < length ops" "j < length ops" for i j
  proof (cases "j < i")
    case True
    then show ?thesis
      using assign_levels_above [OF ord that(1), where pa = "\<lambda>_. None"] unfolding lvs_def by blast
  next
    case False
    then have "reads (ops ! i) \<inter> writes (ops ! j) = {}"
      using ord that by (cases "i = j")
        (auto simp: in_order_def list_all_length op_before_def sorted_wrt_iff_nth_less)
    then show ?thesis by simp
  qed
  have wr: "writes (ops ! i) \<inter> writes (ops ! j) = {}"
    if "i < length ops" "j < length ops" "i \<noteq> j" for i j
    using ord that by (cases "i < j")
      (auto simp: in_order_def op_before_def sorted_wrt_iff_nth_less dest!: spec2 [of _ i j] spec2 [of _ j i])
  have "sorted_wrt (\<lambda>i j. lvs ! i \<le> lvs ! j \<and> i \<noteq> j) ?is"
    unfolding level_groups_def using sorted_wrt_levels [of "(!) lvs"] by blast
  then have "sorted_wrt (\<lambda>i j. op_before (ops ! i) (ops ! j)) ?is"
  proof (rule sorted_wrt_mono_rel [rotated])
    fix i j assume "i \<in> set ?is" "j \<in> set ?is" "lvs ! i \<le> lvs ! j \<and> i \<noteq> j"
    then show "op_before (ops ! i) (ops ! j)"
      using pair [of i j] wr [of i j] unfolding set_is op_before_def by auto
  qed
  moreover have "list_all (\<lambda>op. reads op \<inter> writes op = {}) (concat groups)"
    using ord set by (simp add: in_order_def list_all_iff)
  ultimately show "in_order (concat groups)" by (simp add: in_order_def cg sorted_wrt_map)
  show "\<forall>g \<in> set groups. independent g"
  proof
    fix g assume "g \<in> set groups"
    then obtain lv where "set g = (!) ops ` {i. i < length ops \<and> lvs ! i = lv}"
      by (auto simp: groups_def level_groups_def len)
    then show "independent g" using pair by (fastforce simp: independent_def)
  qed
qed

lemma parallel_iff:
  assumes "in_order ops"
  shows "(\<exists>a'. solve_witness_parallel L threads pick m ops a = Some (Inr a') \<and> slots_get a' = g) \<longleftrightarrow>
    (\<exists>a'. solve_witness_sequential L m ops a = Some (Inr a') \<and> slots_get a' = g)"
proof (cases "threads \<le> 1")
  case False
  let ?groups = "map (map ((!) ops)) (level_groups (assign_levels (\<lambda>_. None) ops))"
  note lv = levels_in_order [OF assms]
  have "solve_witness_parallel L threads pick m ops a = Some (Inr a') \<longleftrightarrow>
      solve_witness_sequential L m (concat ?groups) a = Some (Inr a')" for a'
    using False lv(3) by (simp add: solve_witness_parallel_def run_levels_iff)
  moreover have "(\<exists>a'. solve_witness_sequential L m xs a = Some (Inr a') \<and> slots_get a' = g) \<Longrightarrow>
      (\<exists>a'. solve_witness_sequential L m ys a = Some (Inr a') \<and> slots_get a' = g)"
    if "in_order xs" "in_order ys" "set xs = set ys" for xs ys
  proof -
    assume "\<exists>a'. solve_witness_sequential L m xs a = Some (Inr a') \<and> slots_get a' = g"
    then have "(\<forall>v. v \<notin> all_writes xs \<longrightarrow> g v = slots_get a v) \<and> list_all (op_fixed L m g) xs"
      using sequential_sound [OF that(1)] by blast
    then show ?thesis
      using that(3) by (intro sequential_complete [OF that(2)]) (simp_all add: all_writes_def list_all_iff)
  qed
  ultimately show ?thesis using lv(1,2) assms by metis
qed (simp add: solve_witness_parallel_def)

section \<open>The maps the entry points return\<close>

lemma into_btreemap_get:
  assumes "slots_ok slots"
  shows "bt_invar (into_btreemap slots)" "bt_get (into_btreemap slots) = slots_get slots"
proof -
  let ?kvs = "List.map_filter (\<lambda>(i, o'). map_option (\<lambda>v. (of_nat i, v)) o') (enumerate 0 slots)"
  show "bt_invar (into_btreemap slots)" by (simp add: into_btreemap_def bt_collect_get)
  have id: "unat (of_nat i :: u32) = i" if "i < length slots" for i
    using that assms by (simp add: slots_ok_def unat_of_nat take_bit_nat_eq_self)
  have mem: "(v, x) \<in> set ?kvs \<longleftrightarrow> slots_get slots v = Some x" for v x
  proof
    assume "(v, x) \<in> set ?kvs"
    then obtain i where i: "i < length slots" "slots ! i = Some x" "v = of_nat i"
      by (auto simp: map_filter_def in_set_enumerate_eq)
    then show "slots_get slots v = Some x" by (simp add: slots_get_def id)
  next
    assume "slots_get slots v = Some x"
    then have "unat v < length slots" "slots ! unat v = Some x" by (auto simp: slots_get_def split: if_splits)
    then show "(v, x) \<in> set ?kvs"
      by (auto simp: map_filter_def in_set_enumerate_eq image_iff intro!: exI [of _ "unat v"] exI [of _ "Some x"])
  qed
  have "map_of (rev ?kvs) v = slots_get slots v" for v
  proof (cases "slots_get slots v")
    case None
    then have "v \<notin> fst ` set (rev ?kvs)" using mem by fastforce
    then have "map_of (rev ?kvs) v = None" unfolding map_of_eq_None_iff .
    then show ?thesis unfolding None .
  next
    case (Some x)
    then have "(v, x) \<in> set (rev ?kvs)" by (simp only: set_rev mem)
    then obtain y where "map_of (rev ?kvs) v = Some y" by (metis weak_map_of_SomeI)
    moreover from this have "(v, y) \<in> set ?kvs" by (metis map_of_SomeD set_rev)
    ultimately show ?thesis by (simp only: mem)
  qed
  then show "bt_get (into_btreemap slots) = slots_get slots"
    unfolding into_btreemap_def bt_collect_get(2) by (rule ext)
qed

lemma into_btreemap_eq:
  "slots_ok a \<Longrightarrow> slots_ok b \<Longrightarrow> into_btreemap a = into_btreemap b \<longleftrightarrow> slots_get a = slots_get b"
  using into_btreemap_get [of a] into_btreemap_get [of b] bt_eqI by metis

lemma sequential_slots_ok:
  "slots_ok a \<Longrightarrow> solve_witness_sequential L m ops a = Some (Inr a') \<Longrightarrow> slots_ok a'"
proof (induction ops arbitrary: a)
  case (Cons op ops)
  then obtain outs where "solve_witness_sequential L m ops (apply_outs a outs) = Some (Inr a')"
    by (auto simp: obind_eq_Inr)
  then show ?case using Cons.IH slots_ok_apply [OF Cons.prems(1)] by blast
qed simp

lemma parallel_slots_ok:
  assumes "in_order ops" "slots_ok a" "solve_witness_parallel L threads pick m ops a = Some (Inr a')"
  shows "slots_ok a'"
  using assms(3) levels_in_order(3) [OF assms(1)] sequential_slots_ok [OF assms(2)]
  by (auto simp: solve_witness_parallel_def run_levels_iff split: if_splits)

lemma dense_with_len_ok: "slots_ok (dense_with_len (max_id_len vars))"
proof (cases vars)
  case (Cons v vs)
  have "fold max is i \<le> 4294967295" if "i \<le> 4294967295" "\<forall>j \<in> set is. j \<le> 4294967295" for i and "is" :: "nat list"
    using that by (induction "is" arbitrary: i) auto
  moreover have "unat (w :: u32) \<le> 4294967295" for w using unat_u32_less [of w] by simp
  ultimately have "max_id_len vars \<le> 4294967296" by (simp add: max_id_len_def Cons)
  then show ?thesis by (simp add: slots_ok_def dense_with_len_def)
qed (simp add: slots_ok_def dense_with_len_def max_id_len_def)

lemma seed_inputs_ok:
  "slots_ok a \<Longrightarrow> seed_inputs L m inputs vars a = Inr a' \<Longrightarrow> slots_ok a'"
  by (induction vars arbitrary: a) (auto split: if_splits option.splits dest: slots_ok_set)

text \<open>A seeded slot holds its variable's input; the others are empty.\<close>

lemma seed_inputs_get:
  "seed_inputs L m inputs vars a = Inr a' \<Longrightarrow>
   slots_get a' v = (if \<exists>var \<in> set vars. is_input (v_role var) \<and> v_id var = v
     then map_option (\<lambda>d. fp_from_decimal L d m) (bt_get inputs v) else slots_get a v) \<and>
   (\<forall>var \<in> set vars. is_input (v_role var) \<longrightarrow> bt_get inputs (v_id var) \<noteq> None)"
proof (induction vars arbitrary: a)
  case (Cons var vars)
  show ?case
  proof (cases "is_input (v_role var)")
    case True
    then obtain d where d: "bt_get inputs (v_id var) = Some d"
      "seed_inputs L m inputs vars (dense_set (v_id var) (fp_from_decimal L d m) a) = Inr a'"
      using Cons.prems by (auto split: option.splits)
    from Cons.IH [OF d(2)] d(1) True show ?thesis by (auto simp: slots_get_set)
  next
    case False
    then show ?thesis using Cons by simp
  qed
qed simp

lemma dense_empty: "slots_get (dense_with_len n) v = None"
  by (simp add: slots_get_def dense_with_len_def)

lemma solve_witness_iff:
  assumes "in_order wg"
  shows "solve_witness L threads pick vars wg m inputs = Some (Inr w) \<longleftrightarrow>
    (\<exists>a a'. seed_inputs L m inputs vars (dense_with_len (max_id_len vars)) = Inr a \<and>
      solve_witness_sequential L m wg a = Some (Inr a') \<and> w = into_btreemap a')"
    (is "?run \<longleftrightarrow> ?seq")
proof -
  let ?R = "\<lambda>a. if length wg \<ge> PAR_THRESHOLD then solve_witness_parallel L threads pick m wg a
      else solve_witness_sequential L m wg a"
  have run: "?run \<longleftrightarrow> (\<exists>a a'. seed_inputs L m inputs vars (dense_with_len (max_id_len vars)) = Inr a \<and>
      ?R a = Some (Inr a') \<and> w = into_btreemap a')"
    by (simp only: solve_witness_def obind_eq_Inr option.inject sum.inject) blast
  have "(\<exists>a'. ?R a = Some (Inr a') \<and> w = into_btreemap a') \<longleftrightarrow>
      (\<exists>a'. solve_witness_sequential L m wg a = Some (Inr a') \<and> w = into_btreemap a')"
    if a: "slots_ok a" for a
  proof (cases "length wg \<ge> PAR_THRESHOLD")
    case True
    have ok: "slots_ok a'" if "solve_witness_parallel L threads pick m wg a = Some (Inr a') \<or>
        solve_witness_sequential L m wg a = Some (Inr a')" for a'
      using that sequential_slots_ok [OF a] parallel_slots_ok [OF assms a] by blast
    have one: "\<exists>b. s = Some (Inr b) \<and> w = into_btreemap b"
      if "r = Some (Inr a')" "w = into_btreemap a'" "slots_ok a'"
        "\<And>b. s = Some (Inr b) \<Longrightarrow> slots_ok b"
        "\<exists>b. s = Some (Inr b) \<and> slots_get b = slots_get a'" for r s a'
    proof -
      obtain b where b: "s = Some (Inr b)" "slots_get b = slots_get a'" using \<open>\<exists>b. s = Some (Inr b) \<and> _\<close> by blast
      then have "into_btreemap a' = into_btreemap b"
        by (simp add: into_btreemap_eq [OF that(3) that(4) [OF b(1)]])
      then show ?thesis using b(1) that(2) by blast
    qed
    show ?thesis
      unfolding if_P [OF True]
    proof
      assume "\<exists>a'. solve_witness_parallel L threads pick m wg a = Some (Inr a') \<and> w = into_btreemap a'"
      then obtain a' where a': "solve_witness_parallel L threads pick m wg a = Some (Inr a')" "w = into_btreemap a'"
        by blast
      then show "\<exists>b. solve_witness_sequential L m wg a = Some (Inr b) \<and> w = into_btreemap b"
        using ok parallel_iff [OF assms, of L threads pick m a "slots_get a'"] by (intro one [OF a']) blast+
    next
      assume "\<exists>a'. solve_witness_sequential L m wg a = Some (Inr a') \<and> w = into_btreemap a'"
      then obtain a' where a': "solve_witness_sequential L m wg a = Some (Inr a')" "w = into_btreemap a'"
        by blast
      then show "\<exists>b. solve_witness_parallel L threads pick m wg a = Some (Inr b) \<and> w = into_btreemap b"
        using ok parallel_iff [OF assms, of L threads pick m a "slots_get a'"] by (intro one [OF a']) blast+
    qed
  qed simp
  then have "(\<exists>a'. ?R a = Some (Inr a') \<and> w = into_btreemap a') \<longleftrightarrow>
      (\<exists>a'. solve_witness_sequential L m wg a = Some (Inr a') \<and> w = into_btreemap a')"
    if "seed_inputs L m inputs vars (dense_with_len (max_id_len vars)) = Inr a" for a
    using seed_inputs_ok [OF dense_with_len_ok that] .
  note step = this
  show ?thesis unfolding run by (rule ex_cong1) (simp only: ex_simps step cong: conj_cong)
qed

section \<open>Checks\<close>

lemma check_from_iff:
  "check_from ok i cs = Inr () \<longleftrightarrow> list_all ok cs"
  "check_from ok i cs = Inl e \<longleftrightarrow> (\<exists>j < length cs. e = ConstraintFailed (i + j) \<and> \<not> ok (cs ! j) \<and> list_all ok (take j cs))"
proof (induction cs arbitrary: i)
  case (Cons c cs)
  {
    case 1
    then show ?case using Cons by simp
  next
    case 2
    show ?case
    proof (cases "ok c")
      case True
      have "(\<exists>j < length (c # cs). e = ConstraintFailed (i + j) \<and> \<not> ok ((c # cs) ! j) \<and> list_all ok (take j (c # cs))) \<longleftrightarrow>
          (\<exists>j < length cs. e = ConstraintFailed (i + 1 + j) \<and> \<not> ok (cs ! j) \<and> list_all ok (take j cs))"
        using True by (auto simp: less_Suc_eq_0_disj)
      then show ?thesis using True Cons(2) [of "i + 1"] by simp
    next
      case False
      then show ?thesis by (auto simp: less_Suc_eq_0_disj)
    qed
  }
qed simp_all

lemma check_from_cong: "list_all2 (\<lambda>c d. ok c \<longleftrightarrow> ok' d) cs ds \<Longrightarrow> check_from ok i cs = check_from ok' i ds"
  by (induction cs ds arbitrary: i rule: list_all2_induct) simp_all

lemma check_from_append: "list_all ok ds \<Longrightarrow> check_from ok i (cs @ ds) = check_from ok i cs"
  by (induction cs arbitrary: i) (simp_all add: check_from_iff)

context field_ctx begin

lemma expression_zero_iff:
  "asg_wf m get \<Longrightarrow> fp_is_zero L (eval_expression L e get m) \<longleftrightarrow> int m dvd expr_val (asg_val L m get) e"
  using eval_expression_val [of get e] by (simp add: fp_is_zero_val mod_eq_zero_dvd)

lemma row_zero_iff:
  assumes "asg_wf m get"
  shows "fp_is_zero L (fp_sub L (fp_mul L (eval_lc L (r_a r) get m) (eval_lc L (r_b r) get m))
      (eval_lc L (r_c r) get m)) \<longleftrightarrow> int m dvd row_val (asg_val L m get) r"
  using eval_lc_val [OF assms]
  by (simp add: fp_is_zero_val fp_sub_val fp_mul_val mod_simps row_val_def flip: mod_eq_zero_dvd)

lemma row_satisfied_iff:
  assumes "asg_wf m get"
  shows "row_satisfied L (r_a r) (r_b r) (r_c r) get m \<longleftrightarrow> int m dvd row_val (asg_val L m get) r"
proof -
  let ?a = "eval_lc L (r_a r) get m" and ?b = "eval_lc L (r_b r) get m" and ?c = "eval_lc L (r_c r) get m"
  have wf: "fp_wf m (fp_mul L ?a ?b)" "fp_wf m ?c" using eval_lc_val(1) [OF assms] fp_mul_val(1) by auto
  have "row_satisfied L (r_a r) (r_b r) (r_c r) get m \<longleftrightarrow> fp_val L (fp_mul L ?a ?b) = fp_val L ?c"
    unfolding row_satisfied_def by (rule res.val_eq_iff [OF wf])
  also have "\<dots> \<longleftrightarrow> (lc_val (asg_val L m get) (r_a r) * lc_val (asg_val L m get) (r_b r)) mod int m =
      lc_val (asg_val L m get) (r_c r) mod int m"
    using eval_lc_val [OF assms] by (simp add: fp_mul_val mod_simps)
  finally show ?thesis by (simp add: mod_eq_dvd_iff row_val_def)
qed

end

end
