(* ===== verification/Solve_Props.thy ===== *)
theory Solve_Props
  imports Witness_Run
begin

text \<open>
  The solver's guarantees, over the runs of \<open>Witness_Run\<close>: streaming and parallel execution
  agree with the sequential run, a solved witness is a fixed point of the hint program that
  extends the inputs, the checks decide the constraint system, and solving and checking the
  R1CS rows directly agrees with the flattened program.
\<close>

section \<open>Solved assignments are well formed\<close>

context field_ctx begin

lemma split_limbs_wf: "(v, x) \<in> set (split_limbs L m k n outs) \<Longrightarrow> fp_wf m x"
  by (auto simp: split_limbs_def Let_def fp_new_val)

lemma inverse_wf: "fp_inverse L x = Some y \<Longrightarrow> fp_wf m x \<Longrightarrow> fp_wf m y"
  using m_gt_1 by (cases x) (auto simp: modpow_def split: if_splits)

lemma exec_wf:
  assumes "\<And>l. fp_wf m (ev l)" "exec_witness_op L op ev m = Some (Inr outs)" "(v, x) \<in> set outs"
  shows "fp_wf m x"
  using assms(2,3) assms(1)
  by (cases op)
    (auto simp: Let_def res.ok_ops fp_new_val fp_bits_val fp_from_bigint_val
      split: if_splits option.splits dest: split_limbs_wf inverse_wf)

lemma slots_wf_apply:
  "asg_wf m (slots_get a) \<Longrightarrow> \<forall>(v, x) \<in> set outs. fp_wf m x \<Longrightarrow> asg_wf m (slots_get (apply_outs a outs))"
  by (fastforce simp: asg_wf_def get_apply_outs map_add_Some_iff dest: map_of_SomeD)

lemma sequential_wf:
  "asg_wf m (slots_get a) \<Longrightarrow> solve_witness_sequential L m ops a = Some (Inr a') \<Longrightarrow> asg_wf m (slots_get a')"
proof (induction ops arbitrary: a)
  case (Cons op ops)
  then obtain outs where o': "exec_in L m a op = Some (Inr outs)"
    "solve_witness_sequential L m ops (apply_outs a outs) = Some (Inr a')"
    by (auto simp: obind_eq_Inr)
  have "\<forall>(v, x) \<in> set outs. fp_wf m x"
    using exec_wf [OF eval_lc_val(1) [OF Cons.prems(1)] o'(1) [unfolded exec_in_def]] by blast
  then show ?case using Cons.IH [OF slots_wf_apply [OF Cons.prems(1)] o'(2)] by blast
qed simp

lemma seeded_wf:
  assumes "seed_inputs L m inputs vars (dense_with_len n) = Inr a"
  shows "asg_wf m (slots_get a)"
  using seed_inputs_get [OF assms]
  by (auto simp: asg_wf_def dense_empty fp_from_decimal_val split: if_splits)

lemma solve_witness_wf:
  assumes "in_order wg" "solve_witness L threads pick vars wg m inputs = Some (Inr w)"
  shows "asg_wf m (bt_get w)"
proof -
  obtain a a' where a: "seed_inputs L m inputs vars (dense_with_len (max_id_len vars)) = Inr a"
    "solve_witness_sequential L m wg a = Some (Inr a')" "w = into_btreemap a'"
    using assms by (auto simp: solve_witness_iff)
  have "slots_ok a'"
    using sequential_slots_ok [OF seed_inputs_ok [OF dense_with_len_ok a(1)] a(2)] .
  then show ?thesis using sequential_wf [OF seeded_wf [OF a(1)] a(2)] by (simp add: a(3) into_btreemap_get)
qed

end

lemma modulus_ctx: "num_libs L \<Longrightarrow> modulus_of_field L f = Inr m \<Longrightarrow> field_ctx L m"
  by (auto simp: modulus_of_field_def field_ctx_def field_ctx_axioms_def split: option.splits if_splits)

section \<open>The flattened program's extra operations\<close>

text \<open>What flattening adds: for each factored row a naming operation, its constraint and a variable.\<close>

lemma flatten_rows_trace:
  "flatten_rows rows st = (es, st') \<Longrightarrow> unat (fs_next st) + length rows < 2 ^ 32 \<Longrightarrow>
   \<exists>tbs xs vs. fs_witness st' = fs_witness st @ map (\<lambda>(t, b). Linear t b) tbs \<and>
     fs_extra st' = fs_extra st @ xs \<and> fs_vars st' = fs_vars st @ vs \<and>
     (\<forall>v \<in> set vs. v_role v = Derived) \<and>
     list_all2 (\<lambda>(t, b) x. \<forall>\<sigma>. expr_val \<sigma> x = lc_val \<sigma> b - \<sigma> t) tbs xs \<and>
     (\<forall>(t, b) \<in> set tbs. unat (fs_next st) \<le> unat t \<and> (\<exists>r \<in> set rows. lc_vars b \<subseteq> row_vars r)) \<and>
     sorted_wrt (\<lambda>(t, _) (u, _). unat t < unat u) tbs"
proof (induction rows arbitrary: st es)
  case Nil
  then show ?case by auto
next
  case (Cons r rows)
  from Cons.prems(1) obtain e st1 es1 where *: "flatten_row r st = (e, st1)"
    "flatten_rows rows st1 = (es1, st')" "es = e # es1"
    by (rule flatten_rows_Cons)
  from *(1) show ?case
  proof (cases rule: flatten_row_cases)
    case kept
    then show ?thesis using Cons.IH [OF *(2)] Cons.prems(2) by fastforce
  next
    case (named big x nm)
    have n: "unat (fs_next st1) = Suc (unat (fs_next st))"
      using named Cons.prems(2) by (simp add: unat_word_ariths)
    then obtain tbs xs vs where IH: "fs_witness st' = fs_witness st1 @ map (\<lambda>(t, b). Linear t b) tbs"
      "fs_extra st' = fs_extra st1 @ xs" "fs_vars st' = fs_vars st1 @ vs"
      "\<forall>v \<in> set vs. v_role v = Derived"
      "list_all2 (\<lambda>(t, b) x. \<forall>\<sigma>. expr_val \<sigma> x = lc_val \<sigma> b - \<sigma> t) tbs xs"
      "\<forall>(t, b) \<in> set tbs. unat (fs_next st1) \<le> unat t \<and> (\<exists>r \<in> set rows. lc_vars b \<subseteq> row_vars r)"
      "sorted_wrt (\<lambda>(t, _) (u, _). unat t < unat u) tbs"
      using Cons.IH [OF *(2)] Cons.prems(2) by auto
    show ?thesis
    proof (intro exI conjI)
      show "fs_witness st' = fs_witness st @ map (\<lambda>(t, b). Linear t b) ((fs_next st, big) # tbs)"
        using IH(1) named(6) by simp
      show "fs_extra st' = fs_extra st @ x # xs" using IH(2) named(4) by simp
      show "fs_vars st' = fs_vars st @ \<lparr>v_id = fs_next st, v_name = nm, v_role = Derived\<rparr> # vs"
        using IH(3) named(5) by simp
      show "sorted_wrt (\<lambda>(t, _) (u, _). unat t < unat u) ((fs_next st, big) # tbs)"
        using IH(6,7) n by auto
      show "\<forall>(t, b) \<in> set ((fs_next st, big) # tbs). unat (fs_next st) \<le> unat t \<and>
          (\<exists>r \<in> set (r # rows). lc_vars b \<subseteq> row_vars r)"
        using IH(6) n named(2) by fastforce
    qed (use IH(4,5) named(7) in auto)
  qed
qed

lemma sequential_linear:
  "\<exists>a'. solve_witness_sequential L m (map (\<lambda>(t, b). Linear t b) tbs) a = Some (Inr a')"
  by (induction tbs arbitrary: a) (auto simp: exec_in_def split: prod.split)

lemma sequential_get_cong:
  "solve_witness_sequential L m ops a = Some (Inr a') \<Longrightarrow> slots_get a = slots_get b \<Longrightarrow>
   \<exists>b'. solve_witness_sequential L m ops b = Some (Inr b') \<and> slots_get a' = slots_get b'"
proof (induction ops arbitrary: a b)
  case (Cons op ops)
  then obtain outs where o': "exec_in L m a op = Some (Inr outs)"
    "solve_witness_sequential L m ops (apply_outs a outs) = Some (Inr a')"
    by (auto simp: obind_eq_Inr)
  have "slots_get (apply_outs a outs) = slots_get (apply_outs b outs)"
    using Cons.prems(2) by (simp add: get_apply_outs)
  from Cons.IH [OF o'(2) this] o'(1) Cons.prems(2) show ?case by (simp add: exec_in_def)
qed simp

lemma seed_inputs_append:
  "\<forall>v \<in> set vs. v_role v = Derived \<Longrightarrow> seed_inputs L m inputs (vars @ vs) a = seed_inputs L m inputs vars a"
proof (induction vars arbitrary: a)
  case Nil
  then show ?case by (induction vs) auto
qed (auto split: option.splits)

lemma seed_inputs_cong:
  assumes "seed_inputs L m inputs vars (dense_with_len n) = Inr a"
  obtains b where "seed_inputs L m inputs vars (dense_with_len n') = Inr b" "slots_get b = slots_get a"
proof -
  have "\<exists>b. seed_inputs L m inputs vars c = Inr b"
    if "\<forall>var \<in> set vars. is_input (v_role var) \<longrightarrow> bt_get inputs (v_id var) \<noteq> None" for c
    using that by (induction vars arbitrary: c) auto
  then obtain b where b: "seed_inputs L m inputs vars (dense_with_len n') = Inr b"
    using seed_inputs_get [OF assms] by blast
  have "slots_get b = slots_get a"
    by (rule ext) (simp only: seed_inputs_get [OF assms, THEN conjunct1]
        seed_inputs_get [OF b, THEN conjunct1] dense_empty)
  with b show ?thesis by (rule that)
qed

section \<open>A small circuit\<close>

text \<open>\<open>y = x * x\<close> over the field of order 97, with \<open>x = 5\<close>.\<close>

definition square_circuit :: circuit_program where
  "square_circuit = \<lparr>cp_field = \<lparr>pf_name = ''custom'', pf_modulus_decimal = ''97''\<rparr>,
    cp_vars = [\<lparr>v_id = 0, v_name = ''x'', v_role = PrivateInput\<rparr>, \<lparr>v_id = 1, v_name = ''y'', v_role = Derived\<rparr>],
    cp_constraints = [\<lparr>r_a = lc_var 0, r_b = lc_var 0, r_c = lc_var 1, r_note = None\<rparr>],
    cp_witness_gen = [Product 1 (lc_var 0) (lc_var 0)]\<rparr>"

definition square_input :: "(var_id, string) btree" where
  "square_input = [(0, ''5'')]"

definition square_witness :: "(var_id, fr_ref fp) btree" where
  "square_witness = [(0, Generic 5 97), (1, Generic 25 97)]"

lemma square_modulus: "modulus_of_field ref_libs (cp_field square_circuit) = Inr 97"
  by (simp add: modulus_of_field_def square_circuit_def ref_libs_def parse_digits_def is_ascii_digit_def
      digits_value_def)

lemma square_order: "in_order (cp_witness_gen square_circuit)"
  by (simp add: in_order_def square_circuit_def op_read_vars_def lc_var_def)

lemma five_decimal: "fp_from_decimal ref_libs ''5'' 97 = Generic 5 97"
proof -
  have "digit_char 5 = CHR ''5''" by code_simp
  then have "''5'' = show_int 5" by (simp add: show_int_def show_nat.simps)
  then have "fp_val ref_libs (fp_from_decimal ref_libs ''5'' 97) = 5"
    using f97.fp_from_decimal_val(2) [of 5] by simp
  moreover have "fp_wf 97 (fp_from_decimal ref_libs ''5'' 97)" by (rule f97.fp_from_decimal_val(1))
  ultimately show ?thesis by (cases "fp_from_decimal ref_libs ''5'' 97") simp_all
qed

lemma one_97: "fp_from_const ref_libs fc_one 97 = Generic 1 97" "fp_from_const ref_libs fc_zero 97 = Generic 0 97"
proof -
  show "fp_from_const ref_libs fc_one 97 = Generic 1 97"
    using f97.fp_from_const_val [of fc_one] by (cases "fp_from_const ref_libs fc_one 97") simp_all
  show "fp_from_const ref_libs fc_zero 97 = Generic 0 97"
    using f97.fp_from_const_val [of fc_zero] by (cases "fp_from_const ref_libs fc_zero 97") simp_all
qed

lemma eval_var_97: "g v = Some (Generic k 97) \<Longrightarrow> k < 97 \<Longrightarrow> eval_lc ref_libs (lc_var v) g 97 = Generic k 97"
  by (simp add: eval_lc_def lc_var_def one_97 fp_or_zero_def)

lemma square_solved: "solve_cp ref_libs 1 hd square_circuit square_input = Some (Inr square_witness)"
proof -
  have seed: "seed_inputs ref_libs 97 square_input (cp_vars square_circuit) (dense_with_len 2) =
      Inr [Some (Generic 5 97), None]"
    by (simp add: square_input_def square_circuit_def five_decimal dense_set_def dense_with_len_def
        numeral_2_eq_2)
  have len: "max_id_len (cp_vars square_circuit) = 2" by (simp add: max_id_len_def square_circuit_def)
  have run: "solve_witness_sequential ref_libs 97 (cp_witness_gen square_circuit) [Some (Generic 5 97), None] =
      Some (Inr [Some (Generic 5 97), Some (Generic 25 97)])"
    by (simp add: square_circuit_def exec_in_def eval_var_97 slots_get_def apply_outs_def dense_set_def)
  have w: "into_btreemap [Some (Generic 5 97), Some (Generic 25 97)] = square_witness"
    by (simp add: into_btreemap_def bt_collect_def map_filter_simps bt_insert_def square_witness_def)
  show ?thesis
    unfolding solve_cp_def square_modulus obind_simps solve_witness_def len seed
    using run w by (simp add: PAR_THRESHOLD_def square_circuit_def)
qed

section \<open>Rows and the flattened program\<close>

text \<open>The hint program uses declared variables only.\<close>

definition hints_closed :: "circuit_program \<Rightarrow> bool" where
  "hints_closed cp \<longleftrightarrow>
    list_all (\<lambda>op. reads op \<union> writes op \<subseteq> v_id ` set (cp_vars cp)) (cp_witness_gen cp)"

lemma op_read_Linear: "reads (Linear t b) = lc_vars b" "writes (Linear t b) = {t}"
  by (auto simp: op_read_vars_def lc_vars_def)

text \<open>The extended hint program is still in dependency order.\<close>

lemma linear_ops_in_order:
  assumes "in_order ops" "\<forall>op \<in> set ops. \<forall>v \<in> reads op \<union> writes op. unat v < n"
    "\<forall>(t, b) \<in> set tbs. n \<le> unat t \<and> (\<forall>v \<in> lc_vars b. unat v < n)"
    "sorted_wrt (\<lambda>(t, _) (u, _). unat t < unat u) tbs"
  shows "in_order (ops @ map (\<lambda>(t, b). Linear t b) tbs)"
proof -
  have self: "reads op \<inter> writes op = {}" if "op \<in> set (map (\<lambda>(t, b). Linear t b) tbs)" for op
    using that assms(3) by (fastforce simp: op_read_Linear)
  have "sorted_wrt op_before (map (\<lambda>(t, b). Linear t b) tbs)"
    unfolding sorted_wrt_map using assms(4)
  proof (rule sorted_wrt_mono_rel [rotated])
    fix x y assume "x \<in> set tbs" "y \<in> set tbs" and lt: "(\<lambda>(t, _) (u, _). unat t < unat u) x y"
    show "op_before (case x of (t, b) \<Rightarrow> Linear t b) (case y of (t, b) \<Rightarrow> Linear t b)"
    proof -
      obtain t b u c where xy: "x = (t, b)" "y = (u, c)" by (cases x; cases y)
      then have "t \<noteq> u" using lt by auto
      moreover have "unat u \<ge> n" "\<forall>v \<in> lc_vars b. unat v < n"
        using assms(3) \<open>x \<in> set tbs\<close> \<open>y \<in> set tbs\<close> xy by auto
      then have "u \<notin> lc_vars b" by (meson leD)
      ultimately show ?thesis by (simp add: xy op_before_def op_read_Linear)
    qed
  qed
  moreover have "op_before o1 (Linear t b)" if "o1 \<in> set ops" "(t, b) \<in> set tbs" for o1 t b
  proof -
    have "unat t \<ge> n" using assms(3) that(2) by auto
    then have "t \<notin> reads o1" "t \<notin> writes o1" using assms(2) that(1) by (meson UnI1 UnI2 leD)+
    then show ?thesis by (simp add: op_before_def op_read_Linear)
  qed
  ultimately have "sorted_wrt op_before (ops @ map (\<lambda>(t, b). Linear t b) tbs)"
    using assms(1) by (auto simp: in_order_def sorted_wrt_append)
  moreover have "\<forall>op \<in> set (ops @ map (\<lambda>(t, b). Linear t b) tbs). reads op \<inter> writes op = {}"
    using assms(1) self unfolding in_order_def list_all_iff set_append by blast
  ultimately show ?thesis by (simp only: in_order_def list_all_iff simp_thms)
qed

lemma asg_val_cong: "g v = g' v \<Longrightarrow> asg_val L m g v = asg_val L m g' v"
  by (simp add: asg_val_def)

text \<open>A solved assignment of the flattened program satisfies the factor constraints and agrees with
  the circuit's own solution on its variables.\<close>

lemma solve_flattened:
  assumes ctx: "field_ctx L m" and mod: "modulus_of_field L (cp_field cp) = Inr m"
    and closed: "cp_closed cp" "hints_closed cp" and ord: "in_order (cp_witness_gen cp)"
    and run: "solve_cp L threads pick cp inputs = Some (Inr w)"
    and fl: "flatten_rows (cp_constraints cp) \<lparr>fs_next = next_id (cp_vars cp), fs_vars = cp_vars cp,
      fs_witness = cp_witness_gen cp, fs_extra = []\<rparr> = (es, st)"
  shows "\<exists>w'. solve L threads pick (to_primitive cp) inputs = Some (Inr w') \<and> asg_wf m (bt_get w') \<and>
    (\<forall>v \<in> set (cp_vars cp). bt_get w' (v_id v) = bt_get w (v_id v)) \<and>
    (\<forall>x \<in> set (fs_extra st). int m dvd expr_val (asg_val L m (bt_get w')) x)"
proof -
  have ids: "\<forall>v \<in> v_id ` set (cp_vars cp). unat v < unat (next_id (cp_vars cp))"
    using closed(1) next_id_fresh by (auto simp: cp_closed_def list_all_iff)
  have rows: "\<forall>r \<in> set (cp_constraints cp). row_vars r \<subseteq> v_id ` set (cp_vars cp)"
    using closed(1) by (simp add: cp_closed_def list_all_iff)
  obtain tbs vs where tr: "fs_witness st = cp_witness_gen cp @ map (\<lambda>(t, b). Linear t b) tbs"
    "fs_vars st = cp_vars cp @ vs" "\<forall>v \<in> set vs. v_role v = Derived"
    "list_all2 (\<lambda>(t, b) x. \<forall>\<sigma>. expr_val \<sigma> x = lc_val \<sigma> b - \<sigma> t) tbs (fs_extra st)"
    "\<forall>(t, b) \<in> set tbs. unat (next_id (cp_vars cp)) \<le> unat t \<and> (\<exists>r \<in> set (cp_constraints cp). lc_vars b \<subseteq> row_vars r)"
    "sorted_wrt (\<lambda>(t, _) (u, _). unat t < unat u) tbs"
    using flatten_rows_trace [OF fl] closed(1) by (auto simp: cp_closed_def)
  let ?lin = "map (\<lambda>(t, b). Linear t b) tbs"
  have fresh: "\<forall>(t, b) \<in> set tbs. unat (next_id (cp_vars cp)) \<le> unat t \<and>
      (\<forall>v \<in> lc_vars b. unat v < unat (next_id (cp_vars cp)))"
    using tr(5) rows ids by fastforce
  have ord': "in_order (cp_witness_gen cp @ ?lin)"
  proof (rule linear_ops_in_order [OF ord _ fresh tr(6)])
    show "\<forall>op \<in> set (cp_witness_gen cp). \<forall>v \<in> reads op \<union> writes op. unat v < unat (next_id (cp_vars cp))"
      using closed(2) ids unfolding hints_closed_def list_all_iff by blast
  qed
  obtain a a' where a: "seed_inputs L m inputs (cp_vars cp) (dense_with_len (max_id_len (cp_vars cp))) = Inr a"
    "solve_witness_sequential L m (cp_witness_gen cp) a = Some (Inr a')" "w = into_btreemap a'"
    using run ord by (auto simp: solve_cp_def mod solve_witness_iff)
  let ?n = "max_id_len (fs_vars st)"
  obtain b where b: "seed_inputs L m inputs (fs_vars st) (dense_with_len ?n) = Inr b" "slots_get b = slots_get a"
    using seed_inputs_cong [OF a(1), of ?n] seed_inputs_append [OF tr(3)] unfolding tr(2) by metis
  obtain b' where b': "solve_witness_sequential L m (cp_witness_gen cp) b = Some (Inr b')" "slots_get b' = slots_get a'"
    using sequential_get_cong [OF a(2) b(2) [symmetric]] by metis
  obtain c where c: "solve_witness_sequential L m ?lin b' = Some (Inr c)" using sequential_linear by blast
  have seq: "solve_witness_sequential L m (cp_witness_gen cp @ ?lin) b = Some (Inr c)"
    by (simp add: sequential_append b' c)
  have "solve L threads pick (to_primitive cp) inputs = Some (Inr (into_btreemap c))"
    using to_primitive_parts b(1) seq ord' fl
    by (simp add: solve_def modulus_of_def to_primitive_def mod solve_witness_iff tr(1))
  moreover have okc: "slots_ok c" "slots_ok a'"
    using sequential_slots_ok [OF seed_inputs_ok [OF dense_with_len_ok b(1)] seq]
      sequential_slots_ok [OF seed_inputs_ok [OF dense_with_len_ok a(1)] a(2)] by auto
  then have gets: "bt_get (into_btreemap c) = slots_get c" "bt_get w = slots_get a'"
    by (simp_all add: into_btreemap_get a(3))
  moreover have wf: "asg_wf m (slots_get c)"
    using field_ctx.sequential_wf [OF ctx field_ctx.seeded_wf [OF ctx b(1)] seq] .
  moreover have "slots_get c (v_id v) = slots_get a' (v_id v)" if "v \<in> set (cp_vars cp)" for v
  proof -
    have "in_order ?lin" using ord' by (auto simp: in_order_def sorted_wrt_append)
    moreover have "v_id v \<notin> all_writes ?lin"
      using fresh ids that by (fastforce simp: all_writes_def)
    ultimately show ?thesis using sequential_sound [OF _ c] b'(2) by simp
  qed
  moreover have "int m dvd expr_val (asg_val L m (slots_get c)) x" if x: "x \<in> set (fs_extra st)" for x
  proof -
    obtain t b where tb: "(t, b) \<in> set tbs" "\<And>\<sigma>. expr_val \<sigma> x = lc_val \<sigma> b - \<sigma> t"
      using list_all2_right [OF tr(4) x] by auto
    have "op_fixed L m (slots_get c) (Linear t b)"
      using sequential_sound [OF ord' seq] tb(1) by (fastforce simp: list_all_iff)
    then have "slots_get c t = Some (eval_lc L b (slots_get c) m)" by (simp add: op_fixed_def)
    then have "asg_val L m (slots_get c) t = lc_val (asg_val L m (slots_get c)) b mod int m"
      by (simp add: asg_val_def fp_or_zero_def field_ctx.eval_lc_val [OF ctx wf])
    then show ?thesis by (simp add: tb(2) mod_eq_dvd_iff [symmetric])
  qed
  ultimately show ?thesis by auto
qed

section \<open>Properties\<close>

text \<open>C28: streaming the hint program in batches of bounded size gives exactly the result of the
  sequential run of the whole program, errors included.\<close>

theorem streaming_equals_sequential:
  "solve_witness_streamed_dense L vars n m inputs ops =
    obind (Some (seed_inputs L m inputs vars (dense_with_len n))) (solve_witness_sequential L m ops)"
proof (cases "seed_inputs L m inputs vars (dense_with_len n)")
  case (Inr a)
  have "solve_witness_streamed_dense L vars n m inputs ops =
      (case feed_sink L m \<lparr>sk_batch = [], sk_err = None, sk_assign = a\<rparr> ops of
        None \<Rightarrow> None | Some sk \<Rightarrow> sink_result L m sk)"
    unfolding solve_witness_streamed_dense_def Inr sink_result_def obind_simps ..
  then show ?thesis unfolding feed_sink_result by (simp add: Inr)
qed (simp add: solve_witness_streamed_dense_def)

text \<open>C27: solving on many threads, level by level with chunked snapshots, returns an assignment
  exactly when solving on one thread does, and the same one, for a hint program in dependency
  order with one writer per variable; the order in which threads report errors does not matter.\<close>

theorem parallel_solve_agrees:
  assumes "in_order witness_gen"
  shows "solve_witness L threads pick vars witness_gen m inputs = Some (Inr w) \<longleftrightarrow>
    solve_witness L 1 pick' vars witness_gen m inputs = Some (Inr w)"
  by (simp only: solve_witness_iff [OF assms])

theorem parallel_solve_agrees_witness:
  "solve_witness ref_libs 8 last (cp_vars square_circuit) (cp_witness_gen square_circuit) 97 square_input =
    Some (Inr square_witness)"
  using parallel_solve_agrees [OF square_order, of ref_libs 8 last _ 97 square_input square_witness hd]
    square_solved by (simp add: solve_cp_def square_modulus)

text \<open>C30: what solving returns: an assignment that holds every input's decimal reduced to the field,
  that is a fixed point of every hint operation (each operation, run on the final assignment,
  emits the values the assignment holds), and whose values are all reduced.\<close>

theorem solved_fixed_point:
  assumes "field_ctx L m" "in_order witness_gen"
    "list_all (\<lambda>var. is_input (v_role var) \<longrightarrow> v_id var \<notin> all_writes witness_gen) vars"
    "solve_witness L threads pick vars witness_gen m inputs = Some (Inr w)"
  shows "list_all (\<lambda>var. is_input (v_role var) \<longrightarrow>
      (\<exists>d. bt_get inputs (v_id var) = Some d \<and> bt_get w (v_id var) = Some (fp_from_decimal L d m))) vars \<and>
    list_all (op_fixed L m (bt_get w)) witness_gen \<and> asg_wf m (bt_get w)"
proof -
  obtain a a' where a: "seed_inputs L m inputs vars (dense_with_len (max_id_len vars)) = Inr a"
    "solve_witness_sequential L m witness_gen a = Some (Inr a')" "w = into_btreemap a'"
    using assms(2,4) by (auto simp: solve_witness_iff)
  have "slots_ok a'" using sequential_slots_ok [OF seed_inputs_ok [OF dense_with_len_ok a(1)] a(2)] .
  then have w: "bt_get w = slots_get a'" by (simp add: a(3) into_btreemap_get)
  note snd = sequential_sound [OF assms(2) a(2)]
  have "\<exists>d. bt_get inputs (v_id var) = Some d \<and> bt_get w (v_id var) = Some (fp_from_decimal L d m)"
    if "var \<in> set vars" "is_input (v_role var)" for var
  proof -
    have "slots_get a' (v_id var) = slots_get a (v_id var)"
      using snd assms(3) that by (auto simp: list_all_iff)
    then show ?thesis using seed_inputs_get [OF a(1), of "v_id var"] that w by auto
  qed
  then show ?thesis
    using snd field_ctx.solve_witness_wf [OF assms(1,2,4)] by (auto simp: w list_all_iff)
qed

theorem solved_fixed_point_witness:
  "list_all (op_fixed ref_libs 97 (bt_get square_witness)) (cp_witness_gen square_circuit)"
proof -
  have "solve_witness ref_libs 1 hd (cp_vars square_circuit) (cp_witness_gen square_circuit) 97 square_input =
      Some (Inr square_witness)"
    using square_solved by (simp add: solve_cp_def square_modulus)
  moreover have "list_all (\<lambda>var. is_input (v_role var) \<longrightarrow>
      v_id var \<notin> all_writes (cp_witness_gen square_circuit)) (cp_vars square_circuit)"
    by (simp add: square_circuit_def)
  ultimately show ?thesis using solved_fixed_point [OF f97.field_ctx_axioms square_order] by blast
qed

text \<open>checking a flattened program decides it: the check succeeds exactly when every constraint
  vanishes modulo the field's modulus at the assignment, and otherwise names the first that
  does not.\<close>

theorem check_decides:
  assumes "num_libs L" "modulus_of L pp = Inr m" "asg_wf m (bt_get w)"
  shows "(check L pp w = Inr () \<longleftrightarrow> pp_holds (int m) (asg_val L m (bt_get w)) pp) \<and>
    (check L pp w = Inl e \<longleftrightarrow> (\<exists>i < length (pp_constraints pp). e = ConstraintFailed i \<and>
      \<not> int m dvd expr_val (asg_val L m (bt_get w)) (pp_constraints pp ! i) \<and>
      list_all (\<lambda>c. int m dvd expr_val (asg_val L m (bt_get w)) c) (take i (pp_constraints pp))))"
proof -
  have ctx: "field_ctx L m" using modulus_ctx assms(1,2) by (auto simp: modulus_of_def)
  show ?thesis
    using assms(2) by (simp add: check_def check_from_iff pp_holds_def
        field_ctx.expression_zero_iff [OF ctx assms(3)])
qed

lemma square_wf: "asg_wf 97 (bt_get square_witness)"
  by (auto simp: asg_wf_def square_witness_def split: if_splits)

lemma square_holds: "cp_holds 97 (asg_val ref_libs 97 (bt_get square_witness)) square_circuit"
  by (simp add: cp_holds_def square_circuit_def row_val_def asg_val_def square_witness_def fp_or_zero_def fp_val_def)

theorem check_decides_witness:
  "check ref_libs (to_primitive square_circuit) square_witness = Inr ()"
proof -
  have "modulus_of ref_libs (to_primitive square_circuit) = Inr 97"
    using square_modulus by (simp add: modulus_of_def to_primitive_def split: prod.split)
  moreover have "pp_holds 97 (asg_val ref_libs 97 (bt_get square_witness)) (to_primitive square_circuit)"
    using square_holds by (simp add: cp_holds_def pp_holds_def to_primitive_def flatten_row_def
        square_circuit_def lc_var_def MAX_PRODUCTS_def row_val_def)
  ultimately show ?thesis
    using check_decides [OF ref.num_libs_axioms _ square_wf, of "to_primitive square_circuit"] by simp
qed

text \<open>C32: checking R1CS rows decides them, row by row: \<^verbatim>\<open>check_cp\<close> succeeds exactly when every
  row holds modulo the modulus and otherwise names the first that fails, and the streaming
  check's \<^verbatim>\<open>row_satisfied\<close> is the same test.\<close>

theorem check_cp_decides:
  assumes "num_libs L" "modulus_of_field L (cp_field cp) = Inr m" "asg_wf m (bt_get w)"
  shows "(check_cp L cp w = Inr () \<longleftrightarrow> cp_holds (int m) (asg_val L m (bt_get w)) cp) \<and>
    (check_cp L cp w = Inl e \<longleftrightarrow> (\<exists>i < length (cp_constraints cp). e = ConstraintFailed i \<and>
      \<not> int m dvd row_val (asg_val L m (bt_get w)) (cp_constraints cp ! i) \<and>
      list_all (\<lambda>r. int m dvd row_val (asg_val L m (bt_get w)) r) (take i (cp_constraints cp)))) \<and>
    (row_satisfied L (r_a r) (r_b r) (r_c r) (bt_get w) m \<longleftrightarrow> int m dvd row_val (asg_val L m (bt_get w)) r)"
proof -
  have ctx: "field_ctx L m" using modulus_ctx assms(1,2) by auto
  show ?thesis
    using assms(2) by (simp add: check_cp_def check_from_iff cp_holds_def Let_def
        field_ctx.row_zero_iff [OF ctx assms(3)] field_ctx.row_satisfied_iff [OF ctx assms(3)])
qed

theorem check_cp_decides_witness:
  "check_cp ref_libs square_circuit square_witness = Inr ()"
  using check_cp_decides [OF ref.num_libs_axioms square_modulus square_wf] square_holds by simp

text \<open>C31: solving and checking succeeds only with a satisfying assignment: what
  \<^verbatim>\<open>solve_and_check\<close> returns makes every constraint of the program zero modulo its modulus.\<close>

theorem solve_and_check_sound:
  assumes "num_libs L" "in_order (pp_witness_gen pp)"
    "solve_and_check L threads pick pp inputs = Some (Inr w)"
  shows "\<exists>m. modulus_of L pp = Inr m \<and> asg_wf m (bt_get w) \<and> pp_holds (int m) (asg_val L m (bt_get w)) pp"
proof -
  obtain m where m: "modulus_of L pp = Inr m"
    "solve_witness L threads pick (pp_vars pp) (pp_witness_gen pp) m inputs = Some (Inr w)"
    "check L pp w = Inr ()"
    using assms(3) by (auto simp: solve_and_check_def solve_def obind_eq_Inr rbind_eq_Inr)
  have ctx: "field_ctx L m" using modulus_ctx assms(1) m(1) by (auto simp: modulus_of_def)
  have wf: "asg_wf m (bt_get w)" using field_ctx.solve_witness_wf [OF ctx assms(2) m(2)] .
  have "pp_holds (int m) (asg_val L m (bt_get w)) pp"
    using m(1,3) by (simp add: check_def check_from_iff pp_holds_def
        field_ctx.expression_zero_iff [OF ctx wf])
  with m(1) wf show ?thesis by blast
qed

lemma square_primitive: "pp_vars (to_primitive square_circuit) = cp_vars square_circuit"
  "pp_witness_gen (to_primitive square_circuit) = cp_witness_gen square_circuit"
  "pp_constraints (to_primitive square_circuit) = [expr_from_r1cs (lc_var 0) (lc_var 0) (lc_var 1) None]"
  by (simp_all add: to_primitive_def flatten_row_def square_circuit_def lc_var_def MAX_PRODUCTS_def)

theorem solve_and_check_sound_witness:
  "\<exists>m. modulus_of ref_libs (to_primitive square_circuit) = Inr m \<and>
    pp_holds (int m) (asg_val ref_libs m (bt_get square_witness)) (to_primitive square_circuit)"
proof -
  have mod: "modulus_of ref_libs (to_primitive square_circuit) = Inr 97"
    using square_modulus by (simp add: modulus_of_def to_primitive_def split: prod.split)
  have "solve ref_libs 1 hd (to_primitive square_circuit) square_input = Some (Inr square_witness)"
    using square_solved by (simp add: solve_def mod square_primitive solve_cp_def square_modulus)
  moreover have "check ref_libs (to_primitive square_circuit) square_witness = Inr ()"
    unfolding check_def mod rbind_simps square_primitive check_from_iff list.pred_inject
      f97.expression_zero_iff [OF square_wf] expr_from_r1cs_val
    by (simp add: asg_val_def square_witness_def fp_or_zero_def fp_val_def)
  ultimately show ?thesis
    using solve_and_check_sound [OF ref.num_libs_axioms, of "to_primitive square_circuit" 1 hd square_input square_witness]
      square_order by (auto simp: square_primitive(2) solve_and_check_def)
qed

text \<open>C9: the R1CS path and the flattened path agree. When the circuit's own hint program solves,
  so does the flattened program's with its extra naming operations, the two witnesses agree on
  the circuit's variables, and the two checks return the same verdict, down to the index of the
  first failing row.\<close>

theorem r1cs_path_agrees:
  assumes "num_libs L" "modulus_of_field L (cp_field cp) = Inr m"
    "cp_closed cp" "hints_closed cp" "in_order (cp_witness_gen cp)"
    "solve_cp L threads pick cp inputs = Some (Inr w)"
  shows "\<exists>w'. solve L threads pick (to_primitive cp) inputs = Some (Inr w') \<and>
    list_all (\<lambda>v. bt_get w' (v_id v) = bt_get w (v_id v)) (cp_vars cp) \<and>
    check L (to_primitive cp) w' = check_cp L cp w"
proof -
  have ctx: "field_ctx L m" using modulus_ctx assms(1,2) by auto
  obtain es st where fl: "flatten_rows (cp_constraints cp) \<lparr>fs_next = next_id (cp_vars cp),
      fs_vars = cp_vars cp, fs_witness = cp_witness_gen cp, fs_extra = []\<rparr> = (es, st)"
    and cs: "pp_constraints (to_primitive cp) = es @ fs_extra st"
    by (rule to_primitive_parts)
  obtain w' where w': "solve L threads pick (to_primitive cp) inputs = Some (Inr w')" "asg_wf m (bt_get w')"
    "\<forall>v \<in> set (cp_vars cp). bt_get w' (v_id v) = bt_get w (v_id v)"
    "\<forall>x \<in> set (fs_extra st). int m dvd expr_val (asg_val L m (bt_get w')) x"
    using solve_flattened [OF ctx assms(2-6) fl] by blast
  have wf: "asg_wf m (bt_get w)"
    using assms(2,6) field_ctx.solve_witness_wf [OF ctx assms(5)] by (simp add: solve_cp_def)
  let ?\<sigma> = "asg_val L m (bt_get w)" and ?\<sigma>' = "asg_val L m (bt_get w')"
  have row: "row_val ?\<sigma>' r = row_val ?\<sigma> r" if r: "r \<in> set (cp_constraints cp)" for r
  proof (rule row_val_cong)
    fix v assume "v \<in> row_vars r"
    then have "v \<in> v_id ` set (cp_vars cp)" using assms(3) r by (auto simp: cp_closed_def list_all_iff)
    then show "?\<sigma>' v = ?\<sigma> v" using w'(3) by (intro asg_val_cong) auto
  qed
  have "list_all2 (\<lambda>e r. int m dvd expr_val ?\<sigma>' e \<longleftrightarrow> int m dvd row_val ?\<sigma> r) es (cp_constraints cp)"
    using flatten_rows_iff [OF fl w'(4)] row by (auto simp: list_all2_conv_all_nth)
  then have "check_from (\<lambda>e. int m dvd expr_val ?\<sigma>' e) 0 (es @ fs_extra st) =
      check_from (\<lambda>r. int m dvd row_val ?\<sigma> r) 0 (cp_constraints cp)"
    using w'(4) by (subst check_from_append) (auto simp: list_all_iff intro: check_from_cong)
  moreover have "modulus_of L (to_primitive cp) = Inr m"
    using assms(2) by (simp add: modulus_of_def to_primitive_def split: prod.split)
  ultimately have "check L (to_primitive cp) w' = check_cp L cp w"
    using assms(2) by (simp add: check_def check_cp_def cs Let_def
        field_ctx.expression_zero_iff [OF ctx w'(2)] field_ctx.row_zero_iff [OF ctx wf])
  with w'(1,3) show ?thesis by (auto simp: list_all_iff)
qed

lemma square_closed: "cp_closed square_circuit" "hints_closed square_circuit"
  by (simp_all add: cp_closed_def hints_closed_def square_circuit_def row_vars_def lc_vars_def lc_var_def
      next_id_def op_read_vars_def)

theorem r1cs_path_agrees_witness:
  "\<exists>w'. solve ref_libs 1 hd (to_primitive square_circuit) square_input = Some (Inr w') \<and>
    check ref_libs (to_primitive square_circuit) w' = check_cp ref_libs square_circuit square_witness"
  using r1cs_path_agrees [OF ref.num_libs_axioms square_modulus square_closed square_order square_solved]
  by blast

end
