(* ===== verification/Analyzer.thy ===== *)
theory Analyzer
  imports Solve_Props
begin

text \<open>
  The under-constraint analyzer of \<^verbatim>\<open>solver.rs\<close>: each constraint as a polynomial in one
  variable with the others fixed at the honest witness, the scan for a pinning linear
  constraint and the second roots of the quadratic ones, on expressions and on R1CS rows.

  Shown: the univariate reduction is exact; the row-at-a-time reduction gives the same
  triples; and over a prime field the verdict is exact: a derived variable is reported iff
  another value of it satisfies every constraint.
\<close>

section \<open>Univariate reduction\<close>

type_synonym 'f poly2 = "'f fp \<times> 'f fp \<times> 'f fp"

definition uni_mul_term :: "('f, 'z) libs_scheme \<Rightarrow> nat \<Rightarrow> var_id \<Rightarrow> (var_id \<Rightarrow> 'f fp option) \<Rightarrow>
    'f poly2 \<Rightarrow> mul_term \<Rightarrow> 'f poly2" where
  "uni_mul_term L m v get p mt =
    (let (a, b, c) = p;
         coeff = fp_from_const L (m_coeff mt) m;
         val = (\<lambda>w. fp_or_zero L m (get w))
     in if m_left mt = v \<and> m_right mt = v then (fp_add L a coeff, b, c)
        else if m_left mt = v then (a, fp_add L b (fp_mul L coeff (val (m_right mt))), c)
        else if m_right mt = v then (a, fp_add L b (fp_mul L coeff (val (m_left mt))), c)
        else (a, b, fp_add L c (fp_mul L (fp_mul L coeff (val (m_left mt))) (val (m_right mt)))))"

definition uni_linear_term :: "('f, 'z) libs_scheme \<Rightarrow> nat \<Rightarrow> var_id \<Rightarrow> (var_id \<Rightarrow> 'f fp option) \<Rightarrow>
    'f poly2 \<Rightarrow> linear_term \<Rightarrow> 'f poly2" where
  "uni_linear_term L m v get p lt =
    (let (a, b, c) = p; coeff = fp_from_const L (l_coeff lt) m
     in if l_var lt = v then (a, fp_add L b coeff, c)
        else (a, b, fp_add L c (fp_mul L coeff (fp_or_zero L m (get (l_var lt))))))"

definition univariate :: "('f, 'z) libs_scheme \<Rightarrow> expression \<Rightarrow> var_id \<Rightarrow> (var_id \<Rightarrow> 'f fp option) \<Rightarrow>
    nat \<Rightarrow> 'f poly2" where
  "univariate L expr v get m =
    (let z = fp_zero L m;
         p = foldl (uni_mul_term L m v get) (z, z, z) (e_mul_terms expr);
         (a, b, c) = foldl (uni_linear_term L m v get) p (e_linear_terms expr)
     in (a, b, fp_add L c (fp_from_const L (e_constant expr) m)))"

text \<open>\<^verbatim>\<open>split\<close>: a combination's coefficient of \<open>v\<close> and the value of the rest.\<close>

definition lc_split :: "('f, 'z) libs_scheme \<Rightarrow> var_id \<Rightarrow> (var_id \<Rightarrow> 'f fp option) \<Rightarrow> nat \<Rightarrow> lin_comb \<Rightarrow>
    'f fp \<times> 'f fp" where
  "lc_split L v get m lc =
    foldl (\<lambda>(coeff_v, rest) t.
        let coeff = fp_from_const L (t_coeff t) m in
        if t_var t = v then (fp_add L coeff_v coeff, rest)
        else (coeff_v, fp_add L rest (fp_mul L coeff (fp_or_zero L m (get (t_var t))))))
      (fp_zero L m, fp_from_const L (lc_const lc) m) (lc_terms lc)"

definition poly_of_splits :: "('f, 'z) libs_scheme \<Rightarrow> 'f fp \<times> 'f fp \<Rightarrow> 'f fp \<times> 'f fp \<Rightarrow>
    'f fp \<times> 'f fp \<Rightarrow> 'f poly2" where
  "poly_of_splits L sa sb sc =
    (let (av, a0) = sa; (bv, b0) = sb; (cv, c0) = sc
     in (fp_mul L av bv, fp_sub L (fp_add L (fp_mul L av b0) (fp_mul L a0 bv)) cv,
         fp_sub L (fp_mul L a0 b0) c0))"

definition univariate_r1cs :: "('f, 'z) libs_scheme \<Rightarrow> r1cs_row \<Rightarrow> var_id \<Rightarrow> (var_id \<Rightarrow> 'f fp option) \<Rightarrow>
    nat \<Rightarrow> 'f poly2" where
  "univariate_r1cs L row v get m =
    poly_of_splits L (lc_split L v get m (r_a row)) (lc_split L v get m (r_b row)) (lc_split L v get m (r_c row))"

text \<open>All variables of a row at once: \<open>full\<close> and the coefficient map, per side.\<close>

type_synonym 'f row_acc = "'f fp list \<times> (var_id, 'f fp list) btree"

definition row_term :: "('f, 'z) libs_scheme \<Rightarrow> (var_id \<Rightarrow> 'f fp option) \<Rightarrow> nat \<Rightarrow> nat \<Rightarrow>
    'f row_acc \<Rightarrow> lc_term \<Rightarrow> 'f row_acc" where
  "row_term L get m i acc t =
    (let (full, coeffs) = acc; zero = fp_zero L m; coeff = fp_from_const L (t_coeff t) m
     in (full[i := fp_add L (full ! i) (fp_mul L coeff (fp_or_zero L m (get (t_var t))))],
         bt_entry (t_var t)
           (\<lambda>own. let own = (case own of Some o' \<Rightarrow> o' | None \<Rightarrow> replicate 3 zero)
                  in Some (own[i := fp_add L (own ! i) coeff])) coeffs))"

definition row_side :: "('f, 'z) libs_scheme \<Rightarrow> (var_id \<Rightarrow> 'f fp option) \<Rightarrow> nat \<Rightarrow>
    'f row_acc \<Rightarrow> nat \<times> lin_comb \<Rightarrow> 'f row_acc" where
  "row_side L get m acc ilc =
    (let (full, coeffs) = acc; (i, lc) = ilc
     in foldl (row_term L get m i) (full[i := fp_from_const L (lc_const lc) m], coeffs) (lc_terms lc))"

definition univariate_r1cs_row :: "('f, 'z) libs_scheme \<Rightarrow> r1cs_row \<Rightarrow> (var_id \<Rightarrow> 'f fp option) \<Rightarrow> nat \<Rightarrow>
    (var_id \<times> 'f poly2) list" where
  "univariate_r1cs_row L row get m =
    (let (full, coeffs) = foldl (row_side L get m) (replicate 3 (fp_zero L m), [])
           (enumerate 0 [r_a row, r_b row, r_c row])
     in map (\<lambda>(v, own). let x = fp_or_zero L m (get v) in
          (v, poly_of_splits L
            (own ! 0, fp_sub L (full ! 0) (fp_mul L (own ! 0) x))
            (own ! 1, fp_sub L (full ! 1) (fp_mul L (own ! 1) x))
            (own ! 2, fp_sub L (full ! 2) (fp_mul L (own ! 2) x)))) coeffs)"

section \<open>The verdict\<close>

record under_constrained =
  uc_var :: var_id
  uc_name :: string
  uc_reason :: string

definition NO_REFERENCE :: string where
  "NO_REFERENCE = ''no constraint references this variable''"

definition FREE_VARIABLE :: string where
  "FREE_VARIABLE = ''variable'' @ [CHR 0x27] @ ''s coefficient is zero in every referencing constraint (free)''"

definition TWO_VALUED :: string where
  "TWO_VALUED = ''a different value also satisfies all its constraints (two-valued)''"

text \<open>
  The loop over the referencing constraints: \<open>pinned_linear\<close> (leaving the loop),
  \<open>restricted\<close> and the candidate roots. A quadratic's leading coefficient is not zero, so
  the code's \<^verbatim>\<open>expect\<close> on its inverse holds.
\<close>

fun scan_polys :: "('f, 'z) libs_scheme \<Rightarrow> 'f fp \<Rightarrow> 'f poly2 list \<Rightarrow> bool \<Rightarrow> 'f fp list \<Rightarrow>
    bool \<times> bool \<times> 'f fp list" where
  "scan_polys L alpha [] restricted candidates = (False, restricted, candidates)"
| "scan_polys L alpha ((a, b, c) # ps) restricted candidates =
     (if fp_is_zero L a \<and> fp_is_zero L b then scan_polys L alpha ps restricted candidates
      else if fp_is_zero L a then (True, True, candidates)
      else let inv_a = the (fp_inverse L a) in
        scan_polys L alpha ps True (candidates @ [fp_sub L (fp_mul L (fp_neg L b) inv_a) alpha]))"

definition poly_at :: "('f, 'z) libs_scheme \<Rightarrow> 'f poly2 \<Rightarrow> 'f fp \<Rightarrow> 'f fp" where
  "poly_at L p beta = (let (a, b, c) = p in
    fp_add L (fp_add L (fp_mul L (fp_mul L a beta) beta) (fp_mul L b beta)) c)"

definition pin_verdict :: "('f, 'z) libs_scheme \<Rightarrow> 'f fp \<Rightarrow> 'f poly2 list \<Rightarrow> string option" where
  "pin_verdict L alpha ps =
    (let (pinned_linear, restricted, candidates) = scan_polys L alpha ps False [] in
     if pinned_linear then None
     else if \<not> restricted then Some FREE_VARIABLE
     else if list_ex (\<lambda>beta. beta \<noteq> alpha \<and> list_all (\<lambda>p. fp_is_zero L (poly_at L p beta)) ps) candidates
       then Some TWO_VALUED
     else None)"

definition check_one_var :: "('f, 'z) libs_scheme \<Rightarrow> ('c \<Rightarrow> var_id \<Rightarrow> (var_id \<Rightarrow> 'f fp option) \<Rightarrow> nat \<Rightarrow> 'f poly2) \<Rightarrow>
    var \<Rightarrow> (var_id, nat list) btree \<Rightarrow> 'c list \<Rightarrow> (var_id \<Rightarrow> 'f fp option) \<Rightarrow> nat \<Rightarrow> under_constrained option" where
  "check_one_var L uni var refs constraints get m =
    (let v = v_id var; alpha = fp_or_zero L m (get v) in
     map_option (\<lambda>reason. \<lparr>uc_var = v, uc_name = v_name var, uc_reason = reason\<rparr>)
       (case bt_get refs v of
          None \<Rightarrow> Some NO_REFERENCE
        | Some cons \<Rightarrow> pin_verdict L alpha (map (\<lambda>ci. uni (constraints ! ci) v get m) cons)))"

text \<open>The index from variables to the constraints that mention them.\<close>

definition seen_set :: "var_id list \<Rightarrow> var_id list" where
  "seen_set vs = bt_keys (fold (\<lambda>v. bt_insert v ()) vs [])"

definition add_refs :: "nat \<Rightarrow> var_id list \<Rightarrow> (var_id, nat list) btree \<Rightarrow> (var_id, nat list) btree" where
  "add_refs i seen refs =
    fold (\<lambda>v. bt_entry v (\<lambda>is. Some ((case is of None \<Rightarrow> [] | Some is \<Rightarrow> is) @ [i]))) seen refs"

definition build_refs :: "('c \<Rightarrow> var_id list) \<Rightarrow> 'c list \<Rightarrow> (var_id, nat list) btree" where
  "build_refs vars_of constraints =
    fold (\<lambda>(i, c). add_refs i (seen_set (vars_of c))) (enumerate 0 constraints) []"

definition expr_var_list :: "expression \<Rightarrow> var_id list" where
  "expr_var_list e = concat (map (\<lambda>mt. [m_left mt, m_right mt]) (e_mul_terms e)) @ map l_var (e_linear_terms e)"

definition row_var_list :: "r1cs_row \<Rightarrow> var_id list" where
  "row_var_list r = concat (map (\<lambda>lc. map t_var (lc_terms lc)) [r_a r, r_b r, r_c r])"

text \<open>The analyses; \<open>None\<close> is the code's panic on a malformed modulus.\<close>

definition analyze_underconstrained :: "('f, 'z) libs_scheme \<Rightarrow> primitive_program \<Rightarrow>
    (var_id, 'f fp) btree \<Rightarrow> under_constrained list option" where
  "analyze_underconstrained L program assign = (case modulus_of L program of
      Inl _ \<Rightarrow> None
    | Inr m \<Rightarrow>
        let refs = build_refs expr_var_list (pp_constraints program)
        in Some (List.map_filter (\<lambda>var. if v_role var \<noteq> Derived then None
             else check_one_var L (univariate L) var refs (pp_constraints program) (bt_get assign) m)
             (pp_vars program)))"

definition check_one_var_cp :: "('f, 'z) libs_scheme \<Rightarrow> var \<Rightarrow> (var_id, nat list) btree \<Rightarrow> r1cs_row list \<Rightarrow>
    (var_id, 'f fp) btree \<Rightarrow> nat \<Rightarrow> under_constrained option" where
  "check_one_var_cp L var refs constraints assign m =
    check_one_var L (univariate_r1cs L) var refs constraints (bt_get assign) m"

definition analyze_underconstrained_cp :: "('f, 'z) libs_scheme \<Rightarrow> circuit_program \<Rightarrow>
    (var_id, 'f fp) btree \<Rightarrow> under_constrained list option" where
  "analyze_underconstrained_cp L program assign = (case modulus_of_field L (cp_field program) of
      Inl _ \<Rightarrow> None
    | Inr m \<Rightarrow>
        let refs = build_refs row_var_list (cp_constraints program)
        in Some (List.map_filter (\<lambda>var. check_one_var_cp L var refs (cp_constraints program) assign m)
             (filter (\<lambda>var. v_role var = Derived) (cp_vars program))))"

section \<open>The reductions are exact\<close>

definition poly_wf :: "nat \<Rightarrow> 'f poly2 \<Rightarrow> bool" where
  "poly_wf m p \<longleftrightarrow> (case p of (a, b, c) \<Rightarrow> fp_wf m a \<and> fp_wf m b \<and> fp_wf m c)"

definition poly_val :: "('f, 'z) libs_scheme \<Rightarrow> 'f poly2 \<Rightarrow> int \<Rightarrow> int" where
  "poly_val L p x = (case p of (a, b, c) \<Rightarrow> fp_val L a * x * x + fp_val L b * x + fp_val L c)"

context field_ctx begin

lemma fp_or_zero_ok: "asg_wf m get \<Longrightarrow> fp_wf m (fp_or_zero L m (get v)) \<and> fp_val L (fp_or_zero L m (get v)) = asg_val L m get v"
  by (simp add: fp_or_zero_wf asg_val_def)

lemma poly_val_mod:
  assumes "fp_val L a mod int m = A mod int m" "fp_val L b mod int m = B mod int m"
    "fp_val L c mod int m = C mod int m" "A * x * x + B * x + C = z"
  shows "poly_val L (a, b, c) x mod int m = z mod int m"
  unfolding poly_val_def prod.case assms(4) [symmetric]
  by (intro mod_add_cong mod_mult_cong assms refl)

lemma uni_mul_term_val:
  assumes "asg_wf m get" "poly_wf m p"
  shows "poly_wf m (uni_mul_term L m v get p mt) \<and>
    poly_val L (uni_mul_term L m v get p mt) x mod int m =
      (poly_val L p x + mul_val ((asg_val L m get)(v := x)) mt) mod int m"
proof -
  obtain a b c where p: "p = (a, b, c)" by (cases p)
  have wf: "fp_wf m a" "fp_wf m b" "fp_wf m c" using assms(2) by (simp_all add: p poly_wf_def)
  note ok = fp_or_zero_ok [OF assms(1)]
  let ?k = "fc_big (m_coeff mt)" and ?l = "asg_val L m get (m_left mt)" and ?r = "asg_val L m get (m_right mt)"
  note vals = fp_add_val fp_mul_val fp_from_const_val ok
  show ?thesis
  proof (cases "m_left mt = v"; cases "m_right mt = v")
    assume 1: "m_left mt = v" "m_right mt = v"
    show ?thesis unfolding p uni_mul_term_def using 1 wf
      by (simp add: Let_def poly_wf_def vals,
          intro poly_val_mod [of _ "fp_val L a + ?k" _ "fp_val L b" _ "fp_val L c"])
        (simp_all add: vals mod_simps mul_val_def poly_val_def algebra_simps)
  next
    assume 2: "m_left mt = v" "m_right mt \<noteq> v"
    show ?thesis unfolding p uni_mul_term_def using 2 wf
      by (simp add: Let_def poly_wf_def vals,
          intro poly_val_mod [of _ "fp_val L a" _ "fp_val L b + ?k * ?r" _ "fp_val L c"])
        (simp_all add: vals mod_simps mul_val_def poly_val_def algebra_simps)
  next
    assume 3: "m_left mt \<noteq> v" "m_right mt = v"
    show ?thesis unfolding p uni_mul_term_def using 3 wf
      by (simp add: Let_def poly_wf_def vals,
          intro poly_val_mod [of _ "fp_val L a" _ "fp_val L b + ?k * ?l" _ "fp_val L c"])
        (simp_all add: vals mod_simps mul_val_def poly_val_def algebra_simps)
  next
    assume 4: "m_left mt \<noteq> v" "m_right mt \<noteq> v"
    show ?thesis unfolding p uni_mul_term_def using 4 wf
      by (simp add: Let_def poly_wf_def vals,
          intro poly_val_mod [of _ "fp_val L a" _ "fp_val L b" _ "fp_val L c + ?k * ?l * ?r"])
        (simp_all add: vals mod_simps mul_val_def poly_val_def algebra_simps)
  qed
qed

lemma uni_linear_term_val:
  assumes "asg_wf m get" "poly_wf m p"
  shows "poly_wf m (uni_linear_term L m v get p lt) \<and>
    poly_val L (uni_linear_term L m v get p lt) x mod int m =
      (poly_val L p x + linear_val ((asg_val L m get)(v := x)) lt) mod int m"
proof -
  obtain a b c where p: "p = (a, b, c)" by (cases p)
  have wf: "fp_wf m a" "fp_wf m b" "fp_wf m c" using assms(2) by (simp_all add: p poly_wf_def)
  note vals = fp_add_val fp_mul_val fp_from_const_val fp_or_zero_ok [OF assms(1)]
  let ?k = "fc_big (l_coeff lt)"
  show ?thesis
  proof (cases "l_var lt = v")
    case True
    then show ?thesis unfolding p uni_linear_term_def using wf
      by (simp add: Let_def poly_wf_def vals,
          intro poly_val_mod [of _ "fp_val L a" _ "fp_val L b + ?k" _ "fp_val L c"])
        (simp_all add: vals mod_simps linear_val_def poly_val_def algebra_simps)
  next
    case False
    then show ?thesis unfolding p uni_linear_term_def using wf
      by (simp add: Let_def poly_wf_def vals,
          intro poly_val_mod [of _ "fp_val L a" _ "fp_val L b" _
            "fp_val L c + ?k * asg_val L m get (l_var lt)"])
        (simp_all add: vals mod_simps linear_val_def poly_val_def algebra_simps)
  qed
qed

lemma foldl_poly:
  assumes "poly_wf m p"
    and step: "\<And>p t. poly_wf m p \<Longrightarrow> poly_wf m (f p t) \<and>
      poly_val L (f p t) x mod int m = (poly_val L p x + g t) mod int m"
  shows "poly_wf m (foldl f p ts) \<and>
    poly_val L (foldl f p ts) x mod int m = (poly_val L p x + (\<Sum>t \<leftarrow> ts. g t)) mod int m"
  using assms(1)
proof (induction ts arbitrary: p)
  case (Cons t ts)
  from Cons.IH [OF conjunct1 [OF step [OF Cons.prems]], of t] step [OF Cons.prems, of t]
  show ?case by (simp add: add.assoc [symmetric]) (metis mod_add_left_eq)
qed simp

lemma univariate_val:
  assumes "asg_wf m get"
  shows "poly_wf m (univariate L e v get m) \<and>
    poly_val L (univariate L e v get m) x mod int m = expr_val ((asg_val L m get)(v := x)) e mod int m"
proof -
  let ?\<sigma> = "(asg_val L m get)(v := x)"
  let ?z = "fp_zero L m"
  define p where "p = foldl (uni_mul_term L m v get) (?z, ?z, ?z) (e_mul_terms e)"
  obtain a b c where q: "foldl (uni_linear_term L m v get) p (e_linear_terms e) = (a, b, c)"
    by (cases "foldl (uni_linear_term L m v get) p (e_linear_terms e)")
  have z: "poly_wf m (?z, ?z, ?z)" "poly_val L (?z, ?z, ?z) x = 0"
    by (simp_all add: poly_wf_def poly_val_def fp_zero_val)
  have p': "poly_wf m p \<and> poly_val L p x mod int m = (\<Sum>t \<leftarrow> e_mul_terms e. mul_val ?\<sigma> t) mod int m"
    using foldl_poly [where f = "uni_mul_term L m v get" and g = "mul_val ?\<sigma>" and x = x
        and ts = "e_mul_terms e", OF z(1) uni_mul_term_val [OF assms]]
    by (simp add: p_def z)
  have q': "poly_wf m (a, b, c) \<and> poly_val L (a, b, c) x mod int m =
      ((\<Sum>t \<leftarrow> e_mul_terms e. mul_val ?\<sigma> t) + (\<Sum>t \<leftarrow> e_linear_terms e. linear_val ?\<sigma> t)) mod int m"
    using foldl_poly [where f = "uni_linear_term L m v get" and g = "linear_val ?\<sigma>" and x = x
        and ts = "e_linear_terms e", OF conjunct1 [OF p'] uni_linear_term_val [OF assms]] p'
    unfolding q by (metis mod_add_left_eq)
  have "univariate L e v get m = (a, b, fp_add L c (fp_from_const L (e_constant e) m))"
    by (simp add: univariate_def Let_def p_def [symmetric] q)
  moreover have "poly_val L (a, b, fp_add L c (fp_from_const L (e_constant e) m)) x mod int m =
      (poly_val L (a, b, c) x + fc_big (e_constant e)) mod int m"
    using q' by (intro poly_val_mod [of _ "fp_val L a" _ "fp_val L b" _ "fp_val L c + fc_big (e_constant e)"])
      (simp_all add: poly_wf_def fp_add_val fp_from_const_val mod_simps poly_val_def)
  moreover have "\<dots> = expr_val ?\<sigma> e mod int m"
    using q' unfolding expr_val_def by (metis mod_add_left_eq)
  ultimately show ?thesis using q' by (simp add: poly_wf_def fp_add_val fp_from_const_val)
qed

end

section \<open>R1CS rows\<close>

text \<open>The two components of \<^verbatim>\<open>split\<close> as separate folds.\<close>

definition coeff_fold :: "('f, 'z) libs_scheme \<Rightarrow> nat \<Rightarrow> var_id \<Rightarrow> lc_term list \<Rightarrow> 'f fp \<Rightarrow> 'f fp" where
  "coeff_fold L m v ts acc =
    foldl (\<lambda>acc t. if t_var t = v then fp_add L acc (fp_from_const L (t_coeff t) m) else acc) acc ts"

lemma lc_split_fst: "fst (lc_split L v get m lc) = coeff_fold L m v (lc_terms lc) (fp_zero L m)"
proof -
  have "fst (foldl (\<lambda>(coeff_v, rest) t.
        let coeff = fp_from_const L (t_coeff t) m in
        if t_var t = v then (fp_add L coeff_v coeff, rest)
        else (coeff_v, fp_add L rest (fp_mul L coeff (fp_or_zero L m (get (t_var t)))))) (a, b) ts) =
      coeff_fold L m v ts a" for a b ts
    by (induction ts arbitrary: a b) (simp_all add: coeff_fold_def Let_def)
  then show ?thesis by (simp add: lc_split_def)
qed

context field_ctx begin

lemma lc_split_val:
  assumes "asg_wf m get"
  shows "fp_wf m (fst (lc_split L v get m lc)) \<and> fp_wf m (snd (lc_split L v get m lc)) \<and>
    (fp_val L (fst (lc_split L v get m lc)) * x + fp_val L (snd (lc_split L v get m lc))) mod int m =
      lc_val ((asg_val L m get)(v := x)) lc mod int m"
proof -
  let ?\<sigma> = "(asg_val L m get)(v := x)"
  let ?f = "\<lambda>(coeff_v, rest) t.
        let coeff = fp_from_const L (t_coeff t) m in
        if t_var t = v then (fp_add L coeff_v coeff, rest)
        else (coeff_v, fp_add L rest (fp_mul L coeff (fp_or_zero L m (get (t_var t)))))"
  have "fp_wf m (fst (foldl ?f (a, b) ts)) \<and> fp_wf m (snd (foldl ?f (a, b) ts)) \<and>
      (fp_val L (fst (foldl ?f (a, b) ts)) * x + fp_val L (snd (foldl ?f (a, b) ts))) mod int m =
        (fp_val L a * x + fp_val L b + terms_val ?\<sigma> ts) mod int m"
    if "fp_wf m a" "fp_wf m b" for a b ts
    using that
  proof (induction ts arbitrary: a b)
    case (Cons t ts)
    obtain a' b' where ab: "?f (a, b) t = (a', b')" by (cases "?f (a, b) t")
    let ?k = "fc_big (t_coeff t)"
    have step: "fp_wf m a' \<and> fp_wf m b' \<and>
        (fp_val L a' * x + fp_val L b') mod int m = (fp_val L a * x + fp_val L b + ?k * ?\<sigma> (t_var t)) mod int m"
    proof (cases "t_var t = v")
      case True
      have a': "b' = b" "fp_wf m a'" "fp_val L a' = (fp_val L a + ?k) mod int m"
        using True ab Cons.prems by (auto simp: Let_def fp_add_val fp_from_const_val mod_simps)
      have "((fp_val L a + ?k) mod int m * x + fp_val L b) mod int m = ((fp_val L a + ?k) * x + fp_val L b) mod int m"
        by (intro mod_add_cong mod_mult_cong refl) simp
      then show ?thesis using a' Cons.prems True by (simp add: algebra_simps)
    next
      case False
      let ?y = "fp_val L b + ?k * asg_val L m get (t_var t)"
      have b': "a' = a" "fp_wf m b'" "fp_val L b' = ?y mod int m"
        using False ab Cons.prems fp_or_zero_ok [OF assms]
        by (auto simp: Let_def fp_add_val fp_mul_val fp_from_const_val mod_simps)
      have "(fp_val L a * x + ?y mod int m) mod int m = (fp_val L a * x + ?y) mod int m"
        by (rule mod_add_right_eq)
      then show ?thesis using b' Cons.prems False by (simp add: add.assoc)
    qed
    have fold: "foldl ?f (a, b) (t # ts) = foldl ?f (a', b') ts" unfolding foldl_Cons ab ..
    have eq: "(fp_val L a' * x + fp_val L b' + terms_val ?\<sigma> ts) mod int m =
        (fp_val L a * x + fp_val L b + ?k * ?\<sigma> (t_var t) + terms_val ?\<sigma> ts) mod int m"
      using step by (intro mod_add_cong [OF _ refl]) blast
    show ?case
      unfolding fold terms_val_simps add.assoc [symmetric]
      unfolding eq [symmetric] using step by (intro Cons.IH) simp_all
  qed simp
  from this [of "fp_zero L m" "fp_from_const L (lc_const lc) m" "lc_terms lc"]
  show ?thesis by (simp add: lc_split_def fp_zero_val fp_from_const_val lc_val_def mod_add_left_eq)
qed

lemma poly_of_splits_val:
  assumes "fp_wf m av" "fp_wf m a0" "fp_wf m bv" "fp_wf m b0" "fp_wf m cv" "fp_wf m c0"
  shows "poly_wf m (poly_of_splits L (av, a0) (bv, b0) (cv, c0)) \<and>
    poly_val L (poly_of_splits L (av, a0) (bv, b0) (cv, c0)) x mod int m =
      ((fp_val L av * x + fp_val L a0) * (fp_val L bv * x + fp_val L b0) - (fp_val L cv * x + fp_val L c0)) mod int m"
  unfolding poly_of_splits_def Let_def prod.case using assms
  by (intro conjI poly_val_mod [of _ "fp_val L av * fp_val L bv" _
        "fp_val L av * fp_val L b0 + fp_val L a0 * fp_val L bv - fp_val L cv" _
        "fp_val L a0 * fp_val L b0 - fp_val L c0"])
    (simp_all add: poly_wf_def res.ok_ops res.val_ops mod_simps algebra_simps)

lemma univariate_r1cs_val:
  assumes "asg_wf m get"
  shows "poly_wf m (univariate_r1cs L row v get m) \<and>
    poly_val L (univariate_r1cs L row v get m) x mod int m = row_val ((asg_val L m get)(v := x)) row mod int m"
proof -
  obtain av a0 bv b0 cv c0 where sp: "lc_split L v get m (r_a row) = (av, a0)"
    "lc_split L v get m (r_b row) = (bv, b0)" "lc_split L v get m (r_c row) = (cv, c0)"
    by (metis surj_pair)
  note a = lc_split_val [OF assms, of v "r_a row" x, unfolded sp fst_conv snd_conv]
  note b = lc_split_val [OF assms, of v "r_b row" x, unfolded sp fst_conv snd_conv]
  note c = lc_split_val [OF assms, of v "r_c row" x, unfolded sp fst_conv snd_conv]
  have "((fp_val L av * x + fp_val L a0) * (fp_val L bv * x + fp_val L b0) - (fp_val L cv * x + fp_val L c0)) mod int m
      = row_val ((asg_val L m get)(v := x)) row mod int m"
    unfolding row_val_def using a b c by (intro mod_diff_cong mod_mult_cong) auto
  then show ?thesis
    using poly_of_splits_val [of av a0 bv b0 cv c0 x] a b c by (simp add: univariate_r1cs_def sp)
qed

end

subsection \<open>All variables of a row at once\<close>

definition own_of :: "('f, 'z) libs_scheme \<Rightarrow> nat \<Rightarrow> (var_id, 'f fp list) btree \<Rightarrow> var_id \<Rightarrow> 'f fp list" where
  "own_of L m coeffs v = (case bt_get coeffs v of Some o' \<Rightarrow> o' | None \<Rightarrow> replicate 3 (fp_zero L m))"

definition coeffs_ok :: "(var_id, 'f fp list) btree \<Rightarrow> bool" where
  "coeffs_ok coeffs \<longleftrightarrow> bt_invar coeffs \<and> (\<forall>v o'. bt_get coeffs v = Some o' \<longrightarrow> length o' = 3)"

lemma own_of_length: "coeffs_ok coeffs \<Longrightarrow> length (own_of L m coeffs v) = 3"
  by (simp add: coeffs_ok_def own_of_def split: option.split)

lemma row_terms:
  assumes "coeffs_ok coeffs" "length full = 3" "i < 3"
  shows "\<exists>coeffs'. foldl (row_term L get m i) (full, coeffs) ts =
      (full[i := foldl (\<lambda>acc t. fp_add L acc (fp_mul L (fp_from_const L (t_coeff t) m)
        (fp_or_zero L m (get (t_var t))))) (full ! i) ts], coeffs') \<and>
    coeffs_ok coeffs' \<and> dom (bt_get coeffs') = dom (bt_get coeffs) \<union> t_var ` set ts \<and>
    (\<forall>v. own_of L m coeffs' v = (own_of L m coeffs v)[i := coeff_fold L m v ts (own_of L m coeffs v ! i)])"
  using assms
proof (induction ts arbitrary: full coeffs)
  case Nil
  then show ?case by (auto simp: coeff_fold_def)
next
  case (Cons t ts)
  let ?k = "fp_from_const L (t_coeff t) m"
  let ?upd = "\<lambda>own. let own = (case own of Some o' \<Rightarrow> o' | None \<Rightarrow> replicate 3 (fp_zero L m))
                  in Some (own[i := fp_add L (own ! i) ?k])"
  define coeffs1 where "coeffs1 = bt_entry (t_var t) ?upd coeffs"
  define full1 where "full1 = full[i := fp_add L (full ! i) (fp_mul L ?k (fp_or_zero L m (get (t_var t))))]"
  have inv: "bt_invar coeffs" using Cons.prems(1) by (simp add: coeffs_ok_def)
  have get1: "bt_get coeffs1 = (bt_get coeffs)(t_var t \<mapsto> (own_of L m coeffs (t_var t))[i := fp_add L (own_of L m coeffs (t_var t) ! i) ?k])"
    by (simp add: coeffs1_def bt_get_entry [OF inv] own_of_def Let_def)
  have ok1: "coeffs_ok coeffs1"
    using Cons.prems(1) own_of_length [OF Cons.prems(1), of L m]
    by (simp add: coeffs_ok_def get1) (simp add: coeffs1_def bt_invar_entry)
  have own1: "own_of L m coeffs1 v = (own_of L m coeffs v)[i := (if t_var t = v then fp_add L (own_of L m coeffs v ! i) ?k
      else own_of L m coeffs v ! i)]" for v
    by (simp add: own_of_def [of L m coeffs1] get1) (simp add: own_of_def)
  have len1: "length full1 = 3" using Cons.prems(2) by (simp add: full1_def)
  obtain coeffs' where IH: "foldl (row_term L get m i) (full1, coeffs1) ts =
      (full1[i := foldl (\<lambda>acc t. fp_add L acc (fp_mul L (fp_from_const L (t_coeff t) m)
        (fp_or_zero L m (get (t_var t))))) (full1 ! i) ts], coeffs')" "coeffs_ok coeffs'"
    "dom (bt_get coeffs') = dom (bt_get coeffs1) \<union> t_var ` set ts"
    "\<forall>v. own_of L m coeffs' v = (own_of L m coeffs1 v)[i := coeff_fold L m v ts (own_of L m coeffs1 v ! i)]"
    using Cons.IH [OF ok1 len1 Cons.prems(3)] by blast
  have "row_term L get m i (full, coeffs) t = (full1, coeffs1)"
    unfolding row_term_def full1_def coeffs1_def prod.case Let_def ..
  then show ?case
    using IH Cons.prems(2,3) own_of_length [OF Cons.prems(1), of L m]
    by (intro exI [of _ coeffs']) (auto simp: full1_def own1 get1 coeff_fold_def)
qed

lemma row_side_result:
  assumes "coeffs_ok coeffs" "length full = 3" "i < 3"
  shows "\<exists>coeffs'. row_side L get m (full, coeffs) (i, lc) = (full[i := eval_lc L lc get m], coeffs') \<and>
    coeffs_ok coeffs' \<and> dom (bt_get coeffs') = dom (bt_get coeffs) \<union> lc_vars lc \<and>
    (\<forall>v. own_of L m coeffs' v =
      (own_of L m coeffs v)[i := coeff_fold L m v (lc_terms lc) (own_of L m coeffs v ! i)])"
  using row_terms [OF assms(1) _ assms(3), of "full[i := fp_from_const L (lc_const lc) m]" L get m "lc_terms lc"] assms
  by (auto simp: row_side_def eval_lc_def lc_vars_def)

lemma btree_from_keys:
  assumes "coeffs_ok coeffs"
  shows "coeffs = map (\<lambda>v. (v, own_of L m coeffs v)) (sorted_list_of_set (dom (bt_get coeffs)))"
proof -
  have inv: "sorted_wrt (<) (map fst coeffs)" using assms by (simp add: coeffs_ok_def bt_invar_def)
  have dom: "dom (bt_get coeffs) = set (map fst coeffs)" by (simp add: bt_get_map_of dom_map_of_conv_image_fst)
  then have keys: "sorted_list_of_set (dom (bt_get coeffs)) = map fst coeffs"
    using inv by (simp only: sorted_list_of_set.idem_if_sorted_distinct strict_sorted_iff)
  have "snd p = own_of L m coeffs (fst p)" if "p \<in> set coeffs" for p
    using that inv by (simp add: own_of_def bt_get_map_of strict_sorted_iff
        map_of_is_SomeI [of coeffs "fst p" "snd p"])
  then have "(fst p, own_of L m coeffs (fst p)) = p" if "p \<in> set coeffs" for p
    using that by (metis prod.collapse)
  then have "map (\<lambda>p. (fst p, own_of L m coeffs (fst p))) coeffs = coeffs" by (intro map_idI)
  then show ?thesis unfolding keys by (simp add: comp_def)
qed

context field_ctx begin

lemma row_poly_eq:
  assumes "asg_wf m get"
  shows "fp_sub L (eval_lc L lc get m)
      (fp_mul L (coeff_fold L m v (lc_terms lc) (fp_zero L m)) (fp_or_zero L m (get v))) =
    snd (lc_split L v get m lc)"
proof (rule fp_val_inj)
  let ?av = "fst (lc_split L v get m lc)" and ?a0 = "snd (lc_split L v get m lc)" and ?x = "asg_val L m get v"
  have sp: "fp_wf m ?av" "fp_wf m ?a0" "(fp_val L ?av * ?x + fp_val L ?a0) mod int m = lc_val (asg_val L m get) lc mod int m"
    using lc_split_val [OF assms, of v lc ?x] by simp_all
  note vals = fp_sub_val fp_mul_val fp_or_zero_ok [OF assms] eval_lc_val [OF assms] sp(1,2) lc_split_fst [symmetric]
  show "fp_wf m ?a0" by (rule sp(2))
  show "fp_wf m (fp_sub L (eval_lc L lc get m)
      (fp_mul L (coeff_fold L m v (lc_terms lc) (fp_zero L m)) (fp_or_zero L m (get v))))"
    unfolding lc_split_fst [where get = get, symmetric] by (simp add: vals)
  have "fp_val L (fp_sub L (eval_lc L lc get m)
      (fp_mul L (coeff_fold L m v (lc_terms lc) (fp_zero L m)) (fp_or_zero L m (get v)))) =
    (lc_val (asg_val L m get) lc mod int m - fp_val L ?av * ?x) mod int m"
    unfolding lc_split_fst [where get = get, symmetric] by (simp add: vals mod_simps)
  also have "\<dots> = fp_val L ?a0 mod int m"
    unfolding sp(3) [symmetric] by (simp add: mod_diff_left_eq)
  finally show "fp_val L (fp_sub L (eval_lc L lc get m)
      (fp_mul L (coeff_fold L m v (lc_terms lc) (fp_zero L m)) (fp_or_zero L m (get v)))) = fp_val L ?a0"
    using sp(2) by simp
qed

lemma univariate_r1cs_row_eq:
  assumes "asg_wf m get"
  shows "univariate_r1cs_row L row get m =
    map (\<lambda>v. (v, univariate_r1cs L row v get m)) (sorted_list_of_set (row_vars row))"
proof -
  let ?z = "fp_zero L m"
  have ok0: "coeffs_ok []" by (simp add: coeffs_ok_def)
  let ?f0 = "replicate 3 ?z"
  let ?f1 = "?f0[0 := eval_lc L (r_a row) get m]"
  let ?f2 = "?f1[1 := eval_lc L (r_b row) get m]"
  have len: "length ?f0 = 3" "length ?f1 = 3" "length ?f2 = 3" by simp_all
  have i: "0 < (3 :: nat)" "1 < (3 :: nat)" "2 < (3 :: nat)" by simp_all
  obtain c1 where c1: "row_side L get m (?f0, []) (0, r_a row) = (?f1, c1)" "coeffs_ok c1"
    "dom (bt_get c1) = lc_vars (r_a row)"
    "\<forall>v. own_of L m c1 v = (own_of L m [] v)[0 := coeff_fold L m v (lc_terms (r_a row)) (own_of L m [] v ! 0)]"
    using row_side_result [OF ok0 len(1) i(1), of L get m "r_a row"] by (elim exE conjE) (rule that, simp_all add: dom_def)
  obtain c2 where c2: "row_side L get m (?f1, c1) (1, r_b row) = (?f2, c2)" "coeffs_ok c2"
    "dom (bt_get c2) = dom (bt_get c1) \<union> lc_vars (r_b row)"
    "\<forall>v. own_of L m c2 v = (own_of L m c1 v)[1 := coeff_fold L m v (lc_terms (r_b row)) (own_of L m c1 v ! 1)]"
    using row_side_result [OF c1(2) len(2) i(2), of L get m "r_b row"] by (elim exE conjE) (rule that)
  obtain c3 where c3: "row_side L get m (?f2, c2) (2, r_c row) = (?f2[2 := eval_lc L (r_c row) get m], c3)"
    "coeffs_ok c3" "dom (bt_get c3) = dom (bt_get c2) \<union> lc_vars (r_c row)"
    "\<forall>v. own_of L m c3 v = (own_of L m c2 v)[2 := coeff_fold L m v (lc_terms (r_c row)) (own_of L m c2 v ! 2)]"
    using row_side_result [OF c2(2) len(3) i(3), of L get m "r_c row"] by (elim exE conjE) (rule that)
  have own: "own_of L m c3 v = [coeff_fold L m v (lc_terms (r_a row)) ?z, coeff_fold L m v (lc_terms (r_b row)) ?z,
      coeff_fold L m v (lc_terms (r_c row)) ?z]" for v
    by (simp add: c3(4) c2(4) c1(4) own_of_def [of _ _ "[]"] numeral_3_eq_3 numeral_2_eq_2)
  have dom: "dom (bt_get c3) = row_vars row" by (auto simp: c1(3) c2(3) c3(3) row_vars_def)
  have fold: "foldl (row_side L get m) (replicate 3 ?z, []) (enumerate 0 [r_a row, r_b row, r_c row]) =
      ([eval_lc L (r_a row) get m, eval_lc L (r_b row) get m, eval_lc L (r_c row) get m], c3)"
    using c1(1) c2(1) c3(1) by (simp add: numeral_3_eq_3 numeral_2_eq_2)
  have split: "lc_split L v get m lc = (coeff_fold L m v (lc_terms lc) ?z, fp_sub L (eval_lc L lc get m)
      (fp_mul L (coeff_fold L m v (lc_terms lc) ?z) (fp_or_zero L m (get v))))" for v lc
    by (metis lc_split_fst prod.collapse row_poly_eq [OF assms])
  show ?thesis
    unfolding univariate_r1cs_row_def fold Let_def prod.case
    by (subst btree_from_keys [OF c3(2), of L m]) (simp add: own dom univariate_r1cs_def split numeral_2_eq_2)
qed

end

section \<open>The index\<close>

lemma seen_set_keys: "set (seen_set vs) = set vs" "distinct (seen_set vs)"
proof -
  have "bt_invar t \<Longrightarrow> bt_invar (fold (\<lambda>v. bt_insert v ()) vs t) \<and>
      dom (bt_get (fold (\<lambda>v. bt_insert v ()) vs t)) = dom (bt_get t) \<union> set vs" for t
    by (induction vs arbitrary: t) auto
  from this [of "[]"] have k: "bt_invar (fold (\<lambda>v. bt_insert v ()) vs [])"
    "dom (bt_get (fold (\<lambda>v. bt_insert v ()) vs [])) = set vs"
    by (simp_all add: dom_def)
  show "set (seen_set vs) = set vs" by (simp add: seen_set_def bt_keys_dom k)
  show "distinct (seen_set vs)"
    using k(1) by (simp add: seen_set_def bt_keys_def bt_invar_def strict_sorted_iff)
qed

lemma add_refs_get:
  "bt_invar refs \<Longrightarrow> distinct seen \<Longrightarrow> bt_invar (add_refs i seen refs) \<and>
   bt_get (add_refs i seen refs) v =
     (if v \<in> set seen then Some ((case bt_get refs v of None \<Rightarrow> [] | Some is \<Rightarrow> is) @ [i]) else bt_get refs v)"
proof (induction seen arbitrary: refs)
  case (Cons w seen)
  let ?refs = "bt_entry w (\<lambda>is. Some ((case is of None \<Rightarrow> [] | Some is \<Rightarrow> is) @ [i])) refs"
  have "bt_invar ?refs" using Cons.prems(1) by (rule bt_invar_entry)
  from Cons.IH [OF this] Cons.prems show ?case by (auto simp: add_refs_def bt_get_entry)
qed (simp add: add_refs_def)

lemma build_refs_get:
  "bt_get (build_refs vars_of cs) v =
    (let is = filter (\<lambda>i. v \<in> set (vars_of (cs ! i))) [0..<length cs] in if is = [] then None else Some is)"
proof -
  have "bt_invar (build_refs vars_of cs) \<and> bt_get (build_refs vars_of cs) v =
      (let is = filter (\<lambda>i. v \<in> set (vars_of (cs ! i))) [0..<length cs] in if is = [] then None else Some is)"
  proof (induction cs rule: rev_induct)
    case (snoc c cs)
    have "build_refs vars_of (cs @ [c]) = add_refs (length cs) (seen_set (vars_of c)) (build_refs vars_of cs)"
      by (simp add: build_refs_def enumerate_append_eq)
    moreover have "filter (\<lambda>i. v \<in> set (vars_of ((cs @ [c]) ! i))) [0..<length cs] =
        filter (\<lambda>i. v \<in> set (vars_of (cs ! i))) [0..<length cs]"
      by (intro filter_cong) (simp_all add: nth_append)
    ultimately show ?case
      using snoc add_refs_get [OF conjunct1 [OF snoc] seen_set_keys(2), where v = v]
      by (simp add: seen_set_keys Let_def)
  qed (simp add: build_refs_def)
  then show ?thesis by blast
qed

section \<open>The verdict is exact\<close>

definition second_root :: "('f, 'z) libs_scheme \<Rightarrow> 'f fp \<Rightarrow> 'f poly2 \<Rightarrow> 'f fp" where
  "second_root L alpha p = (case p of (a, b, c) \<Rightarrow> fp_sub L (fp_mul L (fp_neg L b) (the (fp_inverse L a))) alpha)"

abbreviation lead :: "'f poly2 \<Rightarrow> 'f fp" where "lead p \<equiv> fst p"
abbreviation lin :: "'f poly2 \<Rightarrow> 'f fp" where "lin p \<equiv> fst (snd p)"

lemma scan_polys_result:
  assumes "scan_polys L alpha ps restricted cands = (pl, r, cs)"
  shows "if pl then \<exists>p \<in> set ps. fp_is_zero L (lead p) \<and> \<not> fp_is_zero L (lin p)
    else (\<forall>p \<in> set ps. fp_is_zero L (lead p) \<longrightarrow> fp_is_zero L (lin p)) \<and>
      (r \<longleftrightarrow> restricted \<or> (\<exists>p \<in> set ps. \<not> fp_is_zero L (lead p))) \<and>
      cs = cands @ map (second_root L alpha) (filter (\<lambda>p. \<not> fp_is_zero L (lead p)) ps)"
  using assms
proof (induction ps arbitrary: restricted cands)
  case (Cons p ps)
  obtain a b c where p: "p = (a, b, c)" by (cases p)
  consider "fp_is_zero L a \<and> fp_is_zero L b" | "fp_is_zero L a \<and> \<not> fp_is_zero L b" | "\<not> fp_is_zero L a" by blast
  then show ?case
  proof cases
    case 1
    then show ?thesis using Cons.IH [of restricted cands] Cons.prems by (auto simp: p split: if_splits)
  next
    case 2
    then show ?thesis using Cons.prems by (auto simp: p)
  next
    case 3
    then show ?thesis
      using Cons.IH [of True "cands @ [second_root L alpha p]"] Cons.prems
      by (auto simp: p second_root_def Let_def split: if_splits)
  qed
qed auto

context field_ctx begin

lemma poly_at_zero:
  assumes "poly_wf m p" "fp_wf m y"
  shows "fp_is_zero L (poly_at L p y) \<longleftrightarrow> poly_val L p (fp_val L y) mod int m = 0"
proof -
  obtain a b c where p: "p = (a, b, c)" by (cases p)
  have wf: "fp_wf m a" "fp_wf m b" "fp_wf m c" using assms(1) by (simp_all add: p poly_wf_def)
  have "poly_at L p y = res.horner a b c y" by (simp add: p poly_at_def res.horner_def)
  then show ?thesis
    using res.horner_val [OF wf assms(2)] by (simp add: p poly_val_def res.isz_val)
qed

lemma lead_zero_poly:
  assumes "poly_wf m p" "fp_is_zero L (lead p)"
  shows "poly_val L p x = fp_val L (lin p) * x + fp_val L (snd (snd p))"
  using assms fp_is_zero_val by (cases p) (simp add: poly_wf_def poly_val_def)

lemma pinned_linear_unique:
  assumes "nat_prime m" "poly_wf m p" "fp_is_zero L (lead p)" "\<not> fp_is_zero L (lin p)"
    "fp_wf m x" "fp_wf m y" "poly_val L p (fp_val L x) mod int m = 0" "poly_val L p (fp_val L y) mod int m = 0"
  shows "x = y"
proof -
  have l: "fp_wf m (lin p)" "fp_val L (lin p) \<noteq> 0"
    using assms(2,4) fp_is_zero_val by (auto simp: poly_wf_def split: prod.splits)
  show ?thesis
    using assms(7,8) unfolding lead_zero_poly [OF assms(2,3)]
    by (rule res.linear_root_unique [OF assms(1) l(1) assms(5,6) l(2)])
qed

lemma second_root_only:
  assumes "nat_prime m" "poly_wf m p" "\<not> fp_is_zero L (lead p)" "fp_wf m x" "fp_wf m y" "y \<noteq> x"
    "poly_val L p (fp_val L x) mod int m = 0" "poly_val L p (fp_val L y) mod int m = 0"
  shows "y = second_root L x p"
proof -
  obtain a b c where p: "p = (a, b, c)" by (cases p)
  have wf: "fp_wf m a" "fp_wf m b" using assms(2) by (simp_all add: p poly_wf_def)
  have "fp_val L a \<noteq> 0" using assms(3) wf(1) by (simp add: p fp_is_zero_val)
  then obtain ai where ai: "fp_inverse L a = Some ai" "fp_wf m ai" "fp_val L a * fp_val L ai mod int m = 1"
    using fp_inverse_unit [OF assms(1) wf(1)] by blast
  have "y = res.second_root ai b x"
    using assms(7,8) unfolding p poly_val_def prod.case
    by (rule res.second_root_unique [OF assms(1) wf(1) ai(2,3) wf(2) assms(4,5,6)])
  then show ?thesis by (simp add: p second_root_def res.second_root_def ai(1))
qed

lemma second_root_wf:
  assumes "nat_prime m" "poly_wf m p" "\<not> fp_is_zero L (lead p)" "fp_wf m x"
  shows "fp_wf m (second_root L x p)"
proof -
  obtain a b c where p: "p = (a, b, c)" by (cases p)
  have wf: "fp_wf m a" "fp_wf m b" using assms(2) by (simp_all add: p poly_wf_def)
  have "fp_val L a \<noteq> 0" using assms(3) wf(1) by (simp add: p fp_is_zero_val)
  then obtain ai where "fp_inverse L a = Some ai" "fp_wf m ai"
    using fp_inverse_unit [OF assms(1) wf(1)] by blast
  then show ?thesis using wf assms(4) by (simp add: p second_root_def res.ok_ops)
qed

lemma pin_verdict_iff:
  assumes prime: "nat_prime m" and alpha: "fp_wf m alpha"
    and wf: "\<forall>p \<in> set ps. poly_wf m p"
    and root: "\<forall>p \<in> set ps. poly_val L p (fp_val L alpha) mod int m = 0"
  shows "pin_verdict L alpha ps \<noteq> None \<longleftrightarrow>
    (\<exists>y. fp_wf m y \<and> y \<noteq> alpha \<and> (\<forall>p \<in> set ps. poly_val L p (fp_val L y) mod int m = 0))"
    (is "_ \<longleftrightarrow> ?other")
proof -
  obtain pl r cs where sc: "scan_polys L alpha ps False [] = (pl, r, cs)"
    by (cases "scan_polys L alpha ps False []")
  note scan = scan_polys_result [OF sc]
  show ?thesis
  proof (cases pl)
    case True
    then have "\<exists>p \<in> set ps. fp_is_zero L (lead p) \<and> \<not> fp_is_zero L (lin p)" using scan by simp
    then have "\<not> ?other" using pinned_linear_unique [OF prime] wf root alpha by blast
    then show ?thesis by (simp add: pin_verdict_def sc True)
  next
    case False
    then have zero: "\<forall>p \<in> set ps. fp_is_zero L (lead p) \<longrightarrow> fp_is_zero L (lin p)"
      and r: "r \<longleftrightarrow> (\<exists>p \<in> set ps. \<not> fp_is_zero L (lead p))"
      and cs: "cs = map (second_root L alpha) (filter (\<lambda>p. \<not> fp_is_zero L (lead p)) ps)"
      using scan by auto
    show ?thesis
    proof (cases r)
      case True
      have "(\<exists>beta \<in> set cs. beta \<noteq> alpha \<and> (\<forall>p \<in> set ps. fp_is_zero L (poly_at L p beta))) \<longleftrightarrow> ?other"
      proof
        assume "\<exists>beta \<in> set cs. beta \<noteq> alpha \<and> (\<forall>p \<in> set ps. fp_is_zero L (poly_at L p beta))"
        then obtain beta where b: "beta \<in> set cs" "beta \<noteq> alpha" "\<forall>p \<in> set ps. fp_is_zero L (poly_at L p beta)"
          by blast
        then have "fp_wf m beta" using second_root_wf [OF prime] wf alpha by (auto simp: cs)
        then show ?other using b poly_at_zero wf by blast
      next
        assume ?other
        then obtain y where y: "fp_wf m y" "y \<noteq> alpha" "\<forall>p \<in> set ps. poly_val L p (fp_val L y) mod int m = 0"
          by blast
        obtain p where p: "p \<in> set ps" "\<not> fp_is_zero L (lead p)" using True r by blast
        have "y = second_root L alpha p"
          using second_root_only [OF prime _ p(2) alpha y(1,2)] wf root y(3) p(1) by blast
        then have "y \<in> set cs" using p by (auto simp: cs)
        then show "\<exists>beta \<in> set cs. beta \<noteq> alpha \<and> (\<forall>p \<in> set ps. fp_is_zero L (poly_at L p beta))"
          using y poly_at_zero wf by blast
      qed
      then show ?thesis using True False by (simp add: pin_verdict_def sc list_ex_iff list_all_iff)
    next
      case no: False
      obtain y where y: "fp_wf m y" "y \<noteq> alpha"
      proof -
        have "fp_val L (fp_new L 1 m) \<noteq> fp_val L (fp_new L 0 m)" using m_gt_1 by (simp add: fp_new_val)
        then show ?thesis using that fp_new_val(1) by metis
      qed
      have "poly_val L p x = fp_val L (snd (snd p))" if "p \<in> set ps" for p x
      proof -
        have z: "fp_is_zero L (lead p)" "fp_is_zero L (lin p)" using no r zero that by auto
        have "fp_wf m (lin p)" using wf that by (cases p) (auto simp: poly_wf_def)
        then show ?thesis using lead_zero_poly [OF _ z(1)] z(2) wf that by (simp add: fp_is_zero_val)
      qed
      then have ?other using y root by (intro exI [of _ y]) simp
      then show ?thesis using no False by (simp add: pin_verdict_def sc)
    qed
  qed
qed

end

text \<open>Another value of \<open>v\<close> satisfies every constraint, the others held at \<open>\<sigma>\<close>.\<close>

definition two_valued :: "int \<Rightarrow> ((var_id \<Rightarrow> int) \<Rightarrow> 'c \<Rightarrow> int) \<Rightarrow> (var_id \<Rightarrow> int) \<Rightarrow> 'c list \<Rightarrow> var_id \<Rightarrow> bool" where
  "two_valued m val \<sigma> cs v \<longleftrightarrow>
    (\<exists>x. 0 \<le> x \<and> x < m \<and> x \<noteq> \<sigma> v \<and> (\<forall>c \<in> set cs. m dvd val (\<sigma>(v := x)) c))"

context field_ctx begin

lemma check_one_var_iff:
  fixes uni :: "'c \<Rightarrow> var_id \<Rightarrow> (var_id \<Rightarrow> 'f fp option) \<Rightarrow> nat \<Rightarrow> 'f poly2"
  assumes prime: "nat_prime m" and wf: "asg_wf m get"
    and uni: "\<And>c v x. poly_wf m (uni c v get m) \<and>
      poly_val L (uni c v get m) x mod int m = val ((asg_val L m get)(v := x)) c mod int m"
    and indep: "\<And>c v x. v \<notin> set (vars_of c) \<Longrightarrow> val ((asg_val L m get)(v := x)) c = val (asg_val L m get) c"
    and honest: "\<forall>c \<in> set cs. int m dvd val (asg_val L m get) c"
  shows "check_one_var L uni var (build_refs vars_of cs) cs get m \<noteq> None \<longleftrightarrow>
    two_valued (int m) val (asg_val L m get) cs (v_id var)"
proof -
  let ?v = "v_id var" and ?\<sigma> = "asg_val L m get"
  let ?alpha = "fp_or_zero L m (get ?v)"
  define refs where "refs = filter (\<lambda>i. ?v \<in> set (vars_of (cs ! i))) [0..<length cs]"
  let ?ps = "map (\<lambda>ci. uni (cs ! ci) ?v get m) refs"
  have al: "fp_wf m ?alpha" "fp_val L ?alpha = ?\<sigma> ?v" using fp_or_zero_ok [OF wf] by auto
  have zero_iff: "poly_val L (uni c ?v get m) x mod int m = 0 \<longleftrightarrow> int m dvd val (?\<sigma>(?v := x)) c" for c x
    using uni by (simp add: mod_eq_zero_dvd)
  have all_iff: "(\<forall>p \<in> set ?ps. poly_val L p x mod int m = 0) \<longleftrightarrow> (\<forall>c \<in> set cs. int m dvd val (?\<sigma>(?v := x)) c)" for x
  proof -
    have "(\<forall>c \<in> set cs. int m dvd val (?\<sigma>(?v := x)) c) \<longleftrightarrow>
        (\<forall>i < length cs. ?v \<in> set (vars_of (cs ! i)) \<longrightarrow> int m dvd val (?\<sigma>(?v := x)) (cs ! i))"
      using honest indep by (metis in_set_conv_nth)
    then show ?thesis by (auto simp: refs_def zero_iff)
  qed
  have two: "two_valued (int m) val ?\<sigma> cs ?v \<longleftrightarrow>
      (\<exists>y. fp_wf m y \<and> y \<noteq> ?alpha \<and> (\<forall>p \<in> set ?ps. poly_val L p (fp_val L y) mod int m = 0))"
    unfolding two_valued_def
  proof
    assume "\<exists>x. 0 \<le> x \<and> x < int m \<and> x \<noteq> ?\<sigma> ?v \<and> (\<forall>c \<in> set cs. int m dvd val (?\<sigma>(?v := x)) c)"
    then obtain x where x: "0 \<le> x" "x < int m" "x \<noteq> ?\<sigma> ?v" "\<forall>c \<in> set cs. int m dvd val (?\<sigma>(?v := x)) c"
      by blast
    have "fp_val L (fp_new L (nat x) m) = x" using x(1,2) by (simp add: fp_new_val)
    then show "\<exists>y. fp_wf m y \<and> y \<noteq> ?alpha \<and> (\<forall>p \<in> set ?ps. poly_val L p (fp_val L y) mod int m = 0)"
      using x al all_iff fp_new_val(1) by metis
  next
    assume "\<exists>y. fp_wf m y \<and> y \<noteq> ?alpha \<and> (\<forall>p \<in> set ?ps. poly_val L p (fp_val L y) mod int m = 0)"
    then obtain y where y: "fp_wf m y" "y \<noteq> ?alpha" "\<forall>p \<in> set ?ps. poly_val L p (fp_val L y) mod int m = 0"
      by blast
    then show "\<exists>x. 0 \<le> x \<and> x < int m \<and> x \<noteq> ?\<sigma> ?v \<and> (\<forall>c \<in> set cs. int m dvd val (?\<sigma>(?v := x)) c)"
      using al all_iff fp_val_range fp_val_inj by metis
  qed
  show ?thesis
  proof (cases "refs = []")
    case True
    then have none: "bt_get (build_refs vars_of cs) ?v = None" by (simp add: build_refs_get refs_def Let_def)
    have "fp_val L (fp_new L 1 m) \<noteq> fp_val L (fp_new L 0 m)" using m_gt_1 by (simp add: fp_new_val)
    then have "\<exists>y. fp_wf m y \<and> y \<noteq> ?alpha" using fp_new_val(1) by metis
    then show ?thesis unfolding two by (simp add: check_one_var_def Let_def none True)
  next
    case False
    then have some: "bt_get (build_refs vars_of cs) ?v = Some refs"
      by (simp add: build_refs_get refs_def Let_def)
    have "\<forall>p \<in> set ?ps. poly_wf m p" using uni by auto
    moreover have "\<forall>p \<in> set ?ps. poly_val L p (fp_val L ?alpha) mod int m = 0"
      unfolding all_iff using honest by (simp add: al)
    ultimately show ?thesis unfolding two using pin_verdict_iff [OF prime al(1)]
      by (simp add: check_one_var_def Let_def some)
  qed
qed

end

lemma check_one_var_names:
  "check_one_var L uni var refs cs get m = Some u \<Longrightarrow> uc_var u = v_id var \<and> uc_name u = v_name var"
  by (auto simp: check_one_var_def Let_def)

lemma map_filter_names:
  assumes "\<And>x u. x \<in> set xs \<Longrightarrow> f x = Some u \<Longrightarrow> g u = h x" "\<And>x. x \<in> set xs \<Longrightarrow> f x \<noteq> None \<longleftrightarrow> P x"
  shows "map g (List.map_filter f xs) = map h (filter P xs)"
  using assms
proof (induction xs)
  case (Cons x xs)
  then show ?case by (cases "f x") (force simp: map_filter_simps)+
qed (simp add: map_filter_simps)

lemma expr_val_indep:
  assumes "v \<notin> set (expr_var_list e)"
  shows "expr_val (\<sigma>(v := x)) e = expr_val \<sigma> e"
proof -
  have "map (mul_val (\<sigma>(v := x))) (e_mul_terms e) = map (mul_val \<sigma>) (e_mul_terms e)"
    using assms by (auto simp: expr_var_list_def mul_val_def)
  moreover have "map (linear_val (\<sigma>(v := x))) (e_linear_terms e) = map (linear_val \<sigma>) (e_linear_terms e)"
    using assms by (auto simp: expr_var_list_def linear_val_def)
  ultimately show ?thesis by (simp only: expr_val_def)
qed

lemma row_val_indep: "v \<notin> set (row_var_list r) \<Longrightarrow> row_val (\<sigma>(v := x)) r = row_val \<sigma> r"
  by (intro row_val_cong) (auto simp: row_var_list_def row_vars_def lc_vars_def)

section \<open>Properties\<close>

text \<open>the under-constraint analysis is exact over a prime field. At an honest witness, the
  reported variables are, in order, the derived variables of which another value satisfies every
  constraint with all other variables fixed: no false alarm, none missed.\<close>

theorem analyze_underconstrained_exact:
  assumes "num_libs L" "modulus_of L pp = Inr m" "nat_prime m" "asg_wf m (bt_get w)"
    "pp_holds (int m) (asg_val L m (bt_get w)) pp"
  shows "\<exists>us. analyze_underconstrained L pp w = Some us \<and>
    map (\<lambda>u. (uc_var u, uc_name u)) us =
    map (\<lambda>var. (v_id var, v_name var)) (filter (\<lambda>var. v_role var = Derived \<and>
      two_valued (int m) expr_val (asg_val L m (bt_get w)) (pp_constraints pp) (v_id var)) (pp_vars pp))"
proof -
  have ctx: "field_ctx L m"
    using assms(1,2) by (auto simp: modulus_of_def modulus_of_field_def field_ctx_def field_ctx_axioms_def
        split: option.splits if_splits)
  have iff: "check_one_var L (univariate L) var (build_refs expr_var_list (pp_constraints pp))
      (pp_constraints pp) (bt_get w) m \<noteq> None \<longleftrightarrow>
    two_valued (int m) expr_val (asg_val L m (bt_get w)) (pp_constraints pp) (v_id var)" for var
    using field_ctx.univariate_val [OF ctx assms(4)] expr_val_indep assms(5)
    by (intro field_ctx.check_one_var_iff [OF ctx assms(3,4)]) (auto simp: pp_holds_def list_all_iff)
  let ?f = "\<lambda>var. if v_role var \<noteq> Derived then None
    else check_one_var L (univariate L) var (build_refs expr_var_list (pp_constraints pp))
      (pp_constraints pp) (bt_get w) m"
  have "map (\<lambda>u. (uc_var u, uc_name u)) (List.map_filter ?f (pp_vars pp)) =
    map (\<lambda>var. (v_id var, v_name var)) (filter (\<lambda>var. v_role var = Derived \<and>
      two_valued (int m) expr_val (asg_val L m (bt_get w)) (pp_constraints pp) (v_id var)) (pp_vars pp))"
    using iff check_one_var_names [of L "univariate L"]
    by (intro map_filter_names) (auto split: if_splits)
  then show ?thesis using assms(2) by (simp add: analyze_underconstrained_def Let_def)
qed

text \<open>A square root: \<open>x * x = y\<close> with \<open>y\<close> given and \<open>x\<close> derived has two values, 5 and 92.\<close>

definition root_circuit :: circuit_program where
  "root_circuit = square_circuit\<lparr>cp_vars :=
    [\<lparr>v_id = 0, v_name = ''x'', v_role = Derived\<rparr>, \<lparr>v_id = 1, v_name = ''y'', v_role = PrivateInput\<rparr>]\<rparr>"

lemma root_modulus: "modulus_of_field ref_libs (cp_field root_circuit) = Inr 97"
  using square_modulus by (simp add: root_circuit_def)

lemma root_two_valued:
  "two_valued 97 row_val (asg_val ref_libs 97 (bt_get square_witness)) (cp_constraints root_circuit) 0"
  unfolding two_valued_def
  by (rule exI [of _ 92]) (simp add: root_circuit_def square_circuit_def row_val_def asg_val_def
      square_witness_def fp_or_zero_def fp_val_def)

theorem analyze_underconstrained_exact_witness:
  "\<exists>us. analyze_underconstrained ref_libs (to_primitive root_circuit) square_witness = Some us \<and>
    map (\<lambda>u. (uc_var u, uc_name u)) us = [(0, ''x'')]"
proof -
  have p: "pp_vars (to_primitive root_circuit) = cp_vars root_circuit"
    "pp_constraints (to_primitive root_circuit) = [expr_from_r1cs (lc_var 0) (lc_var 0) (lc_var 1) None]"
    by (simp_all add: to_primitive_def flatten_row_def root_circuit_def square_circuit_def lc_var_def MAX_PRODUCTS_def)
  have "modulus_of ref_libs (to_primitive root_circuit) = Inr 97"
    using root_modulus by (simp add: modulus_of_def to_primitive_def split: prod.split)
  moreover have "pp_holds (int 97) (asg_val ref_libs 97 (bt_get square_witness)) (to_primitive root_circuit)"
    by (simp add: pp_holds_def p asg_val_def square_witness_def fp_or_zero_def fp_val_def)
  moreover have "two_valued (int 97) expr_val (asg_val ref_libs 97 (bt_get square_witness))
      (pp_constraints (to_primitive root_circuit)) 0"
    using root_two_valued unfolding two_valued_def p
    by (simp add: root_circuit_def square_circuit_def row_val_def)
  ultimately show ?thesis
    using analyze_underconstrained_exact [OF ref.num_libs_axioms _ nat_prime_97 square_wf,
        of "to_primitive root_circuit"]
    unfolding p(1) by (simp add: root_circuit_def)
qed

text \<open>C8: the same for the analysis over R1CS rows.\<close>

theorem analyze_underconstrained_cp_exact:
  assumes "num_libs L" "modulus_of_field L (cp_field cp) = Inr m" "nat_prime m" "asg_wf m (bt_get w)"
    "cp_holds (int m) (asg_val L m (bt_get w)) cp"
  shows "\<exists>us. analyze_underconstrained_cp L cp w = Some us \<and>
    map (\<lambda>u. (uc_var u, uc_name u)) us =
    map (\<lambda>var. (v_id var, v_name var)) (filter (\<lambda>var. v_role var = Derived \<and>
      two_valued (int m) row_val (asg_val L m (bt_get w)) (cp_constraints cp) (v_id var)) (cp_vars cp))"
proof -
  have ctx: "field_ctx L m"
    using assms(1,2) by (auto simp: modulus_of_field_def field_ctx_def field_ctx_axioms_def
        split: option.splits if_splits)
  let ?f = "\<lambda>var. check_one_var_cp L var (build_refs row_var_list (cp_constraints cp)) (cp_constraints cp) w m"
  have iff: "?f var \<noteq> None \<longleftrightarrow>
    two_valued (int m) row_val (asg_val L m (bt_get w)) (cp_constraints cp) (v_id var)" for var
    unfolding check_one_var_cp_def
    using field_ctx.univariate_r1cs_val [OF ctx assms(4)] row_val_indep assms(5)
    by (intro field_ctx.check_one_var_iff [OF ctx assms(3,4)]) (auto simp: cp_holds_def list_all_iff)
  have "map (\<lambda>u. (uc_var u, uc_name u)) (List.map_filter ?f (filter (\<lambda>var. v_role var = Derived) (cp_vars cp))) =
    map (\<lambda>var. (v_id var, v_name var)) (filter
      (\<lambda>var. two_valued (int m) row_val (asg_val L m (bt_get w)) (cp_constraints cp) (v_id var))
      (filter (\<lambda>var. v_role var = Derived) (cp_vars cp)))"
    using iff check_one_var_names [of L "univariate_r1cs L"]
    by (intro map_filter_names) (auto simp: check_one_var_cp_def)
  then show ?thesis using assms(2)
    by (simp add: analyze_underconstrained_cp_def Let_def conj_commute)
qed

theorem analyze_underconstrained_cp_exact_witness:
  "\<exists>us. analyze_underconstrained_cp ref_libs root_circuit square_witness = Some us \<and>
    map (\<lambda>u. (uc_var u, uc_name u)) us = [(0, ''x'')]"
proof -
  have "cp_holds (int 97) (asg_val ref_libs 97 (bt_get square_witness)) root_circuit"
    using square_holds by (simp add: cp_holds_def root_circuit_def)
  then show ?thesis
    using analyze_underconstrained_cp_exact [OF ref.num_libs_axioms root_modulus nat_prime_97 square_wf]
      root_two_valued by (simp add: root_circuit_def)
qed

text \<open>the streaming analysis, which reduces a row for all its variables from one evaluation,
  lists the row's variables in ascending order with exactly the triples the per-variable
  reduction computes.\<close>

theorem univariate_row_equals_per_variable:
  assumes "field_ctx L m" "asg_wf m get"
  shows "univariate_r1cs_row L row get m =
    map (\<lambda>v. (v, univariate_r1cs L row v get m)) (sorted_list_of_set (row_vars row))"
  by (rule field_ctx.univariate_r1cs_row_eq [OF assms])

theorem univariate_row_equals_per_variable_witness:
  "map fst (univariate_r1cs_row ref_libs (hd (cp_constraints square_circuit)) (bt_get square_witness) 97) = [0, 1]"
proof -
  have "row_vars (hd (cp_constraints square_circuit)) = {0, 1}"
    by (auto simp: square_circuit_def row_vars_def lc_vars_def lc_var_def)
  then show ?thesis
    using univariate_row_equals_per_variable [OF f97.field_ctx_axioms square_wf,
        of "hd (cp_constraints square_circuit)"] by (simp add: comp_def)
qed

end
