(* ===== verification/Minimize.thy ===== *)
theory Minimize
  imports Fp Prim_IR
begin

text \<open>
  R1CS minimization, \<^verbatim>\<open>crates/ir/src/minimize.rs\<close>: the worklist that eliminates every
  linearly defined \<^verbatim>\<open>Internal\<close> variable. \<open>form\<close> is the code's \<^verbatim>\<open>Lc\<close>, a row is three forms,
  \<open>min_state\<close> holds the locals of \<^verbatim>\<open>run\<close>: the rows (\<open>None\<close> marks a retired one), the
  append-only occurrence index, the queue with its membership bitmap, the eliminated variables
  and the optional trace. \<open>None\<close> as a result is a panic of the code.

  Shown here: the values and the variables of the form operations, that the worklist ends, and
  that with a complete index one elimination substitutes in every row, whether the code fans
  out or not.
\<close>

section \<open>Forms\<close>

record 'f form =
  fk :: "'f fp"
  ft :: "(var_id, 'f fp) btree"

type_synonym 'f row3 = "'f form \<times> 'f form \<times> 'f form"

definition MAX_FILL :: nat where "MAX_FILL = 2"

definition PAR_SUBST_THRESHOLD :: nat where "PAR_SUBST_THRESHOLD = 64"

text \<open>\<^verbatim>\<open>entry(..).or_insert_with(zero)\<close>, an operation on the slot, removal when it turns zero.\<close>

definition acc_entry :: "('f, 'z) libs_scheme \<Rightarrow> nat \<Rightarrow> ('f fp \<Rightarrow> 'f fp) \<Rightarrow> var_id \<Rightarrow>
    (var_id, 'f fp) btree \<Rightarrow> (var_id, 'f fp) btree" where
  "acc_entry L m g v = bt_entry v (\<lambda>e.
    (let x = g (case e of None \<Rightarrow> fp_zero L m | Some y \<Rightarrow> y) in if fp_is_zero L x then None else Some x))"

definition form_from_ir :: "('f, 'z) libs_scheme \<Rightarrow> nat \<Rightarrow> lin_comb \<Rightarrow> 'f form" where
  "form_from_ir L m lc =
    \<lparr>fk = fp_from_const L (lc_const lc) m,
     ft = fold (\<lambda>term t.
        (let c = fp_from_const L (t_coeff term) m in
         if fp_is_zero L c then t else acc_entry L m (\<lambda>x. fp_add L x c) (t_var term) t))
       (lc_terms lc) []\<rparr>"

definition form_is_const :: "'f form \<Rightarrow> bool" where
  "form_is_const f \<longleftrightarrow> ft f = []"

definition form_scale :: "('f, 'z) libs_scheme \<Rightarrow> 'f form \<Rightarrow> 'f fp \<Rightarrow> 'f form" where
  "form_scale L f mul =
    \<lparr>fk = fp_mul L (fk f) mul,
     ft = fold (\<lambda>(v, c) t. (let nc = fp_mul L c mul in if fp_is_zero L nc then t else bt_insert v nc t))
       (ft f) []\<rparr>"

definition form_sub :: "('f, 'z) libs_scheme \<Rightarrow> nat \<Rightarrow> 'f form \<Rightarrow> 'f form \<Rightarrow> 'f form" where
  "form_sub L m f g =
    \<lparr>fk = fp_sub L (fk f) (fk g),
     ft = fold (\<lambda>(v, c). acc_entry L m (\<lambda>x. fp_sub L x c) v) (ft g) (ft f)\<rparr>"

definition form_to_ir :: "('f, 'z) libs_scheme \<Rightarrow> 'f form \<Rightarrow> lin_comb" where
  "form_to_ir L f =
    \<lparr>lc_const = fc_from_bigint (int (fp_to_biguint L (fk f))),
     lc_terms = map (\<lambda>(v, c). \<lparr>t_coeff = fc_from_bigint (int (fp_to_biguint L c)), t_var = v\<rparr>) (ft f)\<rparr>"

text \<open>One form of \<^verbatim>\<open>subst_site\<close>: the rewritten form, the multiplier, the variables first introduced.\<close>

definition subst_term :: "('f, 'z) libs_scheme \<Rightarrow> 'f fp \<Rightarrow> var_id \<times> 'f fp \<Rightarrow>
    (var_id, 'f fp) btree \<times> var_id list \<Rightarrow> (var_id, 'f fp) btree \<times> var_id list" where
  "subst_term L m = (\<lambda>(var, co) (t, new_vars).
    (case bt_get t var of
      Some e \<Rightarrow> (let nv = fp_add L e (fp_mul L m co) in
        (if fp_is_zero L nv then bt_remove var t else bt_insert var nv t, new_vars))
    | None \<Rightarrow> (bt_insert var (fp_mul L m co) t, new_vars @ [var])))"

definition subst_form :: "('f, 'z) libs_scheme \<Rightarrow> var_id \<Rightarrow> 'f form \<Rightarrow> 'f form \<Rightarrow>
    'f form \<times> 'f fp option \<times> var_id list" where
  "subst_form L v vlc lc = (case bt_get (ft lc) v of
      None \<Rightarrow> (lc, None, [])
    | Some m \<Rightarrow>
        let (t, new_vars) = fold (subst_term L m) (ft vlc) (bt_remove v (ft lc), [])
        in (\<lparr>fk = fp_add L (fk lc) (fp_mul L m (fk vlc)), ft = t\<rparr>, Some m, new_vars))"

definition subst_site :: "('f, 'z) libs_scheme \<Rightarrow> 'f row3 \<Rightarrow> var_id \<Rightarrow> 'f form \<Rightarrow>
    ('f row3 \<times> var_id list \<times> 'f fp option list) option" where
  "subst_site L cj v vlc = (case cj of (a, b, c) \<Rightarrow>
    let (a', ma, na) = subst_form L v vlc a;
        (b', mb, nb) = subst_form L v vlc b;
        (c', mc, nc) = subst_form L v vlc c
    in if ma \<noteq> None \<or> mb \<noteq> None \<or> mc \<noteq> None
       then Some ((a', b', c'), na @ nb @ nc, [ma, mb, mc]) else None)"

definition relation :: "('f, 'z) libs_scheme \<Rightarrow> nat \<Rightarrow> 'f row3 \<Rightarrow> 'f form option" where
  "relation L m = (\<lambda>(a, b, c).
    if form_is_const a then Some (form_sub L m (form_scale L b (fk a)) c)
    else if form_is_const b then Some (form_sub L m (form_scale L a (fk b)) c)
    else None)"

section \<open>The worklist\<close>

record trace_step =
  ts_var :: var_id
  ts_row :: nat
  ts_lc :: lin_comb

record trace =
  tr_steps :: "trace_step list"
  tr_dropped :: "nat list"
  tr_substitutions :: "(nat \<times> u8 \<times> u32 \<times> field_const) list"

definition trace_default :: trace where
  "trace_default = \<lparr>tr_steps = [], tr_dropped = [], tr_substitutions = []\<rparr>"

record 'f min_state =
  ms_cons :: "'f row3 option list"
  ms_occ :: "nat list list"
  ms_queue :: "nat list"
  ms_in_queue :: "bool list"
  ms_eliminated :: "var_id set"
  ms_trace :: "trace option"

definition occ_push :: "nat list list \<Rightarrow> var_id \<Rightarrow> nat \<Rightarrow> nat list list" where
  "occ_push occ v j = occ[unat v := occ ! unat v @ [j]]"

text \<open>The serial substitution mutates the rows site by site; the fan-out computes every site
  from the rows as they were and then holds the results.\<close>

definition subst_serial :: "('f, 'z) libs_scheme \<Rightarrow> var_id \<Rightarrow> 'f form \<Rightarrow> nat list \<Rightarrow> 'f row3 option list \<Rightarrow>
    'f row3 option list \<times> (nat \<times> var_id list \<times> 'f fp option list) list" where
  "subst_serial L v vlc sites cons = foldl (\<lambda>(cons, changed) j.
      case cons ! j of None \<Rightarrow> (cons, changed)
      | Some cj \<Rightarrow> (case subst_site L cj v vlc of None \<Rightarrow> (cons, changed)
          | Some (cj', new) \<Rightarrow> (cons[j := Some cj'], changed @ [(j, new)])))
    (cons, []) sites"

definition subst_parallel :: "('f, 'z) libs_scheme \<Rightarrow> var_id \<Rightarrow> 'f form \<Rightarrow> nat list \<Rightarrow> 'f row3 option list \<Rightarrow>
    'f row3 option list \<times> (nat \<times> var_id list \<times> 'f fp option list) list" where
  "subst_parallel L v vlc sites cons =
    (let held = List.map_filter (\<lambda>j. case cons ! j of None \<Rightarrow> None
           | Some cj \<Rightarrow> map_option (Pair j) (subst_site L cj v vlc)) sites
     in (foldl (\<lambda>cons (j, cj', _). cons[j := Some cj']) cons held, map (\<lambda>(j, _, new). (j, new)) held))"

text \<open>The serial bookkeeping after the substitution, one changed site.\<close>

definition record_site :: "('f, 'z) libs_scheme \<Rightarrow> u32 \<Rightarrow> 'f min_state \<Rightarrow>
    nat \<times> var_id list \<times> 'f fp option list \<Rightarrow> 'f min_state" where
  "record_site L step st = (\<lambda>(j, new_vars, ms).
    let st = st\<lparr>ms_trace := map_option (\<lambda>t. t\<lparr>tr_substitutions := tr_substitutions t @
          concat (map (\<lambda>(form, mo). case mo of None \<Rightarrow> []
            | Some x \<Rightarrow> [(j, of_nat form, step, fc_from_bigint (int (fp_to_biguint L x)))])
          (enumerate 0 ms))\<rparr>) (ms_trace st)\<rparr>;
        st = st\<lparr>ms_occ := foldl (\<lambda>occ var. occ_push occ var j) (ms_occ st) new_vars\<rparr>
    in if \<not> ms_in_queue st ! j
       then st\<lparr>ms_in_queue := (ms_in_queue st)[j := True], ms_queue := ms_queue st @ [j]\<rparr> else st)"

definition eliminate :: "('f, 'z) libs_scheme \<Rightarrow> nat \<Rightarrow> var_id \<Rightarrow> 'f form \<Rightarrow> 'f min_state \<Rightarrow> 'f min_state" where
  "eliminate L i v vlc st =
    (let trace = map_option (\<lambda>t. t\<lparr>tr_steps := tr_steps t @
           [\<lparr>ts_var = v, ts_row = i, ts_lc = form_to_ir L vlc\<rparr>]\<rparr>) (ms_trace st);
         step = (case trace of None \<Rightarrow> 0 | Some t \<Rightarrow> of_nat (length (tr_steps t)) - 1);
         sites = remdups_adj (sort (ms_occ st ! unat v));
         cons0 = (ms_cons st)[i := None];
         (cons, changed) = (if length sites \<ge> PAR_SUBST_THRESHOLD
           then subst_parallel L v vlc sites cons0 else subst_serial L v vlc sites cons0)
     in foldl (record_site L step)
          (st\<lparr>ms_cons := cons, ms_eliminated := insert v (ms_eliminated st),
              ms_occ := (ms_occ st)[unat v := []], ms_trace := trace\<rparr>) changed)"

text \<open>The pivot of a relation: the lowest internal variable with its coefficient.\<close>

definition find_pivot :: "bool list \<Rightarrow> 'f form \<Rightarrow> (var_id \<times> 'f fp) option" where
  "find_pivot is_internal rel = List.find (\<lambda>(var, _). is_internal ! unat var) (ft rel)"

text \<open>\<open>v = - (rel without v) / coeff\<close>; the inverse is \<^verbatim>\<open>expect\<close>ed.\<close>

definition solve_pivot :: "('f, 'z) libs_scheme \<Rightarrow> 'f form \<Rightarrow> var_id \<Rightarrow> 'f fp \<Rightarrow> 'f form option" where
  "solve_pivot L rel v coeff =
    map_option (\<lambda>i. form_scale L (rel\<lparr>ft := bt_remove v (ft rel)\<rparr>) (fp_neg L i)) (fp_inverse L coeff)"

text \<open>The body of the loop, after row \<open>i\<close> has left the queue.\<close>

definition visit_row :: "('f, 'z) libs_scheme \<Rightarrow> nat \<Rightarrow> bool list \<Rightarrow> nat \<Rightarrow> nat \<Rightarrow> 'f min_state \<Rightarrow>
    'f min_state option" where
  "visit_row L m is_internal fill i st =
    (if length (ms_cons st) \<le> i then None else
     case ms_cons st ! i of None \<Rightarrow> Some st
     | Some c \<Rightarrow> (case relation L m c of None \<Rightarrow> Some st
       | Some rel \<Rightarrow>
         if ft rel = [] then
           Some (if fp_is_zero L (fk rel)
             then st\<lparr>ms_cons := (ms_cons st)[i := None],
               ms_trace := map_option (\<lambda>t. t\<lparr>tr_dropped := tr_dropped t @ [i]\<rparr>) (ms_trace st)\<rparr>
             else st)
         else (case find_pivot is_internal rel of None \<Rightarrow> Some st
           | Some (v, coeff) \<Rightarrow> (case solve_pivot L rel v coeff of None \<Rightarrow> None
             | Some vlc \<Rightarrow> Some (if length (ft vlc) > fill then st else eliminate L i v vlc st)))))"

definition alive :: "'f row3 option list \<Rightarrow> nat" where
  "alive cons = length (filter (\<lambda>c. c \<noteq> None) cons)"

lemma foldl_record_site [simp]:
  "ms_cons (foldl (record_site L step) st changed) = ms_cons st"
  "ms_eliminated (foldl (record_site L step) st changed) = ms_eliminated st"
  by (induction changed arbitrary: st) (simp_all add: record_site_def Let_def split: prod.split)

text \<open>Substitutions keep which rows are retired.\<close>

definition retired :: "'f row3 option list \<Rightarrow> bool list" where
  "retired cons = map (\<lambda>c. c = None) cons"

lemma retired_update_some: "cons ! j = Some c \<Longrightarrow> retired (cons[j := Some c']) = retired cons"
proof (cases "j < length cons")
  case True
  assume "cons ! j = Some c"
  then show ?thesis using True by (simp add: retired_def map_update list_update_same_conv)
qed (simp add: list_update_beyond)

lemma retired_subst_serial: "retired (fst (subst_serial L v vlc sites cons)) = retired cons"
proof -
  have "retired (fst (foldl (\<lambda>(cons, changed) j.
      case cons ! j of None \<Rightarrow> (cons, changed)
      | Some cj \<Rightarrow> (case subst_site L cj v vlc of None \<Rightarrow> (cons, changed)
          | Some (cj', new) \<Rightarrow> (cons[j := Some cj'], changed @ [(j, new)]))) (cons, ch) sites)) = retired cons" for ch
    by (induction sites arbitrary: cons ch) (auto simp: retired_update_some split: option.split)
  then show ?thesis by (simp add: subst_serial_def)
qed

text \<open>On distinct sites the fan-out and the serial loop give the same rows and the same changes.\<close>

lemma subst_parallel_serial:
  assumes "distinct sites"
  shows "subst_parallel L v vlc sites cons = subst_serial L v vlc sites cons"
proof -
  define held where "held = (\<lambda>cons. List.map_filter (\<lambda>j. case cons ! j of None \<Rightarrow> None
      | Some cj \<Rightarrow> map_option (Pair j) (subst_site L cj v vlc)))"
  define ser where "ser = (\<lambda>s sites. foldl (\<lambda>(cons, changed) j.
      case cons ! j of None \<Rightarrow> (cons, changed)
      | Some cj \<Rightarrow> (case subst_site L cj v vlc of None \<Rightarrow> (cons, changed)
          | Some (cj', new) \<Rightarrow> (cons[j := Some cj'], changed @ [(j, new)]))) s sites)"
  have other: "held (cons[j := x]) sites = held cons sites" if "j \<notin> set sites" for cons j x sites
    using that unfolding held_def
    by (induction sites) (auto simp: map_filter_simps split: option.splits)
  have "ser (cons, ch) sites = (foldl (\<lambda>cons (j, cj', _). cons[j := Some cj']) cons (held cons sites),
      ch @ map (\<lambda>(j, _, new). (j, new)) (held cons sites))" for ch
    using assms
  proof (induction sites arbitrary: cons ch)
    case (Cons j sites)
    have j: "held cons (j # sites) = (case cons ! j of None \<Rightarrow> held cons sites
        | Some cj \<Rightarrow> (case subst_site L cj v vlc of None \<Rightarrow> held cons sites
          | Some x \<Rightarrow> (j, x) # held cons sites))" for cons
      by (auto simp: held_def map_filter_simps split: option.split)
    show ?case
    proof (cases "cons ! j")
      case None
      then show ?thesis using Cons.IH [of cons ch] Cons.prems j [of cons] by (simp add: ser_def)
    next
      case (Some cj)
      show ?thesis
      proof (cases "subst_site L cj v vlc")
        case None
        then show ?thesis using Cons.IH [of cons ch] Cons.prems j [of cons] Some by (simp add: ser_def)
      next
        case (Some x)
        obtain cj' new where x: "x = (cj', new)" by (cases x)
        show ?thesis
          using Cons.IH [of "cons[j := Some cj']" "ch @ [(j, new)]"] Cons.prems j [of cons]
            \<open>cons ! j = Some cj\<close> Some other [of j sites cons "Some cj'"]
          by (simp add: ser_def x)
      qed
    qed
  qed (simp_all add: ser_def held_def map_filter_simps)
  from this [of "[]"] show ?thesis
    by (simp add: subst_parallel_def subst_serial_def Let_def held_def ser_def)
qed

lemma distinct_sites [simp]: "distinct (remdups_adj (sort (xs :: nat list)))"
proof -
  have "sorted ys \<Longrightarrow> distinct (remdups_adj ys)" for ys :: "nat list"
    by (induction ys rule: remdups_adj.induct) auto
  then show ?thesis by simp
qed

lemma alive_retired: "alive cons = length (filter Not (retired cons))"
  by (simp add: alive_def retired_def filter_map comp_def)

lemma alive_retire:
  assumes "i < length cons" "cons ! i \<noteq> None"
  shows "alive (cons[i := None]) < alive cons"
proof -
  have "{j. j < length cons \<and> cons[i := None] ! j \<noteq> None} \<subset> {j. j < length cons \<and> cons ! j \<noteq> None}"
    using assms by (auto simp: nth_list_update)
  then show ?thesis
    unfolding alive_def length_filter_conv_card by (simp add: psubset_card_mono)
qed

lemma eliminate_cons:
  "ms_cons (eliminate L i v vlc st) =
    fst (subst_serial L v vlc (remdups_adj (sort (ms_occ st ! unat v))) ((ms_cons st)[i := None]))"
  by (simp add: eliminate_def Let_def subst_parallel_serial split: prod.split)

lemma visit_row_alive:
  assumes "visit_row L m is_internal fill i st = Some st'"
  shows "st' = st \<or> alive (ms_cons st') < alive (ms_cons st)"
proof -
  have "alive (ms_cons (eliminate L i v vlc st)) = alive ((ms_cons st)[i := None])" for v vlc
    by (simp add: eliminate_cons alive_retired retired_subst_serial)
  then show ?thesis
    using assms alive_retire [of i "ms_cons st"]
    by (auto simp: visit_row_def split: if_splits option.splits prod.splits)
qed

text \<open>The loop: every turn takes a row off the queue, and only one that retires a row refills it.\<close>

function min_loop :: "('f, 'z) libs_scheme \<Rightarrow> nat \<Rightarrow> bool list \<Rightarrow> nat \<Rightarrow> 'f min_state \<Rightarrow> 'f min_state option" where
  "min_loop L m is_internal fill st = (case ms_queue st of [] \<Rightarrow> Some st
    | i # queue \<Rightarrow>
       (case visit_row L m is_internal fill i
           (st\<lparr>ms_queue := queue, ms_in_queue := (ms_in_queue st)[i := False]\<rparr>) of
          None \<Rightarrow> None
        | Some st' \<Rightarrow> min_loop L m is_internal fill st'))"
  by pat_completeness auto
termination
proof (relation "measures [\<lambda>(L, m, b, fill, st). alive (ms_cons st), \<lambda>(L, m, b, fill, st). length (ms_queue st)]")
  show "wf (measures [\<lambda>(L, m, b, fill, st). alive (ms_cons st), \<lambda>(L, m, b, fill, st). length (ms_queue st)])"
    by simp
qed (auto dest!: visit_row_alive)

declare min_loop.simps [simp del]

section \<open>The run\<close>

definition max_of :: "nat list \<Rightarrow> nat" where
  "max_of xs = fold max xs 0"

definition n_vars_of :: "r1cs_program \<Rightarrow> nat" where
  "n_vars_of prog =
    (let max_referenced = max_of (map (\<lambda>c. max_of (map (\<lambda>t. unat (t_var t) + 1)
           (lc_terms (rc_a c) @ lc_terms (rc_b c) @ lc_terms (rc_c c)))) (rp_constraints prog))
     in max (max_of (map (\<lambda>v. unat (rv_id v) + 1) (rp_variables prog))) max_referenced)"

definition internal_map :: "r1cs_program \<Rightarrow> bool list" where
  "internal_map prog = foldl (\<lambda>b v. if rv_visibility v = Internal then b[unat (rv_id v) := True] else b)
    (replicate (n_vars_of prog) False) (rp_variables prog)"

definition forms_of :: "'f row3 \<Rightarrow> 'f form list" where
  "forms_of = (\<lambda>(a, b, c). [a, b, c])"

definition row_keys :: "'f row3 \<Rightarrow> var_id list" where
  "row_keys c = concat (map (\<lambda>lc. bt_keys (ft lc)) (forms_of c))"

definition parse_rows :: "('f, 'z) libs_scheme \<Rightarrow> nat \<Rightarrow> r1cs_program \<Rightarrow> 'f row3 option list" where
  "parse_rows L m prog = map (\<lambda>c. Some (form_from_ir L m (rc_a c), form_from_ir L m (rc_b c),
     form_from_ir L m (rc_c c))) (rp_constraints prog)"

definition build_occ :: "nat \<Rightarrow> 'f row3 option list \<Rightarrow> nat list list" where
  "build_occ n cons = foldl (\<lambda>occ (i, c). case c of None \<Rightarrow> occ
      | Some c \<Rightarrow> foldl (\<lambda>occ v. occ_push occ v i) occ (row_keys c))
    (replicate n []) (enumerate 0 cons)"

definition min_start :: "('f, 'z) libs_scheme \<Rightarrow> nat \<Rightarrow> r1cs_program \<Rightarrow> trace option \<Rightarrow> 'f min_state" where
  "min_start L m prog trace =
    (let cons = parse_rows L m prog in
     \<lparr>ms_cons = cons, ms_occ = build_occ (n_vars_of prog) cons, ms_queue = [0..<length cons],
      ms_in_queue = replicate (length cons) True, ms_eliminated = {}, ms_trace = trace\<rparr>)"

text \<open>The check behind \<^verbatim>\<open>XARK_VERIFY\<close>: would this row still give an elimination?\<close>

definition missed_elimination :: "('f, 'z) libs_scheme \<Rightarrow> nat \<Rightarrow> bool list \<Rightarrow> nat \<Rightarrow> 'f row3 \<Rightarrow> bool" where
  "missed_elimination L m is_internal fill c =
    (case relation L m c of None \<Rightarrow> False
     | Some rel \<Rightarrow> (case find_pivot is_internal rel of None \<Rightarrow> False
       | Some (v, coeff) \<Rightarrow> (case solve_pivot L rel v coeff of None \<Rightarrow> True
         | Some vlc \<Rightarrow> length (ft vlc) \<le> fill)))"

definition survivors :: "'f row3 option list \<Rightarrow> 'f row3 list" where
  "survivors cons = List.map_filter (\<lambda>c. c) cons"

definition min_finish :: "('f, 'z) libs_scheme \<Rightarrow> r1cs_program \<Rightarrow> 'f min_state \<Rightarrow> r1cs_program" where
  "min_finish L prog st =
    (let referenced = concat (map row_keys (survivors (ms_cons st)))
     in \<lparr>rp_field = rp_field prog,
         rp_variables = filter (\<lambda>v. rv_id v \<notin> ms_eliminated st \<and>
             (rv_visibility v \<noteq> Internal \<or> rv_id v \<in> set referenced)) (rp_variables prog),
         rp_constraints = map (\<lambda>(i, (a, b, c)). \<lparr>rc_id = of_nat i, rc_a = form_to_ir L a,
             rc_b = form_to_ir L b, rc_c = form_to_ir L c, rc_debug = None\<rparr>)
           (enumerate 0 (survivors (ms_cons st)))\<rparr>)"

text \<open>\<^verbatim>\<open>run\<close>; \<open>verify\<close> is the flag \<^verbatim>\<open>XARK_VERIFY\<close>. A modulus of zero divides by zero at the
  first constant.\<close>

definition run_min :: "('f, 'z) libs_scheme \<Rightarrow> bool \<Rightarrow> r1cs_program \<Rightarrow> nat \<Rightarrow> trace option \<Rightarrow>
    (r1cs_program \<times> trace option) option" where
  "run_min L verify prog fill trace =
    (case fs_modulus_decimal (rp_field prog) of None \<Rightarrow> Some (prog, trace)
     | Some mod_dec \<Rightarrow> (case biguint_parse L mod_dec of None \<Rightarrow> Some (prog, trace)
       | Some modulus \<Rightarrow>
         if modulus = 0 \<and> rp_constraints prog \<noteq> [] then None
         else (case min_loop L modulus (internal_map prog) fill (min_start L modulus prog trace) of
             None \<Rightarrow> None
           | Some st \<Rightarrow>
             if verify \<and> list_ex (missed_elimination L modulus (internal_map prog) fill) (survivors (ms_cons st))
             then None else Some (min_finish L prog st, ms_trace st))))"

definition minimize_with_fill :: "('f, 'z) libs_scheme \<Rightarrow> bool \<Rightarrow> r1cs_program \<Rightarrow> nat \<Rightarrow> r1cs_program option" where
  "minimize_with_fill L verify prog fill = map_option fst (run_min L verify prog fill None)"

definition minimize :: "('f, 'z) libs_scheme \<Rightarrow> bool \<Rightarrow> r1cs_program \<Rightarrow> r1cs_program option" where
  "minimize L verify prog = minimize_with_fill L verify prog MAX_FILL"

definition minimize_traced :: "('f, 'z) libs_scheme \<Rightarrow> bool \<Rightarrow> r1cs_program \<Rightarrow> nat \<Rightarrow>
    (r1cs_program \<times> trace) option" where
  "minimize_traced L verify prog fill =
    map_option (\<lambda>(out, t). (out, the t)) (run_min L verify prog fill (Some trace_default))"

end
