(* ===== verification/Minimize_Forms.thy ===== *)
theory Minimize_Forms
  imports Minimize
begin

text \<open>
  What the form operations of \<^verbatim>\<open>minimize.rs\<close> compute. A form stands for an affine function of
  the assignment; every operation's value is stated for all assignments at once, modulo the
  field's modulus, beside the well-formedness it keeps (ascending keys, no zero coefficient)
  and the variables it can introduce.
\<close>

section \<open>Values of forms\<close>

definition coeff_term :: "('f, 'z) libs_scheme \<Rightarrow> (var_id \<Rightarrow> int) \<Rightarrow> var_id \<Rightarrow> 'f fp \<Rightarrow> int" where
  "coeff_term L \<sigma> v c = fp_val L c * \<sigma> v"

definition tree_val :: "('f, 'z) libs_scheme \<Rightarrow> (var_id \<Rightarrow> int) \<Rightarrow> (var_id, 'f fp) btree \<Rightarrow> int" where
  "tree_val L \<sigma> t = entries_sum (coeff_term L \<sigma>) t"

definition form_val :: "('f, 'z) libs_scheme \<Rightarrow> (var_id \<Rightarrow> int) \<Rightarrow> 'f form \<Rightarrow> int" where
  "form_val L \<sigma> f = fp_val L (fk f) + tree_val L \<sigma> (ft f)"

definition opt_val :: "('f, 'z) libs_scheme \<Rightarrow> 'f fp option \<Rightarrow> int" where
  "opt_val L e = (case e of None \<Rightarrow> 0 | Some c \<Rightarrow> fp_val L c)"

lemma opt_val_simps [simp]: "opt_val L None = 0" "opt_val L (Some c) = fp_val L c"
  by (simp_all add: opt_val_def)

definition entry_ok :: "('f, 'z) libs_scheme \<Rightarrow> nat \<Rightarrow> 'f fp option \<Rightarrow> bool" where
  "entry_ok L m e \<longleftrightarrow> (case e of None \<Rightarrow> True | Some c \<Rightarrow> fp_wf m c \<and> fp_val L c \<noteq> 0)"

lemma entry_ok_simps [simp]: "entry_ok L m None"
  "entry_ok L m (Some c) \<longleftrightarrow> fp_wf m c \<and> fp_val L c \<noteq> 0"
  by (simp_all add: entry_ok_def)

definition tree_ok :: "('f, 'z) libs_scheme \<Rightarrow> nat \<Rightarrow> (var_id, 'f fp) btree \<Rightarrow> bool" where
  "tree_ok L m t \<longleftrightarrow> bt_invar t \<and> (\<forall>v. entry_ok L m (bt_get t v))"

definition form_ok :: "('f, 'z) libs_scheme \<Rightarrow> nat \<Rightarrow> 'f form \<Rightarrow> bool" where
  "form_ok L m f \<longleftrightarrow> fp_wf m (fk f) \<and> tree_ok L m (ft f)"

definition form_keys :: "'f form \<Rightarrow> var_id set" where
  "form_keys f = dom (bt_get (ft f))"

lemma tree_okD: "tree_ok L m t \<Longrightarrow> bt_invar t" "tree_ok L m t \<Longrightarrow> entry_ok L m (bt_get t v)"
  by (simp_all add: tree_ok_def)

lemma bt_get_Nil [simp]: "bt_get [] = Map.empty"
  by (rule ext) simp

lemma tree_ok_Nil [simp]: "tree_ok L m []"
  by (simp add: tree_ok_def)

lemma tree_val_Nil [simp]: "tree_val L \<sigma> [] = 0"
  by (simp add: tree_val_def)

lemma tree_val_entries: "tree_val L \<sigma> t = (\<Sum>(v, c) \<leftarrow> t. fp_val L c * \<sigma> v)"
  by (simp add: tree_val_def entries_sum_def coeff_term_def)

text \<open>\<open>t'\<close> is \<open>t\<close> with the terms \<open>ds\<close> added.\<close>

definition tree_adds :: "('f, 'z) libs_scheme \<Rightarrow> nat \<Rightarrow> (var_id, 'f fp) btree \<Rightarrow> (var_id \<times> int) list \<Rightarrow>
    (var_id, 'f fp) btree \<Rightarrow> bool" where
  "tree_adds L m t ds t' \<longleftrightarrow> tree_ok L m t' \<and> dom (bt_get t') \<subseteq> dom (bt_get t) \<union> fst ` set ds \<and>
    (\<forall>\<sigma>. tree_val L \<sigma> t' mod int m = (tree_val L \<sigma> t + (\<Sum>(v, d) \<leftarrow> ds. d * \<sigma> v)) mod int m)"

lemma tree_adds_refl: "tree_ok L m t \<Longrightarrow> tree_adds L m t [] t"
  by (simp add: tree_adds_def)

lemma tree_adds_trans:
  assumes "tree_adds L m t ds t'" "tree_adds L m t' es t''"
  shows "tree_adds L m t (ds @ es) t''"
proof -
  have "tree_val L \<sigma> t'' mod int m =
      (tree_val L \<sigma> t + (\<Sum>(v, d) \<leftarrow> ds. d * \<sigma> v) + (\<Sum>(v, d) \<leftarrow> es. d * \<sigma> v)) mod int m" for \<sigma>
    using assms unfolding tree_adds_def by (metis mod_add_left_eq)
  moreover have "dom (bt_get t'') \<subseteq> dom (bt_get t) \<union> fst ` set (ds @ es)"
    using assms unfolding tree_adds_def set_append image_Un by blast
  ultimately show ?thesis using assms(2) by (simp add: tree_adds_def add.assoc)
qed

lemma tree_adds_one:
  assumes t: "tree_ok L m t" and e: "entry_ok L m (f (bt_get t v))"
    and d: "opt_val L (f (bt_get t v)) mod int m = (opt_val L (bt_get t v) + d) mod int m"
  shows "tree_adds L m t [(v, d)] (bt_entry v f t)"
proof -
  let ?t' = "bt_entry v f t"
  have inv: "bt_invar t" using t by (rule tree_okD)
  have get: "bt_get ?t' = (bt_get t)(v := f (bt_get t v))" using inv by (rule btree.lookup_entry)
  have ok: "tree_ok L m ?t'"
    unfolding tree_ok_def get using t e by (auto simp: tree_ok_def btree.invar_entry)
  have w: "opt_weight (coeff_term L \<sigma>) v e = opt_val L e * \<sigma> v" for \<sigma> e
    by (cases e) (simp_all add: coeff_term_def)
  have "tree_val L \<sigma> ?t' mod int m = (tree_val L \<sigma> t + d * \<sigma> v) mod int m" for \<sigma>
  proof -
    have "int m dvd opt_val L (f (bt_get t v)) - (opt_val L (bt_get t v) + d)"
      using d by (simp add: mod_eq_dvd_iff)
    then have "int m dvd (opt_val L (f (bt_get t v)) - (opt_val L (bt_get t v) + d)) * \<sigma> v" by simp
    moreover have "tree_val L \<sigma> ?t' + opt_val L (bt_get t v) * \<sigma> v =
        tree_val L \<sigma> t + opt_val L (f (bt_get t v)) * \<sigma> v"
      unfolding tree_val_def w [symmetric] by (rule btree.entries_sum_entry [OF inv])
    moreover from this have "tree_val L \<sigma> ?t' - (tree_val L \<sigma> t + d * \<sigma> v) =
        (opt_val L (f (bt_get t v)) - (opt_val L (bt_get t v) + d)) * \<sigma> v"
      by (simp add: algebra_simps)
    ultimately have "int m dvd tree_val L \<sigma> ?t' - (tree_val L \<sigma> t + d * \<sigma> v)" by simp
    then show ?thesis by (simp add: mod_eq_dvd_iff)
  qed
  then show ?thesis using ok by (auto simp: tree_adds_def get split: if_splits)
qed

text \<open>Folds of such steps; the second form may assume that the key is new.\<close>

lemma fold_tree_adds:
  assumes "\<And>x t. x \<in> set xs \<Longrightarrow> tree_ok L m t \<Longrightarrow> tree_adds L m t [(k x, d x)] (step x t)" "tree_ok L m t"
  shows "tree_adds L m t (map (\<lambda>x. (k x, d x)) xs) (fold step xs t)"
  using assms
proof (induction xs arbitrary: t)
  case (Cons x xs)
  have one: "tree_adds L m t [(k x, d x)] (step x t)" using Cons.prems by simp
  moreover have "tree_adds L m (step x t) (map (\<lambda>x. (k x, d x)) xs) (fold step xs (step x t))"
    using Cons one by (simp add: tree_adds_def)
  ultimately show ?case using tree_adds_trans by fastforce
qed (simp add: tree_adds_refl)

lemma fold_tree_adds_fresh:
  assumes "\<And>x t. x \<in> set xs \<Longrightarrow> tree_ok L m t \<Longrightarrow> bt_get t (k x) = None \<Longrightarrow> tree_adds L m t [(k x, d x)] (step x t)"
    "tree_ok L m t" "distinct (map k xs)" "\<And>x. x \<in> set xs \<Longrightarrow> bt_get t (k x) = None"
  shows "tree_adds L m t (map (\<lambda>x. (k x, d x)) xs) (fold step xs t)"
  using assms
proof (induction xs arbitrary: t)
  case (Cons x xs)
  have one: "tree_adds L m t [(k x, d x)] (step x t)" using Cons.prems by simp
  have "bt_get (step x t) (k y) = None" if "y \<in> set xs" for y
  proof -
    have "k y \<noteq> k x" "k y \<notin> dom (bt_get t)" using Cons.prems(3,4) that by (auto simp: image_iff)
    then show ?thesis using one by (auto simp: tree_adds_def)
  qed
  then have "tree_adds L m (step x t) (map (\<lambda>x. (k x, d x)) xs) (fold step xs (step x t))"
    using Cons one by (simp add: tree_adds_def)
  with one show ?case using tree_adds_trans by fastforce
qed (simp add: tree_adds_refl)

lemma sum_list_scaled: "(\<Sum>x \<leftarrow> xs. k * f x) = (k :: int) * (\<Sum>x \<leftarrow> xs. f x)"
  by (induction xs) (simp_all add: distrib_left)

section \<open>The operations\<close>

definition row_form_ok :: "('f, 'z) libs_scheme \<Rightarrow> nat \<Rightarrow> 'f row3 \<Rightarrow> bool" where
  "row_form_ok L m r \<longleftrightarrow> list_all (form_ok L m) (forms_of r)"

definition row_form_keys :: "'f row3 \<Rightarrow> var_id set" where
  "row_form_keys r = (\<Union>f \<in> set (forms_of r). form_keys f)"

definition row_form_val :: "('f, 'z) libs_scheme \<Rightarrow> (var_id \<Rightarrow> int) \<Rightarrow> 'f row3 \<Rightarrow> int" where
  "row_form_val L \<sigma> = (\<lambda>(a, b, c). form_val L \<sigma> a * form_val L \<sigma> b - form_val L \<sigma> c)"

lemma row_keys_set: "set (row_keys r) = row_form_keys r"
  by (auto simp: row_keys_def row_form_keys_def form_keys_def bt_keys_dom)

lemma form_val_cong: "form_ok L m f \<Longrightarrow> (\<And>v. v \<in> form_keys f \<Longrightarrow> \<sigma> v = \<tau> v) \<Longrightarrow> form_val L \<sigma> f = form_val L \<tau> f"
proof -
  assume f: "form_ok L m f" and eq: "\<And>v. v \<in> form_keys f \<Longrightarrow> \<sigma> v = \<tau> v"
  have "fp_val L (snd x) * \<sigma> (fst x) = fp_val L (snd x) * \<tau> (fst x)" if "x \<in> set (ft f)" for x
  proof -
    have "fst x \<in> form_keys f"
      using that unfolding form_keys_def bt_keys_dom [symmetric] by (simp add: bt_keys_def)
    then show ?thesis using eq by simp
  qed
  then have "tree_val L \<sigma> (ft f) = tree_val L \<tau> (ft f)"
    unfolding tree_val_entries by (intro sum_list_map_cong) (simp add: split_beta)
  then show ?thesis by (simp add: form_val_def)
qed

context field_ctx
begin

lemma opt_val_zero_entry: "opt_val L (case e of None \<Rightarrow> Some (fp_zero L m) | Some y \<Rightarrow> Some y) = opt_val L e"
  by (cases e) (simp_all add: fp_zero_val)

lemma acc_entry_adds:
  assumes t: "tree_ok L m t"
    and g: "\<And>x. fp_wf m x \<Longrightarrow> fp_wf m (g x) \<and> fp_val L (g x) mod int m = (fp_val L x + d) mod int m"
  shows "tree_adds L m t [(v, d)] (acc_entry L m g v t)"
proof -
  let ?e = "case bt_get t v of None \<Rightarrow> fp_zero L m | Some y \<Rightarrow> y"
  have e: "fp_wf m ?e" "fp_val L ?e = opt_val L (bt_get t v)"
    using tree_okD(2) [OF t, of v] by (auto simp: fp_zero_val split: option.split)
  note ge = g [OF e(1)]
  have z: "fp_is_zero L (g ?e) \<longleftrightarrow> fp_val L (g ?e) = 0" using ge by (simp add: fp_is_zero_val)
  show ?thesis
    unfolding acc_entry_def Let_def
  proof (rule tree_adds_one [OF t])
    show "entry_ok L m (if fp_is_zero L (g ?e) then None else Some (g ?e))" using ge z by simp
    show "opt_val L (if fp_is_zero L (g ?e) then None else Some (g ?e)) mod int m =
        (opt_val L (bt_get t v) + d) mod int m"
      using ge z e(2) by (cases "fp_is_zero L (g ?e)") auto
  qed
qed

lemma insert_adds:
  assumes "tree_ok L m t" "bt_get t v = None" "fp_wf m c" "fp_val L c \<noteq> 0" "fp_val L c mod int m = d mod int m"
  shows "tree_adds L m t [(v, d)] (bt_insert v c t)"
  unfolding bt_insert_def using assms by (intro tree_adds_one) auto

lemma skip_adds: "tree_ok L m t \<Longrightarrow> d mod int m = 0 \<Longrightarrow> tree_adds L m t [(v, d)] t"
proof -
  assume "tree_ok L m t" "d mod int m = 0"
  then have "(x + d * y) mod int m = x mod int m" for x y
    by (metis add_0_right mod_add_right_eq mod_mult_left_eq mult_zero_left)
  then show ?thesis using \<open>tree_ok L m t\<close> by (auto simp: tree_adds_def)
qed

lemma form_from_ir:
  "form_ok L m (form_from_ir L m lc)"
  "form_keys (form_from_ir L m lc) \<subseteq> lc_vars lc"
  "form_val L \<sigma> (form_from_ir L m lc) mod int m = lc_val \<sigma> lc mod int m"
proof -
  let ?step = "\<lambda>term t. (let c = fp_from_const L (t_coeff term) m in
         if fp_is_zero L c then t else acc_entry L m (\<lambda>x. fp_add L x c) (t_var term) t)"
  have "tree_adds L m t [(t_var x, fc_big (t_coeff x))] (?step x t)" if "tree_ok L m t" for x t
    using that
    by (auto simp: Let_def fp_is_zero_val fp_from_const_val fp_add_val mod_simps intro!: acc_entry_adds skip_adds)
  then have "tree_adds L m [] (map (\<lambda>t. (t_var t, fc_big (t_coeff t))) (lc_terms lc)) (fold ?step (lc_terms lc) [])"
    by (intro fold_tree_adds) auto
  then have t: "tree_adds L m [] (map (\<lambda>t. (t_var t, fc_big (t_coeff t))) (lc_terms lc)) (ft (form_from_ir L m lc))"
    by (simp add: form_from_ir_def)
  then show "form_ok L m (form_from_ir L m lc)"
    by (simp add: form_ok_def tree_adds_def form_from_ir_def fp_from_const_val)
  show "form_keys (form_from_ir L m lc) \<subseteq> lc_vars lc"
    using t by (simp add: form_keys_def lc_vars_def tree_adds_def image_image)
  have "tree_val L \<sigma> (ft (form_from_ir L m lc)) mod int m = terms_val \<sigma> (lc_terms lc) mod int m"
    using t by (simp add: tree_adds_def terms_val_def comp_def)
  moreover have "fp_val L (fk (form_from_ir L m lc)) = fc_big (lc_const lc) mod int m"
    by (simp add: form_from_ir_def fp_from_const_val)
  ultimately show "form_val L \<sigma> (form_from_ir L m lc) mod int m = lc_val \<sigma> lc mod int m"
    unfolding form_val_def lc_val_def by (metis mod_add_cong mod_mod_trivial)
qed

lemma form_parts:
  assumes "tree_adds L m t ds (ft f)" "fp_wf m (fk f)" "fp_val L (fk f) mod int m = k mod int m"
  shows "form_ok L m f" "form_keys f \<subseteq> dom (bt_get t) \<union> fst ` set ds"
    "form_val L \<sigma> f mod int m = (k + (tree_val L \<sigma> t + (\<Sum>(v, d) \<leftarrow> ds. d * \<sigma> v))) mod int m"
proof -
  show "form_ok L m f" "form_keys f \<subseteq> dom (bt_get t) \<union> fst ` set ds"
    using assms by (simp_all add: form_ok_def tree_adds_def form_keys_def)
  have "tree_val L \<sigma> (ft f) mod int m = (tree_val L \<sigma> t + (\<Sum>(v, d) \<leftarrow> ds. d * \<sigma> v)) mod int m"
    using assms(1) by (simp add: tree_adds_def)
  then show "form_val L \<sigma> f mod int m = (k + (tree_val L \<sigma> t + (\<Sum>(v, d) \<leftarrow> ds. d * \<sigma> v))) mod int m"
    unfolding form_val_def by (rule mod_add_cong [OF assms(3)])
qed

lemma tree_entries:
  assumes "tree_ok L m t" "(v, c) \<in> set t"
  shows "bt_get t v = Some c" "fp_wf m c" "fp_val L c \<noteq> 0"
proof -
  show get: "bt_get t v = Some c"
    using assms btree.lookup_in_items [of t v c] by (simp add: tree_ok_def)
  show "fp_wf m c" "fp_val L c \<noteq> 0" using tree_okD(2) [OF assms(1), of v] get by simp_all
qed

lemma form_scale:
  assumes f: "form_ok L m f" and x: "fp_wf m x"
  shows "form_ok L m (form_scale L f x)" "form_keys (form_scale L f x) \<subseteq> form_keys f"
    "form_val L \<sigma> (form_scale L f x) mod int m = form_val L \<sigma> f * fp_val L x mod int m"
proof -
  have t: "tree_ok L m (ft f)" "fp_wf m (fk f)" using f by (simp_all add: form_ok_def)
  let ?step = "\<lambda>(v, c) t. (let nc = fp_mul L c x in if fp_is_zero L nc then t else bt_insert v nc t)"
  have "tree_adds L m s [(fst e, fp_val L (snd e) * fp_val L x)] (?step e s)"
    if "e \<in> set (ft f)" "tree_ok L m s" "bt_get s (fst e) = None" for e s
    using that tree_entries [OF t(1), of "fst e" "snd e"] x
    by (auto simp: Let_def fp_is_zero_val fp_mul_val split_beta intro!: insert_adds skip_adds)
  then have "tree_adds L m [] (map (\<lambda>e. (fst e, fp_val L (snd e) * fp_val L x)) (ft f)) (fold ?step (ft f) [])"
    using btree.items_distinct [OF tree_okD(1) [OF t(1)]] by (intro fold_tree_adds_fresh) auto
  then have "tree_adds L m [] (map (\<lambda>e. (fst e, fp_val L (snd e) * fp_val L x)) (ft f)) (ft (form_scale L f x))"
    by (simp add: form_scale_def)
  note p = form_parts [OF this, of "fp_val L (fk f) * fp_val L x"]
  have k: "fp_wf m (fk (form_scale L f x))"
    "fp_val L (fk (form_scale L f x)) mod int m = fp_val L (fk f) * fp_val L x mod int m"
    using t x by (simp_all add: form_scale_def fp_mul_val)
  show "form_ok L m (form_scale L f x)" using p(1) [OF k] .
  show "form_keys (form_scale L f x) \<subseteq> form_keys f"
    using p(2) [OF k] unfolding form_keys_def bt_keys_dom [symmetric] by (simp add: bt_keys_def image_image)
  have "(\<Sum>e \<leftarrow> ft f. fp_val L (snd e) * fp_val L x * \<sigma> (fst e)) = fp_val L x * tree_val L \<sigma> (ft f)"
    unfolding tree_val_entries sum_list_scaled [symmetric] by (simp add: split_beta ac_simps)
  then show "form_val L \<sigma> (form_scale L f x) mod int m = form_val L \<sigma> f * fp_val L x mod int m"
    using p(3) [OF k, of \<sigma>] by (simp add: comp_def form_val_def algebra_simps)
qed

lemma form_sub:
  assumes f: "form_ok L m f" and g: "form_ok L m g"
  shows "form_ok L m (form_sub L m f g)" "form_keys (form_sub L m f g) \<subseteq> form_keys f \<union> form_keys g"
    "form_val L \<sigma> (form_sub L m f g) mod int m = (form_val L \<sigma> f - form_val L \<sigma> g) mod int m"
proof -
  have t: "tree_ok L m (ft f)" "fp_wf m (fk f)" "tree_ok L m (ft g)" "fp_wf m (fk g)"
    using f g by (simp_all add: form_ok_def)
  let ?step = "\<lambda>(v, c). acc_entry L m (\<lambda>x. fp_sub L x c) v"
  have "tree_adds L m s [(fst e, - fp_val L (snd e))] (?step e s)"
    if "e \<in> set (ft g)" "tree_ok L m s" for e s
    using that tree_entries [OF t(3), of "fst e" "snd e"]
    by (auto simp: split_beta fp_sub_val intro!: acc_entry_adds)
  then have "tree_adds L m (ft f) (map (\<lambda>e. (fst e, - fp_val L (snd e))) (ft g)) (fold ?step (ft g) (ft f))"
    using t by (intro fold_tree_adds) auto
  then have "tree_adds L m (ft f) (map (\<lambda>e. (fst e, - fp_val L (snd e))) (ft g)) (ft (form_sub L m f g))"
    by (simp add: form_sub_def)
  note p = form_parts [OF this, of "fp_val L (fk f) - fp_val L (fk g)"]
  have k: "fp_wf m (fk (form_sub L m f g))"
    "fp_val L (fk (form_sub L m f g)) mod int m = (fp_val L (fk f) - fp_val L (fk g)) mod int m"
    using t by (simp_all add: form_sub_def fp_sub_val)
  show "form_ok L m (form_sub L m f g)" using p(1) [OF k] .
  show "form_keys (form_sub L m f g) \<subseteq> form_keys f \<union> form_keys g"
    using p(2) [OF k] unfolding form_keys_def bt_keys_dom [symmetric] by (simp add: bt_keys_def image_image)
  have "(\<Sum>e \<leftarrow> ft g. - fp_val L (snd e) * \<sigma> (fst e)) = - tree_val L \<sigma> (ft g)"
    unfolding tree_val_entries by (induction "ft g" rule: rev_induct; simp add: split_beta uminus_sum_list_map comp_def)
  then show "form_val L \<sigma> (form_sub L m f g) mod int m = (form_val L \<sigma> f - form_val L \<sigma> g) mod int m"
    using p(3) [OF k, of \<sigma>] by (simp add: comp_def form_val_def algebra_simps)
qed

lemma form_to_ir:
  "lc_val \<sigma> (form_to_ir L f) = form_val L \<sigma> f" "lc_vars (form_to_ir L f) = form_keys f"
proof -
  show "lc_val \<sigma> (form_to_ir L f) = form_val L \<sigma> f"
    by (simp add: lc_val_def terms_val_def form_to_ir_def form_val_def tree_val_entries fp_val_def
        case_prod_unfold comp_def)
  show "lc_vars (form_to_ir L f) = form_keys f"
    unfolding form_keys_def bt_keys_dom [symmetric]
    by (simp add: lc_vars_def form_to_ir_def bt_keys_def image_image split_beta)
qed

lemma const_form: "form_is_const f \<Longrightarrow> form_val L \<sigma> f = fp_val L (fk f)" "form_is_const f \<Longrightarrow> form_keys f = {}"
  by (simp_all add: form_is_const_def form_val_def form_keys_def)

lemma relation:
  assumes r: "row_form_ok L m r" and rel: "relation L m r = Some rel"
  shows "form_ok L m rel" "form_keys rel \<subseteq> row_form_keys r"
    "form_val L \<sigma> rel mod int m = row_form_val L \<sigma> r mod int m"
proof -
  obtain a b c where abc: "r = (a, b, c)" by (cases r)
  have ok: "form_ok L m a" "form_ok L m b" "form_ok L m c" "fp_wf m (fk a)" "fp_wf m (fk b)"
    using r by (simp_all add: abc row_form_ok_def forms_of_def form_ok_def)
  have keys: "row_form_keys r = form_keys a \<union> form_keys b \<union> form_keys c"
    by (simp add: abc row_form_keys_def forms_of_def Un_assoc)
  have lin: "form_ok L m (form_sub L m (form_scale L f x) c)"
    "form_keys (form_sub L m (form_scale L f x) c) \<subseteq> form_keys f \<union> form_keys c"
    "form_val L \<sigma> (form_sub L m (form_scale L f x) c) mod int m =
      (form_val L \<sigma> f * fp_val L x - form_val L \<sigma> c) mod int m"
    if f: "form_ok L m f" "fp_wf m x" for f x
  proof -
    note sc = form_scale [OF f] and sb = form_sub [OF form_scale(1) [OF f] ok(3)]
    show "form_ok L m (form_sub L m (form_scale L f x) c)" by (rule sb)
    show "form_keys (form_sub L m (form_scale L f x) c) \<subseteq> form_keys f \<union> form_keys c" using sb(2) sc(2) by blast
    show "form_val L \<sigma> (form_sub L m (form_scale L f x) c) mod int m =
        (form_val L \<sigma> f * fp_val L x - form_val L \<sigma> c) mod int m"
      using sb(3) [of \<sigma>] mod_diff_cong [OF sc(3) refl] by simp
  qed
  consider "form_is_const a" "rel = form_sub L m (form_scale L b (fk a)) c"
    | "\<not> form_is_const a" "form_is_const b" "rel = form_sub L m (form_scale L a (fk b)) c"
    using rel by (auto simp: abc relation_def split: if_splits)
  then have "form_ok L m rel \<and> form_keys rel \<subseteq> row_form_keys r \<and>
      form_val L \<sigma> rel mod int m = row_form_val L \<sigma> r mod int m"
  proof cases
    case 1
    have eq: "row_form_val L \<sigma> r = form_val L \<sigma> b * fp_val L (fk a) - form_val L \<sigma> c"
      using 1 by (simp add: abc row_form_val_def const_form)
    have "form_keys rel \<subseteq> row_form_keys r" using 1 lin(2) [OF ok(2,4)] keys by auto
    then show ?thesis using 1 lin(1,3) [OF ok(2,4)] unfolding eq by simp
  next
    case 2
    have eq: "row_form_val L \<sigma> r = form_val L \<sigma> a * fp_val L (fk b) - form_val L \<sigma> c"
      using 2 by (simp add: abc row_form_val_def const_form)
    have "form_keys rel \<subseteq> row_form_keys r" using 2 lin(2) [OF ok(1,5)] keys by auto
    then show ?thesis using 2 lin(1,3) [OF ok(1,5)] unfolding eq by simp
  qed
  then show "form_ok L m rel" "form_keys rel \<subseteq> row_form_keys r"
    "form_val L \<sigma> rel mod int m = row_form_val L \<sigma> r mod int m" by simp_all
qed

lemma remove_adds:
  assumes "tree_ok L m t" "bt_get t v = Some c"
  shows "tree_adds L m t [(v, - fp_val L c)] (bt_remove v t)" "bt_get (bt_remove v t) = (bt_get t)(v := None)"
  using assms tree_okD(1) [OF assms(1)] unfolding bt_remove_def
  by (auto intro!: tree_adds_one simp: btree.lookup_entry)

lemma solve_pivot:
  assumes p: "nat_prime m" and rel: "form_ok L m rel" and v: "bt_get (ft rel) v = Some coeff"
  shows "\<exists>vlc. solve_pivot L rel v coeff = Some vlc \<and> form_ok L m vlc \<and> form_keys vlc \<subseteq> form_keys rel - {v} \<and>
    (\<forall>\<sigma>. form_val L \<sigma> rel mod int m = fp_val L coeff * (\<sigma> v - form_val L \<sigma> vlc) mod int m)"
proof -
  have t: "tree_ok L m (ft rel)" "fp_wf m (fk rel)" using rel by (simp_all add: form_ok_def)
  have c: "fp_wf m coeff" "fp_val L coeff \<noteq> 0" using tree_okD(2) [OF t(1), of v] v by simp_all
  obtain i where i: "fp_inverse L coeff = Some i" "fp_wf m i" "fp_val L coeff * fp_val L i mod int m = 1"
    using fp_inverse_unit [OF p c] by blast
  let ?rest = "rel\<lparr>ft := bt_remove v (ft rel)\<rparr>"
  note rem = remove_adds [OF t(1) v]
  have rest: "form_ok L m ?rest" "form_keys ?rest \<subseteq> form_keys rel - {v}"
    using rem t by (auto simp: form_ok_def tree_adds_def form_keys_def)
  have rest_val: "form_val L \<sigma> ?rest mod int m = (form_val L \<sigma> rel - fp_val L coeff * \<sigma> v) mod int m" for \<sigma>
  proof -
    have "tree_val L \<sigma> (bt_remove v (ft rel)) mod int m = (tree_val L \<sigma> (ft rel) - fp_val L coeff * \<sigma> v) mod int m"
      using rem(1) by (simp add: tree_adds_def)
    from mod_add_cong [OF refl this, of "fp_val L (fk rel)"] show ?thesis by (simp add: form_val_def algebra_simps)
  qed
  have ni: "fp_wf m (fp_neg L i)" using i(2) by (rule fp_neg_val)
  let ?vlc = "form_scale L ?rest (fp_neg L i)"
  note sc = form_scale [OF rest(1) ni]
  have neg: "fp_val L (fp_neg L i) mod int m = - fp_val L i mod int m" using fp_neg_val(2) [OF i(2)] by simp
  have "form_val L \<sigma> rel mod int m = fp_val L coeff * (\<sigma> v - form_val L \<sigma> ?vlc) mod int m" for \<sigma>
  proof -
    have "form_val L \<sigma> ?vlc mod int m = (form_val L \<sigma> rel - fp_val L coeff * \<sigma> v) * (- fp_val L i) mod int m"
      using sc(3) [of \<sigma>] mod_mult_cong [OF rest_val [of \<sigma>] neg] by simp
    then have d: "int m dvd form_val L \<sigma> ?vlc + (form_val L \<sigma> rel - fp_val L coeff * \<sigma> v) * fp_val L i"
      by (simp add: mod_eq_dvd_iff)
    have one: "int m dvd fp_val L coeff * fp_val L i - 1"
      using i(3) m_gt_1 by (simp flip: mod_eq_dvd_iff)
    let ?R = "form_val L \<sigma> rel - fp_val L coeff * \<sigma> v"
    have "int m dvd fp_val L coeff * (form_val L \<sigma> ?vlc + ?R * fp_val L i) - ?R * (fp_val L coeff * fp_val L i - 1)"
      by (rule dvd_diff [OF dvd_mult [OF d] dvd_mult [OF one]])
    then have "int m dvd form_val L \<sigma> rel - fp_val L coeff * (\<sigma> v - form_val L \<sigma> ?vlc)"
      by (simp add: algebra_simps)
    then show ?thesis by (simp add: mod_eq_dvd_iff)
  qed
  moreover have "form_keys ?vlc \<subseteq> form_keys rel - {v}" using sc(2) rest(2) by blast
  ultimately show ?thesis using sc(1) i(1) by (auto simp: solve_pivot_def)
qed

text \<open>Substitution: the form changes by the multiplier times what was substituted.\<close>

lemma subst_term_adds:
  assumes p: "nat_prime m" and x: "fp_wf m x" "fp_val L x \<noteq> 0" and co: "fp_wf m co" "fp_val L co \<noteq> 0"
    and t: "tree_ok L m t" and st: "subst_term L x (var, co) (t, new) = (t', new')"
  shows "tree_adds L m t [(var, fp_val L x * fp_val L co)] t'"
    "dom (bt_get t') - dom (bt_get t) \<subseteq> set new'" "set new \<subseteq> set new'" "set new' \<subseteq> insert var (set new)"
proof -
  let ?mc = "fp_mul L x co"
  have mc: "fp_wf m ?mc" "fp_val L ?mc = fp_val L x * fp_val L co mod int m"
    using x co by (simp_all add: fp_mul_val)
  have "\<not> int m dvd fp_val L x" "\<not> int m dvd fp_val L co"
    using x co fp_val_range zdvd_not_zless by (metis less_le)+
  then have nz: "fp_val L ?mc \<noteq> 0"
    unfolding mc(2) mod_eq_zero_dvd by (simp add: int_prime_dvd_mult [OF p])
  have inv: "bt_invar t" using t by (rule tree_okD)
  have "tree_adds L m t [(var, fp_val L x * fp_val L co)] t' \<and> dom (bt_get t') - dom (bt_get t) \<subseteq> set new' \<and>
      set new \<subseteq> set new' \<and> set new' \<subseteq> insert var (set new)"
  proof (cases "bt_get t var")
    case None
    then have t': "t' = bt_insert var ?mc t" "new' = new @ [var]" using st by (simp_all add: subst_term_def)
    have "tree_adds L m t [(var, fp_val L x * fp_val L co)] t'"
      unfolding t' using t None mc nz by (intro insert_adds) auto
    then show ?thesis unfolding t'(2) by (auto simp: tree_adds_def)
  next
    case (Some e)
    let ?nv = "fp_add L e ?mc"
    have e: "fp_wf m e" using tree_okD(2) [OF t, of var] Some by simp
    have nv: "fp_wf m ?nv" "fp_val L ?nv = (fp_val L e + fp_val L x * fp_val L co) mod int m"
      using e mc by (simp_all add: fp_add_val mod_simps)
    have t': "t' = (if fp_is_zero L ?nv then bt_remove var t else bt_insert var ?nv t)" "new' = new"
      using st Some by (simp_all add: subst_term_def Let_def)
    have "tree_adds L m t [(var, fp_val L x * fp_val L co)] t'"
    proof (cases "fp_is_zero L ?nv")
      case True
      then have "(fp_val L e + fp_val L x * fp_val L co) mod int m = 0"
        using nv fp_is_zero_val [OF nv(1)] by simp
      then show ?thesis unfolding t' using True t Some
        by (simp add: bt_remove_def) (rule tree_adds_one, simp_all)
    next
      case False
      then have "fp_val L ?nv \<noteq> 0" using fp_is_zero_val [OF nv(1)] by simp
      with nv(1) have ok: "entry_ok L m (Some ?nv)" by simp
      have "opt_val L (Some ?nv) mod int m = (opt_val L (bt_get t var) + fp_val L x * fp_val L co) mod int m"
        using nv(2) Some by simp
      then show ?thesis unfolding t' using False t ok by (simp add: bt_insert_def) (rule tree_adds_one, simp_all)
    qed
    moreover have "dom (bt_get t') \<subseteq> dom (bt_get t)"
      unfolding t' using inv Some by (auto split: if_splits)
    ultimately show ?thesis unfolding t'(2) by auto
  qed
  then show "tree_adds L m t [(var, fp_val L x * fp_val L co)] t'"
    "dom (bt_get t') - dom (bt_get t) \<subseteq> set new'" "set new \<subseteq> set new'" "set new' \<subseteq> insert var (set new)"
    by simp_all
qed

lemma subst_terms_adds:
  assumes p: "nat_prime m" and x: "fp_wf m x" "fp_val L x \<noteq> 0"
    and es: "\<And>e. e \<in> set es \<Longrightarrow> fp_wf m (snd e) \<and> fp_val L (snd e) \<noteq> 0"
    and t: "tree_ok L m t" and st: "fold (subst_term L x) es (t, new) = (t', new')"
  shows "tree_adds L m t (map (\<lambda>e. (fst e, fp_val L x * fp_val L (snd e))) es) t' \<and>
    dom (bt_get t') - dom (bt_get t) \<subseteq> set new' \<and> set new \<subseteq> set new' \<and> set new' \<subseteq> fst ` set es \<union> set new"
  using es t st
proof (induction es arbitrary: t new)
  case (Cons e es)
  obtain t1 new1 where one: "subst_term L x (fst e, snd e) (t, new) = (t1, new1)" by fastforce
  note s = subst_term_adds [OF p x _ _ Cons.prems(2) one]
  have e: "fp_wf m (snd e)" "fp_val L (snd e) \<noteq> 0" using Cons.prems(1) by auto
  note s = s [OF e]
  have "tree_ok L m t1" using s(1) by (simp add: tree_adds_def)
  from Cons.IH [OF _ this, of new1] Cons.prems(1,3) one
  have r: "tree_adds L m t1 (map (\<lambda>e. (fst e, fp_val L x * fp_val L (snd e))) es) t'"
    "dom (bt_get t') - dom (bt_get t1) \<subseteq> set new'" "set new1 \<subseteq> set new'" "set new' \<subseteq> fst ` set es \<union> set new1"
    by auto
  have "dom (bt_get t') - dom (bt_get t) \<subseteq> set new'" using s(2) r(2,3) by blast
  moreover have "set new \<subseteq> set new'" using s(3) r(3) by blast
  moreover have "set new' \<subseteq> fst ` set (e # es) \<union> set new" using s(4) r(4) by auto
  ultimately show ?case using tree_adds_trans [OF s(1) r(1)] by simp
qed (simp add: tree_adds_refl)

lemma subst_form:
  assumes p: "nat_prime m" and f: "form_ok L m f" and g: "form_ok L m g" "v \<notin> form_keys g"
    and sf: "subst_form L v g f = (f', mo, new)"
  shows "form_ok L m f'" "form_keys f' \<subseteq> form_keys f - {v} \<union> form_keys g"
    "form_keys f' - form_keys f \<subseteq> set new" "set new \<subseteq> form_keys g" "entry_ok L m mo"
    "form_val L \<sigma> f' mod int m = (form_val L \<sigma> f + opt_val L mo * (form_val L \<sigma> g - \<sigma> v)) mod int m"
    "mo = bt_get (ft f) v"
    "mo = None \<Longrightarrow> f' = f \<and> new = []"
proof -
  have t: "tree_ok L m (ft f)" "fp_wf m (fk f)" "tree_ok L m (ft g)" "fp_wf m (fk g)"
    using f g by (simp_all add: form_ok_def)
  show mo: "mo = bt_get (ft f) v" using sf by (auto simp: subst_form_def split: option.splits prod.splits)
  then show "entry_ok L m mo" using tree_okD(2) [OF t(1)] by simp
  show "mo = None \<Longrightarrow> f' = f \<and> new = []" using sf mo by (simp add: subst_form_def)
  have "form_ok L m f' \<and> form_keys f' \<subseteq> form_keys f - {v} \<union> form_keys g \<and>
    form_keys f' - form_keys f \<subseteq> set new \<and> set new \<subseteq> form_keys g \<and>
    form_val L \<sigma> f' mod int m = (form_val L \<sigma> f + opt_val L mo * (form_val L \<sigma> g - \<sigma> v)) mod int m"
  proof (cases mo)
    case None
    then show ?thesis using sf mo f by (auto simp: subst_form_def form_keys_def)
  next
    case (Some x)
    have x: "fp_wf m x" "fp_val L x \<noteq> 0" using tree_okD(2) [OF t(1), of v] unfolding mo [symmetric] Some by simp_all
    have get: "bt_get (ft f) v = Some x" using mo Some by simp
    obtain t' where fold: "fold (subst_term L x) (ft g) (bt_remove v (ft f), []) = (t', new)"
      and f': "f' = \<lparr>fk = fp_add L (fk f) (fp_mul L x (fk g)), ft = t'\<rparr>"
      using sf unfolding subst_form_def get by (auto simp: Let_def split: prod.splits)
    note rem = remove_adds [OF t(1) get]
    have rm: "tree_adds L m (ft f) [(v, - fp_val L x)] (bt_remove v (ft f))"
      "bt_get (bt_remove v (ft f)) = (bt_get (ft f))(v := None)" using rem by simp_all
    have es: "fp_wf m (snd e) \<and> fp_val L (snd e) \<noteq> 0" if "e \<in> set (ft g)" for e
      using tree_entries [OF t(3), of "fst e" "snd e"] that by simp
    have "tree_ok L m (bt_remove v (ft f))" using rm(1) by (simp add: tree_adds_def)
    note st = subst_terms_adds [OF p x es this fold]
    let ?ds = "[(v, - fp_val L x)] @ map (\<lambda>e. (fst e, fp_val L x * fp_val L (snd e))) (ft g)"
    have all: "tree_adds L m (ft f) ?ds (ft f')" using tree_adds_trans rm(1) st f' by fastforce
    have k: "fp_wf m (fk f')" "fp_val L (fk f') mod int m = (fp_val L (fk f) + fp_val L x * fp_val L (fk g)) mod int m"
      using t x by (simp_all add: f' fp_add_val fp_mul_val mod_simps)
    have gk: "form_keys g = fst ` set (ft g)"
      unfolding form_keys_def bt_keys_dom [symmetric] by (simp add: bt_keys_def)
    have dt': "dom (bt_get t') \<subseteq> form_keys f - {v} \<union> form_keys g"
      using st unfolding tree_adds_def rm(2) dom_fun_upd gk by (simp add: image_image form_keys_def)
    have "(\<Sum>e \<leftarrow> ft g. fp_val L x * fp_val L (snd e) * \<sigma> (fst e)) = fp_val L x * tree_val L \<sigma> (ft g)"
      unfolding tree_val_entries sum_list_scaled [symmetric] by (simp add: split_beta ac_simps)
    then have "form_val L \<sigma> f' mod int m = (form_val L \<sigma> f + fp_val L x * (form_val L \<sigma> g - \<sigma> v)) mod int m"
      using form_parts(3) [OF all k, of \<sigma>] by (simp add: comp_def form_val_def algebra_simps)
    moreover have "dom (bt_get t') - form_keys f \<subseteq> set new" "set new \<subseteq> form_keys g"
      using st unfolding rm(2) dom_fun_upd gk by (auto simp: form_keys_def)
    ultimately show ?thesis
      using form_parts(1) [OF all k] dt' Some f' by (simp add: form_keys_def)
  qed
  then show "form_ok L m f'" "form_keys f' \<subseteq> form_keys f - {v} \<union> form_keys g"
    "form_keys f' - form_keys f \<subseteq> set new" "set new \<subseteq> form_keys g"
    "form_val L \<sigma> f' mod int m = (form_val L \<sigma> f + opt_val L mo * (form_val L \<sigma> g - \<sigma> v)) mod int m"
    by simp_all
qed

end
end
