(* ===== verification/Minimize_Run.thy ===== *)
theory Minimize_Run
  imports Minimize_Forms
begin

text \<open>
  The worklist of \<^verbatim>\<open>minimize.rs\<close> as a state machine: what one elimination does to the rows
  (with a complete occurrence index it substitutes in every live row), to the index and to the
  queue, and the invariants every turn keeps.
\<close>

declare split_paired_All [simp del] split_paired_Ex [simp del]

section \<open>Rows\<close>

lemma set_map_filter: "set (List.map_filter f xs) = {y. \<exists>x \<in> set xs. f x = Some y}"
  by (induction xs) (auto simp: map_filter_simps split: option.split)

definition subst_row :: "('f, 'z) libs_scheme \<Rightarrow> var_id \<Rightarrow> 'f form \<Rightarrow> 'f row3 \<Rightarrow> 'f row3" where
  "subst_row L v g = (\<lambda>(a, b, c). (fst (subst_form L v g a), fst (subst_form L v g b), fst (subst_form L v g c)))"

definition row_new :: "('f, 'z) libs_scheme \<Rightarrow> var_id \<Rightarrow> 'f form \<Rightarrow> 'f row3 \<Rightarrow> var_id list" where
  "row_new L v g r = concat (map (\<lambda>f. snd (snd (subst_form L v g f))) (forms_of r))"

definition row_mults :: "var_id \<Rightarrow> 'f row3 \<Rightarrow> 'f fp option list" where
  "row_mults v r = map (\<lambda>f. bt_get (ft f) v) (forms_of r)"

lemma forms_of_subst_row: "forms_of (subst_row L v g r) = map (\<lambda>f. fst (subst_form L v g f)) (forms_of r)"
  by (simp add: forms_of_def subst_row_def split: prod.split)

lemma subst_form_mult: "fst (snd (subst_form L v g f)) = bt_get (ft f) v"
  by (auto simp: subst_form_def split: option.split prod.split)

lemma row_form_keys_get: "v \<in> row_form_keys r \<longleftrightarrow> (\<exists>f \<in> set (forms_of r). bt_get (ft f) v \<noteq> None)"
  by (auto simp: row_form_keys_def form_keys_def)

lemma subst_site_row:
  "subst_site L r v g =
    (if v \<in> row_form_keys r then Some (subst_row L v g r, row_new L v g r, row_mults v r) else None)"
proof -
  obtain a b c where r: "r = (a, b, c)" by (cases r)
  obtain a' ma na b' mb nb c' mc nc where sf: "subst_form L v g a = (a', ma, na)"
    "subst_form L v g b = (b', mb, nb)" "subst_form L v g c = (c', mc, nc)" by (meson prod_cases3)
  have m: "ma = bt_get (ft a) v" "mb = bt_get (ft b) v" "mc = bt_get (ft c) v"
    using subst_form_mult [of L v g a] subst_form_mult [of L v g b] subst_form_mult [of L v g c] sf by simp_all
  show ?thesis
    by (simp add: r sf subst_site_def Let_def subst_row_def row_new_def row_mults_def forms_of_def
        row_form_keys_get flip: m)
qed

lemma subst_row_other: "v \<notin> row_form_keys r \<Longrightarrow> subst_row L v g r = r"
  by (auto simp: row_form_keys_get subst_row_def subst_form_def forms_of_def split: prod.split)

text \<open>The serial substitution on distinct sites: each row once, from the rows as they were.\<close>

definition site_effect :: "('f, 'z) libs_scheme \<Rightarrow> var_id \<Rightarrow> 'f form \<Rightarrow> 'f row3 option list \<Rightarrow> nat \<Rightarrow>
    (nat \<times> var_id list \<times> 'f fp option list) option" where
  "site_effect L v g cons j = (case cons ! j of None \<Rightarrow> None
    | Some r \<Rightarrow> if v \<in> row_form_keys r then Some (j, row_new L v g r, row_mults v r) else None)"

lemma site_effect_Some: "site_effect L v g cons j = Some (j', new, ms) \<longleftrightarrow> j' = j \<and>
    (\<exists>s. cons ! j = Some s \<and> v \<in> row_form_keys s \<and> new = row_new L v g s \<and> ms = row_mults v s)"
  by (cases "cons ! j") (auto simp: site_effect_def)

lemma nth_update_if: "xs[i := x] ! j = (if j = i \<and> i < length xs then x else xs ! j)"
  by (cases "i < length xs") (auto simp: nth_list_update list_update_beyond)

lemma subst_serial_effect:
  assumes "distinct sites"
  shows "length (fst (subst_serial L v g sites cons)) = length cons"
    "j < length cons \<Longrightarrow> fst (subst_serial L v g sites cons) ! j =
      (if j \<in> set sites then map_option (subst_row L v g) (cons ! j) else cons ! j)"
    "snd (subst_serial L v g sites cons) = List.map_filter (site_effect L v g cons) sites"
proof -
  define body where "body = (\<lambda>(cons, changed) j.
      case cons ! j of None \<Rightarrow> (cons, changed)
      | Some cj \<Rightarrow> (case subst_site L cj v g of None \<Rightarrow> (cons, changed)
          | Some (cj', new) \<Rightarrow> (cons[j := Some cj'], changed @ [(j, new)])))"
  have ser: "subst_serial L v g sites cons = foldl body (cons, []) sites" for sites
    by (simp add: subst_serial_def body_def)
  have "length (fst (foldl body (cons, []) sites)) = length cons \<and>
    (\<forall>j < length cons. fst (foldl body (cons, []) sites) ! j =
      (if j \<in> set sites then map_option (subst_row L v g) (cons ! j) else cons ! j)) \<and>
    (\<forall>j \<ge> length cons. j \<notin> set sites \<longrightarrow> fst (foldl body (cons, []) sites) ! j = cons ! j) \<and>
    snd (foldl body (cons, []) sites) = List.map_filter (site_effect L v g cons) sites"
    using assms
  proof (induction sites rule: rev_induct)
    case (snoc j sites)
    obtain cs ch where s: "foldl body (cons, []) sites = (cs, ch)" by fastforce
    have IH: "length cs = length cons"
      "\<forall>j < length cons. cs ! j = (if j \<in> set sites then map_option (subst_row L v g) (cons ! j) else cons ! j)"
      "ch = List.map_filter (site_effect L v g cons) sites"
      "\<forall>j \<ge> length cons. j \<notin> set sites \<longrightarrow> cs ! j = cons ! j"
      using snoc by (simp_all add: s)
    have j: "j \<notin> set sites" using snoc.prems by simp
    have cj: "cs ! j = cons ! j" using IH(2,4) j by (cases "j < length cons") auto
    have e: "List.map_filter f (xs @ [x]) = List.map_filter f xs @ (case f x of None \<Rightarrow> [] | Some y \<Rightarrow> [y])" for f xs and x :: nat
      by (induction xs) (simp_all add: map_filter_simps split: option.split)
    have b: "foldl body (cons, []) (sites @ [j]) = (case cons ! j of None \<Rightarrow> (cs, ch)
        | Some r \<Rightarrow> if v \<in> row_form_keys r
          then (cs[j := Some (subst_row L v g r)], ch @ [(j, row_new L v g r, row_mults v r)]) else (cs, ch))"
      by (simp add: s) (simp add: body_def cj subst_site_row split: option.split)
    show ?case
    proof (cases "cons ! j")
      case None
      then show ?thesis unfolding b using IH j by (auto simp: e site_effect_def [of _ _ _ _ j])
    next
      case (Some r)
      show ?thesis
      proof (cases "v \<in> row_form_keys r")
        case True
        then show ?thesis unfolding b using IH j Some by (auto simp: e site_effect_def [of _ _ _ _ j] nth_update_if)
      next
        case False
        then show ?thesis unfolding b using IH j Some by (auto simp: e site_effect_def [of _ _ _ _ j] subst_row_other)
      qed
    qed
  qed (simp add: map_filter_simps)
  then show "length (fst (subst_serial L v g sites cons)) = length cons"
    "j < length cons \<Longrightarrow> fst (subst_serial L v g sites cons) ! j =
      (if j \<in> set sites then map_option (subst_row L v g) (cons ! j) else cons ! j)"
    "snd (subst_serial L v g sites cons) = List.map_filter (site_effect L v g cons) sites"
    unfolding ser by simp_all
qed

section \<open>The index and the queue\<close>

definition index_ok :: "('f, 'z) libs_scheme \<Rightarrow> nat \<Rightarrow> nat \<Rightarrow> 'f row3 option list \<Rightarrow> nat list list \<Rightarrow> bool" where
  "index_ok L m n cons occ \<longleftrightarrow> length occ = n \<and>
    (\<forall>k < n. set (occ ! k) \<subseteq> {..< length cons}) \<and>
    (\<forall>j < length cons. \<forall>r. cons ! j = Some r \<longrightarrow> row_form_ok L m r \<and>
      (\<forall>v \<in> row_form_keys r. unat v < n \<and> j \<in> set (occ ! unat v)))"

lemma index_okD:
  assumes "index_ok L m n cons occ" "j < length cons" "cons ! j = Some r"
  shows "row_form_ok L m r" "w \<in> row_form_keys r \<Longrightarrow> unat w < n" "w \<in> row_form_keys r \<Longrightarrow> j \<in> set (occ ! unat w)"
  using assms unfolding index_ok_def by blast+

definition queue_ok :: "'f min_state \<Rightarrow> bool" where
  "queue_ok st \<longleftrightarrow> length (ms_in_queue st) = length (ms_cons st) \<and>
    set (ms_queue st) \<subseteq> {..< length (ms_cons st)} \<and>
    distinct (ms_queue st) \<and> (\<forall>j < length (ms_cons st). ms_in_queue st ! j \<longleftrightarrow> j \<in> set (ms_queue st))"

lemma occ_pushes:
  "length (foldl (\<lambda>occ var. occ_push occ var j) occ vs) = length occ"
  "k < length occ \<Longrightarrow> set (foldl (\<lambda>occ var. occ_push occ var j) occ vs ! k) =
    set (occ ! k) \<union> (if k \<in> unat ` set vs then {j} else {})"
proof -
  have one: "length (occ_push occ v j) = length occ" "k < length occ \<Longrightarrow>
      set (occ_push occ v j ! k) = set (occ ! k) \<union> (if k = unat v then {j} else {})" for occ v
    by (auto simp: occ_push_def nth_list_update)
  show "length (foldl (\<lambda>occ var. occ_push occ var j) occ vs) = length occ"
    by (induction vs arbitrary: occ) (simp_all add: one)
  show "k < length occ \<Longrightarrow> set (foldl (\<lambda>occ var. occ_push occ var j) occ vs ! k) =
      set (occ ! k) \<union> (if k \<in> unat ` set vs then {j} else {})"
    by (induction vs arbitrary: occ) (simp_all add: one)
qed

lemma record_site_simps:
  "ms_cons (record_site L step st (j, new, ms)) = ms_cons st"
  "ms_occ (record_site L step st (j, new, ms)) = foldl (\<lambda>occ var. occ_push occ var j) (ms_occ st) new"
  "ms_queue (record_site L step st (j, new, ms)) = (if ms_in_queue st ! j then ms_queue st else ms_queue st @ [j])"
  "ms_in_queue (record_site L step st (j, new, ms)) = (if ms_in_queue st ! j then ms_in_queue st else (ms_in_queue st)[j := True])"
  by (simp_all add: record_site_def Let_def)

lemma record_site_queue:
  assumes "queue_ok st" "j < length (ms_cons st)"
  shows "queue_ok (record_site L step st (j, new, ms))"
    "set (ms_queue (record_site L step st (j, new, ms))) = insert j (set (ms_queue st))"
  using assms by (auto simp: queue_ok_def record_site_simps nth_list_update)

lemma record_sites:
  assumes "queue_ok st" "\<forall>(j, x) \<in> set changed. j < length (ms_cons st)"
  shows "queue_ok (foldl (record_site L step) st changed) \<and>
    set (ms_queue (foldl (record_site L step) st changed)) = fst ` set changed \<union> set (ms_queue st) \<and>
    length (ms_occ (foldl (record_site L step) st changed)) = length (ms_occ st) \<and>
    (\<forall>k < length (ms_occ st). set (ms_occ (foldl (record_site L step) st changed) ! k) =
      set (ms_occ st ! k) \<union> {j. \<exists>new ms. (j, new, ms) \<in> set changed \<and> k \<in> unat ` set new})"
  using assms
proof (induction changed arbitrary: st)
  case (Cons x changed)
  obtain j new ms where x: "x = (j, new, ms)" by (cases x)
  let ?st = "record_site L step st x"
  have st: "queue_ok ?st" "set (ms_queue ?st) = insert j (set (ms_queue st))" "ms_cons ?st = ms_cons st"
    "length (ms_occ ?st) = length (ms_occ st)"
    "\<forall>k < length (ms_occ st). set (ms_occ ?st ! k) = set (ms_occ st ! k) \<union> (if k \<in> unat ` set new then {j} else {})"
    using record_site_queue [OF Cons.prems(1), of j L step new ms] Cons.prems(2)
    by (simp_all add: x record_site_simps occ_pushes)
  from Cons.IH [OF st(1)] Cons.prems(2) st show ?case by (auto simp: x split: if_splits)
qed simp

text \<open>Row-level facts of one substitution.\<close>

context field_ctx
begin

lemma subst_row:
  assumes p: "nat_prime m" and r: "row_form_ok L m r" and g: "form_ok L m g" "v \<notin> form_keys g"
  shows "row_form_ok L m (subst_row L v g r)"
    "row_form_keys (subst_row L v g r) \<subseteq> row_form_keys r - {v} \<union> form_keys g"
    "row_form_keys (subst_row L v g r) - row_form_keys r \<subseteq> set (row_new L v g r)"
    "set (row_new L v g r) \<subseteq> form_keys g"
proof -
  have f: "form_ok L m f" if "f \<in> set (forms_of r)" for f
    using r that by (simp add: row_form_ok_def list_all_iff)
  have sf: "subst_form L v g f = (fst (subst_form L v g f), bt_get (ft f) v, snd (snd (subst_form L v g f)))" for f
    using subst_form_mult [of L v g f] by (metis prod.collapse)
  note facts = subst_form [OF p f g sf]
  show "row_form_ok L m (subst_row L v g r)"
    using facts(1) by (auto simp: row_form_ok_def forms_of_subst_row list_all_iff)
  show "row_form_keys (subst_row L v g r) \<subseteq> row_form_keys r - {v} \<union> form_keys g"
    using facts(2) by (fastforce simp: row_form_keys_def forms_of_subst_row)
  show "row_form_keys (subst_row L v g r) - row_form_keys r \<subseteq> set (row_new L v g r)"
  proof
    fix w assume "w \<in> row_form_keys (subst_row L v g r) - row_form_keys r"
    then obtain f where "f \<in> set (forms_of r)" "w \<in> form_keys (fst (subst_form L v g f)) - form_keys f"
      by (auto simp: row_form_keys_def forms_of_subst_row)
    then show "w \<in> set (row_new L v g r)" using facts(3) [of f] by (auto simp: row_new_def)
  qed
  show "set (row_new L v g r) \<subseteq> form_keys g"
    using facts(4) by (fastforce simp: row_new_def)
qed

lemma subst_row_form_val:
  assumes p: "nat_prime m" and r: "row_form_ok L m r" and g: "form_ok L m g" "v \<notin> form_keys g" and k: "k < 3"
  shows "form_val L \<sigma> (forms_of (subst_row L v g r) ! k) mod int m =
      (form_val L \<sigma> (forms_of r ! k) + opt_val L (row_mults v r ! k) * (form_val L \<sigma> g - \<sigma> v)) mod int m"
    "entry_ok L m (row_mults v r ! k)"
proof -
  have len: "length (forms_of r) = 3" by (simp add: forms_of_def split: prod.split)
  have f: "form_ok L m (forms_of r ! k)" using r k len by (simp add: row_form_ok_def list_all_length)
  have sf: "subst_form L v g f = (fst (subst_form L v g f), bt_get (ft f) v, snd (snd (subst_form L v g f)))" for f
    using subst_form_mult [of L v g f] by (metis prod.collapse)
  note facts = subst_form [OF p f g sf]
  show "form_val L \<sigma> (forms_of (subst_row L v g r) ! k) mod int m =
      (form_val L \<sigma> (forms_of r ! k) + opt_val L (row_mults v r ! k) * (form_val L \<sigma> g - \<sigma> v)) mod int m"
    using facts(6) k len by (simp add: forms_of_subst_row row_mults_def)
  show "entry_ok L m (row_mults v r ! k)" using facts(5) k len by (simp add: row_mults_def)
qed

lemma row_val_mod:
  assumes "\<And>k. k < 3 \<Longrightarrow> form_val L \<sigma> (forms_of r ! k) mod int m = form_val L \<tau> (forms_of s ! k) mod int m"
  shows "row_form_val L \<sigma> r mod int m = row_form_val L \<tau> s mod int m"
proof -
  obtain a b c a' b' c' where rs: "r = (a, b, c)" "s = (a', b', c')" by (metis prod_cases3)
  have "form_val L \<sigma> a mod int m = form_val L \<tau> a' mod int m" "form_val L \<sigma> b mod int m = form_val L \<tau> b' mod int m"
    "form_val L \<sigma> c mod int m = form_val L \<tau> c' mod int m"
    using assms [of 0] assms [of 1] assms [of 2] by (simp_all add: rs forms_of_def)
  then show ?thesis unfolding rs row_form_val_def prod.case by (intro mod_diff_cong mod_mult_cong)
qed

text \<open>Where the variable has the value of what replaces it, nothing changes.\<close>

lemma subst_row_val:
  assumes p: "nat_prime m" and r: "row_form_ok L m r" and g: "form_ok L m g" "v \<notin> form_keys g"
    and eq: "int m dvd \<sigma> v - form_val L \<sigma> g"
  shows "row_form_val L \<sigma> (subst_row L v g r) mod int m = row_form_val L \<sigma> r mod int m"
proof (rule row_val_mod)
  fix k :: nat assume k: "k < 3"
  have "int m dvd opt_val L (row_mults v r ! k) * (form_val L \<sigma> g - \<sigma> v)"
    using eq by (simp add: dvd_diff_commute)
  then have "(form_val L \<sigma> (forms_of r ! k) + opt_val L (row_mults v r ! k) * (form_val L \<sigma> g - \<sigma> v)) mod int m =
      form_val L \<sigma> (forms_of r ! k) mod int m" by (simp add: mod_eq_dvd_iff)
  then show "form_val L \<sigma> (forms_of (subst_row L v g r) ! k) mod int m = form_val L \<sigma> (forms_of r ! k) mod int m"
    using subst_row_form_val(1) [OF p r g k] by simp
qed

text \<open>One elimination: every live row but the defining one is substituted, the index stays
  complete, and every row that changed waits in the queue.\<close>

lemma eliminate_effect:
  assumes p: "nat_prime m" and idx: "index_ok L m n (ms_cons st) (ms_occ st)" and q: "queue_ok st"
    and i: "i < length (ms_cons st)" "ms_cons st ! i = Some r" and v: "v \<in> row_form_keys r"
    and g: "form_ok L m g" "v \<notin> form_keys g" "form_keys g \<subseteq> row_form_keys r"
  shows "ms_cons (eliminate L i v g st) = map (map_option (subst_row L v g)) ((ms_cons st)[i := None])"
    "index_ok L m n (ms_cons (eliminate L i v g st)) (ms_occ (eliminate L i v g st))"
    "queue_ok (eliminate L i v g st)"
    "j < length (ms_cons st) \<Longrightarrow> ms_cons (eliminate L i v g st) ! j = (ms_cons st)[i := None] ! j \<or>
      j \<in> set (ms_queue (eliminate L i v g st))"
    "set (ms_queue st) \<subseteq> set (ms_queue (eliminate L i v g st))"
proof -
  let ?st = "eliminate L i v g st" and ?cons0 = "(ms_cons st)[i := None]"
  define sites where "sites = remdups_adj (sort (ms_occ st ! unat v))"
  have dist: "distinct sites" by (simp add: sites_def)
  have set_sites: "set sites = set (ms_occ st ! unat v)" by (simp add: sites_def)
  have vn: "unat v < n" using index_okD(2) [OF idx i v] .
  have sub: "set sites \<subseteq> {..< length (ms_cons st)}" using idx vn by (simp add: set_sites index_ok_def)
  have row: "row_form_ok L m s" "\<And>w. w \<in> row_form_keys s \<Longrightarrow> unat w < n \<and> j \<in> set (ms_occ st ! unat w)"
    if "j < length (ms_cons st)" "ms_cons st ! j = Some s" for j s
    using index_okD [OF idx that] by simp_all
  have row0: "ms_cons st ! j = Some s" if "j < length (ms_cons st)" "?cons0 ! j = Some s" for j s
    using that by (simp add: nth_update_if split: if_splits)
  note eff = subst_serial_effect [OF dist, where L = L and v = v and g = g and cons = ?cons0]
  have cons: "ms_cons ?st = fst (subst_serial L v g sites ?cons0)" by (simp add: eliminate_cons sites_def)
  show cons': "ms_cons ?st = map (map_option (subst_row L v g)) ?cons0"
  proof (rule nth_equalityI)
    show "length (ms_cons ?st) = length (map (map_option (subst_row L v g)) ?cons0)" using eff(1) by (simp add: cons)
  next
    fix j assume "j < length (ms_cons ?st)"
    then have j: "j < length (ms_cons st)" using eff(1) by (simp add: cons)
    have "map_option (subst_row L v g) (?cons0 ! j) = ?cons0 ! j" if "j \<notin> set sites"
    proof (cases "?cons0 ! j")
      case (Some s)
      have "v \<notin> row_form_keys s" using row(2) [OF j row0 [OF j Some]] that set_sites by blast
      then show ?thesis using Some by (simp add: subst_row_other)
    qed simp
    then show "ms_cons ?st ! j = map (map_option (subst_row L v g)) ?cons0 ! j"
      using eff(2) j by (simp add: cons)
  qed
  have len: "length (ms_cons ?st) = length (ms_cons st)" by (simp add: cons')
  define changed where "changed = List.map_filter (site_effect L v g ?cons0) sites"
  obtain st1 step where st: "?st = foldl (record_site L step) st1 changed" and
    st1: "ms_cons st1 = ms_cons ?st" "ms_occ st1 = (ms_occ st)[unat v := []]"
    "ms_queue st1 = ms_queue st" "ms_in_queue st1 = ms_in_queue st"
  proof -
    obtain cs ch where s: "subst_serial L v g sites ?cons0 = (cs, ch)" by fastforce
    have ch: "ch = changed" "cs = ms_cons ?st" using eff(3) s by (simp_all add: changed_def cons)
    show ?thesis
      by (rule that [OF eliminate_def [of L i v g st, unfolded Let_def subst_parallel_serial [OF distinct_sites]
              if_cancel, folded sites_def, unfolded s prod.case ch(1)]])
        (simp_all add: ch(2))
  qed
  have ch: "(j, new, ms) \<in> set changed \<longleftrightarrow> j \<in> set sites \<and>
      (\<exists>s. ?cons0 ! j = Some s \<and> v \<in> row_form_keys s \<and> new = row_new L v g s \<and> ms = row_mults v s)" for j new ms
    unfolding changed_def set_map_filter mem_Collect_eq site_effect_Some by blast
  have q1: "queue_ok st1" using q by (simp add: queue_ok_def st1 len)
  have "\<forall>(j, x) \<in> set changed. j < length (ms_cons st1)" using ch sub len st1(1) by force
  note rec = record_sites [OF q1 this, of L step, folded st, unfolded st1 len]
  have qs: "set (ms_queue ?st) = fst ` set changed \<union> set (ms_queue st)"
    and occ_len: "length (ms_occ ?st) = length ((ms_occ st)[unat v := []])"
    and occ_all: "\<forall>k < length ((ms_occ st)[unat v := []]). set (ms_occ ?st ! k) =
      set ((ms_occ st)[unat v := []] ! k) \<union> {j. \<exists>new ms. (j, new, ms) \<in> set changed \<and> k \<in> unat ` set new}"
    using rec by simp_all
  show "queue_ok ?st" using rec by simp
  show "set (ms_queue st) \<subseteq> set (ms_queue ?st)" by (simp add: qs)
  show "ms_cons ?st ! j = ?cons0 ! j \<or> j \<in> set (ms_queue ?st)" if j: "j < length (ms_cons st)"
  proof (cases "?cons0 ! j")
    case (Some s)
    have "v \<in> row_form_keys s \<Longrightarrow> (j, row_new L v g s, row_mults v s) \<in> set changed"
      unfolding ch using row(2) [OF j row0 [OF j Some]] Some set_sites by auto
    then have "v \<in> row_form_keys s \<Longrightarrow> j \<in> set (ms_queue ?st)"
      unfolding qs by (metis UnI1 fst_conv image_eqI)
    then show ?thesis using Some j by (cases "v \<in> row_form_keys s") (simp_all add: cons' subst_row_other)
  qed (use j in \<open>simp add: cons'\<close>)
  show "index_ok L m n (ms_cons ?st) (ms_occ ?st)"
    unfolding index_ok_def len
  proof (intro conjI allI impI)
    show "length (ms_occ ?st) = n" using occ_len idx by (simp add: index_ok_def)
    have occ: "set (ms_occ ?st ! k) = (if k = unat v then {} else set (ms_occ st ! k)) \<union>
        {j. \<exists>new ms. (j, new, ms) \<in> set changed \<and> k \<in> unat ` set new}" if "k < n" for k
      using occ_all that idx by (simp add: index_ok_def nth_list_update)
    show "set (ms_occ ?st ! k) \<subseteq> {..< length (ms_cons st)}" if "k < n" for k
      unfolding occ [OF that] using idx that sub ch by (auto simp: index_ok_def)
    fix j s' assume j: "j < length (ms_cons st)" and s': "ms_cons ?st ! j = Some s'"
    obtain s where s: "?cons0 ! j = Some s" "s' = subst_row L v g s" using s' j by (auto simp: cons')
    note js = row [OF j row0 [OF j s(1)]]
    note sr = subst_row [OF p js(1) g(1,2)]
    show "row_form_ok L m s'" using sr(1) s by simp
    show "\<forall>w \<in> row_form_keys s'. unat w < n \<and> j \<in> set (ms_occ ?st ! unat w)"
    proof
      fix w assume w: "w \<in> row_form_keys s'"
      have wv: "w \<noteq> v" using w sr(2) s(2) g(2) by auto
      have wn: "unat w < n" using w sr(2) s(2) js(2) g(3) row(2) [OF i] by blast
      have "j \<in> set (ms_occ ?st ! unat w)"
      proof (cases "w \<in> row_form_keys s")
        case True
        then show ?thesis using js(2) wv occ [OF wn] by (auto simp: unat_arith_simps)
      next
        case False
        then have new: "w \<in> set (row_new L v g s)" using w s(2) sr(3) by blast
        have "v \<in> row_form_keys s" using False w s(2) subst_row_other by metis
        then have "(j, row_new L v g s, row_mults v s) \<in> set changed"
          unfolding ch using js(2) s(1) set_sites by auto
        then show ?thesis unfolding occ [OF wn] using new by blast
      qed
      then show "unat w < n \<and> j \<in> set (ms_occ ?st ! unat w)" using wn by blast
    qed
  qed
qed

end
end
