(* ===== verification/Minimize_Inv.thy ===== *)
theory Minimize_Inv
  imports Minimize_Run
begin

text \<open>
  The invariant of the minimizer's worklist. Besides the bookkeeping (complete index, queue and
  bitmap agree, every row outside the queue is stuck) it carries the list of definitions made so
  far and says that the original rows hold exactly where the live rows and the definitions hold.
\<close>

section \<open>Definitions made by the run\<close>

type_synonym 'f defs = "(var_id \<times> 'f form) list"

definition defs_hold :: "('f, 'z) libs_scheme \<Rightarrow> int \<Rightarrow> (var_id \<Rightarrow> int) \<Rightarrow> 'f defs \<Rightarrow> bool" where
  "defs_hold L k \<sigma> ds \<longleftrightarrow> (\<forall>(v, g) \<in> set ds. k dvd \<sigma> v - form_val L \<sigma> g)"

text \<open>A definition mentions neither its own variable nor one eliminated before.\<close>

definition chain_ok :: "('f, 'z) libs_scheme \<Rightarrow> nat \<Rightarrow> 'f defs \<Rightarrow> bool" where
  "chain_ok L m ds \<longleftrightarrow> distinct (map fst ds) \<and> (\<forall>k < length ds. form_ok L m (snd (ds ! k)) \<and>
     form_keys (snd (ds ! k)) \<inter> fst ` set (take (Suc k) ds) = {})"

lemma chain_ok_Nil [simp]: "chain_ok L m []"
  by (simp add: chain_ok_def)

lemma chain_ok_snoc: "chain_ok L m (ds @ [(v, g)]) \<longleftrightarrow> chain_ok L m ds \<and> v \<notin> fst ` set ds \<and> form_ok L m g \<and>
    v \<notin> form_keys g \<and> form_keys g \<inter> fst ` set ds = {}"
proof -
  have "(\<forall>k < Suc n. Q k) \<longleftrightarrow> (\<forall>k < n. Q k) \<and> Q n" for Q and n :: nat
    by (auto simp: less_Suc_eq)
  moreover have "take (Suc k) (ds @ [(v, g)]) = (if k < length ds then take (Suc k) ds else ds @ [(v, g)])" for k
    by auto
  ultimately show ?thesis by (auto simp: chain_ok_def nth_append simp del: take_append)
qed

lemma defs_hold_snoc [simp]:
  "defs_hold L k \<sigma> []"
  "defs_hold L k \<sigma> (ds @ [(v, g)]) \<longleftrightarrow> defs_hold L k \<sigma> ds \<and> k dvd \<sigma> v - form_val L \<sigma> g"
  by (auto simp: defs_hold_def)

text \<open>Definitions determine the eliminated variables from the others: they can be satisfied\<dots>\<close>

lemma chain_extend:
  "chain_ok L m ds \<Longrightarrow> \<exists>\<tau>. (\<forall>v. v \<notin> fst ` set ds \<longrightarrow> \<tau> v = \<sigma> v) \<and> defs_hold L k \<tau> ds"
proof (induction ds arbitrary: \<sigma> rule: rev_induct)
  case (snoc d ds)
  obtain v g where d: "d = (v, g)" by (cases d)
  note ch = snoc.prems [unfolded d chain_ok_snoc]
  obtain \<tau> where \<tau>: "\<forall>w. w \<notin> fst ` set ds \<longrightarrow> \<tau> w = (\<sigma>(v := form_val L \<sigma> g)) w" "defs_hold L k \<tau> ds"
    using snoc.IH [of "\<sigma>(v := form_val L \<sigma> g)"] ch by blast
  have "\<tau> w = \<sigma> w" if "w \<in> form_keys g" for w
  proof -
    have "w \<notin> fst ` set ds" "w \<noteq> v" using ch that by blast+
    then show ?thesis using \<tau>(1) by simp
  qed
  then have "form_val L \<tau> g = form_val L \<sigma> g" using ch by (intro form_val_cong [of L m]) blast+
  then have "defs_hold L k \<tau> (ds @ [(v, g)])" using \<tau> ch by simp
  moreover have "\<forall>w. w \<notin> fst ` set (ds @ [(v, g)]) \<longrightarrow> \<tau> w = \<sigma> w" using \<tau>(1) by simp
  ultimately show ?case unfolding d by blast
next
  case Nil
  show ?case by (rule exI [of _ \<sigma>]) simp
qed

text \<open>\<dots>in one way only.\<close>

lemma form_val_dvd_cong:
  assumes "\<And>v. v \<in> form_keys f \<Longrightarrow> k dvd \<sigma> v - \<tau> v"
  shows "k dvd form_val L \<sigma> f - form_val L \<tau> f"
proof -
  have mem: "fst x \<in> form_keys f" if "x \<in> set (ft f)" for x
    using that unfolding form_keys_def bt_keys_dom [symmetric] by (simp add: bt_keys_def)
  have "k dvd (\<Sum>x \<leftarrow> xs. fp_val L (snd x) * \<sigma> (fst x)) - (\<Sum>x \<leftarrow> xs. fp_val L (snd x) * \<tau> (fst x))"
    if "set xs \<subseteq> set (ft f)" for xs
    using that
  proof (induction xs)
    case (Cons x xs)
    have "k dvd \<sigma> (fst x) - \<tau> (fst x)" using Cons.prems mem by (intro assms) auto
    then have "k dvd fp_val L (snd x) * (\<sigma> (fst x) - \<tau> (fst x)) +
        ((\<Sum>x \<leftarrow> xs. fp_val L (snd x) * \<sigma> (fst x)) - (\<Sum>x \<leftarrow> xs. fp_val L (snd x) * \<tau> (fst x)))"
      using Cons by (intro dvd_add dvd_mult) auto
    then show ?case by (simp add: algebra_simps)
  qed simp
  from this [of "ft f"] show ?thesis
    by (simp add: form_val_def tree_val_entries case_prod_unfold)
qed

lemma chain_unique:
  assumes "chain_ok L m ds" "\<forall>v. v \<notin> fst ` set ds \<longrightarrow> k dvd \<sigma> v - \<tau> v" "defs_hold L k \<sigma> ds" "defs_hold L k \<tau> ds"
  shows "k dvd \<sigma> v - \<tau> v"
  using assms
proof (induction ds rule: rev_induct)
  case (snoc d ds)
  obtain w g where d: "d = (w, g)" by (cases d)
  note ch = snoc.prems(1) [unfolded d chain_ok_snoc]
  have "k dvd form_val L \<sigma> g - form_val L \<tau> g"
    using ch snoc.prems(2) by (intro form_val_dvd_cong) (auto simp: d)
  moreover have "k dvd \<sigma> w - form_val L \<sigma> g" "k dvd \<tau> w - form_val L \<tau> g"
    using snoc.prems(3,4) by (simp_all add: d)
  ultimately have "k dvd (\<sigma> w - form_val L \<sigma> g) - (\<tau> w - form_val L \<tau> g) + (form_val L \<sigma> g - form_val L \<tau> g)"
    by (intro dvd_add [OF dvd_diff])
  then have "k dvd \<sigma> w - \<tau> w" by (simp add: algebra_simps)
  then have "\<forall>u. u \<notin> fst ` set ds \<longrightarrow> k dvd \<sigma> u - \<tau> u"
    using snoc.prems(2) by (metis d fst_conv image_insert insertE list.simps(15) rotate1.simps(2) set_rotate1)
  then show ?case using snoc.IH snoc.prems(3,4) ch by (simp add: d)
qed simp

section \<open>The invariant\<close>

definition rows_hold :: "('f, 'z) libs_scheme \<Rightarrow> int \<Rightarrow> (var_id \<Rightarrow> int) \<Rightarrow> 'f row3 option list \<Rightarrow> bool" where
  "rows_hold L k \<sigma> cons \<longleftrightarrow> (\<forall>r. Some r \<in> set cons \<longrightarrow> k dvd row_form_val L \<sigma> r)"

text \<open>A visit of the row would change nothing.\<close>

definition stuck :: "('f, 'z) libs_scheme \<Rightarrow> nat \<Rightarrow> bool list \<Rightarrow> nat \<Rightarrow> 'f row3 \<Rightarrow> bool" where
  "stuck L m b fill r \<longleftrightarrow> \<not> missed_elimination L m b fill r \<and>
    (\<forall>rel. relation L m r = Some rel \<longrightarrow> ft rel = [] \<longrightarrow> \<not> fp_is_zero L (fk rel))"

definition rows_stuck :: "('f, 'z) libs_scheme \<Rightarrow> nat \<Rightarrow> bool list \<Rightarrow> nat \<Rightarrow> nat set \<Rightarrow> 'f row3 option list \<Rightarrow> bool" where
  "rows_stuck L m b fill waiting cons \<longleftrightarrow>
    (\<forall>j < length cons. j \<notin> waiting \<longrightarrow> (\<forall>r. cons ! j = Some r \<longrightarrow> stuck L m b fill r))"

text \<open>What the rows, the eliminated variables and the definitions have to do with each other and
  with the predicate \<open>P\<close>, that the original rows hold.\<close>

definition solution_inv :: "('f, 'z) libs_scheme \<Rightarrow> nat \<Rightarrow> nat \<Rightarrow> bool list \<Rightarrow> ((var_id \<Rightarrow> int) \<Rightarrow> bool) \<Rightarrow>
    'f row3 option list \<Rightarrow> var_id set \<Rightarrow> 'f defs \<Rightarrow> bool" where
  "solution_inv L m n b P cons elim ds \<longleftrightarrow> chain_ok L m ds \<and> fst ` set ds = elim \<and>
    (\<forall>v \<in> elim. unat v < n \<and> b ! unat v) \<and>
    (\<forall>r. Some r \<in> set cons \<longrightarrow> row_form_keys r \<inter> elim = {}) \<and>
    alive cons + length ds \<le> length cons \<and>
    (\<forall>\<sigma>. P \<sigma> \<longleftrightarrow> rows_hold L (int m) \<sigma> cons \<and> defs_hold L (int m) \<sigma> ds)"

lemma set_cons_nth: "Some r \<in> set cons \<longleftrightarrow> (\<exists>j < length cons. cons ! j = Some r)"
  by (metis in_set_conv_nth)

lemma set_retire: "Some r \<in> set (cons[i := None]) \<longleftrightarrow> (\<exists>j < length cons. j \<noteq> i \<and> cons ! j = Some r)"
  unfolding set_cons_nth by (auto simp: nth_update_if split: if_splits)

lemma in_retire: "Some r \<in> set (cons[i := None]) \<Longrightarrow> Some r \<in> set cons"
  by (metis insertE option.distinct(1) set_update_subset_insert subsetD)

lemma rows_hold_split:
  assumes "i < length cons" "cons ! i = Some r" "Some s \<in> set cons"
  shows "s = r \<or> Some s \<in> set (cons[i := None])"
  using assms unfolding set_retire by (metis in_set_conv_nth option.inject)

lemma Some_in_map: "Some s \<in> set (map (map_option f) xs) \<longleftrightarrow> (\<exists>s0. Some s0 \<in> set xs \<and> s = f s0)"
  by (induction xs) (auto simp: eq_commute [of "Some s"] map_option_eq_Some)

lemma rows_hold_map:
  "rows_hold L k \<sigma> (map (map_option f) cons) \<longleftrightarrow> (\<forall>s. Some s \<in> set cons \<longrightarrow> k dvd row_form_val L \<sigma> (f s))"
  unfolding rows_hold_def Some_in_map by metis

context field_ctx
begin

lemma rows_hold_retire:
  assumes "i < length cons" "cons ! i = Some r"
  shows "rows_hold L k \<sigma> cons \<longleftrightarrow> k dvd row_form_val L \<sigma> r \<and> rows_hold L k \<sigma> (cons[i := None])"
proof -
  have "Some r \<in> set cons" using assms nth_mem by metis
  then show ?thesis unfolding rows_hold_def using in_retire [of _ cons i] rows_hold_split [OF assms] by blast
qed

lemma relation_dvd:
  "row_form_ok L m r \<Longrightarrow> relation L m r = Some rel \<Longrightarrow> int m dvd row_form_val L \<sigma> r \<longleftrightarrow> int m dvd form_val L \<sigma> rel"
  using relation(3) [of r rel \<sigma>] by (metis mod_eq_zero_dvd)

lemma drop_row_solution:
  assumes "solution_inv L m n b P cons elim ds" "i < length cons" "cons ! i = Some r"
    "row_form_ok L m r" "relation L m r = Some rel" "ft rel = []" "fp_is_zero L (fk rel)"
  shows "solution_inv L m n b P (cons[i := None]) elim ds"
proof -
  have "fp_wf m (fk rel)" using relation(1) [OF assms(4,5)] by (simp add: form_ok_def)
  then have "form_val L \<sigma> rel = 0" for \<sigma> using assms(6,7) by (simp add: form_val_def fp_is_zero_val)
  then have "int m dvd row_form_val L \<sigma> r" for \<sigma> using relation_dvd [OF assms(4,5)] by simp
  then have "rows_hold L (int m) \<sigma> cons \<longleftrightarrow> rows_hold L (int m) \<sigma> (cons[i := None])" for \<sigma>
    using rows_hold_retire [OF assms(2,3)] by simp
  moreover have "Some r \<in> set (cons[i := None]) \<Longrightarrow> Some r \<in> set cons" for r
    by (rule in_retire)
  moreover have "alive (cons[i := None]) < alive cons" using assms(2,3) by (intro alive_retire) auto
  ultimately show ?thesis using assms(1) unfolding solution_inv_def by simp
qed

lemma eliminate_row_solution:
  assumes p: "nat_prime m" and inv: "solution_inv L m n b P cons elim ds"
    and rows: "\<And>r. Some r \<in> set cons \<Longrightarrow> row_form_ok L m r"
    and i: "i < length cons" "cons ! i = Some r" and rel: "relation L m r = Some rel"
    and v: "bt_get (ft rel) v = Some coeff" "unat v < n" "b ! unat v"
    and g: "solve_pivot L rel v coeff = Some g"
  shows "solution_inv L m n b P (map (map_option (subst_row L v g)) (cons[i := None])) (insert v elim) (ds @ [(v, g)])"
proof -
  let ?cons' = "map (map_option (subst_row L v g)) (cons[i := None])"
  have r: "Some r \<in> set cons" using i set_cons_nth by metis
  note rel' = relation [OF rows [OF r] rel]
  have g': "form_ok L m g" "form_keys g \<subseteq> form_keys rel - {v}"
    "\<And>\<sigma>. form_val L \<sigma> rel mod int m = fp_val L coeff * (\<sigma> v - form_val L \<sigma> g) mod int m"
    using solve_pivot [OF p rel'(1) v(1)] g by auto
  have vrel: "v \<in> form_keys rel" using v(1) by (auto simp: form_keys_def)
  have elim: "row_form_keys s \<inter> elim = {}" if "Some s \<in> set cons" for s
    using inv that unfolding solution_inv_def by blast
  have elim_ds: "fst ` set ds = elim" "chain_ok L m ds" using inv by (simp_all add: solution_inv_def)
  have "form_keys g \<inter> elim = {}" "v \<notin> elim" "v \<notin> form_keys g" using g'(2) vrel rel'(2) elim [OF r] by blast+
  then have ch: "chain_ok L m (ds @ [(v, g)])" using elim_ds g'(1) by (simp add: chain_ok_snoc)
  have cons': "\<exists>s0. Some s0 \<in> set cons \<and> s = subst_row L v g s0" if s: "Some s \<in> set ?cons'" for s
  proof -
    obtain s0 where s0: "Some s0 \<in> set (cons[i := None])" "s = subst_row L v g s0"
      using s unfolding Some_in_map by blast
    from in_retire [OF s0(1)] s0(2) show ?thesis by (intro exI conjI)
  qed
  have keys: "row_form_keys s \<inter> insert v elim = {}" if "Some s \<in> set ?cons'" for s
  proof -
    obtain s0 where s0: "Some s0 \<in> set cons" "s = subst_row L v g s0" using cons' [OF \<open>Some s \<in> set ?cons'\<close>] by blast
    show ?thesis
      using subst_row(2) [OF p rows [OF s0(1)] g'(1)] g'(2) rel'(2) elim [OF r] elim [OF s0(1)] s0(2) by blast
  qed
  have "int m dvd row_form_val L \<sigma> r \<longleftrightarrow> int m dvd \<sigma> v - form_val L \<sigma> g" for \<sigma>
  proof -
    have "tree_ok L m (ft rel)" using rel'(1) by (simp add: form_ok_def)
    then have c: "fp_wf m coeff" "fp_val L coeff \<noteq> 0" using tree_okD(2) [of L m "ft rel" v] v(1) by simp_all
    have "\<not> int m dvd fp_val L coeff"
      using c fp_val_range [OF c(1)] zdvd_not_zless [of "fp_val L coeff" "int m"] by linarith
    then show ?thesis
      using relation_dvd [OF rows [OF r] rel, of \<sigma>] g'(3) [of \<sigma>] int_prime_dvd_mult [OF p]
      by (metis mod_eq_zero_dvd)
  qed
  moreover have "rows_hold L (int m) \<sigma> ?cons' \<longleftrightarrow> rows_hold L (int m) \<sigma> (cons[i := None])"
    if "int m dvd \<sigma> v - form_val L \<sigma> g" for \<sigma>
  proof -
    have "int m dvd row_form_val L \<sigma> (subst_row L v g s) \<longleftrightarrow> int m dvd row_form_val L \<sigma> s"
      if "Some s \<in> set (cons[i := None])" for s
    proof -
      have "Some s \<in> set cons" using that by (rule in_retire)
      then have "row_form_val L \<sigma> (subst_row L v g s) mod int m = row_form_val L \<sigma> s mod int m"
        using g'(1,2) \<open>int m dvd \<sigma> v - form_val L \<sigma> g\<close> by (intro subst_row_val [OF p rows]) auto
      then show ?thesis by (metis mod_eq_zero_dvd)
    qed
    then show ?thesis unfolding rows_hold_map unfolding rows_hold_def by blast
  qed
  ultimately have sol: "rows_hold L (int m) \<sigma> cons \<and> defs_hold L (int m) \<sigma> ds \<longleftrightarrow>
      rows_hold L (int m) \<sigma> ?cons' \<and> defs_hold L (int m) \<sigma> (ds @ [(v, g)])" for \<sigma>
    using rows_hold_retire [OF i] by auto
  have "alive ?cons' = alive (cons[i := None])" by (simp add: alive_def filter_map comp_def)
  moreover have "alive (cons[i := None]) < alive cons" using i by (intro alive_retire) auto
  ultimately have "alive ?cons' + length (ds @ [(v, g)]) \<le> length ?cons'" using inv by (simp add: solution_inv_def)
  then show ?thesis
    using inv ch keys sol v(2,3) unfolding solution_inv_def by auto
qed

lemma find_pivot_Some:
  assumes "find_pivot b rel = Some (v, coeff)" "form_ok L m rel"
  shows "bt_get (ft rel) v = Some coeff" "b ! unat v" "v \<in> form_keys rel"
proof -
  have "(v, coeff) \<in> set (ft rel)" "b ! unat v"
    using assms(1) by (auto simp: find_pivot_def find_Some_iff) (metis fst_conv nth_mem snd_conv)+
  then show get: "bt_get (ft rel) v = Some coeff" "b ! unat v"
    using tree_entries(1) [of "ft rel" v coeff] assms(2) by (simp_all add: form_ok_def)
  from get(1) show "v \<in> form_keys rel" by (auto simp: form_keys_def)
qed

lemma index_ok_drop:
  "index_ok L m n cons occ \<Longrightarrow> index_ok L m n (cons[i := None]) occ"
  unfolding index_ok_def by (simp add: nth_update_if split: if_splits)

end

text \<open>A rule for the loop: what every visit of a waiting row keeps holds at the end.\<close>

definition pop :: "nat \<Rightarrow> nat list \<Rightarrow> 'f min_state \<Rightarrow> 'f min_state" where
  "pop i queue st = st\<lparr>ms_queue := queue, ms_in_queue := (ms_in_queue st)[i := False]\<rparr>"

lemma pop_simps [simp]:
  "ms_cons (pop i q st) = ms_cons st" "ms_occ (pop i q st) = ms_occ st" "ms_queue (pop i q st) = q"
  "ms_in_queue (pop i q st) = (ms_in_queue st)[i := False]" "ms_eliminated (pop i q st) = ms_eliminated st"
  "ms_trace (pop i q st) = ms_trace st"
  by (simp_all add: pop_def)

lemma min_loop_rule:
  assumes "I st" and "\<And>st i q. I st \<Longrightarrow> ms_queue st = i # q \<Longrightarrow>
    \<exists>st'. visit_row L m b fill i (pop i q st) = Some st' \<and> I st'"
  shows "\<exists>st'. min_loop L m b fill st = Some st' \<and> I st' \<and> ms_queue st' = []"
  using assms
proof (induction L m b fill st rule: min_loop.induct)
  case (1 L m b fill st)
  show ?case
  proof (cases "ms_queue st")
    case Nil
    then show ?thesis using 1 by (simp add: min_loop.simps)
  next
    case (Cons i q)
    then obtain st' where st': "visit_row L m b fill i (pop i q st) = Some st'" "I st'"
      using "1.prems" by blast
    have "\<exists>st''. min_loop L m b fill st' = Some st'' \<and> I st'' \<and> ms_queue st'' = []"
      using "1.IH" [OF Cons st'(1) [unfolded pop_def] st'(2)] "1.prems"(2) by blast
    then show ?thesis using Cons st'(1) unfolding min_loop.simps [of L m b fill st] pop_def by simp
  qed
qed

definition loop_inv :: "('f, 'z) libs_scheme \<Rightarrow> nat \<Rightarrow> nat \<Rightarrow> bool list \<Rightarrow> nat \<Rightarrow> ((var_id \<Rightarrow> int) \<Rightarrow> bool) \<Rightarrow> nat \<Rightarrow>
    'f min_state \<Rightarrow> bool" where
  "loop_inv L m n b fill P len st \<longleftrightarrow> length (ms_cons st) = len \<and> index_ok L m n (ms_cons st) (ms_occ st) \<and>
    queue_ok st \<and> rows_stuck L m b fill (set (ms_queue st)) (ms_cons st) \<and>
    (\<exists>ds. solution_inv L m n b P (ms_cons st) (ms_eliminated st) ds)"

lemma queue_ok_pop:
  assumes "queue_ok st" "ms_queue st = i # q"
  shows "queue_ok (pop i q st)" "i < length (ms_cons st)" "i \<notin> set q"
  using assms by (auto simp: queue_ok_def nth_update_if)

lemma queue_ok_cong:
  "length (ms_cons st') = length (ms_cons st) \<Longrightarrow> ms_queue st' = ms_queue st \<Longrightarrow> ms_in_queue st' = ms_in_queue st \<Longrightarrow>
   queue_ok st' \<longleftrightarrow> queue_ok st"
  by (simp add: queue_ok_def)

lemma rows_stuck_visit:
  "rows_stuck L m b fill (insert i W) cons \<Longrightarrow> (\<And>r. cons ! i = Some r \<Longrightarrow> stuck L m b fill r) \<Longrightarrow>
   rows_stuck L m b fill W cons"
  unfolding rows_stuck_def by (metis insertE)

lemma rows_stuck_retire:
  "rows_stuck L m b fill (insert i W) cons \<Longrightarrow> rows_stuck L m b fill W (cons[i := None])"
  unfolding rows_stuck_def nth_update_if by (metis insertE length_list_update option.distinct(1))

context field_ctx
begin

text \<open>The eliminating visit.\<close>

lemma visit_eliminate:
  assumes p: "nat_prime m" and inv: "loop_inv L m n b fill P len st" and q: "ms_queue st = i # q"
    and r: "ms_cons st ! i = Some r" and rel: "relation L m r = Some rel"
    and v: "find_pivot b rel = Some (v, coeff)" and g: "solve_pivot L rel v coeff = Some g"
  shows "loop_inv L m n b fill P len (eliminate L i v g (pop i q st))"
proof -
  let ?st = "eliminate L i v g (pop i q st)"
  have idx: "index_ok L m n (ms_cons st) (ms_occ st)" and qok: "queue_ok st"
    and stuck: "rows_stuck L m b fill (insert i (set q)) (ms_cons st)"
    using inv q by (simp_all add: loop_inv_def)
  obtain ds where sol: "solution_inv L m n b P (ms_cons st) (ms_eliminated st) ds"
    using inv by (auto simp: loop_inv_def)
  note pop = queue_ok_pop [OF qok q]
  have rows: "row_form_ok L m s" if "Some s \<in> set (ms_cons st)" for s
    using that index_okD(1) [OF idx] unfolding set_cons_nth by blast
  note rok = index_okD(1) [OF idx pop(2) r]
  note rel' = relation [OF rok rel]
  note piv = find_pivot_Some [OF v rel'(1)]
  have g': "form_ok L m g" "form_keys g \<subseteq> form_keys rel - {v}"
    using solve_pivot [OF p rel'(1) piv(1)] g by auto
  have vr: "v \<in> row_form_keys r" "v \<notin> form_keys g" "form_keys g \<subseteq> row_form_keys r"
    using piv(3) g'(2) rel'(2) by auto
  note eff = eliminate_effect [OF p _ pop(1), where r = r and i = i and v = v and g = g and n = n,
      simplified, OF idx pop(2) r vr(1) g'(1) vr(2,3)]
  have elim: "ms_eliminated ?st = insert v (ms_eliminated st)"
    by (simp add: eliminate_def Let_def split: prod.split)
  have "solution_inv L m n b P (ms_cons ?st) (ms_eliminated ?st) (ds @ [(v, g)])"
    unfolding eff(1) elim
    using eliminate_row_solution [OF p sol rows pop(2) r rel piv(1) _ piv(2) g] index_okD(2) [OF idx pop(2) r vr(1)]
    by simp
  moreover have "rows_stuck L m b fill (set (ms_queue ?st)) (ms_cons ?st)"
    unfolding rows_stuck_def
  proof (intro allI impI)
    fix j s assume j: "j < length (ms_cons ?st)" "j \<notin> set (ms_queue ?st)" "ms_cons ?st ! j = Some s"
    have jl: "j < length (ms_cons st)" using j(1) by (simp add: eff(1))
    have same: "(ms_cons st)[i := None] ! j = Some s" using eff(4) [OF jl] j(2,3) by simp
    have "j \<notin> set q" using eff(5) j(2) by blast
    then show "stuck L m b fill s"
      using rows_stuck_retire [OF stuck] same jl by (simp add: rows_stuck_def)
  qed
  ultimately show ?thesis
    using eff(1-3) inv by (auto simp: loop_inv_def)
qed

lemma visit_row_inv:
  assumes p: "nat_prime m" and inv: "loop_inv L m n b fill P len st" and q: "ms_queue st = i # q"
  shows "\<exists>st'. visit_row L m b fill i (pop i q st) = Some st' \<and> loop_inv L m n b fill P len st'"
proof -
  have idx: "index_ok L m n (ms_cons st) (ms_occ st)" and qok: "queue_ok st"
    and stuck: "rows_stuck L m b fill (insert i (set q)) (ms_cons st)"
    using inv q by (simp_all add: loop_inv_def)
  obtain ds where sol: "solution_inv L m n b P (ms_cons st) (ms_eliminated st) ds"
    using inv by (auto simp: loop_inv_def)
  note pop = queue_ok_pop [OF qok q]
  have keep: "loop_inv L m n b fill P len (pop i q st)" if "\<And>r. ms_cons st ! i = Some r \<Longrightarrow> stuck L m b fill r"
    using inv pop(1) rows_stuck_visit [OF stuck that] by (simp add: loop_inv_def)
  note vr = visit_row_def [of L m b fill i "pop i q st", simplified pop_simps]
  show ?thesis
  proof (cases "ms_cons st ! i")
    case None
    then show ?thesis unfolding vr using pop(2) keep by simp
  next
    case (Some r)
    note rok = index_okD(1) [OF idx pop(2) Some]
    show ?thesis
    proof (cases "relation L m r")
      case None
      then have "stuck L m b fill r" by (simp add: stuck_def missed_elimination_def)
      then show ?thesis unfolding vr using pop(2) keep Some None by simp
    next
      case rel: (Some rel)
      note rel' = relation [OF rok rel]
      consider (drop) "ft rel = []" "fp_is_zero L (fk rel)" | (keep) "ft rel = []" "\<not> fp_is_zero L (fk rel)"
        | (none) "ft rel \<noteq> []" "find_pivot b rel = None"
        | (pivot) v coeff where "ft rel \<noteq> []" "find_pivot b rel = Some (v, coeff)" by (metis option.exhaust prod.exhaust)
      then show ?thesis
      proof cases
        case drop
        let ?st = "(pop i q st)\<lparr>ms_cons := (ms_cons st)[i := None],
          ms_trace := map_option (\<lambda>t. t\<lparr>tr_dropped := tr_dropped t @ [i]\<rparr>) (ms_trace st)\<rparr>"
        have "queue_ok ?st" using pop(1) by (subst queue_ok_cong [of _ "pop i q st"]) simp_all
        then have "loop_inv L m n b fill P len ?st"
          using inv index_ok_drop [OF idx] rows_stuck_retire [OF stuck]
            drop_row_solution [OF sol pop(2) Some rok rel drop] by (auto simp: loop_inv_def)
        then show ?thesis unfolding vr using pop(2) Some rel drop by (simp add: pop_simps)
      next
        case keep
        then have "stuck L m b fill r" using rel by (simp add: stuck_def missed_elimination_def find_pivot_def)
        then show ?thesis unfolding vr using pop(2) \<open>ms_cons st ! i = Some r\<close> rel keep
          using \<open>(\<And>r. ms_cons st ! i = Some r \<Longrightarrow> stuck L m b fill r) \<Longrightarrow> loop_inv L m n b fill P len (pop i q st)\<close>
          by simp
      next
        case none
        then have "stuck L m b fill r" using rel by (simp add: stuck_def missed_elimination_def)
        then show ?thesis unfolding vr using pop(2) keep Some rel none by simp
      next
        case pivot
        obtain g where g: "solve_pivot L rel v coeff = Some g"
          using solve_pivot [OF p rel'(1) find_pivot_Some(1) [OF pivot(2) rel'(1)]] by blast
        show ?thesis
        proof (cases "length (ft g) > fill")
          case True
          then have "stuck L m b fill r" using rel pivot g by (simp add: stuck_def missed_elimination_def)
          then show ?thesis unfolding vr using pop(2) keep Some rel pivot g True by simp
        next
          case False
          then show ?thesis
            unfolding vr using pop(2) Some rel pivot g visit_eliminate [OF p inv q Some rel pivot(2) g] by simp
        qed
      qed
    qed
  qed
qed

end
end
