(* ===== verification/Minimize_Props.thy ===== *)
theory Minimize_Props
  imports Minimize_Inv
begin

text \<open>
  What \<^verbatim>\<open>minimize\<close> promises: over a prime field it returns, its program has the same solutions on
  the surviving variables with the eliminated ones determined, it is a fixpoint, and the trace
  changes nothing.
\<close>

section \<open>The backend's program as a constraint system\<close>

definition rc_val :: "(var_id \<Rightarrow> int) \<Rightarrow> r1cs_constraint \<Rightarrow> int" where
  "rc_val \<sigma> c = lc_val \<sigma> (rc_a c) * lc_val \<sigma> (rc_b c) - lc_val \<sigma> (rc_c c)"

definition r1cs_holds :: "int \<Rightarrow> (var_id \<Rightarrow> int) \<Rightarrow> r1cs_program \<Rightarrow> bool" where
  "r1cs_holds k \<sigma> prog \<longleftrightarrow> list_all (\<lambda>c. k dvd rc_val \<sigma> c) (rp_constraints prog)"

definition rc_vars :: "r1cs_constraint \<Rightarrow> var_id set" where
  "rc_vars c = lc_vars (rc_a c) \<union> lc_vars (rc_b c) \<union> lc_vars (rc_c c)"

definition r1cs_vars :: "r1cs_program \<Rightarrow> var_id set" where
  "r1cs_vars prog = (\<Union>c \<in> set (rp_constraints prog). rc_vars c)"

definition internal_ids :: "r1cs_program \<Rightarrow> var_id set" where
  "internal_ids prog = rv_id ` {v \<in> set (rp_variables prog). rv_visibility v = Internal}"

section \<open>The start\<close>

lemma max_of_ge: "x \<in> set xs \<Longrightarrow> x \<le> max_of xs"
proof -
  have "a \<le> fold max xs a \<and> (\<forall>x \<in> set xs. x \<le> fold max xs a)" for a :: nat
    by (induction xs arbitrary: a) (auto intro: order_trans [OF max.cobounded1] order_trans [OF max.cobounded2])
  then show "x \<in> set xs \<Longrightarrow> x \<le> max_of xs" by (simp add: max_of_def)
qed

lemma n_vars_of_var: "v \<in> set (rp_variables prog) \<Longrightarrow> unat (rv_id v) < n_vars_of prog"
  using max_of_ge [of "unat (rv_id v) + 1" "map (\<lambda>v. unat (rv_id v) + 1) (rp_variables prog)"]
  by (auto simp: n_vars_of_def Let_def less_eq_Suc_le intro: max.coboundedI1)

lemma n_vars_of_ref: "v \<in> r1cs_vars prog \<Longrightarrow> unat v < n_vars_of prog"
proof -
  let ?ids = "\<lambda>c. map (\<lambda>t. unat (t_var t) + 1) (lc_terms (rc_a c) @ lc_terms (rc_b c) @ lc_terms (rc_c c))"
  assume "v \<in> r1cs_vars prog"
  then obtain c where c: "c \<in> set (rp_constraints prog)" "v \<in> rc_vars c" by (auto simp: r1cs_vars_def)
  then have "unat v + 1 \<in> set (?ids c)" by (auto simp: rc_vars_def lc_vars_def image_iff)
  then have "unat v + 1 \<le> max_of (?ids c)" by (rule max_of_ge)
  also have "\<dots> \<le> max_of (map (\<lambda>c. max_of (?ids c)) (rp_constraints prog))"
    using c(1) by (intro max_of_ge) auto
  finally show ?thesis unfolding n_vars_of_def Let_def by linarith
qed

lemma internal_map_nth:
  "unat v < n_vars_of prog \<Longrightarrow> internal_map prog ! unat v \<longleftrightarrow> v \<in> internal_ids prog"
proof -
  let ?step = "\<lambda>b v. if rv_visibility v = Internal then b[unat (rv_id v) := True] else b"
  have "length (foldl ?step b xs) = length b \<and> (k < length b \<longrightarrow>
      (foldl ?step b xs ! k \<longleftrightarrow> b ! k \<or> (\<exists>v \<in> set xs. rv_visibility v = Internal \<and> unat (rv_id v) = k)))" for b k xs
    by (induction xs arbitrary: b) (auto simp: nth_update_if)
  from this [of "replicate (n_vars_of prog) False" "rp_variables prog" "unat v"]
  show "unat v < n_vars_of prog \<Longrightarrow> internal_map prog ! unat v \<longleftrightarrow> v \<in> internal_ids prog"
    by (auto simp: internal_map_def internal_ids_def image_iff simp flip: word_unat_eq_iff)
qed

lemma build_occ_nth:
  "length (build_occ n cons) = n"
  "k < n \<Longrightarrow> set (build_occ n cons ! k) =
    {j. j < length cons \<and> (\<exists>r. cons ! j = Some r \<and> k \<in> unat ` row_form_keys r)}"
proof -
  let ?step = "\<lambda>occ (i, c). case c of None \<Rightarrow> occ | Some c \<Rightarrow> foldl (\<lambda>occ v. occ_push occ v i) occ (row_keys c)"
  have "length (foldl ?step occ xs) = length occ \<and> (k < length occ \<longrightarrow> set (foldl ?step occ xs ! k) =
      set (occ ! k) \<union> {j. \<exists>r. (j, Some r) \<in> set xs \<and> k \<in> unat ` row_form_keys r})" for occ xs k
  proof (induction xs arbitrary: occ)
    case (Cons x xs)
    obtain i c where x: "x = (i, c)" by (cases x)
    have "length (?step occ x) = length occ" "k < length occ \<Longrightarrow> set (?step occ x ! k) =
        set (occ ! k) \<union> {j. \<exists>r. (j, Some r) = x \<and> k \<in> unat ` row_form_keys r}"
      using occ_pushes [where j = i and occ = occ]
      by (auto simp: x row_keys_set split: option.split)
    with Cons.IH [of "?step occ x"] show ?case by auto
  qed simp
  from this [of "replicate n []" "enumerate 0 cons" k]
  show "length (build_occ n cons) = n" "k < n \<Longrightarrow> set (build_occ n cons ! k) =
    {j. j < length cons \<and> (\<exists>r. cons ! j = Some r \<and> k \<in> unat ` row_form_keys r)}"
    by (auto simp: build_occ_def in_set_enumerate_eq)
qed

lemma alive_le: "alive cons \<le> length cons"
  by (simp add: alive_def)

context field_ctx
begin

lemma parse_row:
  assumes "r = (form_from_ir L m (rc_a c), form_from_ir L m (rc_b c), form_from_ir L m (rc_c c))"
  shows "row_form_ok L m r" "row_form_keys r \<subseteq> rc_vars c" "int m dvd row_form_val L \<sigma> r \<longleftrightarrow> int m dvd rc_val \<sigma> c"
proof -
  show "row_form_ok L m r" by (simp add: assms row_form_ok_def forms_of_def form_from_ir)
  show "row_form_keys r \<subseteq> rc_vars c"
    using form_from_ir(2) by (fastforce simp: assms row_form_keys_def forms_of_def rc_vars_def)
  have "row_form_val L \<sigma> r mod int m = rc_val \<sigma> c mod int m"
    unfolding assms row_form_val_def rc_val_def prod.case
    by (intro mod_diff_cong mod_mult_cong form_from_ir(3))
  then show "int m dvd row_form_val L \<sigma> r \<longleftrightarrow> int m dvd rc_val \<sigma> c" by (metis mod_eq_zero_dvd)
qed

lemma start_inv:
  "loop_inv L m (n_vars_of prog) (internal_map prog) fill (\<lambda>\<sigma>. r1cs_holds (int m) \<sigma> prog)
    (length (rp_constraints prog)) (min_start L m prog trace)"
proof -
  let ?cons = "parse_rows L m prog"
  have len: "length ?cons = length (rp_constraints prog)" by (simp add: parse_rows_def)
  have row: "row_form_ok L m r" "row_form_keys r \<subseteq> rc_vars (rp_constraints prog ! j)"
    "int m dvd row_form_val L \<sigma> r \<longleftrightarrow> int m dvd rc_val \<sigma> (rp_constraints prog ! j)"
    if "j < length (rp_constraints prog)" "?cons ! j = Some r" for j r \<sigma>
    using that parse_row [of r "rp_constraints prog ! j"] by (simp_all add: parse_rows_def)
  have keys: "unat v < n_vars_of prog" if "j < length ?cons" "?cons ! j = Some r" "v \<in> row_form_keys r" for j r v
    using row(2) [of j r] that len by (intro n_vars_of_ref) (auto simp: r1cs_vars_def)
  have "index_ok L m (n_vars_of prog) ?cons (build_occ (n_vars_of prog) ?cons)"
    unfolding index_ok_def
  proof (intro conjI allI impI ballI)
    show "length (build_occ (n_vars_of prog) ?cons) = n_vars_of prog" by (rule build_occ_nth)
    show "set (build_occ (n_vars_of prog) ?cons ! k) \<subseteq> {..< length ?cons}" if "k < n_vars_of prog" for k
      using build_occ_nth(2) [OF that] by auto
    fix j r assume j: "j < length ?cons" "?cons ! j = Some r"
    show "row_form_ok L m r" using row(1) j len by simp
    fix v assume v: "v \<in> row_form_keys r"
    show "unat v < n_vars_of prog" using keys [OF j v] .
    then show "j \<in> set (build_occ (n_vars_of prog) ?cons ! unat v)"
      using j v by (auto simp: build_occ_nth(2))
  qed
  moreover have "r1cs_holds (int m) \<sigma> prog \<longleftrightarrow> rows_hold L (int m) \<sigma> ?cons" for \<sigma>
    using row(3) len unfolding r1cs_holds_def rows_hold_def list_all_length set_cons_nth
    by (metis (no_types, lifting) parse_rows_def nth_map)
  ultimately show ?thesis
    using alive_le [of ?cons] unfolding loop_inv_def min_start_def Let_def
    by (auto simp: len queue_ok_def rows_stuck_def solution_inv_def alive_le intro!: exI [of _ "[]"])
qed

end

section \<open>The end\<close>

lemma survivors_set: "set (survivors cons) = {r. Some r \<in> set cons}"
  by (auto simp: survivors_def set_map_filter)

lemma survivors_length: "length (survivors cons) = alive cons"
  by (induction cons) (auto simp: survivors_def alive_def map_filter_simps)

text \<open>What the run leaves: the last state and the program built from it.\<close>

context field_ctx
begin

lemma run_min_result:
  assumes p: "nat_prime m" and f: "fs_modulus_decimal (rp_field prog) = Some dec" "biguint_parse L dec = Some m"
  shows "\<exists>st. min_loop L m (internal_map prog) fill (min_start L m prog trace) = Some st \<and>
    loop_inv L m (n_vars_of prog) (internal_map prog) fill (\<lambda>\<sigma>. r1cs_holds (int m) \<sigma> prog)
      (length (rp_constraints prog)) st \<and>
    (\<forall>r. Some r \<in> set (ms_cons st) \<longrightarrow> row_form_ok L m r \<and> stuck L m (internal_map prog) fill r) \<and>
    (\<forall>verify. run_min L verify prog fill trace = Some (min_finish L prog st, ms_trace st))"
proof -
  let ?I = "loop_inv L m (n_vars_of prog) (internal_map prog) fill (\<lambda>\<sigma>. r1cs_holds (int m) \<sigma> prog) (length (rp_constraints prog))"
  have "\<exists>st. min_loop L m (internal_map prog) fill (min_start L m prog trace) = Some st \<and> ?I st \<and> ms_queue st = []"
    by (rule min_loop_rule) (rule start_inv, rule visit_row_inv [OF p])
  then obtain st where st: "min_loop L m (internal_map prog) fill (min_start L m prog trace) = Some st"
    "?I st" "ms_queue st = []" by (elim exE conjE)
  have rows: "row_form_ok L m r \<and> stuck L m (internal_map prog) fill r" if s: "Some r \<in> set (ms_cons st)" for r
  proof -
    obtain j where j: "j < length (ms_cons st)" "ms_cons st ! j = Some r" using s [unfolded set_cons_nth] by blast
    have "index_ok L m (n_vars_of prog) (ms_cons st) (ms_occ st)" using st(2) by (simp add: loop_inv_def)
    moreover have "rows_stuck L m (internal_map prog) fill {} (ms_cons st)" using st(2,3) by (simp add: loop_inv_def)
    ultimately show ?thesis using index_okD(1) j unfolding rows_stuck_def by blast
  qed
  then have "\<not> list_ex (missed_elimination L m (internal_map prog) fill) (survivors (ms_cons st))"
    by (auto simp: list_ex_iff survivors_set stuck_def)
  then have "run_min L verify prog fill trace = Some (min_finish L prog st, ms_trace st)" for verify
    using f m_gt_1 st(1) by (simp add: run_min_def)
  with st(1,2) rows show ?thesis by (intro exI [of _ st]) simp
qed

end

definition row_out :: "('f, 'z) libs_scheme \<Rightarrow> nat \<times> 'f row3 \<Rightarrow> r1cs_constraint" where
  "row_out L = (\<lambda>(i, (a, b, c)). \<lparr>rc_id = of_nat i, rc_a = form_to_ir L a,
     rc_b = form_to_ir L b, rc_c = form_to_ir L c, rc_debug = None\<rparr>)"

lemma finish_constraints:
  "rp_constraints (min_finish L prog st) = map (row_out L) (enumerate 0 (survivors (ms_cons st)))"
  by (simp add: min_finish_def row_out_def Let_def)

lemma finish_set:
  "set (rp_constraints (min_finish L prog st)) = (\<lambda>i. row_out L (i, survivors (ms_cons st) ! i)) ` {..< alive (ms_cons st)}"
proof -
  let ?xs = "survivors (ms_cons st)"
  have "set (enumerate 0 ?xs) = (\<lambda>i. (i, ?xs ! i)) ` {..< length ?xs}"
    by (auto simp: in_set_enumerate_eq)
  then show ?thesis by (simp add: finish_constraints survivors_length image_image)
qed

lemma finish_length: "length (rp_constraints (min_finish L prog st)) = alive (ms_cons st)"
  by (simp add: finish_constraints survivors_length)

context field_ctx
begin

lemma row_out_val: "rc_val \<sigma> (row_out L (i, r)) = row_form_val L \<sigma> r" "rc_vars (row_out L (i, r)) = row_form_keys r"
  by (cases r; simp add: row_out_def rc_val_def form_to_ir row_form_val_def rc_vars_def row_form_keys_def forms_of_def Un_assoc)+

lemma finish_holds: "r1cs_holds k \<sigma> (min_finish L prog st) \<longleftrightarrow> rows_hold L k \<sigma> (ms_cons st)"
proof -
  have "r1cs_holds k \<sigma> (min_finish L prog st) \<longleftrightarrow>
      (\<forall>i < length (survivors (ms_cons st)). k dvd row_form_val L \<sigma> (survivors (ms_cons st) ! i))"
    unfolding r1cs_holds_def list_all_iff finish_set survivors_length by (auto simp: row_out_val)
  also have "\<dots> \<longleftrightarrow> (\<forall>r \<in> set (survivors (ms_cons st)). k dvd row_form_val L \<sigma> r)"
    by (simp add: all_set_conv_all_nth)
  finally show ?thesis by (simp add: rows_hold_def survivors_set)
qed

lemma finish_vars: "r1cs_vars (min_finish L prog st) = (\<Union>r \<in> set (survivors (ms_cons st)). row_form_keys r)"
proof -
  have "r1cs_vars (min_finish L prog st) = (\<Union>i < length (survivors (ms_cons st)). row_form_keys (survivors (ms_cons st) ! i))"
    unfolding r1cs_vars_def finish_set survivors_length by (force simp: row_out_val)
  also have "\<dots> = (\<Union>r \<in> set (survivors (ms_cons st)). row_form_keys r)"
    by (auto simp: set_conv_nth)
  finally show ?thesis .
qed

end

section \<open>A fixpoint\<close>

context field_ctx
begin

lemma from_bigint_const: "fp_wf m c \<Longrightarrow> fp_from_const L (fc_from_bigint (int (fp_to_biguint L c))) m = c"
  using fp_val_range [of c]
  by (intro fp_val_inj) (simp_all add: fp_from_const_val flip: fp_val_def)

lemma form_round_trip:
  assumes "form_ok L m f"
  shows "form_from_ir L m (form_to_ir L f) = f"
proof -
  have t: "tree_ok L m (ft f)" "fp_wf m (fk f)" using assms by (simp_all add: form_ok_def)
  let ?step = "\<lambda>(v, c) t. if fp_is_zero L c then t else acc_entry L m (\<lambda>x. fp_add L x c) v t"
  have acc: "bt_get (acc_entry L m (\<lambda>x. fp_add L x c) v s) = (bt_get s)(v \<mapsto> c)"
    if "bt_invar s" "bt_get s v = None" "fp_wf m c" "fp_val L c \<noteq> 0" for s v c
  proof -
    have "fp_add L (fp_zero L m) c = c"
      using that(3) by (intro fp_val_inj) (simp_all add: fp_zero_val fp_add_val)
    then show ?thesis
      using that by (simp add: acc_entry_def btree.lookup_entry fp_is_zero_val)
  qed
  have "bt_invar (fold ?step xs s) \<and> bt_get (fold ?step xs s) = bt_get s ++ map_of xs"
    if "bt_invar s" "distinct (map fst xs)" "\<forall>e \<in> set xs. bt_get s (fst e) = None \<and> fp_wf m (snd e) \<and> fp_val L (snd e) \<noteq> 0" for xs s
    using that
  proof (induction xs arbitrary: s)
    case (Cons e xs)
    obtain v c where e: "e = (v, c)" by (cases e)
    have vc: "fp_wf m c" "fp_val L c \<noteq> 0" "bt_get s v = None" using Cons.prems(3) by (simp_all add: e)
    have s': "?step e s = acc_entry L m (\<lambda>x. fp_add L x c) v s" using vc by (simp add: e fp_is_zero_val)
    have "bt_invar (acc_entry L m (\<lambda>x. fp_add L x c) v s)"
      unfolding acc_entry_def using Cons.prems(1) by (rule btree.invar_entry)
    then have inv: "bt_invar (?step e s)" using s' by simp
    have get: "bt_get (?step e s) = (bt_get s)(v \<mapsto> c)" unfolding s' by (rule acc [OF Cons.prems(1) vc(3,1,2)])
    have "bt_invar (fold ?step xs (?step e s)) \<and> bt_get (fold ?step xs (?step e s)) = bt_get (?step e s) ++ map_of xs"
      using Cons.prems(2,3) inv get by (intro Cons.IH) (auto simp: e image_iff)
    moreover have "v \<notin> dom (map_of xs)" using Cons.prems(2) by (simp add: e dom_map_of_conv_image_fst)
    moreover have "bt_get s ++ map_of (e # xs) = (bt_get s)(v \<mapsto> c) ++ map_of xs"
      using map_add_upd_left [OF calculation(2), of "bt_get s" c] by (simp add: e fun_upd_def [symmetric] map_add_upd)
    ultimately show ?case using get by (simp only: fold_simps)
  qed simp
  from this [of "[]" "ft f"] have F: "bt_invar (fold ?step (ft f) [])" "bt_get (fold ?step (ft f) []) = bt_get (ft f)"
    using tree_entries(2,3) [OF t(1)] btree.items_distinct [OF tree_okD(1) [OF t(1)]]
    by (force simp: bt_get_map_of)+
  have ft: "ft (form_from_ir L m (form_to_ir L f)) = fold ?step (ft f) []"
  proof -
    have "ft (form_from_ir L m (form_to_ir L f)) = fold (\<lambda>e t. (let c = fp_from_const L (fc_from_bigint (int (fp_to_biguint L (snd e)))) m in
         if fp_is_zero L c then t else acc_entry L m (\<lambda>x. fp_add L x c) (fst e) t)) (ft f) []"
      by (simp add: form_from_ir_def form_to_ir_def fold_map comp_def case_prod_unfold Let_def cong: if_cong)
    also have "\<dots> = fold ?step (ft f) []"
      using tree_entries(2) [OF t(1)] by (intro fold_cong) (auto simp: from_bigint_const Let_def split_beta)
    finally show ?thesis .
  qed
  have "fold ?step (ft f) [] = ft f"
    using F t(1) by (intro bt_eqI) (simp_all add: tree_ok_def)
  moreover have "fk (form_from_ir L m (form_to_ir L f)) = fk f"
    using t(2) by (simp add: form_from_ir_def form_to_ir_def from_bigint_const)
  ultimately show ?thesis using ft by simp
qed

lemma visit_stuck:
  assumes "i < length (ms_cons st)" "ms_cons st ! i = Some r" "row_form_ok L m r" "stuck L m b fill r"
  shows "visit_row L m b fill i st = Some st"
proof -
  have "visit_row L m b fill i st = Some st" if rel: "relation L m r = Some rel" for rel
  proof -
    have "ft rel = [] \<Longrightarrow> \<not> fp_is_zero L (fk rel)" using assms(4) rel by (simp add: stuck_def)
    moreover have "find_pivot b rel = Some (v, coeff) \<Longrightarrow>
        \<exists>g. solve_pivot L rel v coeff = Some g \<and> fill < length (ft g)" for v coeff
      using assms(4) rel by (auto simp: stuck_def missed_elimination_def not_le split: option.splits)
    ultimately show ?thesis
      using assms(1,2) rel by (fastforce simp: visit_row_def split: option.split prod.split)
  qed
  then show ?thesis using assms(1,2) by (cases "relation L m r") (auto simp: visit_row_def)
qed

end

text \<open>A row sticks in the result as it stuck in the run: the internal variables it mentions are
  still declared.\<close>

lemma stuck_cong:
  assumes "\<And>v. v \<in> row_form_keys r \<Longrightarrow> b ! unat v \<longleftrightarrow> b' ! unat v"
    "\<And>rel. relation L m r = Some rel \<Longrightarrow> form_keys rel \<subseteq> row_form_keys r"
  shows "stuck L m b fill r \<longleftrightarrow> stuck L m b' fill r"
proof -
  have "find_pivot b rel = find_pivot b' rel" if rel: "relation L m r = Some rel" for rel
  proof -
    have "fst x \<in> form_keys rel" if "x \<in> set (ft rel)" for x
      using that unfolding form_keys_def bt_keys_dom [symmetric] by (simp add: bt_keys_def)
    then show ?thesis
      unfolding find_pivot_def using assms(1) assms(2) [OF rel] by (intro find_cong) (auto simp: split_beta)
  qed
  then show ?thesis by (auto simp: stuck_def missed_elimination_def split: option.splits)
qed

context field_ctx
begin

lemma loop_stuck:
  assumes "\<And>r. Some r \<in> set cons \<Longrightarrow> row_form_ok L m r \<and> stuck L m b fill r" "ms_cons st = cons"
    "set (ms_queue st) \<subseteq> {..< length cons}" "list_all (\<lambda>c. c \<noteq> None) cons"
  shows "\<exists>st'. min_loop L m b fill st = Some st' \<and> ms_cons st' = cons \<and> ms_eliminated st' = ms_eliminated st \<and>
    ms_trace st' = ms_trace st"
proof -
  let ?I = "\<lambda>s. ms_cons s = cons \<and> ms_eliminated s = ms_eliminated st \<and> ms_trace s = ms_trace st \<and>
    set (ms_queue s) \<subseteq> {..< length cons}"
  have "\<exists>s'. visit_row L m b fill i (pop i q s) = Some s' \<and> ?I s'" if I: "?I s" "ms_queue s = i # q" for s i q
  proof -
    have i: "i < length cons" using I by auto
    then obtain r where r: "cons ! i = Some r" using assms(4) by (auto simp: list_all_length)
    have "Some r \<in> set cons" using i r set_cons_nth by metis
    from assms(1) [OF this] have "visit_row L m b fill i (pop i q s) = Some (pop i q s)"
      using I i r by (intro visit_stuck [where r = r]) simp_all
    then show ?thesis using I by auto
  qed
  from min_loop_rule [of ?I, OF _ this] assms(2,3) show ?thesis by blast
qed

lemma finish_internal:
  assumes sol: "solution_inv L m (n_vars_of prog) (internal_map prog) P (ms_cons st) (ms_eliminated st) ds"
    and v: "v \<in> r1cs_vars (min_finish L prog st)"
  shows "v \<in> internal_ids (min_finish L prog st) \<longleftrightarrow> v \<in> internal_ids prog"
proof -
  have "v \<notin> ms_eliminated st" using v sol unfolding finish_vars survivors_set solution_inv_def by blast
  moreover have "rp_variables (min_finish L prog st) = filter (\<lambda>v. rv_id v \<notin> ms_eliminated st \<and>
      (rv_visibility v \<noteq> Internal \<or> rv_id v \<in> r1cs_vars (min_finish L prog st))) (rp_variables prog)"
    unfolding finish_vars by (simp add: min_finish_def Let_def row_keys_set)
  ultimately show ?thesis using v by (auto simp: internal_ids_def)
qed

lemma reparse_finish:
  assumes "\<And>r. Some r \<in> set (ms_cons st) \<Longrightarrow> row_form_ok L m r"
  shows "parse_rows L m (min_finish L prog st) = map Some (survivors (ms_cons st))"
proof (rule nth_equalityI)
  show "length (parse_rows L m (min_finish L prog st)) = length (map Some (survivors (ms_cons st)))"
    by (simp add: parse_rows_def finish_length survivors_length)
  fix i assume "i < length (parse_rows L m (min_finish L prog st))"
  then have i: "i < length (survivors (ms_cons st))" by (simp add: parse_rows_def finish_length survivors_length)
  obtain a b c where r: "survivors (ms_cons st) ! i = (a, b, c)" by (metis prod_cases3)
  have "row_form_ok L m (a, b, c)" using i r assms survivors_set by (metis nth_mem mem_Collect_eq)
  then show "parse_rows L m (min_finish L prog st) ! i = map Some (survivors (ms_cons st)) ! i"
    using i by (simp add: parse_rows_def finish_constraints survivors_length nth_enumerate_eq row_out_def r
        row_form_ok_def forms_of_def form_round_trip)
qed

lemma minimize_again:
  assumes p: "nat_prime m" and f: "fs_modulus_decimal (rp_field prog) = Some dec" "biguint_parse L dec = Some m"
    and out: "minimize_with_fill L verify prog fill = Some out"
  shows "minimize_with_fill L verify' out fill = Some out"
proof -
  obtain st where inv: "loop_inv L m (n_vars_of prog) (internal_map prog) fill (\<lambda>\<sigma>. r1cs_holds (int m) \<sigma> prog)
      (length (rp_constraints prog)) st"
    and rows: "\<forall>r. Some r \<in> set (ms_cons st) \<longrightarrow> row_form_ok L m r \<and> stuck L m (internal_map prog) fill r"
    and run: "\<forall>verify. run_min L verify prog fill None = Some (min_finish L prog st, ms_trace st)"
    using run_min_result [OF p f, of fill None] by (elim exE conjE)
  have o: "out = min_finish L prog st" using out run by (simp add: minimize_with_fill_def)
  obtain ds where sol: "solution_inv L m (n_vars_of prog) (internal_map prog) (\<lambda>\<sigma>. r1cs_holds (int m) \<sigma> prog)
      (ms_cons st) (ms_eliminated st) ds" using inv by (auto simp: loop_inv_def)
  let ?S = "survivors (ms_cons st)" and ?b = "internal_map out"
  have parse: "parse_rows L m out = map Some ?S" unfolding o using rows by (intro reparse_finish) simp
  have "row_form_ok L m r \<and> stuck L m ?b fill r" if "Some r \<in> set (map Some ?S)" for r
  proof -
    have r: "r \<in> set ?S" "row_form_ok L m r" "stuck L m (internal_map prog) fill r"
      using that rows survivors_set [of "ms_cons st"] by auto
    have "internal_map prog ! unat v \<longleftrightarrow> ?b ! unat v" if v: "v \<in> row_form_keys r" for v
    proof -
      have vo: "v \<in> r1cs_vars out" unfolding o finish_vars using r(1) v by blast
      have "unat v < n_vars_of prog"
        using inv v r(1) unfolding loop_inv_def survivors_set mem_Collect_eq set_cons_nth by (blast intro: index_okD(2))
      then show ?thesis
        using internal_map_nth n_vars_of_ref [OF vo] finish_internal [OF sol] vo o by simp
    qed
    then show ?thesis using r(2,3) relation(2) [OF r(2)] stuck_cong by blast
  qed
  note stuck = this
  have start: "ms_cons (min_start L m out None) = map Some ?S" "ms_eliminated (min_start L m out None) = {}"
    "set (ms_queue (min_start L m out None)) \<subseteq> {..< length (map Some ?S)}"
    by (auto simp: min_start_def Let_def parse)
  have "list_all (\<lambda>c. c \<noteq> None) (map Some ?S)" by (simp add: list_all_iff)
  from loop_stuck [OF stuck start(1,3) this] start(2)
  obtain st2 where st2: "min_loop L m ?b fill (min_start L m out None) = Some st2" "ms_cons st2 = map Some ?S"
    "ms_eliminated st2 = {}"
    by auto
  have "survivors (map Some xs) = xs" for xs :: "'b row3 list"
    by (induction xs) (simp_all add: survivors_def map_filter_simps)
  then have S2: "survivors (ms_cons st2) = ?S" by (simp add: st2(2))
  have "min_finish L out st2 = out"
  proof -
    have "rp_constraints (min_finish L out st2) = rp_constraints out"
      by (simp add: finish_constraints S2) (simp add: o finish_constraints)
    moreover have "rp_variables (min_finish L out st2) = rp_variables out"
      by (auto simp: min_finish_def Let_def S2 st2(3) o intro!: filter_cong)
    moreover have "rp_field (min_finish L out st2) = rp_field out" by (simp add: min_finish_def Let_def)
    ultimately show ?thesis by simp
  qed
  moreover have "\<not> list_ex (missed_elimination L m ?b fill) ?S"
    using stuck by (force simp: list_ex_iff stuck_def)
  moreover have "fs_modulus_decimal (rp_field out) = Some dec" by (simp add: o min_finish_def Let_def f)
  ultimately show ?thesis
    using f(2) m_gt_1 st2(1) S2 by (simp add: minimize_with_fill_def run_min_def)
qed

end

section \<open>The trace\<close>

definition erase :: "'f min_state \<Rightarrow> 'f min_state" where
  "erase st = st\<lparr>ms_trace := None\<rparr>"

lemma erase_simps [simp]:
  "ms_cons (erase st) = ms_cons st" "ms_occ (erase st) = ms_occ st" "ms_queue (erase st) = ms_queue st"
  "ms_in_queue (erase st) = ms_in_queue st" "ms_eliminated (erase st) = ms_eliminated st"
  "ms_trace (erase st) = None"
  by (simp_all add: erase_def)

lemma erase_record: "foldl (record_site L k) (erase st) ch = erase (foldl (record_site L k') st ch)"
proof -
  have "record_site L k (erase st) x = erase (record_site L k' st x)" for st x
    by (cases x) (simp add: record_site_def Let_def erase_def)
  then show ?thesis by (induction ch arbitrary: st) simp_all
qed

lemma erase_eliminate: "eliminate L i v g (erase st) = erase (eliminate L i v g st)"
proof -
  let ?sites = "remdups_adj (sort (ms_occ st ! unat v))"
  obtain cs ch where s: "subst_serial L v g ?sites ((ms_cons st)[i := None]) = (cs, ch)" by fastforce
  show ?thesis
    unfolding eliminate_def Let_def erase_simps subst_parallel_serial [OF distinct_sites] if_cancel s prod.case
    by (subst erase_record [symmetric]) (simp add: erase_def)
qed

lemma erase_visit: "visit_row L m b fill i (erase st) = map_option erase (visit_row L m b fill i st)"
  by (auto simp: visit_row_def erase_eliminate split: option.split prod.split)

lemma min_loop_pop:
  "min_loop L m b fill st = (case ms_queue st of [] \<Rightarrow> Some st
    | i # q \<Rightarrow> (case visit_row L m b fill i (pop i q st) of None \<Rightarrow> None | Some st' \<Rightarrow> min_loop L m b fill st'))"
  unfolding pop_def by (rule min_loop.simps)

lemma erase_loop: "min_loop L m b fill (erase st) = map_option erase (min_loop L m b fill st)"
proof (induction L m b fill st rule: min_loop.induct)
  case (1 L m b fill st)
  have IH: "min_loop L m b fill (erase st') = map_option erase (min_loop L m b fill st')"
    if "ms_queue st = i # q" "visit_row L m b fill i (pop i q st) = Some st'" for i q st'
    using "1.IH" [OF that(1)] that(2) by (simp add: pop_def)
  have pop: "pop i q (erase st) = erase (pop i q st)" for i q by (simp add: pop_def erase_def)
  show ?case
    unfolding min_loop_pop [of L m b fill st] min_loop_pop [of L m b fill "erase st"] erase_simps pop erase_visit
    using IH by (auto split: list.split option.split)
qed

text \<open>A solution of the live rows extends to the eliminated variables, in one way.\<close>

context field_ctx
begin

lemma solution_extends:
  assumes sol: "solution_inv L m n b P cons elim ds"
    and rows: "\<And>r. Some r \<in> set cons \<Longrightarrow> row_form_ok L m r"
    and \<sigma>: "rows_hold L (int m) \<sigma> cons"
  shows "\<exists>\<tau>. (\<forall>v. v \<notin> elim \<longrightarrow> \<tau> v = \<sigma> v) \<and> P \<tau> \<and>
    (\<forall>\<rho>. (\<forall>v. v \<notin> elim \<longrightarrow> int m dvd \<rho> v - \<sigma> v) \<and> P \<rho> \<longrightarrow> (\<forall>v. int m dvd \<rho> v - \<tau> v))"
proof -
  have ch: "chain_ok L m ds" "fst ` set ds = elim" and
    P: "\<And>\<sigma>. P \<sigma> \<longleftrightarrow> rows_hold L (int m) \<sigma> cons \<and> defs_hold L (int m) \<sigma> ds"
    using sol by (simp_all add: solution_inv_def)
  obtain \<tau> where \<tau>: "\<forall>v. v \<notin> elim \<longrightarrow> \<tau> v = \<sigma> v" "defs_hold L (int m) \<tau> ds"
    using chain_extend [OF ch(1)] unfolding ch(2) by blast
  have "row_form_val L \<tau> r = row_form_val L \<sigma> r" if r: "Some r \<in> set cons" for r
  proof -
    have "row_form_keys r \<inter> elim = {}" using sol r unfolding solution_inv_def by blast
    then have "form_val L \<tau> f = form_val L \<sigma> f" if "f \<in> set (forms_of r)" for f
      using that rows [OF r] \<tau>(1)
      by (intro form_val_cong [of L m]) (auto simp: row_form_ok_def list_all_iff row_form_keys_def)
    then show ?thesis by (cases r) (simp add: row_form_val_def forms_of_def)
  qed
  then have "P \<tau>" using \<sigma> \<tau>(2) unfolding P rows_hold_def by simp
  moreover have "int m dvd \<rho> v - \<tau> v" if \<rho>: "\<forall>v. v \<notin> elim \<longrightarrow> int m dvd \<rho> v - \<sigma> v" "P \<rho>" for \<rho> v
    using \<rho> \<tau> P by (intro chain_unique [OF ch(1)]) (simp_all add: ch(2))
  ultimately show ?thesis using \<tau>(1) by blast
qed

end

section \<open>Example\<close>

text \<open>Two rows over the field of 97 elements: \<open>1 \<cdot> (v\<^sub>0 + 1) = v\<^sub>1\<close> defines the internal \<open>v\<^sub>1\<close>, and
  \<open>v\<^sub>1 \<cdot> v\<^sub>1 = v\<^sub>2\<close> uses it.\<close>

definition linear_program :: r1cs_program where
  "linear_program = \<lparr>rp_field = \<lparr>fs_name = ''f97'', fs_modulus_decimal = Some ''97''\<rparr>,
     rp_variables = [\<lparr>rv_id = 0, rv_name = ''x'', rv_visibility = Public\<rparr>,
       \<lparr>rv_id = 1, rv_name = ''p'', rv_visibility = Internal\<rparr>, \<lparr>rv_id = 2, rv_name = ''y'', rv_visibility = Public\<rparr>],
     rp_constraints = [rc_general 0 lc_one
         \<lparr>lc_const = fc_one, lc_terms = [\<lparr>t_coeff = fc_one, t_var = 0\<rparr>]\<rparr> (lc_var 1) ''plug'',
       rc_mul 1 (lc_var 1) (lc_var 1) 2 ''square'']\<rparr>"

lemma linear_modulus: "fs_modulus_decimal (rp_field linear_program) = Some ''97''"
  "biguint_parse ref_libs ''97'' = Some 97"
  by (simp_all add: linear_program_def ref_libs_def parse_digits_def is_ascii_digit_def digits_value_def)

section \<open>Properties\<close>

text \<open>C21: minimization over a prime field. The run always returns, whatever the fill and whether the
  fixpoint check is on, and what it returns has exactly the solutions of the program: with some
  set of eliminated variables, all internal and none left in the rows, every solution of the
  program is one of the result, and every solution of the result extends to the eliminated
  variables, in one way modulo the field, to a solution of the program. Each eliminated variable
  has cost a row; the variables kept are, in order, the inputs and the internals still in use.\<close>

theorem minimize_solutions:
  assumes "num_libs L" "nat_prime m" "fs_modulus_decimal (rp_field prog) = Some dec" "biguint_parse L dec = Some m"
  shows "\<exists>out elim. minimize_with_fill L verify prog fill = Some out \<and>
    elim \<subseteq> internal_ids prog \<and> elim \<inter> r1cs_vars out = {} \<and>
    length (rp_constraints out) + card elim \<le> length (rp_constraints prog) \<and>
    rp_variables out = filter (\<lambda>v. rv_id v \<notin> elim \<and> (rv_visibility v \<noteq> Internal \<or> rv_id v \<in> r1cs_vars out))
      (rp_variables prog) \<and>
    (\<forall>\<sigma>. r1cs_holds (int m) \<sigma> prog \<longrightarrow> r1cs_holds (int m) \<sigma> out) \<and>
    (\<forall>\<sigma>. r1cs_holds (int m) \<sigma> out \<longrightarrow> (\<exists>\<tau>. (\<forall>v. v \<notin> elim \<longrightarrow> \<tau> v = \<sigma> v) \<and> r1cs_holds (int m) \<tau> prog \<and>
      (\<forall>\<rho>. (\<forall>v. v \<notin> elim \<longrightarrow> int m dvd \<rho> v - \<sigma> v) \<and> r1cs_holds (int m) \<rho> prog \<longrightarrow> (\<forall>v. int m dvd \<rho> v - \<tau> v))))"
proof -
  have ctx: "field_ctx L m"
    using assms(1) nat_prime_gt_1 [OF assms(2)] by (simp add: field_ctx_def field_ctx_axioms_def)
  obtain st where inv: "loop_inv L m (n_vars_of prog) (internal_map prog) fill (\<lambda>\<sigma>. r1cs_holds (int m) \<sigma> prog)
      (length (rp_constraints prog)) st"
    and run: "\<forall>verify. run_min L verify prog fill None = Some (min_finish L prog st, ms_trace st)"
    using field_ctx.run_min_result [OF ctx assms(2-4), of fill None] by (elim exE conjE)
  let ?out = "min_finish L prog st" and ?e = "ms_eliminated st"
  obtain ds where sol: "solution_inv L m (n_vars_of prog) (internal_map prog) (\<lambda>\<sigma>. r1cs_holds (int m) \<sigma> prog)
      (ms_cons st) ?e ds" and len: "length (ms_cons st) = length (rp_constraints prog)"
    using inv by (auto simp: loop_inv_def)
  have rows: "row_form_ok L m r" if "Some r \<in> set (ms_cons st)" for r
    using inv that unfolding loop_inv_def set_cons_nth by (blast intro: index_okD(1))
  have ch: "fst ` set ds = ?e" and
    eq: "\<And>\<sigma>. r1cs_holds (int m) \<sigma> prog \<longleftrightarrow> r1cs_holds (int m) \<sigma> ?out \<and> defs_hold L (int m) \<sigma> ds"
    using sol by (simp_all add: solution_inv_def field_ctx.finish_holds [OF ctx])
  have "?e \<subseteq> internal_ids prog" using sol internal_map_nth [of _ prog] unfolding solution_inv_def by blast
  moreover have "?e \<inter> r1cs_vars ?out = {}"
    using sol unfolding solution_inv_def field_ctx.finish_vars [OF ctx] survivors_set by blast
  moreover have "length (rp_constraints ?out) + card ?e \<le> length (rp_constraints prog)"
  proof -
    have "card ?e \<le> length ds" unfolding ch [symmetric] by (metis card_length length_map list.set_map)
    then show ?thesis using sol len by (simp add: solution_inv_def finish_length)
  qed
  moreover have "rp_variables ?out = filter (\<lambda>v. rv_id v \<notin> ?e \<and>
      (rv_visibility v \<noteq> Internal \<or> rv_id v \<in> r1cs_vars ?out)) (rp_variables prog)"
    unfolding field_ctx.finish_vars [OF ctx] by (simp add: min_finish_def Let_def row_keys_set)
  moreover have "\<exists>\<tau>. (\<forall>v. v \<notin> ?e \<longrightarrow> \<tau> v = \<sigma> v) \<and> r1cs_holds (int m) \<tau> prog \<and>
      (\<forall>\<rho>. (\<forall>v. v \<notin> ?e \<longrightarrow> int m dvd \<rho> v - \<sigma> v) \<and> r1cs_holds (int m) \<rho> prog \<longrightarrow> (\<forall>v. int m dvd \<rho> v - \<tau> v))"
    if "r1cs_holds (int m) \<sigma> ?out" for \<sigma>
    using field_ctx.solution_extends [OF ctx sol rows, of \<sigma>] that
    by (simp add: field_ctx.finish_holds [OF ctx])
  ultimately show ?thesis
    using run eq by (intro exI [of _ ?out] exI [of _ ?e]) (simp add: minimize_with_fill_def)
qed

theorem minimize_solutions_witness:
  "\<exists>out elim. minimize_with_fill ref_libs True linear_program 2 = Some out \<and> elim \<subseteq> {1} \<and>
    length (rp_constraints out) + card elim \<le> 2 \<and>
    (\<forall>\<sigma>. r1cs_holds 97 \<sigma> linear_program \<longrightarrow> r1cs_holds 97 \<sigma> out)"
proof -
  have "internal_ids linear_program = rv_id ` set (filter (\<lambda>v. rv_visibility v = Internal) (rp_variables linear_program))"
    by (simp add: internal_ids_def)
  then have "internal_ids linear_program = {1}" unfolding linear_program_def by (simp del: set_filter)
  moreover have "length (rp_constraints linear_program) = 2" by (simp add: linear_program_def)
  ultimately show ?thesis
    using minimize_solutions [OF ref.num_libs_axioms nat_prime_97 linear_modulus, of True 2] by fastforce
qed

text \<open>C29: minimization is a fixpoint: what it returns it leaves as it is, so no surviving row
  still defines an internal variable within the fill budget.\<close>

theorem minimize_idempotent:
  assumes "num_libs L" "nat_prime m" "fs_modulus_decimal (rp_field prog) = Some dec" "biguint_parse L dec = Some m"
    "minimize_with_fill L verify prog fill = Some out"
  shows "minimize_with_fill L verify' out fill = Some out"
proof -
  have "field_ctx L m"
    using assms(1) nat_prime_gt_1 [OF assms(2)] by (simp add: field_ctx_def field_ctx_axioms_def)
  from field_ctx.minimize_again [OF this assms(2-5)] show ?thesis .
qed

theorem minimize_idempotent_witness:
  "\<exists>out. minimize_with_fill ref_libs True linear_program 2 = Some out \<and> minimize_with_fill ref_libs True out 2 = Some out"
proof -
  obtain out where "minimize_with_fill ref_libs True linear_program 2 = Some out"
    using f97.run_min_result [OF nat_prime_97 linear_modulus, of 2 None] by (auto simp: minimize_with_fill_def)
  with minimize_idempotent [OF ref.num_libs_axioms nat_prime_97 linear_modulus this] show ?thesis by blast
qed

text \<open>recording the trace changes nothing: the traced run returns the rows of the untraced
  one, and panics when it does.\<close>

theorem minimize_traced_rows:
  "map_option fst (minimize_traced L verify prog fill) = minimize_with_fill L verify prog fill"
proof -
  have "min_start L m prog None = erase (min_start L m prog (Some trace_default))" for m
    by (simp add: min_start_def Let_def erase_def)
  then have loop: "min_loop L m b fill (min_start L m prog None) =
      map_option erase (min_loop L m b fill (min_start L m prog (Some trace_default)))" for m b
    by (simp add: erase_loop)
  have "min_finish L prog (erase st) = min_finish L prog st" for st
    by (simp add: min_finish_def)
  then show ?thesis
    by (auto simp: minimize_traced_def minimize_with_fill_def run_min_def loop split: option.split)
qed

end
