(* ===== verification/Codec.thy ===== *)
theory Codec
  imports Field_Const
begin

text \<open>
  The byte level of \<^verbatim>\<open>crates/ir/src/bytecode.rs\<close>: the forward cursor with its errors, LEB128
  varints, zigzag integers, strings, and counted sequences. An encoder is a function to bytes
  (what it appends to its buffer), a decoder a function of the cursor; \<open>reads\<close> says that a
  decoder consumes given bytes, whatever follows, and returns a given value. The locale
  \<open>codec\<close> is the interface every encoder/decoder pair of the format is an instance of.
\<close>

unbundle bit_operations_syntax

section \<open>The cursor\<close>

datatype bytecode_error = BadMagic | UnsupportedVersion "16 word" | Truncated | BadUtf8 | BadTag u8

definition show_bytecode_error :: "bytecode_error \<Rightarrow> string" where
  "show_bytecode_error e = (case e of
      BadMagic \<Rightarrow> ''bad magic (not an XBC container)''
    | UnsupportedVersion v \<Rightarrow> ''unsupported bytecode version '' @ show_nat (unat v)
    | Truncated \<Rightarrow> ''truncated bytecode buffer''
    | BadUtf8 \<Rightarrow> ''invalid UTF-8 in a string field''
    | BadTag t \<Rightarrow> ''unknown tag byte '' @ show_nat (unat t))"

record cursor =
  cu_buf :: "u8 list"
  cu_pos :: nat
  cu_pool :: "field_const list"

text \<open>A decoder ends with a value, with an error the code reports, or in a panic.\<close>

datatype decode_stop = Err bytecode_error | Panic

type_synonym 'a parser = "cursor \<Rightarrow> decode_stop + 'a \<times> cursor"

definition cursor_new :: "u8 list \<Rightarrow> cursor" where
  "cursor_new buf = \<lparr>cu_buf = buf, cu_pos = 0, cu_pool = []\<rparr>"

definition preturn :: "'a \<Rightarrow> 'a parser" where
  "preturn x = (\<lambda>cu. Inr (x, cu))"

definition pfail :: "bytecode_error \<Rightarrow> 'a parser" where
  "pfail e = (\<lambda>cu. Inl (Err e))"

definition pbind :: "'a parser \<Rightarrow> ('a \<Rightarrow> 'b parser) \<Rightarrow> 'b parser" where
  "pbind p f = (\<lambda>cu. case p cu of Inl e \<Rightarrow> Inl e | Inr (x, cu') \<Rightarrow> f x cu')"

text \<open>\<^verbatim>\<open>take\<close>: a position past \<^verbatim>\<open>usize::MAX\<close> and one past the buffer are the same error.\<close>

definition take_bytes :: "nat \<Rightarrow> u8 list parser" where
  "take_bytes n = (\<lambda>cu.
    let pos = cu_pos cu; end = pos + n in
    if 2 ^ 64 \<le> end then Inl (Err Truncated)
    else if length (cu_buf cu) < end then Inl (Err Truncated)
    else Inr (take n (drop pos (cu_buf cu)), cu\<lparr>cu_pos := end\<rparr>))"

definition take_u8 :: "u8 parser" where
  "take_u8 = pbind (take_bytes 1) (\<lambda>bs. preturn (bs ! 0))"

text \<open>A \<^verbatim>\<open>for _ in 0..n\<close> loop that pushes what it reads.\<close>

fun p_repeat :: "nat \<Rightarrow> 'a parser \<Rightarrow> 'a list parser" where
  "p_repeat 0 p = preturn []"
| "p_repeat (Suc n) p = pbind p (\<lambda>x. pbind (p_repeat n p) (\<lambda>xs. preturn (x # xs)))"

text \<open>
  \<^verbatim>\<open>Vec::with_capacity(n)\<close> and \<^verbatim>\<open>vec![x; n]\<close> for elements of the given size in bytes panic on a
  capacity past \<^verbatim>\<open>isize::MAX\<close> bytes. (Memory itself is taken to suffice.)
\<close>

definition capacity_ok :: "nat \<Rightarrow> nat \<Rightarrow> bool" where
  "capacity_ok w n \<longleftrightarrow> n * w < 2 ^ 63"

lemma capacity_ok_0 [simp]: "capacity_ok w 0"
  by (simp add: capacity_ok_def)

definition reserve :: "nat \<Rightarrow> nat \<Rightarrow> unit parser" where
  "reserve w n = (\<lambda>cu. if capacity_ok w n then Inr ((), cu) else Inl Panic)"

section \<open>Integers\<close>

function put_varint :: "u64 \<Rightarrow> u8 list" where
  "put_varint v =
    (let byte = ucast (v AND 0x7f) :: u8; v = drop_bit 7 v
     in if v = 0 then [byte] else (byte OR 0x80) # put_varint v)"
  by pat_completeness auto
termination
proof (relation "measure unat")
  fix byte :: u8 and x v :: u64
  assume x: "x = drop_bit 7 v" "x \<noteq> 0"
  have u: "unat x = unat v div 128" unfolding x(1) unat_drop_bit_eq by (simp add: drop_bit_eq_div)
  moreover have "unat x \<noteq> 0" using x(2) by (simp add: unat_eq_0)
  ultimately have "unat v \<noteq> 0" by (intro notI) simp
  then show "(x, v) \<in> measure unat" using u by simp
qed simp

declare put_varint.simps [simp del]

function varint_from :: "nat \<Rightarrow> u64 \<Rightarrow> u64 parser" where
  "varint_from shift v = pbind take_u8 (\<lambda>byte.
     let v = v OR push_bit shift (ucast (byte AND 0x7f)) in
     if byte AND 0x80 = 0 then preturn v
     else let shift = shift + 7 in if shift \<ge> 64 then pfail Truncated else varint_from shift v)"
  by pat_completeness auto
termination by (relation "measure (\<lambda>(shift, v). 64 - shift)") auto

declare varint_from.simps [simp del]

definition varint :: "u64 parser" where
  "varint = varint_from 0 0"

definition put_vu32 :: "u32 \<Rightarrow> u8 list" where
  "put_vu32 v = put_varint (ucast v)"

definition vu32 :: "u32 parser" where
  "vu32 = pbind varint (\<lambda>v. preturn (ucast v))"

text \<open>\<^verbatim>\<open>as usize\<close>: the crate runs on 64-bit targets.\<close>

definition put_len :: "nat \<Rightarrow> u8 list" where
  "put_len n = put_varint (of_nat n)"

definition len :: "nat parser" where
  "len = pbind varint (\<lambda>v. preturn (unat v))"

definition put_ivarint :: "i64 \<Rightarrow> u8 list" where
  "put_ivarint v = put_varint (push_bit 1 v XOR signed_drop_bit 63 v)"

definition ivarint :: "i64 parser" where
  "ivarint = pbind varint (\<lambda>u. preturn (drop_bit 1 u XOR - (u AND 1)))"

definition put_u32 :: "u32 \<Rightarrow> u8 list" where
  "put_u32 v = map (\<lambda>i. ucast (drop_bit (8 * i) v)) [0..<4]"

definition put_i64 :: "i64 \<Rightarrow> u8 list" where
  "put_i64 v = map (\<lambda>i. ucast (drop_bit (8 * i) v)) [0..<8]"

section \<open>Strings\<close>

text \<open>A Rust string is the list of its bytes; \<^verbatim>\<open>from_utf8\<close> checks the well-formed ranges.\<close>

definition str_bytes :: "string \<Rightarrow> u8 list" where
  "str_bytes s = map of_char s"

definition bytes_str :: "u8 list \<Rightarrow> string" where
  "bytes_str bs = map (\<lambda>b. char_of (unat b)) bs"

definition utf8_tail :: "u8 \<Rightarrow> bool" where
  "utf8_tail b \<longleftrightarrow> 0x80 \<le> b \<and> b \<le> 0xBF"

fun utf8_valid :: "u8 list \<Rightarrow> bool" where
  "utf8_valid [] = True"
| "utf8_valid (b # bs) =
    (if b < 0x80 then utf8_valid bs
     else case bs of [] \<Rightarrow> False | b1 # bs1 \<Rightarrow>
       if 0xC2 \<le> b \<and> b \<le> 0xDF then utf8_tail b1 \<and> utf8_valid bs1
       else case bs1 of [] \<Rightarrow> False | b2 # bs2 \<Rightarrow>
         if b = 0xE0 then 0xA0 \<le> b1 \<and> b1 \<le> 0xBF \<and> utf8_tail b2 \<and> utf8_valid bs2
         else if b = 0xED then 0x80 \<le> b1 \<and> b1 \<le> 0x9F \<and> utf8_tail b2 \<and> utf8_valid bs2
         else if 0xE1 \<le> b \<and> b \<le> 0xEF then utf8_tail b1 \<and> utf8_tail b2 \<and> utf8_valid bs2
         else case bs2 of [] \<Rightarrow> False | b3 # bs3 \<Rightarrow>
           (if b = 0xF0 then 0x90 \<le> b1 \<and> b1 \<le> 0xBF
            else if b = 0xF4 then 0x80 \<le> b1 \<and> b1 \<le> 0x8F
            else 0xF1 \<le> b \<and> b \<le> 0xF3 \<and> utf8_tail b1) \<and> utf8_tail b2 \<and> utf8_tail b3 \<and> utf8_valid bs3)"

definition put_str :: "string \<Rightarrow> u8 list" where
  "put_str s = put_len (length s) @ str_bytes s"

definition parse_string :: "string parser" where
  "parse_string = pbind len (\<lambda>n. pbind (take_bytes n) (\<lambda>bytes.
     if utf8_valid bytes then preturn (bytes_str bytes) else pfail BadUtf8))"

definition put_opt_str :: "string option \<Rightarrow> u8 list" where
  "put_opt_str s = (case s of Some s \<Rightarrow> 1 # put_str s | None \<Rightarrow> [0])"

definition opt_string :: "string option parser" where
  "opt_string = pbind take_u8 (\<lambda>t. if t = 0 then preturn None
     else pbind parse_string (\<lambda>s. preturn (Some s)))"

section \<open>Reading what was written\<close>

definition rest :: "cursor \<Rightarrow> u8 list" where
  "rest cu = drop (cu_pos cu) (cu_buf cu)"

definition advance :: "nat \<Rightarrow> cursor \<Rightarrow> cursor" where
  "advance n cu = cu\<lparr>cu_pos := cu_pos cu + n\<rparr>"

text \<open>The buffer is in memory, so its length is a \<^verbatim>\<open>usize\<close>.\<close>

definition cursor_ok :: "cursor \<Rightarrow> bool" where
  "cursor_ok cu \<longleftrightarrow> length (cu_buf cu) < 2 ^ 64 \<and> cu_pos cu \<le> length (cu_buf cu)"

definition reads :: "field_const list \<Rightarrow> 'a parser \<Rightarrow> u8 list \<Rightarrow> 'a \<Rightarrow> bool" where
  "reads pool p bs x \<longleftrightarrow> (\<forall>cu ys. cursor_ok cu \<longrightarrow> cu_pool cu = pool \<longrightarrow> rest cu = bs @ ys \<longrightarrow>
     p cu = Inr (x, advance (length bs) cu))"

lemma advance_simps [simp]:
  "advance 0 cu = cu" "advance a (advance b cu) = advance (b + a) cu"
  "cu_pool (advance n cu) = cu_pool cu" "cu_buf (advance n cu) = cu_buf cu"
  "rest (advance n cu) = drop n (rest cu)"
  by (simp_all add: advance_def rest_def add.commute add.left_commute)

lemma cursor_ok_advance: "cursor_ok cu \<Longrightarrow> rest cu = bs @ ys \<Longrightarrow> cursor_ok (advance (length bs) cu)"
proof -
  assume cu: "cursor_ok cu" "rest cu = bs @ ys"
  have "length (rest cu) = length (cu_buf cu) - cu_pos cu" by (simp add: rest_def)
  then have "length bs \<le> length (cu_buf cu) - cu_pos cu" using cu(2) by simp
  then show ?thesis using cu(1) by (auto simp: cursor_ok_def advance_def le_diff_conv2 add.commute)
qed

lemma reads_return [simp]: "reads pool (preturn x) [] x"
  by (simp add: reads_def preturn_def)

lemma reads_reserve: "capacity_ok w n \<Longrightarrow> reads pool (reserve w n) [] ()"
  by (simp add: reads_def reserve_def)

lemma reads_bind:
  assumes "reads pool p bs x" "reads pool (f x) cs y"
  shows "reads pool (pbind p f) (bs @ cs) y"
  unfolding reads_def
proof (intro allI impI)
  fix cu ys
  assume cu: "cursor_ok cu" "cu_pool cu = pool" "rest cu = (bs @ cs) @ ys"
  then have "p cu = Inr (x, advance (length bs) cu)" using assms(1) by (simp add: reads_def)
  moreover have "f x (advance (length bs) cu) = Inr (y, advance (length cs) (advance (length bs) cu))"
    using assms(2) cu cursor_ok_advance [OF cu(1), of bs "cs @ ys"] by (simp add: reads_def)
  ultimately show "pbind p f cu = Inr (y, advance (length (bs @ cs)) cu)" by (simp add: pbind_def)
qed

lemma reads_map: "reads pool p bs x \<Longrightarrow> reads pool (pbind p (\<lambda>x. preturn (f x))) bs (f x)"
  using reads_bind [of pool p bs x "\<lambda>x. preturn (f x)" "[]"] by simp

lemma reads_mapI: "reads pool p bs x \<Longrightarrow> f x = y \<Longrightarrow> reads pool (pbind p (\<lambda>x. preturn (f x))) bs y"
  using reads_map [of pool p bs x f] by simp

lemma reads_take: "length bs = n \<Longrightarrow> reads pool (take_bytes n) bs bs"
  unfolding reads_def
proof (intro allI impI)
  fix cu ys
  assume n: "length bs = n" and cu: "cursor_ok cu" "rest cu = bs @ ys"
  have "cursor_ok (advance n cu)" using cursor_ok_advance [OF cu] n by simp
  then have "cu_pos cu + n < 2 ^ 64" "cu_pos cu + n \<le> length (cu_buf cu)" by (simp_all add: cursor_ok_def advance_def)
  moreover have "take n (drop (cu_pos cu) (cu_buf cu)) = bs" using cu(2) n by (simp add: rest_def)
  ultimately show "take_bytes n cu = Inr (bs, advance (length bs) cu)"
    using n by (simp add: take_bytes_def Let_def advance_def)
qed

lemma reads_u8: "reads pool take_u8 [b] b"
  using reads_map [OF reads_take [of "[b]" 1], of pool "\<lambda>bs. bs ! 0"] by (simp add: take_u8_def)

lemma reads_u8_bind: "reads pool (f b) cs y \<Longrightarrow> reads pool (pbind take_u8 f) (b # cs) y"
  using reads_bind [of pool take_u8 "[b]" b f cs y] reads_u8 by simp

lemma reads_repeat:
  assumes "\<And>x. x \<in> set xs \<Longrightarrow> reads pool p (enc x) x" "length xs = n"
  shows "reads pool (p_repeat n p) (concat (map enc xs)) xs"
  using assms
proof (induction xs arbitrary: n)
  case (Cons x xs)
  have tail: "reads pool (p_repeat (length xs) p) (concat (map enc xs)) xs" using Cons by simp
  have "reads pool (p_repeat (Suc (length xs)) p) (enc x @ concat (map enc xs)) (x # xs)"
    unfolding p_repeat.simps using Cons.prems(1) [of x] reads_map [OF tail, of "(#) x"] by (intro reads_bind) simp_all
  then show ?case using Cons.prems(2) by auto
qed simp

section \<open>The codec interface\<close>

locale codec =
  fixes pool :: "field_const list"
    and enc :: "'a \<Rightarrow> u8 list"
    and dec :: "'a parser"
    and ok :: "'a \<Rightarrow> bool"
  assumes round_trip: "ok x \<Longrightarrow> reads pool dec (enc x) x"
begin

lemma decode_encode:
  assumes "ok x" "length (enc x) < 2 ^ 64"
  shows "dec \<lparr>cu_buf = enc x, cu_pos = 0, cu_pool = pool\<rparr> =
    Inr (x, \<lparr>cu_buf = enc x, cu_pos = length (enc x), cu_pool = pool\<rparr>)"
  using round_trip [OF assms(1)] assms(2)
  unfolding reads_def by (auto simp: cursor_ok_def rest_def advance_def)

text \<open>No encoding is a prefix of another, so encodings can be concatenated.\<close>

lemma prefix_free:
  assumes "ok x" "ok y" "enc x @ s = enc y @ t" "length (enc x @ s) < 2 ^ 64"
  shows "x = y"
proof -
  let ?cu = "\<lparr>cu_buf = enc x @ s, cu_pos = 0, cu_pool = pool\<rparr>"
  have cu: "cursor_ok ?cu" "cu_pool ?cu = pool" "rest ?cu = enc x @ s" "rest ?cu = enc y @ t"
    using assms(3,4) by (simp_all add: cursor_ok_def rest_def)
  have "dec ?cu = Inr (x, advance (length (enc x)) ?cu)"
    using round_trip [OF assms(1), unfolded reads_def, rule_format, OF cu(1-3)] .
  moreover have "dec ?cu = Inr (y, advance (length (enc y)) ?cu)"
    using round_trip [OF assms(2), unfolded reads_def, rule_format, OF cu(1,2,4)] .
  ultimately show ?thesis by (metis Pair_inject sum.inject(2))
qed

lemma list_reads:
  "list_all ok xs \<Longrightarrow> reads pool (p_repeat (length xs) dec) (concat (map enc xs)) xs"
  using round_trip by (intro reads_repeat) (auto simp: list_all_iff)

end

section \<open>Integers round-trip\<close>

lemma mask_7: "(0x7f :: 'a :: len word) = mask 7"
  by (simp add: mask_eq_exp_minus_1)

lemma byte_low: "ucast (ucast (v AND 0x7f :: u64) AND (0x7f :: u8)) = v AND (0x7f :: u64)"
  unfolding mask_7 by (rule bit_eqI) (auto simp: bit_simps)

lemma byte_parts:
  "ucast (v AND 0x7f :: u64) AND (0x80 :: u8) = 0"
  "(ucast (v AND 0x7f :: u64) OR (0x80 :: u8)) AND 0x80 \<noteq> 0"
  "(ucast (v AND 0x7f :: u64) OR (0x80 :: u8)) AND 0x7f = ucast (v AND 0x7f)"
proof -
  have b: "bit (0x80 :: u8) n \<longleftrightarrow> n = 7" for n
  proof -
    have "(0x80 :: u8) = push_bit 7 1" by simp
    then have "bit (0x80 :: u8) n \<longleftrightarrow> bit (push_bit 7 1 :: u8) n" by (rule arg_cong)
    then show ?thesis unfolding bit_push_bit_iff bit_1_iff by auto
  qed
  show "ucast (v AND 0x7f :: u64) AND (0x80 :: u8) = 0"
    unfolding mask_7 by (rule bit_eqI) (simp only: bit_and_iff b bit_unsigned_iff bit_mask_iff bit_0_eq bot_apply, auto)
  have "bit ((ucast (v AND 0x7f :: u64) OR (0x80 :: u8)) AND 0x80) 7"
    by (simp add: b bit_and_iff bit_or_iff)
  then show "(ucast (v AND 0x7f :: u64) OR (0x80 :: u8)) AND 0x80 \<noteq> 0" by (intro notI) simp
  show "(ucast (v AND 0x7f :: u64) OR (0x80 :: u8)) AND 0x7f = ucast (v AND 0x7f)"
    unfolding mask_7
    by (rule bit_eqI) (simp only: bit_and_iff bit_or_iff b bit_unsigned_iff bit_mask_iff, auto)
qed

lemma varint_join:
  "acc OR push_bit s (v AND 0x7f) OR push_bit (s + 7) (drop_bit 7 v) = acc OR push_bit s (v :: u64)"
proof (rule bit_eqI)
  fix n
  have "\<not> n - s < 7 \<Longrightarrow> 7 + (n - (s + 7)) = n - s" by simp
  then show "bit (acc OR push_bit s (v AND 0x7f) OR push_bit (s + 7) (drop_bit 7 v)) n = bit (acc OR push_bit s v) n"
    unfolding mask_7 by (cases "n - s < 7") (auto simp: bit_simps)
qed

lemma reads_varint_from:
  assumes "s < 64" "unat w < 2 ^ (64 - s)"
  shows "reads pool (varint_from s acc) (put_varint w) (acc OR push_bit s w)"
  using assms
proof (induction w arbitrary: s acc rule: put_varint.induct)
  case (1 w)
  define b where "b = (ucast (w AND 0x7f) :: u8)"
  define v where "v = drop_bit 7 w"
  have put: "put_varint w = (if v = 0 then [b] else (b OR 0x80) # put_varint v)"
    by (subst put_varint.simps) (simp add: b_def v_def Let_def)
  have b: "b AND 0x80 = 0" "(b OR 0x80) AND 0x80 \<noteq> 0" "(b OR 0x80) AND 0x7f = b"
    "b AND 0x7f = b" "ucast b = w AND 0x7f"
    unfolding b_def mask_7 using byte_parts [of w] byte_low [of w] unfolding mask_7
    by (simp_all add: and.assoc) (rule bit_eqI, auto simp: bit_simps)+
  have join: "(acc OR push_bit s (w AND 0x7f)) OR push_bit (s + 7) v = acc OR push_bit s w"
    unfolding v_def using varint_join [of acc s w] by (simp only: or.assoc)
  show ?case
  proof (cases "v = 0")
    case True
    have "reads pool (varint_from s acc) ([b] @ []) (acc OR push_bit s w)"
      unfolding varint_from.simps [of s] using join True b by (intro reads_bind [OF reads_u8]) (simp add: Let_def)
    then show ?thesis using True put by simp
  next
    case False
    have uv: "unat v = unat w div 128" unfolding v_def unat_drop_bit_eq by (simp add: drop_bit_eq_div)
    have "unat v \<noteq> 0" using False by (simp add: unat_eq_0)
    then have "128 \<le> unat w" using uv by (metis div_less not_less)
    then have "(2 :: nat) ^ 7 < 2 ^ (64 - s)" using "1.prems"(2) by simp
    then have s: "s + 7 < 64" using power_less_imp_less_exp [of "2 :: nat" 7 "64 - s"] by simp
    have "64 - s = 64 - (s + 7) + 7" using s by simp
    then have "(2 :: nat) ^ (64 - s) = 2 ^ (64 - (s + 7)) * 2 ^ 7" by (metis power_add)
    then have "unat w < 2 ^ (64 - (s + 7)) * 2 ^ 7" using "1.prems"(2) by simp
    then have "unat v < 2 ^ (64 - (s + 7))" by (simp add: uv less_mult_imp_div_less)
    from "1.IH" [OF b_def v_def False s this, of "acc OR push_bit s (w AND 0x7f)"]
    have IH: "reads pool (varint_from (s + 7) (acc OR push_bit s (w AND 0x7f))) (put_varint v) (acc OR push_bit s w)"
      unfolding join .
    have "reads pool (varint_from s acc) ([b OR 0x80] @ put_varint v) (acc OR push_bit s w)"
      unfolding varint_from.simps [of s] using IH s b by (intro reads_bind [OF reads_u8]) (simp add: Let_def)
    then show ?thesis using False put by simp
  qed
qed

lemma reads_varint: "reads pool varint (put_varint w) w"
proof -
  have "unat w < 2 ^ (64 - 0)" using unsigned_less [of w] by simp
  from reads_varint_from [OF _ this, of pool 0] show ?thesis by (simp add: varint_def)
qed

lemma signed_drop_63: "signed_drop_bit 63 (v :: i64) = (if bit v 63 then -1 else 0)"
proof (rule bit_word_eqI)
  fix n
  assume "n < LENGTH(64)"
  then have "n = 0 \<or> 64 \<le> 63 + n" by simp linarith
  moreover have "bit (-1 :: i64) n" using \<open>n < LENGTH(64)\<close> by (simp add: bit_minus_1_iff)
  ultimately show "bit (signed_drop_bit 63 v) n = bit (if bit v 63 then -1 else 0 :: i64) n"
    using \<open>n < LENGTH(64)\<close> by (auto simp: bit_signed_drop_bit_iff bit_minus_1_iff)
qed

lemma and_one_word: "(x :: u64) AND 1 = of_bool (bit x 0)"
  by (simp add: and_one_eq bit_0 mod_2_eq_odd)

lemma zigzag: "drop_bit 1 (push_bit 1 v XOR signed_drop_bit 63 v) XOR
    - ((push_bit 1 v XOR signed_drop_bit 63 v) AND 1) = (v :: i64)"
proof -
  have "bit (push_bit 1 v XOR signed_drop_bit 63 v) 0 = bit v 63"
    unfolding signed_drop_63 bit_xor_iff bit_push_bit_iff by auto
  then have "(push_bit 1 v XOR signed_drop_bit 63 v) AND 1 = of_bool (bit v 63)"
    unfolding and_one_word by (rule arg_cong)
  moreover have "drop_bit 1 (push_bit 1 v XOR signed_drop_bit 63 v) = v XOR (if bit v 63 then -1 else 0)"
  proof (rule bit_word_eqI)
    fix n
    assume "n < LENGTH(64)"
    then have "n < 63 \<or> n = 63" by simp linarith
    then show "bit (drop_bit 1 (push_bit 1 v XOR signed_drop_bit 63 v)) n =
        bit (v XOR (if bit v 63 then -1 else 0)) n"
      unfolding signed_drop_63 bit_drop_bit_eq comp_def bit_xor_iff bit_push_bit_iff
      by (auto simp: bit_minus_1_iff)
  qed
  ultimately show ?thesis by (simp add: xor.assoc)
qed

lemma ucast_u32_u64 [simp]: "ucast (ucast v :: u64) = (v :: u32)"
  by (rule bit_word_eqI) (auto simp: bit_unsigned_iff)

lemma reads_vu32: "reads pool vu32 (put_vu32 v) v"
  using reads_map [OF reads_varint, of pool "\<lambda>v. ucast v :: u32" "ucast v"]
  by (simp add: vu32_def put_vu32_def)

lemma reads_len: "n < 2 ^ 64 \<Longrightarrow> reads pool len (put_len n) n"
  using reads_map [OF reads_varint, of pool unat "of_nat n"]
  by (simp add: len_def put_len_def unat_of_nat take_bit_nat_eq_self)

lemma reads_ivarint: "reads pool ivarint (put_ivarint v) v"
  using reads_map [OF reads_varint, of pool "\<lambda>u. drop_bit 1 u XOR - (u AND 1)"
      "push_bit 1 v XOR signed_drop_bit 63 v"]
  by (simp only: ivarint_def put_ivarint_def zigzag)

section \<open>Strings round-trip\<close>

definition str_ok :: "string \<Rightarrow> bool" where
  "str_ok s \<longleftrightarrow> utf8_valid (str_bytes s) \<and> length s < 2 ^ 64"

lemma length_str_bytes [simp]: "length (str_bytes s) = length s"
  by (simp add: str_bytes_def)

lemma bytes_str_bytes [simp]: "bytes_str (str_bytes s) = s"
proof -
  have "char_of (unat (of_char c :: u8)) = c" for c
  proof -
    have "(of_char c :: u8) = of_nat (of_char c)" by (simp only: of_nat_of_char)
    moreover have "(of_char c :: nat) < 2 ^ 8" using nat_of_char_less_256 [of c] by simp
    ultimately have "unat (of_char c :: u8) = of_char c" by (simp add: unat_of_nat take_bit_nat_eq_self)
    then show ?thesis by simp
  qed
  then show ?thesis by (simp add: bytes_str_def str_bytes_def map_idI)
qed

lemma reads_string:
  assumes "str_ok s"
  shows "reads pool parse_string (put_str s) s"
proof -
  have "reads pool (pbind (take_bytes (length s)) (\<lambda>bytes.
      if utf8_valid bytes then preturn (bytes_str bytes) else pfail BadUtf8)) (str_bytes s @ []) s"
    using assms by (intro reads_bind [OF reads_take]) (simp_all add: str_ok_def)
  then show ?thesis
    unfolding parse_string_def put_str_def using assms by (intro reads_bind [OF reads_len]) (simp_all add: str_ok_def)
qed

lemma reads_opt_string:
  assumes "case s of None \<Rightarrow> True | Some s \<Rightarrow> str_ok s"
  shows "reads pool opt_string (put_opt_str s) s"
proof (cases s)
  case None
  have "reads pool opt_string ([0] @ []) None"
    unfolding opt_string_def by (intro reads_bind [OF reads_u8]) simp
  then show ?thesis using None by (simp add: put_opt_str_def)
next
  case (Some t)
  have "reads pool opt_string ([1] @ put_str t) (Some t)"
    unfolding opt_string_def using assms Some
    by (intro reads_bind [OF reads_u8]) (simp add: reads_map reads_string)
  then show ?thesis using Some by (simp add: put_opt_str_def)
qed

text \<open>Every ASCII string is well-formed UTF-8.\<close>

lemma ascii_str_ok: "list_all (\<lambda>c. of_char c < (0x80 :: u8)) s \<Longrightarrow> length s < 2 ^ 64 \<Longrightarrow> str_ok s"
proof -
  have "list_all (\<lambda>c. of_char c < (0x80 :: u8)) s \<Longrightarrow> utf8_valid (str_bytes s)" for s
    by (induction s) (simp_all add: str_bytes_def)
  then show "list_all (\<lambda>c. of_char c < (0x80 :: u8)) s \<Longrightarrow> length s < 2 ^ 64 \<Longrightarrow> str_ok s"
    by (simp add: str_ok_def)
qed

section \<open>The primitive codecs\<close>

interpretation varint_codec: codec pool put_varint varint "\<lambda>_. True" for pool
  by unfold_locales (rule reads_varint)

interpretation vu32_codec: codec pool put_vu32 vu32 "\<lambda>_. True" for pool
  by unfold_locales (rule reads_vu32)

interpretation ivarint_codec: codec pool put_ivarint ivarint "\<lambda>_. True" for pool
  by unfold_locales (rule reads_ivarint)

interpretation len_codec: codec pool put_len len "\<lambda>n. n < 2 ^ 64" for pool
  by unfold_locales (rule reads_len)

interpretation string_codec: codec pool put_str parse_string str_ok for pool
  by unfold_locales (rule reads_string)

end
