(* ===== verification/Bytecode.thy ===== *)
theory Bytecode
  imports Codec Prim_IR
begin

text \<open>
  The opcode level of \<^verbatim>\<open>crates/ir/src/bytecode.rs\<close>: field constants, linear
  combinations, variable lists, R1CS rows and the thirteen witness operations, each with its
  encoder and its decoder. The encoder's constant pool, a thread-local of the code, is the
  argument \<open>ep\<close>; the decoder's is a field of the cursor. Shown: every value is read back
  as it was written, when the two pools agree (\<open>pool_agrees\<close>) and the constants stay below
  the exponent the decoder accepts.
\<close>

unbundle bit_operations_syntax

section \<open>Tags\<close>

definition ITEM_OP :: u8 where "ITEM_OP = 0"
definition ITEM_REPEAT :: u8 where "ITEM_REPEAT = 1"
definition NOTE_NOCHANGE :: u8 where "NOTE_NOCHANGE = 0"
definition NOTE_TEMPLATE :: u8 where "NOTE_TEMPLATE = 1"
definition NO_BASE :: u32 where "NO_BASE = - 1"

definition OP_CONSTRAINT :: u8 where "OP_CONSTRAINT = 0"
definition OP_PRODUCT :: u8 where "OP_PRODUCT = 1"
definition OP_LINEAR :: u8 where "OP_LINEAR = 2"
definition OP_XOR :: u8 where "OP_XOR = 3"
definition OP_OR :: u8 where "OP_OR = 4"
definition OP_INVERSE :: u8 where "OP_INVERSE = 5"
definition OP_INVERSE_OR_ZERO :: u8 where "OP_INVERSE_OR_ZERO = 6"
definition OP_BIT :: u8 where "OP_BIT = 7"
definition OP_BITS :: u8 where "OP_BITS = 8"
definition OP_DIVREM :: u8 where "OP_DIVREM = 9"
definition OP_MULMOD_DIVMOD :: u8 where "OP_MULMOD_DIVMOD = 10"
definition OP_MODINVERSE :: u8 where "OP_MODINVERSE = 11"
definition OP_SUB2 :: u8 where "OP_SUB2 = 12"
definition OP_FAKE_GLV :: u8 where "OP_FAKE_GLV = 13"

lemmas op_tags = OP_CONSTRAINT_def OP_PRODUCT_def OP_LINEAR_def OP_XOR_def OP_OR_def OP_INVERSE_def
  OP_INVERSE_OR_ZERO_def OP_BIT_def OP_BITS_def OP_DIVREM_def OP_MULMOD_DIVMOD_def
  OP_MODINVERSE_def OP_SUB2_def OP_FAKE_GLV_def

definition FC_ZERO :: u8 where "FC_ZERO = 0"
definition FC_ONE :: u8 where "FC_ONE = 1"
definition FC_NEG_ONE :: u8 where "FC_NEG_ONE = 2"
definition FC_SMALL_POS :: u8 where "FC_SMALL_POS = 3"
definition FC_SMALL_NEG :: u8 where "FC_SMALL_NEG = 4"
definition FC_BIG :: u8 where "FC_BIG = 5"
definition FC_POOL :: u8 where "FC_POOL = 6"
definition FC_POW2 :: u8 where "FC_POW2 = 7"
definition FC_NEG_POW2 :: u8 where "FC_NEG_POW2 = 8"

lemmas fc_tags = FC_ZERO_def FC_ONE_def FC_NEG_ONE_def FC_SMALL_POS_def FC_SMALL_NEG_def FC_BIG_def
  FC_POOL_def FC_POW2_def FC_NEG_POW2_def

datatype opcode = Constraint r1cs_row | Witness witness_op

section \<open>Magnitudes\<close>

text \<open>
  \<^verbatim>\<open>BigUint\<close>'s little-endian bytes, its count of one bits and of trailing zero bits, on
  the naturals that model it.
\<close>

fun mag_bytes :: "nat \<Rightarrow> u8 list" where
  "mag_bytes n = (if n < 256 then [of_nat n] else of_nat (n mod 256) # mag_bytes (n div 256))"

declare mag_bytes.simps [simp del]

fun bytes_mag :: "u8 list \<Rightarrow> nat" where
  "bytes_mag [] = 0"
| "bytes_mag (b # bs) = unat b + 256 * bytes_mag bs"

fun count_ones :: "nat \<Rightarrow> nat" where
  "count_ones n = (if n = 0 then 0 else n mod 2 + count_ones (n div 2))"

declare count_ones.simps [simp del]

fun low_zeros :: "nat \<Rightarrow> nat" where
  "low_zeros n = (if n = 0 \<or> odd n then 0 else Suc (low_zeros (n div 2)))"

declare low_zeros.simps [simp del]

definition trailing_zeros :: "nat \<Rightarrow> nat option" where
  "trailing_zeros n = (if n = 0 then None else Some (low_zeros n))"

section \<open>Field constants\<close>

type_synonym enc_pool = "(field_const, u32) btree option"

text \<open>The loop that packs at most eight magnitude bytes into a \<^verbatim>\<open>u64\<close>.\<close>

fun pack_bytes :: "nat \<Rightarrow> u64 \<Rightarrow> u8 list \<Rightarrow> u64" where
  "pack_bytes i v [] = v"
| "pack_bytes i v (byte # bytes) = pack_bytes (i + 1) (v OR push_bit (8 * i) (ucast byte)) bytes"

definition pool_hit :: "enc_pool \<Rightarrow> field_const \<Rightarrow> u32 option" where
  "pool_hit ep fc = (case ep of None \<Rightarrow> None | Some m \<Rightarrow> bt_get m fc)"

definition put_plain_fieldconst :: "field_const \<Rightarrow> u8 list" where
  "put_plain_fieldconst fc =
    (let b = fc_big fc; mag = nat \<bar>b\<bar>; bytes = mag_bytes mag in
     if b = 0 then [FC_ZERO]
     else if b = 1 then [FC_ONE]
     else if b = - 1 then [FC_NEG_ONE]
     else if count_ones mag = 1 then
       (if b < 0 then FC_NEG_POW2 else FC_POW2) #
         put_varint (of_nat (case trailing_zeros mag of None \<Rightarrow> 0 | Some k \<Rightarrow> k))
     else if length bytes \<le> 8 then
       (if b < 0 then FC_SMALL_NEG else FC_SMALL_POS) # put_varint (pack_bytes 0 0 bytes)
     else FC_BIG # (if b < 0 then 2 else 1) # put_len (length bytes) @ bytes)"

definition put_fieldconst :: "enc_pool \<Rightarrow> field_const \<Rightarrow> u8 list" where
  "put_fieldconst ep fc =
    (case (if fc_as_i64 fc = None then pool_hit ep fc else None) of
       Some i \<Rightarrow> FC_POOL # put_vu32 i
     | None \<Rightarrow> put_plain_fieldconst fc)"

definition pool_get :: "nat \<Rightarrow> field_const parser" where
  "pool_get i = (\<lambda>cu. if i < length (cu_pool cu) then Inr (cu_pool cu ! i, cu) else Inl (Err Truncated))"

definition fieldconst_big :: "field_const parser" where
  "fieldconst_big = pbind take_u8 (\<lambda>t.
    if t \<noteq> 1 \<and> t \<noteq> 2 then pfail (BadTag t)
    else pbind len (\<lambda>n. pbind (take_bytes n) (\<lambda>mag.
      preturn (fc_from_bigint (if t = 1 then int (bytes_mag mag) else - int (bytes_mag mag))))))"

definition fieldconst_pow2 :: "bool \<Rightarrow> field_const parser" where
  "fieldconst_pow2 neg = pbind varint (\<lambda>k.
    if unat k > 4096 then pfail Truncated
    else let v = 2 ^ unat k in preturn (fc_from_bigint (if neg then - v else v)))"

definition fieldconst :: "field_const parser" where
  "fieldconst = pbind take_u8 (\<lambda>t.
    if t = FC_ZERO then preturn fc_zero
    else if t = FC_ONE then preturn fc_one
    else if t = FC_NEG_ONE then preturn (fc_from_i64 (- 1))
    else if t = FC_SMALL_POS then pbind varint (\<lambda>v. preturn (fc_from_bigint (uint v)))
    else if t = FC_SMALL_NEG then pbind varint (\<lambda>v. preturn (fc_from_bigint (- uint v)))
    else if t = FC_BIG then fieldconst_big
    else if t = FC_POOL then pbind len pool_get
    else if t = FC_POW2 \<or> t = FC_NEG_POW2 then fieldconst_pow2 (t = FC_NEG_POW2)
    else pfail (BadTag t))"

section \<open>Linear combinations, variable lists and rows\<close>

text \<open>Variables are written as differences from the previous one.\<close>

fun put_terms :: "enc_pool \<Rightarrow> i64 \<Rightarrow> lc_term list \<Rightarrow> u8 list" where
  "put_terms ep prev [] = []"
| "put_terms ep prev (t # ts) =
     put_fieldconst ep (t_coeff t) @ put_ivarint (ucast (t_var t) - prev) @ put_terms ep (ucast (t_var t)) ts"

definition put_lc :: "enc_pool \<Rightarrow> lin_comb \<Rightarrow> u8 list" where
  "put_lc ep lc = put_fieldconst ep (lc_const lc) @ put_len (length (lc_terms lc)) @ put_terms ep 0 (lc_terms lc)"

fun put_ids :: "i64 \<Rightarrow> var_id list \<Rightarrow> u8 list" where
  "put_ids prev [] = []"
| "put_ids prev (v # vs) = put_ivarint (ucast v - prev) @ put_ids (ucast v) vs"

definition put_var_ids :: "var_id list \<Rightarrow> u8 list" where
  "put_var_ids ids = put_len (length ids) @ put_ids 0 ids"

definition put_lcs :: "enc_pool \<Rightarrow> lin_comb list \<Rightarrow> u8 list" where
  "put_lcs ep lcs = put_len (length lcs) @ concat (map (put_lc ep) lcs)"

definition put_r1csrow :: "enc_pool \<Rightarrow> r1cs_row \<Rightarrow> u8 list" where
  "put_r1csrow ep r = put_lc ep (r_a r) @ put_lc ep (r_b r) @ put_lc ep (r_c r) @ put_opt_str (r_note r)"

fun lc_terms_from :: "nat \<Rightarrow> i64 \<Rightarrow> lc_term list parser" where
  "lc_terms_from 0 prev = preturn []"
| "lc_terms_from (Suc n) prev =
     pbind fieldconst (\<lambda>coeff. pbind ivarint (\<lambda>d.
       let prev = prev + d in
       pbind (lc_terms_from n prev) (\<lambda>ts. preturn (\<lparr>t_coeff = coeff, t_var = ucast prev\<rparr> # ts))))"

definition parse_lc :: "lin_comb parser" where
  "parse_lc = pbind fieldconst (\<lambda>constant. pbind len (\<lambda>n. pbind (lc_terms_from n 0) (\<lambda>terms.
     preturn \<lparr>lc_const = constant, lc_terms = terms\<rparr>)))"

fun ids_from :: "nat \<Rightarrow> i64 \<Rightarrow> var_id list parser" where
  "ids_from 0 prev = preturn []"
| "ids_from (Suc n) prev =
     pbind ivarint (\<lambda>d. let prev = prev + d in pbind (ids_from n prev) (\<lambda>ids. preturn (ucast prev # ids)))"

definition parse_var_ids :: "var_id list parser" where
  "parse_var_ids = pbind len (\<lambda>n. ids_from n 0)"

text \<open>\<^verbatim>\<open>size_of::<LinearCombination>()\<close>: a constant of 16 bytes and a \<^verbatim>\<open>Vec\<close> of 24.\<close>

definition LC_BYTES :: nat where
  "LC_BYTES = 40"

definition parse_lcs :: "lin_comb list parser" where
  "parse_lcs = pbind len (\<lambda>n. pbind (reserve LC_BYTES n) (\<lambda>_. p_repeat n parse_lc))"

definition parse_r1csrow :: "r1cs_row parser" where
  "parse_r1csrow = pbind parse_lc (\<lambda>a. pbind parse_lc (\<lambda>b. pbind parse_lc (\<lambda>c. pbind opt_string (\<lambda>note.
     preturn \<lparr>r_a = a, r_b = b, r_c = c, r_note = note\<rparr>))))"

section \<open>Opcodes\<close>

text \<open>\<^verbatim>\<open>outs.first().copied().unwrap_or(NO_BASE)\<close>.\<close>

definition first_id :: "var_id list \<Rightarrow> u32" where
  "first_id ids = (case ids of [] \<Rightarrow> NO_BASE | v # _ \<Rightarrow> v)"

fun put_witness :: "enc_pool \<Rightarrow> witness_op \<Rightarrow> u8 list \<times> u32" where
  "put_witness ep (Product out left right) =
     (OP_PRODUCT # put_vu32 out @ put_lc ep left @ put_lc ep right, out)"
| "put_witness ep (Linear out l) = (OP_LINEAR # put_vu32 out @ put_lc ep l, out)"
| "put_witness ep (Xor out a b) = (OP_XOR # put_vu32 out @ put_lc ep a @ put_lc ep b, out)"
| "put_witness ep (Or out a b) = (OP_OR # put_vu32 out @ put_lc ep a @ put_lc ep b, out)"
| "put_witness ep (Inverse out input) = (OP_INVERSE # put_vu32 out @ put_lc ep input, out)"
| "put_witness ep (InverseOrZero out input) = (OP_INVERSE_OR_ZERO # put_vu32 out @ put_lc ep input, out)"
| "put_witness ep (Bit out input index) = (OP_BIT # put_vu32 out @ put_lc ep input @ put_vu32 index, out)"
| "put_witness ep (Bits outs input) = (OP_BITS # put_var_ids outs @ put_lc ep input, first_id outs)"
| "put_witness ep (DivRem q r num den) =
     (OP_DIVREM # put_vu32 q @ put_vu32 r @ put_lc ep num @ put_lc ep den, q)"
| "put_witness ep (MulModDivMod q r a b modulus limb_bits) =
     (OP_MULMOD_DIVMOD # put_var_ids q @ put_var_ids r @ put_lcs ep a @ put_lcs ep b @
        put_lcs ep modulus @ put_vu32 limb_bits, first_id q)"
| "put_witness ep (ModInverse out a modulus limb_bits) =
     (OP_MODINVERSE # put_var_ids out @ put_lcs ep a @ put_lcs ep modulus @ put_vu32 limb_bits, first_id out)"
| "put_witness ep (FakeGlv out u modulus lambda limb_bits) =
     (OP_FAKE_GLV # put_var_ids out @ put_lcs ep u @ put_lcs ep modulus @ put_lcs ep lambda @
        put_vu32 limb_bits, first_id out)"
| "put_witness ep (Sub2 qabs r a b c modulus limb_bits) =
     (OP_SUB2 # put_vu32 qabs @ put_var_ids r @ put_lcs ep a @ put_lcs ep b @ put_lcs ep c @
        put_lcs ep modulus @ put_vu32 limb_bits, qabs)"

fun put_opcode :: "enc_pool \<Rightarrow> opcode \<Rightarrow> u8 list" where
  "put_opcode ep (Constraint r) = OP_CONSTRAINT # put_r1csrow ep r"
| "put_opcode ep (Witness w) = fst (put_witness ep w)"

definition parse_witness :: "u8 \<Rightarrow> witness_op parser" where
  "parse_witness tag =
    (if tag = OP_PRODUCT then
       pbind vu32 (\<lambda>out. pbind parse_lc (\<lambda>left. pbind parse_lc (\<lambda>right. preturn (Product out left right))))
     else if tag = OP_LINEAR then pbind vu32 (\<lambda>out. pbind parse_lc (\<lambda>l. preturn (Linear out l)))
     else if tag = OP_XOR then
       pbind vu32 (\<lambda>out. pbind parse_lc (\<lambda>a. pbind parse_lc (\<lambda>b. preturn (Xor out a b))))
     else if tag = OP_OR then
       pbind vu32 (\<lambda>out. pbind parse_lc (\<lambda>a. pbind parse_lc (\<lambda>b. preturn (Or out a b))))
     else if tag = OP_INVERSE then
       pbind vu32 (\<lambda>out. pbind parse_lc (\<lambda>input. preturn (Inverse out input)))
     else if tag = OP_INVERSE_OR_ZERO then
       pbind vu32 (\<lambda>out. pbind parse_lc (\<lambda>input. preturn (InverseOrZero out input)))
     else if tag = OP_BIT then
       pbind vu32 (\<lambda>out. pbind parse_lc (\<lambda>input. pbind vu32 (\<lambda>index. preturn (Bit out input index))))
     else if tag = OP_BITS then
       pbind parse_var_ids (\<lambda>outs. pbind parse_lc (\<lambda>input. preturn (Bits outs input)))
     else if tag = OP_DIVREM then
       pbind vu32 (\<lambda>q. pbind vu32 (\<lambda>r. pbind parse_lc (\<lambda>num. pbind parse_lc (\<lambda>den.
         preturn (DivRem q r num den)))))
     else if tag = OP_MULMOD_DIVMOD then
       pbind parse_var_ids (\<lambda>q. pbind parse_var_ids (\<lambda>r. pbind parse_lcs (\<lambda>a. pbind parse_lcs (\<lambda>b.
         pbind parse_lcs (\<lambda>modulus. pbind vu32 (\<lambda>limb_bits.
           preturn (MulModDivMod q r a b modulus limb_bits)))))))
     else if tag = OP_MODINVERSE then
       pbind parse_var_ids (\<lambda>out. pbind parse_lcs (\<lambda>a. pbind parse_lcs (\<lambda>modulus.
         pbind vu32 (\<lambda>limb_bits. preturn (ModInverse out a modulus limb_bits)))))
     else if tag = OP_FAKE_GLV then
       pbind parse_var_ids (\<lambda>out. pbind parse_lcs (\<lambda>u. pbind parse_lcs (\<lambda>modulus.
         pbind parse_lcs (\<lambda>lambda. pbind vu32 (\<lambda>limb_bits.
           preturn (FakeGlv out u modulus lambda limb_bits))))))
     else if tag = OP_SUB2 then
       pbind vu32 (\<lambda>qabs. pbind parse_var_ids (\<lambda>r. pbind parse_lcs (\<lambda>a. pbind parse_lcs (\<lambda>b.
         pbind parse_lcs (\<lambda>c. pbind parse_lcs (\<lambda>modulus. pbind vu32 (\<lambda>limb_bits.
           preturn (Sub2 qabs r a b c modulus limb_bits))))))))
     else pfail (BadTag tag))"

definition parse_opcode :: "opcode parser" where
  "parse_opcode = pbind take_u8 (\<lambda>tag.
     if tag = OP_CONSTRAINT then pbind parse_r1csrow (\<lambda>r. preturn (Constraint r))
     else pbind (parse_witness tag) (\<lambda>w. preturn (Witness w)))"

section \<open>What can be encoded\<close>

text \<open>The index a pooled constant is written as is where the decoder's pool has it.\<close>

definition pool_agrees :: "enc_pool \<Rightarrow> field_const list \<Rightarrow> bool" where
  "pool_agrees ep pool \<longleftrightarrow> (case ep of None \<Rightarrow> True
     | Some m \<Rightarrow> list_all (\<lambda>(c, i). unat i < length pool \<and> pool ! unat i = c) m)"

definition fc_ok :: "field_const \<Rightarrow> bool" where
  "fc_ok c \<longleftrightarrow> fc_wf c \<and> \<bar>fc_big c\<bar> \<le> 2 ^ 4096"

definition short :: "'a list \<Rightarrow> bool" where
  "short xs \<longleftrightarrow> length xs < 2 ^ 64"

definition lc_ok :: "lin_comb \<Rightarrow> bool" where
  "lc_ok l \<longleftrightarrow> fc_ok (lc_const l) \<and> short (lc_terms l) \<and> list_all (\<lambda>t. fc_ok (t_coeff t)) (lc_terms l)"

definition lcs_ok :: "lin_comb list \<Rightarrow> bool" where
  "lcs_ok ls \<longleftrightarrow> capacity_ok LC_BYTES (length ls) \<and> list_all lc_ok ls"

definition note_ok :: "string option \<Rightarrow> bool" where
  "note_ok n \<longleftrightarrow> (case n of None \<Rightarrow> True | Some s \<Rightarrow> str_ok s)"

definition row_ok :: "r1cs_row \<Rightarrow> bool" where
  "row_ok r \<longleftrightarrow> lc_ok (r_a r) \<and> lc_ok (r_b r) \<and> lc_ok (r_c r) \<and> note_ok (r_note r)"

fun wop_ok :: "witness_op \<Rightarrow> bool" where
  "wop_ok (Product out left right) \<longleftrightarrow> lc_ok left \<and> lc_ok right"
| "wop_ok (Linear out l) \<longleftrightarrow> lc_ok l"
| "wop_ok (Xor out a b) \<longleftrightarrow> lc_ok a \<and> lc_ok b"
| "wop_ok (Or out a b) \<longleftrightarrow> lc_ok a \<and> lc_ok b"
| "wop_ok (Inverse out input) \<longleftrightarrow> lc_ok input"
| "wop_ok (InverseOrZero out input) \<longleftrightarrow> lc_ok input"
| "wop_ok (Bit out input index) \<longleftrightarrow> lc_ok input"
| "wop_ok (Bits outs input) \<longleftrightarrow> short outs \<and> lc_ok input"
| "wop_ok (DivRem q r num den) \<longleftrightarrow> lc_ok num \<and> lc_ok den"
| "wop_ok (MulModDivMod q r a b modulus limb_bits) \<longleftrightarrow>
     short q \<and> short r \<and> lcs_ok a \<and> lcs_ok b \<and> lcs_ok modulus"
| "wop_ok (ModInverse out a modulus limb_bits) \<longleftrightarrow> short out \<and> lcs_ok a \<and> lcs_ok modulus"
| "wop_ok (FakeGlv out u modulus lambda limb_bits) \<longleftrightarrow>
     short out \<and> lcs_ok u \<and> lcs_ok modulus \<and> lcs_ok lambda"
| "wop_ok (Sub2 qabs r a b c modulus limb_bits) \<longleftrightarrow>
     short r \<and> lcs_ok a \<and> lcs_ok b \<and> lcs_ok c \<and> lcs_ok modulus"

fun op_ok :: "opcode \<Rightarrow> bool" where
  "op_ok (Constraint r) = row_ok r"
| "op_ok (Witness w) = wop_ok w"

section \<open>Field constants round-trip\<close>

lemma bytes_mag_bytes [simp]: "bytes_mag (mag_bytes n) = n"
proof (induction n rule: mag_bytes.induct)
  case (1 n)
  show ?case
  proof (cases "n < 256")
    case False
    have "unat (of_nat (n mod 256) :: u8) = n mod 256"
      by (simp add: unat_of_nat take_bit_eq_mod)
    then show ?thesis using 1 False by (subst mag_bytes.simps) simp
  qed (subst mag_bytes.simps, simp add: unat_of_nat take_bit_eq_mod)
qed

lemma length_mag_bytes: "0 < k \<Longrightarrow> length (mag_bytes n) \<le> k \<longleftrightarrow> n < 256 ^ k"
proof (induction n arbitrary: k rule: mag_bytes.induct)
  case (1 n)
  obtain j where k: "k = Suc j" using "1.prems" by (cases k) auto
  show ?case
  proof (cases "n < 256")
    case True
    have "(256 :: nat) ^ 1 \<le> 256 ^ k" using "1.prems" by (intro power_increasing) simp_all
    then have "n < 256 ^ Suc j" using True k by (metis less_le_trans power_one_right)
    then show ?thesis using True unfolding k by (subst mag_bytes.simps) simp
  next
    case False
    show ?thesis
    proof (cases "j = 0")
      case True
      then show ?thesis using False k by (subst mag_bytes.simps) (simp add: mag_bytes.simps [of "n div 256"])
    next
      case j: False
      have "n div 256 < 256 ^ j \<longleftrightarrow> n < 256 ^ j * 256" by (simp add: div_less_iff_less_mult)
      then show ?thesis using 1(1) [OF False, of j] j False k by (subst mag_bytes.simps) (simp add: mult.commute)
    qed
  qed
qed

lemma count_ones_1: "count_ones n = 1 \<Longrightarrow> n = 2 ^ low_zeros n \<and> 0 < n"
proof (induction n rule: low_zeros.induct)
  case (1 n)
  have ones0: "count_ones m = 0 \<Longrightarrow> m = 0" for m
  proof (induction m rule: count_ones.induct)
    case (1 m)
    then show ?case by (subst (asm) (2) count_ones.simps) (auto split: if_splits)
  qed
  have n: "n \<noteq> 0" using "1.prems" by (subst (asm) count_ones.simps) (auto split: if_splits)
  then have c: "n mod 2 + count_ones (n div 2) = 1" using "1.prems" by (subst (asm) count_ones.simps) simp
  show ?case
  proof (cases "odd n")
    case True
    then have "n div 2 = 0" using c ones0 [of "n div 2"] by (simp add: odd_iff_mod_2_eq_one)
    then have "n = 1" using True n by (cases "n = 0") auto
    then show ?thesis by (simp add: low_zeros.simps)
  next
    case False
    then have "count_ones (n div 2) = 1" using c by simp
    then have "n div 2 = 2 ^ low_zeros (n div 2)" using 1(1) n False by simp
    then have "n = 2 * 2 ^ low_zeros (n div 2)" using False by (metis dvd_mult_div_cancel)
    then show ?thesis using n False by (subst low_zeros.simps) simp
  qed
qed

lemma of_nat_byte_or:
  "(of_nat (unat (b :: u8) + 256 * m) :: u64) = ucast b OR push_bit 8 (of_nat m)"
proof -
  have "(ucast b :: u64) + push_bit 8 (of_nat m) = ucast b OR push_bit 8 (of_nat m)"
    by (rule disjunctive_add_eq_or) (rule bit_word_eqI, auto simp: bit_and_iff bit_unsigned_iff bit_push_bit_iff dest: bit_imp_le_length)
  moreover have "(of_nat (unat b) :: u64) = ucast b" by simp
  ultimately show ?thesis by (simp add: push_bit_eq_mult mult.commute)
qed

lemma pack_bytes_eq: "pack_bytes i v bs = v OR push_bit (8 * i) (of_nat (bytes_mag bs))"
proof (induction bs arbitrary: i v)
  case (Cons b bs)
  have "pack_bytes i v (b # bs) =
      v OR push_bit (8 * i) (ucast b) OR push_bit (8 * (i + 1)) (of_nat (bytes_mag bs))"
    unfolding pack_bytes.simps Cons.IH by (simp only: or.assoc)
  also have "push_bit (8 * (i + 1)) (of_nat (bytes_mag bs) :: u64) =
      push_bit (8 * i) (push_bit 8 (of_nat (bytes_mag bs)))" by (simp add: add.commute)
  finally show ?case
    unfolding bytes_mag.simps of_nat_byte_or push_bit_or by (simp only: or.assoc)
qed simp

lemma fc_from_big [simp]: "fc_wf c \<Longrightarrow> fc_from_bigint (fc_big c) = c"
  by (cases c) (auto simp: fc_from_bigint_def norm_def)

lemma fieldconst_tags:
  "reads pool fieldconst [FC_ZERO] fc_zero"
  "reads pool fieldconst [FC_ONE] fc_one"
  "reads pool fieldconst [FC_NEG_ONE] (fc_from_i64 (- 1))"
  "reads pool fieldconst (FC_SMALL_POS # put_varint v) (fc_from_bigint (uint v))"
  "reads pool fieldconst (FC_SMALL_NEG # put_varint v) (fc_from_bigint (- uint v))"
  "reads pool fieldconst_big bs c \<Longrightarrow> reads pool fieldconst (FC_BIG # bs) c"
  "reads pool (fieldconst_pow2 False) bs c \<Longrightarrow> reads pool fieldconst (FC_POW2 # bs) c"
  "reads pool (fieldconst_pow2 True) bs c \<Longrightarrow> reads pool fieldconst (FC_NEG_POW2 # bs) c"
  "reads pool (pbind len pool_get) bs c \<Longrightarrow> reads pool fieldconst (FC_POOL # bs) c"
  unfolding fieldconst_def
  by (rule reads_u8_bind, simp add: fc_tags, (rule reads_map [OF reads_varint])?)+

lemma reads_plain_fieldconst:
  assumes "fc_ok c"
  shows "reads pool fieldconst (put_plain_fieldconst c) c"
proof -
  define b mag where "b = fc_big c" and "mag = nat \<bar>b\<bar>"
  have c: "c = fc_from_bigint b" using assms by (simp add: fc_ok_def b_def)
  have mag: "mag \<le> 2 ^ 4096" using assms unfolding fc_ok_def b_def mag_def by (simp add: nat_le_iff)
  have abs: "b = (if b < 0 then - int mag else int mag)" by (simp add: mag_def)
  have put: "put_plain_fieldconst c =
    (if b = 0 then [FC_ZERO] else if b = 1 then [FC_ONE] else if b = - 1 then [FC_NEG_ONE]
     else if count_ones mag = 1 then
       (if b < 0 then FC_NEG_POW2 else FC_POW2) #
         put_varint (of_nat (case trailing_zeros mag of None \<Rightarrow> 0 | Some k \<Rightarrow> k))
     else if length (mag_bytes mag) \<le> 8 then
       (if b < 0 then FC_SMALL_NEG else FC_SMALL_POS) # put_varint (pack_bytes 0 0 (mag_bytes mag))
     else FC_BIG # (if b < 0 then 2 else 1) # put_len (length (mag_bytes mag)) @ mag_bytes mag)"
    by (simp add: put_plain_fieldconst_def b_def mag_def Let_def)
  consider (const) "b \<in> {0, 1, - 1}" | (pow) "b \<notin> {0, 1, - 1}" "count_ones mag = 1"
    | (small) "b \<notin> {0, 1, - 1}" "count_ones mag \<noteq> 1" "length (mag_bytes mag) \<le> 8"
    | (big) "b \<notin> {0, 1, - 1}" "count_ones mag \<noteq> 1" "\<not> length (mag_bytes mag) \<le> 8" by blast
  then show ?thesis
  proof cases
    case const
    have "fc_zero = fc_from_bigint 0" "fc_one = fc_from_bigint 1" "fc_from_i64 (- 1) = fc_from_bigint (- 1)"
      by (simp_all add: fc_from_bigint_def norm_def fc_zero_def fc_one_def fc_from_i64_def i64_fits_def)
    then show ?thesis using const c fieldconst_tags(1-3) [of pool] unfolding put by auto
  next
    case pow
    define k where "k = low_zeros mag"
    have k: "mag = 2 ^ k" "0 < mag" using count_ones_1 [OF pow(2)] by (simp_all add: k_def)
    then have "(2 :: nat) ^ k \<le> 2 ^ 4096" using mag by simp
    then have k4: "k \<le> 4096" by (simp only: power_increasing_iff one_less_numeral_iff semiring_norm)
    have tz: "trailing_zeros mag = Some k" using k(2) by (simp add: trailing_zeros_def k_def)
    have u: "unat (of_nat k :: u64) = k" using k4 by (simp add: unat_of_nat take_bit_nat_eq_self)
    have cb: "c = fc_from_bigint (if b < 0 then - (2 ^ k) else 2 ^ k)"
      using c abs unfolding k(1) by (simp split: if_splits)
    have "reads pool (fieldconst_pow2 (b < 0)) (put_varint (of_nat k) @ []) c"
      unfolding fieldconst_pow2_def
      by (intro reads_bind [OF reads_varint]) (simp only: u, simp add: linorder_not_less [THEN iffD2, OF k4] Let_def cb)
    then have "reads pool (fieldconst_pow2 (b < 0)) (put_varint (of_nat k)) c" by simp
    then have "reads pool fieldconst ((if b < 0 then FC_NEG_POW2 else FC_POW2) # put_varint (of_nat k)) c"
      by (cases "b < 0") (simp_all add: fieldconst_tags)
    then show ?thesis using pow unfolding put tz by simp
  next
    case small
    have m: "mag < 2 ^ 64" using small(3) length_mag_bytes [of 8 mag] by simp
    have pk: "pack_bytes 0 0 (mag_bytes mag) = of_nat mag" by (simp add: pack_bytes_eq)
    have u: "uint (of_nat mag :: u64) = int mag" using m by (simp add: uint_nat unat_of_nat take_bit_nat_eq_self)
    have "reads pool fieldconst ((if b < 0 then FC_SMALL_NEG else FC_SMALL_POS) # put_varint (of_nat mag)) c"
      using fieldconst_tags(4,5) [of pool "of_nat mag"] abs c by (auto simp: u split: if_splits)
    then show ?thesis using small unfolding put pk by simp
  next
    case big
    have "(2 :: nat) ^ 4096 < 256 ^ 513"
    proof -
      have "(256 :: nat) ^ 513 = 2 ^ (8 * 513)" by (simp only: power_mult) simp
      then show ?thesis by (simp only: power_strict_increasing_iff)
    qed
    then have "length (mag_bytes mag) \<le> 513" using mag length_mag_bytes [of 513 mag] by linarith
    then have n: "length (mag_bytes mag) < 2 ^ 64" by simp
    have "c = fc_from_bigint (if b < 0 then - int (bytes_mag (mag_bytes mag)) else int (bytes_mag (mag_bytes mag)))"
      unfolding bytes_mag_bytes abs [symmetric] by (rule c)
    then have "reads pool (pbind len (\<lambda>n. pbind (take_bytes n) (\<lambda>mag.
        preturn (fc_from_bigint (if b < 0 then - int (bytes_mag mag) else int (bytes_mag mag))))))
        (put_len (length (mag_bytes mag)) @ mag_bytes mag) c"
      by (intro reads_bind [OF reads_len [OF n]] reads_mapI [OF reads_take]) simp_all
    then have "reads pool fieldconst_big ((if b < 0 then 2 else 1) #
        put_len (length (mag_bytes mag)) @ mag_bytes mag) c"
      unfolding fieldconst_big_def by (intro reads_u8_bind) (cases "b < 0"; simp)
    from fieldconst_tags(6) [OF this] show ?thesis using big unfolding put by simp
  qed
qed

lemma bt_get_list_all: "bt_get m c = Some i \<Longrightarrow> list_all P m \<Longrightarrow> P (c, i)"
  by (induction m) (auto split: if_splits)

lemma reads_fieldconst:
  assumes "pool_agrees ep pool" "fc_ok c"
  shows "reads pool fieldconst (put_fieldconst ep c) c"
proof (cases "if fc_as_i64 c = None then pool_hit ep c else None")
  case None
  then show ?thesis using reads_plain_fieldconst [OF assms(2)] by (simp add: put_fieldconst_def)
next
  case (Some i)
  then obtain m where m: "ep = Some m" "bt_get m c = Some i"
    by (auto simp: pool_hit_def split: if_splits option.splits)
  then have i: "unat i < length pool" "pool ! unat i = c"
    using assms(1) bt_get_list_all [OF m(2)] by (fastforce simp: pool_agrees_def)+
  have "unat i < 2 ^ 64" using unat_u32_less [of i] by simp
  moreover have "put_vu32 i = put_len (unat i)"
    by (simp add: put_vu32_def put_len_def)
  moreover have "reads pool (pool_get (unat i)) [] c" using i by (simp add: reads_def pool_get_def)
  ultimately have "reads pool (pbind len pool_get) (put_vu32 i @ []) c"
    using reads_bind [OF reads_len, of "unat i" pool pool_get "[]" c] by simp
  then show ?thesis using fieldconst_tags(9) Some by (simp add: put_fieldconst_def)
qed

section \<open>Linear combinations, lists and rows round-trip\<close>

lemma ucast_delta: "ucast (prev + (ucast (v :: u32) - prev) :: i64) = v"
  by simp

lemma reads_terms:
  assumes "pool_agrees ep pool" "list_all (\<lambda>t. fc_ok (t_coeff t)) ts"
  shows "reads pool (lc_terms_from (length ts) prev) (put_terms ep prev ts) ts"
  using assms(2)
proof (induction ts arbitrary: prev)
  case (Cons t ts)
  have "reads pool (pbind (lc_terms_from (length ts) (ucast (t_var t)))
      (\<lambda>ts. preturn (\<lparr>t_coeff = t_coeff t, t_var = ucast (ucast (t_var t) :: i64)\<rparr> # ts)))
      (put_terms ep (ucast (t_var t)) ts) (t # ts)"
    using Cons.prems by (intro reads_mapI [OF Cons.IH]) simp_all
  then have "reads pool (lc_terms_from (Suc (length ts)) prev)
      (put_fieldconst ep (t_coeff t) @ put_ivarint (ucast (t_var t) - prev) @ put_terms ep (ucast (t_var t)) ts)
      (t # ts)"
    unfolding lc_terms_from.simps Let_def using Cons.prems
    by (intro reads_bind [OF reads_fieldconst [OF assms(1)]] reads_bind [OF reads_ivarint]) simp_all
  then show ?case by simp
qed simp

lemma reads_lc:
  assumes "pool_agrees ep pool" "lc_ok l"
  shows "reads pool parse_lc (put_lc ep l) l"
  unfolding parse_lc_def put_lc_def using assms(2)
  by (intro reads_bind [OF reads_fieldconst [OF assms(1)]] reads_bind [OF reads_len]
      reads_mapI [OF reads_terms [OF assms(1)]]) (auto simp: lc_ok_def short_def)

lemma reads_ids: "reads pool (ids_from (length vs) prev) (put_ids prev vs) vs"
proof (induction vs arbitrary: prev)
  case (Cons v vs)
  have "reads pool (ids_from (Suc (length vs)) prev)
      (put_ivarint (ucast v - prev) @ put_ids (ucast v) vs) (v # vs)"
    unfolding ids_from.simps Let_def using Cons.IH
    by (intro reads_bind [OF reads_ivarint] reads_mapI) simp_all
  then show ?case by simp
qed simp

lemma reads_var_ids: "short ids \<Longrightarrow> reads pool parse_var_ids (put_var_ids ids) ids"
  unfolding parse_var_ids_def put_var_ids_def
  by (intro reads_bind [OF reads_len]) (simp_all add: short_def reads_ids)

lemma reads_lcs:
  assumes "pool_agrees ep pool" "lcs_ok ls"
  shows "reads pool parse_lcs (put_lcs ep ls) ls"
proof -
  have cap: "capacity_ok LC_BYTES (length ls)" using assms(2) by (simp add: lcs_ok_def)
  then have "length ls < 2 ^ 64" by (simp add: capacity_ok_def LC_BYTES_def)
  moreover have "reads pool (p_repeat (length ls) parse_lc) (concat (map (put_lc ep) ls)) ls"
    using assms by (intro reads_repeat reads_lc) (auto simp: lcs_ok_def list_all_iff)
  ultimately show ?thesis
    unfolding parse_lcs_def put_lcs_def
    using reads_bind [OF reads_reserve [OF cap], where f = "\<lambda>_. p_repeat (length ls) parse_lc"]
    by (intro reads_bind [OF reads_len]) simp_all
qed

lemma reads_r1csrow:
  assumes "pool_agrees ep pool" "row_ok r"
  shows "reads pool parse_r1csrow (put_r1csrow ep r) r"
proof -
  have "reads pool parse_r1csrow (put_lc ep (r_a r) @ put_lc ep (r_b r) @ put_lc ep (r_c r) @ put_opt_str (r_note r) @ [])
      \<lparr>r_a = r_a r, r_b = r_b r, r_c = r_c r, r_note = r_note r\<rparr>"
    unfolding parse_r1csrow_def using assms
    by (intro reads_bind [OF reads_lc] reads_bind [OF reads_opt_string] reads_return)
      (auto simp: row_ok_def note_ok_def)
  then show ?thesis by (cases r) (simp add: put_r1csrow_def)
qed

section \<open>Opcodes round-trip\<close>

lemma parse_witness_tags:
  "parse_witness OP_PRODUCT = pbind vu32 (\<lambda>out. pbind parse_lc (\<lambda>left. pbind parse_lc (\<lambda>right.
     preturn (Product out left right))))"
  "parse_witness OP_LINEAR = pbind vu32 (\<lambda>out. pbind parse_lc (\<lambda>l. preturn (Linear out l)))"
  "parse_witness OP_XOR = pbind vu32 (\<lambda>out. pbind parse_lc (\<lambda>a. pbind parse_lc (\<lambda>b. preturn (Xor out a b))))"
  "parse_witness OP_OR = pbind vu32 (\<lambda>out. pbind parse_lc (\<lambda>a. pbind parse_lc (\<lambda>b. preturn (Or out a b))))"
  "parse_witness OP_INVERSE = pbind vu32 (\<lambda>out. pbind parse_lc (\<lambda>input. preturn (Inverse out input)))"
  "parse_witness OP_INVERSE_OR_ZERO =
     pbind vu32 (\<lambda>out. pbind parse_lc (\<lambda>input. preturn (InverseOrZero out input)))"
  "parse_witness OP_BIT =
     pbind vu32 (\<lambda>out. pbind parse_lc (\<lambda>input. pbind vu32 (\<lambda>index. preturn (Bit out input index))))"
  "parse_witness OP_BITS = pbind parse_var_ids (\<lambda>outs. pbind parse_lc (\<lambda>input. preturn (Bits outs input)))"
  "parse_witness OP_DIVREM = pbind vu32 (\<lambda>q. pbind vu32 (\<lambda>r. pbind parse_lc (\<lambda>num. pbind parse_lc (\<lambda>den.
     preturn (DivRem q r num den)))))"
  "parse_witness OP_MULMOD_DIVMOD = pbind parse_var_ids (\<lambda>q. pbind parse_var_ids (\<lambda>r. pbind parse_lcs (\<lambda>a.
     pbind parse_lcs (\<lambda>b. pbind parse_lcs (\<lambda>modulus. pbind vu32 (\<lambda>limb_bits.
       preturn (MulModDivMod q r a b modulus limb_bits)))))))"
  "parse_witness OP_MODINVERSE = pbind parse_var_ids (\<lambda>out. pbind parse_lcs (\<lambda>a. pbind parse_lcs (\<lambda>modulus.
     pbind vu32 (\<lambda>limb_bits. preturn (ModInverse out a modulus limb_bits)))))"
  "parse_witness OP_FAKE_GLV = pbind parse_var_ids (\<lambda>out. pbind parse_lcs (\<lambda>u. pbind parse_lcs (\<lambda>modulus.
     pbind parse_lcs (\<lambda>lambda. pbind vu32 (\<lambda>limb_bits. preturn (FakeGlv out u modulus lambda limb_bits))))))"
  "parse_witness OP_SUB2 = pbind vu32 (\<lambda>qabs. pbind parse_var_ids (\<lambda>r. pbind parse_lcs (\<lambda>a. pbind parse_lcs (\<lambda>b.
     pbind parse_lcs (\<lambda>c. pbind parse_lcs (\<lambda>modulus. pbind vu32 (\<lambda>limb_bits.
       preturn (Sub2 qabs r a b c modulus limb_bits))))))))"
  by (simp_all add: parse_witness_def op_tags)

lemma op_tags_not_constraint:
  "OP_PRODUCT \<noteq> OP_CONSTRAINT" "OP_LINEAR \<noteq> OP_CONSTRAINT" "OP_XOR \<noteq> OP_CONSTRAINT" "OP_OR \<noteq> OP_CONSTRAINT"
  "OP_INVERSE \<noteq> OP_CONSTRAINT" "OP_INVERSE_OR_ZERO \<noteq> OP_CONSTRAINT" "OP_BIT \<noteq> OP_CONSTRAINT"
  "OP_BITS \<noteq> OP_CONSTRAINT" "OP_DIVREM \<noteq> OP_CONSTRAINT" "OP_MULMOD_DIVMOD \<noteq> OP_CONSTRAINT"
  "OP_MODINVERSE \<noteq> OP_CONSTRAINT" "OP_FAKE_GLV \<noteq> OP_CONSTRAINT" "OP_SUB2 \<noteq> OP_CONSTRAINT"
  by (simp_all add: op_tags)

lemma reads_witness:
  assumes "pool_agrees ep pool" "wop_ok w"
  shows "\<exists>tag bs. fst (put_witness ep w) = tag # bs \<and> tag \<noteq> OP_CONSTRAINT \<and> reads pool (parse_witness tag) bs w"
  using assms(2)
  by (cases w; simp only: put_witness.simps wop_ok.simps fst_conv list.inject simp_thms ex_simps
      op_tags_not_constraint parse_witness_tags cong: conj_cong)
    (auto intro!: reads_bind [OF reads_vu32] reads_bind [OF reads_lc [OF assms(1)]]
      reads_bind [OF reads_var_ids] reads_bind [OF reads_lcs [OF assms(1)]]
      reads_mapI [OF reads_vu32] reads_mapI [OF reads_lc [OF assms(1)]]
      simp: op_tags_not_constraint parse_witness_tags)

lemma reads_opcode:
  assumes "pool_agrees ep pool" "op_ok op"
  shows "reads pool parse_opcode (put_opcode ep op) op"
proof (cases op)
  case (Constraint r)
  then show ?thesis using assms unfolding parse_opcode_def put_opcode.simps
    by (auto intro!: reads_u8_bind reads_mapI reads_r1csrow)
next
  case (Witness w)
  then obtain tag bs where w: "fst (put_witness ep w) = tag # bs" "tag \<noteq> OP_CONSTRAINT"
    "reads pool (parse_witness tag) bs w" using reads_witness [OF assms(1), of w] assms(2) by auto
  then show ?thesis using Witness unfolding parse_opcode_def
    by (auto intro!: reads_u8_bind reads_mapI)
qed

section \<open>The codecs of the format\<close>

interpretation fieldconst_codec: codec pool "put_fieldconst ep" fieldconst
  "\<lambda>c. pool_agrees ep pool \<and> fc_ok c" for pool ep
  by unfold_locales (simp add: reads_fieldconst)

interpretation lc_codec: codec pool "put_lc ep" parse_lc "\<lambda>l. pool_agrees ep pool \<and> lc_ok l" for pool ep
  by unfold_locales (simp add: reads_lc)

interpretation var_ids_codec: codec pool put_var_ids parse_var_ids short for pool
  by unfold_locales (rule reads_var_ids)

interpretation row_codec: codec pool "put_r1csrow ep" parse_r1csrow "\<lambda>r. pool_agrees ep pool \<and> row_ok r" for pool ep
  by unfold_locales (simp add: reads_r1csrow)

interpretation opcode_codec: codec pool "put_opcode ep" parse_opcode "\<lambda>op. pool_agrees ep pool \<and> op_ok op" for pool ep
  by unfold_locales (simp add: reads_opcode)

end
