(* ===== verification/Rolled.thy ===== *)
theory Rolled
  imports Bytecode
begin

text \<open>
  Rolled streams, \<^verbatim>\<open>crates/ir/src/bytecode.rs\<close>: items (an opcode, or a loop with one body
  and affine steps), the traversals of their operands and notes, note templates, the expansion
  of an item into rows and witness operations, and the item codec.

  Where the code indexes a vector out of bounds it panics: those functions return an option,
  \<open>None\<close> the panic. Arithmetic on \<^verbatim>\<open>i64\<close> operands wraps, as in a release build.
\<close>

section \<open>Items\<close>

datatype note_rule = NoChange | Template "(u32 \<times> i64) list"

text \<open>\<^verbatim>\<open>Item\<close> with the fields of \<^verbatim>\<open>Repeat\<close>: \<^verbatim>\<open>count, body, steps, notes\<close>.\<close>

datatype item = Op opcode | Repeat u32 "item list" "i64 list" "note_rule list"

fun item_nodes :: "item \<Rightarrow> nat" where
  "item_nodes (Op op) = 1"
| "item_nodes (Repeat cnt body steps notes) = Suc (sum_list (map item_nodes body))"

lemma item_nodes_pos [simp]: "0 < item_nodes it"
  by (cases it) simp_all

lemma items_nodes_pos [simp]: "0 < sum_list (map item_nodes its) \<longleftrightarrow> its \<noteq> []"
  by (cases its) simp_all

section \<open>Operand traversal\<close>

text \<open>
  A visitor is given an operand and the state its closure captures, and returns the operand
  to store and the new state, or panics.
\<close>

type_synonym ('s, 'a) visit = "'s \<Rightarrow> ('a \<times> 's) option"

definition vreturn :: "'a \<Rightarrow> ('s, 'a) visit" where
  "vreturn x = (\<lambda>s. Some (x, s))"

definition vbind :: "('s, 'a) visit \<Rightarrow> ('a \<Rightarrow> ('s, 'b) visit) \<Rightarrow> ('s, 'b) visit" where
  "vbind m k = (\<lambda>s. case m s of None \<Rightarrow> None | Some (x, s) \<Rightarrow> k x s)"

fun visit_list :: "('a \<Rightarrow> ('s, 'a) visit) \<Rightarrow> 'a list \<Rightarrow> ('s, 'a list) visit" where
  "visit_list f [] = vreturn []"
| "visit_list f (x # xs) = vbind (f x) (\<lambda>x. vbind (visit_list f xs) (\<lambda>xs. vreturn (x # xs)))"

definition visit_lc :: "(u32 \<Rightarrow> ('s, u32) visit) \<Rightarrow> lin_comb \<Rightarrow> ('s, lin_comb) visit" where
  "visit_lc f l = vbind (visit_list (\<lambda>t. vbind (f (t_var t)) (\<lambda>v. vreturn (t\<lparr>t_var := v\<rparr>))) (lc_terms l))
     (\<lambda>ts. vreturn (l\<lparr>lc_terms := ts\<rparr>))"

definition visit_r1csrow :: "(u32 \<Rightarrow> ('s, u32) visit) \<Rightarrow> r1cs_row \<Rightarrow> ('s, r1cs_row) visit" where
  "visit_r1csrow f r = vbind (visit_lc f (r_a r)) (\<lambda>a. vbind (visit_lc f (r_b r)) (\<lambda>b.
     vbind (visit_lc f (r_c r)) (\<lambda>c. vreturn (r\<lparr>r_a := a, r_b := b, r_c := c\<rparr>))))"

fun visit_witness :: "(u32 \<Rightarrow> ('s, u32) visit) \<Rightarrow> witness_op \<Rightarrow> ('s, witness_op) visit" where
  "visit_witness f (Product out left right) =
     vbind (f out) (\<lambda>out. vbind (visit_lc f left) (\<lambda>left. vbind (visit_lc f right) (\<lambda>right.
       vreturn (Product out left right))))"
| "visit_witness f (Linear out l) = vbind (f out) (\<lambda>out. vbind (visit_lc f l) (\<lambda>l. vreturn (Linear out l)))"
| "visit_witness f (Xor out a b) =
     vbind (f out) (\<lambda>out. vbind (visit_lc f a) (\<lambda>a. vbind (visit_lc f b) (\<lambda>b. vreturn (Xor out a b))))"
| "visit_witness f (Or out a b) =
     vbind (f out) (\<lambda>out. vbind (visit_lc f a) (\<lambda>a. vbind (visit_lc f b) (\<lambda>b. vreturn (Or out a b))))"
| "visit_witness f (Inverse out input) =
     vbind (f out) (\<lambda>out. vbind (visit_lc f input) (\<lambda>input. vreturn (Inverse out input)))"
| "visit_witness f (InverseOrZero out input) =
     vbind (f out) (\<lambda>out. vbind (visit_lc f input) (\<lambda>input. vreturn (InverseOrZero out input)))"
| "visit_witness f (Bit out input index) =
     vbind (f out) (\<lambda>out. vbind (visit_lc f input) (\<lambda>input. vbind (f index) (\<lambda>index.
       vreturn (Bit out input index))))"
| "visit_witness f (Bits outs input) =
     vbind (visit_list f outs) (\<lambda>outs. vbind (visit_lc f input) (\<lambda>input. vreturn (Bits outs input)))"
| "visit_witness f (DivRem q r num den) =
     vbind (f q) (\<lambda>q. vbind (f r) (\<lambda>r. vbind (visit_lc f num) (\<lambda>num. vbind (visit_lc f den) (\<lambda>den.
       vreturn (DivRem q r num den)))))"
| "visit_witness f (MulModDivMod q r a b modulus limb_bits) =
     vbind (visit_list f q) (\<lambda>q. vbind (visit_list f r) (\<lambda>r.
       vbind (visit_list (visit_lc f) a) (\<lambda>a. vbind (visit_list (visit_lc f) b) (\<lambda>b.
         vbind (visit_list (visit_lc f) modulus) (\<lambda>modulus.
           vreturn (MulModDivMod q r a b modulus limb_bits))))))"
| "visit_witness f (ModInverse out a modulus limb_bits) =
     vbind (visit_list f out) (\<lambda>out. vbind (visit_list (visit_lc f) a) (\<lambda>a.
       vbind (visit_list (visit_lc f) modulus) (\<lambda>modulus. vreturn (ModInverse out a modulus limb_bits))))"
| "visit_witness f (FakeGlv out u modulus lambda limb_bits) =
     vbind (visit_list f out) (\<lambda>out. vbind (visit_list (visit_lc f) u) (\<lambda>u.
       vbind (visit_list (visit_lc f) modulus) (\<lambda>modulus. vbind (visit_list (visit_lc f) lambda) (\<lambda>lambda.
         vreturn (FakeGlv out u modulus lambda limb_bits)))))"
| "visit_witness f (Sub2 qabs r a b c modulus limb_bits) =
     vbind (f qabs) (\<lambda>qabs. vbind (visit_list f r) (\<lambda>r.
       vbind (visit_list (visit_lc f) a) (\<lambda>a. vbind (visit_list (visit_lc f) b) (\<lambda>b.
         vbind (visit_list (visit_lc f) c) (\<lambda>c. vbind (visit_list (visit_lc f) modulus) (\<lambda>modulus.
           vreturn (Sub2 qabs r a b c modulus limb_bits)))))))"

fun visit_opcode_operands :: "(u32 \<Rightarrow> ('s, u32) visit) \<Rightarrow> opcode \<Rightarrow> ('s, opcode) visit" where
  "visit_opcode_operands f (Constraint r) = vbind (visit_r1csrow f r) (\<lambda>r. vreturn (Constraint r))"
| "visit_opcode_operands f (Witness w) = vbind (visit_witness f w) (\<lambda>w. vreturn (Witness w))"

text \<open>Collecting: the closure pushes what it sees.\<close>

definition push_operand :: "u32 \<Rightarrow> (u32 list, u32) visit" where
  "push_operand x = (\<lambda>out. Some (x, out @ [x]))"

fun item_operands :: "item \<Rightarrow> u32 list \<Rightarrow> u32 list"
  and items_operands :: "item list \<Rightarrow> u32 list \<Rightarrow> u32 list" where
  "item_operands (Op op) out =
     (case visit_opcode_operands push_operand op out of None \<Rightarrow> out | Some (_, out) \<Rightarrow> out)"
| "item_operands (Repeat cnt body steps notes) out = items_operands body out"
| "items_operands [] out = out"
| "items_operands (it # its) out = items_operands its (item_operands it out)"

fun item_notes :: "item \<Rightarrow> string option list \<Rightarrow> string option list"
  and items_notes :: "item list \<Rightarrow> string option list \<Rightarrow> string option list" where
  "item_notes (Op (Constraint r)) out = out @ [r_note r]"
| "item_notes (Op (Witness w)) out = out"
| "item_notes (Repeat cnt body steps notes) out = items_notes body out"
| "items_notes [] out = out"
| "items_notes (it # its) out = items_notes its (item_notes it out)"

text \<open>Shifting: slot \<open>idx\<close> gets \<open>k * steps[idx]\<close> added, as \<^verbatim>\<open>u32\<close>.\<close>

definition shift_operand :: "i64 \<Rightarrow> i64 list \<Rightarrow> u32 \<Rightarrow> (nat, u32) visit" where
  "shift_operand k steps x = (\<lambda>idx.
     if length steps \<le> idx then None
     else let step = steps ! idx in
       Some (if step \<noteq> 0 then ucast (ucast x + k * step) else x, idx + 1))"

fun shift_item_operands :: "i64 \<Rightarrow> i64 list \<Rightarrow> item \<Rightarrow> (nat, item) visit"
  and shift_items_operands :: "i64 \<Rightarrow> i64 list \<Rightarrow> item list \<Rightarrow> (nat, item list) visit" where
  "shift_item_operands k steps (Op op) =
     vbind (visit_opcode_operands (shift_operand k steps) op) (\<lambda>op. vreturn (Op op))"
| "shift_item_operands k steps (Repeat cnt body isteps notes) =
     vbind (shift_items_operands k steps body) (\<lambda>body. vreturn (Repeat cnt body isteps notes))"
| "shift_items_operands k steps [] = vreturn []"
| "shift_items_operands k steps (it # its) =
     vbind (shift_item_operands k steps it) (\<lambda>it. vbind (shift_items_operands k steps its) (\<lambda>its.
       vreturn (it # its)))"

section \<open>Note templates\<close>

fun blank_from :: "bool \<Rightarrow> string \<Rightarrow> string" where
  "blank_from in_digits [] = []"
| "blank_from in_digits (ch # s) =
     (if is_ascii_digit ch then (if in_digits then blank_from True s else CHR ''#'' # blank_from True s)
      else ch # blank_from False s)"

definition blank_digits :: "string \<Rightarrow> string" where
  "blank_digits s = blank_from False s"

text \<open>\<^verbatim>\<open>chars()\<close>: a digit is one byte, and no byte of a longer character is one.\<close>

definition tok_push :: "char \<Rightarrow> (string \<times> bool) list \<Rightarrow> (string \<times> bool) list" where
  "tok_push ch runs =
    (let d = is_ascii_digit ch in
     if runs \<noteq> [] \<and> snd (last runs) = d then butlast runs @ [(fst (last runs) @ [ch], d)]
     else runs @ [([ch], d)])"

definition tokenize_runs :: "string \<Rightarrow> (string \<times> bool) list" where
  "tokenize_runs s = fold tok_push s []"

text \<open>\<^verbatim>\<open>seg.parse::<i128>()\<close> of a digit run.\<close>

definition i128_fits :: "int \<Rightarrow> bool" where
  "i128_fits z \<longleftrightarrow> - (2 ^ 127) \<le> z \<and> z < 2 ^ 127"

definition parse_run :: "string \<Rightarrow> int option" where
  "parse_run seg = (case parse_digits seg of None \<Rightarrow> None
     | Some n \<Rightarrow> if i128_fits (int n) then Some (int n) else None)"

definition i128_wrap :: "int \<Rightarrow> int" where
  "i128_wrap z = sint (word_of_int z :: 128 word)"

definition template_step :: "i64 \<Rightarrow> u32 \<times> i64 \<Rightarrow> (string \<times> bool) list \<Rightarrow> (string \<times> bool) list" where
  "template_step k run toks =
    (let (ri, step) = run; i = unat ri in
     if i < length toks \<and> snd (toks ! i) then
       let base = (case parse_run (fst (toks ! i)) of None \<Rightarrow> 0 | Some z \<Rightarrow> z);
           v = i128_wrap (base + sint k * sint step)
       in toks[i := (show_int v, True)]
     else toks)"

definition apply_note_template :: "string \<Rightarrow> i64 \<Rightarrow> (u32 \<times> i64) list \<Rightarrow> string" where
  "apply_note_template s k runs = concat (map fst (fold (template_step k) runs (tokenize_runs s)))"

text \<open>The loop over the two token lists; \<open>None\<close> is the code's \<^verbatim>\<open>return None\<close>.\<close>

fun derive_runs :: "nat \<Rightarrow> (string \<times> bool) list \<Rightarrow> (string \<times> bool) list \<Rightarrow> (u32 \<times> i64) list option" where
  "derive_runs i ((sa, da) # ta) ((sb, db) # tb) =
    (if da \<noteq> db then None
     else if da then
       (case parse_run sa of None \<Rightarrow> None | Some va \<Rightarrow>
         (case parse_run sb of None \<Rightarrow> None | Some vb \<Rightarrow>
           if va \<noteq> vb then
             (if i64_fits (vb - va) then
                map_option (\<lambda>runs. (of_nat i, word_of_int (vb - va)) # runs) (derive_runs (i + 1) ta tb)
              else None)
           else derive_runs (i + 1) ta tb))
     else if sa \<noteq> sb then None
     else derive_runs (i + 1) ta tb)"
| "derive_runs i _ _ = Some []"

definition derive_note_rule :: "string option \<Rightarrow> string option \<Rightarrow> note_rule option" where
  "derive_note_rule a b =
    (if a = b then Some NoChange
     else case (a, b) of
       (Some a, Some b) \<Rightarrow>
         (let ta = tokenize_runs a; tb = tokenize_runs b in
          if length ta \<noteq> length tb then None
          else case derive_runs 0 ta tb of None \<Rightarrow> None
             | Some runs \<Rightarrow> if apply_note_template a 1 runs = b then Some (Template runs) else None)
     | _ \<Rightarrow> None)"

text \<open>Note slot \<open>idx\<close> of a loop, for iteration \<open>k\<close>.\<close>

definition apply_note_rule :: "i64 \<Rightarrow> note_rule \<Rightarrow> string option \<Rightarrow> string option" where
  "apply_note_rule k rule note =
    (case (rule, note) of (Template runs, Some s) \<Rightarrow> Some (apply_note_template s k runs) | _ \<Rightarrow> note)"

definition shift_note :: "i64 \<Rightarrow> note_rule list \<Rightarrow> opcode \<Rightarrow> (nat, opcode) visit" where
  "shift_note k notes op = (case op of
     Constraint r \<Rightarrow> (\<lambda>idx. if length notes \<le> idx then None
       else Some (Constraint (r\<lparr>r_note := apply_note_rule k (notes ! idx) (r_note r)\<rparr>), idx + 1))
   | Witness w \<Rightarrow> vreturn op)"

fun shift_item_notes :: "i64 \<Rightarrow> note_rule list \<Rightarrow> item \<Rightarrow> (nat, item) visit"
  and shift_items_notes :: "i64 \<Rightarrow> note_rule list \<Rightarrow> item list \<Rightarrow> (nat, item list) visit" where
  "shift_item_notes k notes (Op op) = vbind (shift_note k notes op) (\<lambda>op. vreturn (Op op))"
| "shift_item_notes k notes (Repeat cnt body steps inotes) =
     vbind (shift_items_notes k notes body) (\<lambda>body. vreturn (Repeat cnt body steps inotes))"
| "shift_items_notes k notes [] = vreturn []"
| "shift_items_notes k notes (it # its) =
     vbind (shift_item_notes k notes it) (\<lambda>it. vbind (shift_items_notes k notes its) (\<lambda>its.
       vreturn (it # its)))"

section \<open>Expansion\<close>

type_synonym emitted = "r1cs_row list \<times> witness_op list"

fun emit_op :: "opcode \<Rightarrow> emitted \<Rightarrow> emitted" where
  "emit_op (Constraint r) (cons, wit) = (cons @ [r], wit)"
| "emit_op (Witness w) (cons, wit) = (cons, wit @ [w])"

lemma vbind_Some: "vbind m k s = Some y \<longleftrightarrow> (\<exists>x t. m s = Some (x, t) \<and> k x t = Some y)"
  by (auto simp: vbind_def split: option.splits)

lemma vreturn_Some [simp]: "vreturn x s = Some y \<longleftrightarrow> y = (x, s)"
  by (auto simp: vreturn_def)

lemma shift_operands_nodes:
  "shift_item_operands k steps it s = Some (it', s') \<Longrightarrow> item_nodes it' = item_nodes it"
  "shift_items_operands k steps its s = Some (its', s') \<Longrightarrow> map item_nodes its' = map item_nodes its"
  by (induction it and its arbitrary: it' s s' and its' s s'
      rule: shift_item_operands_shift_items_operands.induct) (auto simp: vbind_Some)

lemma shift_notes_nodes:
  "shift_item_notes k notes it s = Some (it', s') \<Longrightarrow> item_nodes it' = item_nodes it"
  "shift_items_notes k notes its s = Some (its', s') \<Longrightarrow> map item_nodes its' = map item_nodes its"
  by (induction it and its arbitrary: it' s s' and its' s s'
      rule: shift_item_notes_shift_items_notes.induct) (auto simp: vbind_Some)

text \<open>
  \<^verbatim>\<open>emit_item\<close>, the loop over the iterations of a \<^verbatim>\<open>Repeat\<close>, and
  \<^verbatim>\<open>emit_repeat_iter\<close>'s loop over the body.
\<close>

function (sequential) emit_item :: "item \<Rightarrow> emitted \<Rightarrow> emitted option"
  and emit_iters :: "nat \<Rightarrow> nat \<Rightarrow> i64 list \<Rightarrow> note_rule list \<Rightarrow> item list \<Rightarrow> emitted \<Rightarrow> emitted option"
  and emit_body :: "i64 \<Rightarrow> i64 list \<Rightarrow> note_rule list \<Rightarrow> item list \<Rightarrow> nat \<Rightarrow> nat \<Rightarrow> emitted \<Rightarrow> emitted option" where
  "emit_item (Op op) acc = Some (emit_op op acc)"
| "emit_item (Repeat cnt body steps notes) acc = emit_iters (unat cnt) 0 steps notes body acc"
| "emit_iters 0 k steps notes body acc = Some acc"
| "emit_iters (Suc n) k steps notes body acc =
     (case emit_body (of_nat k) steps notes body 0 0 acc of
        None \<Rightarrow> None | Some acc \<Rightarrow> emit_iters n (k + 1) steps notes body acc)"
| "emit_body ki steps notes [] oi ni acc = Some acc"
| "emit_body ki steps notes (Op op # its) oi ni acc =
     (case visit_opcode_operands (shift_operand ki steps) op oi of None \<Rightarrow> None | Some (op2, oi) \<Rightarrow>
       (case shift_note ki notes op2 ni of None \<Rightarrow> None | Some (op2, ni) \<Rightarrow>
          emit_body ki steps notes its oi ni (emit_op op2 acc)))"
| "emit_body ki steps notes (Repeat cnt body isteps inotes # its) oi ni acc =
     (case shift_item_operands ki steps (Repeat cnt body isteps inotes) oi of
        None \<Rightarrow> None | Some (nested, oi) \<Rightarrow>
       (case shift_item_notes ki notes nested ni of None \<Rightarrow> None | Some (nested, ni) \<Rightarrow>
         (case emit_item nested acc of
            None \<Rightarrow> None | Some acc \<Rightarrow> emit_body ki steps notes its oi ni acc)))"
  by pat_completeness auto
termination
  by (relation "measures [case_sum (\<lambda>(it, _). item_nodes it)
        (case_sum (\<lambda>(_, _, _, _, body, _). sum_list (map item_nodes body))
          (\<lambda>(_, _, _, its, _). sum_list (map item_nodes its))),
      case_sum (\<lambda>_. 0) (case_sum (\<lambda>_. 2) (\<lambda>_. 1)),
      case_sum (\<lambda>_. 0) (case_sum (\<lambda>(n, _). n) (\<lambda>_. 0))]")
    (auto simp del: shift_item_operands.simps shift_item_notes.simps
      dest!: shift_operands_nodes(1) shift_notes_nodes(1))

section \<open>The item codec\<close>

definition all_nochange :: "note_rule list \<Rightarrow> bool" where
  "all_nochange notes \<longleftrightarrow> list_all (\<lambda>n. n = NoChange) notes"

definition put_note_rule :: "note_rule \<Rightarrow> u8 list" where
  "put_note_rule nr = (case nr of NoChange \<Rightarrow> [NOTE_NOCHANGE]
     | Template runs \<Rightarrow> NOTE_TEMPLATE # put_len (length runs) @
         concat (map (\<lambda>(ri, st). put_varint (ucast ri) @ put_ivarint st) runs))"

fun put_item_compact :: "enc_pool \<Rightarrow> item \<Rightarrow> u8 list" where
  "put_item_compact ep (Op op) = ITEM_OP # put_opcode ep op"
| "put_item_compact ep (Repeat cnt body steps notes) =
     ITEM_REPEAT # put_varint (ucast cnt) @
     put_len (length body) @ concat (map (put_item_compact ep) body) @
     put_len (length steps) @ concat (map put_ivarint steps) @
     put_len (length notes) @
     (if all_nochange notes then [0] else 1 # concat (map put_note_rule notes))"

definition parse_run_step :: "(u32 \<times> i64) parser" where
  "parse_run_step = pbind vu32 (\<lambda>ri. pbind ivarint (\<lambda>st. preturn (ri, st)))"

definition parse_note_rule :: "note_rule parser" where
  "parse_note_rule = pbind take_u8 (\<lambda>t.
     if t = NOTE_NOCHANGE then preturn NoChange
     else if t = NOTE_TEMPLATE then
       pbind len (\<lambda>nr. pbind (p_repeat nr parse_run_step) (\<lambda>runs. preturn (Template runs)))
     else pfail (BadTag t))"

text \<open>\<^verbatim>\<open>size_of::<NoteRule>()\<close>, that of its \<^verbatim>\<open>Vec\<close>.\<close>

definition NOTE_RULE_BYTES :: nat where
  "NOTE_RULE_BYTES = 24"

text \<open>One level of \<^verbatim>\<open>item_compact\<close>, the recursive call an argument.\<close>

definition item_step :: "item parser \<Rightarrow> item parser" where
  "item_step self = pbind take_u8 (\<lambda>t.
     if t = ITEM_OP then pbind parse_opcode (\<lambda>op. preturn (Op op))
     else if t = ITEM_REPEAT then
       pbind vu32 (\<lambda>cnt. pbind len (\<lambda>n_body. pbind (p_repeat n_body self) (\<lambda>body.
       pbind len (\<lambda>n_steps. pbind (p_repeat n_steps ivarint) (\<lambda>steps.
       pbind len (\<lambda>n_notes. pbind take_u8 (\<lambda>flag.
         if flag = 0 then pbind (reserve NOTE_RULE_BYTES n_notes) (\<lambda>_.
           preturn (Repeat cnt body steps (replicate n_notes NoChange)))
         else if flag = 1 then
           pbind (p_repeat n_notes parse_note_rule) (\<lambda>notes. preturn (Repeat cnt body steps notes))
         else pfail (BadTag flag))))))))
     else pfail (BadTag t))"

text \<open>
  Every level consumes its tag, so a depth of one more than the bytes left is never
  exhausted (\<open>item_compact_unfold\<close> below).
\<close>

fun item_fuel :: "nat \<Rightarrow> item parser" where
  "item_fuel 0 = pfail Truncated"
| "item_fuel (Suc n) = item_step (item_fuel n)"

definition item_compact :: "item parser" where
  "item_compact = (\<lambda>cu. item_fuel (Suc (length (rest cu))) cu)"

fun decode_items :: "nat \<Rightarrow> emitted \<Rightarrow> cursor \<Rightarrow> (bytecode_error + emitted) option" where
  "decode_items 0 acc cu = Some (Inr acc)"
| "decode_items (Suc n) acc cu =
     (case item_compact cu of Inl Panic \<Rightarrow> None | Inl (Err e) \<Rightarrow> Some (Inl e)
      | Inr (it, cu) \<Rightarrow> (case emit_item it acc of None \<Rightarrow> None | Some acc \<Rightarrow> decode_items n acc cu))"

definition decode_and_expand_ops_compact ::
  "u8 list \<Rightarrow> field_const list \<Rightarrow> (bytecode_error + emitted) option" where
  "decode_and_expand_ops_compact bytes pool =
     (case len ((cursor_new bytes)\<lparr>cu_pool := pool\<rparr>) of
        Inl Panic \<Rightarrow> None | Inl (Err e) \<Rightarrow> Some (Inl e) | Inr (n, cu) \<Rightarrow> decode_items n ([], []) cu)"

end
