(* ===== verification/Rolled_Codec.thy ===== *)
theory Rolled_Codec
  imports Rolled
begin

text \<open>
  The item codec: decoding terminates (every level of nesting consumes its tag, so
  \<open>item_compact\<close> satisfies the code's recursion equation), and a stream of items is read
  back as it was written.
\<close>

section \<open>Decoders consume\<close>

named_theorems shrink_intros \<open>decoders that never give bytes back\<close>

definition shrinks :: "'a parser \<Rightarrow> bool" where
  "shrinks p \<longleftrightarrow> (\<forall>cu x cu'. p cu = Inr (x, cu') \<longrightarrow> length (rest cu') \<le> length (rest cu))"

lemma shrinksD: "shrinks p \<Longrightarrow> p cu = Inr (x, cu') \<Longrightarrow> length (rest cu') \<le> length (rest cu)"
  by (simp add: shrinks_def)

lemma pbind_Inr: "pbind p f cu = Inr y \<longleftrightarrow> (\<exists>x cu'. p cu = Inr (x, cu') \<and> f x cu' = Inr y)"
  by (auto simp: pbind_def split: sum.splits)

lemma shrinks_return [shrink_intros]: "shrinks (preturn x)"
  by (simp add: shrinks_def preturn_def)

lemma shrinks_fail [shrink_intros]: "shrinks (pfail e)"
  by (simp add: shrinks_def pfail_def)

lemma shrinks_reserve [shrink_intros]: "shrinks (reserve w n)"
  by (simp add: shrinks_def reserve_def)

lemma shrinks_bind [shrink_intros]: "shrinks p \<Longrightarrow> (\<And>x. shrinks (f x)) \<Longrightarrow> shrinks (pbind p f)"
  unfolding shrinks_def pbind_Inr by (meson order_trans)

lemma shrinks_if [shrink_intros]: "(b \<Longrightarrow> shrinks p) \<Longrightarrow> (\<not> b \<Longrightarrow> shrinks q) \<Longrightarrow> shrinks (if b then p else q)"
  by simp

lemma shrinks_take [shrink_intros]: "shrinks (take_bytes n)"
  by (auto simp: shrinks_def take_bytes_def rest_def Let_def split: if_splits)

lemma shrinks_u8 [shrink_intros]: "shrinks take_u8"
  unfolding take_u8_def by (intro shrink_intros)

lemma take_u8_less: "take_u8 cu = Inr (t, cu') \<Longrightarrow> length (rest cu') < length (rest cu)"
  by (auto simp: take_u8_def pbind_Inr preturn_def take_bytes_def rest_def Let_def split: if_splits)

lemma shrinks_repeat [shrink_intros]: "shrinks p \<Longrightarrow> shrinks (p_repeat n p)"
  by (induction n) (auto intro!: shrink_intros)

lemma shrinks_varint_from [shrink_intros]: "shrinks (varint_from s v)"
proof (induction s v rule: varint_from.induct)
  case (1 shift v)
  show ?case unfolding varint_from.simps [of shift v] Let_def
    by (intro shrink_intros) (rule 1 [OF refl _ refl], assumption+)
qed

lemma shrinks_integers [shrink_intros]: "shrinks varint" "shrinks vu32" "shrinks len" "shrinks ivarint"
  unfolding varint_def vu32_def len_def ivarint_def by (intro shrink_intros)+

lemma shrinks_string [shrink_intros]: "shrinks parse_string" "shrinks opt_string"
  unfolding parse_string_def opt_string_def by (intro shrink_intros)+

lemma shrinks_fieldconst [shrink_intros]: "shrinks fieldconst"
proof -
  have "shrinks (pool_get i)" for i by (simp add: shrinks_def pool_get_def)
  then show ?thesis
    unfolding fieldconst_def fieldconst_big_def fieldconst_pow2_def Let_def by (intro shrink_intros)
qed

lemma shrinks_terms [shrink_intros]: "shrinks (lc_terms_from n prev)"
  by (induction n arbitrary: prev) (auto simp: Let_def intro!: shrink_intros)

lemma shrinks_ids [shrink_intros]: "shrinks (ids_from n prev)"
  by (induction n arbitrary: prev) (auto simp: Let_def intro!: shrink_intros)

lemma shrinks_lc [shrink_intros]: "shrinks parse_lc" "shrinks parse_var_ids"
  unfolding parse_lc_def parse_var_ids_def by (intro shrink_intros)+

lemma shrinks_lcs [shrink_intros]: "shrinks parse_lcs" "shrinks parse_r1csrow"
  unfolding parse_lcs_def parse_r1csrow_def by (intro shrink_intros)+

lemma shrinks_opcode [shrink_intros]: "shrinks parse_opcode"
  unfolding parse_opcode_def parse_witness_def by (intro shrink_intros)

lemma shrinks_note_rule [shrink_intros]: "shrinks parse_note_rule"
  unfolding parse_note_rule_def parse_run_step_def by (intro shrink_intros)

lemma shrinks_item_step [shrink_intros]: "shrinks self \<Longrightarrow> shrinks (item_step self)"
  unfolding item_step_def by (intro shrink_intros)

lemma shrinks_item_fuel [shrink_intros]: "shrinks (item_fuel n)"
  by (induction n) (auto intro: shrink_intros)

section \<open>The recursion equation\<close>

lemma pbind_cong:
  assumes "p cu = q cu" "\<And>x cu'. p cu = Inr (x, cu') \<Longrightarrow> f x cu' = g x cu'"
  shows "pbind p f cu = pbind q g cu"
  using assms by (auto simp: pbind_def split: sum.splits)

lemma p_repeat_cong:
  assumes "\<And>cu. length (rest cu) \<le> n \<Longrightarrow> p cu = q cu" "shrinks p" "length (rest cu) \<le> n"
  shows "p_repeat k p cu = p_repeat k q cu"
  using assms(3)
proof (induction k arbitrary: cu)
  case (Suc k)
  have le: "length (rest cu') \<le> n" if "p cu = Inr (x, cu')" for x cu'
    using shrinksD [OF assms(2) that] Suc.prems by simp
  show ?case unfolding p_repeat.simps
    by (intro pbind_cong assms(1) Suc.prems refl Suc.IH) (rule le)
qed simp

lemma item_step_cong:
  assumes "\<And>cu'. length (rest cu') < length (rest cu) \<Longrightarrow> p cu' = q cu'" "shrinks p"
  shows "item_step p cu = item_step q cu"
proof (cases "take_u8 cu")
  case (Inr r)
  obtain t cu1 where r: "take_u8 cu = Inr (t, cu1)" using Inr by (cases r) auto
  have less: "length (rest cu1) < length (rest cu)" using take_u8_less [OF r] .
  have rep: "p_repeat k p cu' = p_repeat k q cu'" if "length (rest cu') \<le> length (rest cu1)" for k cu'
    by (rule p_repeat_cong [OF assms(1) assms(2) that]) (use less in simp)
  have le: "length (rest cu3) \<le> length (rest cu1)"
    if "vu32 cu1 = Inr (c, cu2)" "len cu2 = Inr (n, cu3)" for c cu2 n cu3
    using shrinksD [OF shrinks_integers(2) that(1)] shrinksD [OF shrinks_integers(3) that(2)] by simp
  have loop: "pbind vu32 (\<lambda>c. pbind len (\<lambda>n. pbind (p_repeat n p) (K c))) cu1 =
      pbind vu32 (\<lambda>c. pbind len (\<lambda>n. pbind (p_repeat n q) (K c))) cu1" for K :: "u32 \<Rightarrow> item list \<Rightarrow> item parser"
    by (intro pbind_cong refl rep) (rule le)
  show ?thesis
    unfolding item_step_def pbind_def [of take_u8] r sum.case prod.case
    by (cases "t = ITEM_OP"; cases "t = ITEM_REPEAT") (simp_all only: simp_thms if_True if_False loop)
qed (simp add: item_step_def pbind_def)

lemma item_fuel_enough:
  "length (rest cu) < m \<Longrightarrow> length (rest cu) < n \<Longrightarrow> item_fuel m cu = item_fuel n cu"
proof (induction "length (rest cu)" arbitrary: cu m n rule: less_induct)
  case less
  obtain m' n' where mn: "m = Suc m'" "n = Suc n'" using less.prems by (cases m; cases n) auto
  have "item_fuel m' cu' = item_fuel n' cu'" if "length (rest cu') < length (rest cu)" for cu'
    by (rule less.hyps [OF that]) (use that less.prems mn in simp_all)
  then show ?case unfolding mn item_fuel.simps by (intro item_step_cong shrinks_item_fuel)
qed

lemma item_compact_unfold: "item_compact cu = item_step item_compact cu"
proof -
  have "item_fuel (length (rest cu)) cu' = item_compact cu'" if "length (rest cu') < length (rest cu)" for cu'
    unfolding item_compact_def by (rule item_fuel_enough [OF that]) simp
  then show ?thesis
    unfolding item_compact_def [THEN fun_cong] item_fuel.simps by (intro item_step_cong shrinks_item_fuel)
qed

section \<open>Items round-trip\<close>

fun rule_ok :: "note_rule \<Rightarrow> bool" where
  "rule_ok NoChange = True"
| "rule_ok (Template runs) = short runs"

fun item_ok :: "item \<Rightarrow> bool" where
  "item_ok (Op op) = op_ok op"
| "item_ok (Repeat cnt body steps notes) \<longleftrightarrow>
     short body \<and> list_all item_ok body \<and> short steps \<and> capacity_ok NOTE_RULE_BYTES (length notes) \<and> list_all rule_ok notes"

lemma item_compact_eq: "item_compact = item_step item_compact"
  by (rule ext) (rule item_compact_unfold)

lemma reads_run_step: "reads pool parse_run_step (put_varint (ucast ri) @ put_ivarint st) (ri, st)"
  unfolding parse_run_step_def put_vu32_def [symmetric]
  by (intro reads_bind [OF reads_vu32] reads_mapI [OF reads_ivarint] refl)

lemma reads_note_rule:
  assumes "rule_ok nr"
  shows "reads pool parse_note_rule (put_note_rule nr) nr"
proof (cases nr)
  case NoChange
  then show ?thesis unfolding parse_note_rule_def put_note_rule_def by (auto intro!: reads_u8_bind)
next
  case (Template runs)
  have "reads pool (p_repeat (length runs) parse_run_step)
      (concat (map (\<lambda>(ri, st). put_varint (ucast ri) @ put_ivarint st) runs)) runs"
    by (intro reads_repeat) (auto intro: reads_run_step)
  then have "reads pool (pbind len (\<lambda>nr. pbind (p_repeat nr parse_run_step) (\<lambda>runs. preturn (Template runs))))
      (put_len (length runs) @ concat (map (\<lambda>(ri, st). put_varint (ucast ri) @ put_ivarint st) runs)) (Template runs)"
    using assms Template by (intro reads_bind [OF reads_len] reads_mapI) (simp_all add: short_def)
  then show ?thesis using Template unfolding parse_note_rule_def
    by (auto intro!: reads_u8_bind simp: put_note_rule_def NOTE_NOCHANGE_def NOTE_TEMPLATE_def)
qed

lemma all_nochange_replicate: "all_nochange notes \<longleftrightarrow> notes = replicate (length notes) NoChange"
  unfolding all_nochange_def list_all_iff by (metis in_set_replicate replicate_eqI)

lemma reads_item:
  assumes "pool_agrees ep pool" "item_ok it"
  shows "reads pool item_compact (put_item_compact ep it) it"
  using assms(2)
proof (induction it)
  case (Op op)
  then show ?case
    by (subst item_compact_eq) (auto simp: item_step_def intro!: reads_u8_bind reads_mapI reads_opcode [OF assms(1)])
next
  case (Repeat cnt body steps ns)
  have body: "reads pool (p_repeat (length body) item_compact) (concat (map (put_item_compact ep) body)) body"
    using Repeat by (intro reads_repeat) (auto simp: list_all_iff)
  have steps: "reads pool (p_repeat (length steps) ivarint) (concat (map put_ivarint steps)) steps"
    by (intro reads_repeat reads_ivarint refl)
  have rules: "reads pool (p_repeat (length ns) parse_note_rule) (concat (map put_note_rule ns)) ns"
    using Repeat by (intro reads_repeat reads_note_rule) (auto simp: list_all_iff)
  have flag: "reads pool (pbind take_u8 (\<lambda>flag.
         if flag = 0 then pbind (reserve NOTE_RULE_BYTES (length ns)) (\<lambda>_.
           preturn (item.Repeat cnt body steps (replicate (length ns) NoChange)))
         else if flag = 1 then pbind (p_repeat (length ns) parse_note_rule) (\<lambda>ns. preturn (item.Repeat cnt body steps ns))
         else pfail (BadTag flag)))
      (if all_nochange ns then [0] else 1 # concat (map put_note_rule ns)) (item.Repeat cnt body steps ns)"
  proof (cases "all_nochange ns")
    case True
    then have "ns = replicate (length ns) NoChange" by (simp add: all_nochange_replicate)
    then have "reads pool (pbind (reserve NOTE_RULE_BYTES (length ns)) (\<lambda>_.
        preturn (item.Repeat cnt body steps (replicate (length ns) NoChange)))) [] (item.Repeat cnt body steps ns)"
      using reads_bind [OF reads_reserve reads_return, of NOTE_RULE_BYTES "length ns"] Repeat.prems by simp
    then show ?thesis using True by (auto intro!: reads_u8_bind)
  next
    case False
    then show ?thesis using rules by (auto intro!: reads_u8_bind reads_mapI)
  qed
  have tags: "ITEM_REPEAT \<noteq> ITEM_OP" by (simp add: ITEM_REPEAT_def ITEM_OP_def)
  have "reads pool (item_step item_compact) (put_item_compact ep (item.Repeat cnt body steps ns))
      (item.Repeat cnt body steps ns)"
    unfolding item_step_def put_item_compact.simps put_vu32_def [symmetric]
    by (rule reads_u8_bind, simp only: tags if_False if_True simp_thms)
      (intro reads_bind [OF reads_vu32] reads_bind [OF reads_len] reads_bind [OF body] reads_bind [OF steps] flag,
        use Repeat.prems in \<open>simp_all add: short_def capacity_ok_def NOTE_RULE_BYTES_def\<close>)
  then show ?case by (subst item_compact_eq)
qed

interpretation item_codec: codec pool "put_item_compact ep" item_compact "\<lambda>it. pool_agrees ep pool \<and> item_ok it"
  for pool ep
  by unfold_locales (simp add: reads_item)

text \<open>Decoding a written stream expands the items in order.\<close>

fun emit_items :: "item list \<Rightarrow> emitted \<Rightarrow> emitted option" where
  "emit_items [] acc = Some acc"
| "emit_items (it # its) acc = (case emit_item it acc of None \<Rightarrow> None | Some acc \<Rightarrow> emit_items its acc)"

lemma decode_items_written:
  assumes "pool_agrees ep (cu_pool cu)" "list_all item_ok its" "cursor_ok cu"
    "rest cu = concat (map (put_item_compact ep) its) @ ys"
  shows "decode_items (length its) acc cu = map_option Inr (emit_items its acc)"
  using assms
proof (induction its arbitrary: acc cu ys)
  case (Cons it its)
  have "reads (cu_pool cu) item_compact (put_item_compact ep it) it"
    using Cons.prems by (intro reads_item) simp_all
  then have read: "item_compact cu = Inr (it, advance (length (put_item_compact ep it)) cu)"
    using Cons.prems unfolding reads_def by simp
  have "cursor_ok (advance (length (put_item_compact ep it)) cu)"
    using cursor_ok_advance [OF Cons.prems(3)] Cons.prems(4) by simp
  then show ?case using Cons.IH [of "advance (length (put_item_compact ep it)) cu" ys] Cons.prems read
    by (auto split: option.splits)
qed simp

lemma decode_written:
  assumes "pool_agrees ep pool" "list_all item_ok its" "short its"
    "bytes = put_len (length its) @ concat (map (put_item_compact ep) its)" "short bytes"
  shows "decode_and_expand_ops_compact bytes pool = map_option Inr (emit_items its ([], []))"
proof -
  define cu where "cu = (cursor_new bytes)\<lparr>cu_pool := pool\<rparr>"
  have cu: "cursor_ok cu" "cu_pool cu = pool" "rest cu = bytes"
    using assms(5) by (simp_all add: cu_def cursor_new_def cursor_ok_def rest_def short_def)
  have "len cu = Inr (length its, advance (length (put_len (length its))) cu)"
    using reads_len [of "length its" pool] assms(3) cu unfolding reads_def assms(4) by (simp add: short_def)
  moreover have "decode_items (length its) acc (advance (length (put_len (length its))) cu) =
      map_option Inr (emit_items its acc)" for acc
    using assms(1,2) cu cursor_ok_advance [OF cu(1), of "put_len (length its)"]
    by (intro decode_items_written [where ys = "[]"]) (simp_all add: assms(4))
  ultimately show ?thesis by (simp add: decode_and_expand_ops_compact_def cu_def [symmetric])
qed

end
