(* ===== verification/Roll.thy ===== *)
theory Roll
  imports Rolled_Codec
begin

text \<open>
  Rolling, \<^verbatim>\<open>crates/ir/src/bytecode.rs\<close>: structural bytes and their hash, the
  range-minimum table, the search for periodic runs (\<open>roll_pass\<close>, \<open>try_build_repeat\<close>),
  the passes (\<open>roll_stream\<close>) and the encoder of a rolled stream.

  \<open>roll_loop\<close> is a partial function: it advances by \<^verbatim>\<open>period * count\<close> with
  \<^verbatim>\<open>count\<close> cut to 32 bits, so that it returns is a theorem about streams below
  \<^verbatim>\<open>2^32\<close> items. Structural bytes are taken before the encoder's pool is set.
\<close>

section \<open>Structural bytes\<close>

definition put_lc_struct :: "lin_comb \<Rightarrow> u8 list" where
  "put_lc_struct l = put_fieldconst None (lc_const l) @ put_len (length (lc_terms l)) @
     concat (map (\<lambda>t. put_fieldconst None (t_coeff t) @ put_vu32 0) (lc_terms l))"

definition put_lcs_struct :: "lin_comb list \<Rightarrow> u8 list" where
  "put_lcs_struct ls = put_len (length ls) @ concat (map put_lc_struct ls)"

definition put_var_ids_struct :: "var_id list \<Rightarrow> u8 list" where
  "put_var_ids_struct ids = put_len (length ids) @ concat (map (\<lambda>_. put_vu32 0) ids)"

fun put_opcode_struct :: "opcode \<Rightarrow> u8 list" where
  "put_opcode_struct (Constraint r) =
     OP_CONSTRAINT # put_lc_struct (r_a r) @ put_lc_struct (r_b r) @ put_lc_struct (r_c r) @
       (case r_note r of Some s \<Rightarrow> put_opt_str (Some (blank_digits s)) | None \<Rightarrow> put_opt_str None)"
| "put_opcode_struct (Witness (Product out left right)) =
     OP_PRODUCT # put_vu32 0 @ put_lc_struct left @ put_lc_struct right"
| "put_opcode_struct (Witness (Linear out l)) = OP_LINEAR # put_vu32 0 @ put_lc_struct l"
| "put_opcode_struct (Witness (Xor out a b)) = OP_XOR # put_vu32 0 @ put_lc_struct a @ put_lc_struct b"
| "put_opcode_struct (Witness (Or out a b)) = OP_OR # put_vu32 0 @ put_lc_struct a @ put_lc_struct b"
| "put_opcode_struct (Witness (Inverse out input)) = OP_INVERSE # put_vu32 0 @ put_lc_struct input"
| "put_opcode_struct (Witness (InverseOrZero out input)) =
     OP_INVERSE_OR_ZERO # put_vu32 0 @ put_lc_struct input"
| "put_opcode_struct (Witness (Bit out input index)) =
     OP_BIT # put_vu32 0 @ put_lc_struct input @ put_vu32 0"
| "put_opcode_struct (Witness (Bits outs input)) =
     OP_BITS # put_var_ids_struct outs @ put_lc_struct input"
| "put_opcode_struct (Witness (DivRem q r num den)) =
     OP_DIVREM # put_vu32 0 @ put_vu32 0 @ put_lc_struct num @ put_lc_struct den"
| "put_opcode_struct (Witness (MulModDivMod q r a b modulus limb_bits)) =
     OP_MULMOD_DIVMOD # put_var_ids_struct q @ put_var_ids_struct r @ put_lcs_struct a @
       put_lcs_struct b @ put_lcs_struct modulus @ put_vu32 limb_bits"
| "put_opcode_struct (Witness (ModInverse out a modulus limb_bits)) =
     OP_MODINVERSE # put_var_ids_struct out @ put_lcs_struct a @ put_lcs_struct modulus @ put_vu32 limb_bits"
| "put_opcode_struct (Witness (FakeGlv out u modulus lambda limb_bits)) =
     OP_FAKE_GLV # put_var_ids_struct out @ put_lcs_struct u @ put_lcs_struct modulus @
       put_lcs_struct lambda @ put_vu32 limb_bits"
| "put_opcode_struct (Witness (Sub2 qabs r a b c modulus limb_bits)) =
     OP_SUB2 # put_vu32 0 @ put_var_ids_struct r @ put_lcs_struct a @ put_lcs_struct b @
       put_lcs_struct c @ put_lcs_struct modulus @ put_vu32 limb_bits"

definition rule_struct_bytes :: "note_rule \<Rightarrow> u8 list" where
  "rule_struct_bytes nr = (case nr of NoChange \<Rightarrow> [NOTE_NOCHANGE]
     | Template runs \<Rightarrow> NOTE_TEMPLATE # concat (map (\<lambda>(ri, st). put_u32 ri @ put_i64 st) runs))"

fun item_struct_bytes :: "item \<Rightarrow> u8 list" where
  "item_struct_bytes (Op op) = ITEM_OP # put_opcode_struct op"
| "item_struct_bytes (Repeat cnt body steps notes) =
     ITEM_REPEAT # put_u32 cnt @ concat (map put_i64 steps) @ 0xff #
       concat (map rule_struct_bytes notes) @ 0xfe # concat (map item_struct_bytes body)"

definition item_hash :: "item \<Rightarrow> u64" where
  "item_hash it = fold (\<lambda>b h. (h XOR ucast b) * 0x100000001b3) (item_struct_bytes it) 0xcbf29ce484222325"

section \<open>Range minimum\<close>

definition USIZE_MAX :: nat where
  "USIZE_MAX = 2 ^ 64 - 1"

function sparse_rows :: "nat \<Rightarrow> nat list \<Rightarrow> nat \<Rightarrow> nat list list" where
  "sparse_rows n prev k =
    (if 2 ^ k \<le> n then
       let half = 2 ^ k div 2;
           row = map (\<lambda>i. min (prev ! i) (prev ! (i + half))) [0..<n - 2 ^ k + 1]
       in row # sparse_rows n row (k + 1)
     else [])"
  by pat_completeness auto
termination
proof (relation "measure (\<lambda>(n, prev, k). n - k)")
  fix n k half :: nat and prev row :: "nat list"
  assume "2 ^ k \<le> n"
  moreover have "k < 2 ^ k" by (rule less_exp)
  ultimately have "k < n" by linarith
  then show "((n, row, k + 1), n, prev, k) \<in> measure (\<lambda>(n, prev, k). n - k)" by simp
qed simp

declare sparse_rows.simps [simp del]

definition sparse_new :: "nat list \<Rightarrow> nat list list" where
  "sparse_new data = data # sparse_rows (length data) data 1"

text \<open>\<^verbatim>\<open>usize::BITS - 1 - leading_zeros\<close>.\<close>

fun floor_log2 :: "nat \<Rightarrow> nat" where
  "floor_log2 n = (if n < 2 then 0 else Suc (floor_log2 (n div 2)))"

declare floor_log2.simps [simp del]

definition sparse_min :: "nat list list \<Rightarrow> nat \<Rightarrow> nat \<Rightarrow> nat" where
  "sparse_min table l r =
    (if r \<le> l then USIZE_MAX
     else let k = floor_log2 (r - l); row = table ! k in min (row ! l) (row ! (r - 2 ^ k)))"

section \<open>One run\<close>

definition block :: "item list \<Rightarrow> nat \<Rightarrow> nat \<Rightarrow> item list" where
  "block items base p = take p (drop base items)"

definition block_struct :: "item list \<Rightarrow> nat \<Rightarrow> nat \<Rightarrow> u8 list" where
  "block_struct items base p = concat (map item_struct_bytes (block items base p))"

definition block_operands :: "item list \<Rightarrow> nat \<Rightarrow> nat \<Rightarrow> u32 list" where
  "block_operands items base p = items_operands (block items base p) []"

definition block_notes :: "item list \<Rightarrow> nat \<Rightarrow> nat \<Rightarrow> string option list" where
  "block_notes items base p = items_notes (block items base p) []"

fun derive_rules :: "string option list \<Rightarrow> string option list \<Rightarrow> note_rule list option" where
  "derive_rules (a # as) (b # bs) =
     (case derive_note_rule a b of None \<Rightarrow> None
      | Some rule \<Rightarrow> map_option (\<lambda>rules. rule # rules) (derive_rules as bs))"
| "derive_rules _ _ = Some []"

definition operands_ok :: "nat \<Rightarrow> u32 list \<Rightarrow> i64 list \<Rightarrow> u32 list \<Rightarrow> bool" where
  "operands_ok k o0 steps actual \<longleftrightarrow>
     list_all (\<lambda>((base, step), x). (ucast base + of_nat k * step :: i64) = ucast x) (zip (zip o0 steps) actual)"

definition note_rule_ok :: "nat \<Rightarrow> note_rule \<Rightarrow> string option \<Rightarrow> string option \<Rightarrow> bool" where
  "note_rule_ok k rule base actual = (case (rule, base) of
      (NoChange, _) \<Rightarrow> actual = base
    | (Template runs, Some s) \<Rightarrow> Some (apply_note_template s (of_nat k) runs) = actual
    | (Template runs, None) \<Rightarrow> False)"

definition notes_ok :: "nat \<Rightarrow> string option list \<Rightarrow> note_rule list \<Rightarrow> string option list \<Rightarrow> bool" where
  "notes_ok k n0 rules actual \<longleftrightarrow>
     list_all (\<lambda>((base, rule), x). note_rule_ok k rule base x) (zip (zip n0 rules) actual)"

text \<open>Does block \<open>cnt\<close> of the run reproduce under the rule?\<close>

definition iteration_ok :: "item list \<Rightarrow> nat \<Rightarrow> nat \<Rightarrow> i64 list \<Rightarrow> note_rule list \<Rightarrow> nat \<Rightarrow> bool" where
  "iteration_ok items start p steps rules cnt =
    (let base = start + cnt * p;
         o0 = block_operands items start p; obuf = block_operands items base p in
     block_struct items base p = block_struct items start p \<and>
     length obuf = length o0 \<and> operands_ok cnt o0 steps obuf \<and>
     notes_ok cnt (block_notes items start p) rules (block_notes items base p))"

text \<open>The period of a run is positive: the caller has checked it.\<close>

function extend_count :: "item list \<Rightarrow> nat \<Rightarrow> nat \<Rightarrow> i64 list \<Rightarrow> note_rule list \<Rightarrow> nat \<Rightarrow> nat" where
  "extend_count items start p steps rules cnt =
    (if 0 < p \<and> start + (cnt + 1) * p \<le> length items \<and> iteration_ok items start p steps rules cnt
     then extend_count items start p steps rules (cnt + 1) else cnt)"
  by pat_completeness auto
termination
proof (relation "measure (\<lambda>(items, start, p, steps, rules, cnt). length items - cnt)")
  fix items start p steps rules cnt
  assume "0 < p \<and> start + (cnt + 1) * p \<le> length items \<and> iteration_ok items start p steps rules cnt"
  then have "0 < p" "(cnt + 1) * p \<le> length items" by linarith+
  moreover from this have "(cnt + 1) * 1 \<le> (cnt + 1) * p" by (intro mult_le_mono2) simp
  ultimately have "cnt + 1 \<le> length items" by (metis le_trans nat_mult_1_right)
  then have "cnt < length items" by simp
  then show "((items, start, p, steps, rules, cnt + 1), items, start, p, steps, rules, cnt)
      \<in> measure (\<lambda>(items, start, p, steps, rules, cnt). length items - cnt)" by simp
qed simp

declare extend_count.simps [simp del]

definition try_build_repeat :: "item list \<Rightarrow> u64 list \<Rightarrow> nat \<Rightarrow> nat \<Rightarrow> item option" where
  "try_build_repeat items hashes start p =
    (if p = 0 \<or> length items < start + 2 * p then None
     else if \<not> list_all (\<lambda>j. hashes ! (start + j) = hashes ! (start + p + j)) [0..<p] then None
     else
       let s0 = block_struct items start p;
           o0 = block_operands items start p; o1 = block_operands items (start + p) p in
       if length o0 \<noteq> length o1 \<or> block_struct items (start + p) p \<noteq> s0 then None
       else
         let steps = map2 (\<lambda>a b. ucast b - ucast a) o0 o1;
             n0 = block_notes items start p; n1 = block_notes items (start + p) p in
         if length n0 \<noteq> length n1 then None
         else case derive_rules n0 n1 of None \<Rightarrow> None
           | Some rules \<Rightarrow>
               let cnt = extend_count items start p steps rules 2 in
               Some (Repeat (of_nat cnt) (block items start p) steps rules))"

section \<open>A pass\<close>

definition MAX_PERIOD_TRIES :: nat where "MAX_PERIOD_TRIES = 8"
definition HASH_CHECK_CAP :: nat where "HASH_CHECK_CAP = 32"
definition MAX_ROLL_PASSES :: nat where "MAX_ROLL_PASSES = 64"

definition next_same :: "u64 list \<Rightarrow> nat option list" where
  "next_same hashes = snd (fold (\<lambda>i (last, next).
      (bt_insert (hashes ! i) i last, next[i := bt_get last (hashes ! i)]))
    (rev [0..<length hashes]) ([], replicate (length hashes) None))"

definition block_hashes_match :: "u64 list \<Rightarrow> nat \<Rightarrow> nat \<Rightarrow> bool" where
  "block_hashes_match hashes i p \<longleftrightarrow>
     \<not> (p = 0 \<or> length hashes < i + 2 * p) \<and>
     list_all (\<lambda>j. hashes ! (i + j) = hashes ! (i + p + j)) [0..<min p HASH_CHECK_CAP]"

function find_period :: "nat option list \<Rightarrow> u64 list \<Rightarrow> nat \<Rightarrow> nat \<Rightarrow> nat option \<Rightarrow> nat" where
  "find_period next hashes i tries c =
    (case c of None \<Rightarrow> USIZE_MAX
     | Some j \<Rightarrow>
         if MAX_PERIOD_TRIES \<le> tries then USIZE_MAX
         else if block_hashes_match hashes i (j - i) then j - i
         else find_period next hashes i (tries + 1) (next ! j))"
  by pat_completeness auto
termination by (relation "measure (\<lambda>(next, hashes, i, tries, c). MAX_PERIOD_TRIES - tries)") auto

declare find_period.simps [simp del]

definition candidates :: "u64 list \<Rightarrow> nat list" where
  "candidates hashes =
    (let next = next_same hashes in map (\<lambda>i. find_period next hashes i 0 (next ! i)) [0..<length hashes])"

fun item_count :: "item \<Rightarrow> nat" where
  "item_count (Repeat cnt body steps notes) = unat cnt"
| "item_count (Op op) = 0"

text \<open>What position \<open>i\<close> is rolled into, if anything.\<close>

definition roll_at :: "item list \<Rightarrow> u64 list \<Rightarrow> nat list \<Rightarrow> nat list list \<Rightarrow> nat \<Rightarrow> item option" where
  "roll_at items hashes cand rmq i =
    (let p = cand ! i in
     if p = USIZE_MAX then None
     else if sparse_min rmq (i + 1) (i + p) < p then None
     else try_build_repeat items hashes i p)"

type_synonym roll_acc = "item list \<times> u64 list \<times> bool"

partial_function (option) roll_loop ::
  "item list \<Rightarrow> u64 list \<Rightarrow> nat list \<Rightarrow> nat list list \<Rightarrow> nat \<Rightarrow> roll_acc \<Rightarrow> roll_acc option" where
  "roll_loop items hashes cand rmq i acc =
    (if length items \<le> i then Some acc
     else case acc of (out, out_hashes, changed) \<Rightarrow>
       (case roll_at items hashes cand rmq i of
          Some item \<Rightarrow> roll_loop items hashes cand rmq (i + cand ! i * item_count item)
            (out @ [item], out_hashes @ [item_hash item], True)
        | None \<Rightarrow> roll_loop items hashes cand rmq (i + 1)
            (out @ [items ! i], out_hashes @ [hashes ! i], changed)))"

definition roll_pass :: "item list \<Rightarrow> u64 list \<Rightarrow> roll_acc option" where
  "roll_pass items hashes =
    (if length items < 2 then Some (items, hashes, False)
     else let cand = candidates hashes in
       roll_loop items hashes cand (sparse_new cand) 0 ([], [], False))"

section \<open>Passes and the encoder\<close>

fun roll_passes :: "nat \<Rightarrow> item list \<Rightarrow> u64 list \<Rightarrow> item list option" where
  "roll_passes 0 items hashes = Some items"
| "roll_passes (Suc n) items hashes =
     (case roll_pass items hashes of None \<Rightarrow> None
      | Some (items, hashes, changed) \<Rightarrow> if \<not> changed then Some items else roll_passes n items hashes)"

definition roll_stream :: "opcode list \<Rightarrow> item list option" where
  "roll_stream ops =
    (let items = map Op ops; hashes = map item_hash items in roll_passes MAX_ROLL_PASSES items hashes)"

definition roll_and_encode_ops_compact :: "opcode list \<Rightarrow> (field_const, u32) btree \<Rightarrow> u8 list option" where
  "roll_and_encode_ops_compact ops pool =
    (case roll_stream ops of None \<Rightarrow> None
     | Some items \<Rightarrow> Some (put_len (length items) @ concat (map (put_item_compact (Some pool)) items)))"

end
