(* ===== verification/Roll_Shape.thy ===== *)
theory Roll_Shape
  imports Roll
begin

text \<open>
  What a rolled block is made of: its shape (operands zeroed, notes dropped), its operands and
  its notes. An item is determined by the three; a traversal keeps the shape and visits the
  operands left to right; the structural bytes of flat opcodes determine the shape, since they
  are the encoding of an opcode with zeroed operands.
\<close>

section \<open>Operands and shapes\<close>

definition lc_operands :: "lin_comb \<Rightarrow> u32 list" where
  "lc_operands l = map t_var (lc_terms l)"

definition lcs_operands :: "lin_comb list \<Rightarrow> u32 list" where
  "lcs_operands ls = concat (map lc_operands ls)"

fun wop_operands :: "witness_op \<Rightarrow> u32 list" where
  "wop_operands (Product out left right) = [out] @ lc_operands left @ lc_operands right @ []"
| "wop_operands (Linear out l) = [out] @ lc_operands l @ []"
| "wop_operands (Xor out a b) = [out] @ lc_operands a @ lc_operands b @ []"
| "wop_operands (Or out a b) = [out] @ lc_operands a @ lc_operands b @ []"
| "wop_operands (Inverse out input) = [out] @ lc_operands input @ []"
| "wop_operands (InverseOrZero out input) = [out] @ lc_operands input @ []"
| "wop_operands (Bit out input index) = [out] @ lc_operands input @ [index] @ []"
| "wop_operands (Bits outs input) = outs @ lc_operands input @ []"
| "wop_operands (DivRem q r num den) = [q] @ [r] @ lc_operands num @ lc_operands den @ []"
| "wop_operands (MulModDivMod q r a b modulus limb_bits) =
     q @ r @ lcs_operands a @ lcs_operands b @ lcs_operands modulus @ []"
| "wop_operands (ModInverse out a modulus limb_bits) = out @ lcs_operands a @ lcs_operands modulus @ []"
| "wop_operands (FakeGlv out u modulus lambda limb_bits) =
     out @ lcs_operands u @ lcs_operands modulus @ lcs_operands lambda @ []"
| "wop_operands (Sub2 qabs r a b c modulus limb_bits) =
     [qabs] @ r @ lcs_operands a @ lcs_operands b @ lcs_operands c @ lcs_operands modulus @ []"

fun op_operands :: "opcode \<Rightarrow> u32 list" where
  "op_operands (Constraint r) = lc_operands (r_a r) @ lc_operands (r_b r) @ lc_operands (r_c r) @ []"
| "op_operands (Witness w) = wop_operands w"

fun operands :: "item \<Rightarrow> u32 list" where
  "operands (Op op) = op_operands op"
| "operands (Repeat cnt body steps ns) = concat (map operands body)"

fun op_notes :: "opcode \<Rightarrow> string option list" where
  "op_notes (Constraint r) = [r_note r]"
| "op_notes (Witness w) = []"

fun notes_of :: "item \<Rightarrow> string option list" where
  "notes_of (Op op) = op_notes op"
| "notes_of (Repeat cnt body steps ns) = concat (map notes_of body)"

definition lc_erase :: "lin_comb \<Rightarrow> lin_comb" where
  "lc_erase l = l\<lparr>lc_terms := map (\<lambda>t. t\<lparr>t_var := 0\<rparr>) (lc_terms l)\<rparr>"

fun zero_index :: "witness_op \<Rightarrow> witness_op" where
  "zero_index (Bit out input index) = Bit out input 0"
| "zero_index w = w"

definition erase_wop :: "witness_op \<Rightarrow> witness_op" where
  "erase_wop w = zero_index (wg_map lc_erase (\<lambda>_. 0) w)"

fun erase_op :: "opcode \<Rightarrow> opcode" where
  "erase_op (Constraint r) = Constraint
     \<lparr>r_a = lc_erase (r_a r), r_b = lc_erase (r_b r), r_c = lc_erase (r_c r), r_note = None\<rparr>"
| "erase_op (Witness w) = Witness (erase_wop w)"

fun shape :: "item \<Rightarrow> item" where
  "shape (Op op) = Op (erase_op op)"
| "shape (Repeat cnt body steps ns) = Repeat cnt (map shape body) steps ns"

section \<open>Traversals keep the shape\<close>

definition yields :: "(u32 \<Rightarrow> ('s, u32) visit) \<Rightarrow> ('s, 'a) visit \<Rightarrow> u32 list \<Rightarrow> ('a \<Rightarrow> u32 list \<Rightarrow> bool) \<Rightarrow> bool" where
  "yields f m xs P \<longleftrightarrow> (\<forall>s. case visit_list f xs s of None \<Rightarrow> m s = None
     | Some (ys, s') \<Rightarrow> \<exists>a. m s = Some (a, s') \<and> P a ys)"

lemma visit_list_append:
  "visit_list f (xs @ ys) = vbind (visit_list f xs) (\<lambda>as. vbind (visit_list f ys) (\<lambda>bs. vreturn (as @ bs)))"
proof (rule ext)
  show "visit_list f (xs @ ys) s = vbind (visit_list f xs) (\<lambda>as. vbind (visit_list f ys) (\<lambda>bs. vreturn (as @ bs))) s" for s
    by (induction xs arbitrary: s) (auto simp: vbind_def vreturn_def split: option.splits)
qed

lemma yields_return: "P a [] \<Longrightarrow> yields f (vreturn a) [] P"
  by (simp add: yields_def vreturn_def)

lemma yields_bind:
  assumes "yields f m xs P" "\<And>a ys. P a ys \<Longrightarrow> yields f (k a) zs (\<lambda>b ws. Q b (ys @ ws))"
  shows "yields f (vbind m k) (xs @ zs) Q"
  unfolding yields_def
proof
  fix s
  show "case visit_list f (xs @ zs) s of None \<Rightarrow> vbind m k s = None
    | Some (ys, s') \<Rightarrow> \<exists>a. vbind m k s = Some (a, s') \<and> Q a ys"
  proof (cases "visit_list f xs s")
    case None
    then have "m s = None" using assms(1) [unfolded yields_def, THEN spec, of s] by simp
    then show ?thesis using None by (simp add: visit_list_append vbind_def)
  next
    case (Some p)
    obtain ys t where ys: "visit_list f xs s = Some (ys, t)" using Some by (cases p) auto
    obtain a where a: "m s = Some (a, t)" "P a ys"
      using assms(1) [unfolded yields_def, THEN spec, of s] ys by auto
    have "case visit_list f zs t of None \<Rightarrow> k a t = None | Some (ws, s') \<Rightarrow> \<exists>b. k a t = Some (b, s') \<and> Q b (ys @ ws)"
      using assms(2) [OF a(2)] unfolding yields_def by (rule spec)
    moreover have "vbind m k s = k a t" using a(1) by (simp add: vbind_def)
    moreover have "visit_list f (xs @ zs) s = map_option (\<lambda>(ws, u). (ys @ ws, u)) (visit_list f zs t)"
      using ys by (cases "visit_list f zs t") (auto simp: visit_list_append vbind_def vreturn_def)
    ultimately show ?thesis by (cases "visit_list f zs t") auto
  qed
qed

lemma yields_one: "yields f (f x) [x] (\<lambda>a ys. ys = [a])"
  by (auto simp: yields_def vbind_def vreturn_def split: option.splits)

lemma visit_list_length: "visit_list f xs s = Some (ys, t) \<Longrightarrow> length ys = length xs"
  by (induction xs arbitrary: s ys t) (auto simp: vbind_Some)

lemma yields_ids: "yields f (visit_list f xs) xs (\<lambda>as ys. ys = as \<and> length as = length xs)"
  by (auto simp: yields_def dest: visit_list_length split: option.splits)

lemma yields_visit_list:
  assumes "\<And>x. yields f (g x) (get x) (\<lambda>x' ys. er x' = er x \<and> get x' = ys)"
  shows "yields f (visit_list g xs) (concat (map get xs)) (\<lambda>xs' ys. map er xs' = map er xs \<and> concat (map get xs') = ys)"
proof (induction xs)
  case Nil
  then show ?case by (simp add: yields_return)
next
  case (Cons x xs)
  have "yields f (vbind (g x) (\<lambda>x. vbind (visit_list g xs) (\<lambda>xs. vreturn (x # xs))))
     (get x @ concat (map get xs) @ []) (\<lambda>xs' ys. map er xs' = map er (x # xs) \<and> concat (map get xs') = ys)"
    by (rule yields_bind [OF assms], rule yields_bind [OF Cons.IH], rule yields_return) auto
  then show ?case by simp
qed

lemma yields_lc: "yields f (visit_lc f l) (lc_operands l) (\<lambda>l' ys. lc_erase l' = lc_erase l \<and> lc_operands l' = ys)"
proof -
  have one: "yields f (vbind (f (t_var t)) (\<lambda>v. vreturn (t\<lparr>t_var := v\<rparr>))) [t_var t]
      (\<lambda>t' ys. t'\<lparr>t_var := 0\<rparr> = t\<lparr>t_var := 0\<rparr> \<and> [t_var t'] = ys)" for t :: lc_term
  proof -
    have "yields f (vbind (f (t_var t)) (\<lambda>v. vreturn (t\<lparr>t_var := v\<rparr>))) ([t_var t] @ [])
        (\<lambda>t' ys. t'\<lparr>t_var := 0\<rparr> = t\<lparr>t_var := 0\<rparr> \<and> [t_var t'] = ys)"
      by (rule yields_bind [OF yields_one], rule yields_return) simp
    then show ?thesis by simp
  qed
  have "concat (map (\<lambda>t. [t_var t]) ts) = map t_var ts" for ts :: "lc_term list" by (induction ts) simp_all
  then have "yields f (vbind (visit_list (\<lambda>t. vbind (f (t_var t)) (\<lambda>v. vreturn (t\<lparr>t_var := v\<rparr>))) (lc_terms l))
      (\<lambda>ts. vreturn (l\<lparr>lc_terms := ts\<rparr>))) (map t_var (lc_terms l) @ [])
      (\<lambda>l' ys. lc_erase l' = lc_erase l \<and> lc_operands l' = ys)"
    using yields_visit_list [OF one, of "lc_terms l"]
    by (intro yields_bind [where P = "\<lambda>ts ys. map (\<lambda>t. t\<lparr>t_var := 0\<rparr>) ts = map (\<lambda>t. t\<lparr>t_var := 0\<rparr>) (lc_terms l) \<and> map t_var ts = ys"]
        yields_return) (auto simp: lc_erase_def lc_operands_def)
  then show ?thesis by (simp add: visit_lc_def lc_operands_def)
qed

lemmas yields_lcs = yields_visit_list [OF yields_lc, folded lcs_operands_def]

lemma yields_witness:
  "yields f (visit_witness f w) (wop_operands w) (\<lambda>w' ys. erase_wop w' = erase_wop w \<and> wop_operands w' = ys)"
  by (cases w; simp only: visit_witness.simps wop_operands.simps;
      (rule yields_bind [OF yields_one] yields_bind [OF yields_lc] yields_bind [OF yields_lcs]
        yields_bind [OF yields_ids])+;
      rule yields_return; (auto simp: erase_wop_def map_replicate_const))

lemma yields_op:
  "yields f (visit_opcode_operands f op) (op_operands op)
    (\<lambda>op' ys. erase_op op' = erase_op op \<and> op_operands op' = ys \<and> op_notes op' = op_notes op)"
proof (cases op)
  case (Constraint r)
  have "yields f (visit_r1csrow f r) (op_operands (Constraint r)) (\<lambda>r' ys. erase_op (Constraint r') = erase_op (Constraint r) \<and>
      op_operands (Constraint r') = ys \<and> r_note r' = r_note r)"
    unfolding visit_r1csrow_def op_operands.simps
    by (rule yields_bind [OF yields_lc], rule yields_bind [OF yields_lc], rule yields_bind [OF yields_lc],
        rule yields_return) auto
  then have "yields f (vbind (visit_r1csrow f r) (\<lambda>r. vreturn (Constraint r))) (op_operands (Constraint r) @ [])
    (\<lambda>op' ys. erase_op op' = erase_op op \<and> op_operands op' = ys \<and> op_notes op' = op_notes op)"
    by (rule yields_bind) (rule yields_return, simp add: Constraint)
  then show ?thesis by (simp only: Constraint append_Nil2 visit_opcode_operands.simps)
next
  case (Witness w)
  have "yields f (vbind (visit_witness f w) (\<lambda>w. vreturn (Witness w))) (wop_operands w @ [])
    (\<lambda>op' ys. erase_op op' = erase_op op \<and> op_operands op' = ys \<and> op_notes op' = op_notes op)"
    by (rule yields_bind [OF yields_witness]) (rule yields_return, simp add: Witness)
  then show ?thesis by (simp only: Witness append_Nil2 visit_opcode_operands.simps op_operands.simps)
qed

definition like :: "item \<Rightarrow> item \<Rightarrow> bool" where
  "like a b \<longleftrightarrow> shape a = shape b \<and> notes_of a = notes_of b"

lemma yields_item:
  "yields (shift_operand k steps) (shift_item_operands k steps it) (operands it)
    (\<lambda>it' ys. (shape it' = shape it \<and> notes_of it' = notes_of it) \<and> operands it' = ys)"
  "yields (shift_operand k steps) (shift_items_operands k steps its) (concat (map operands its))
    (\<lambda>its' ys. (map shape its' = map shape its \<and> map notes_of its' = map notes_of its) \<and> concat (map operands its') = ys)"
proof (induction it and its rule: shift_item_operands_shift_items_operands.induct)
  case (1 k steps op)
  have "yields (shift_operand k steps) (shift_item_operands k steps (Op op)) (op_operands op @ [])
    (\<lambda>it' ys. (shape it' = shape (Op op) \<and> notes_of it' = notes_of (Op op)) \<and> operands it' = ys)"
    unfolding shift_item_operands.simps by (rule yields_bind [OF yields_op]) (rule yields_return, simp)
  then show ?case by simp
next
  case (2 k steps cnt body isteps ns)
  have "yields (shift_operand k steps) (shift_item_operands k steps (Repeat cnt body isteps ns))
    (concat (map operands body) @ [])
    (\<lambda>it' ys. (shape it' = shape (Repeat cnt body isteps ns) \<and> notes_of it' = notes_of (Repeat cnt body isteps ns)) \<and> operands it' = ys)"
    unfolding shift_item_operands.simps by (rule yields_bind [OF 2]) (rule yields_return, simp)
  then show ?case by simp
next
  case (3 k steps)
  show ?case by (simp add: yields_return)
next
  case (4 k steps it its)
  have "yields (shift_operand k steps) (shift_items_operands k steps (it # its))
    (operands it @ concat (map operands its) @ [])
    (\<lambda>its' ys. (map shape its' = map shape (it # its) \<and> map notes_of its' = map notes_of (it # its)) \<and> concat (map operands its') = ys)"
    unfolding shift_items_operands.simps
    by (rule yields_bind [OF 4(1)], rule yields_bind [OF 4(2)], rule yields_return) auto
  then show ?case by simp
qed

section \<open>Collecting\<close>

lemma visit_list_push: "visit_list push_operand xs out = Some (xs, out @ xs)"
  by (induction xs arbitrary: out) (simp_all add: vbind_def vreturn_def push_operand_def)

lemma item_operands_eq:
  "item_operands it out = out @ operands it"
  "items_operands its out = out @ concat (map operands its)"
proof (induction it out and its out rule: item_operands_items_operands.induct)
  case (1 op out)
  have "\<exists>op'. visit_opcode_operands push_operand op out = Some (op', out @ op_operands op)"
    using yields_op [of push_operand op, unfolded yields_def, THEN spec, of out] by (auto simp: visit_list_push)
  then show ?case by auto
qed simp_all

lemma item_notes_eq:
  "item_notes it out = out @ notes_of it"
  "items_notes its out = out @ concat (map notes_of its)"
  by (induction it out and its out rule: item_notes_items_notes.induct) simp_all

section \<open>Shape, operands and notes determine an item\<close>

lemma lc_erase_length: "lc_erase a = lc_erase b \<Longrightarrow> length (lc_operands a) = length (lc_operands b)"
  by (drule arg_cong [where f = "\<lambda>l. length (lc_terms l)"]) (simp add: lc_erase_def lc_operands_def)

lemma lc_determined: "lc_erase a = lc_erase b \<Longrightarrow> lc_operands a = lc_operands b \<longleftrightarrow> a = b"
proof -
  have terms: "map (\<lambda>t. t\<lparr>t_var := 0\<rparr>) as = map (\<lambda>t. t\<lparr>t_var := 0\<rparr>) bs \<Longrightarrow> map t_var as = map t_var bs \<Longrightarrow> as = bs"
    for as bs :: "lc_term list"
  proof (induction as arbitrary: bs)
    case (Cons t as)
    then obtain u us where bs: "bs = u # us" by (cases bs) auto
    then have "t = u" using Cons.prems by (cases t; cases u) simp
    then show ?case using Cons bs by simp
  qed simp
  assume "lc_erase a = lc_erase b"
  then show ?thesis using terms [of "lc_terms a" "lc_terms b"]
    by (cases a; cases b) (auto simp: lc_erase_def lc_operands_def)
qed

lemma lcs_erase_length:
  "map lc_erase as = map lc_erase bs \<Longrightarrow> length (lcs_operands as) = length (lcs_operands bs)"
proof (induction as arbitrary: bs)
  case (Cons a as)
  then obtain b bs' where "bs = b # bs'" by (cases bs) auto
  then show ?case using Cons lc_erase_length [of a b] by (auto simp: lcs_operands_def)
qed (simp add: lcs_operands_def)

lemma lcs_determined: "map lc_erase as = map lc_erase bs \<Longrightarrow> lcs_operands as = lcs_operands bs \<longleftrightarrow> as = bs"
proof (induction as arbitrary: bs)
  case (Cons a as)
  then obtain b bs' where "bs = b # bs'" by (cases bs) auto
  then show ?case using Cons lc_erase_length [of a b] lc_determined [of a b] by (auto simp: lcs_operands_def)
qed (simp add: lcs_operands_def)

lemma erase_facts:
  "map (\<lambda>_. 0 :: u32) vs = map (\<lambda>_. 0) ws \<Longrightarrow> length vs = length ws"
  "lc_erase a = lc_erase b \<Longrightarrow>
    length (lc_operands a) = length (lc_operands b) \<and> (lc_operands a = lc_operands b \<longleftrightarrow> a = b)"
  "map lc_erase as = map lc_erase bs \<Longrightarrow>
    length (lcs_operands as) = length (lcs_operands bs) \<and> (lcs_operands as = lcs_operands bs \<longleftrightarrow> as = bs)"
  using map_eq_imp_length_eq [of "\<lambda>_. 0 :: u32" vs "\<lambda>_. 0" ws] lc_erase_length [of a b] lc_determined [of a b]
    lcs_erase_length [of as bs] lcs_determined [of as bs] by blast+

lemma wop_determined:
  assumes "erase_wop a = erase_wop b"
  shows "length (wop_operands a) = length (wop_operands b) \<and> (wop_operands a = wop_operands b \<longrightarrow> a = b)"
  using assms
  by (cases a; cases b; simp add: erase_wop_def del: map_eq_conv)
    (((elim conjE)?, (drule erase_facts)+, simp)+)

lemma op_determined:
  assumes "erase_op a = erase_op b"
  shows "length (op_operands a) = length (op_operands b) \<and> length (op_notes a) = length (op_notes b) \<and>
    (op_operands a = op_operands b \<longrightarrow> op_notes a = op_notes b \<longrightarrow> a = b)"
proof (cases a)
  case (Constraint r)
  obtain r' where b: "b = Constraint r'" using assms Constraint by (cases b) auto
  have "lc_erase (r_a r) = lc_erase (r_a r')" "lc_erase (r_b r) = lc_erase (r_b r')" "lc_erase (r_c r) = lc_erase (r_c r')"
    using assms Constraint b by simp_all
  note facts = this [THEN erase_facts(2)]
  show ?thesis unfolding Constraint b using facts by (cases r; cases r') auto
next
  case (Witness w)
  obtain w' where b: "b = Witness w'" using assms Witness by (cases b) auto
  then show ?thesis using wop_determined [of w w'] assms Witness by simp
qed

definition determined :: "item list \<Rightarrow> item list \<Rightarrow> bool" where
  "determined as bs \<longleftrightarrow>
    length (concat (map operands as)) = length (concat (map operands bs)) \<and>
    length (concat (map notes_of as)) = length (concat (map notes_of bs)) \<and>
    (concat (map operands as) = concat (map operands bs) \<longrightarrow>
     concat (map notes_of as) = concat (map notes_of bs) \<longrightarrow> as = bs)"

lemma determined_Cons: "determined [a] [b] \<Longrightarrow> determined as bs \<Longrightarrow> determined (a # as) (b # bs)"
  by (simp add: determined_def)

lemma items_determined:
  assumes "\<And>a b. a \<in> set as \<Longrightarrow> shape a = shape b \<Longrightarrow> determined [a] [b]" "map shape as = map shape bs"
  shows "determined as bs"
  using assms
proof (induction as arbitrary: bs)
  case Nil
  then show ?case by (simp add: determined_def)
next
  case (Cons a as)
  then obtain b bs' where bs: "bs = b # bs'" "shape a = shape b" "map shape as = map shape bs'" by (cases bs) auto
  have "determined [a] [b]" using Cons.prems(1) bs by simp
  moreover have "determined as bs'" using Cons bs by simp
  ultimately show ?case unfolding bs by (rule determined_Cons)
qed

lemma item_determined: "shape a = shape b \<Longrightarrow> determined [a] [b]"
proof (induction a arbitrary: b)
  case (Op op)
  then obtain op' where "b = Op op'" by (cases b) auto
  then show ?case using Op op_determined [of op op'] by (simp add: determined_def)
next
  case (Repeat cnt body steps ns)
  then obtain body' where b: "b = item.Repeat cnt body' steps ns" "map shape body = map shape body'"
    by (cases b) auto
  have "determined body body'" using Repeat.IH b(2) by (rule items_determined)
  then show ?case unfolding b by (simp add: determined_def)
qed

lemma block_determined: "map shape as = map shape bs \<Longrightarrow> determined as bs"
  by (rule items_determined [OF item_determined])

section \<open>Structural bytes of opcodes\<close>

fun struct_op :: "opcode \<Rightarrow> opcode" where
  "struct_op (Constraint r) = Constraint \<lparr>r_a = lc_erase (r_a r), r_b = lc_erase (r_b r), r_c = lc_erase (r_c r),
     r_note = map_option blank_digits (r_note r)\<rparr>"
| "struct_op (Witness w) = Witness (erase_wop w)"

lemma put_zero: "put_ivarint 0 = put_vu32 0"
  by (simp add: put_ivarint_def put_vu32_def)

lemma put_lc_struct_eq: "put_lc_struct l = put_lc None (lc_erase l)"
proof -
  have "put_terms None 0 (map (\<lambda>t. t\<lparr>t_var := 0\<rparr>) ts) = concat (map (\<lambda>t. put_fieldconst None (t_coeff t) @ put_vu32 0) ts)"
    for ts :: "lc_term list"
    by (induction ts) (simp_all add: put_zero)
  then show ?thesis by (simp add: put_lc_struct_def put_lc_def lc_erase_def)
qed

lemma put_lcs_struct_eq: "put_lcs_struct ls = put_lcs None (map lc_erase ls)"
proof -
  have "put_lc_struct = put_lc None \<circ> lc_erase" by (rule ext) (simp add: put_lc_struct_eq)
  then show ?thesis by (simp add: put_lcs_struct_def put_lcs_def)
qed

lemma put_var_ids_struct_eq: "put_var_ids_struct ids = put_var_ids (map (\<lambda>_. 0) ids)"
proof -
  have "put_ids 0 (map (\<lambda>_. 0) ids) = concat (map (\<lambda>_. put_vu32 0) ids)" for ids :: "var_id list"
    by (induction ids) (simp_all add: put_zero)
  then show ?thesis by (simp add: put_var_ids_struct_def put_var_ids_def)
qed

lemmas put_struct_eqs = put_lc_struct_eq put_lcs_struct_eq put_var_ids_struct_eq

lemma put_opcode_struct_eq: "put_opcode_struct op = put_opcode None (struct_op op)"
proof (cases op)
  case (Constraint r)
  then show ?thesis by (auto simp: put_struct_eqs put_r1csrow_def split: option.splits)
next
  case (Witness w)
  then show ?thesis by (cases w) (simp_all add: put_struct_eqs erase_wop_def)
qed

lemma erase_struct: "struct_op a = struct_op b \<Longrightarrow> erase_op a = erase_op b"
  by (cases a; cases b) auto

lemma lc_ok_erase [simp]: "lc_ok (lc_erase l) = lc_ok l"
  by (simp add: lc_ok_def lc_erase_def short_def list_all_iff)

lemma lcs_ok_erase [simp]: "lcs_ok (map lc_erase ls) = lcs_ok ls"
  by (simp add: lcs_ok_def list_all_iff)

lemma short_map [simp]: "short (map f xs) = short xs"
  by (simp add: short_def)

fun blank_bytes :: "bool \<Rightarrow> u8 list \<Rightarrow> u8 list" where
  "blank_bytes d [] = []"
| "blank_bytes d (b # bs) =
     (if 0x30 \<le> b \<and> b \<le> 0x39 then (if d then blank_bytes True bs else 0x23 # blank_bytes True bs)
      else b # blank_bytes False bs)"

lemma digit_byte: "is_ascii_digit c \<longleftrightarrow> 0x30 \<le> (of_char c :: u8) \<and> (of_char c :: u8) \<le> 0x39"
proof -
  have "(of_char c :: u8) = of_nat (of_char c)" by (simp only: of_nat_of_char)
  moreover have "(of_char c :: nat) < 2 ^ 8" using nat_of_char_less_256 [of c] by simp
  ultimately have "unat (of_char c :: u8) = of_char c" by (simp add: unat_of_nat take_bit_nat_eq_self)
  then show ?thesis by (simp add: is_ascii_digit_def word_le_nat_alt)
qed

lemma str_bytes_blank: "str_bytes (blank_from d s) = blank_bytes d (str_bytes s)"
proof (induction s arbitrary: d)
  case (Cons c s)
  have "(of_char (CHR ''#'') :: u8) = 0x23" by simp
  then show ?case using Cons by (auto simp: str_bytes_def digit_byte)
qed (simp add: str_bytes_def)

lemma high_byte: "0x80 \<le> c \<Longrightarrow> \<not> (0x30 \<le> c \<and> c \<le> 0x39)" for c :: u8
  by unat_arith

text \<open>One longer character: bytes from 0x80 on, and the rest is free.\<close>

definition char_split :: "u8 \<Rightarrow> u8 list \<Rightarrow> u8 list \<Rightarrow> u8 list \<Rightarrow> bool" where
  "char_split b bs xs ys \<longleftrightarrow> bs = xs @ ys \<and> list_all (\<lambda>c. 0x80 \<le> c) xs \<and> utf8_valid ys \<and>
     (\<forall>zs. utf8_valid zs \<longrightarrow> utf8_valid (b # xs @ zs))"

lemma utf8_split:
  assumes "utf8_valid (b # bs)" "\<not> b < 0x80"
  shows "\<exists>xs ys. char_split b bs xs ys"
proof -
  have a: "0xA0 \<le> c \<Longrightarrow> 0x80 \<le> c" "0x90 \<le> c \<Longrightarrow> 0x80 \<le> c" for c :: u8 by unat_arith+
  obtain b1 bs1 where b1: "bs = b1 # bs1" using assms by (cases bs) auto
  show ?thesis
  proof (cases "0xC2 \<le> b \<and> b \<le> 0xDF")
    case True
    then have "char_split b bs [b1] bs1" using assms b1 by (simp add: char_split_def utf8_tail_def)
    then show ?thesis by blast
  next
    case c2: False
    then obtain b2 bs2 where b2: "bs1 = b2 # bs2" using assms b1 by (cases bs1) (auto split: if_splits)
    show ?thesis
    proof (cases "b = 0xE0 \<or> b = 0xED \<or> 0xE1 \<le> b \<and> b \<le> 0xEF")
      case True
      have "char_split b bs [b1, b2] bs2" using assms b1 b2 c2 True
        by (auto simp: char_split_def utf8_tail_def a split: if_splits)
      then show ?thesis by blast
    next
      case c3: False
      then obtain b3 bs3 where b3: "bs2 = b3 # bs3" using assms b1 b2 c2 by (cases bs2) (auto split: if_splits)
      have eq: "utf8_valid (b # b1 # b2 # b3 # zs) \<longleftrightarrow>
          (if b = 0xF0 then 0x90 \<le> b1 \<and> b1 \<le> 0xBF else if b = 0xF4 then 0x80 \<le> b1 \<and> b1 \<le> 0x8F
           else 0xF1 \<le> b \<and> b \<le> 0xF3 \<and> utf8_tail b1) \<and> utf8_tail b2 \<and> utf8_tail b3 \<and> utf8_valid zs" for zs
        using assms(2) c2 c3 unfolding utf8_valid.simps list.case by (simp only: if_False de_Morgan_disj)
      have v: "(if b = 0xF0 then 0x90 \<le> b1 \<and> b1 \<le> 0xBF else if b = 0xF4 then 0x80 \<le> b1 \<and> b1 \<le> 0x8F
           else 0xF1 \<le> b \<and> b \<le> 0xF3 \<and> utf8_tail b1) \<and> utf8_tail b2 \<and> utf8_tail b3 \<and> utf8_valid bs3"
        using assms(1) unfolding b1 b2 b3 eq .
      then have "0x80 \<le> b1" using a by (auto simp: utf8_tail_def split: if_splits)
      moreover have "0x80 \<le> b2" "0x80 \<le> b3" using v by (simp_all add: utf8_tail_def)
      ultimately have "char_split b bs [b1, b2, b3] bs3"
        unfolding char_split_def b1 b2 b3 append_Cons append_Nil eq using v by simp
      then show ?thesis by blast
    qed
  qed
qed

lemma blank_bytes_high:
  "list_all (\<lambda>c. 0x80 \<le> c) xs \<Longrightarrow> xs \<noteq> [] \<Longrightarrow> blank_bytes d (xs @ ys) = xs @ blank_bytes False ys"
proof (induction xs arbitrary: d)
  case (Cons c xs)
  have "blank_bytes d (c # zs) = c # blank_bytes False zs" for zs
    using high_byte [of c] Cons.prems by (simp only: blank_bytes.simps list.pred_inject if_False)
  then show ?case using Cons by (cases "xs = []") simp_all
qed simp

lemma utf8_blank: "utf8_valid bs \<Longrightarrow> utf8_valid (blank_bytes d bs)"
proof (induction "length bs" arbitrary: bs d rule: less_induct)
  case less
  show ?case
  proof (cases bs)
    case (Cons b bs')
    show ?thesis
    proof (cases "b < 0x80")
      case True
      then have "utf8_valid (blank_bytes e bs')" for e using less Cons by simp
      then show ?thesis using True Cons by simp
    next
      case False
      obtain xs ys where s: "char_split b bs' xs ys" using utf8_split False less.prems Cons by blast
      then have "utf8_valid (blank_bytes False ys)" using less.hyps [of ys False] Cons by (simp add: char_split_def)
      moreover have "blank_bytes d bs = b # xs @ blank_bytes False ys"
        using s False Cons blank_bytes_high [of "b # xs" d ys] by (simp add: char_split_def not_less)
      ultimately show ?thesis using s by (simp add: char_split_def)
    qed
  qed simp
qed

lemma note_ok_blank: "note_ok n \<Longrightarrow> note_ok (map_option blank_digits n)"
proof -
  have "length (blank_from d s) \<le> length s" for d s by (induction s arbitrary: d) (auto intro: le_SucI)
  then have "length (blank_digits s) \<le> length s" for s by (simp add: blank_digits_def)
  then show "note_ok n \<Longrightarrow> note_ok (map_option blank_digits n)"
    by (auto simp: note_ok_def str_ok_def blank_digits_def str_bytes_blank utf8_blank split: option.splits
        intro: le_less_trans)
qed

lemma op_ok_struct: "op_ok op \<Longrightarrow> op_ok (struct_op op)"
proof (cases op)
  case (Constraint r)
  then show "op_ok op \<Longrightarrow> op_ok (struct_op op)" by (simp add: row_ok_def note_ok_blank)
next
  case (Witness w)
  then show "op_ok op \<Longrightarrow> op_ok (struct_op op)" by (cases w) (simp_all add: erase_wop_def)
qed

text \<open>Blocks of opcodes with the same structural bytes have the same shape.\<close>

lemma reads_unique:
  assumes "reads pool p bs x" "reads pool p bs y" "length bs < 2 ^ 64"
  shows "x = y"
proof -
  let ?cu = "\<lparr>cu_buf = bs, cu_pos = 0, cu_pool = pool\<rparr>"
  have cu: "cursor_ok ?cu" "cu_pool ?cu = pool" "rest ?cu = bs @ []"
    using assms(3) by (simp_all add: cursor_ok_def rest_def)
  show ?thesis using assms(1,2) [unfolded reads_def, rule_format, OF cu] by simp
qed

lemma op_struct_bytes: "item_struct_bytes (Op op) = put_item_compact None (Op (struct_op op))"
  by (simp add: put_opcode_struct_eq)

lemma flat_struct_exact:
  assumes "list_all op_ok as" "list_all op_ok bs" "length as = length bs"
    "concat (map (item_struct_bytes \<circ> Op) as) = concat (map (item_struct_bytes \<circ> Op) bs)"
    "length (concat (map (item_struct_bytes \<circ> Op) as)) < 2 ^ 64"
  shows "map erase_op as = map erase_op bs"
proof -
  have reads: "reads [] (p_repeat (length cs) item_compact) (concat (map (item_struct_bytes \<circ> Op) cs))
      (map (Op \<circ> struct_op) cs)" if "list_all op_ok cs" for cs
    using item_codec.list_reads [where ep = None and pool = "[]" and xs = "map (Op \<circ> struct_op) cs"] that
    by (simp add: list_all_iff op_ok_struct pool_agrees_def op_struct_bytes comp_def del: put_item_compact.simps item_struct_bytes.simps)
  have "map (Op \<circ> struct_op) as = map (Op \<circ> struct_op) bs"
    using reads_unique [OF reads [OF assms(1)], of "map (Op \<circ> struct_op) bs"] reads [OF assms(2)] assms by simp
  then have "map struct_op as = map struct_op bs" by (auto simp: list_eq_iff_nth_eq)
  then show ?thesis by (auto simp: list_eq_iff_nth_eq intro: erase_struct)
qed

end
