(* ===== verification/Roll_Lossless.thy ===== *)
theory Roll_Lossless
  imports Roll_Shape
begin

text \<open>
  Rolling is lossless: a run that \<open>try_build_repeat\<close> collapses expands to the items it
  replaces, so a pass, and every sequence of passes, keeps what a stream expands to.
\<close>

section \<open>Shifting a block\<close>

definition shifted_operand :: "i64 \<Rightarrow> u32 \<Rightarrow> i64 \<Rightarrow> u32" where
  "shifted_operand k x step = (if step \<noteq> 0 then ucast (ucast x + k * step) else x)"

lemma visit_list_shift:
  "idx + length xs \<le> length steps \<Longrightarrow>
    visit_list (shift_operand k steps) xs idx =
      Some (map2 (shifted_operand k) xs (drop idx steps), idx + length xs)"
proof (induction xs arbitrary: idx)
  case (Cons x xs)
  then have "drop idx steps = steps ! idx # drop (Suc idx) steps" by (simp add: Cons_nth_drop_Suc)
  then show ?case using Cons
    by (simp add: vbind_def vreturn_def shift_operand_def shifted_operand_def Let_def)
qed (simp add: vreturn_def)

lemma shift_items_operands_eq:
  assumes "length steps = length (concat (map operands its))"
  shows "\<exists>its'. shift_items_operands k steps its 0 = Some (its', length steps) \<and>
    map shape its' = map shape its \<and> map notes_of its' = map notes_of its \<and>
    concat (map operands its') = map2 (shifted_operand k) (concat (map operands its)) steps"
  using yields_item(2) [of k steps its, unfolded yields_def, THEN spec, of 0]
    visit_list_shift [of 0 "concat (map operands its)" steps k] assms by simp

lemma zip_take_length: "zip (take (length ys) xs) ys = zip xs ys"
proof (induction ys arbitrary: xs)
  case (Cons y ys)
  then show ?case by (cases xs) simp_all
qed simp

lemma shift_notes_eq:
  "idx + length (notes_of it) \<le> length rules \<Longrightarrow> \<exists>it'.
    shift_item_notes k rules it idx = Some (it', idx + length (notes_of it)) \<and>
    shape it' = shape it \<and> operands it' = operands it \<and>
    notes_of it' = map2 (apply_note_rule k) (drop idx rules) (notes_of it)"
  "idx + length (concat (map notes_of its)) \<le> length rules \<Longrightarrow> \<exists>its'.
    shift_items_notes k rules its idx = Some (its', idx + length (concat (map notes_of its))) \<and>
    map shape its' = map shape its \<and> map operands its' = map operands its \<and>
    concat (map notes_of its') = map2 (apply_note_rule k) (drop idx rules) (concat (map notes_of its))"
proof (induction k rules it and k rules its arbitrary: idx and idx
    rule: shift_item_notes_shift_items_notes.induct)
  case (1 k rules op)
  show ?case
  proof (cases op)
    case (Constraint r)
    then have "drop idx rules = rules ! idx # drop (Suc idx) rules" using 1 by (simp add: Cons_nth_drop_Suc)
    then show ?thesis using 1 Constraint by (simp add: vbind_def vreturn_def shift_note_def)
  next
    case (Witness w)
    then show ?thesis by (simp add: vbind_def vreturn_def shift_note_def)
  qed
next
  case (2 k rules cnt body steps inotes)
  then obtain body' where "shift_items_notes k rules body idx = Some (body', idx + length (concat (map notes_of body)))"
    "map shape body' = map shape body" "map operands body' = map operands body"
    "concat (map notes_of body') = map2 (apply_note_rule k) (drop idx rules) (concat (map notes_of body))" by auto
  then show ?case by (simp add: vbind_def vreturn_def)
next
  case (3 k rules)
  then show ?case by (simp add: vreturn_def)
next
  case (4 k rules it its)
  obtain it' where it: "shift_item_notes k rules it idx = Some (it', idx + length (notes_of it))"
    "shape it' = shape it" "operands it' = operands it"
    "notes_of it' = map2 (apply_note_rule k) (drop idx rules) (notes_of it)"
    using 4(1) [of idx] 4(3) by auto
  obtain its' where its: "shift_items_notes k rules its (idx + length (notes_of it)) =
      Some (its', idx + length (notes_of it) + length (concat (map notes_of its)))"
    "map shape its' = map shape its" "map operands its' = map operands its"
    "concat (map notes_of its') =
      map2 (apply_note_rule k) (drop (idx + length (notes_of it)) rules) (concat (map notes_of its))"
    using 4(2) [of "idx + length (notes_of it)"] 4(3) by (auto simp: add.assoc)
  have "map2 (apply_note_rule k) (drop idx rules) (notes_of it @ concat (map notes_of its)) =
      map2 (apply_note_rule k) (drop idx rules) (notes_of it) @
      map2 (apply_note_rule k) (drop (idx + length (notes_of it)) rules) (concat (map notes_of its))"
    using 4(3) by (simp add: zip_append2 zip_take_length add.commute)
  then show ?case using it its by (simp add: vbind_def vreturn_def add.assoc)
qed

lemma emit_body_shifted:
  "shift_items_operands ki steps its oi = Some (its1, oi') \<Longrightarrow>
    shift_items_notes ki rules its1 ni = Some (its2, ni') \<Longrightarrow>
    emit_body ki steps rules its oi ni acc = emit_items its2 acc"
proof (induction its arbitrary: oi ni its1 its2 acc)
  case (Cons it its)
  obtain a oi1 as where a: "shift_item_operands ki steps it oi = Some (a, oi1)"
    "shift_items_operands ki steps its oi1 = Some (as, oi')" "its1 = a # as"
    using Cons.prems(1) by (auto simp: vbind_Some)
  obtain b ni1 bs where b: "shift_item_notes ki rules a ni = Some (b, ni1)"
    "shift_items_notes ki rules as ni1 = Some (bs, ni')" "its2 = b # bs"
    using Cons.prems(2) a(3) by (auto simp: vbind_Some)
  note IH = Cons.IH [OF a(2) b(2)]
  show ?case
  proof (cases it)
    case (Op op)
    obtain op1 where op1: "visit_opcode_operands (shift_operand ki steps) op oi = Some (op1, oi1)" "a = Op op1"
      using a(1) Op by (auto simp: vbind_Some)
    obtain op2 where op2: "shift_note ki rules op1 ni = Some (op2, ni1)" "b = Op op2"
      using b(1) op1 by (auto simp: vbind_Some)
    show ?thesis using Op op1 op2 IH b(3) by simp
  next
    case (Repeat cnt body isteps inotes)
    show ?thesis unfolding Repeat emit_body.simps
      using a(1) b(1,3) IH Repeat by (simp del: shift_item_operands.simps split: option.split)
  qed
qed (auto simp: vreturn_def)

section \<open>Note templates\<close>

lemma concat_tokenize: "concat (map fst (tokenize_runs s)) = s"
proof -
  have push: "concat (map fst (tok_push c runs)) = concat (map fst runs) @ [c]" for c runs
    by (cases runs rule: rev_cases) (auto simp: tok_push_def Let_def)
  have "concat (map fst (fold tok_push s runs)) = concat (map fst runs) @ s" for runs
    by (induction s arbitrary: runs) (simp_all add: push)
  then show ?thesis by (simp add: tokenize_runs_def)
qed

text \<open>Every digit run of the note prints back as it is: no leading zeros, below \<open>2 ^ 127\<close>.\<close>

definition canonical_token :: "string \<times> bool \<Rightarrow> bool" where
  "canonical_token tok \<longleftrightarrow> (snd tok \<longrightarrow>
     (case parse_run (fst tok) of None \<Rightarrow> False | Some z \<Rightarrow> show_int z = fst tok))"

definition canonical_note :: "string option \<Rightarrow> bool" where
  "canonical_note n \<longleftrightarrow> (case n of None \<Rightarrow> True | Some s \<Rightarrow> list_all canonical_token (tokenize_runs s))"

lemma i128_wrap_id: "i128_fits z \<Longrightarrow> i128_wrap z = z"
  by (simp add: i128_wrap_def i128_fits_def signed_take_bit_int_eq_self sint_sbintrunc')

lemma parse_run_fits: "parse_run s = Some z \<Longrightarrow> i128_fits z"
  by (auto simp: parse_run_def split: option.splits if_splits)

lemma template_step_0: "list_all canonical_token toks \<Longrightarrow> template_step 0 run toks = toks"
proof (cases run)
  case (Pair ri step)
  assume toks: "list_all canonical_token toks"
  show ?thesis
  proof (cases "unat ri < length toks \<and> snd (toks ! unat ri)")
    case True
    then have "canonical_token (toks ! unat ri)" using toks by (simp add: list_all_length)
    then obtain z where z: "parse_run (fst (toks ! unat ri)) = Some z" "show_int z = fst (toks ! unat ri)"
      using True by (auto simp: canonical_token_def split: option.splits)
    have "(fst (toks ! unat ri), True) = toks ! unat ri" using True by (simp add: prod_eq_iff)
    then show ?thesis using True z i128_wrap_id [OF parse_run_fits [OF z(1)]]
      by (simp add: template_step_def Pair Let_def)
  next
    case False
    then show ?thesis unfolding template_step_def Pair Let_def prod.case by (rule if_not_P)
  qed
qed

lemma template_0: "canonical_note (Some s) \<Longrightarrow> apply_note_template s 0 runs = s"
proof -
  assume "canonical_note (Some s)"
  then have "fold (template_step 0) runs (tokenize_runs s) = tokenize_runs s"
    by (induction runs) (simp_all add: canonical_note_def template_step_0)
  then show ?thesis by (simp add: apply_note_template_def concat_tokenize)
qed

lemma note_rule_0: "canonical_note n \<Longrightarrow> apply_note_rule 0 rule n = n"
  by (auto simp: apply_note_rule_def template_0 split: note_rule.splits option.splits)

lemma note_rule_1: "derive_note_rule a b = Some rule \<Longrightarrow> apply_note_rule 1 rule a = b"
  by (auto simp: derive_note_rule_def apply_note_rule_def Let_def split: if_splits option.splits)

lemma note_rule_k: "note_rule_ok k rule a b \<Longrightarrow> apply_note_rule (of_nat k) rule a = b"
  by (auto simp: note_rule_ok_def apply_note_rule_def split: note_rule.splits option.splits)

lemma derive_rules_1:
  "derive_rules as bs = Some rules \<Longrightarrow> length as = length bs \<Longrightarrow>
    length rules = length as \<and> map2 (apply_note_rule 1) rules as = bs"
  by (induction as bs arbitrary: rules rule: derive_rules.induct) (auto simp: note_rule_1 split: option.splits)

lemma map2_rule_0: "list_all canonical_note ns \<Longrightarrow> length rules = length ns \<Longrightarrow> map2 (apply_note_rule 0) rules ns = ns"
  by (induction ns arbitrary: rules) (auto simp: length_Suc_conv note_rule_0)

lemma notes_ok_map2:
  "notes_ok k n0 rules ns \<Longrightarrow> length rules = length n0 \<Longrightarrow> length ns = length n0 \<Longrightarrow>
    map2 (apply_note_rule (of_nat k)) rules n0 = ns"
proof (induction n0 arbitrary: rules ns)
  case (Cons a n0)
  then obtain r rs b bs where "rules = r # rs" "ns = b # bs" by (auto simp: length_Suc_conv)
  then show ?case using Cons by (simp add: notes_ok_def note_rule_k)
qed simp

section \<open>Operands of an iteration\<close>

lemma operands_ok_map2:
  "operands_ok k o0 steps xs \<Longrightarrow> length steps = length o0 \<Longrightarrow> length xs = length o0 \<Longrightarrow>
    map2 (shifted_operand (of_nat k)) o0 steps = xs"
proof (induction o0 arbitrary: steps xs)
  case (Cons a o0)
  then obtain st sts x xs' where eq: "steps = st # sts" "xs = x # xs'" by (auto simp: length_Suc_conv)
  have "(ucast a + of_nat k * st :: i64) = ucast x" using Cons.prems(1) eq by (simp add: operands_ok_def)
  then have "shifted_operand (of_nat k) a st = x"
    by (cases "st = 0") (simp_all add: shifted_operand_def, metis ucast_u32_u64)
  then show ?case using Cons eq by (simp add: operands_ok_def)
qed simp

lemma operands_ok_0: "operands_ok 0 o0 steps o0" 
proof -
  have "list_all (\<lambda>((base, step), x). (ucast base + of_nat 0 * step :: i64) = ucast x) (zip (zip xs ys) xs)"
    for xs :: "u32 list" and ys :: "i64 list"
    by (induction xs arbitrary: ys) (auto simp: zip_Cons1 split: list.splits)
  then show ?thesis unfolding operands_ok_def by blast
qed

lemma operands_ok_1: "operands_ok 1 o0 (map2 (\<lambda>a b. ucast b - ucast a) o0 o1) o1"
proof -
  have "list_all (\<lambda>((base, step), x). (ucast base + of_nat 1 * step :: i64) = ucast x)
      (zip (zip xs (map2 (\<lambda>a b. ucast b - ucast a) xs ys)) ys)" for xs ys :: "u32 list"
    by (induction xs ys rule: list_induct2') simp_all
  then show ?thesis unfolding operands_ok_def by blast
qed

section \<open>One run\<close>

text \<open>Structural bytes of blocks decide their shape.\<close>

definition struct_exact :: "item list \<Rightarrow> bool" where
  "struct_exact items \<longleftrightarrow>
    list_all (\<lambda>i. list_all (\<lambda>j. list_all (\<lambda>p.
      block_struct items i p = block_struct items j p \<longrightarrow> map shape (block items i p) = map shape (block items j p))
      [0..<Suc (length items) - max i j]) [0..<Suc (length items)]) [0..<Suc (length items)]"

lemma struct_exactD:
  assumes "struct_exact items" "block_struct items i p = block_struct items j p" "i + p \<le> length items" "j + p \<le> length items"
  shows "map shape (block items i p) = map shape (block items j p)"
proof -
  have "p \<in> set [0..<Suc (length items) - max i j]" "i \<in> set [0..<Suc (length items)]" "j \<in> set [0..<Suc (length items)]"
    using assms(3,4) by auto
  then show ?thesis using assms(1,2) unfolding struct_exact_def list_all_iff by blast
qed

definition notes_canonical :: "item list \<Rightarrow> bool" where
  "notes_canonical items \<longleftrightarrow> list_all canonical_note (concat (map notes_of items))"

text \<open>Block \<open>k\<close> of a run is block 0 shifted \<open>k\<close> times.\<close>

definition run_block :: "item list \<Rightarrow> nat \<Rightarrow> nat \<Rightarrow> i64 list \<Rightarrow> note_rule list \<Rightarrow> nat \<Rightarrow> bool" where
  "run_block items start p steps rules k \<longleftrightarrow>
    start + k * p + p \<le> length items \<and>
    map shape (block items (start + k * p) p) = map shape (block items start p) \<and>
    length steps = length (block_operands items start p) \<and>
    length rules = length (block_notes items start p) \<and>
    map2 (shifted_operand (of_nat k)) (block_operands items start p) steps = block_operands items (start + k * p) p \<and>
    map2 (apply_note_rule (of_nat k)) rules (block_notes items start p) = block_notes items (start + k * p) p"

lemma emit_run_block:
  assumes "run_block items start p steps rules k"
  shows "emit_body (of_nat k) steps rules (block items start p) 0 0 acc = emit_items (block items (start + k * p) p) acc"
proof -
  let ?b = "block items start p" and ?bk = "block items (start + k * p) p"
  note run = assms [unfolded run_block_def block_operands_def block_notes_def item_operands_eq item_notes_eq append_Nil]
  obtain b1 where b1: "shift_items_operands (of_nat k) steps ?b 0 = Some (b1, length steps)"
    "map shape b1 = map shape ?b" "map notes_of b1 = map notes_of ?b"
    "concat (map operands b1) = map2 (shifted_operand (of_nat k)) (concat (map operands ?b)) steps"
    using shift_items_operands_eq [of steps ?b "of_nat k"] run by auto
  have "0 + length (concat (map notes_of b1)) \<le> length rules" using run b1(3) by simp
  then obtain b2 where b2: "shift_items_notes (of_nat k) rules b1 0 = Some (b2, 0 + length (concat (map notes_of b1)))"
    "map shape b2 = map shape b1" "map operands b2 = map operands b1"
    "concat (map notes_of b2) = map2 (apply_note_rule (of_nat k)) (drop 0 rules) (concat (map notes_of b1))"
    using shift_notes_eq(2) [of 0 b1 rules "of_nat k"] by blast
  have "determined b2 ?bk" using block_determined [of b2 ?bk] b1(2) b2(2) run by simp
  moreover have "concat (map operands b2) = concat (map operands ?bk)" using b1(4) b2(3) run by simp
  moreover have "concat (map notes_of b2) = concat (map notes_of ?bk)" using b1(3) b2(4) run by simp
  ultimately have "b2 = ?bk" by (simp add: determined_def)
  then show ?thesis using emit_body_shifted [OF b1(1) b2(1)] by simp
qed

lemma emit_items_append:
  "emit_items (as @ bs) acc = (case emit_items as acc of None \<Rightarrow> None | Some acc \<Rightarrow> emit_items bs acc)"
  by (induction as arbitrary: acc) (auto split: option.splits)

lemma block_append: "block items i m @ block items (i + m) n = block items i (m + n)"
  by (simp add: block_def take_add add.commute)

lemma emit_iters_run:
  "(\<And>j. k \<le> j \<Longrightarrow> j < k + n \<Longrightarrow> run_block items start p steps rules j) \<Longrightarrow>
    emit_iters n k steps rules (block items start p) acc = emit_items (block items (start + k * p) (n * p)) acc"
proof (induction n arbitrary: k acc)
  case 0
  then show ?case by (simp add: block_def)
next
  case (Suc n)
  have first: "emit_body (of_nat k) steps rules (block items start p) 0 0 acc = emit_items (block items (start + k * p) p) acc" for acc
    using Suc.prems [of k] by (intro emit_run_block) simp
  have IH: "emit_iters n (Suc k) steps rules (block items start p) acc =
      emit_items (block items (start + k * p + p) (n * p)) acc" for acc
    using Suc.IH [of "Suc k"] Suc.prems by (simp add: algebra_simps)
  have "block items (start + k * p) (Suc n * p) =
      block items (start + k * p) p @ block items (start + k * p + p) (n * p)"
    by (simp add: block_append)
  then show ?case unfolding emit_iters.simps first by (auto simp: emit_items_append IH split: option.split)
qed

lemma extend_count_bounds:
  assumes "start + cnt * p \<le> length items" "0 < p"
  shows "cnt \<le> extend_count items start p steps rules cnt \<and>
    start + extend_count items start p steps rules cnt * p \<le> length items \<and>
    (\<forall>k. cnt \<le> k \<longrightarrow> k < extend_count items start p steps rules cnt \<longrightarrow> iteration_ok items start p steps rules k)"
  using assms
proof (induction items start p steps rules cnt rule: extend_count.induct)
  case (1 items start p steps rules cnt)
  show ?case
  proof (cases "start + (cnt + 1) * p \<le> length items \<and> iteration_ok items start p steps rules cnt")
    case True
    let ?c = "extend_count items start p steps rules (cnt + 1)"
    have eq: "extend_count items start p steps rules cnt = ?c"
      using True "1.prems" by (subst extend_count.simps) simp
    have IH: "cnt + 1 \<le> ?c" "start + ?c * p \<le> length items"
      "\<And>k. cnt + 1 \<le> k \<Longrightarrow> k < ?c \<Longrightarrow> iteration_ok items start p steps rules k"
      using 1(1) True "1.prems" by auto
    have "iteration_ok items start p steps rules k" if "cnt \<le> k" "k < ?c" for k
      using IH(3) [of k] True that by (cases "k = cnt") auto
    then show ?thesis unfolding eq using IH(1,2) by auto
  next
    case False
    then have "extend_count items start p steps rules cnt = cnt" by (subst extend_count.simps) auto
    then show ?thesis using "1.prems" by simp
  qed
qed

end
