(* ===== verification/Roll_Pass.thy ===== *)
theory Roll_Pass
  imports Roll_Lossless
begin

text \<open>
  A run, a pass and the sequence of passes expand to what they were made of; every pass over
  a stream of fewer than \<open>2 ^ 32\<close> items returns.
\<close>

section \<open>A run is what it replaces\<close>

lemma set_block: "set (block items i p) \<subseteq> set items"
  unfolding block_def by (meson order_trans set_drop_subset set_take_subset)

lemma notes_canonical_block: "notes_canonical items \<Longrightarrow> notes_canonical (block items i p)"
  using set_block [of items i p] by (auto simp: notes_canonical_def list_all_iff)

lemma notes_canonical_map2:
  "notes_canonical items \<Longrightarrow> length rules = length (block_notes items i p) \<Longrightarrow>
    map2 (apply_note_rule 0) rules (block_notes items i p) = block_notes items i p"
  using notes_canonical_block [of items i p]
  by (intro map2_rule_0) (simp_all add: notes_canonical_def block_notes_def item_notes_eq)

lemma run_block_0:
  assumes "start + p \<le> length items" "notes_canonical items"
    "length steps = length (block_operands items start p)" "length rules = length (block_notes items start p)"
  shows "run_block items start p steps rules 0"
  unfolding run_block_def using assms notes_canonical_map2 [OF assms(2,4)]
    operands_ok_map2 [OF operands_ok_0 assms(3) refl] by simp

lemma run_block_ok:
  assumes "start + k * p + p \<le> length items" "struct_exact items"
    "length steps = length (block_operands items start p)" "length rules = length (block_notes items start p)"
    "iteration_ok items start p steps rules k"
  shows "run_block items start p steps rules k"
proof -
  let ?b = "block items start p" and ?bk = "block items (start + k * p) p"
  note ok = assms(5) [unfolded iteration_ok_def Let_def]
  have "start + p \<le> length items" using assms(1) by simp
  then have shape: "map shape ?bk = map shape ?b" using struct_exactD [OF assms(2), of "start + k * p" p start] ok assms(1) by simp
  then have "length (block_notes items (start + k * p) p) = length (block_notes items start p)"
    using block_determined [OF shape] by (simp add: determined_def block_notes_def item_notes_eq)
  then show ?thesis unfolding run_block_def
    using assms shape ok operands_ok_map2 [of k "block_operands items start p" steps "block_operands items (start + k * p) p"]
      notes_ok_map2 [of k "block_notes items start p" rules "block_notes items (start + k * p) p"] by simp
qed

lemma run_block_1:
  assumes "start + 2 * p \<le> length items" "map shape (block items (start + p) p) = map shape (block items start p)"
    "length (block_operands items start p) = length (block_operands items (start + p) p)"
    "length (block_notes items start p) = length (block_notes items (start + p) p)"
    "derive_rules (block_notes items start p) (block_notes items (start + p) p) = Some rules"
  shows "run_block items start p
    (map2 (\<lambda>a b. ucast b - ucast a) (block_operands items start p) (block_operands items (start + p) p)) rules 1"
proof -
  let ?o0 = "block_operands items start p" and ?o1 = "block_operands items (start + p) p"
  let ?steps = "map2 (\<lambda>a b. ucast b - ucast a) ?o0 ?o1"
  have "length ?steps = length ?o0" using assms(3) by simp
  moreover from this have "map2 (shifted_operand (of_nat 1)) ?o0 ?steps = ?o1"
    by (rule operands_ok_map2 [OF operands_ok_1]) (rule assms(3) [symmetric])
  moreover have "start + 1 * p = start + p" "start + 1 * p + p \<le> length items" "of_nat 1 = (1 :: i64)"
    using assms(1) by simp_all
  ultimately show ?thesis
    unfolding run_block_def using derive_rules_1 [OF assms(5,4)] assms(2) by metis
qed

lemma try_build_repeat_cases:
  assumes "try_build_repeat items hashes start p = Some rep"
  obtains steps rules where "0 < p" "start + 2 * p \<le> length items"
    "steps = map2 (\<lambda>a b. ucast b - ucast a) (block_operands items start p) (block_operands items (start + p) p)"
    "length (block_operands items start p) = length (block_operands items (start + p) p)"
    "block_struct items (start + p) p = block_struct items start p"
    "length (block_notes items start p) = length (block_notes items (start + p) p)"
    "derive_rules (block_notes items start p) (block_notes items (start + p) p) = Some rules"
    "rep = Repeat (of_nat (extend_count items start p steps rules 2)) (block items start p) steps rules"
  using assms unfolding try_build_repeat_def Let_def by (auto split: if_splits option.splits)

lemma try_build_repeat_sound:
  assumes "try_build_repeat items hashes start p = Some rep" "struct_exact items" "notes_canonical items"
    "length items < 2 ^ 32"
  obtains cnt steps rules where "rep = Repeat (of_nat cnt) (block items start p) steps rules"
    "2 \<le> cnt" "0 < p" "start + p * cnt \<le> length items" "item_count rep = cnt"
    "length steps = length (block_operands items start p)" "length rules = length (block_notes items start p)"
    "derive_rules (block_notes items start p) (block_notes items (start + p) p) = Some rules"
    "\<forall>acc. emit_item rep acc = emit_items (block items start (p * cnt)) acc"
proof -
  obtain steps rules where t: "0 < p" "start + 2 * p \<le> length items"
    "steps = map2 (\<lambda>a b. ucast b - ucast a) (block_operands items start p) (block_operands items (start + p) p)"
    "length (block_operands items start p) = length (block_operands items (start + p) p)"
    "block_struct items (start + p) p = block_struct items start p"
    "length (block_notes items start p) = length (block_notes items (start + p) p)"
    "derive_rules (block_notes items start p) (block_notes items (start + p) p) = Some rules"
    "rep = Repeat (of_nat (extend_count items start p steps rules 2)) (block items start p) steps rules"
    using try_build_repeat_cases [OF assms(1)] .
  define cnt where "cnt = extend_count items start p steps rules 2"
  have ext: "2 \<le> cnt" "start + cnt * p \<le> length items"
    "\<And>k. 2 \<le> k \<Longrightarrow> k < cnt \<Longrightarrow> iteration_ok items start p steps rules k"
    using extend_count_bounds [of start 2 p items steps rules] t(1,2) unfolding cnt_def by auto
  have steps: "length steps = length (block_operands items start p)" using t(3,4) by simp
  have rules: "length rules = length (block_notes items start p)" using derive_rules_1 [OF t(7,6)] by simp
  have le: "start + k * p + p \<le> length items" if "k < cnt" for k
  proof -
    have "(k + 1) * p \<le> cnt * p" using that by (intro mult_le_mono1) simp
    then show ?thesis using ext(2) by simp
  qed
  have run: "run_block items start p steps rules k" if "k < cnt" for k
  proof -
    consider "k = 0" | "k = 1" | "2 \<le> k" by linarith
    then show ?thesis
    proof cases
      case 1
      then show ?thesis using run_block_0 [of start p items steps rules] t(2) assms(3) steps rules by simp
    next
      case 2
      have "map shape (block items (start + p) p) = map shape (block items start p)"
        using struct_exactD [OF assms(2) t(5)] t(2) by simp
      from run_block_1 [OF t(2) this t(4,6,7)] show ?thesis unfolding 2 t(3) .
    next
      case 3
      then show ?thesis using run_block_ok [OF le [OF that] assms(2) steps rules] ext(3) that by blast
    qed
  qed
  have "cnt * 1 \<le> cnt * p" using t(1) by (intro mult_le_mono2) simp
  then have "cnt < 2 ^ 32" using ext(2) assms(4) by linarith
  then have cnt: "unat (of_nat cnt :: u32) = cnt" by (simp add: unat_of_nat take_bit_nat_eq_self)
  have emit: "\<forall>acc. emit_item rep acc = emit_items (block items start (p * cnt)) acc"
    unfolding t(8) cnt_def [symmetric] emit_item.simps cnt
    using emit_iters_run [of 0 cnt items start p steps rules] run by (simp add: mult.commute)
  have count: "item_count rep = cnt" unfolding t(8) cnt_def [symmetric] by (simp only: item_count.simps cnt)
  have "start + p * cnt \<le> length items" using ext(2) by (simp add: mult.commute)
  then show thesis
    by (intro that [OF t(8) [folded cnt_def] ext(1) t(1) _ count steps rules t(7) emit])
qed

section \<open>Sizes\<close>

definition n_operands :: "item list \<Rightarrow> nat" where
  "n_operands items = length (concat (map operands items))"

definition n_notes :: "item list \<Rightarrow> nat" where
  "n_notes items = length (concat (map notes_of items))"

lemma n_append [simp]:
  "n_operands (as @ bs) = n_operands as + n_operands bs" "n_notes (as @ bs) = n_notes as + n_notes bs"
  by (simp_all add: n_operands_def n_notes_def)

lemma notes_canonical_append [simp]: "notes_canonical (as @ bs) \<longleftrightarrow> notes_canonical as \<and> notes_canonical bs"
  by (auto simp: notes_canonical_def list_all_iff)

lemma item_ok_notes: "item_ok it \<Longrightarrow> list_all note_ok (notes_of it)"
proof (induction it)
  case (Op op)
  then show ?case by (cases op) (simp_all add: row_ok_def)
next
  case (Repeat cnt body steps ns)
  then show ?case by (auto simp: list_all_iff)
qed

lemma length_tokenize: "length (tokenize_runs s) \<le> length s"
proof -
  have "length (tok_push c runs) \<le> Suc (length runs)" for c runs by (auto simp: tok_push_def Let_def)
  then have "length (fold tok_push s runs) \<le> length runs + length s" for runs
  proof (induction s arbitrary: runs)
    case (Cons c s)
    then have "length (fold tok_push s (tok_push c runs)) \<le> length (tok_push c runs) + length s" by blast
    also have "\<dots> \<le> Suc (length runs) + length s" using Cons.prems by simp
    finally show ?case by simp
  qed simp
  from this [of "[]"] show ?thesis by (simp add: tokenize_runs_def)
qed

lemma length_derive_runs: "derive_runs i ta tb = Some runs \<Longrightarrow> length runs \<le> length ta"
  by (induction i ta tb arbitrary: runs rule: derive_runs.induct)
    (auto split: if_splits option.splits intro: le_SucI)

lemma rule_ok_derived: "derive_note_rule a b = Some rule \<Longrightarrow> note_ok a \<Longrightarrow> rule_ok rule"
proof -
  assume d: "derive_note_rule a b = Some rule" and a: "note_ok a"
  show "rule_ok rule"
  proof (cases rule)
    case (Template runs)
    then obtain s where s: "a = Some s" "derive_runs 0 (tokenize_runs s) (tokenize_runs (the b)) = Some runs"
      using d by (auto simp: derive_note_rule_def Let_def split: if_splits option.splits)
    have "length runs \<le> length s" using length_derive_runs [OF s(2)] length_tokenize [of s] by simp
    then show ?thesis using a s(1) Template by (simp add: note_ok_def str_ok_def short_def)
  qed simp
qed

lemma rules_ok_derived: "derive_rules as bs = Some rules \<Longrightarrow> list_all note_ok as \<Longrightarrow> list_all rule_ok rules"
  by (induction as bs arbitrary: rules rule: derive_rules.induct) (auto simp: rule_ok_derived split: option.splits)

section \<open>A pass\<close>

definition good :: "item list \<Rightarrow> bool" where
  "good items \<longleftrightarrow> notes_canonical items \<and> list_all item_ok items \<and>
     n_operands items < 2 ^ 64 \<and> n_notes items < 2 ^ 58 \<and> length items < 2 ^ 32"

text \<open>\<open>out\<close> expands to the items it was rolled from, and is no bigger.\<close>

definition replaces :: "item list \<Rightarrow> item list \<Rightarrow> bool" where
  "replaces items out \<longleftrightarrow> (\<forall>acc. emit_items out acc = emit_items items acc) \<and>
     notes_canonical out \<and> list_all item_ok out \<and>
     n_operands out \<le> n_operands items \<and> n_notes out \<le> n_notes items \<and> length out \<le> length items"

lemma replaces_refl: "good items \<Longrightarrow> replaces items items"
  by (simp add: good_def replaces_def)

lemma replaces_good: "replaces items out \<Longrightarrow> good items \<Longrightarrow> good out"
  by (auto simp: replaces_def good_def)

lemma replaces_append: "replaces as os \<Longrightarrow> replaces bs ps \<Longrightarrow> replaces (as @ bs) (os @ ps)"
  by (auto simp: replaces_def emit_items_append split: option.splits)

lemma length_block: "i + p \<le> length items \<Longrightarrow> length (block items i p) = p"
  by (simp add: block_def)

lemma block_parts: "i + p \<le> length items \<Longrightarrow> items = take i items @ block items i p @ drop (i + p) items"
  unfolding block_def by (metis append_assoc append_take_drop_id take_add)

lemma replaces_run:
  assumes "try_build_repeat items hashes start p = Some rep" "struct_exact items" "good items"
  obtains "0 < p * item_count rep" "start + p * item_count rep \<le> length items"
    "replaces (block items start (p * item_count rep)) [rep]"
proof -
  have g: "notes_canonical items" "length items < 2 ^ 32" "list_all item_ok items"
    "n_operands items < 2 ^ 64" "n_notes items < 2 ^ 58" using assms(3) by (simp_all add: good_def)
  obtain cnt steps rules where r: "rep = Repeat (of_nat cnt) (block items start p) steps rules"
    "2 \<le> cnt" "0 < p" "start + p * cnt \<le> length items" "item_count rep = cnt"
    "length steps = length (block_operands items start p)" "length rules = length (block_notes items start p)"
    "derive_rules (block_notes items start p) (block_notes items (start + p) p) = Some rules"
    "\<forall>acc. emit_item rep acc = emit_items (block items start (p * cnt)) acc"
    using try_build_repeat_sound [OF assms(1,2) g(1,2)] .
  have "p * 1 \<le> p * cnt" using r(2) by (intro mult_le_mono2) simp
  then have p: "start + p \<le> length items" "p \<le> p * cnt" using r(4) by linarith+
  have first: "block items start (p * cnt) = block items start p @ block items (start + p) (p * cnt - p)"
    using p(2) by (simp add: block_append)
  have sizes: "n_operands (block items start p) \<le> n_operands items" "n_notes (block items start p) \<le> n_notes items"
    using arg_cong [OF block_parts [OF p(1)], of n_operands] arg_cong [OF block_parts [OF p(1)], of n_notes] by simp_all
  have ok: "list_all item_ok (block items start p)"
    using g(3) set_block [of items start p] by (auto simp: list_all_iff)
  have "list_all note_ok (block_notes items start p)"
    using ok item_ok_notes by (auto simp: block_notes_def item_notes_eq list_all_iff)
  then have "list_all rule_ok rules" using rules_ok_derived [OF r(8)] by blast
  moreover have "short steps" "capacity_ok NOTE_RULE_BYTES (length rules)" "short (block items start p)"
    using r(6,7) sizes g(2,4,5) length_block [OF p(1)] p(1)
    by (simp_all add: short_def capacity_ok_def NOTE_RULE_BYTES_def block_operands_def block_notes_def item_operands_eq item_notes_eq n_operands_def n_notes_def)
  ultimately have "item_ok rep" using ok by (simp add: r(1))
  then have "replaces (block items start (p * cnt)) [rep]"
    unfolding replaces_def
    using r(9) notes_canonical_block [OF g(1), of start p] length_block [OF r(4)] r(2,3)
    by (auto simp: r(1) first n_operands_def n_notes_def notes_canonical_def split: option.splits)
  then show thesis using that r(2-5) by simp
qed

lemma good_item: "good items \<Longrightarrow> i < length items \<Longrightarrow> replaces [items ! i] [items ! i]"
  by (auto simp: good_def replaces_def notes_canonical_def list_all_iff)

lemma roll_loop_returns:
  assumes "good items" "struct_exact items"
  shows "i \<le> length items \<Longrightarrow> replaces (take i items) out \<Longrightarrow>
    \<exists>out' h' c'. roll_loop items hashes cand rmq i (out, h, c) = Some (out', h', c') \<and> replaces items out'"
proof (induction "length items - i" arbitrary: i out h c rule: less_induct)
  case less
  show ?case
  proof (cases "length items \<le> i")
    case True
    then show ?thesis using less.prems by (subst roll_loop.simps) simp
  next
    case False
    show ?thesis
    proof (cases "roll_at items hashes cand rmq i")
      case None
      have "take (i + 1) items = take i items @ [items ! i]" using False by (simp add: take_Suc_conv_app_nth)
      then have "replaces (take (i + 1) items) (out @ [items ! i])"
        using replaces_append [OF less.prems(2) good_item [OF assms(1)]] False by simp
      then have "\<exists>out' h' c'. roll_loop items hashes cand rmq (i + 1) (out @ [items ! i], h @ [hashes ! i], c) =
          Some (out', h', c') \<and> replaces items out'"
        using False by (intro less.hyps) simp_all
      then show ?thesis using False None by (subst roll_loop.simps) simp
    next
      case (Some rep)
      then have built: "try_build_repeat items hashes i (cand ! i) = Some rep"
        by (simp add: roll_at_def Let_def split: if_splits)
      define span where "span = cand ! i * item_count rep"
      obtain span: "0 < span" "i + span \<le> length items" "replaces (block items i span) [rep]"
        unfolding span_def using replaces_run [OF built assms(2,1)] .
      have "take (i + span) items = take i items @ block items i span" by (simp add: block_def take_add)
      then have "replaces (take (i + span) items) (out @ [rep])"
        using replaces_append [OF less.prems(2) span(3)] by simp
      then have "\<exists>out' h' c'. roll_loop items hashes cand rmq (i + span) (out @ [rep], h @ [item_hash rep], True) =
          Some (out', h', c') \<and> replaces items out'"
        using False span(1,2) by (intro less.hyps) simp_all
      then show ?thesis using False Some by (subst roll_loop.simps) (simp add: span_def)
    qed
  qed
qed

lemma roll_pass_returns:
  assumes "good items" "struct_exact items"
  shows "\<exists>out h c. roll_pass items hashes = Some (out, h, c) \<and> replaces items out"
proof (cases "length items < 2")
  case True
  then show ?thesis using replaces_refl [OF assms(1)] by (auto simp: roll_pass_def)
next
  case False
  have "replaces (take 0 items) []" by (simp add: replaces_def n_operands_def n_notes_def notes_canonical_def)
  then show ?thesis using roll_loop_returns [OF assms, of 0 "[]"] False by (simp add: roll_pass_def Let_def)
qed

section \<open>Passes\<close>

text \<open>The streams the passes start from, the first one included.\<close>

fun streams :: "nat \<Rightarrow> item list \<Rightarrow> u64 list \<Rightarrow> item list list" where
  "streams 0 items hashes = []"
| "streams (Suc n) items hashes = items #
     (case roll_pass items hashes of
        Some (out, h, changed) \<Rightarrow> if changed then streams n out h else [] | None \<Rightarrow> [])"

lemma replaces_trans: "replaces as bs \<Longrightarrow> replaces bs cs \<Longrightarrow> replaces as cs"
  by (auto simp: replaces_def)

lemma roll_passes_returns:
  "good items \<Longrightarrow> list_all struct_exact (streams n items hashes) \<Longrightarrow>
    \<exists>out. roll_passes n items hashes = Some out \<and> replaces items out"
proof (induction n arbitrary: items hashes)
  case 0
  then show ?case using replaces_refl by simp
next
  case (Suc n)
  have "struct_exact items" using Suc.prems(2) by simp
  then obtain out h c where p: "roll_pass items hashes = Some (out, h, c)" "replaces items out"
    using roll_pass_returns [OF Suc.prems(1)] by blast
  show ?case
  proof (cases c)
    case True
    then obtain out' where "roll_passes n out h = Some out'" "replaces out out'"
      using Suc.IH [of out h] Suc.prems p replaces_good by auto
    then show ?thesis using p True replaces_trans by auto
  qed (use p in simp)
qed

section \<open>Streams of opcodes\<close>

lemma length_operands_struct:
  "length (lc_operands l) \<le> length (put_lc_struct l)" "length (lcs_operands ls) \<le> length (put_lcs_struct ls)"
  "length ids \<le> length (put_var_ids_struct ids)" "length (put_vu32 0) = 1"
proof -
  show one: "length (put_vu32 0) = 1" by (simp add: put_vu32_def put_varint.simps [of 0])
  have "length ts \<le> length (concat (map (\<lambda>t. put_fieldconst None (t_coeff t) @ put_vu32 0) ts))" for ts :: "lc_term list"
    using one by (induction ts) simp_all
  then show lc: "length (lc_operands l) \<le> length (put_lc_struct l)" for l
    by (simp add: lc_operands_def put_lc_struct_def trans_le_add2)
  have "length (lcs_operands ls) \<le> length (concat (map put_lc_struct ls))"
    using lc by (induction ls) (simp_all add: lcs_operands_def add_mono)
  then show "length (lcs_operands ls) \<le> length (put_lcs_struct ls)" by (simp add: put_lcs_struct_def trans_le_add2)
  have "length (concat (map (\<lambda>_. put_vu32 0) ids)) = length ids" using one by (induction ids) simp_all
  then show "length ids \<le> length (put_var_ids_struct ids)" by (simp add: put_var_ids_struct_def)
qed

lemma length_op_operands: "length (op_operands op) \<le> length (put_opcode_struct op)"
proof (cases op)
  case (Constraint r)
  show ?thesis using length_operands_struct(1) [of "r_a r"] length_operands_struct(1) [of "r_b r"]
      length_operands_struct(1) [of "r_c r"] by (simp add: Constraint)
next
  case (Witness w)
  show ?thesis unfolding Witness
    by (cases w; simp add: length_operands_struct(4);
        (rule le_SucI | rule add_mono | rule trans_le_add1 | rule length_operands_struct)+)
qed

end
