(* ===== verification/Roll_Props.thy ===== *)
theory Roll_Props
  imports Roll_Pass
begin

text \<open>
  The theorems of rolling: a pass over a stream of opcodes returns and is lossless, further passes are
  when structural bytes tell loops apart, and a rolled and encoded stream decodes to the rows and
  operations it was made of.
\<close>

section \<open>Streams of opcodes\<close>

definition rows_of :: "opcode list \<Rightarrow> r1cs_row list" where
  "rows_of ops = concat (map (\<lambda>op. case op of Constraint r \<Rightarrow> [r] | Witness w \<Rightarrow> []) ops)"

definition witness_ops_of :: "opcode list \<Rightarrow> witness_op list" where
  "witness_ops_of ops = concat (map (\<lambda>op. case op of Constraint r \<Rightarrow> [] | Witness w \<Rightarrow> [w]) ops)"

lemma emit_flat: "emit_items (map Op ops) (cons, wit) = Some (cons @ rows_of ops, wit @ witness_ops_of ops)"
proof (induction ops arbitrary: cons wit)
  case (Cons op ops)
  then show ?case by (cases op) (simp_all add: rows_of_def witness_ops_of_def)
qed (simp add: rows_of_def witness_ops_of_def)

definition stream_bytes :: "opcode list \<Rightarrow> u8 list" where
  "stream_bytes ops = concat (map (item_struct_bytes \<circ> Op) ops)"

text \<open>
  What a stream needs to be rolled once without loss: encodable opcodes, notes whose numbers have
  no leading zeros, and sizes that fit the code's integers.
\<close>

definition flat_rollable :: "opcode list \<Rightarrow> bool" where
  "flat_rollable ops \<longleftrightarrow> list_all op_ok ops \<and> list_all canonical_note (concat (map op_notes ops)) \<and>
     length ops < 2 ^ 32 \<and> length (stream_bytes ops) < 2 ^ 64"

text \<open>
  For all the passes the structural bytes must also tell the loops of the later ones apart (of flat
  opcodes they always do; of loops they need not, \<open>Roll_Limits.loop_bytes_ambiguous\<close>).
\<close>

definition rollable :: "opcode list \<Rightarrow> bool" where
  "rollable ops \<longleftrightarrow> flat_rollable ops \<and>
     list_all struct_exact (tl (streams MAX_ROLL_PASSES (map Op ops) (map item_hash (map Op ops))))"

lemma block_flat: "block (map Op ops) i p = map Op (take p (drop i ops))"
  by (simp add: block_def take_map drop_map)

lemma concat_part_length: "length (concat (map f (take p (drop i xs)))) \<le> length (concat (map f xs))"
proof -
  have "length (concat (map f xs)) = length (concat (map f (take i xs))) +
      (length (concat (map f (take p (drop i xs)))) + length (concat (map f (drop p (drop i xs)))))"
    by (metis append_take_drop_id concat_append length_append map_append)
  then show ?thesis by simp
qed

lemma struct_exact_flat:
  assumes "list_all op_ok ops" "length (stream_bytes ops) < 2 ^ 64"
  shows "struct_exact (map Op ops)"
proof -
  have exact: "map shape (block (map Op ops) i p) = map shape (block (map Op ops) j p)"
    if eq: "block_struct (map Op ops) i p = block_struct (map Op ops) j p" and le: "i + p \<le> length ops" "j + p \<le> length ops" for i j p
  proof -
    let ?as = "take p (drop i ops)" and ?bs = "take p (drop j ops)"
    have ok: "list_all op_ok ?as" "list_all op_ok ?bs"
      using assms(1) by (auto simp: list_all_iff dest: in_set_takeD in_set_dropD)
    have len: "length ?as = length ?bs" using le by simp
    have bytes: "concat (map (item_struct_bytes \<circ> Op) ?as) = concat (map (item_struct_bytes \<circ> Op) ?bs)"
      using eq by (simp add: block_struct_def block_flat comp_def del: item_struct_bytes.simps)
    have "length (concat (map (item_struct_bytes \<circ> Op) ?as)) < 2 ^ 64"
      using concat_part_length [of "item_struct_bytes \<circ> Op" p i ops] assms(2) unfolding stream_bytes_def by linarith
    from flat_struct_exact [OF ok len bytes this] have "map erase_op ?as = map erase_op ?bs" .
    moreover have "map shape (map Op xs) = map Op (map erase_op xs)" for xs by simp
    ultimately show ?thesis by (simp only: block_flat)
  qed
  show ?thesis unfolding struct_exact_def list_all_iff
  proof (intro ballI impI)
    fix i j p
    assume "i \<in> set [0..<Suc (length (map Op ops))]" "j \<in> set [0..<Suc (length (map Op ops))]"
      "p \<in> set [0..<Suc (length (map Op ops)) - max i j]"
    then have "i + p \<le> length ops" "j + p \<le> length ops" by auto
    moreover assume "block_struct (map Op ops) i p = block_struct (map Op ops) j p"
    ultimately show "map shape (block (map Op ops) i p) = map shape (block (map Op ops) j p)" by (intro exact)
  qed
qed

lemma good_flat:
  assumes "flat_rollable ops"
  shows "good (map Op ops)"
proof -
  have r: "list_all op_ok ops" "list_all canonical_note (concat (map op_notes ops))" "length ops < 2 ^ 32"
    "length (stream_bytes ops) < 2 ^ 64" using assms by (simp_all add: flat_rollable_def)
  have "length (concat (map op_operands ops)) \<le> length (concat (map (item_struct_bytes \<circ> Op) ops))"
  proof (induction ops)
    case (Cons op ops)
    then show ?case using length_op_operands [of op] by simp
  qed simp
  moreover have "length (concat (map op_notes ops)) \<le> length ops"
  proof (induction ops)
    case (Cons op ops)
    then show ?case by (cases op) simp_all
  qed simp
  ultimately show ?thesis using r
    by (simp add: good_def notes_canonical_def n_operands_def n_notes_def stream_bytes_def comp_def list_all_iff
        del: item_struct_bytes.simps)
qed

lemma roll_stream_replaces:
  assumes "rollable ops"
  shows "\<exists>items. roll_stream ops = Some items \<and> replaces (map Op ops) items"
proof -
  let ?s = "streams MAX_ROLL_PASSES (map Op ops) (map item_hash (map Op ops))"
  have "?s = map Op ops # tl ?s" by (simp add: MAX_ROLL_PASSES_def numeral_eq_Suc)
  moreover have "struct_exact (map Op ops)" "list_all struct_exact (tl ?s)"
    using assms struct_exact_flat by (simp_all add: rollable_def flat_rollable_def)
  ultimately have "list_all struct_exact ?s" by (metis list.pred_inject(2))
  moreover have "good (map Op ops)" using assms good_flat by (simp add: rollable_def)
  ultimately show ?thesis
    using roll_passes_returns by (simp add: roll_stream_def Let_def)
qed

section \<open>Rolling is lossless\<close>

text \<open>A pass that changes nothing returns its stream.\<close>

lemma roll_loop_changed:
  assumes "roll_loop items hashes cand rmq i acc = Some res"
  shows "(snd (snd acc) \<longrightarrow> snd (snd res)) \<and> (\<not> snd (snd res) \<longrightarrow> fst res = fst acc @ drop i items)"
proof (rule roll_loop.raw_induct [OF _ assms, where P = "\<lambda>items hashes cand rmq i acc res.
    (snd (snd acc) \<longrightarrow> snd (snd res)) \<and> (\<not> snd (snd res) \<longrightarrow> fst res = fst acc @ drop i items)"], goal_cases)
  case (1 loop items hashes cand rmq i acc res)
  obtain out h c where acc: "acc = (out, h, c)" by (cases acc)
  show ?case
  proof (cases "length items \<le> i")
    case True
    then show ?thesis using 1(2) by simp
  next
    case False
    show ?thesis
    proof (cases "roll_at items hashes cand rmq i")
      case None
      have "drop i items = items ! i # drop (i + 1) items" using False by (simp add: Cons_nth_drop_Suc)
      then show ?thesis using 1(1) [of items hashes cand rmq "i + 1" "(out @ [items ! i], h @ [hashes ! i], c)" res] 1(2) False None
        by (simp add: acc)
    next
      case (Some rep)
      then show ?thesis
        using 1(1) [of items hashes cand rmq "i + cand ! i * item_count rep" "(out @ [rep], h @ [item_hash rep], True)" res]
          1(2) False by (simp add: acc)
    qed
  qed
qed

lemma roll_pass_unchanged: "roll_pass items hashes = Some (out, h, False) \<Longrightarrow> out = items"
  using roll_loop_changed [of items hashes _ _ 0 "([], [], False)" "(out, h, False)"]
  by (auto simp: roll_pass_def Let_def split: if_splits)

text \<open>C19: One pass of rolling over a stream of opcodes is lossless. For encodable opcodes (constants up to
  \<open>2 ^ 4096\<close>) whose notes write their numbers without leading zeros, in numbers that fit the code's
  integers, the pass returns, and its loops and opcodes (never more than the opcodes) expand, in order,
  to exactly the rows and the witness operations of the stream. When the next pass finds no loop of loops,
  the result is what \<^verbatim>\<open>roll_stream\<close> returns.\<close>

theorem roll_pass_lossless:
  assumes "flat_rollable ops"
  shows "\<exists>items h changed. roll_pass (map Op ops) (map item_hash (map Op ops)) = Some (items, h, changed) \<and>
    length items \<le> length ops \<and> emit_items items ([], []) = Some (rows_of ops, witness_ops_of ops) \<and>
    (\<not> changed \<or> (\<exists>items' h'. roll_pass items h = Some (items', h', False)) \<longrightarrow> roll_stream ops = Some items)"
proof -
  let ?items = "map Op ops" let ?hashes = "map item_hash ?items"
  have "struct_exact ?items" using assms struct_exact_flat by (simp add: flat_rollable_def)
  from roll_pass_returns [OF good_flat [OF assms] this, of ?hashes]
  obtain items h c where p: "roll_pass ?items ?hashes = Some (items, h, c)" "replaces ?items items" by blast
  have "roll_stream ops = (case Some (items, h, c) of None \<Rightarrow> None
      | Some (items, h, changed) \<Rightarrow> if \<not> changed then Some items else roll_passes 63 items h)"
    unfolding p(1) [symmetric] roll_stream_def Let_def MAX_ROLL_PASSES_def
    using roll_passes.simps(2) [of 63 ?items ?hashes] by simp
  moreover have "roll_passes 63 items h = Some items" if next_pass: "roll_pass items h = Some (items', h', False)" for items' h'
    using roll_pass_unchanged [OF next_pass] next_pass by (simp add: numeral_eq_Suc)
  ultimately have "\<not> c \<or> (\<exists>items' h'. roll_pass items h = Some (items', h', False)) \<longrightarrow> roll_stream ops = Some items"
    by auto
  moreover have "emit_items items ([], []) = Some (rows_of ops, witness_ops_of ops)" "length items \<le> length ops"
    using p(2) by (simp_all add: replaces_def emit_flat)
  ultimately show ?thesis using p(1) by blast
qed

text \<open>All the passes, when the structural bytes of their streams tell loops apart.\<close>

theorem roll_stream_lossless:
  assumes "rollable ops"
  shows "\<exists>items. roll_stream ops = Some items \<and> length items \<le> length ops \<and>
    emit_items items ([], []) = Some (rows_of ops, witness_ops_of ops)"
proof -
  obtain items where r: "roll_stream ops = Some items" "replaces (map Op ops) items"
    using roll_stream_replaces [OF assms] by blast
  then have "emit_items items ([], []) = emit_items (map Op ops) ([], [])" by (simp add: replaces_def)
  then show ?thesis using r by (simp add: emit_flat replaces_def)
qed

text \<open>Under the same condition, a rolled and encoded stream decodes and expands to exactly the rows and the witness operations it was
  made of, when the encoder's constant pool indexes the decoder's.\<close>

theorem rolled_round_trip:
  assumes "rollable ops" "pool_agrees (Some pool) consts" "roll_and_encode_ops_compact ops pool = Some bytes" "short bytes"
  shows "decode_and_expand_ops_compact bytes consts = Some (Inr (rows_of ops, witness_ops_of ops))"
proof -
  obtain items where r: "roll_stream ops = Some items" "replaces (map Op ops) items"
    using roll_stream_replaces [OF assms(1)] by blast
  have bytes: "bytes = put_len (length items) @ concat (map (put_item_compact (Some pool)) items)"
    using assms(3) r(1) by (simp add: roll_and_encode_ops_compact_def)
  have "length items < 2 ^ 32" using r(2) assms(1) by (simp add: replaces_def rollable_def flat_rollable_def)
  then have "short items" by (simp add: short_def)
  then have "decode_and_expand_ops_compact bytes consts = map_option Inr (emit_items items ([], []))"
    using decode_written [OF assms(2) _ _ bytes assms(4)] r(2) by (simp add: replaces_def)
  also have "emit_items items ([], []) = emit_items (map Op ops) ([], [])" using r(2) by (simp add: replaces_def)
  finally show ?thesis by (simp add: emit_flat)
qed

subsection \<open>An example: three bit rows\<close>

definition bit_lc :: "u32 \<Rightarrow> lin_comb" where
  "bit_lc v = \<lparr>lc_const = fc_zero, lc_terms = [\<lparr>t_coeff = fc_one, t_var = v\<rparr>]\<rparr>"

definition bit_row :: "u32 \<Rightarrow> string \<Rightarrow> opcode" where
  "bit_row v n = Constraint \<lparr>r_a = bit_lc v, r_b = bit_lc v, r_c = bit_lc v, r_note = Some n\<rparr>"

definition bit_rows :: "opcode list" where
  "bit_rows = [bit_row 2 ''b2'', bit_row 3 ''b3'', bit_row 4 ''b4'']"

definition bit_loop :: item where
  "bit_loop = Repeat 3 [Op (bit_row 2 ''b2'')] [1, 1, 1] [Template [(1, 1)]]"

lemma tokens_bit: "tokenize_runs ''b2'' = [(''b'', False), (''2'', True)]"
  "tokenize_runs ''b3'' = [(''b'', False), (''3'', True)]" "tokenize_runs ''b4'' = [(''b'', False), (''4'', True)]"
  by (simp_all add: tokenize_runs_def tok_push_def is_ascii_digit_def)

lemma bit_notes: "derive_note_rule (Some ''b2'') (Some ''b3'') = Some (Template [(1, 1)])"
  "apply_note_template ''b2'' 2 [(1, 1)] = ''b4''"
  unfolding derive_note_rule_def apply_note_template_def template_step_def Let_def option.case prod.case tokens_bit
  by code_simp+

lemma bit_struct: "item_struct_bytes (Op (bit_row 3 ''b3'')) = item_struct_bytes (Op (bit_row 2 ''b2''))"
  "item_struct_bytes (Op (bit_row 4 ''b4'')) = item_struct_bytes (Op (bit_row 2 ''b2''))"
  "item_hash (Op (bit_row 3 ''b3'')) = item_hash (Op (bit_row 2 ''b2''))"
  "item_hash (Op (bit_row 4 ''b4'')) = item_hash (Op (bit_row 2 ''b2''))"
  by code_simp+

lemma bit_try: "try_build_repeat (map Op bit_rows) [h, h, h] 0 1 = Some bit_loop"
proof -
  have ops: "block (map Op bit_rows) 0 1 = [Op (bit_row 2 ''b2'')]" "block (map Op bit_rows) 1 1 = [Op (bit_row 3 ''b3'')]"
    "block (map Op bit_rows) 2 1 = [Op (bit_row 4 ''b4'')]"
    by (simp_all add: bit_rows_def block_def)
  have vars: "op_operands (bit_row v n) = [v, v, v]" "op_notes (bit_row v n) = [Some n]" for v n
    by (simp_all add: bit_row_def bit_lc_def lc_operands_def)
  have blocks: "block_operands (map Op bit_rows) 0 1 = [2, 2, 2]" "block_operands (map Op bit_rows) 1 1 = [3, 3, 3]"
    "block_operands (map Op bit_rows) 2 1 = [4, 4, 4]" "block_notes (map Op bit_rows) 0 1 = [Some ''b2'']"
    "block_notes (map Op bit_rows) 1 1 = [Some ''b3'']" "block_notes (map Op bit_rows) 2 1 = [Some ''b4'']"
    unfolding block_operands_def block_notes_def ops item_operands_eq item_notes_eq by (simp_all add: vars)
  have bytes: "block_struct (map Op bit_rows) 1 1 = block_struct (map Op bit_rows) 0 1"
    "block_struct (map Op bit_rows) 2 1 = block_struct (map Op bit_rows) 0 1"
    unfolding block_struct_def ops using bit_struct by (simp_all del: item_struct_bytes.simps)
  have ok: "iteration_ok (map Op bit_rows) 0 1 [1, 1, 1] [Template [(1, 1)]] 2"
  proof -
    have base: "(0 :: nat) + 2 * 1 = 2" by simp
    show ?thesis unfolding iteration_ok_def Let_def base blocks bytes
      using bit_notes(2) by (simp add: operands_ok_def notes_ok_def note_rule_ok_def)
  qed
  have three: "length bit_rows = 3" by (simp add: bit_rows_def)
  have count: "extend_count (map Op bit_rows) 0 1 [1, 1, 1] [Template [(1, 1)]] 2 = 3"
    by (subst extend_count.simps, subst extend_count.simps) (simp add: ok three del: One_nat_def)
  have "list_all (\<lambda>j. [h, h, h] ! j = [h, h] ! j) [0..<1]" by simp
  then show ?thesis unfolding try_build_repeat_def Let_def
    using bit_notes(1) count by (simp add: blocks bytes ops three bit_loop_def del: One_nat_def)
qed

lemma bit_candidates: "candidates [h, h, h] = [1, 1, USIZE_MAX]"
  by (simp add: candidates_def next_same_def bt_insert_def find_period.simps block_hashes_match_def
      MAX_PERIOD_TRIES_def HASH_CHECK_CAP_def numeral_3_eq_3 Let_def upt_rec)

lemma bit_pass: "roll_pass (map Op bit_rows) [h, h, h] = Some ([bit_loop], [item_hash bit_loop], True)"
proof -
  have three: "length bit_rows = 3" by (simp add: bit_rows_def)
  have "roll_at (map Op bit_rows) [h, h, h] [1, 1, USIZE_MAX] t 0 = Some bit_loop" for t
    using bit_try [of h] by (simp add: roll_at_def Let_def sparse_min_def USIZE_MAX_def)
  then show ?thesis unfolding roll_pass_def Let_def bit_candidates
    by (subst roll_loop.simps, subst roll_loop.simps) (simp add: three bit_loop_def)
qed

lemma struct_exact_single: "struct_exact [it]"
  by (simp add: struct_exact_def block_def)

lemma bit_streams:
  "streams MAX_ROLL_PASSES (map Op bit_rows) (map item_hash (map Op bit_rows)) = [map Op bit_rows, [bit_loop]]"
proof -
  have "map item_hash (map Op bit_rows) = replicate 3 (item_hash (Op (bit_row 2 ''b2'')))"
    using bit_struct(3,4) by (simp add: bit_rows_def numeral_3_eq_3)
  then show ?thesis using bit_pass [of "item_hash (Op (bit_row 2 ''b2''))"]
    by (simp add: MAX_ROLL_PASSES_def numeral_eq_Suc roll_pass_def [of "[bit_loop]"])
qed

lemma bit_row_ok: "str_ok n \<Longrightarrow> op_ok (bit_row v n)"
  by (simp add: bit_row_def row_ok_def bit_lc_def lc_ok_def fc_ok_def short_def note_ok_def fc_zero_def fc_one_def
      fc_from_i64_def)

lemma bit_rollable: "rollable bit_rows"
proof -
  have canonical: "canonical_note (Some ''b2'')" "canonical_note (Some ''b3'')" "canonical_note (Some ''b4'')"
    unfolding canonical_note_def option.case tokens_bit by code_simp+
  have str: "str_ok ''b2''" "str_ok ''b3''" "str_ok ''b4''" by (rule ascii_str_ok; simp)+
  have "item_struct_bytes (Op (bit_row 2 ''b2'')) = [0, 0, 0, 1, 1, 0, 0, 1, 1, 0, 0, 1, 1, 0, 1, 2, 98, 35]"
    by code_simp
  then have "length (stream_bytes bit_rows) = 54"
    using bit_struct(1,2) by (simp add: stream_bytes_def bit_rows_def del: item_struct_bytes.simps)
  moreover have "list_all canonical_note (concat (map op_notes bit_rows))"
    using canonical by (simp add: bit_rows_def bit_row_def)
  moreover have "list_all op_ok bit_rows" "length bit_rows = 3"
    using str by (simp_all add: bit_rows_def bit_row_ok)
  moreover have "list_all struct_exact (tl (streams MAX_ROLL_PASSES (map Op bit_rows) (map item_hash (map Op bit_rows))))"
    unfolding bit_streams by (simp add: struct_exact_single)
  ultimately show ?thesis by (simp add: rollable_def flat_rollable_def)
qed

lemma bit_roll_stream: "roll_stream bit_rows = Some [bit_loop]"
proof -
  have "map item_hash (map Op bit_rows) = replicate 3 (item_hash (Op (bit_row 2 ''b2'')))"
    using bit_struct(3,4) by (simp add: bit_rows_def numeral_3_eq_3)
  then show ?thesis using bit_pass [of "item_hash (Op (bit_row 2 ''b2''))"]
    by (simp add: roll_stream_def MAX_ROLL_PASSES_def numeral_eq_Suc roll_pass_def [of "[bit_loop]"])
qed

theorem roll_pass_lossless_witness:
  "roll_stream bit_rows = Some [bit_loop] \<and> emit_items [bit_loop] ([], []) = Some (rows_of bit_rows, [])"
proof -
  have "map item_hash (map Op bit_rows) = replicate 3 (item_hash (Op (bit_row 2 ''b2'')))"
    using bit_struct(3,4) by (simp add: bit_rows_def numeral_3_eq_3)
  then have pass: "roll_pass (map Op bit_rows) (map item_hash (map Op bit_rows)) =
      Some ([bit_loop], [item_hash bit_loop], True)"
    using bit_pass [of "item_hash (Op (bit_row 2 ''b2''))"] by (simp add: numeral_3_eq_3)
  have "roll_pass [bit_loop] [item_hash bit_loop] = Some ([bit_loop], [item_hash bit_loop], False)"
    by (simp add: roll_pass_def)
  moreover have "flat_rollable bit_rows" using bit_rollable by (simp add: rollable_def)
  ultimately show ?thesis
    using roll_pass_lossless [of bit_rows] pass by (auto simp: witness_ops_of_def bit_rows_def bit_row_def)
qed

theorem roll_stream_lossless_witness:
  "roll_stream bit_rows = Some [bit_loop] \<and> emit_items [bit_loop] ([], []) = Some (rows_of bit_rows, [])"
  using roll_stream_lossless [OF bit_rollable] bit_roll_stream
  by (simp add: witness_ops_of_def bit_rows_def bit_row_def)

theorem rolled_round_trip_witness:
  "\<exists>bytes. roll_and_encode_ops_compact bit_rows [] = Some bytes \<and>
    decode_and_expand_ops_compact bytes [] = Some (Inr (rows_of bit_rows, []))"
proof -
  have bytes: "roll_and_encode_ops_compact bit_rows [] = Some (put_len 1 @ put_item_compact (Some []) bit_loop)"
    by (simp add: roll_and_encode_ops_compact_def bit_roll_stream)
  have "put_len 1 @ put_item_compact (Some []) bit_loop =
      [1, 1, 3, 1, 0, 0, 0, 1, 1, 4, 0, 1, 1, 4, 0, 1, 1, 4, 1, 2, 98, 50, 3, 2, 2, 2, 1, 1, 1, 1, 1, 2]"
    by code_simp
  then have "short (put_len 1 @ put_item_compact (Some []) bit_loop)" by (simp add: short_def)
  from rolled_round_trip [OF bit_rollable _ bytes this, of "[]"] show ?thesis using bytes
    by (simp add: pool_agrees_def witness_ops_of_def bit_rows_def bit_row_def)
qed

end
