(* ===== verification/Decode_Props.thy ===== *)
theory Decode_Props
  imports Rolled_Codec
begin

text \<open>
  The decoder on any bytes: it terminates, what it returns is well-formed, and an encoding cut_at
  short is refused with \<open>Truncated\<close>.
\<close>

section \<open>Decoders are local\<close>

text \<open>
  A decoder looks only at the bytes it consumes: on a buffer cut after them it does the same,
  on one cut before their end it reports the truncation.
\<close>

definition cut_at :: "nat \<Rightarrow> cursor \<Rightarrow> cursor" where
  "cut_at m cu = cu\<lparr>cu_buf := take (cu_pos cu + m) (cu_buf cu)\<rparr>"

definition local_at :: "'a parser \<Rightarrow> cursor \<Rightarrow> 'a \<Rightarrow> nat \<Rightarrow> bool" where
  "local_at p cu x n \<longleftrightarrow> n \<le> length (rest cu) \<and>
    (\<forall>m. p (cut_at m cu) = (if n \<le> m then Inr (x, advance n (cut_at m cu)) else Inl (Err Truncated)))"

definition local_parser :: "'a parser \<Rightarrow> bool" where
  "local_parser p \<longleftrightarrow> (\<forall>cu x cu'. cursor_ok cu \<longrightarrow> p cu = Inr (x, cu') \<longrightarrow>
     (\<exists>n. cu' = advance n cu \<and> local_at p cu x n))"

named_theorems local_intros \<open>decoders that look only at what they consume\<close>

lemma rest_length: "length (rest cu) = length (cu_buf cu) - cu_pos cu"
  by (simp add: rest_def)

lemma cut_advance: "n \<le> m \<Longrightarrow> advance n (cut_at m cu) = cut_at (m - n) (advance n cu)"
  by (simp add: cut_at_def advance_def)

lemma cut_simps [simp]: "cu_pool (cut_at m cu) = cu_pool cu" "cu_pos (cut_at m cu) = cu_pos cu"
  by (simp_all add: cut_at_def)

lemma cursor_ok_steps: "cursor_ok cu \<Longrightarrow> n \<le> length (rest cu) \<Longrightarrow> cursor_ok (advance n cu)"
  by (auto simp: cursor_ok_def advance_def rest_length)

lemma local_return [local_intros]: "local_parser (preturn x)"
  by (auto simp: local_parser_def preturn_def local_at_def intro!: exI [of _ 0])

lemma local_fail [local_intros]: "local_parser (pfail e)"
  by (simp add: local_parser_def pfail_def)

lemma local_reserve [local_intros]: "local_parser (reserve w n)"
  by (auto simp: local_parser_def reserve_def local_at_def split: if_splits intro!: exI [of _ 0])

lemma local_if [local_intros]: "(b \<Longrightarrow> local_parser p) \<Longrightarrow> (\<not> b \<Longrightarrow> local_parser q) \<Longrightarrow> local_parser (if b then p else q)"
  by simp

lemma local_bind [local_intros]:
  assumes "local_parser p" "\<And>x. local_parser (f x)"
  shows "local_parser (pbind p f)"
  unfolding local_parser_def
proof (intro allI impI)
  fix cu y cu2
  assume ok: "cursor_ok cu" and run: "pbind p f cu = Inr (y, cu2)"
  obtain x cu1 where x: "p cu = Inr (x, cu1)" "f x cu1 = Inr (y, cu2)" using run by (auto simp: pbind_Inr)
  obtain n where n: "cu1 = advance n cu" "local_at p cu x n"
    using assms(1) ok x(1) unfolding local_parser_def by blast
  have "cursor_ok cu1" using cursor_ok_steps [OF ok] n by (simp add: local_at_def)
  then obtain k where k: "cu2 = advance k cu1" "local_at (f x) cu1 y k"
    using assms(2) x(2) unfolding local_parser_def by blast
  have "pbind p f (cut_at m cu) = (if n + k \<le> m then Inr (y, advance (n + k) (cut_at m cu)) else Inl (Err Truncated))" for m
  proof (cases "n \<le> m")
    case True
    then have "pbind p f (cut_at m cu) = f x (cut_at (m - n) cu1)"
      using n by (simp add: pbind_def local_at_def cut_advance)
    also have "\<dots> = (if k \<le> m - n then Inr (y, advance k (cut_at (m - n) cu1)) else Inl (Err Truncated))"
      using k(2) by (simp add: local_at_def)
    also have "cut_at (m - n) cu1 = advance n (cut_at m cu)" using n(1) cut_advance [OF True] by simp
    finally show ?thesis using True by auto
  next
    case False
    then show ?thesis using n(2) by (simp add: pbind_def local_at_def)
  qed
  moreover have "k \<le> length (rest cu) - n" "n \<le> length (rest cu)" using n k by (simp_all add: local_at_def)
  then have "n + k \<le> length (rest cu)" by linarith
  ultimately show "\<exists>j. cu2 = advance j cu \<and> local_at (pbind p f) cu y j"
    using n(1) k(1) by (intro exI [of _ "n + k"]) (simp add: local_at_def)
qed

lemma local_take [local_intros]: "local_parser (take_bytes n)"
  unfolding local_parser_def
proof (intro allI impI)
  fix cu x cu'
  assume ok: "cursor_ok cu" and run: "take_bytes n cu = Inr (x, cu')"
  then have t: "cu_pos cu + n < 2 ^ 64" "cu_pos cu + n \<le> length (cu_buf cu)"
    "x = take n (drop (cu_pos cu) (cu_buf cu))" "cu' = advance n cu"
    by (auto simp: take_bytes_def Let_def advance_def split: if_splits)
  have "take_bytes n (cut_at m cu) = (if n \<le> m then Inr (x, advance n (cut_at m cu)) else Inl (Err Truncated))" for m
    using t by (auto simp: take_bytes_def Let_def cut_at_def advance_def drop_take min_absorb1)
  then show "\<exists>j. cu' = advance j cu \<and> local_at (take_bytes n) cu x j"
    using t by (intro exI [of _ n]) (simp add: local_at_def rest_length)
qed

lemma local_u8 [local_intros]: "local_parser take_u8"
  unfolding take_u8_def by (intro local_intros)

lemma local_repeat [local_intros]: "local_parser p \<Longrightarrow> local_parser (p_repeat n p)"
  by (induction n) (auto intro!: local_intros)

lemma local_varint_from [local_intros]: "local_parser (varint_from s v)"
proof (induction s v rule: varint_from.induct)
  case (1 shift v)
  show ?case unfolding varint_from.simps [of shift v] Let_def
    by (intro local_intros) (rule 1 [OF refl _ refl], assumption+)
qed

lemma local_integers [local_intros]:
  "local_parser varint" "local_parser vu32" "local_parser len" "local_parser ivarint"
  unfolding varint_def vu32_def len_def ivarint_def by (intro local_intros)+

lemma local_string [local_intros]: "local_parser parse_string" "local_parser opt_string"
  unfolding parse_string_def opt_string_def by (intro local_intros)+

lemma local_pool_get [local_intros]: "local_parser (pool_get i)"
  by (auto simp: local_parser_def pool_get_def local_at_def intro!: exI [of _ 0])

lemma local_fieldconst [local_intros]: "local_parser fieldconst"
  unfolding fieldconst_def fieldconst_big_def fieldconst_pow2_def Let_def by (intro local_intros)

lemma local_terms [local_intros]: "local_parser (lc_terms_from n prev)"
  by (induction n arbitrary: prev) (auto simp: Let_def intro!: local_intros)

lemma local_ids [local_intros]: "local_parser (ids_from n prev)"
  by (induction n arbitrary: prev) (auto simp: Let_def intro!: local_intros)

lemma local_lc [local_intros]: "local_parser parse_lc" "local_parser parse_var_ids"
  unfolding parse_lc_def parse_var_ids_def by (intro local_intros)+

lemma local_lcs [local_intros]: "local_parser parse_lcs" "local_parser parse_r1csrow"
  unfolding parse_lcs_def parse_r1csrow_def by (intro local_intros)+

lemma local_opcode [local_intros]: "local_parser parse_opcode"
  unfolding parse_opcode_def parse_witness_def by (intro local_intros)

lemma local_note_rule [local_intros]: "local_parser parse_note_rule"
  unfolding parse_note_rule_def parse_run_step_def by (intro local_intros)

lemma local_item_fuel [local_intros]: "local_parser (item_fuel n)"
  by (induction n) (auto simp: item_step_def intro!: local_intros)

lemma local_item [local_intros]: "local_parser item_compact"
  unfolding local_parser_def
proof (intro allI impI)
  fix cu x cu'
  assume ok: "cursor_ok cu" and run: "item_compact cu = Inr (x, cu')"
  let ?n = "Suc (length (rest cu))"
  have "item_fuel ?n cu = Inr (x, cu')" using run by (simp only: item_compact_def)
  then obtain n where n: "cu' = advance n cu" "local_at (item_fuel ?n) cu x n"
    using local_item_fuel ok unfolding local_parser_def by blast
  have "item_compact (cut_at m cu) = item_fuel ?n (cut_at m cu)" for m
  proof -
    have "length (rest (cut_at m cu)) < ?n" by (simp add: rest_length cut_at_def)
    then show ?thesis unfolding item_compact_def by (intro item_fuel_enough) simp
  qed
  then show "\<exists>n. cu' = advance n cu \<and> local_at item_compact cu x n" using n by (auto simp: local_at_def)
qed

lemma local_cut_error:
  assumes "local_parser p" "reads pool p bs x" "length bs < 2 ^ 64" "m < length bs"
  shows "p \<lparr>cu_buf = take m bs, cu_pos = 0, cu_pool = pool\<rparr> = Inl (Err Truncated)"
proof -
  let ?cu = "\<lparr>cu_buf = bs, cu_pos = 0, cu_pool = pool\<rparr>"
  have cu: "cursor_ok ?cu" "cu_pool ?cu = pool" "rest ?cu = bs @ []"
    using assms(3) by (simp_all add: cursor_ok_def rest_def)
  have "p ?cu = Inr (x, advance (length bs) ?cu)" using assms(2) [unfolded reads_def, rule_format, OF cu] .
  then obtain n where n: "advance (length bs) ?cu = advance n ?cu" "local_at p ?cu x n"
    using assms(1) cu(1) unfolding local_parser_def by blast
  have "n = length bs" using n(1) by (simp add: advance_def)
  then have "p (cut_at m ?cu) = Inl (Err Truncated)" using n(2) assms(4) by (simp add: local_at_def)
  then show ?thesis by (simp add: cut_at_def)
qed

section \<open>What is decoded is well-formed\<close>

definition lc_wf :: "lin_comb \<Rightarrow> bool" where
  "lc_wf l \<longleftrightarrow> fc_wf (lc_const l) \<and> list_all (\<lambda>t. fc_wf (t_coeff t)) (lc_terms l)"

fun wop_lcs :: "witness_op \<Rightarrow> lin_comb list" where
  "wop_lcs (Product out left right) = [left, right]"
| "wop_lcs (Linear out l) = [l]"
| "wop_lcs (Xor out a b) = [a, b]"
| "wop_lcs (Or out a b) = [a, b]"
| "wop_lcs (Inverse out input) = [input]"
| "wop_lcs (InverseOrZero out input) = [input]"
| "wop_lcs (Bit out input index) = [input]"
| "wop_lcs (Bits outs input) = [input]"
| "wop_lcs (DivRem q r num den) = [num, den]"
| "wop_lcs (MulModDivMod q r a b modulus limb_bits) = a @ b @ modulus"
| "wop_lcs (ModInverse out a modulus limb_bits) = a @ modulus"
| "wop_lcs (FakeGlv out u modulus lambda limb_bits) = u @ modulus @ lambda"
| "wop_lcs (Sub2 qabs r a b c modulus limb_bits) = a @ b @ c @ modulus"

fun op_wf :: "opcode \<Rightarrow> bool" where
  "op_wf (Constraint r) \<longleftrightarrow> lc_wf (r_a r) \<and> lc_wf (r_b r) \<and> lc_wf (r_c r)"
| "op_wf (Witness w) \<longleftrightarrow> list_all lc_wf (wop_lcs w)"

fun item_wf :: "item \<Rightarrow> bool" where
  "item_wf (Op op) = op_wf op"
| "item_wf (Repeat cnt body steps ns) = list_all item_wf body"

definition gives :: "'a parser \<Rightarrow> ('a \<Rightarrow> bool) \<Rightarrow> bool" where
  "gives p P \<longleftrightarrow> (\<forall>cu x cu'. list_all fc_wf (cu_pool cu) \<longrightarrow> p cu = Inr (x, cu') \<longrightarrow>
     P x \<and> list_all fc_wf (cu_pool cu'))"

named_theorems gives_intros \<open>what decoders return\<close>

lemma gives_return: "P x \<Longrightarrow> gives (preturn x) P"
  by (simp add: gives_def preturn_def)

lemma gives_fail [gives_intros]: "gives (pfail e) P"
  by (simp add: gives_def pfail_def)

lemma gives_reserve [gives_intros]: "gives (reserve w n) (\<lambda>_. True)"
  by (simp add: gives_def reserve_def)

lemma gives_bind: "gives p P \<Longrightarrow> (\<And>x. P x \<Longrightarrow> gives (f x) Q) \<Longrightarrow> gives (pbind p f) Q"
  unfolding gives_def pbind_Inr by blast

lemma gives_mono: "gives p P \<Longrightarrow> (\<And>x. P x \<Longrightarrow> Q x) \<Longrightarrow> gives p Q"
  unfolding gives_def by blast

lemma gives_if [gives_intros]: "(b \<Longrightarrow> gives p P) \<Longrightarrow> (\<not> b \<Longrightarrow> gives q P) \<Longrightarrow> gives (if b then p else q) P"
  by simp

text \<open>Decoders that keep the pool, whatever they return.\<close>

abbreviation keeps :: "'a parser \<Rightarrow> bool" where
  "keeps p \<equiv> gives p (\<lambda>_. True)"

lemma keeps_bind: "keeps p \<Longrightarrow> (\<And>x. gives (f x) Q) \<Longrightarrow> gives (pbind p f) Q"
  by (rule gives_bind)

lemma keeps_take [gives_intros]: "keeps (take_bytes n)"
  by (auto simp: gives_def take_bytes_def Let_def split: if_splits)

lemma keeps_u8 [gives_intros]: "keeps take_u8"
  unfolding take_u8_def by (intro keeps_bind gives_intros gives_return TrueI)

lemma keeps_varint_from [gives_intros]: "keeps (varint_from s v)"
proof (induction s v rule: varint_from.induct)
  case (1 shift v)
  show ?case unfolding varint_from.simps [of shift v] Let_def
    by (intro keeps_bind gives_intros gives_return TrueI) (rule 1 [OF refl _ refl], assumption+)
qed

lemma keeps_integers [gives_intros]: "keeps varint" "keeps vu32" "keeps len" "keeps ivarint"
  unfolding varint_def vu32_def len_def ivarint_def by (intro keeps_bind gives_intros gives_return TrueI)+

lemma keeps_string [gives_intros]: "keeps parse_string" "keeps opt_string"
  unfolding parse_string_def opt_string_def by (intro keeps_bind gives_intros gives_return TrueI)+

lemma gives_repeat [gives_intros]: "gives p P \<Longrightarrow> gives (p_repeat n p) (list_all P)"
proof (induction n)
  case 0
  then show ?case by (simp add: gives_return)
next
  case (Suc n)
  show ?case unfolding p_repeat.simps
    by (rule gives_bind [OF Suc.prems], rule gives_bind [OF Suc.IH [OF Suc.prems]], rule gives_return) simp
qed

lemma keeps_repeat: "keeps p \<Longrightarrow> keeps (p_repeat n p)"
  by (rule gives_mono [OF gives_repeat TrueI])

lemma fc_from_bigint_wf [simp]: "fc_wf (fc_from_bigint z)"
  by (simp add: fc_from_bigint_def norm_def)

lemma gives_fieldconst [gives_intros]: "gives fieldconst fc_wf"
proof -
  have pool: "gives (pool_get i) fc_wf" for i by (auto simp: gives_def pool_get_def list_all_iff split: if_splits)
  have wf: "fc_wf fc_zero" "fc_wf fc_one" "fc_wf (fc_from_i64 i)" for i
    by (simp_all add: fc_zero_def fc_one_def fc_from_i64_def)
  show ?thesis unfolding fieldconst_def fieldconst_big_def fieldconst_pow2_def Let_def
    by (intro keeps_bind gives_intros gives_return pool wf fc_from_bigint_wf)
qed

lemma gives_terms [gives_intros]: "gives (lc_terms_from n prev) (list_all (\<lambda>t. fc_wf (t_coeff t)))"
proof (induction n arbitrary: prev)
  case 0
  then show ?case by (simp add: gives_return)
next
  case (Suc n)
  show ?case unfolding lc_terms_from.simps Let_def
    by (rule gives_bind [OF gives_fieldconst], rule keeps_bind [OF keeps_integers(4)], rule gives_bind [OF Suc.IH],
        rule gives_return) simp
qed

lemma gives_lc [gives_intros]: "gives parse_lc lc_wf"
  unfolding parse_lc_def
  by (rule gives_bind [OF gives_fieldconst], rule keeps_bind [OF keeps_integers(3)], rule gives_bind [OF gives_terms],
      rule gives_return) (simp add: lc_wf_def)

lemma keeps_ids [gives_intros]: "keeps (ids_from n prev)"
  by (induction n arbitrary: prev) (auto simp: Let_def intro!: keeps_bind gives_return gives_intros)

lemma keeps_var_ids [gives_intros]: "keeps parse_var_ids"
  unfolding parse_var_ids_def by (intro keeps_bind gives_intros)

lemma gives_lcs [gives_intros]: "gives parse_lcs (list_all lc_wf)"
  unfolding parse_lcs_def by (intro keeps_bind gives_intros)

lemma gives_row: "gives parse_r1csrow (\<lambda>r. op_wf (Constraint r))"
  unfolding parse_r1csrow_def
  by (rule gives_bind [OF gives_lc], rule gives_bind [OF gives_lc], rule gives_bind [OF gives_lc],
      rule keeps_bind [OF keeps_string(2)], rule gives_return) simp

lemma gives_witness: "gives (parse_witness tag) (\<lambda>w. list_all lc_wf (wop_lcs w))"
  unfolding parse_witness_def
  by (intro gives_if gives_fail)
    ((rule gives_bind [OF gives_lc] gives_bind [OF gives_lcs] keeps_bind [OF keeps_integers(2)]
        keeps_bind [OF keeps_var_ids] gives_return | simp only: wop_lcs.simps list_all_append list.pred_inject simp_thms)+)

lemma gives_opcode [gives_intros]: "gives parse_opcode op_wf"
  unfolding parse_opcode_def
  by (rule keeps_bind [OF keeps_u8], rule gives_if;
      (rule gives_bind [OF gives_row] gives_bind [OF gives_witness], rule gives_return, simp))

lemma keeps_note_rule [gives_intros]: "keeps parse_note_rule"
  unfolding parse_note_rule_def parse_run_step_def by (intro keeps_bind keeps_repeat gives_intros gives_return TrueI)

lemma gives_item_step: "gives self item_wf \<Longrightarrow> gives (item_step self) item_wf"
  unfolding item_step_def
  by (intro keeps_bind [OF keeps_u8] gives_if gives_fail)
    (rule gives_bind [OF gives_opcode] gives_bind [OF gives_repeat, of self item_wf] keeps_bind gives_return gives_if
      keeps_repeat keeps_integers keeps_note_rule keeps_u8 gives_reserve gives_fail | simp)+

lemma gives_item_fuel: "gives (item_fuel n) item_wf"
  by (induction n) (auto intro: gives_item_step gives_fail)

lemma gives_item: "gives item_compact item_wf"
  using gives_item_fuel unfolding gives_def item_compact_def by blast

section \<open>The theorems\<close>

lemma u8_bind_less:
  assumes "pbind take_u8 g cu = Inr (x, cu')" "\<And>t. shrinks (g t)"
  shows "length (rest cu') < length (rest cu)"
proof -
  obtain t cu1 where t: "take_u8 cu = Inr (t, cu1)" "g t cu1 = Inr (x, cu')" using assms(1) by (auto simp: pbind_Inr)
  show ?thesis using take_u8_less [OF t(1)] shrinksD [OF assms(2) t(2)] by simp
qed

lemma item_step_less: "shrinks self \<Longrightarrow> item_step self cu = Inr (it, cu') \<Longrightarrow> length (rest cu') < length (rest cu)"
  unfolding item_step_def by (erule u8_bind_less) (intro shrink_intros)

text \<open>Decoding an item terminates on every buffer: the fuelled decoder satisfies the code's recursion, more
  fuel than one level for each byte left changes nothing, and what succeeds has consumed a byte.\<close>

theorem item_decoder_terminates:
  "item_compact cu = item_step item_compact cu \<and>
   item_fuel (Suc (length (rest cu)) + k) cu = item_compact cu \<and>
   (case item_compact cu of Inl e \<Rightarrow> True | Inr (it, cu') \<Rightarrow> length (rest cu') < length (rest cu))"
proof (intro conjI)
  show "item_compact cu = item_step item_compact cu" by (rule item_compact_unfold)
  show "item_fuel (Suc (length (rest cu)) + k) cu = item_compact cu"
    unfolding item_compact_def by (rule item_fuel_enough) simp_all
  have shrink: "shrinks item_compact"
    unfolding shrinks_def item_compact_def using shrinks_item_fuel unfolding shrinks_def by blast
  show "case item_compact cu of Inl e \<Rightarrow> True | Inr (it, cu') \<Rightarrow> length (rest cu') < length (rest cu)"
  proof (cases "item_compact cu")
    case (Inr r)
    obtain it cu' where r: "r = (it, cu')" by (cases r)
    then have "item_step item_compact cu = Inr (it, cu')" using Inr item_compact_unfold [of cu] by simp
    then show ?thesis using item_step_less [OF shrink] Inr r by simp
  qed simp
qed

lemma length_put_varint: "0 < k \<Longrightarrow> unat v < 2 ^ (7 * k) \<Longrightarrow> length (put_varint v) \<le> k"
proof (induction v arbitrary: k rule: put_varint.induct)
  case (1 v)
  define w where "w = drop_bit 7 v"
  have put: "length (put_varint v) = (if w = 0 then 1 else Suc (length (put_varint w)))"
    by (subst put_varint.simps) (simp add: w_def Let_def)
  have uw: "unat w = unat v div 128" unfolding w_def unat_drop_bit_eq by (simp add: drop_bit_eq_div)
  show ?case
  proof (cases "w = 0")
    case False
    then have "128 \<le> unat v" using uw by (metis div_less not_less unat_eq_0)
    then have "k \<noteq> 1" using "1.prems"(2) by auto
    then obtain j where j: "k = Suc j" "0 < j" using "1.prems"(1) by (cases k) auto
    have "unat v < 2 ^ (7 * j) * 128" using "1.prems"(2) by (simp add: j(1) power_add mult.commute)
    then have "unat w < 2 ^ (7 * j)" unfolding uw by (rule less_mult_imp_div_less)
    then show ?thesis using 1(1) [OF refl w_def False j(2)] put j(1) False by simp
  qed (use put "1.prems" in simp)
qed

lemma varint_from_consumes:
  "64 \<le> s + 7 * n \<Longrightarrow> 0 < n \<Longrightarrow> case varint_from s v cu of Inl e \<Rightarrow> e = Err Truncated
     | Inr (w, cu') \<Rightarrow> length (rest cu) \<le> length (rest cu') + n"
proof (induction n arbitrary: s v cu)
  case (Suc n)
  have u8: "case take_u8 cu of Inl e \<Rightarrow> e = Err Truncated | Inr (b, cu') \<Rightarrow> length (rest cu) \<le> Suc (length (rest cu'))"
    by (auto simp: take_u8_def pbind_def preturn_def take_bytes_def rest_def Let_def)
  show ?case
  proof (cases "take_u8 cu")
    case (Inl e)
    then show ?thesis using u8 by (subst varint_from.simps) (simp add: pbind_def)
  next
    case (Inr r)
    obtain b cu1 where r: "r = (b, cu1)" by (cases r)
    have le: "length (rest cu) \<le> Suc (length (rest cu1))" using u8 Inr r by simp
    let ?v = "v OR push_bit s (ucast (b AND 0x7f))"
    have run: "varint_from s v cu = (if b AND 0x80 = 0 then Inr (?v, cu1)
        else if 64 \<le> s + 7 then Inl (Err Truncated) else varint_from (s + 7) ?v cu1)"
      by (subst varint_from.simps) (simp add: pbind_def Inr r Let_def preturn_def pfail_def)
    show ?thesis
    proof (cases "b AND 0x80 = 0 \<or> 64 \<le> s + 7")
      case True
      then show ?thesis using le unfolding run by auto
    next
      case False
      then have "0 < n" "64 \<le> s + 7 + 7 * n" using Suc.prems by (auto intro: ccontr)
      from Suc.IH [OF this(2,1), where v = ?v and cu = cu1] show ?thesis using False le unfolding run
        by (auto split: sum.splits)
    qed
  qed
qed simp

text \<open>A varint takes between one and ten bytes, and the decoder reads at most ten; the only error it has is
  the truncation.\<close>

theorem varint_bounds:
  "1 \<le> length (put_varint v) \<and> length (put_varint v) \<le> 10 \<and>
   (case varint cu of Inl e \<Rightarrow> e = Err Truncated | Inr (w, cu') \<Rightarrow> length (rest cu) \<le> length (rest cu') + 10)"
proof (intro conjI)
  show "1 \<le> length (put_varint v)" by (subst put_varint.simps) (simp add: Let_def)
  have "unat v < 2 ^ 64" using unsigned_less [of v] by simp
  also have "(2 :: nat) ^ 64 < 2 ^ (7 * 10)" by simp
  finally show "length (put_varint v) \<le> 10" by (intro length_put_varint) simp_all
  show "case varint cu of Inl e \<Rightarrow> e = Err Truncated | Inr (w, cu') \<Rightarrow> length (rest cu) \<le> length (rest cu') + 10"
    unfolding varint_def by (rule varint_from_consumes) simp_all
qed

text \<open>Every encodable opcode is read back as it was written, wherever it stands in a buffer, when the two
  constant pools agree.\<close>

theorem opcode_round_trip:
  assumes "pool_agrees ep (cu_pool cu)" "op_ok op" "cursor_ok cu" "rest cu = put_opcode ep op @ ys"
  shows "parse_opcode cu = Inr (op, advance (length (put_opcode ep op)) cu)"
  using opcode_codec.round_trip [where ep = ep and pool = "cu_pool cu" and x = op] assms unfolding reads_def by blast

text \<open>C39: An encoded item cut short anywhere is refused as truncated.\<close>

theorem truncated_item_refused:
  assumes "pool_agrees ep pool" "item_ok it" "short (put_item_compact ep it)" "m < length (put_item_compact ep it)"
  shows "item_compact \<lparr>cu_buf = take m (put_item_compact ep it), cu_pos = 0, cu_pool = pool\<rparr> = Inl (Err Truncated)"
  using local_cut_error [OF local_item reads_item [OF assms(1,2)]] assms(3,4) by (simp add: short_def)

text \<open>C40: Whatever the bytes, every field constant of a decoded item is in the canonical representation on which
  equality of constants rests, if those of the pool are.\<close>

theorem decoded_item_wf:
  assumes "list_all fc_wf (cu_pool cu)"
  shows "case item_compact cu of Inl e \<Rightarrow> True | Inr (it, cu') \<Rightarrow> item_wf it"
  using gives_item assms unfolding gives_def by (auto split: sum.split)

text \<open>C20: A stream of items, loops nested to any depth, is read back as it was written. When the encoder's
  constant pool indexes the decoder's, and every constant is at most \<open>2 ^ 4096\<close> in size and every
  length one a vector can have, decoding the bytes gives the expansion of the items in order (a panic
  exactly when expanding them panics), and no other such stream has the same bytes.\<close>

theorem items_round_trip:
  assumes "pool_agrees ep pool" "list_all item_ok its" "short its" "short bytes"
    "bytes = put_len (length its) @ concat (map (put_item_compact ep) its)"
  shows "decode_and_expand_ops_compact bytes pool = map_option Inr (emit_items its ([], [])) \<and>
    (\<forall>its'. list_all item_ok its' \<and> short its' \<and>
      bytes = put_len (length its') @ concat (map (put_item_compact ep) its') \<longrightarrow> its' = its)"
proof (intro conjI allI impI)
  show "decode_and_expand_ops_compact bytes pool = map_option Inr (emit_items its ([], []))"
    by (rule decode_written [OF assms(1-3,5,4)])
  let ?dec = "pbind len (\<lambda>n. p_repeat n item_compact)"
  have reads: "reads pool ?dec (put_len (length xs) @ concat (map (put_item_compact ep) xs)) xs"
    if "list_all item_ok xs" "short xs" for xs
    using that item_codec.list_reads [where pool = pool and ep = ep and xs = xs] assms(1)
    by (intro reads_bind [OF reads_len]) (simp_all add: short_def list_all_iff)
  let ?cu = "\<lparr>cu_buf = bytes, cu_pos = 0, cu_pool = pool\<rparr>"
  have cu: "cursor_ok ?cu" "cu_pool ?cu = pool" "rest ?cu = bytes @ []"
    using assms(4) by (simp_all add: cursor_ok_def rest_def short_def)
  have "?dec ?cu = Inr (xs, advance (length bytes) ?cu)"
    if "list_all item_ok xs" "short xs" "bytes = put_len (length xs) @ concat (map (put_item_compact ep) xs)" for xs
    using reads [OF that(1,2), folded that(3), unfolded reads_def, rule_format, OF cu] .
  moreover fix its'
  assume "list_all item_ok its' \<and> short its' \<and> bytes = put_len (length its') @ concat (map (put_item_compact ep) its')"
  ultimately show "its' = its" using assms(2,3,5) by (metis Inr_inject Pair_inject)
qed

section \<open>Examples\<close>

definition bit_example :: witness_op where
  "bit_example = Bit 5 \<lparr>lc_const = fc_zero, lc_terms = [\<lparr>t_coeff = fc_one, t_var = 1\<rparr>]\<rparr> 0"

definition loop_example :: item where
  "loop_example = Repeat 3 [Op (Witness bit_example)] [1, 0, 1] []"

lemma example_ok: "wop_ok bit_example" "item_ok loop_example"
  by (simp_all add: loop_example_def bit_example_def lc_ok_def fc_ok_def short_def fc_zero_def fc_one_def fc_from_i64_def)

lemma example_bytes:
  "put_opcode None (Witness bit_example) = [7, 5, 0, 1, 1, 2, 0]"
  "put_item_compact None loop_example = [1, 3, 1, 0, 7, 5, 0, 1, 1, 2, 0, 3, 2, 0, 2, 0, 0]"
  by code_simp+

theorem opcode_round_trip_witness:
  "parse_opcode \<lparr>cu_buf = [42, 7, 5, 0, 1, 1, 2, 0, 9], cu_pos = 1, cu_pool = []\<rparr> =
    Inr (Witness bit_example, \<lparr>cu_buf = [42, 7, 5, 0, 1, 1, 2, 0, 9], cu_pos = 8, cu_pool = []\<rparr>)"
proof -
  let ?cu = "\<lparr>cu_buf = [42, 7, 5, 0, 1, 1, 2, 0, 9], cu_pos = 1, cu_pool = []\<rparr>"
  have "pool_agrees None (cu_pool ?cu)" "cursor_ok ?cu" "rest ?cu = put_opcode None (Witness bit_example) @ [9]"
    by (simp_all add: pool_agrees_def cursor_ok_def rest_def example_bytes del: put_opcode.simps)
  from opcode_round_trip [OF this(1) _ this(2,3)] show ?thesis
    by (simp add: example_ok example_bytes advance_def del: put_opcode.simps)
qed

theorem truncated_item_refused_witness:
  "item_compact \<lparr>cu_buf = [1, 3, 1, 0, 7, 5, 0, 1, 1], cu_pos = 0, cu_pool = []\<rparr> = Inl (Err Truncated)"
  using truncated_item_refused [of None "[]" loop_example 9]
  by (simp add: pool_agrees_def example_ok example_bytes short_def del: put_item_compact.simps item_ok.simps)

theorem decoded_item_wf_witness:
  "\<exists>it cu'. item_compact \<lparr>cu_buf = [1, 3, 1, 0, 7, 5, 0, 1, 1, 2, 0, 3, 2, 0, 2, 0, 0], cu_pos = 0, cu_pool = []\<rparr> =
    Inr (it, cu') \<and> item_wf it"
proof -
  let ?cu = "\<lparr>cu_buf = [1, 3, 1, 0, 7, 5, 0, 1, 1, 2, 0, 3, 2, 0, 2, 0, 0], cu_pos = 0, cu_pool = []\<rparr>"
  have "cursor_ok ?cu" "cu_pool ?cu = []" "rest ?cu = put_item_compact None loop_example @ []"
    by (simp_all add: cursor_ok_def rest_def example_bytes del: put_item_compact.simps)
  then have "\<exists>cu'. item_compact ?cu = Inr (loop_example, cu')"
    using reads_item [of None "[]" loop_example] example_ok(2) unfolding reads_def by (simp add: pool_agrees_def del: item_ok.simps)
  then show ?thesis using decoded_item_wf [of ?cu] by auto
qed

text \<open>A loop of loops.\<close>

definition nested_example :: item where
  "nested_example = Repeat 2 [loop_example] [10, 0, 0] []"

lemma nested_bytes: "put_len 1 @ put_item_compact None nested_example =
    [1, 1, 2, 1, 1, 3, 1, 0, 7, 5, 0, 1, 1, 2, 0, 3, 2, 0, 2, 0, 0, 3, 20, 0, 0, 0, 0]"
  by code_simp

lemma nested_ok: "item_ok nested_example"
  using example_ok(2) by (simp add: nested_example_def short_def del: item_ok.simps) (simp add: short_def loop_example_def)

lemma nested_emits: "emit_items [nested_example] ([], []) = Some ([], map (\<lambda>(out, i).
    Bit out \<lparr>lc_const = fc_zero, lc_terms = [\<lparr>t_coeff = fc_one, t_var = 1\<rparr>]\<rparr> i) [(5, 0), (6, 1), (7, 2), (15, 0), (16, 1), (17, 2)])"
  by code_simp

theorem items_round_trip_witness:
  "decode_and_expand_ops_compact
     [1, 1, 2, 1, 1, 3, 1, 0, 7, 5, 0, 1, 1, 2, 0, 3, 2, 0, 2, 0, 0, 3, 20, 0, 0, 0, 0] [] =
   Some (Inr ([], map (\<lambda>(out, i). Bit out \<lparr>lc_const = fc_zero, lc_terms = [\<lparr>t_coeff = fc_one, t_var = 1\<rparr>]\<rparr> i)
     [(5, 0), (6, 1), (7, 2), (15, 0), (16, 1), (17, 2)]))"
proof -
  let ?bytes = "[1, 1, 2, 1, 1, 3, 1, 0, 7, 5, 0, 1, 1, 2, 0, 3, 2, 0, 2, 0, 0, 3, 20, 0, 0, 0, 0] :: u8 list"
  have "pool_agrees None []" "list_all item_ok [nested_example]" "short [nested_example]" "short ?bytes"
    using nested_ok by (simp_all add: pool_agrees_def short_def del: item_ok.simps)
  moreover have "?bytes = put_len (length [nested_example]) @ concat (map (put_item_compact None) [nested_example])"
    using nested_bytes by (simp del: put_item_compact.simps)
  ultimately show ?thesis using items_round_trip [of None "[]" "[nested_example]" ?bytes] nested_emits by simp
qed

end
