(* ===== verification/Roll_Limits.thy ===== *)
theory Roll_Limits
  imports Roll_Props Decode_Props
begin

text \<open>
  Five inputs on which the code does less than its comments say, each outside what the
  theorems of \<open>Roll_Props\<close> assume.
\<close>

section \<open>A number with a leading zero\<close>

lemma tokens_zero: "tokenize_runs ''b09'' = [(''b'', False), (''09'', True)]"
  "tokenize_runs ''b10'' = [(''b'', False), (''10'', True)]"
  by (simp_all add: tokenize_runs_def tok_push_def is_ascii_digit_def)

lemma zero_notes: "derive_note_rule (Some ''b09'') (Some ''b10'') = Some (Template [(1, 1)])"
  "apply_note_template ''b09'' 0 [(1, 1)] = ''b9''" "apply_note_template ''b09'' 1 [(1, 1)] = ''b10''"
  unfolding derive_note_rule_def apply_note_template_def template_step_def Let_def option.case prod.case tokens_zero
  by code_simp+

lemma zero_struct: "item_struct_bytes (Op (bit_row 3 ''b10'')) = item_struct_bytes (Op (bit_row 2 ''b09''))"
  "item_hash (Op (bit_row 3 ''b10'')) = item_hash (Op (bit_row 2 ''b09''))"
  by code_simp+

definition zero_rows :: "opcode list" where
  "zero_rows = [bit_row 2 ''b09'', bit_row 3 ''b10'']"

definition zero_loop :: item where
  "zero_loop = Repeat 2 [Op (bit_row 2 ''b09'')] [1, 1, 1] [Template [(1, 1)]]"

lemma zero_try: "try_build_repeat (map Op zero_rows) [h, h] 0 1 = Some zero_loop"
proof -
  have ops: "block (map Op zero_rows) 0 1 = [Op (bit_row 2 ''b09'')]" "block (map Op zero_rows) 1 1 = [Op (bit_row 3 ''b10'')]"
    by (simp_all add: zero_rows_def block_def)
  have vars: "op_operands (bit_row v n) = [v, v, v]" "op_notes (bit_row v n) = [Some n]" for v n
    by (simp_all add: bit_row_def bit_lc_def lc_operands_def)
  have blocks: "block_operands (map Op zero_rows) 0 1 = [2, 2, 2]" "block_operands (map Op zero_rows) 1 1 = [3, 3, 3]"
    "block_notes (map Op zero_rows) 0 1 = [Some ''b09'']" "block_notes (map Op zero_rows) 1 1 = [Some ''b10'']"
    unfolding block_operands_def block_notes_def ops item_operands_eq item_notes_eq by (simp_all add: vars)
  have bytes: "block_struct (map Op zero_rows) 1 1 = block_struct (map Op zero_rows) 0 1"
    unfolding block_struct_def ops using zero_struct by (simp del: item_struct_bytes.simps)
  have two: "length zero_rows = 2" by (simp add: zero_rows_def)
  have count: "extend_count (map Op zero_rows) 0 1 [1, 1, 1] [Template [(1, 1)]] 2 = 2"
    by (subst extend_count.simps) (simp add: two del: One_nat_def)
  have "list_all (\<lambda>j. [h, h] ! j = [h] ! j) [0..<1]" by simp
  then show ?thesis unfolding try_build_repeat_def Let_def
    using zero_notes(1) count by (simp add: blocks bytes ops two zero_loop_def del: One_nat_def)
qed

lemma zero_pass: "roll_pass (map Op zero_rows) [h, h] = Some ([zero_loop], [item_hash zero_loop], True)"
proof -
  have cand: "candidates [h, h] = [1, USIZE_MAX]"
    by (simp add: candidates_def next_same_def bt_insert_def find_period.simps block_hashes_match_def
        MAX_PERIOD_TRIES_def HASH_CHECK_CAP_def numeral_2_eq_2 Let_def upt_rec)
  have two: "length zero_rows = 2" by (simp add: zero_rows_def)
  have "roll_at (map Op zero_rows) [h, h] [1, USIZE_MAX] t 0 = Some zero_loop" for t
    using zero_try [of h] by (simp add: roll_at_def Let_def sparse_min_def USIZE_MAX_def)
  then show ?thesis unfolding roll_pass_def Let_def cand
    by (subst roll_loop.simps, subst roll_loop.simps) (simp add: two zero_loop_def)
qed

text \<open>Iteration 0 of a template is replayed through the numbers, not copied: the row \<open>b09\<close> comes back
  as \<open>b9\<close>.\<close>

lemma leading_zeros_lost:
  "roll_stream zero_rows = Some [zero_loop] \<and>
   emit_items [zero_loop] ([], []) = Some (rows_of [bit_row 2 ''b9'', bit_row 3 ''b10''], [])"
proof
  have "map item_hash (map Op zero_rows) = replicate 2 (item_hash (Op (bit_row 2 ''b09'')))"
    using zero_struct(2) by (simp add: zero_rows_def numeral_2_eq_2)
  then show "roll_stream zero_rows = Some [zero_loop]"
    using zero_pass [of "item_hash (Op (bit_row 2 ''b09''))"]
    by (simp add: roll_stream_def MAX_ROLL_PASSES_def numeral_eq_Suc roll_pass_def [of "[zero_loop]"])
  show "emit_items [zero_loop] ([], []) = Some (rows_of [bit_row 2 ''b9'', bit_row 3 ''b10''], [])"
  proof -
    have two: "unat (2 :: u32) = Suc (Suc 0)" by simp
    show ?thesis unfolding zero_loop_def emit_items.simps emit_item.simps two emit_iters.simps
      using zero_notes(2,3)
      by (simp add: bit_row_def bit_lc_def rows_of_def visit_r1csrow_def visit_lc_def vbind_def vreturn_def
          shift_operand_def shift_note_def apply_note_rule_def Let_def)
  qed
qed

section \<open>A loop with too few steps\<close>

text \<open>The blob decodes, and expanding it indexes past the steps: a panic, not a \<open>bytecode_error\<close>.\<close>

lemma short_steps_panic: "decode_and_expand_ops_compact [1, 1, 1, 1, 0, 2, 0, 0, 0, 0, 0, 0] [] = Some (Inl e) \<longleftrightarrow> False"
  "decode_and_expand_ops_compact [1, 1, 1, 1, 0, 2, 0, 0, 0, 0, 0, 0] [] = None"
proof -
  define it where "it = Repeat 1 [Op (Witness (Linear 0 lc_zero))] [] []"
  have bytes: "[1, 1, 1, 1, 0, 2, 0, 0, 0, 0, 0, 0] = put_len (length [it]) @ concat (map (put_item_compact None) [it])"
  proof -
    have "put_len (length [it]) @ concat (map (put_item_compact None) [it]) = put_len 1 @ put_item_compact None it" by simp
    also have "\<dots> = [1, 1, 1, 1, 0, 2, 0, 0, 0, 0, 0, 0]" unfolding it_def by code_simp
    finally show ?thesis ..
  qed
  have "item_ok it"
    by (simp add: it_def lc_zero_def lc_ok_def fc_ok_def short_def fc_zero_def fc_from_i64_def)
  then have "decode_and_expand_ops_compact [1, 1, 1, 1, 0, 2, 0, 0, 0, 0, 0, 0] [] = map_option Inr (emit_items [it] ([], []))"
    by (intro decode_written [OF _ _ _ bytes]) (simp_all add: pool_agrees_def short_def)
  also have "emit_items [it] ([], []) = None"
    by (simp add: it_def vbind_def vreturn_def visit_lc_def lc_zero_def shift_operand_def)
  finally show "decode_and_expand_ops_compact [1, 1, 1, 1, 0, 2, 0, 0, 0, 0, 0, 0] [] = None" by simp
  then show "decode_and_expand_ops_compact [1, 1, 1, 1, 0, 2, 0, 0, 0, 0, 0, 0] [] = Some (Inl e) \<longleftrightarrow> False" by simp
qed

section \<open>A note count no vector can hold\<close>

text \<open>A loop that announces \<open>2 ^ 62\<close> unchanging notes in fourteen bytes: the decoder panics on the
  capacity instead of reporting an error.\<close>

lemma reads_step:
  assumes "reads [] p bs x" "cursor_ok cu \<and> cu_pool cu = [] \<and> rest cu = bs @ ys"
  shows "pbind p f cu = f x (advance (length bs) cu)"
    and "cursor_ok (advance (length bs) cu) \<and> cu_pool (advance (length bs) cu) = [] \<and> rest (advance (length bs) cu) = ys"
  using assms cursor_ok_advance [of cu bs ys] by (auto simp: reads_def pbind_def)

lemma huge_notes_panic:
  "item_compact \<lparr>cu_buf = [1, 1, 0, 0, 128, 128, 128, 128, 128, 128, 128, 128, 64, 0], cu_pos = 0, cu_pool = []\<rparr> = Inl Panic"
proof -
  let ?cu = "\<lparr>cu_buf = [1, 1, 0, 0, 128, 128, 128, 128, 128, 128, 128, 128, 64, 0], cu_pos = 0, cu_pool = []\<rparr> :: cursor"
  have bytes: "put_vu32 1 = [1]" "put_len 0 = [0]" "put_len 4611686018427387904 = [128, 128, 128, 128, 128, 128, 128, 128, 64]"
    by (simp_all add: put_vu32_def put_len_def put_varint.simps Let_def)
  have 0: "cursor_ok ?cu \<and> cu_pool ?cu = [] \<and>
      rest ?cu = [ITEM_REPEAT] @ put_vu32 1 @ put_len 0 @ put_len 0 @ put_len 4611686018427387904 @ [0] @ []"
    by (simp add: bytes cursor_ok_def rest_def ITEM_REPEAT_def)
  note 1 = reads_step [OF reads_u8 0]
  note 2 = reads_step [OF reads_vu32 1(2)]
  have len: "reads [] len (put_len 0) 0" "reads [] len (put_len 4611686018427387904) 4611686018427387904"
    by (rule reads_len; simp)+
  note 3 = reads_step [OF len(1) 2(2)]
  note 4 = reads_step [OF len(1) 3(2)]
  note 5 = reads_step [OF len(2) 4(2)]
  note 6 = reads_step [OF reads_u8 5(2)]
  have none: "pbind (p_repeat 0 p) f cu = f [] cu" for p :: "'a parser" and f :: "'a list \<Rightarrow> 'b parser" and cu
    by (simp add: pbind_def preturn_def)
  have tags: "ITEM_REPEAT \<noteq> ITEM_OP" by (simp add: ITEM_REPEAT_def ITEM_OP_def)
  have cap: "\<not> capacity_ok NOTE_RULE_BYTES 4611686018427387904" by (simp add: capacity_ok_def NOTE_RULE_BYTES_def)
  show ?thesis
    by (subst item_compact_unfold) (simp only: item_step_def 1(1) tags if_False if_True simp_thms 2(1) 3(1) 4(1) 5(1)
        none 6(1), simp add: pbind_def reserve_def cap)
qed

section \<open>Structural bytes of loops\<close>

text \<open>A loop's bytes carry no lengths, so two loops with different note rules can have the same ones.\<close>

lemma loop_bytes_ambiguous:
  "\<exists>a b. item_struct_bytes a = item_struct_bytes b \<and> shape a \<noteq> shape b"
proof -
  let ?x = "(0, 1) :: u32 \<times> i64" and ?y = "(5, 1) :: u32 \<times> i64"
  define a where "a = Repeat 2 [] [] [Template [?x, (257, 256)], Template [?y]]"
  define b where "b = Repeat 2 [] [] [Template [?x], Template [(1, 2 ^ 56 + 1), ?y]]"
  have "item_struct_bytes a = item_struct_bytes b" unfolding a_def b_def by code_simp
  moreover have "shape a \<noteq> shape b" by (simp add: a_def b_def)
  ultimately show ?thesis by blast
qed

section \<open>A large power of two\<close>

text \<open>The encoder writes any power of two as its exponent; the decoder refuses exponents above 4096.\<close>

lemma count_ones_power: "count_ones (2 ^ k) = 1" "low_zeros (2 ^ k) = k"
proof -
  show "count_ones (2 ^ k) = 1"
  proof (induction k)
    case 0
    show ?case by (subst count_ones.simps) (simp add: count_ones.simps [of 0])
  next
    case (Suc k)
    then show ?case by (subst count_ones.simps) simp
  qed
  show "low_zeros (2 ^ k) = k"
    by (induction k) (simp add: low_zeros.simps, subst low_zeros.simps, simp)
qed

lemma big_power_refused:
  assumes "4096 < k" "k < 2 ^ 63"
  shows "fieldconst \<lparr>cu_buf = put_fieldconst None (fc_from_bigint (2 ^ k)), cu_pos = 0, cu_pool = []\<rparr> = Inl (Err Truncated)"
proof -
  have big: "(2 :: int) ^ 63 < 2 ^ k" using assms(1) by (intro power_strict_increasing) simp_all
  then have fc: "fc_from_bigint (2 ^ k) = Big (2 ^ k)" by (simp add: fc_from_bigint_def norm_def i64_fits_def)
  have mag: "nat \<bar>2 ^ k\<bar> = 2 ^ k" by (simp add: nat_power_eq)
  have ne: "(2 :: int) ^ k \<noteq> 0" "(2 :: int) ^ k \<noteq> 1" "(2 :: int) ^ k \<noteq> - 1" "\<not> (2 :: int) ^ k < 0" using big by simp_all
  have big_parts: "fc_as_i64 (Big b) = None" "fc_big (Big b) = b" for b by (simp_all add: fc_as_i64_def)
  have zeros: "trailing_zeros ((2 :: nat) ^ k) = Some k" by (simp add: trailing_zeros_def count_ones_power)
  have put: "put_fieldconst None (fc_from_bigint (2 ^ k)) = FC_POW2 # put_varint (of_nat k)"
    unfolding fc put_fieldconst_def put_plain_fieldconst_def pool_hit_def big_parts Let_def mag count_ones_power zeros
    using ne by (simp only: if_False if_True option.case if_cancel simp_thms)
  define cu where "cu = \<lparr>cu_buf = FC_POW2 # put_varint (of_nat k), cu_pos = 0, cu_pool = []\<rparr>"
  have "length (put_varint (of_nat k)) \<le> 10" using varint_bounds by blast
  then have cu: "cursor_ok cu" "cu_pool cu = []" "rest cu = [FC_POW2] @ put_varint (of_nat k)"
    by (simp_all add: cu_def cursor_ok_def rest_def)
  have t: "take_u8 cu = Inr (FC_POW2, advance 1 cu)"
    using reads_u8 [of "[]" FC_POW2, unfolded reads_def, rule_format, OF cu] by simp
  have "varint (advance 1 cu) = Inr (of_nat k, advance (length (put_varint (of_nat k))) (advance 1 cu))"
    using reads_varint [of "[]" "of_nat k", unfolded reads_def, rule_format, of "advance 1 cu" "[]"]
      cursor_ok_advance [OF cu(1,3)] cu by simp
  moreover have "unat (of_nat k :: u64) = k" using assms(2) by (simp add: unat_of_nat take_bit_nat_eq_self)
  ultimately have "fieldconst_pow2 False (advance 1 cu) = Inl (Err Truncated)"
    using assms(1) by (simp add: fieldconst_pow2_def pbind_def pfail_def)
  moreover have "fieldconst cu = fieldconst_pow2 False (advance 1 cu)"
    unfolding fieldconst_def pbind_def [of take_u8] t by (simp add: fc_tags)
  ultimately show ?thesis unfolding put cu_def [symmetric] by simp
qed

end
