(* ===== verification/Range_Min.thy ===== *)
theory Range_Min
  imports Roll
begin

text \<open>
  \<^verbatim>\<open>SparseMin\<close> answers range queries with the minimum of the range.
\<close>

section \<open>The range-minimum table\<close>

definition segment :: "nat list \<Rightarrow> nat \<Rightarrow> nat \<Rightarrow> nat set" where
  "segment data l r = (!) data ` {l..<r}"

lemma segment_finite [simp]: "finite (segment data l r)" "segment data l r = {} \<longleftrightarrow> r \<le> l"
  by (auto simp: segment_def)

lemma segment_join: "l \<le> m \<Longrightarrow> m' \<le> r \<Longrightarrow> l \<le> m' \<Longrightarrow> m' \<le> m \<Longrightarrow> m \<le> r \<Longrightarrow>
    segment data l m \<union> segment data m' r = segment data l r"
proof -
  assume "l \<le> m" "m' \<le> r" "l \<le> m'" "m' \<le> m" "m \<le> r"
  then have "{l..<m} \<union> {m'..<r} = {l..<r}" by auto
  then show ?thesis by (simp add: segment_def image_Un [symmetric])
qed

lemma Min_join: "l < m \<Longrightarrow> m' < r \<Longrightarrow> l \<le> m' \<Longrightarrow> m' \<le> m \<Longrightarrow> m \<le> r \<Longrightarrow>
    min (Min (segment data l m)) (Min (segment data m' r)) = Min (segment data l r)"
  using Min_Un [of "segment data l m" "segment data m' r"] segment_join [of l m m' r data]
  by (simp add: min_def not_le)

definition row_spec :: "nat list \<Rightarrow> nat \<Rightarrow> nat list \<Rightarrow> bool" where
  "row_spec data k row \<longleftrightarrow> (\<forall>i. i + 2 ^ k \<le> length data \<longrightarrow> row ! i = Min (segment data i (i + 2 ^ k)))"

lemma sparse_rows_spec:
  "n = length data \<Longrightarrow> 0 < k \<Longrightarrow> row_spec data (k - 1) prev \<Longrightarrow> k \<le> j \<Longrightarrow> 2 ^ j \<le> n \<Longrightarrow>
    row_spec data j (sparse_rows n prev k ! (j - k))"
proof (induction n prev k rule: sparse_rows.induct)
  case (1 n prev k)
  have "(2 :: nat) ^ k \<le> 2 ^ j" using "1.prems"(4) by (intro power_increasing) simp_all
  then have kn: "2 ^ k \<le> n" using "1.prems"(5) by (rule le_trans)
  define half row where "half = (2 :: nat) ^ k div 2" and
    "row = map (\<lambda>i. min (prev ! i) (prev ! (i + half))) [0..<n - 2 ^ k + 1]"
  have half: "half = 2 ^ (k - 1)" "half + half = 2 ^ k" "0 < half"
    using "1.prems"(2) by (cases k; simp add: half_def)+
  have rows: "sparse_rows n prev k = row # sparse_rows n row (k + 1)"
    using kn by (subst sparse_rows.simps) (simp add: half_def row_def Let_def)
  have spec: "row_spec data k row"
    unfolding row_spec_def
  proof (intro allI impI)
    fix i
    assume i: "i + 2 ^ k \<le> length data"
    have "prev ! i = Min (segment data i (i + half))" "prev ! (i + half) = Min (segment data (i + half) (i + half + half))"
      using "1.prems"(3) i half unfolding row_spec_def by simp_all
    moreover have "row ! i = min (prev ! i) (prev ! (i + half))" using i "1.prems"(1) unfolding row_def by (subst nth_map) (simp_all del: upt_Suc)
    ultimately show "row ! i = Min (segment data i (i + 2 ^ k))"
      using Min_join [of i "i + half" "i + half" "i + half + half" data] half by (simp add: add.assoc)
  qed
  show ?case
  proof (cases "j = k")
    case False
    then have "j - k = Suc (j - (k + 1))" "k + 1 \<le> j" using "1.prems"(4) by simp_all
    then show ?thesis using 1(1) [OF kn half_def row_def] "1.prems" spec rows by simp
  qed (use spec rows in simp)
qed

lemma floor_log2_bounds: "0 < n \<Longrightarrow> 2 ^ floor_log2 n \<le> n \<and> n < 2 * 2 ^ floor_log2 n"
proof (induction n rule: floor_log2.induct)
  case (1 n)
  show ?case
  proof (cases "n < 2")
    case False
    then show ?thesis using 1 by (subst (1 2) floor_log2.simps) (simp, linarith)
  qed (use 1 in \<open>simp add: floor_log2.simps\<close>)
qed

text \<open>The sparse table answers every range query over the candidate periods with the minimum of the range,
  and the sentinel on the empty one.\<close>

theorem sparse_min_correct:
  assumes "r \<le> length data"
  shows "sparse_min (sparse_new data) l r = (if r \<le> l then USIZE_MAX else Min (set (take (r - l) (drop l data))))"
proof (cases "r \<le> l")
  case False
  define k where "k = floor_log2 (r - l)"
  have k: "2 ^ k \<le> r - l" "r - l < 2 * 2 ^ k" using floor_log2_bounds [of "r - l"] False by (simp_all add: k_def)
  have "row_spec data 0 data" by (simp add: row_spec_def segment_def)
  moreover have "(2 :: nat) ^ k \<le> length data" using k(1) assms by linarith
  ultimately have spec: "row_spec data k (sparse_new data ! k)"
    using sparse_rows_spec [of "length data" data 1 data k] by (cases k) (simp_all add: sparse_new_def)
  have "sparse_min (sparse_new data) l r = min (sparse_new data ! k ! l) (sparse_new data ! k ! (r - 2 ^ k))"
    using False by (simp add: sparse_min_def k_def Let_def)
  also have "\<dots> = min (Min (segment data l (l + 2 ^ k))) (Min (segment data (r - 2 ^ k) r))"
    using spec assms k(1) False unfolding row_spec_def by simp
  also have "\<dots> = Min (segment data l r)" using k False by (intro Min_join) auto
  also have "segment data l r = set (take (r - l) (drop l data))"
  proof -
    have "take (r - l) (drop l data) = map ((!) data) [l..<r]"
      using assms False by (intro nth_equalityI) simp_all
    then show ?thesis by (simp add: segment_def)
  qed
  finally show ?thesis using False by simp
qed (simp add: sparse_min_def)

theorem sparse_min_correct_witness: "sparse_min (sparse_new [7, 3, 9, 4, 8]) 2 5 = 4"
  using sparse_min_correct [of 5 "[7, 3, 9, 4, 8]" 2] by simp

end
