(* ===== verification/Fft.thy ===== *)
theory Fft
  imports Prelude
begin

text \<open>
  The blocked Fourier transform of the prover (\<open>crates/groth16/src/fft.rs\<close>): tables,
  domains, the radix-2 and mixed-radix transforms, and the four-step passes over a buffer
  read as an \<open>N1 \<times> N2\<close> matrix.

  The scalar field (\<open>ark_bn254::Fr\<close>) is a type parameter of class \<open>field\<close>, and its table of
  roots of unity (\<open>Fr::get_root_of_unity\<close>) an argument \<open>root\<close>. A slice that the code updates in
  place is a list returned updated. An index outside a slice is a panic of the code; the
  definitions are read on arguments where every index is inside, which the theorems about
  them assume and the domains of \<open>with_size\<close> guarantee. Where the code asserts a length the
  result is an option.
\<close>

section \<open>Configuration, tables and domains\<close>

record fft_config =
  cfg_tile :: nat
  min_blocked_log :: nat

definition fft_config_default :: fft_config where
  "fft_config_default = \<lparr>cfg_tile = 4, min_blocked_log = 12\<rparr>"

record 'a tables =
  tw_n1 :: "'a list"
  tw_n2 :: "'a list"
  col_step :: "'a list"

record 'a fft_domain =
  dom_n :: nat
  dom_log_n :: nat
  dom_n1 :: nat
  dom_n2 :: nat
  dom_tile :: nat
  size_inv :: 'a
  dom_fwd :: "'a tables"
  dom_inv :: "'a tables"

text \<open>\<open>powers\<close> is the loop; the running product is its second argument.\<close>

fun powers_from :: "'a::comm_ring_1 \<Rightarrow> 'a \<Rightarrow> nat \<Rightarrow> 'a list" where
  "powers_from base cur 0 = []"
| "powers_from base cur (Suc k) = cur # powers_from base (cur * base) k"

definition powers :: "'a::comm_ring_1 \<Rightarrow> nat \<Rightarrow> 'a list" where
  "powers base cnt = powers_from base 1 cnt"

definition tables_new :: "'a::comm_ring_1 \<Rightarrow> nat \<Rightarrow> nat \<Rightarrow> 'a tables" where
  "tables_new root n1 n2 =
    (let n = n1 * n2;
         root_n1 = root ^ (n div n1);
         root_n2 = root ^ (n div n2)
     in \<lparr>tw_n1 = powers root_n1 (if n1 mod 3 = 0 then n1 else n1 div 2),
         tw_n2 = powers root_n2 (n2 div 2),
         col_step = (if 1 < n1 then powers root n2 else [])\<rparr>)"

text \<open>\<open>usize::trailing_zeros\<close> (64 at zero) and \<open>ilog2\<close>.\<close>

fun trailing_zeros_usize :: "nat \<Rightarrow> nat" where
  "trailing_zeros_usize n =
    (if n = 0 then 64 else if odd n then 0 else Suc (trailing_zeros_usize (n div 2)))"

fun ilog2 :: "nat \<Rightarrow> nat" where
  "ilog2 n = (if n < 2 then 0 else Suc (ilog2 (n div 2)))"

declare trailing_zeros_usize.simps [simp del] ilog2.simps [simp del]

definition is_power_of_two :: "nat \<Rightarrow> bool" where
  "is_power_of_two n \<longleftrightarrow> n \<noteq> 0 \<and> n = 2 ^ trailing_zeros_usize n"

definition next_power_of_two :: "nat \<Rightarrow> nat" where
  "next_power_of_two n = (if n \<le> 1 then 1 else 2 ^ Suc (ilog2 (n - 1)))"

definition field_inverse :: "'a::field \<Rightarrow> 'a option" where
  "field_inverse x = (if x = 0 then None else Some (inverse x))"

definition with_split :: "(nat \<Rightarrow> 'a::field option) \<Rightarrow> nat \<Rightarrow> nat \<Rightarrow> nat \<Rightarrow> 'a fft_domain option" where
  "with_split root n1 n2 tile =
    (let odd_part = (if trailing_zeros_usize n1 < 64 then n1 div 2 ^ trailing_zeros_usize n1 else 0) in
     if \<not> is_power_of_two n2 \<or> odd_part \<notin> {1, 3, 9} then None
     else if 2 ^ 64 \<le> n1 * n2 then None
     else Option.bind (root (n1 * n2)) (\<lambda>omega.
       Option.bind (field_inverse omega) (\<lambda>omega_inv.
       Option.bind (field_inverse (of_nat (n1 * n2))) (\<lambda>ninv.
         Some \<lparr>dom_n = n1 * n2, dom_log_n = ilog2 (n1 * n2), dom_n1 = n1, dom_n2 = n2,
               dom_tile = max 1 (min tile n2), size_inv = ninv,
               dom_fwd = tables_new omega n1 n2, dom_inv = tables_new omega_inv n1 n2\<rparr>))))"

text \<open>The shift \<open>q << k\<close> of the code overflows only for \<open>n = 0\<close>, where the result is \<open>None\<close> here.\<close>

definition split_of :: "nat \<Rightarrow> fft_config \<Rightarrow> (nat \<times> nat) option" where
  "split_of n cfg =
    (let q = (if n mod 9 = 0 then 9 else if n mod 3 = 0 then 3 else 1);
         k = trailing_zeros_usize (n div q)
     in if n \<noteq> q * 2 ^ k \<or> n = 0 then None
        else Some (if q = 1 \<and> k < min_blocked_log cfg then (1, n)
                   else if k < min_blocked_log cfg then (q, 2 ^ k)
                   else (q * 2 ^ (k div 2), 2 ^ (k - k div 2))))"

definition with_size :: "(nat \<Rightarrow> 'a::field option) \<Rightarrow> nat \<Rightarrow> fft_config \<Rightarrow> 'a fft_domain option" where
  "with_size root n cfg =
    (case split_of n cfg of None \<Rightarrow> None | Some (n1, n2) \<Rightarrow> with_split root n1 n2 (cfg_tile cfg))"

definition domain_new :: "(nat \<Rightarrow> 'a::field option) \<Rightarrow> nat \<Rightarrow> fft_config \<Rightarrow> 'a fft_domain option" where
  "domain_new root min_size cfg = with_size root (next_power_of_two (max min_size 1)) cfg"

text \<open>The sizes a key may be made for. \<open>smooth_from\<close> is the doubling loop; \<open>None\<close> is a doubling past
  the width of \<open>usize\<close>, which panics when overflow is checked and otherwise ends in the loop at zero
  that never reaches its bound (\<open>2 * 2 ^ 63\<close> for \<open>q = 1\<close>).\<close>

datatype domain_kind = Radix2 | Smooth

function smooth_from :: "nat \<Rightarrow> nat \<Rightarrow> nat option" where
  "smooth_from r min_size =
    (if min_size \<le> r then Some r
     else if r = 0 \<or> 2 ^ 64 \<le> 2 * r then None
     else smooth_from (2 * r) min_size)"
  by pat_completeness auto
termination by (relation "measure (\<lambda>(r, n). n - r)") auto

declare smooth_from.simps [simp del]

definition smooth_size :: "nat \<Rightarrow> nat option" where
  "smooth_size min_size =
    map_option (\<lambda>rs. foldl min (hd rs) (tl rs)) (those (map (\<lambda>q. smooth_from q min_size) [1, 3, 9]))"

definition kind_size :: "domain_kind \<Rightarrow> nat \<Rightarrow> nat option" where
  "kind_size kind min_size =
    (case kind of
       Radix2 \<Rightarrow> (let n = next_power_of_two (max min_size 1) in if n < 2 ^ 64 then Some n else None)
     | Smooth \<Rightarrow> smooth_size min_size)"

section \<open>Slices\<close>

text \<open>
  \<open>map_chunks\<close> is \<open>chunks_exact_mut\<close> with a body for each full chunk and its index, the remainder
  left alone; \<open>par_chunks\<close> is \<open>par_chunks_mut\<close>, whose last chunk may be shorter.
\<close>

function map_chunks :: "nat \<Rightarrow> (nat \<Rightarrow> 'a list \<Rightarrow> 'a list) \<Rightarrow> nat \<Rightarrow> 'a list \<Rightarrow> 'a list" where
  "map_chunks n f i xs =
    (if n = 0 \<or> length xs < n then xs else f i (take n xs) @ map_chunks n f (Suc i) (drop n xs))"
  by pat_completeness auto
termination by (relation "measure (\<lambda>(n, f, i, xs). length xs)") auto

function par_chunks :: "nat \<Rightarrow> (nat \<Rightarrow> 'a list \<Rightarrow> 'a list) \<Rightarrow> nat \<Rightarrow> 'a list \<Rightarrow> 'a list" where
  "par_chunks n f i xs =
    (if n = 0 \<or> xs = [] then xs else f i (take n xs) @ par_chunks n f (Suc i) (drop n xs))"
  by pat_completeness auto
termination by (relation "measure (\<lambda>(n, f, i, xs). length xs)") auto

declare map_chunks.simps [simp del] par_chunks.simps [simp del]

text \<open>A loop that writes \<open>g x\<close> at \<open>p x\<close> for each \<open>x\<close>.\<close>

definition write_all :: "('b \<Rightarrow> nat) \<Rightarrow> ('b \<Rightarrow> 'a) \<Rightarrow> 'b list \<Rightarrow> 'a list \<Rightarrow> 'a list" where
  "write_all p g ixs buf = foldl (\<lambda>b x. b[p x := g x]) buf ixs"

definition div_ceil :: "nat \<Rightarrow> nat \<Rightarrow> nat" where
  "div_ceil a b = (a + b - 1) div b"

text \<open>Multiply the elements in turn by \<open>cur\<close>, \<open>cur * step\<close>, \<open>cur * step^2\<close>, \dots\<close>

fun geo_scale :: "'a::comm_ring_1 \<Rightarrow> 'a \<Rightarrow> 'a list \<Rightarrow> 'a list" where
  "geo_scale cur step [] = []"
| "geo_scale cur step (v # vs) = v * cur # geo_scale (cur * step) step vs"

section \<open>Radix-2 transform\<close>

text \<open>\<open>reverse_bits\<close> of a \<open>w\<close>-bit integer; the code has \<open>w = 64\<close>.\<close>

fun rev_bits :: "nat \<Rightarrow> nat \<Rightarrow> nat" where
  "rev_bits 0 i = 0"
| "rev_bits (Suc w) i = (i mod 2) * 2 ^ w + rev_bits w (i div 2)"

definition bitrev_swap :: "nat \<Rightarrow> 'a list \<Rightarrow> nat \<Rightarrow> 'a list" where
  "bitrev_swap shift a i =
    (let j = rev_bits 64 i div 2 ^ shift in if i < j then a[i := a ! j, j := a ! i] else a)"

definition bitrev_permute :: "'a list \<Rightarrow> 'a list" where
  "bitrev_permute a =
    (let n = length a in
     if n \<le> 2 then a else foldl (bitrev_swap (64 - trailing_zeros_usize n)) a [0..<n])"

text \<open>One butterfly block: \<open>st\<close> is \<open>stride * s\<close>.\<close>

definition butterfly :: "'a::comm_ring_1 list \<Rightarrow> nat \<Rightarrow> 'a list \<Rightarrow> 'a list" where
  "butterfly tw st blk =
    (let m = length blk div 2;
         lo = take m blk; hi = drop m blk;
         t = (\<lambda>j. if j = 0 then hi ! 0 else hi ! j * tw ! (j * st))
     in map (\<lambda>j. lo ! j + t j) [0..<m] @ map (\<lambda>j. lo ! j - t j) [0..<m])"

lemma length_map_chunks:
  assumes "\<And>i ys. length ys = n \<Longrightarrow> length (f i ys) = n"
  shows "length (map_chunks n f i xs) = length xs"
  using assms
proof (induction n f i xs rule: map_chunks.induct)
  case (1 n f i xs)
  show ?case
  proof (cases "n = 0 \<or> length xs < n")
    case False
    then have "length (map_chunks n f (Suc i) (drop n xs)) = length xs - n" using 1 by simp
    then show ?thesis using False 1(2) [of "take n xs" i] by (subst map_chunks.simps) simp
  qed (subst map_chunks.simps, simp)
qed

lemma length_butterfly [simp]: "length (butterfly tw st blk) = 2 * (length blk div 2)"
  by (simp add: butterfly_def Let_def)

lemma length_stage: "length (map_chunks (2 * m) (\<lambda>_. butterfly tw st) 0 a) = length a"
  by (rule length_map_chunks) simp

function radix2_stages :: "'a::comm_ring_1 list \<Rightarrow> nat \<Rightarrow> nat \<Rightarrow> 'a list \<Rightarrow> 'a list" where
  "radix2_stages tw s m a =
    (if 0 < m \<and> m < length a
     then radix2_stages tw s (2 * m)
            (map_chunks (2 * m) (\<lambda>_. butterfly tw (length a div (2 * m) * s)) 0 a)
     else a)"
  by pat_completeness auto
termination by (relation "measure (\<lambda>(tw, s, m, a). length a - m)") (auto simp: length_stage)

declare radix2_stages.simps [simp del]

definition radix2_fft_strided :: "'a::comm_ring_1 list \<Rightarrow> 'a list \<Rightarrow> nat \<Rightarrow> 'a list" where
  "radix2_fft_strided a tw s = (if length a \<le> 1 then a else radix2_stages tw s 1 (bitrev_permute a))"

definition radix2_fft :: "'a::comm_ring_1 list \<Rightarrow> 'a list \<Rightarrow> 'a list" where
  "radix2_fft a tw = radix2_fft_strided a tw 1"

section \<open>Mixed-radix transform\<close>

text \<open>
  The scratch slice of the code is overwritten before it is read, and \<open>a\<close> after it served as the
  scratch of the recursive calls, so neither is a result. On an empty slice the code panics; here
  the empty list is returned. \<open>radix3_step\<close> is the last loop.
\<close>

definition every_third :: "nat \<Rightarrow> 'a list \<Rightarrow> 'a list" where
  "every_third r a = map (\<lambda>j. a ! (3 * j + r)) [0..<length a div 3]"

lemma length_every_third [simp]: "length (every_third r a) = length a div 3"
  by (simp add: every_third_def)

definition radix3_step :: "'a::field list \<Rightarrow> nat \<Rightarrow> 'a list \<Rightarrow> 'a list \<Rightarrow> 'a list \<Rightarrow> 'a list" where
  "radix3_step tw s f0 f1 f2 =
    (let m = length f0;
         half = inverse 2;
         w3 = tw ! (m * s);
         c = (w3 - w3 * w3) * half;
         x1 = (\<lambda>k. f1 ! k * tw ! (k * s));
         x2 = (\<lambda>k. f2 ! k * tw ! (2 * k * s));
         mid = (\<lambda>k. f0 ! k - (x1 k + x2 k) * half);
         d = (\<lambda>k. (x1 k - x2 k) * c)
     in map (\<lambda>k. f0 ! k + (x1 k + x2 k)) [0..<m] @ map (\<lambda>k. mid k + d k) [0..<m] @
        map (\<lambda>k. mid k - d k) [0..<m])"

function mixed_fft :: "'a::field list \<Rightarrow> 'a list \<Rightarrow> nat \<Rightarrow> 'a list" where
  "mixed_fft a tw s =
    (if length a mod 3 \<noteq> 0 then radix2_fft_strided a tw s
     else if a = [] then []
     else radix3_step tw s (mixed_fft (every_third 0 a) tw (3 * s))
            (mixed_fft (every_third 1 a) tw (3 * s)) (mixed_fft (every_third 2 a) tw (3 * s)))"
  by pat_completeness auto
termination by (relation "measure (\<lambda>(a, tw, s). length a)") auto

declare mixed_fft.simps [simp del]

section \<open>Passes over the matrix\<close>

text \<open>
  The buffer is an \<open>n1 \<times> n2\<close> row-major matrix. A tile is a block of columns, copied out column by
  column (\<open>gather_tile\<close>), transformed (\<open>cols_core\<close>) and written back (\<open>scatter_tile\<close>). The tiles
  touch disjoint columns and run in parallel; \<open>col_pass_order\<close> runs them in a given order.
\<close>

datatype 'a row_stage = Stage_Fft | Stage_Ifft | Stage_Scale 'a | Stage_Coset 'a

datatype col_op = InversePost | ForwardPre

datatype twiddle = Pre | Post

definition col_fft :: "'a::field fft_domain \<Rightarrow> 'a tables \<Rightarrow> 'a list \<Rightarrow> 'a list" where
  "col_fft D t col =
    (if dom_n1 D mod 3 = 0 then mixed_fft col (tw_n1 t) 1 else radix2_fft col (tw_n1 t))"

definition col_core :: "'a::field fft_domain \<Rightarrow> 'a tables \<Rightarrow> twiddle \<Rightarrow> 'a \<Rightarrow> 'a \<Rightarrow> 'a list \<Rightarrow> 'a list" where
  "col_core D t tw scale step col =
    (let col1 = (if tw = Pre then geo_scale scale step col else col);
         col2 = col_fft D t col1
     in if tw = Post then geo_scale scale step col2 else col2)"

definition cols_core :: "'a::field fft_domain \<Rightarrow> nat \<Rightarrow> 'a tables \<Rightarrow> twiddle \<Rightarrow> 'a \<Rightarrow> 'a list \<Rightarrow> 'a list" where
  "cols_core D c0 t tw scale cols =
    map_chunks (dom_n1 D) (\<lambda>j. col_core D t tw scale (col_step t ! (c0 + j))) 0 cols"

definition gather_tile :: "nat \<Rightarrow> nat \<Rightarrow> nat \<Rightarrow> nat \<Rightarrow> 'a list \<Rightarrow> 'a list" where
  "gather_tile n1 n2 c0 b buf = concat (map (\<lambda>j. map (\<lambda>r. buf ! (r * n2 + c0 + j)) [0..<n1]) [0..<b])"

definition scatter_tile :: "nat \<Rightarrow> nat \<Rightarrow> nat \<Rightarrow> nat \<Rightarrow> 'a list \<Rightarrow> 'a list \<Rightarrow> 'a list" where
  "scatter_tile n1 n2 c0 b cols buf =
    write_all (\<lambda>(r, j). r * n2 + c0 + j) (\<lambda>(r, j). cols ! (j * n1 + r)) (List.product [0..<n1] [0..<b]) buf"

definition tile_pass :: "'a::field fft_domain \<Rightarrow> 'a tables \<Rightarrow> twiddle \<Rightarrow> 'a \<Rightarrow> nat \<Rightarrow> 'a list \<Rightarrow> 'a list" where
  "tile_pass D t tw scale bt buf =
    (let c0 = bt * dom_tile D;
         b = min (dom_tile D) (dom_n2 D - c0)
     in scatter_tile (dom_n1 D) (dom_n2 D) c0 b
          (cols_core D c0 t tw scale (gather_tile (dom_n1 D) (dom_n2 D) c0 b buf)) buf)"

definition col_pass_order ::
    "nat list \<Rightarrow> 'a::field fft_domain \<Rightarrow> 'a tables \<Rightarrow> twiddle \<Rightarrow> 'a \<Rightarrow> 'a list \<Rightarrow> 'a list" where
  "col_pass_order order D t tw scale buf = foldl (\<lambda>b bt. tile_pass D t tw scale bt b) buf order"

definition col_pass :: "'a::field fft_domain \<Rightarrow> 'a tables \<Rightarrow> twiddle \<Rightarrow> 'a \<Rightarrow> 'a list \<Rightarrow> 'a list" where
  "col_pass D t tw scale buf =
    col_pass_order [0..<div_ceil (dom_n2 D) (dom_tile D)] D t tw scale buf"

definition row_stage :: "'a::field fft_domain \<Rightarrow> nat \<Rightarrow> 'a row_stage \<Rightarrow> 'a list \<Rightarrow> 'a list" where
  "row_stage D k1 st row =
    (case st of
       Stage_Fft \<Rightarrow> radix2_fft row (tw_n2 (dom_fwd D))
     | Stage_Ifft \<Rightarrow> radix2_fft row (tw_n2 (dom_inv D))
     | Stage_Scale k \<Rightarrow> map (\<lambda>v. v * k) row
     | Stage_Coset g \<Rightarrow> geo_scale (g ^ k1) (g ^ dom_n1 D) row)"

definition rows_kernel :: "'a::field fft_domain \<Rightarrow> 'a row_stage list \<Rightarrow> nat \<Rightarrow> 'a list \<Rightarrow> 'a list" where
  "rows_kernel D stages first_row rows =
    map_chunks (dom_n2 D) (\<lambda>i row. foldl (\<lambda>row st. row_stage D (first_row + i) st row) row stages) 0 rows"

definition rows_pass :: "'a::field fft_domain \<Rightarrow> 'a row_stage list \<Rightarrow> 'a list \<Rightarrow> 'a list" where
  "rows_pass D stages buf =
    (let per = max 1 (div_ceil (2 ^ 15) (dom_n2 D))
     in par_chunks (dom_n2 D * per) (\<lambda>i rows. rows_kernel D stages (i * per) rows) 0 buf)"

definition tables_of_op :: "'a::field fft_domain \<Rightarrow> col_op \<Rightarrow> 'a tables \<times> twiddle \<times> 'a" where
  "tables_of_op D op =
    (case op of InversePost \<Rightarrow> (dom_inv D, Post, size_inv D) | ForwardPre \<Rightarrow> (dom_fwd D, Pre, 1))"

definition col_op_pass :: "'a::field fft_domain \<Rightarrow> col_op \<Rightarrow> 'a list \<Rightarrow> 'a list" where
  "col_op_pass D op buf = (case tables_of_op D op of (t, tw, k) \<Rightarrow> col_pass D t tw k buf)"

section \<open>Transforms\<close>

definition is_blocked :: "'a fft_domain \<Rightarrow> bool" where
  "is_blocked D \<longleftrightarrow> 1 < dom_n1 D"

definition scale_all :: "'a::field \<Rightarrow> 'a list \<Rightarrow> 'a list" where
  "scale_all k buf = par_chunks (2 ^ 12) (\<lambda>_ c. map (\<lambda>v. v * k) c) 0 buf"

definition coset_scale_t :: "'a::field fft_domain \<Rightarrow> 'a \<Rightarrow> 'a list \<Rightarrow> 'a list" where
  "coset_scale_t D g buf =
    par_chunks (dom_n2 D) (\<lambda>k1 row. geo_scale (g ^ k1) (g ^ dom_n1 D) row) 0 buf"

text \<open>\<open>checked\<close> is \<open>assert_eq!(buf.len(), self.n)\<close>.\<close>

definition checked :: "'a fft_domain \<Rightarrow> 'a list \<Rightarrow> 'b \<Rightarrow> 'b option" where
  "checked D buf r = (if length buf = dom_n D then Some r else None)"

definition fft_to_t :: "'a::field fft_domain \<Rightarrow> 'a list \<Rightarrow> 'a list option" where
  "fft_to_t D buf = checked D buf
    (if \<not> is_blocked D then radix2_fft buf (tw_n2 (dom_fwd D))
     else rows_pass D [Stage_Fft] (col_pass D (dom_fwd D) Post 1 buf))"

definition fft_from_t :: "'a::field fft_domain \<Rightarrow> 'a list \<Rightarrow> 'a list option" where
  "fft_from_t D buf = checked D buf
    (if \<not> is_blocked D then radix2_fft buf (tw_n2 (dom_fwd D))
     else col_pass D (dom_fwd D) Pre 1 (rows_pass D [Stage_Fft] buf))"

definition ifft_to_t :: "'a::field fft_domain \<Rightarrow> 'a list \<Rightarrow> 'a list option" where
  "ifft_to_t D buf = checked D buf
    (if \<not> is_blocked D then scale_all (size_inv D) (radix2_fft buf (tw_n2 (dom_inv D)))
     else rows_pass D [Stage_Ifft] (col_pass D (dom_inv D) Post (size_inv D) buf))"

definition ifft_from_t :: "'a::field fft_domain \<Rightarrow> 'a list \<Rightarrow> 'a list option" where
  "ifft_from_t D buf = checked D buf
    (if \<not> is_blocked D then scale_all (size_inv D) (radix2_fft buf (tw_n2 (dom_inv D)))
     else col_pass D (dom_inv D) Pre (size_inv D) (rows_pass D [Stage_Ifft] buf))"

definition to_coset :: "'a::field fft_domain \<Rightarrow> 'a \<Rightarrow> 'a list \<Rightarrow> 'a list option" where
  "to_coset D g buf = Option.bind (checked D buf buf) (\<lambda>buf.
    if \<not> is_blocked D
    then Option.bind (ifft_to_t D buf) (\<lambda>b. fft_from_t D (coset_scale_t D g b))
    else Some (col_op_pass D ForwardPre
                (rows_pass D [Stage_Ifft, Stage_Coset g, Stage_Fft]
                  (col_op_pass D InversePost buf))))"

definition from_coset_to_t :: "'a::field fft_domain \<Rightarrow> 'a \<Rightarrow> 'a list \<Rightarrow> 'a list option" where
  "from_coset_to_t D g_inv buf = Option.bind (checked D buf buf) (\<lambda>buf.
    if \<not> is_blocked D
    then Option.bind (ifft_to_t D buf) (\<lambda>b. Some (coset_scale_t D g_inv b))
    else Some (rows_pass D [Stage_Ifft, Stage_Coset g_inv] (col_op_pass D InversePost buf)))"

text \<open>
  The tiled transpose \<open>dst[c * rows + r] = f (src[r * cols + c])\<close>: for each block of \<open>tile\<close> output
  rows, the rows of the source in blocks of \<open>tile\<close>.
\<close>

definition tiles_of :: "nat \<Rightarrow> nat \<Rightarrow> nat list" where
  "tiles_of rows tile =
    concat (map (\<lambda>k. [k * tile..<k * tile + min tile (rows - k * tile)]) [0..<div_ceil rows tile])"

definition transpose_map :: "'a list \<Rightarrow> 'u list \<Rightarrow> nat \<Rightarrow> nat \<Rightarrow> nat \<Rightarrow> ('a \<Rightarrow> 'u) \<Rightarrow> 'u list option" where
  "transpose_map src dst rows cols tile f =
    (if length src \<noteq> rows * cols \<or> length dst \<noteq> rows * cols then None
     else (let tile = max 1 tile in
       Some (par_chunks (tile * rows)
         (\<lambda>bc out. write_all (\<lambda>(r, dc). dc * rows + r) (\<lambda>(r, dc). f (src ! (r * cols + bc * tile + dc)))
            (List.product (tiles_of rows tile) [0..<length out div rows]) out) 0 dst)))"

definition t_to_natural :: "'a fft_domain \<Rightarrow> ('a \<Rightarrow> 'u) \<Rightarrow> 'u \<Rightarrow> 'a list \<Rightarrow> 'u list option" where
  "t_to_natural D f dflt src =
    Option.bind (checked D src (replicate (dom_n D) dflt)) (\<lambda>dst.
      transpose_map src dst (dom_n1 D) (dom_n2 D) (dom_tile D) f)"

definition fft :: "'a::field fft_domain \<Rightarrow> 'a list \<Rightarrow> 'a list option" where
  "fft D buf = Option.bind (fft_to_t D buf) (\<lambda>b.
    if is_blocked D then t_to_natural D (\<lambda>x. x) 0 b else Some b)"

definition ifft :: "'a::field fft_domain \<Rightarrow> 'a list \<Rightarrow> 'a list option" where
  "ifft D buf = Option.bind (ifft_to_t D buf) (\<lambda>b.
    if is_blocked D then t_to_natural D (\<lambda>x. x) 0 b else Some b)"

text \<open>A worker's column kernel: the block comes row-major, \<open>N1\<close> rows of \<open>b\<close>.\<close>

definition cols_kernel :: "'a::field fft_domain \<Rightarrow> nat \<Rightarrow> col_op \<Rightarrow> 'a list \<Rightarrow> 'a list option" where
  "cols_kernel D c0 op blk =
    (let n1 = dom_n1 D; b = length blk div n1 in
     Option.bind (transpose_map blk (replicate (length blk) 0) n1 b (dom_tile D) (\<lambda>x. x)) (\<lambda>cm.
       case tables_of_op D op of (t, tw, k) \<Rightarrow>
         transpose_map (cols_core D c0 t tw k cm) blk b n1 (dom_tile D) (\<lambda>x. x)))"

end
