(* ===== verification/Fft_Radix.thy ===== *)
theory Fft_Radix
  imports Fft
begin

text \<open>
  The radix-2 and the mixed-radix transform compute the discrete Fourier transform
  \<open>dft w n x k = (\<Sum>j<n. x j * w ^ (j * k))\<close>, for a root of unity \<open>w\<close> of order \<open>n\<close> whose powers are in the
  table.
\<close>

section \<open>Slices\<close>

lemma nth_map_chunks:
  assumes len: "\<And>i ys. length ys = n \<Longrightarrow> length (f i ys) = n"
    and "0 < n" "a * n + n \<le> length xs" "b < n"
  shows "map_chunks n f i xs ! (a * n + b) = f (i + a) (take n (drop (a * n) xs)) ! b"
  using assms(3)
proof (induction a arbitrary: i xs)
  case 0
  then show ?case using assms(2,4) len [of "take n xs" i]
    by (subst map_chunks.simps) (simp add: nth_append)
next
  case (Suc a)
  then have l: "n \<le> length xs" "length (f i (take n xs)) = n" using len [of "take n xs" i] by simp_all
  have "map_chunks n f i xs ! (Suc a * n + b) = map_chunks n f (Suc i) (drop n xs) ! (a * n + b)"
    using l assms(2) by (subst map_chunks.simps) (simp add: nth_append add.assoc)
  also have "\<dots> = f (i + Suc a) (take n (drop (Suc a * n) xs)) ! b"
    using Suc.IH [of "drop n xs" "Suc i"] Suc.prems by (simp add: add.commute)
  finally show ?case .
qed

lemma nth_butterfly:
  assumes "length blk = 2 * m" "j < m"
  shows "butterfly tw st blk ! j = blk ! j + blk ! (m + j) * (if j = 0 then 1 else tw ! (j * st))"
    and "butterfly tw st blk ! (m + j) = blk ! j - blk ! (m + j) * (if j = 0 then 1 else tw ! (j * st))"
  using assms by (simp_all add: butterfly_def Let_def nth_append)

lemma nth_block: "a * n + n \<le> length xs \<Longrightarrow> b < n \<Longrightarrow> take n (drop (a * n) xs) ! b = xs ! (a * n + b)"
  by simp

lemma length_bitrev_swaps: "length (foldl (bitrev_swap sh) b is) = length b"
  by (induction "is" arbitrary: b) (simp_all add: bitrev_swap_def Let_def)

lemma length_bitrev_permute [simp]: "length (bitrev_permute a) = length a"
  by (simp add: bitrev_permute_def Let_def length_bitrev_swaps)

lemma powers_from_eq: "powers_from base cur cnt = map (\<lambda>j. cur * base ^ j) [0..<cnt]"
proof (induction cnt arbitrary: cur)
  case (Suc k)
  have "[0..<Suc k] = 0 # map Suc [0..<k]" by (simp add: upt_conv_Cons map_Suc_upt del: upt_Suc)
  then show ?case by (simp add: Suc mult.assoc del: upt_Suc)
qed simp

lemma powers_nth [simp]: "j < cnt \<Longrightarrow> powers base cnt ! j = base ^ j"
  and length_powers [simp]: "length (powers base cnt) = cnt"
  by (simp_all add: powers_def powers_from_eq)

lemma geo_scale_eq: "geo_scale cur step xs = map (\<lambda>i. xs ! i * (cur * step ^ i)) [0..<length xs]"
proof (induction xs arbitrary: cur)
  case (Cons v vs)
  have "[0..<Suc (length vs)] = 0 # map Suc [0..<length vs]" by (simp add: upt_conv_Cons map_Suc_upt del: upt_Suc)
  then show ?case by (simp add: Cons mult.assoc del: upt_Suc)
qed simp

section \<open>Bit reversal\<close>

lemma trailing_zeros_power: "trailing_zeros_usize (2 ^ k) = k"
  by (induction k) (simp_all add: trailing_zeros_usize.simps [of "Suc 0"] trailing_zeros_usize.simps [of "2 * _"])

lemma rev_bits_less: "rev_bits w i < 2 ^ w"
proof (induction w arbitrary: i)
  case (Suc w)
  have "(i mod 2) * 2 ^ w \<le> 1 * 2 ^ w" by (intro mult_right_mono) simp_all
  from add_le_less_mono [OF this Suc [of "i div 2"]] show ?case by simp
qed simp

lemma rev_bits_snoc: "rev_bits (Suc w) i = 2 * rev_bits w i + (i div 2 ^ w) mod 2"
proof (induction w arbitrary: i)
  case (Suc w)
  have "rev_bits (Suc (Suc w)) i = (i mod 2) * 2 ^ Suc w + rev_bits (Suc w) (i div 2)" by simp
  also have "\<dots> = (i mod 2) * 2 ^ Suc w + (2 * rev_bits w (i div 2) + (i div 2 ^ Suc w) mod 2)"
    unfolding Suc by (simp add: div_mult2_eq)
  finally show ?case by (simp add: algebra_simps)
qed simp

lemma rev_bits_high:
  assumes "i < 2 ^ k"
  shows "rev_bits (k + d) i = rev_bits k i * 2 ^ d"
proof (induction d)
  case (Suc d)
  have "i div 2 ^ (k + d) = 0" using assms by (simp add: power_add) (metis div_less less_le_trans mult.right_neutral mult_le_mono2 one_le_numeral one_le_power)
  then have "rev_bits (Suc (k + d)) i = 2 * rev_bits (k + d) i" by (subst rev_bits_snoc) simp
  then show ?case using Suc by simp
qed simp

lemma rev_bits_rev: "i < 2 ^ k \<Longrightarrow> rev_bits k (rev_bits k i) = i"
proof (induction k arbitrary: i)
  case (Suc k)
  let ?q = "i div 2"
  have q: "?q < 2 ^ k" using Suc.prems by simp
  have r: "rev_bits k ?q < 2 ^ k" by (rule rev_bits_less)
  have "rev_bits (Suc k) (rev_bits (Suc k) i) = rev_bits (Suc k) ((i mod 2) * 2 ^ k + rev_bits k ?q)" by simp
  also have "\<dots> = 2 * rev_bits k ((i mod 2) * 2 ^ k + rev_bits k ?q) + i mod 2"
    using r by (subst rev_bits_snoc) simp
  also have "rev_bits k ((i mod 2) * 2 ^ k + rev_bits k ?q) = rev_bits k (rev_bits k ?q)"
  proof -
    have "rev_bits k (a * 2 ^ k + b) = rev_bits k b" for a b
    proof (induction k arbitrary: b)
      case (Suc k)
      have "a * 2 ^ Suc k + b = b + (a * 2 ^ k) * 2" by simp
      then have "(a * 2 ^ Suc k + b) mod 2 = b mod 2" "(a * 2 ^ Suc k + b) div 2 = a * 2 ^ k + b div 2"
        by (simp_all only: mod_mult_self1 div_mult_self1 zero_neq_numeral not_False_eq_True)
      then show ?case using Suc [of "b div 2"] by simp
    qed simp
    then show ?thesis .
  qed
  also have "\<dots> = ?q" by (rule Suc.IH [OF q])
  finally show ?case by simp
qed simp

lemma bitrev_permute_nth:
  assumes n: "length a = 2 ^ k" and k: "k \<le> 64" and i: "i < 2 ^ k"
  shows "bitrev_permute a ! i = a ! rev_bits k i"
proof (cases "k \<le> 1")
  case True
  then have "rev_bits k i = i" using i by (cases k) (auto simp: le_Suc_eq numeral_2_eq_2 less_Suc_eq)
  moreover have "length a \<le> 2" using n True by (cases k) auto
  ultimately show ?thesis by (simp add: bitrev_permute_def)
next
  case False
  let ?r = "rev_bits k"
  have shift: "rev_bits 64 j div 2 ^ (64 - k) = ?r j" if "j < 2 ^ k" for j
    using rev_bits_high [OF that, of "64 - k"] k by simp
  have inv: "foldl (bitrev_swap (64 - k)) a [0..<m] ! p = (if p < m \<or> ?r p < m then a ! ?r p else a ! p) \<and>
      length (foldl (bitrev_swap (64 - k)) a [0..<m]) = 2 ^ k"
    if "m \<le> 2 ^ k" "p < 2 ^ k" for m p
    using that
  proof (induction m arbitrary: p)
    case 0
    then show ?case using n by simp
  next
    case (Suc m)
    define b where "b = foldl (bitrev_swap (64 - k)) a [0..<m]"
    have m: "m < 2 ^ k" using Suc.prems by simp
    have b: "b ! q = (if q < m \<or> ?r q < m then a ! ?r q else a ! q)" if "q < 2 ^ k" for q
      using Suc.IH [OF _ that] m by (simp add: b_def)
    have lb: "length b = 2 ^ k" using Suc.IH [OF _ m] m by (simp add: b_def)
    have rr: "?r (?r q) = q" if "q < 2 ^ k" for q by (rule rev_bits_rev [OF that])
    have rl: "?r q < 2 ^ k" for q by (rule rev_bits_less)
    have rinj: "?r q = m \<longleftrightarrow> q = ?r m" if "q < 2 ^ k" for q using rr [OF that] rr [OF m] by metis
    have step: "foldl (bitrev_swap (64 - k)) a [0..<Suc m] = (if m < ?r m then b[m := b ! ?r m, ?r m := b ! m] else b)"
      using shift [OF m] by (simp add: b_def bitrev_swap_def Let_def)
    show ?case
    proof (cases "m < ?r m")
      case True
      then show ?thesis unfolding step using Suc.prems(2) b [OF m] b [OF rl] b [OF Suc.prems(2)] lb rr [OF m] rl m
          rinj [OF Suc.prems(2)]
        by (auto simp: nth_list_update less_Suc_eq)
    next
      case False
      then show ?thesis unfolding step using Suc.prems(2) b [OF Suc.prems(2)] lb rr [OF m] rinj [OF Suc.prems(2)]
        by (auto simp: less_Suc_eq)
    qed
  qed
  have "\<not> length a \<le> 2" using False n power_increasing [of 2 k "2 :: nat"] by simp
  then show ?thesis using inv [of "2 ^ k" i] i n by (simp add: bitrev_permute_def Let_def trailing_zeros_power)
qed

section \<open>Roots of unity\<close>

definition root_of_order :: "nat \<Rightarrow> 'a::field \<Rightarrow> bool" where
  "root_of_order n w \<longleftrightarrow> w ^ n = 1 \<and> (\<forall>k. 0 < k \<longrightarrow> k < n \<longrightarrow> w ^ k \<noteq> 1)"

lemma root_of_orderD: "root_of_order n w \<Longrightarrow> w ^ n = 1"
  by (simp add: root_of_order_def)

lemma root_of_order_power:
  assumes "root_of_order (a * b) w" "0 < a"
  shows "root_of_order b (w ^ a)"
  using assms unfolding root_of_order_def
  by (auto simp flip: power_mult)

lemma root_of_order_inverse: "root_of_order n w \<Longrightarrow> root_of_order n (inverse w)"
  by (simp add: root_of_order_def power_inverse)

lemma root_of_order_2: "root_of_order 2 w \<Longrightarrow> w = - 1"
proof -
  assume r: "root_of_order 2 w"
  then have "(w - 1) * (w + 1) = 0" by (simp add: root_of_order_def algebra_simps power2_eq_square)
  moreover from r have "w ^ 1 \<noteq> 1" unfolding root_of_order_def by (metis one_less_numeral_iff semiring_norm(76) zero_less_one)
  ultimately show ?thesis by (simp add: eq_neg_iff_add_eq_0)
qed

lemma root_of_order_3:
  assumes "root_of_order 3 w"
  shows "1 + w + w * w = 0"
proof -
  have "w ^ 1 \<noteq> 1" using assms unfolding root_of_order_def by (metis one_less_numeral_iff semiring_norm(77) zero_less_one)
  moreover have "(w - 1) * (1 + w + w * w) = 0"
    using assms by (simp add: root_of_order_def algebra_simps power3_eq_cube)
  ultimately show ?thesis by simp
qed

section \<open>Sums by blocks\<close>

lemma sum_blocks: "(\<Sum>j<m * b. f j) = (\<Sum>i<m. \<Sum>l<b. f (i * b + l))"
  for f :: "nat \<Rightarrow> 'a::comm_monoid_add"
proof (induction m)
  case (Suc m)
  have "{..<Suc m * b} = {..<m * b} \<union> {m * b..<m * b + b}" by auto
  then have "(\<Sum>j<Suc m * b. f j) = sum f ({..<m * b} \<union> {m * b..<m * b + b})" by (rule arg_cong)
  also have "\<dots> = (\<Sum>j<m * b. f j) + (\<Sum>j\<in>{m * b..<m * b + b}. f j)"
    by (rule sum.union_disjoint) auto
  also have "(\<Sum>j\<in>{m * b..<m * b + b}. f j) = (\<Sum>l<b. f (m * b + l))"
    using sum.shift_bounds_nat_ivl [of f 0 "m * b" b] by (simp add: lessThan_atLeast0 add.commute)
  finally show ?case using Suc by simp
qed simp

lemma sum_halves: "(\<Sum>j<2 * m. f j) = (\<Sum>i<m. f (2 * i) + f (2 * i + 1))"
  for f :: "nat \<Rightarrow> 'a::comm_monoid_add"
  using sum_blocks [of f m 2] by (simp add: mult.commute numeral_2_eq_2)

lemma sum_thirds: "(\<Sum>j<3 * m. f j) = (\<Sum>i<m. f (3 * i) + f (3 * i + 1) + f (3 * i + 2))"
  for f :: "nat \<Rightarrow> 'a::comm_monoid_add"
  using sum_blocks [of f m 3] by (simp add: mult.commute numeral_3_eq_3 numeral_2_eq_2)

section \<open>The transform\<close>

definition dft :: "'a::field \<Rightarrow> nat \<Rightarrow> (nat \<Rightarrow> 'a) \<Rightarrow> nat \<Rightarrow> 'a" where
  "dft w n x k = (\<Sum>j<n. x j * w ^ (j * k))"

lemma dft_cong: "(\<And>j. j < n \<Longrightarrow> x j = y j) \<Longrightarrow> dft w n x k = dft w n y k"
  by (simp add: dft_def)

lemma dft_split2:
  fixes w :: "'a::field"
  shows "dft w (2 * m) x k = dft (w ^ 2) m (\<lambda>j. x (2 * j)) k + w ^ k * dft (w ^ 2) m (\<lambda>j. x (2 * j + 1)) k"
  unfolding dft_def sum_halves sum.distrib sum_distrib_left
  by (intro arg_cong2 [where f = "(+)"] sum.cong refl)
     (simp_all add: power_add power_mult [symmetric] algebra_simps)

lemma dft_shift:
  fixes w :: "'a::field"
  assumes "w ^ n = 1"
  shows "dft w n x (k + n) = dft w n x k"
proof -
  have "w ^ (j * (k + n)) = w ^ (j * k)" for j
  proof -
    have "w ^ (j * (k + n)) = w ^ (j * k) * (w ^ n) ^ j" by (simp add: power_mult [symmetric] power_add algebra_simps)
    then show ?thesis using assms by simp
  qed
  then show ?thesis by (simp add: dft_def)
qed

lemma dft_halves:
  fixes w :: "'a::field"
  assumes "root_of_order (2 * m) w" "0 < m"
  shows "dft w (2 * m) x (k + m) = dft (w ^ 2) m (\<lambda>j. x (2 * j)) k - w ^ k * dft (w ^ 2) m (\<lambda>j. x (2 * j + 1)) k"
proof -
  have "root_of_order 2 (w ^ m)" using root_of_order_power [of m 2 w] assms by (simp add: mult.commute)
  then have "w ^ m = - 1" by (rule root_of_order_2)
  moreover have "(w ^ 2) ^ m = 1" using root_of_orderD [OF assms(1)] by (simp add: power_mult)
  ultimately show ?thesis unfolding dft_split2 by (simp add: dft_shift power_add)
qed

section \<open>Radix-2 correctness\<close>

text \<open>
  After the stage of size \<open>2 ^ s\<close>, block \<open>b\<close> of the buffer holds the transform of the subsequence of
  step \<open>2 ^ (k - s)\<close> that starts at the bit reversal of \<open>b\<close>.
\<close>

definition stage_at :: "'a::field \<Rightarrow> nat \<Rightarrow> (nat \<Rightarrow> 'a) \<Rightarrow> nat \<Rightarrow> 'a list \<Rightarrow> bool" where
  "stage_at w k x s buf \<longleftrightarrow> length buf = 2 ^ k \<and>
    (\<forall>b t. b < 2 ^ (k - s) \<longrightarrow> t < 2 ^ s \<longrightarrow>
      buf ! (b * 2 ^ s + t) = dft (w ^ (2 ^ (k - s))) (2 ^ s) (\<lambda>j. x (rev_bits (k - s) b + j * 2 ^ (k - s))) t)"

lemma stage_start:
  assumes "length a = 2 ^ k" "k \<le> 64"
  shows "stage_at w k ((!) a) 0 (bitrev_permute a)"
  using assms bitrev_permute_nth [OF assms] by (simp add: stage_at_def dft_def)

lemma stage_step:
  assumes st: "stage_at w k x s buf" and s: "s < k" and w: "root_of_order (2 ^ k) w"
    and tw: "\<And>j. j < 2 ^ k div 2 \<Longrightarrow> tw ! (j * c) = w ^ j"
  shows "stage_at w k x (Suc s) (map_chunks (2 * 2 ^ s) (\<lambda>_. butterfly tw (length buf div (2 * 2 ^ s) * c)) 0 buf)"
    (is "stage_at w k x (Suc s) ?buf")
  unfolding stage_at_def
proof (intro conjI allI impI)
  define d where "d = k - Suc s"
  have k: "k = Suc (d + s)" using s by (simp add: d_def)
  have len: "length buf = 2 ^ k" using st by (simp add: stage_at_def)
  show "length ?buf = 2 ^ k" by (simp add: length_stage len)
  fix b t :: nat assume b: "b < 2 ^ (k - Suc s)" and t: "t < 2 ^ Suc s"
  let ?m = "2 ^ s :: nat"
  let ?blk = "take (2 * ?m) (drop (b * (2 * ?m)) buf)"
  let ?x = "\<lambda>j. x (rev_bits d b + j * 2 ^ d)"
  have bd: "b < 2 ^ d" using b by (simp add: d_def)
  have fits: "b * (2 * ?m) + 2 * ?m \<le> length buf"
  proof -
    have "Suc b * (2 * ?m) \<le> 2 ^ d * (2 * ?m)" using bd by (intro mult_le_mono1) simp
    then show ?thesis using len k by (simp add: power_add)
  qed
  have st_len: "length buf div (2 * ?m) = 2 ^ d" using len k by (simp add: power_add)
  have at: "?buf ! (b * (2 * ?m) + t) = butterfly tw (2 ^ d * c) ?blk ! t"
    using nth_map_chunks [of "2 * ?m" "\<lambda>_. butterfly tw (2 ^ d * c)" b buf t 0] fits t st_len by simp
  have root: "root_of_order (2 * ?m) (w ^ 2 ^ d)"
    using root_of_order_power [of "2 ^ d" "2 * ?m" w] w k by (simp add: power_add mult.left_commute)
  have halves: "buf ! (2 * b * ?m + i) = dft ((w ^ 2 ^ d) ^ 2) ?m (\<lambda>j. ?x (2 * j)) i"
      "buf ! ((2 * b + 1) * ?m + i) = dft ((w ^ 2 ^ d) ^ 2) ?m (\<lambda>j. ?x (2 * j + 1)) i" if i: "i < ?m" for i
  proof -
    have ks: "k - s = Suc d" using k by simp
    have w2: "w ^ 2 ^ Suc d = (w ^ 2 ^ d) ^ 2" by (simp add: power_mult [symmetric] mult.commute)
    have r: "rev_bits (Suc d) (2 * b) = rev_bits d b" "rev_bits (Suc d) (2 * b + 1) = 2 ^ d + rev_bits d b" by simp_all
    have "2 * b < 2 ^ (k - s)" "2 * b + 1 < 2 ^ (k - s)" using bd ks by simp_all
    then have "buf ! (2 * b * ?m + i) = dft (w ^ 2 ^ Suc d) ?m (\<lambda>j. x (rev_bits (Suc d) (2 * b) + j * 2 ^ Suc d)) i"
      "buf ! ((2 * b + 1) * ?m + i) = dft (w ^ 2 ^ Suc d) ?m (\<lambda>j. x (rev_bits (Suc d) (2 * b + 1) + j * 2 ^ Suc d)) i"
      using st i unfolding stage_at_def ks by blast+
    then show "buf ! (2 * b * ?m + i) = dft ((w ^ 2 ^ d) ^ 2) ?m (\<lambda>j. ?x (2 * j)) i"
      "buf ! ((2 * b + 1) * ?m + i) = dft ((w ^ 2 ^ d) ^ 2) ?m (\<lambda>j. ?x (2 * j + 1)) i"
      unfolding w2 r by (simp_all add: algebra_simps)
  qed
  have blk: "?blk ! i = buf ! (2 * b * ?m + i)" "?blk ! (?m + i) = buf ! ((2 * b + 1) * ?m + i)" if "i < ?m" for i
    using fits that by (simp_all add: algebra_simps)
  have twid: "(if i = 0 then 1 else tw ! (i * (2 ^ d * c))) = (w ^ 2 ^ d) ^ i" if i: "i < ?m" for i
  proof -
    have "i * 2 ^ d < 2 ^ k div 2" using i k by (simp add: power_add mult.commute)
    from tw [OF this] have "tw ! (i * (2 ^ d * c)) = w ^ (i * 2 ^ d)" by (simp add: mult.assoc)
    then show ?thesis by (simp add: power_mult [symmetric] mult.commute)
  qed
  have lb: "length ?blk = 2 * ?m" using fits by simp
  have "butterfly tw (2 ^ d * c) ?blk ! t = dft (w ^ 2 ^ d) (2 * ?m) ?x t"
  proof (cases "t < ?m")
    case True
    show ?thesis using nth_butterfly(1) [OF lb True, of tw "2 ^ d * c"] unfolding dft_split2 blk [OF True] twid [OF True] halves [OF True]
      by (simp add: mult.commute)
  next
    case False
    then obtain i where i: "i < ?m" "t = i + ?m" using t by (metis add.commute le_Suc_ex mult_2 nat_add_left_cancel_less not_le power_Suc)
    show ?thesis using nth_butterfly(2) [OF lb i(1), of tw "2 ^ d * c"]
      unfolding i(2) dft_halves [OF root zero_less_power [OF zero_less_numeral]] blk [OF i(1)] twid [OF i(1)] halves [OF i(1)]
      by (simp add: mult.commute add.commute)
  qed
  with at show "?buf ! (b * 2 ^ Suc s + t) =
      dft (w ^ 2 ^ (k - Suc s)) (2 ^ Suc s) (\<lambda>j. x (rev_bits (k - Suc s) b + j * 2 ^ (k - Suc s))) t"
    by (simp add: d_def)
qed

lemma stages_all:
  assumes "stage_at w k x s buf" "s \<le> k" "root_of_order (2 ^ k) w"
    "\<And>j. j < 2 ^ k div 2 \<Longrightarrow> tw ! (j * c) = w ^ j"
  shows "radix2_stages tw c (2 ^ s) buf = map (dft w (2 ^ k) x) [0..<2 ^ k]"
  using assms(1,2)
proof (induction "k - s" arbitrary: s buf)
  case 0
  then have "s = k" "length buf = 2 ^ k" by (simp_all add: stage_at_def)
  then show ?case using 0(2)
    by (subst radix2_stages.simps) (auto simp: stage_at_def intro!: nth_equalityI)
next
  case (Suc d)
  then have s: "s < k" by simp
  have len: "length buf = 2 ^ k" using Suc.prems by (simp add: stage_at_def)
  have "(2 :: nat) ^ s < 2 ^ k" using s by simp
  then have "radix2_stages tw c (2 ^ s) buf = radix2_stages tw c (2 ^ Suc s)
      (map_chunks (2 * 2 ^ s) (\<lambda>_. butterfly tw (length buf div (2 * 2 ^ s) * c)) 0 buf)"
    using len by (subst radix2_stages.simps) simp
  also have "\<dots> = map (dft w (2 ^ k) x) [0..<2 ^ k]"
    using Suc.hyps(2) s by (intro Suc.hyps(1) stage_step [OF Suc.prems(1) s assms(3,4)]) simp_all
  finally show ?case .
qed

lemma radix2_fft_strided_dft:
  assumes "length a = 2 ^ k" "k \<le> 64" "root_of_order (2 ^ k) w"
    "\<And>j. j < 2 ^ k div 2 \<Longrightarrow> tw ! (j * c) = w ^ j"
  shows "radix2_fft_strided a tw c = map (dft w (2 ^ k) ((!) a)) [0..<2 ^ k]"
proof (cases "k = 0")
  case True
  then show ?thesis using assms(1) by (cases a) (simp_all add: radix2_fft_strided_def dft_def)
next
  case False
  then have "1 < (2 :: nat) ^ k" by (simp del: One_nat_def)
  then show ?thesis using stages_all [OF stage_start [OF assms(1,2)] _ assms(3,4)] assms(1)
    by (simp add: radix2_fft_strided_def)
qed

section \<open>Mixed-radix correctness\<close>

lemma dft_split3:
  fixes w :: "'a::field"
  shows "dft w (3 * m) x k = dft (w ^ 3) m (\<lambda>j. x (3 * j)) k + w ^ k * dft (w ^ 3) m (\<lambda>j. x (3 * j + 1)) k
    + w ^ (2 * k) * dft (w ^ 3) m (\<lambda>j. x (3 * j + 2)) k"
  unfolding dft_def sum_thirds sum.distrib sum_distrib_left
  by (intro arg_cong2 [where f = "(+)"] sum.cong refl)
     (simp_all add: power_add power_mult [symmetric] algebra_simps)

text \<open>The three outputs of a radix-3 butterfly, by \<open>1 + v + v * v = 0\<close> and one multiplication each.\<close>

lemma radix3_outputs:
  fixes v :: "'a::field"
  assumes v: "1 + v + v * v = 0" and two: "(2 :: 'a) \<noteq> 0"
  shows "x0 - (x1 + x2) * inverse 2 + (x1 - x2) * ((v - v * v) * inverse 2) = x0 + v * x1 + (v * v) * x2"
    and "x0 - (x1 + x2) * inverse 2 - (x1 - x2) * ((v - v * v) * inverse 2) = x0 + (v * v) * x1 + v * x2"
proof -
  define h :: 'a where "h = inverse 2"
  have v2: "v * v = - 1 - v" using v by (simp add: eq_neg_iff_add_eq_0 algebra_simps)
  have "2 * h = 1" using two by (simp add: h_def)
  then have h: "(h + h) * y = y" for y by (simp only: mult_2 [symmetric] mult_1_left)
  have "x0 - (x1 + x2) * h + (x1 - x2) * ((v - v * v) * h) = x0 + (h + h) * (v * x1) + (h + h) * ((v * v) * x2)"
    unfolding v2 by (simp add: algebra_simps)
  then show "x0 - (x1 + x2) * inverse 2 + (x1 - x2) * ((v - v * v) * inverse 2) = x0 + v * x1 + (v * v) * x2"
    unfolding h unfolding h_def .
  have "x0 - (x1 + x2) * h - (x1 - x2) * ((v - v * v) * h) = x0 + (h + h) * ((v * v) * x1) + (h + h) * (v * x2)"
    unfolding v2 by (simp add: algebra_simps)
  then show "x0 - (x1 + x2) * inverse 2 - (x1 - x2) * ((v - v * v) * inverse 2) = x0 + (v * v) * x1 + v * x2"
    unfolding h unfolding h_def .
qed

lemma radix3_step_dft:
  fixes w :: "'a::field"
  assumes two: "(2 :: 'a) \<noteq> 0" and m: "0 < m" and w: "root_of_order (3 * m) w"
    and tw: "\<And>j. j < 3 * m \<Longrightarrow> tw ! (j * s) = w ^ j"
  shows "radix3_step tw s (map (dft (w ^ 3) m (\<lambda>j. x (3 * j))) [0..<m]) (map (dft (w ^ 3) m (\<lambda>j. x (3 * j + 1))) [0..<m])
      (map (dft (w ^ 3) m (\<lambda>j. x (3 * j + 2))) [0..<m]) = map (dft w (3 * m) x) [0..<3 * m]"
    (is "?l = _")
proof (rule nth_equalityI)
  show "length ?l = length (map (dft w (3 * m) x) [0..<3 * m])" by (simp add: radix3_step_def Let_def)
  fix i assume "i < length ?l"
  then have i: "i < 3 * m" by (simp add: radix3_step_def Let_def)
  define F where "F r = dft (w ^ 3) m (\<lambda>j. x (3 * j + r))" for r
  let ?v = "w ^ m"
  have v: "1 + ?v + ?v * ?v = 0" using root_of_order_3 [OF root_of_order_power [of m 3 w]] w m by (simp add: mult.commute)
  have "?v ^ 3 = 1" using root_of_orderD [OF w] by (simp add: power_mult [symmetric] mult.commute)
  then have v3: "?v * (?v * ?v) = 1" by (simp add: power3_eq_cube mult.assoc)
  have shift: "F r (k + m) = F r k" for r k
    using root_of_orderD [OF w] unfolding F_def by (intro dft_shift) (simp add: power_mult)
  have twid: "tw ! (k * s) = w ^ k" "tw ! (2 * k * s) = w ^ (2 * k)" "tw ! (m * s) = ?v" if "k < m" for k
    using tw [of k] tw [of "2 * k"] tw [of m] that m by (simp_all add: mult.assoc)
  have split: "dft w (3 * m) x k = F 0 k + w ^ k * F 1 k + w ^ (2 * k) * F 2 k" for k
    using dft_split3 [of w m x k] by (simp add: F_def)
  have l: "?l = radix3_step tw s (map (F 0) [0..<m]) (map (F 1) [0..<m]) (map (F 2) [0..<m])" by (simp add: F_def)
  consider (a) "i < m" | (b) k where "k < m" "i = m + k" | (c) k where "k < m" "i = 2 * m + k"
  proof -
    have "i < m \<or> (\<exists>k. k < m \<and> i = m + k) \<or> (\<exists>k. k < m \<and> i = 2 * m + k)"
      using i by (cases "i < 2 * m") (auto intro: exI [of _ "i - m"] exI [of _ "i - 2 * m"])
    then show ?thesis using that by blast
  qed
  then show "?l ! i = map (dft w (3 * m) x) [0..<3 * m] ! i"
  proof cases
    case a
    then show ?thesis unfolding l using i twid split by (simp add: radix3_step_def Let_def nth_append algebra_simps)
  next
    case b
    have "dft w (3 * m) x (m + k) = F 0 k + ?v * (F 1 k * w ^ k) + (?v * ?v) * (F 2 k * w ^ (2 * k))"
      using split [of "k + m"] shift [of _ k] by (simp add: power_add mult_2_right algebra_simps)
    also have "\<dots> = ?l ! i" unfolding l using b twid [OF b(1)] radix3_outputs(1) [OF v two, symmetric]
      by (simp add: radix3_step_def Let_def nth_append)
    finally show ?thesis using b i by simp
  next
    case c
    have "2 * m + k = (k + m) + m" by simp
    then have "dft w (3 * m) x (2 * m + k) = dft w (3 * m) x ((k + m) + m)" by (rule arg_cong)
    also have "\<dots> = F 0 k + (?v * ?v) * (F 1 k * w ^ k) + ?v * (?v * (?v * ?v)) * (F 2 k * w ^ (2 * k))"
      unfolding split shift by (simp add: power_add mult_2_right algebra_simps)
    also have "\<dots> = F 0 k + (?v * ?v) * (F 1 k * w ^ k) + ?v * (F 2 k * w ^ (2 * k))" unfolding v3 by simp
    also have "\<dots> = ?l ! i" unfolding l using c twid [OF c(1)] radix3_outputs(2) [OF v two, symmetric]
      by (simp add: radix3_step_def Let_def nth_append)
    finally show ?thesis using c i by simp
  qed
qed

lemma mixed_fft_dft:
  fixes a :: "'a::field list"
  assumes "length a = 3 ^ b * 2 ^ k" "k \<le> 64" "(2 :: 'a) \<noteq> 0" "root_of_order (length a) w"
    "\<And>j. j < length a \<Longrightarrow> tw ! (j * s) = w ^ j"
  shows "mixed_fft a tw s = map (dft w (length a) ((!) a)) [0..<length a]"
  using assms
proof (induction b arbitrary: a w s)
  case 0
  have "(2 :: nat) ^ k mod 3 \<noteq> 0"
  proof (induction k)
    case (Suc k)
    have "(2 ^ Suc k) mod 3 = (2 * (2 ^ k mod 3)) mod (3 :: nat)" by (simp add: mod_mult_right_eq)
    moreover have "(2 :: nat) ^ k mod 3 = 1 \<or> (2 :: nat) ^ k mod 3 = 2" using Suc by linarith
    ultimately show ?case by auto
  qed simp
  then have "length a mod 3 \<noteq> 0" using 0 by simp
  moreover have "tw ! (j * s) = w ^ j" if "j < 2 ^ k div 2" for j
    using that 0 by simp
  then have "radix2_fft_strided a tw s = map (dft w (2 ^ k) ((!) a)) [0..<2 ^ k]"
    using 0 by (intro radix2_fft_strided_dft) simp_all
  ultimately show ?case using 0 by (subst mixed_fft.simps) simp
next
  case (Suc b)
  define m where "m = (3 :: nat) ^ b * 2 ^ k"
  have n: "length a = 3 * m" and m: "0 < m" using Suc.prems(1) by (simp_all add: m_def)
  have w3: "root_of_order m (w ^ 3)" using root_of_order_power [of 3 m w] Suc.prems(4) n by simp
  have rec: "mixed_fft (every_third r a) tw (3 * s) = map (dft (w ^ 3) m (\<lambda>j. a ! (3 * j + r))) [0..<m]" if r: "r < 3" for r
  proof -
    have l: "length (every_third r a) = m" by (simp add: n)
    have "tw ! (j * (3 * s)) = (w ^ 3) ^ j" if "j < m" for j
      using Suc.prems(5) [of "3 * j"] that n by (simp add: power_mult [symmetric] mult.assoc mult.left_commute)
    then have "mixed_fft (every_third r a) tw (3 * s) = map (dft (w ^ 3) m ((!) (every_third r a))) [0..<m]"
      using Suc.IH [of "every_third r a" "w ^ 3" "3 * s"] Suc.prems l w3
      by (simp add: m_def [symmetric])
    also have "\<dots> = map (dft (w ^ 3) m (\<lambda>j. a ! (3 * j + r))) [0..<m]"
      by (intro map_cong refl dft_cong) (simp add: every_third_def n)
    finally show ?thesis .
  qed
  have "mixed_fft a tw s = radix3_step tw s (mixed_fft (every_third 0 a) tw (3 * s))
            (mixed_fft (every_third 1 a) tw (3 * s)) (mixed_fft (every_third 2 a) tw (3 * s))"
    using n m by (subst mixed_fft.simps) auto
  also have "\<dots> = map (dft w (3 * m) ((!) a)) [0..<3 * m]"
    using radix3_step_dft [of m w tw s "(!) a"] Suc.prems n m rec [of 0] rec [of 1] rec [of 2] by simp
  finally show ?case by (simp add: n)
qed

end
