(* ===== verification/Fft_Passes.thy ===== *)
theory Fft_Passes
  imports Fft_Radix
begin

text \<open>
  The passes of the four-step transform: what a column pass does to a column and a row pass to a
  row, whatever the tiles and in whatever order they run.
\<close>

section \<open>Loops of writes\<close>

lemma length_write_all [simp]: "length (write_all p g ixs buf) = length buf"
  unfolding write_all_def by (induction ixs arbitrary: buf) simp_all

lemma write_all_other: "i \<notin> p ` set ixs \<Longrightarrow> write_all p g ixs buf ! i = buf ! i"
  unfolding write_all_def by (induction ixs arbitrary: buf) simp_all

lemma write_all_at:
  "x \<in> set ixs \<Longrightarrow> inj_on p (set ixs) \<Longrightarrow> p x < length buf \<Longrightarrow> write_all p g ixs buf ! p x = g x"
proof (induction ixs arbitrary: buf)
  case (Cons y ys)
  show ?case
  proof (cases "x \<in> set ys")
    case True
    then show ?thesis using Cons by (simp add: write_all_def)
  next
    case False
    then have "p x \<notin> p ` set ys" "x = y" using Cons.prems by (auto simp: inj_on_def)
    then show ?thesis using write_all_other [of "p x" p ys g] Cons.prems(3) by (simp add: write_all_def)
  qed
qed simp

section \<open>Chunks\<close>

lemma length_par_chunks:
  assumes "\<And>i ys. length (f i ys) = length ys"
  shows "length (par_chunks n f i xs) = length xs"
  using assms by (induction n f i xs rule: par_chunks.induct) (subst par_chunks.simps, simp add: min_def)

lemma nth_par_chunks:
  assumes len: "\<And>i ys. length (f i ys) = length ys"
    and "0 < n" "a * n + b < length xs" "b < n"
  shows "par_chunks n f i xs ! (a * n + b) = f (i + a) (take n (drop (a * n) xs)) ! b"
  using assms(3)
proof (induction a arbitrary: i xs)
  case 0
  then show ?case using assms(2,4)
    by (subst par_chunks.simps) (auto simp add: nth_append len)
next
  case (Suc a)
  then have l: "n \<le> length xs" "xs \<noteq> []" using assms(2) by auto
  have "par_chunks n f i xs ! (Suc a * n + b) = par_chunks n f (Suc i) (drop n xs) ! (a * n + b)"
    using l assms(2) by (subst par_chunks.simps) (simp add: nth_append len add.assoc)
  also have "\<dots> = f (i + Suc a) (take n (drop (Suc a * n) xs)) ! b"
    using Suc.IH [of "drop n xs" "Suc i"] Suc.prems l by (simp add: add.commute)
  finally show ?case .
qed

lemma par_chunks_map: "0 < n \<Longrightarrow> par_chunks n (\<lambda>_ c. map f c) i xs = map f xs"
proof (induction "length xs" arbitrary: i xs rule: less_induct)
  case less
  show ?case
  proof (cases "xs = []")
    case False
    then have "par_chunks n (\<lambda>_ c. map f c) i xs = map f (take n xs) @ par_chunks n (\<lambda>_ c. map f c) (Suc i) (drop n xs)"
      using less.prems by (subst par_chunks.simps) simp
    also have "\<dots> = map f (take n xs @ drop n xs)" using less False by (simp only: map_append) simp
    finally show ?thesis by simp
  qed (subst par_chunks.simps, simp)
qed

lemma cell_bound: "r < n1 \<Longrightarrow> c < n2 \<Longrightarrow> r * n2 + c < n1 * n2" for r :: nat
proof -
  assume "r < n1" "c < n2"
  then have "r * n2 + c < Suc r * n2" "Suc r * n2 \<le> n1 * n2" by simp_all (metis Suc_leI mult_Suc mult_le_mono1)
  then show ?thesis by linarith
qed

lemma cell_eq_iff: "c < n \<Longrightarrow> c' < n \<Longrightarrow> r * n + c = r' * n + c' \<longleftrightarrow> r = r' \<and> c = c'" for r :: nat
proof
  assume c: "c < n" "c' < n" and e: "r * n + c = r' * n + c'"
  have "(r * n + c) div n = r" "(r' * n + c') div n = r'" using c by simp_all
  then show "r = r' \<and> c = c'" using e by auto
qed simp

section \<open>Transforms keep lengths\<close>

lemma length_radix2_stages [simp]: "length (radix2_stages tw s m a) = length a"
  by (induction tw s m a rule: radix2_stages.induct) (subst radix2_stages.simps, simp add: length_stage)

lemma length_radix2_fft [simp]: "length (radix2_fft a tw) = length a"
  by (simp add: radix2_fft_def radix2_fft_strided_def)

lemma length_mixed_fft [simp]: "length (mixed_fft a tw s) = length a"
proof (induction a tw s rule: mixed_fft.induct)
  case (1 a tw s)
  show ?case
  proof (cases "length a mod 3 = 0 \<and> a \<noteq> []")
    case True
    then have "length (mixed_fft a tw s) = 3 * (length a div 3)"
      using 1(1) by (subst mixed_fft.simps) (simp add: radix3_step_def Let_def)
    then show ?thesis using True by auto
  next
    case False
    then show ?thesis by (subst mixed_fft.simps) (auto simp: radix2_fft_strided_def)
  qed
qed

lemma length_geo_scale [simp]: "length (geo_scale cur step xs) = length xs"
  by (simp add: geo_scale_eq)

lemma length_col_core [simp]: "length (col_core D t tw sc step col) = length col"
  by (simp add: col_core_def col_fft_def Let_def)

lemma length_row_stage [simp]: "length (row_stage D k st row) = length row"
  by (simp add: row_stage_def split: row_stage.split)

lemma length_row_stages [simp]: "length (foldl (\<lambda>row st. row_stage D k st row) row sts) = length row"
  by (induction sts arbitrary: row) simp_all

lemma length_rows_kernel [simp]: "length (rows_kernel D sts k rows) = length rows"
  unfolding rows_kernel_def by (rule length_map_chunks) simp

lemma nth_take_drop: "k + i < length xs \<Longrightarrow> i < n \<Longrightarrow> take n (drop k xs) ! i = xs ! (k + i)"
  by simp

section \<open>A row pass\<close>

lemma nth_rows_pass:
  assumes "0 < dom_n2 D" "length buf = dom_n1 D * dom_n2 D" "r < dom_n1 D" "c < dom_n2 D"
  shows "rows_pass D sts buf ! (r * dom_n2 D + c) =
    foldl (\<lambda>row st. row_stage D r st row) (map (\<lambda>c. buf ! (r * dom_n2 D + c)) [0..<dom_n2 D]) sts ! c"
proof -
  let ?n = "dom_n2 D"
  define per where "per = max 1 (div_ceil (2 ^ 15) ?n)"
  have per: "0 < per" by (simp add: per_def)
  let ?q = "r div per" and ?m = "r mod per"
  have r: "r = ?q * per + ?m" by simp
  have m: "?m < per" using per by simp
  have "?q * (?n * per) + ?m * ?n = (?q * per + ?m) * ?n"
    by (simp only: add_mult_distrib mult.assoc mult.commute [of ?n per])
  also have "\<dots> = r * ?n" by (simp only: div_mult_mod_eq)
  finally have e: "?q * (?n * per) + ?m * ?n = r * ?n" .
  then have idx: "r * ?n + c = ?q * (?n * per) + (?m * ?n + c)" by (simp only: add.assoc [symmetric] e)
  have low: "?m * ?n + c < ?n * per" using cell_bound [OF m assms(4)] by (simp add: mult.commute)
  have row_len: "r * ?n + ?n \<le> length buf" using assms(2,3) by (metis Suc_leI add.commute mult_Suc mult_le_mono1)
  have at: "r * ?n + c < length buf" using row_len assms(4) by simp
  let ?blk = "take (?n * per) (drop (?q * (?n * per)) buf)"
  have "rows_pass D sts buf ! (r * ?n + c) = rows_kernel D sts (?q * per) ?blk ! (?m * ?n + c)"
    using nth_par_chunks [of "\<lambda>i rows. rows_kernel D sts (i * per) rows" "?n * per" ?q "?m * ?n + c" buf 0]
      at low assms(1) per unfolding idx [symmetric] rows_pass_def Let_def per_def [symmetric] by simp
  also have "\<dots> = foldl (\<lambda>row st. row_stage D (?q * per + ?m) st row) (take ?n (drop (?m * ?n) ?blk)) sts ! c"
  proof -
    have "?m * ?n + ?n \<le> ?n * per" using m by (metis Suc_leI add.commute mult.commute mult_Suc mult_le_mono2)
    moreover have "?q * (?n * per) + (?m * ?n + ?n) \<le> length buf" using row_len e by simp
    ultimately have "?m * ?n + ?n \<le> length ?blk" by simp
    then show ?thesis unfolding rows_kernel_def using nth_map_chunks [of ?n "\<lambda>i row. foldl (\<lambda>row st. row_stage D (?q * per + i) st row) row sts"]
      assms(1,4) by simp
  qed
  also have "take ?n (drop (?m * ?n) ?blk) = map (\<lambda>c. buf ! (r * ?n + c)) [0..<?n]"
  proof (rule nth_equalityI)
    have bound: "?m * ?n + ?n \<le> ?n * per" using m by (metis Suc_leI add.commute mult.commute mult_Suc mult_le_mono2)
    show "length (take ?n (drop (?m * ?n) ?blk)) = length (map (\<lambda>c. buf ! (r * ?n + c)) [0..<?n])"
      using row_len bound e by auto
    fix i assume "i < length (take ?n (drop (?m * ?n) ?blk))"
    then have i: "i < ?n" by simp
    have q: "?q * (?n * per) \<le> length buf" using row_len e by linarith
    have blk: "?m * ?n + i < length ?blk" using row_len bound e i by (simp only: length_take length_drop min_def split: if_split) linarith
    have "take ?n (drop (?m * ?n) ?blk) ! i = ?blk ! (?m * ?n + i)" by (rule nth_take_drop [OF blk i])
    also have "\<dots> = buf ! (?q * (?n * per) + (?m * ?n + i))" using bound i q by simp
    also have "\<dots> = buf ! (r * ?n + i)" by (simp only: add.assoc [symmetric] e)
    finally show "take ?n (drop (?m * ?n) ?blk) ! i = map (\<lambda>c. buf ! (r * ?n + c)) [0..<?n] ! i" using i by simp
  qed
  finally show ?thesis by simp
qed

lemma length_rows_pass [simp]: "length (rows_pass D sts buf) = length buf"
  unfolding rows_pass_def Let_def by (rule length_par_chunks) simp

section \<open>A column pass\<close>

lemma nth_gather_tile:
  assumes "j < b" "r < n1"
  shows "gather_tile n1 n2 c0 b buf ! (j * n1 + r) = buf ! (r * n2 + c0 + j)"
  using assms
proof (induction b)
  case (Suc b)
  have l: "length (gather_tile n1 n2 c0 b buf) = b * n1" for b
    by (induction b) (simp_all add: gather_tile_def)
  have s: "gather_tile n1 n2 c0 (Suc b) buf = gather_tile n1 n2 c0 b buf @ map (\<lambda>r. buf ! (r * n2 + c0 + b)) [0..<n1]"
    by (simp add: gather_tile_def)
  show ?case
  proof (cases "j = b")
    case True
    then show ?thesis using Suc.prems l unfolding s by (simp add: nth_append)
  next
    case False
    then have "j < b" using Suc.prems by simp
    then have "j * n1 + r < b * n1" using cell_bound [of j b r n1] Suc.prems by simp
    then show ?thesis using Suc \<open>j < b\<close> l unfolding s by (simp add: nth_append)
  qed
qed simp

lemma length_gather_tile [simp]: "length (gather_tile n1 n2 c0 b buf) = b * n1"
  by (induction b) (simp_all add: gather_tile_def)

definition column :: "nat \<Rightarrow> nat \<Rightarrow> 'a list \<Rightarrow> nat \<Rightarrow> 'a list" where
  "column n1 n2 buf c = map (\<lambda>r. buf ! (r * n2 + c)) [0..<n1]"

lemma length_column [simp]: "length (column n1 n2 buf c) = n1"
  by (simp add: column_def)

lemma nth_cols_core:
  assumes "j < b" "r < dom_n1 D"
  shows "cols_core D c0 t tw sc (gather_tile (dom_n1 D) n2 c0 b buf) ! (j * dom_n1 D + r) =
    col_core D t tw sc (col_step t ! (c0 + j)) (column (dom_n1 D) n2 buf (c0 + j)) ! r"
proof -
  let ?n = "dom_n1 D" and ?g = "gather_tile (dom_n1 D) n2 c0 b buf"
  have fit: "j * ?n + ?n \<le> b * ?n" using assms(1) by (metis Suc_leI add.commute mult_Suc mult_le_mono1)
  have "take ?n (drop (j * ?n) ?g) = column ?n n2 buf (c0 + j)"
    by (rule nth_equalityI) (use fit assms in \<open>auto simp: nth_gather_tile column_def add.assoc\<close>)
  moreover have "cols_core D c0 t tw sc ?g ! (j * ?n + r) =
      col_core D t tw sc (col_step t ! (c0 + j)) (take ?n (drop (j * ?n) ?g)) ! r"
    unfolding cols_core_def
    using nth_map_chunks [of ?n "\<lambda>j. col_core D t tw sc (col_step t ! (c0 + j))" j ?g r 0] fit assms by simp
  ultimately show ?thesis by simp
qed

lemma length_tile_pass [simp]: "length (tile_pass D t tw sc bt buf) = length buf"
  by (simp add: tile_pass_def Let_def scatter_tile_def)

lemma nth_tile_pass:
  assumes "length buf = dom_n1 D * dom_n2 D" "0 < dom_tile D" "r < dom_n1 D" "c < dom_n2 D"
  shows "tile_pass D t tw sc bt buf ! (r * dom_n2 D + c) =
    (if c div dom_tile D = bt then col_core D t tw sc (col_step t ! c) (column (dom_n1 D) (dom_n2 D) buf c) ! r
     else buf ! (r * dom_n2 D + c))"
proof -
  let ?n1 = "dom_n1 D" and ?n2 = "dom_n2 D" and ?t = "dom_tile D"
  define c0 where "c0 = bt * ?t"
  define b where "b = min ?t (?n2 - c0)"
  let ?cols = "cols_core D c0 t tw sc (gather_tile ?n1 ?n2 c0 b buf)"
  let ?p = "\<lambda>(r, j). r * ?n2 + c0 + j" and ?ixs = "List.product [0..<?n1] [0..<b]"
  have tp: "tile_pass D t tw sc bt buf = write_all ?p (\<lambda>(r, j). ?cols ! (j * ?n1 + r)) ?ixs buf"
    by (simp add: tile_pass_def Let_def scatter_tile_def c0_def b_def)
  have in_tile: "c0 + j < ?n2" if "j < b" for j using that unfolding b_def by linarith
  show ?thesis
  proof (cases "c div ?t = bt")
    case True
    define j where "j = c - c0"
    have "c = c0 + c mod ?t" using True by (metis c0_def div_mult_mod_eq)
    then have j: "c = c0 + j" "j < ?t" using assms(2) by (simp_all add: j_def) (metis add_diff_cancel_left' mod_less_divisor)
    then have jb: "j < b" using assms(4) by (simp add: b_def)
    have inj: "inj_on ?p (set ?ixs)"
    proof (rule inj_onI)
      fix x y assume xy: "x \<in> set ?ixs" "y \<in> set ?ixs" "?p x = ?p y"
      obtain r1 j1 r2 j2 where e: "x = (r1, j1)" "y = (r2, j2)" by (cases x; cases y)
      have "c0 + j1 < ?n2" "c0 + j2 < ?n2" using xy e by (simp_all add: in_tile)
      moreover have "r1 * ?n2 + (c0 + j1) = r2 * ?n2 + (c0 + j2)" using xy(3) e by simp
      ultimately show "x = y" using cell_eq_iff [of "c0 + j1" ?n2 "c0 + j2" r1 r2] e by simp
    qed
    have at: "r * ?n2 + c = ?p (r, j)" using j by simp
    have "?p (r, j) < length buf" using cell_bound [OF assms(3,4)] assms(1) at by simp
    from write_all_at [OF _ inj this, of "\<lambda>(r, j). ?cols ! (j * ?n1 + r)"] assms(3) jb
    have "tile_pass D t tw sc bt buf ! (r * ?n2 + c) = ?cols ! (j * ?n1 + r)" unfolding tp at by simp
    then show ?thesis using nth_cols_core [OF jb assms(3), of c0 t tw sc ?n2 buf] True j by simp
  next
    case False
    have "r * ?n2 + c \<notin> ?p ` set ?ixs"
    proof
      assume "r * ?n2 + c \<in> ?p ` set ?ixs"
      then obtain x where x: "x \<in> set ?ixs" "r * ?n2 + c = ?p x" by blast
      obtain r' j where "x = (r', j)" by (cases x)
      then have h: "j < b" "r * ?n2 + c = r' * ?n2 + (c0 + j)" using x by (simp_all add: add.assoc)
      then have "c = c0 + j" using cell_eq_iff [of c ?n2 "c0 + j" r r'] assms(4) in_tile by blast
      moreover have "j < ?t" using h(1) by (simp add: b_def)
      ultimately have "c div ?t = bt" by (simp add: c0_def)
      then show False using False by simp
    qed
    then show ?thesis using False unfolding tp by (simp add: write_all_other)
  qed
qed

text \<open>The result of a column pass is the same for every order of the tiles.\<close>

lemma nth_col_pass_order:
  assumes "length buf = dom_n1 D * dom_n2 D" "0 < dom_tile D" "r < dom_n1 D" "c < dom_n2 D" "distinct order"
  shows "col_pass_order order D t tw sc buf ! (r * dom_n2 D + c) =
    (if c div dom_tile D \<in> set order then col_core D t tw sc (col_step t ! c) (column (dom_n1 D) (dom_n2 D) buf c) ! r
     else buf ! (r * dom_n2 D + c))"
  using assms(1,3,4,5)
proof (induction order arbitrary: buf)
  case (Cons bt order)
  let ?b = "tile_pass D t tw sc bt buf"
  have same: "column (dom_n1 D) (dom_n2 D) ?b c = column (dom_n1 D) (dom_n2 D) buf c" if "c div dom_tile D \<noteq> bt"
    using that nth_tile_pass [OF Cons.prems(1) assms(2) _ Cons.prems(3)] by (auto simp: column_def)
  have "col_pass_order (bt # order) D t tw sc buf = col_pass_order order D t tw sc ?b" by (simp add: col_pass_order_def)
  moreover have "c div dom_tile D \<noteq> bt" if "c div dom_tile D \<in> set order" using that Cons.prems(4) by auto
  ultimately show ?case using Cons.IH [of ?b] Cons.prems same nth_tile_pass [OF Cons.prems(1) assms(2) Cons.prems(2,3)]
    by (cases "c div dom_tile D \<in> set order") simp_all
qed (simp add: col_pass_order_def)

lemma length_col_pass_order [simp]: "length (col_pass_order order D t tw sc buf) = length buf"
  unfolding col_pass_order_def by (induction order arbitrary: buf) simp_all

lemma length_col_pass [simp]: "length (col_pass D t tw sc buf) = length buf"
  by (simp add: col_pass_def)

lemma tile_index:
  assumes "0 < t" "c < n"
  shows "c div t < div_ceil n t"
proof -
  have e: "n + t - 1 = (n - 1) + t" using assms by simp
  have "((n - 1) + t) div t = Suc ((n - 1) div t)" using assms(1) by (simp only: div_add_self2 [of t] Suc_eq_plus1)
  then have "div_ceil n t = Suc ((n - 1) div t)" unfolding div_ceil_def e .
  moreover have "c div t \<le> (n - 1) div t" using assms(2) by (intro div_le_mono) simp
  ultimately show ?thesis by simp
qed

lemma nth_col_pass:
  assumes "length buf = dom_n1 D * dom_n2 D" "0 < dom_tile D" "r < dom_n1 D" "c < dom_n2 D"
  shows "col_pass D t tw sc buf ! (r * dom_n2 D + c) =
    col_core D t tw sc (col_step t ! c) (column (dom_n1 D) (dom_n2 D) buf c) ! r"
  unfolding col_pass_def using assms by (simp add: nth_col_pass_order tile_index)

end
