(* ===== verification/Groth_Rows.thy ===== *)
theory Groth_Rows
  imports Prim_IR Fft_Passes
begin

text \<open>
  The rows the prover streams (\<open>crates/groth16/src/r1cs.rs\<close>): the order of the assignment, flat
  chunks of rows, sources of rows and what is computed from them window by window. The scalar
  field is a type parameter, as in \<open>Fft\<close>; \<open>Fr::from\<close> and \<open>from_le_bytes_mod_order\<close> are \<open>of_nat\<close>.
\<close>

section \<open>Variable order\<close>

datatype position_map = Dense "u32 list" | Sparse "var_id \<rightharpoonup> u32"

record var_layout =
  vl_positions :: position_map
  vl_ids :: "var_id list"
  vl_num_instance :: nat

text \<open>\<open>sort_unstable_by_key\<close> on distinct ids is the stable sort.\<close>

definition layout_dense_len :: "(var_id \<times> bool) list \<Rightarrow> nat option" where
  "layout_dense_len vars =
    (if vars = [] then None
     else let v = fst (last vars) in
       if v = - 1 then None
       else if unat (v + 1) \<le> min (2 ^ 64 - 1) (length vars * 2) then Some (unat (v + 1)) else None)"

definition layout_ids :: "(var_id \<times> bool) list \<Rightarrow> var_id list" where
  "layout_ids vars = map fst (filter snd vars) @ map fst (filter (\<lambda>v. \<not> snd v) vars)"

definition layout_positions :: "nat option \<Rightarrow> var_id list \<Rightarrow> position_map" where
  "layout_positions dense_len ids =
    (case dense_len of
       Some len \<Rightarrow> Dense (write_all (\<lambda>(p, i). unat i) (\<lambda>(p, i). of_nat p + 1) (enumerate 0 ids) (replicate len (- 1)))
     | None \<Rightarrow> Sparse (foldl (\<lambda>m (p, i). m(i \<mapsto> of_nat p + 1)) Map.empty (enumerate 0 ids)))"

definition layout_new :: "(var_id \<times> bool) list \<Rightarrow> var_layout" where
  "layout_new vars0 =
    (let vars = sort_key fst vars0; ids = layout_ids vars in
     \<lparr>vl_positions = layout_positions (layout_dense_len vars) ids, vl_ids = ids,
      vl_num_instance = length (filter snd vars) + 1\<rparr>)"

definition layout_from_program :: "r1cs_program \<Rightarrow> var_layout" where
  "layout_from_program prog = layout_new (map (\<lambda>v. (rv_id v, rv_visibility v = Public)) (rp_variables prog))"

definition num_witness :: "var_layout \<Rightarrow> nat" where
  "num_witness l = length (vl_ids l) + 1 - vl_num_instance l"

definition num_vars :: "var_layout \<Rightarrow> nat" where
  "num_vars l = length (vl_ids l) + 1"

definition position :: "var_layout \<Rightarrow> var_id \<Rightarrow> nat option" where
  "position l i =
    (case vl_positions l of
       Dense pos \<Rightarrow> if unat i < length pos \<and> pos ! unat i \<noteq> - 1 then Some (unat (pos ! unat i)) else None
     | Sparse pos \<Rightarrow> map_option unat (pos i))"

definition assignment :: "var_layout \<Rightarrow> (var_id \<Rightarrow> 'a::comm_ring_1 option) \<Rightarrow> 'a list" where
  "assignment l value = 1 # map (\<lambda>i. case value i of Some v \<Rightarrow> v | None \<Rightarrow> 0) (vl_ids l)"

section \<open>Chunks of rows\<close>

record 'a row_chunk =
  rk_first_row :: nat
  rk_offsets :: "u32 list"
  rk_cols :: "u32 list"
  rk_coeffs :: "'a list"

definition chunk_clear :: "nat \<Rightarrow> 'a row_chunk" where
  "chunk_clear first = \<lparr>rk_first_row = first, rk_offsets = [0], rk_cols = [], rk_coeffs = []\<rparr>"

definition chunk_rows :: "'a row_chunk \<Rightarrow> nat" where
  "chunk_rows c = (length (rk_offsets c) - 1) div 3"

definition chunk_nnz :: "'a row_chunk \<Rightarrow> nat" where
  "chunk_nnz c = length (rk_cols c)"

definition chunk_terms :: "'a row_chunk \<Rightarrow> nat \<Rightarrow> nat \<Rightarrow> (u32 \<times> 'a) list" where
  "chunk_terms c row m =
    (let k = 3 * row + m;
         lo = unat (rk_offsets c ! k); hi = unat (rk_offsets c ! (k + 1))
     in zip (take (hi - lo) (drop lo (rk_cols c))) (take (hi - lo) (drop lo (rk_coeffs c))))"

definition chunk_eval :: "'a::comm_ring_1 row_chunk \<Rightarrow> nat \<Rightarrow> nat \<Rightarrow> 'a list \<Rightarrow> 'a" where
  "chunk_eval c row m z = foldl (\<lambda>acc (p, k). acc + z ! unat p * k) 0 (chunk_terms c row m)"

definition push_lc :: "(u32 \<times> 'a) list \<Rightarrow> 'a row_chunk \<Rightarrow> 'a row_chunk" where
  "push_lc terms c =
    (let cols = rk_cols c @ map fst terms in
     c\<lparr>rk_cols := cols, rk_coeffs := rk_coeffs c @ map snd terms,
       rk_offsets := rk_offsets c @ [of_nat (length cols)]\<rparr>)"

text \<open>\<open>CoeffCache::fr\<close>, with the cache as state.\<close>

type_synonym 'a coeff_cache = "(field_const, 'a) btree"

definition coeff_fr :: "'a coeff_cache \<Rightarrow> field_const \<Rightarrow> 'a::comm_ring_1 \<times> 'a coeff_cache" where
  "coeff_fr cache fc =
    (case fc_as_i64 fc of
       Some n \<Rightarrow> (let mag = of_nat (nat \<bar>sint n\<bar>) in (if sint n < 0 then - mag else mag, cache))
     | None \<Rightarrow>
        (case bt_get cache fc of
           Some f \<Rightarrow> (f, cache)
         | None \<Rightarrow>
            (let mag = of_nat (nat \<bar>fc_big fc\<bar>); f = (if fc_big fc < 0 then - mag else mag)
             in (f, bt_insert fc f cache))))"

text \<open>The terms of one combination as positions and coefficients; \<open>None\<close> is the panic on a variable
  that is not allocated.\<close>

fun conv_terms :: "var_layout \<Rightarrow> lc_term list \<Rightarrow> 'a coeff_cache \<Rightarrow> ((u32 \<times> 'a::comm_ring_1) list \<times> 'a coeff_cache) option" where
  "conv_terms l [] conv = Some ([], conv)"
| "conv_terms l (t # ts) conv =
    (case position l (t_var t) of
       None \<Rightarrow> None
     | Some p \<Rightarrow> (case coeff_fr conv (t_coeff t) of (k, conv) \<Rightarrow>
         (case conv_terms l ts conv of
            None \<Rightarrow> None
          | Some (rest, conv) \<Rightarrow> Some ((of_nat p, k) # rest, conv))))"

definition conv_lc :: "var_layout \<Rightarrow> lin_comb \<Rightarrow> 'a coeff_cache \<Rightarrow> ((u32 \<times> 'a::comm_ring_1) list \<times> 'a coeff_cache) option" where
  "conv_lc l lc conv =
    (if fc_is_zero (lc_const lc) then conv_terms l (lc_terms lc) conv
     else (case coeff_fr conv (lc_const lc) of (k, conv) \<Rightarrow>
       map_option (\<lambda>(ts, conv). ((0, k) # ts, conv)) (conv_terms l (lc_terms lc) conv)))"

fun push_lcs :: "lin_comb list \<Rightarrow> var_layout \<Rightarrow> 'a row_chunk \<times> 'a coeff_cache \<Rightarrow> ('a::comm_ring_1 row_chunk \<times> 'a coeff_cache) option" where
  "push_lcs [] l (c, conv) = Some (c, conv)"
| "push_lcs (lc # lcs) l (c, conv) =
    (case conv_lc l lc conv of
       None \<Rightarrow> None
     | Some (ts, conv) \<Rightarrow> push_lcs lcs l (push_lc ts c, conv))"

definition push_row :: "r1cs_constraint \<Rightarrow> var_layout \<Rightarrow> 'a row_chunk \<times> 'a coeff_cache \<Rightarrow> ('a::comm_ring_1 row_chunk \<times> 'a coeff_cache) option" where
  "push_row r l st = push_lcs [rc_a r, rc_b r, rc_c r] l st"

section \<open>Sources of rows\<close>

record window =
  w_start :: nat
  w_end :: nat
  w_handle_start :: nat
  w_handle_end :: nat

text \<open>
  The trait \<open>ConstraintSource\<close>: \<open>cs_expand\<close> is \<open>None\<close> where the code panics, \<open>cs_eval_window\<close> is \<open>None\<close>
  where the source does not evaluate windows itself (the default).
\<close>

record 'a constraint_source =
  cs_layout :: var_layout
  cs_num_constraints :: nat
  cs_windows :: "nat \<Rightarrow> window list"
  cs_expand :: "window \<Rightarrow> 'a row_chunk option"
  cs_eval_window :: "window \<Rightarrow> 'a list \<Rightarrow> (nat \<Rightarrow> 'a list) option"

text \<open>The values of the three matrices in a window's rows.\<close>

definition window_values :: "'a::comm_ring_1 constraint_source \<Rightarrow> 'a list \<Rightarrow> window \<Rightarrow> (nat \<Rightarrow> 'a list) option" where
  "window_values src z w =
    (case cs_eval_window src w z of
       Some f \<Rightarrow> Some f
     | None \<Rightarrow> map_option (\<lambda>chunk m. map (\<lambda>i. chunk_eval chunk i m z) [0..<w_end w - w_start w]) (cs_expand src w))"

text \<open>Each output is split at the windows, in order, and filled in.\<close>

fun place_windows :: "nat \<Rightarrow> 'a list \<Rightarrow> (window \<times> 'a list) list \<Rightarrow> 'a list" where
  "place_windows cursor rest [] = rest"
| "place_windows cursor rest ((w, vals) # ws) =
    take (w_start w - cursor) rest @ vals @ place_windows (w_end w) (drop (w_end w - cursor) rest) ws"

fun all_some :: "'a option list \<Rightarrow> 'a list option" where
  "all_some [] = Some []"
| "all_some (x # xs) = (case x of None \<Rightarrow> None | Some y \<Rightarrow> map_option (Cons y) (all_some xs))"

definition eval_rows :: "'a::comm_ring_1 constraint_source \<Rightarrow> 'a list \<Rightarrow> nat \<Rightarrow> 'a list option list \<Rightarrow> 'a list option list option" where
  "eval_rows src z rows_hint outs =
    (let ws = cs_windows src rows_hint in
     map_option (\<lambda>vals. map (\<lambda>(m, out). map_option (\<lambda>o'. place_windows 0 o' (zip ws (map (\<lambda>f. f m) vals))) out) (enumerate 0 outs))
       (all_some (map (window_values src z) ws)))"

text \<open>\<open>first_unsatisfied\<close>: the outer option is a panic.\<close>

definition chunk_unsat :: "'a::comm_ring_1 row_chunk \<Rightarrow> 'a list \<Rightarrow> nat option" where
  "chunk_unsat c z = List.find (\<lambda>i. chunk_eval c i 0 z * chunk_eval c i 1 z \<noteq> chunk_eval c i 2 z) [0..<chunk_rows c]"

fun unsat_from :: "'a::comm_ring_1 constraint_source \<Rightarrow> 'a list \<Rightarrow> window list \<Rightarrow> nat option option" where
  "unsat_from src z [] = Some None"
| "unsat_from src z (w # ws) =
    (case cs_expand src w of
       None \<Rightarrow> None
     | Some chunk \<Rightarrow> (case chunk_unsat chunk z of Some i \<Rightarrow> Some (Some (w_start w + i)) | None \<Rightarrow> unsat_from src z ws))"

definition first_unsatisfied :: "'a::comm_ring_1 constraint_source \<Rightarrow> 'a list \<Rightarrow> nat option option" where
  "first_unsatisfied src z = unsat_from src z (cs_windows src (2 ^ 14))"

text \<open>The transpose: \<open>outs[m][p] += w[row] * M[row][p]\<close>.\<close>

definition transpose_row :: "'a::comm_ring_1 row_chunk \<Rightarrow> nat \<Rightarrow> 'a \<Rightarrow> 'a list list \<Rightarrow> 'a list list" where
  "transpose_row chunk i wr outs =
    (if wr = 0 then outs
     else map (\<lambda>(m, out). foldl (\<lambda>o' (c, k). o'[unat c := o' ! unat c + wr * k]) out (chunk_terms chunk i m)) (enumerate 0 outs))"

fun transpose_from :: "'a::comm_ring_1 constraint_source \<Rightarrow> 'a list \<Rightarrow> window list \<Rightarrow> 'a list list \<Rightarrow> 'a list list option" where
  "transpose_from src w [] outs = Some outs"
| "transpose_from src w (win # ws) outs =
    (case cs_expand src win of
       None \<Rightarrow> None
     | Some chunk \<Rightarrow>
        transpose_from src w ws
          (foldl (\<lambda>outs i. transpose_row chunk i (w ! (w_start win + i)) outs) outs [0..<chunk_rows chunk]))"

definition transpose_eval :: "'a::comm_ring_1 constraint_source \<Rightarrow> 'a list \<Rightarrow> 'a list list \<Rightarrow> 'a list list option" where
  "transpose_eval src w outs =
    (if length w \<noteq> cs_num_constraints src then None
     else transpose_from src w (cs_windows src (2 ^ 14)) outs)"

section \<open>Rows of a program\<close>

definition program_windows :: "nat \<Rightarrow> nat \<Rightarrow> window list" where
  "program_windows n rows_hint =
    (let step = max 1 rows_hint in
     map (\<lambda>i. let s = i * step; e = min n (s + step) in
            \<lparr>w_start = s, w_end = e, w_handle_start = s, w_handle_end = e\<rparr>) [0..<div_ceil n step])"

fun push_rows :: "r1cs_constraint list \<Rightarrow> var_layout \<Rightarrow> 'a row_chunk \<times> 'a coeff_cache \<Rightarrow> ('a::comm_ring_1 row_chunk \<times> 'a coeff_cache) option" where
  "push_rows [] l st = Some st"
| "push_rows (r # rs) l st = (case push_row r l st of None \<Rightarrow> None | Some st \<Rightarrow> push_rows rs l st)"

definition program_expand :: "r1cs_program \<Rightarrow> var_layout \<Rightarrow> window \<Rightarrow> 'a::comm_ring_1 row_chunk option" where
  "program_expand prog l w =
    map_option fst (push_rows (take (w_handle_end w - w_handle_start w) (drop (w_handle_start w) (rp_constraints prog))) l
      (chunk_clear (w_start w), []))"

definition program_source :: "r1cs_program \<Rightarrow> 'a::comm_ring_1 constraint_source" where
  "program_source prog =
    (let l = layout_from_program prog in
     \<lparr>cs_layout = l, cs_num_constraints = length (rp_constraints prog),
      cs_windows = program_windows (length (rp_constraints prog)),
      cs_expand = program_expand prog l, cs_eval_window = (\<lambda>_ _. None)\<rparr>)"

end
