(* ===== verification/Groth_Source.thy ===== *)
theory Groth_Source
  imports Groth_Rows
begin

text \<open>
  What a source of rows promises, as a locale, and what the prover computes from any source that
  keeps the promise: the values of the rows, the first row that fails, the transpose. The rows of
  an in-memory program interpret it.
\<close>

section \<open>The interface\<close>

text \<open>\<open>chain a ws n\<close>: the windows \<open>ws\<close> follow each other from \<open>a\<close> to \<open>n\<close>.\<close>

fun chain :: "nat \<Rightarrow> window list \<Rightarrow> nat \<Rightarrow> bool" where
  "chain a [] n \<longleftrightarrow> a = n"
| "chain a (w # ws) n \<longleftrightarrow> w_start w = a \<and> a \<le> w_end w \<and> chain (w_end w) ws n"

lemma chain_le: "chain a ws n \<Longrightarrow> a \<le> n"
  by (induction a ws n rule: chain.induct) auto

definition terms_value :: "(u32 \<times> 'a::comm_ring_1) list \<Rightarrow> 'a list \<Rightarrow> 'a" where
  "terms_value ts z = (\<Sum>(p, k) \<leftarrow> ts. z ! unat p * k)"

lemma terms_value_simps [simp]:
  "terms_value [] z = 0" "terms_value ((p, k) # ts) z = z ! unat p * k + terms_value ts z"
  by (simp_all add: terms_value_def)

lemma foldl_terms: "foldl (\<lambda>acc (p, k). acc + z ! unat p * k) a ts = a + terms_value ts z"
  by (induction ts arbitrary: a) (auto simp: add.assoc)

lemma chunk_eval_terms: "chunk_eval c i m z = terms_value (chunk_terms c i m) z"
  by (simp add: chunk_eval_def foldl_terms)

lemma upt_shift: "map ((+) a) [0..<n - a] @ [n..<k] = [a..<k]" if "a \<le> n" "n \<le> k"
proof -
  have "map ((+) a) [0..<n - a] = [a..<n]" using that(1) by (intro nth_equalityI) simp_all
  then show ?thesis using that by (metis le_Suc_ex upt_add_eq_append)
qed

locale row_source =
  fixes mk :: "'s \<Rightarrow> 'a::comm_ring_1 constraint_source"
    and ok :: "'s \<Rightarrow> bool"
    and row_terms :: "'s \<Rightarrow> nat \<Rightarrow> nat \<Rightarrow> (u32 \<times> 'a) list"
  assumes windows_chain: "ok s \<Longrightarrow> chain 0 (cs_windows (mk s) h) (cs_num_constraints (mk s))"
    and expand_terms: "ok s \<Longrightarrow> w \<in> set (cs_windows (mk s) h) \<Longrightarrow>
      \<exists>c. cs_expand (mk s) w = Some c \<and> chunk_rows c = w_end w - w_start w \<and>
        (\<forall>i < w_end w - w_start w. \<forall>m < 3. chunk_terms c i m = row_terms s m (w_start w + i))"
    and eval_terms: "ok s \<Longrightarrow> w \<in> set (cs_windows (mk s) h) \<Longrightarrow> cs_eval_window (mk s) w z = Some f \<Longrightarrow> m < 3 \<Longrightarrow>
      f m = map (\<lambda>i. terms_value (row_terms s m (w_start w + i)) z) [0..<w_end w - w_start w]"
    and terms_bounded: "ok s \<Longrightarrow> i < cs_num_constraints (mk s) \<Longrightarrow> m < 3 \<Longrightarrow> (p, k) \<in> set (row_terms s m i) \<Longrightarrow>
      unat p < num_vars (cs_layout (mk s))"
begin

definition row_value :: "'s \<Rightarrow> 'a list \<Rightarrow> nat \<Rightarrow> nat \<Rightarrow> 'a" where
  "row_value s z m i = terms_value (row_terms s m i) z"

lemma window_values_eq:
  assumes "ok s" "w \<in> set (cs_windows (mk s) h)"
  obtains f where "window_values (mk s) z w = Some f"
    "\<And>m. m < 3 \<Longrightarrow> f m = map (\<lambda>i. row_value s z m (w_start w + i)) [0..<w_end w - w_start w]"
proof (cases "cs_eval_window (mk s) w z")
  case None
  then show ?thesis using expand_terms [OF assms] that
    by (auto simp: window_values_def row_value_def chunk_eval_terms intro!: map_cong)
next
  case (Some f)
  then show ?thesis using eval_terms [OF assms Some] that
    by (auto simp: window_values_def row_value_def)
qed

text \<open>What each window fills in is what its rows evaluate to.\<close>

lemma place_windows_eq:
  assumes "chain a ws n" "n - a \<le> length rest"
    and "list_all2 (\<lambda>w v. v = map (\<lambda>i. g (w_start w + i)) [0..<w_end w - w_start w]) ws vals"
  shows "place_windows a rest (zip ws vals) = map g [a..<n] @ drop (n - a) rest"
  using assms
proof (induction a ws n arbitrary: rest vals rule: chain.induct)
  case (2 a w ws n)
  then obtain v vs where vals: "vals = v # vs" by (cases vals) auto
  let ?e = "w_end w"
  have e: "a \<le> ?e" "?e \<le> n" "w_start w = a" using 2(2) chain_le by auto
  have "v = map g [a..<?e]" using 2(4) e unfolding vals
    by (auto intro!: nth_equalityI)
  moreover have "place_windows ?e (drop (?e - a) rest) (zip ws vs) = map g [?e..<n] @ drop (n - ?e) (drop (?e - a) rest)"
    using 2 vals e by (intro 2(1)) auto
  moreover have "[a..<n] = [a..<?e] @ [?e..<n]" using e by (metis le_Suc_ex upt_add_eq_append)
  ultimately show ?case using e vals by (simp add: add.commute)
qed simp

lemma all_some_window_values:
  assumes "ok s" "set ws \<subseteq> set (cs_windows (mk s) h)"
  shows "\<exists>fs. all_some (map (window_values (mk s) z) ws) = Some fs \<and>
    list_all2 (\<lambda>w f. \<forall>m<3. f m = map (\<lambda>i. row_value s z m (w_start w + i)) [0..<w_end w - w_start w]) ws fs"
  using assms(2)
proof (induction ws)
  case (Cons w ws)
  then obtain f where f: "window_values (mk s) z w = Some f"
    "\<And>m. m < 3 \<Longrightarrow> f m = map (\<lambda>i. row_value s z m (w_start w + i)) [0..<w_end w - w_start w]"
    using window_values_eq [OF assms(1), of w h z] by auto
  from Cons obtain fs where "all_some (map (window_values (mk s) z) ws) = Some fs"
    "list_all2 (\<lambda>w f. \<forall>m<3. f m = map (\<lambda>i. row_value s z m (w_start w + i)) [0..<w_end w - w_start w]) ws fs" by auto
  then show ?case using f by auto
qed simp

lemma eval_rows_eq:
  assumes "ok s" "\<And>o'. Some o' \<in> set outs \<Longrightarrow> cs_num_constraints (mk s) \<le> length o'" "length outs = 3"
  shows "eval_rows (mk s) z h outs = Some (map (\<lambda>(m, out). map_option (\<lambda>o'.
    map (row_value s z m) [0..<cs_num_constraints (mk s)] @ drop (cs_num_constraints (mk s)) o') out) (enumerate 0 outs))"
proof -
  let ?ws = "cs_windows (mk s) h" and ?n = "cs_num_constraints (mk s)"
  obtain fs where fs: "all_some (map (window_values (mk s) z) ?ws) = Some fs"
    "list_all2 (\<lambda>w f. \<forall>m<3. f m = map (\<lambda>i. row_value s z m (w_start w + i)) [0..<w_end w - w_start w]) ?ws fs"
    using all_some_window_values [OF assms(1), of ?ws h z] by auto
  have "place_windows 0 o' (zip ?ws (map (\<lambda>f. f m) fs)) = map (row_value s z m) [0..<?n] @ drop ?n o'"
    if "(m, Some o') \<in> set (enumerate 0 outs)" for m o'
  proof -
    have m: "m < 3" "Some o' \<in> set outs" using that assms(3) nth_mem [of m outs] by (auto simp: in_set_enumerate_eq)
    have "list_all2 (\<lambda>w v. v = map (\<lambda>i. row_value s z m (w_start w + i)) [0..<w_end w - w_start w]) ?ws (map (\<lambda>f. f m) fs)"
      using fs(2) m(1) by (auto simp: list_all2_map2 elim!: list_all2_mono)
    from place_windows_eq [OF windows_chain [OF assms(1)] _ this, of o'] assms(2) [OF m(2)] show ?thesis by simp
  qed
  then show ?thesis unfolding eval_rows_def Let_def fs(1)
    by (auto simp: split_beta intro!: map_cong option.map_cong)
qed

definition satisfied :: "'s \<Rightarrow> 'a list \<Rightarrow> nat \<Rightarrow> bool" where
  "satisfied s z i \<longleftrightarrow> row_value s z 0 i * row_value s z 1 i = row_value s z 2 i"

lemma find_append: "List.find P (xs @ ys) = (case List.find P xs of None \<Rightarrow> List.find P ys | r \<Rightarrow> r)"
  by (induction xs) auto

lemma find_shift: "List.find P (map ((+) a) xs) = map_option ((+) a) (List.find (\<lambda>i. P (a + i)) xs)"
  by (induction xs) auto

lemma unsat_from_eq:
  assumes "ok s" "set ws \<subseteq> set (cs_windows (mk s) h)" "chain a ws n"
  shows "unsat_from (mk s) z ws = Some (List.find (\<lambda>i. \<not> satisfied s z i) [a..<n])"
  using assms(2,3)
proof (induction a ws n rule: chain.induct)
  case (2 a w ws n)
  let ?e = "w_end w"
  have e: "a \<le> ?e" "?e \<le> n" "w_start w = a" "chain ?e ws n" using 2(3) chain_le by auto
  obtain c where c: "cs_expand (mk s) w = Some c" "chunk_rows c = ?e - a"
    "\<And>i m. i < ?e - a \<Longrightarrow> m < 3 \<Longrightarrow> chunk_terms c i m = row_terms s m (a + i)"
    using expand_terms [OF assms(1), of w h] 2(2) e(3) by auto
  have "chunk_unsat c z = List.find (\<lambda>i. \<not> satisfied s z (a + i)) [0..<?e - a]"
    unfolding chunk_unsat_def c(2) by (rule find_cong) (auto simp: satisfied_def row_value_def chunk_eval_terms c(3))
  moreover have "[a..<n] = map ((+) a) [0..<?e - a] @ [?e..<n]"
    using upt_shift [OF e(1,2)] by simp
  ultimately show ?case using 2 e c(1)
    by (auto simp: find_append find_shift split: option.splits)
qed simp

lemma first_unsatisfied_eq:
  "ok s \<Longrightarrow> first_unsatisfied (mk s) z = Some (List.find (\<lambda>i. \<not> satisfied s z i) [0..<cs_num_constraints (mk s)])"
  unfolding first_unsatisfied_def by (rule unsat_from_eq [OF _ _ windows_chain]) auto

lemma first_unsatisfied_None:
  "ok s \<Longrightarrow> first_unsatisfied (mk s) z = Some None \<longleftrightarrow> (\<forall>i < cs_num_constraints (mk s). satisfied s z i)"
  by (auto simp: first_unsatisfied_eq find_None_iff)

text \<open>The transpose is the adjoint of the rows' evaluation.\<close>

definition dot :: "'a list \<Rightarrow> 'a list \<Rightarrow> 'a" where
  "dot o' z = (\<Sum>p<length o'. o' ! p * z ! p)"

lemma dot_update: "c < length o' \<Longrightarrow> dot (o'[c := o' ! c + x]) z = dot o' z + x * z ! c"
proof -
  assume c: "c < length o'"
  have "dot (o'[c := o' ! c + x]) z = (\<Sum>p<length o'. o' ! p * z ! p + (if p = c then x * z ! c else 0))"
    unfolding dot_def length_list_update
    by (rule sum.cong) (auto simp: nth_list_update distrib_right)
  also have "\<dots> = dot o' z + x * z ! c" using c by (simp add: sum.distrib dot_def)
  finally show ?thesis .
qed

lemma dot_scatter:
  assumes "\<forall>(c, k) \<in> set ts. unat c < length o'"
  shows "dot (foldl (\<lambda>o' (c, k). o'[unat c := o' ! unat c + wr * k]) o' ts) z = dot o' z + wr * terms_value ts z \<and>
    length (foldl (\<lambda>o' (c, k). o'[unat c := o' ! unat c + wr * k]) o' ts) = length o'"
  using assms
proof (induction ts arbitrary: o')
  case (Cons t ts)
  obtain c k where t: "t = (c, k)" by (cases t)
  then show ?case using Cons by (simp add: dot_update) (simp add: algebra_simps)
qed simp

definition transposed :: "'s \<Rightarrow> 'a list \<Rightarrow> nat \<Rightarrow> nat \<Rightarrow> 'a list list \<Rightarrow> 'a list list \<Rightarrow> bool" where
  "transposed s w a b outs outs' \<longleftrightarrow> length outs' = length outs \<and>
    (\<forall>m < 3. length (outs' ! m) = length (outs ! m) \<and>
      (\<forall>z. dot (outs' ! m) z = dot (outs ! m) z + (\<Sum>i\<in>{a..<b}. w ! i * row_value s z m i)))"

lemma transposed_refl: "transposed s w a a outs outs"
  by (simp add: transposed_def)

lemma transposed_trans:
  assumes "transposed s w a b o1 o2" "transposed s w b c o2 o3" "a \<le> b" "b \<le> c"
  shows "transposed s w a c o1 o3"
proof -
  have "(\<Sum>i\<in>{a..<c}. f i) = (\<Sum>i\<in>{a..<b}. f i) + (\<Sum>i\<in>{b..<c}. f i)" for f :: "nat \<Rightarrow> 'a"
    using sum.atLeastLessThan_concat [OF assms(3,4), of f] by simp
  then show ?thesis using assms(1,2) by (simp add: transposed_def add.assoc)
qed

definition outs_ok :: "'s \<Rightarrow> 'a list list \<Rightarrow> bool" where
  "outs_ok s outs \<longleftrightarrow> length outs = 3 \<and> (\<forall>m < 3. length (outs ! m) = num_vars (cs_layout (mk s)))"

lemma outs_ok_transposed: "outs_ok s outs \<Longrightarrow> transposed s w a b outs outs' \<Longrightarrow> outs_ok s outs'"
  by (simp add: outs_ok_def transposed_def)

lemma transpose_row_step:
  assumes "ok s" "outs_ok s outs" "i < cs_num_constraints (mk s)"
    and c: "\<And>m. m < 3 \<Longrightarrow> chunk_terms c j m = row_terms s m i"
  shows "transposed s w i (Suc i) outs (transpose_row c j (w ! i) outs)"
proof (cases "w ! i = 0")
  case True
  then show ?thesis by (simp add: transpose_row_def transposed_def)
next
  case False
  have "\<forall>(p, k) \<in> set (chunk_terms c j m). unat p < length (outs ! m)" if "m < 3" for m
    using terms_bounded [OF assms(1,3) that] assms(2) that by (auto simp: c outs_ok_def)
  then show ?thesis using False assms(2)
    by (simp add: transpose_row_def transposed_def outs_ok_def nth_enumerate_eq dot_scatter c row_value_def)
qed

lemma transpose_window:
  assumes "ok s" "b \<le> cs_num_constraints (mk s)" "outs_ok s outs"
    and c: "\<And>i m. i < b - a \<Longrightarrow> m < 3 \<Longrightarrow> chunk_terms c i m = row_terms s m (a + i)"
  shows "k \<le> b - a \<Longrightarrow> transposed s w a (a + k) outs (foldl (\<lambda>outs i. transpose_row c i (w ! (a + i)) outs) outs [0..<k])"
proof (induction k)
  case (Suc k)
  let ?o = "foldl (\<lambda>outs i. transpose_row c i (w ! (a + i)) outs) outs [0..<k]"
  have t: "transposed s w a (a + k) outs ?o" using Suc by simp
  have "transposed s w (a + k) (Suc (a + k)) ?o (transpose_row c k (w ! (a + k)) ?o)"
    using Suc.prems assms(2) c by (intro transpose_row_step [OF assms(1) outs_ok_transposed [OF assms(3) t]]) auto
  from transposed_trans [OF t this] show ?case by simp
qed (simp add: transposed_refl)

lemma transpose_from_ok:
  assumes "ok s" "set ws \<subseteq> set (cs_windows (mk s) h)" "chain a ws (cs_num_constraints (mk s))" "outs_ok s outs"
  shows "\<exists>outs'. transpose_from (mk s) w ws outs = Some outs' \<and> transposed s w a (cs_num_constraints (mk s)) outs outs'"
  using assms(2-4)
proof (induction ws arbitrary: a outs)
  case (Cons win ws)
  let ?n = "cs_num_constraints (mk s)" and ?e = "w_end win"
  have e: "a \<le> ?e" "?e \<le> ?n" "w_start win = a" "chain ?e ws ?n" using Cons.prems(2) chain_le by auto
  obtain c where c: "cs_expand (mk s) win = Some c" "chunk_rows c = ?e - a"
    "\<And>i m. i < ?e - a \<Longrightarrow> m < 3 \<Longrightarrow> chunk_terms c i m = row_terms s m (a + i)"
    using expand_terms [OF assms(1), of win h] Cons.prems(1) e(3) by auto
  let ?o = "foldl (\<lambda>outs i. transpose_row c i (w ! (a + i)) outs) outs [0..<?e - a]"
  have t: "transposed s w a ?e outs ?o"
    using transpose_window [OF assms(1) e(2) Cons.prems(3) c(3) order_refl, where w = w] e(1) by simp
  from Cons.IH [OF _ e(4) outs_ok_transposed [OF Cons.prems(3) t]] Cons.prems(1)
  obtain outs' where "transpose_from (mk s) w ws ?o = Some outs'" "transposed s w ?e ?n ?o outs'" by auto
  then show ?case using c e transposed_trans [OF t _ e(1,2)] by auto
qed (auto simp: transposed_refl)

lemma transpose_eval_adjoint:
  assumes "ok s" "length w = cs_num_constraints (mk s)" "outs_ok s outs"
  obtains outs' where "transpose_eval (mk s) w outs = Some outs'"
    "\<And>m z. m < 3 \<Longrightarrow> dot (outs' ! m) z = dot (outs ! m) z + (\<Sum>i<cs_num_constraints (mk s). w ! i * row_value s z m i)"
proof -
  obtain outs' where t: "transpose_from (mk s) w (cs_windows (mk s) (2 ^ 14)) outs = Some outs'"
    "transposed s w 0 (cs_num_constraints (mk s)) outs outs'"
    using transpose_from_ok [OF assms(1) order_refl windows_chain [OF assms(1)] assms(3)] by blast
  show ?thesis
  proof (rule that)
    show "transpose_eval (mk s) w outs = Some outs'" using t(1) assms(2) by (simp add: transpose_eval_def)
    show "dot (outs' ! m) z = dot (outs ! m) z + (\<Sum>i<cs_num_constraints (mk s). w ! i * row_value s z m i)" if "m < 3" for m z
      using t(2) that unfolding transposed_def lessThan_atLeast0 by blast
  qed
qed

end

section \<open>Positions\<close>

lemma foldl_map_upd_other: "i \<notin> snd ` set xs \<Longrightarrow> foldl (\<lambda>m (p, i). m(i \<mapsto> g p)) m xs i = m i"
  by (induction xs arbitrary: m) auto

lemma foldl_map_upd_at:
  "distinct (map snd xs) \<Longrightarrow> (p, i) \<in> set xs \<Longrightarrow> foldl (\<lambda>m (p, i). m(i \<mapsto> g p)) m xs i = Some (g p)"
  by (induction xs arbitrary: m) (auto simp: foldl_map_upd_other)

lemma enumerate_pair: "(p, i) \<in> set (enumerate 0 ids) \<longleftrightarrow> p < length ids \<and> ids ! p = i"
  by (simp add: in_set_enumerate_eq)

lemma unat_Suc_u32: "p < 2 ^ 32 - 2 \<Longrightarrow> unat (of_nat p + 1 :: u32) = Suc p \<and> (of_nat p + 1 :: u32) \<noteq> - 1"
proof -
  assume p: "p < 2 ^ 32 - 2"
  have e: "(of_nat p + 1 :: u32) = of_nat (Suc p)" by (simp add: add.commute)
  have u: "unat (of_nat p + 1 :: u32) = Suc p" unfolding e unat_of_nat using p by (simp add: take_bit_nat_eq_self del: of_nat_Suc)
  moreover have "(of_nat p + 1 :: u32) \<noteq> - 1"
  proof
    assume "(of_nat p + 1 :: u32) = - 1"
    then have "unat (of_nat p + 1 :: u32) = unat (- 1 :: u32)" by (rule arg_cong)
    then have "Suc p = 4294967295" unfolding u unat_u32_max .
    then show False using p by simp
  qed
  ultimately show ?thesis by blast
qed

lemma position_iff:
  assumes "distinct ids" "length ids < 2 ^ 32 - 1"
    and dense: "\<And>len i. dense_len = Some len \<Longrightarrow> i \<in> set ids \<Longrightarrow> unat i < len"
  shows "position \<lparr>vl_positions = layout_positions dense_len ids, vl_ids = ids, vl_num_instance = k\<rparr> i = Some p \<longleftrightarrow>
    1 \<le> p \<and> p \<le> length ids \<and> ids ! (p - 1) = i"
proof -
  let ?l = "\<lparr>vl_positions = layout_positions dense_len ids, vl_ids = ids, vl_num_instance = k\<rparr>"
  have unat_inj: "unat a = unat b \<Longrightarrow> a = b" for a b :: u32 by (rule unsigned_word_eqI)
  have at: "position ?l (ids ! q) = Some (Suc q)" if q: "q < length ids" for q
  proof -
    have u: "unat (of_nat q + 1 :: u32) = Suc q" "(of_nat q + 1 :: u32) \<noteq> - 1"
      using unat_Suc_u32 [of q] q assms(2) by auto
    have mem: "(q, ids ! q) \<in> set (enumerate 0 ids)" using q by (simp add: enumerate_pair)
    show ?thesis
    proof (cases dense_len)
      case None
      have "distinct (map snd (enumerate 0 ids))" using assms(1) by simp
      from foldl_map_upd_at [OF this mem, of "\<lambda>p. of_nat p + 1 :: u32" Map.empty] show ?thesis
        using None u by (simp add: position_def layout_positions_def)
    next
      case (Some len)
      have "inj_on (\<lambda>(p, i). unat i) (set (enumerate 0 ids))"
        using assms(1) by (auto simp: inj_on_def enumerate_pair nth_eq_iff_index_eq dest!: unat_inj)
      moreover have "unat (ids ! q) < length (replicate len (- 1 :: u32))" using dense [OF Some, of "ids ! q"] q by simp
      ultimately have "write_all (\<lambda>(p, i). unat i) (\<lambda>(p, i). of_nat p + 1) (enumerate 0 ids) (replicate len (- 1)) ! unat (ids ! q) = (of_nat q + 1 :: u32)"
        using write_all_at [OF mem, of "\<lambda>(p, i). unat i" "replicate len (- 1 :: u32)" "\<lambda>(p, i). of_nat p + 1"] by simp
      then show ?thesis using Some u dense [OF Some, of "ids ! q"] q by (simp add: position_def layout_positions_def)
    qed
  qed
  have none: "position ?l i = None" if i: "i \<notin> set ids"
  proof (cases dense_len)
    case None
    have "i \<notin> snd ` set (enumerate 0 ids)" using i by (metis list.set_map map_snd_enumerate)
    from foldl_map_upd_other [OF this, of "\<lambda>p. of_nat p + 1 :: u32" Map.empty] show ?thesis
      using None by (simp add: position_def layout_positions_def)
  next
    case (Some len)
    have "unat i \<notin> (\<lambda>(p, i). unat i) ` set (enumerate 0 ids)" using i by (auto simp: enumerate_pair dest!: unat_inj)
    from write_all_other [OF this, of "\<lambda>(p, i). of_nat p + 1" "replicate len (- 1 :: u32)"] show ?thesis
      using Some by (simp add: position_def layout_positions_def)
  qed
  show ?thesis
  proof
    assume p: "position ?l i = Some p"
    then obtain q where "q < length ids" "ids ! q = i" using none by (metis in_set_conv_nth option.distinct(1))
    then show "1 \<le> p \<and> p \<le> length ids \<and> ids ! (p - 1) = i" using at [of q] p by auto
  next
    assume "1 \<le> p \<and> p \<le> length ids \<and> ids ! (p - 1) = i"
    then show "position ?l i = Some p" using at [of "p - 1"] by auto
  qed
qed

end
