(* ===== verification/Groth_Program.thy ===== *)
theory Groth_Program
  imports Groth_Source
begin

text \<open>
  The rows of an in-memory program: the layout puts the public variables first, the coefficient
  cache changes no value, and the flat chunks hold the terms of each row. They interpret the
  interface of \<open>Groth_Source\<close>.
\<close>

section \<open>The layout of a program\<close>

definition program_vars :: "r1cs_program \<Rightarrow> (var_id \<times> bool) list" where
  "program_vars prog = map (\<lambda>v. (rv_id v, rv_visibility v = Public)) (rp_variables prog)"

lemma set_layout_ids: "set (layout_ids vars) = fst ` set vars"
  by (auto simp: layout_ids_def)

lemma length_layout_ids: "length (layout_ids vars) = length vars"
  using sum_length_filter_compl [of snd vars] by (simp add: layout_ids_def)

lemma distinct_layout_ids: "distinct (map fst vars) \<Longrightarrow> distinct (layout_ids vars)"
  by (force simp: layout_ids_def distinct_map inj_on_def intro: distinct_filter)

lemma unat_plus_one: "(v :: u32) \<noteq> - 1 \<Longrightarrow> unat (v + 1) = Suc (unat v)"
proof -
  assume v: "v \<noteq> - 1"
  have "unat v \<noteq> unat (- 1 :: u32)" using v unsigned_word_eqI by blast
  then have "Suc (unat v) < 2 ^ 32" using unat_u32_less [of v] unfolding unat_u32_max by simp
  moreover have "v + 1 = of_nat (Suc (unat v))" by simp
  ultimately show ?thesis by (simp only: unat_of_nat) (simp add: take_bit_nat_eq_self)
qed

lemma layout_dense_bound:
  assumes "layout_dense_len vars = Some len" "sorted (map fst vars)" "i \<in> fst ` set vars"
  shows "unat i < len"
proof -
  have ne: "vars \<noteq> []" using assms(3) by auto
  let ?v = "fst (last vars)"
  have "i \<le> ?v"
  proof -
    obtain k where k: "k < length vars" "i = fst (vars ! k)" using assms(3) by (auto simp: in_set_conv_nth)
    then have "map fst vars ! k \<le> map fst vars ! (length vars - 1)"
      by (intro sorted_nth_mono [OF assms(2)]) auto
    then show ?thesis using k ne by (simp add: last_conv_nth)
  qed
  moreover have v: "?v \<noteq> - 1" "len = unat (?v + 1)"
    using assms(1) ne by (auto simp: layout_dense_len_def Let_def split: if_splits)
  moreover have "unat (?v + 1) = Suc (unat ?v)" by (rule unat_plus_one [OF v(1)])
  ultimately show ?thesis by (simp add: word_le_nat_alt)
qed

lemma position_layout_new:
  assumes "distinct (map fst vars)" "length vars < 2 ^ 32 - 1"
  shows "position (layout_new vars) i = Some p \<longleftrightarrow>
    1 \<le> p \<and> p \<le> length vars \<and> vl_ids (layout_new vars) ! (p - 1) = i"
proof -
  let ?v = "sort_key fst vars"
  have d: "distinct (map fst ?v)" using assms(1) by (simp add: distinct_map)
  have len: "length (layout_ids ?v) = length vars" by (simp add: length_layout_ids)
  have "position (layout_new vars) i = Some p \<longleftrightarrow>
      1 \<le> p \<and> p \<le> length (layout_ids ?v) \<and> layout_ids ?v ! (p - 1) = i"
    unfolding layout_new_def Let_def
    using layout_dense_bound [of ?v] distinct_layout_ids [OF d] assms(2) len
    by (intro position_iff) (auto simp: set_layout_ids)
  then show ?thesis by (simp add: len layout_new_def Let_def)
qed

text \<open>Publics first, each group in ascending order of ids.\<close>

lemma layout_new_ids:
  assumes "distinct (map fst vars)"
  shows "vl_ids (layout_new vars) =
    sorted_list_of_set (fst ` {v \<in> set vars. snd v}) @ sorted_list_of_set (fst ` {v \<in> set vars. \<not> snd v})"
    and "vl_num_instance (layout_new vars) = card (fst ` {v \<in> set vars. snd v}) + 1"
proof -
  let ?v = "sort_key fst vars"
  have d: "distinct (map fst ?v)" using assms by (simp add: distinct_map)
  have sub: "map fst (filter P ?v) = sorted_list_of_set (fst ` {v \<in> set vars. P v})" for P
  proof -
    have "sorted (map fst (filter P ?v))" by (rule sorted_filter) simp
    moreover have "distinct (map fst (filter P ?v))" using d by (rule distinct_map_filter)
    moreover have "set (map fst (filter P ?v)) = fst ` {v \<in> set vars. P v}" by auto
    ultimately show ?thesis by (intro sorted_distinct_set_unique) simp_all
  qed
  show "vl_ids (layout_new vars) =
      sorted_list_of_set (fst ` {v \<in> set vars. snd v}) @ sorted_list_of_set (fst ` {v \<in> set vars. \<not> snd v})"
    by (simp add: layout_new_def Let_def layout_ids_def sub)
  have "length (filter snd ?v) = length (map fst (filter snd ?v))" by simp
  also have "\<dots> = card (fst ` {v \<in> set vars. snd v})" unfolding sub by simp
  finally show "vl_num_instance (layout_new vars) = card (fst ` {v \<in> set vars. snd v}) + 1"
    by (simp add: layout_new_def Let_def)
qed

section \<open>Coefficients\<close>

definition cache_ok :: "'a::comm_ring_1 coeff_cache \<Rightarrow> bool" where
  "cache_ok cache \<longleftrightarrow> bt_invar cache \<and> (\<forall>fc f. bt_get cache fc = Some f \<longrightarrow> f = of_int (fc_big fc))"

lemma cache_ok_Nil: "cache_ok []"
  by (simp add: cache_ok_def)

lemma signed_of_nat: "(if n < 0 then - of_nat (nat \<bar>n\<bar>) else of_nat (nat \<bar>n\<bar>)) = (of_int n :: 'a::comm_ring_1)"
  by (cases "n < 0") (simp_all add: of_nat_nat)

lemma coeff_fr_ok:
  assumes "cache_ok cache"
  obtains cache' where "coeff_fr cache fc = (of_int (fc_big fc), cache')" "cache_ok cache'"
proof (cases "fc_as_i64 fc")
  case (Some n)
  then have "fc = Small n" by (auto simp: fc_as_i64_def split: field_const.splits)
  then show ?thesis using assms that signed_of_nat [of "sint n"] by (simp add: coeff_fr_def fc_as_i64_def Let_def)
next
  case None
  show ?thesis
  proof (cases "bt_get cache fc")
    case (Some f)
    then show ?thesis using None assms that by (simp add: coeff_fr_def cache_ok_def)
  next
    case n: None
    let ?f = "of_int (fc_big fc)"
    have "cache_ok (bt_insert fc ?f cache)" using assms by (auto simp: cache_ok_def)
    then show ?thesis using None n that signed_of_nat [of "fc_big fc"] by (simp add: coeff_fr_def Let_def)
  qed
qed

definition lc_row_terms :: "var_layout \<Rightarrow> lin_comb \<Rightarrow> (u32 \<times> 'a::comm_ring_1) list" where
  "lc_row_terms l lc =
    (if fc_is_zero (lc_const lc) then [] else [(0, of_int (fc_big (lc_const lc)))]) @
    map (\<lambda>t. (of_nat (the (position l (t_var t))), of_int (fc_big (t_coeff t)))) (lc_terms lc)"

definition lc_allocated :: "var_layout \<Rightarrow> lin_comb \<Rightarrow> bool" where
  "lc_allocated l lc \<longleftrightarrow> (\<forall>t \<in> set (lc_terms lc). position l (t_var t) \<noteq> None)"

lemma conv_terms_ok:
  assumes "\<forall>t \<in> set ts. position l (t_var t) \<noteq> None" "cache_ok conv"
  shows "\<exists>conv'. conv_terms l ts conv = Some (map (\<lambda>t. (of_nat (the (position l (t_var t))), of_int (fc_big (t_coeff t)))) ts, conv') \<and> cache_ok conv'"
  using assms
proof (induction ts arbitrary: conv)
  case (Cons t ts)
  obtain c1 where c1: "coeff_fr conv (t_coeff t) = (of_int (fc_big (t_coeff t)), c1)" "cache_ok c1"
    by (rule coeff_fr_ok [OF Cons.prems(2)])
  from Cons.IH [OF _ c1(2)] Cons.prems(1) c1(1) show ?case by fastforce
qed simp

lemma conv_lc_ok:
  assumes "lc_allocated l lc" "cache_ok conv"
  shows "\<exists>conv'. conv_lc l lc conv = Some (lc_row_terms l lc, conv') \<and> cache_ok conv'"
proof (cases "fc_is_zero (lc_const lc)")
  case True
  then show ?thesis using conv_terms_ok assms by (fastforce simp: conv_lc_def lc_row_terms_def lc_allocated_def)
next
  case False
  obtain c1 where c1: "coeff_fr conv (lc_const lc) = (of_int (fc_big (lc_const lc)), c1)" "cache_ok c1"
    by (rule coeff_fr_ok [OF assms(2)])
  from conv_terms_ok [OF _ c1(2)] assms(1) False c1(1) show ?thesis
    by (fastforce simp: conv_lc_def lc_row_terms_def lc_allocated_def)
qed

section \<open>Chunks\<close>

definition chunk_lists :: "'a row_chunk \<Rightarrow> (u32 \<times> 'a) list list \<Rightarrow> bool" where
  "chunk_lists c tss \<longleftrightarrow> rk_cols c = map fst (concat tss) \<and> rk_coeffs c = map snd (concat tss) \<and>
    rk_offsets c = map (\<lambda>i. of_nat (length (concat (take i tss)))) [0..<Suc (length tss)]"

lemma chunk_lists_clear: "chunk_lists (chunk_clear first) []"
  by (simp add: chunk_lists_def chunk_clear_def)

lemma chunk_lists_push:
  assumes "chunk_lists c tss"
  shows "chunk_lists (push_lc ts c) (tss @ [ts])"
  using assms by (simp add: chunk_lists_def push_lc_def Let_def)

lemma chunk_terms_lists:
  assumes c: "chunk_lists c tss" and k: "3 * row + m < length tss" and small: "length (concat tss) < 2 ^ 32"
  shows "chunk_terms c row m = tss ! (3 * row + m)"
proof -
  let ?k = "3 * row + m"
  let ?pre = "concat (take ?k tss)" and ?ts = "tss ! ?k" and ?post = "concat (drop (Suc ?k) tss)"
  have split: "concat tss = ?pre @ ?ts @ ?post"
    using id_take_nth_drop [OF k] by (metis concat.simps(2) concat_append)
  have pre: "concat (take (Suc ?k) tss) = ?pre @ ?ts" using k by (simp add: take_Suc_conv_app_nth)
  have "length ?pre + length ?ts < 2 ^ 32" using small by (subst (asm) split) simp
  then have u: "unat (of_nat (length ?pre) :: u32) = length ?pre"
    "unat (of_nat (length ?pre + length ?ts) :: u32) = length ?pre + length ?ts"
    unfolding unat_of_nat by (simp_all add: take_bit_nat_eq_self)
  have off: "unat (rk_offsets c ! ?k) = length ?pre" "unat (rk_offsets c ! (?k + 1)) = length ?pre + length ?ts"
    using c k u pre by (simp_all add: chunk_lists_def del: upt_Suc of_nat_add)
  have "rk_cols c = map fst ?pre @ map fst ?ts @ map fst ?post" "rk_coeffs c = map snd ?pre @ map snd ?ts @ map snd ?post"
    using c by (simp_all add: chunk_lists_def split)
  then show ?thesis using off by (simp add: chunk_terms_def Let_def zip_map_fst_snd)
qed

definition row_lcs :: "r1cs_constraint \<Rightarrow> lin_comb list" where
  "row_lcs r = [rc_a r, rc_b r, rc_c r]"

lemma push_lcs_ok:
  assumes "\<forall>lc \<in> set lcs. lc_allocated l lc" "cache_ok conv" "chunk_lists c tss"
  shows "\<exists>c' conv'. push_lcs lcs l (c, conv) = Some (c', conv') \<and> cache_ok conv' \<and>
    chunk_lists c' (tss @ map (lc_row_terms l) lcs)"
  using assms
proof (induction lcs arbitrary: c conv tss)
  case (Cons lc lcs)
  obtain conv' where conv': "conv_lc l lc conv = Some (lc_row_terms l lc, conv')" "cache_ok conv'"
    using conv_lc_ok [of l lc conv] Cons.prems by auto
  from Cons.IH [OF _ conv'(2) chunk_lists_push [OF Cons.prems(3), of "lc_row_terms l lc"]] Cons.prems(1) conv'(1)
  show ?case by auto
qed simp

lemma push_rows_ok:
  assumes "\<forall>r \<in> set rs. \<forall>lc \<in> set (row_lcs r). lc_allocated l lc" "cache_ok conv" "chunk_lists c tss"
  shows "\<exists>c' conv'. push_rows rs l (c, conv) = Some (c', conv') \<and>
    chunk_lists c' (tss @ concat (map (\<lambda>r. map (lc_row_terms l) (row_lcs r)) rs))"
  using assms
proof (induction rs arbitrary: c conv tss)
  case (Cons r rs)
  obtain c' conv' where r: "push_row r l (c, conv) = Some (c', conv')" "cache_ok conv'"
    "chunk_lists c' (tss @ map (lc_row_terms l) (row_lcs r))"
    using push_lcs_ok [of "row_lcs r" l conv c tss] Cons.prems by (auto simp: push_row_def row_lcs_def)
  from Cons.IH [OF _ r(2,3)] Cons.prems(1) r(1) show ?case by auto
qed simp

section \<open>The source of a program's rows\<close>

definition lc_nnz :: "lin_comb \<Rightarrow> nat" where
  "lc_nnz lc = length (lc_terms lc) + (if fc_is_zero (lc_const lc) then 0 else 1)"

definition rows_nnz :: "r1cs_constraint list \<Rightarrow> nat" where
  "rows_nnz rs = (\<Sum>r\<leftarrow>rs. \<Sum>lc\<leftarrow>row_lcs r. lc_nnz lc)"

text \<open>The variables have distinct ids and include those of the rows, and positions and term offsets
  fit their \<open>u32\<close>s.\<close>

definition program_ok :: "r1cs_program \<Rightarrow> bool" where
  "program_ok prog \<longleftrightarrow> distinct (map rv_id (rp_variables prog)) \<and> length (rp_variables prog) < 2 ^ 32 - 1 \<and>
    (\<forall>r \<in> set (rp_constraints prog). \<forall>lc \<in> set (row_lcs r). \<forall>t \<in> set (lc_terms lc).
      t_var t \<in> rv_id ` set (rp_variables prog)) \<and>
    rows_nnz (rp_constraints prog) < 2 ^ 32"

definition program_terms :: "r1cs_program \<Rightarrow> nat \<Rightarrow> nat \<Rightarrow> (u32 \<times> 'a::comm_ring_1) list" where
  "program_terms prog m i = lc_row_terms (layout_from_program prog) (row_lcs (rp_constraints prog ! i) ! m)"

lemma program_layout: "layout_from_program prog = layout_new (program_vars prog)"
  by (simp add: layout_from_program_def program_vars_def)

lemma program_vars_simps [simp]:
  "map fst (program_vars prog) = map rv_id (rp_variables prog)" "length (program_vars prog) = length (rp_variables prog)"
  by (simp_all add: program_vars_def)

lemma position_program:
  assumes "program_ok prog"
  shows "position (layout_from_program prog) i = Some p \<longleftrightarrow> 1 \<le> p \<and> p < num_vars (layout_from_program prog) \<and>
    vl_ids (layout_from_program prog) ! (p - 1) = i"
proof -
  have "length (vl_ids (layout_from_program prog)) = length (rp_variables prog)"
    by (simp add: program_layout layout_new_def Let_def length_layout_ids)
  then show ?thesis using position_layout_new [of "program_vars prog" i p] assms
    by (auto simp: program_layout program_ok_def num_vars_def)
qed

lemma program_ids: "set (vl_ids (layout_from_program prog)) = rv_id ` set (rp_variables prog)"
  by (auto simp: program_layout layout_new_def Let_def set_layout_ids program_vars_def image_image)

lemma position_some:
  assumes "program_ok prog" "i \<in> rv_id ` set (rp_variables prog)"
  obtains p where "position (layout_from_program prog) i = Some p" "p < num_vars (layout_from_program prog)"
proof -
  obtain q where q: "q < length (vl_ids (layout_from_program prog))" "vl_ids (layout_from_program prog) ! q = i"
    using assms(2) unfolding program_ids [symmetric] by (metis in_set_conv_nth)
  then have "position (layout_from_program prog) i = Some (Suc q)" using position_program [OF assms(1)] by (simp add: num_vars_def)
  then show ?thesis using that position_program [OF assms(1)] by blast
qed

lemma program_allocated:
  assumes "program_ok prog" "r \<in> set (rp_constraints prog)" "lc \<in> set (row_lcs r)"
  shows "lc_allocated (layout_from_program prog) lc"
  using assms position_some [OF assms(1)] unfolding lc_allocated_def program_ok_def by (metis option.distinct(1))

lemma num_vars_small: "program_ok prog \<Longrightarrow> num_vars (layout_from_program prog) < 2 ^ 32"
  by (simp add: program_ok_def num_vars_def program_layout layout_new_def Let_def length_layout_ids)

lemma lc_row_terms_bounded:
  assumes "program_ok prog" "r \<in> set (rp_constraints prog)" "lc \<in> set (row_lcs r)"
    "(p, k) \<in> set (lc_row_terms (layout_from_program prog) lc)"
  shows "unat p < num_vars (layout_from_program prog)"
proof -
  let ?l = "layout_from_program prog"
  have "p = 0 \<or> (\<exists>t \<in> set (lc_terms lc). p = of_nat (the (position ?l (t_var t))))"
    using assms(4) by (auto simp: lc_row_terms_def split: if_splits)
  then show ?thesis
  proof
    assume "\<exists>t \<in> set (lc_terms lc). p = of_nat (the (position ?l (t_var t)))"
    then obtain t where t: "t \<in> set (lc_terms lc)" "p = of_nat (the (position ?l (t_var t)))" by blast
    have "t_var t \<in> rv_id ` set (rp_variables prog)" using assms(1-3) t(1) by (simp add: program_ok_def)
    then obtain q where q: "position ?l (t_var t) = Some q" "q < num_vars ?l" by (rule position_some [OF assms(1)])
    then have "unat p = q" using num_vars_small [OF assms(1)] t(2) by (simp add: unat_of_nat take_bit_nat_eq_self)
    then show ?thesis using q by simp
  qed (simp add: num_vars_def)
qed

lemma chain_program_windows:
  fixes n h
  defines "step \<equiv> max 1 h"
  shows "chain 0 (program_windows n h) n"
proof -
  have step: "0 < step" by (simp add: step_def)
  define W where "W i = \<lparr>w_start = i * step, w_end = min n (i * step + step),
    w_handle_start = i * step, w_handle_end = min n (i * step + step)\<rparr>" for i
  let ?c = "div_ceil n step"
  have below: "i * step < n" if "i < ?c" for i
  proof -
    have "Suc i * step \<le> ?c * step" using that by (intro mult_le_mono1) simp
    also have "\<dots> \<le> n + step - 1" by (simp add: div_ceil_def)
    finally show ?thesis using step by simp
  qed
  have top: "n \<le> ?c * step"
  proof (cases "n = 0")
    case False
    then have "(n - 1) div step < ?c" by (intro tile_index [OF step]) simp
    then have "n - 1 < ?c * step" using step by (simp add: div_less_iff_less_mult)
    then show ?thesis by simp
  qed simp
  have "chain (min n (i * step)) (map W [i..<?c]) n" if "i \<le> ?c" for i
    using that
  proof (induction "?c - i" arbitrary: i)
    case 0
    then show ?case using top by (simp add: min_def)
  next
    case (Suc d)
    then have i: "i < ?c" by simp
    have "chain (min n (Suc i * step)) (map W [Suc i..<?c]) n" using Suc i by (intro Suc.hyps(1)) simp_all
    then show ?case using below [OF i] i by (simp add: upt_conv_Cons W_def add.commute)
  qed
  moreover have "program_windows n h = map W [0..<?c]"
    unfolding program_windows_def Let_def step_def [symmetric] by (simp add: W_def)
  ultimately show ?thesis by (metis bot_nat_0.extremum min_0R mult_0)
qed

lemma program_window_bounds:
  assumes "w \<in> set (program_windows n h)"
  shows "w_handle_start w = w_start w" "w_handle_end w = w_end w" "w_end w \<le> n"
  using assms by (auto simp: program_windows_def Let_def)

lemma nth_row_lists:
  "i < length rs \<Longrightarrow> m < 3 \<Longrightarrow> concat (map (\<lambda>r. map f (row_lcs r)) rs) ! (3 * i + m) = f (row_lcs (rs ! i) ! m)"
proof (induction rs arbitrary: i)
  case (Cons r rs)
  have l: "length (map f (row_lcs r)) = 3" by (simp add: row_lcs_def)
  show ?case
  proof (cases i)
    case 0
    then have "3 * i + m < length (map f (row_lcs r))" using Cons.prems l by simp
    then have "concat (map (\<lambda>r. map f (row_lcs r)) (r # rs)) ! (3 * i + m) = map f (row_lcs r) ! (3 * i + m)"
      by (simp only: list.map concat.simps nth_append if_True)
    then show ?thesis using 0 Cons.prems l by (simp del: list.map add: nth_map)
  next
    case (Suc j)
    then have "3 * i + m = length (map f (row_lcs r)) + (3 * j + m)" using l by simp
    then show ?thesis using Cons Suc by (simp only: list.map concat.simps nth_append_length_plus) simp
  qed
qed simp

lemma length_row_lists: "length (concat (map (\<lambda>r. map f (row_lcs r)) rs)) = 3 * length rs"
  by (induction rs) (simp_all add: row_lcs_def)

lemma length_lc_row_terms: "length (lc_row_terms l lc) = lc_nnz lc"
  by (simp add: lc_row_terms_def lc_nnz_def)

lemma length_row_terms: "length (concat (concat (map (\<lambda>r. map (lc_row_terms l) (row_lcs r)) rs))) = rows_nnz rs"
  by (induction rs) (simp_all add: rows_nnz_def row_lcs_def length_lc_row_terms)

lemma rows_nnz_part: "rows_nnz (take k (drop s rs)) \<le> rows_nnz rs"
proof -
  have app: "rows_nnz (xs @ ys) = rows_nnz xs + rows_nnz ys" for xs ys by (simp add: rows_nnz_def)
  have "rows_nnz rs = rows_nnz (take s rs) + (rows_nnz (take k (drop s rs)) + rows_nnz (drop k (drop s rs)))"
    by (simp only: app [symmetric] append_take_drop_id)
  then show ?thesis by simp
qed

lemma program_expand_ok:
  assumes ok: "program_ok prog" and w: "w \<in> set (program_windows (length (rp_constraints prog)) h)"
  shows "\<exists>c :: 'a::comm_ring_1 row_chunk. program_expand prog (layout_from_program prog) w = Some c \<and>
    chunk_rows c = w_end w - w_start w \<and>
    (\<forall>i < w_end w - w_start w. \<forall>m < 3. chunk_terms c i m = program_terms prog m (w_start w + i))"
proof -
  let ?l = "layout_from_program prog" and ?n = "w_end w - w_start w"
  let ?rs = "take ?n (drop (w_start w) (rp_constraints prog))"
  let ?tss = "concat (map (\<lambda>r. map (lc_row_terms ?l) (row_lcs r)) ?rs) :: (u32 \<times> 'a) list list"
  note b = program_window_bounds [OF w]
  have len: "length ?rs = ?n" using b(3) by simp
  have "\<forall>r \<in> set ?rs. \<forall>lc \<in> set (row_lcs r). lc_allocated ?l lc"
    using program_allocated [OF ok] by (meson in_set_dropD in_set_takeD)
  from push_rows_ok [OF this cache_ok_Nil chunk_lists_clear [of "w_start w"]]
  obtain c :: "'a row_chunk" and conv where c: "push_rows ?rs ?l (chunk_clear (w_start w), []) = Some (c, conv)" "chunk_lists c ?tss"
    by auto
  have "program_expand prog ?l w = Some c" using c(1) b by (simp add: program_expand_def)
  moreover have "chunk_rows c = ?n"
    using c(2) len length_row_lists [of "lc_row_terms ?l :: lin_comb \<Rightarrow> (u32 \<times> 'a) list" ?rs]
    by (simp add: chunk_lists_def chunk_rows_def del: upt_Suc)
  moreover have "chunk_terms c i m = program_terms prog m (w_start w + i)" if "i < ?n" "m < 3" for i m
  proof -
    have "rows_nnz ?rs < 2 ^ 32" using rows_nnz_part [of ?n "w_start w" "rp_constraints prog"] ok by (simp add: program_ok_def)
    then have "chunk_terms c i m = ?tss ! (3 * i + m)"
      using that len by (intro chunk_terms_lists [OF c(2)]) (simp_all add: length_row_lists length_row_terms)
    also have "\<dots> = lc_row_terms ?l (row_lcs (?rs ! i) ! m)" using that len by (intro nth_row_lists) simp_all
    also have "?rs ! i = rp_constraints prog ! (w_start w + i)" using that len b(3) by simp
    finally show ?thesis by (simp add: program_terms_def)
  qed
  ultimately show ?thesis by blast
qed

interpretation program: row_source program_source program_ok program_terms
proof
  fix prog h and w and i m p :: nat and k :: 'a and q :: u32
  assume ok: "program_ok prog"
  show "chain 0 (cs_windows (program_source prog :: 'a constraint_source) h)
      (cs_num_constraints (program_source prog :: 'a constraint_source))"
    by (simp add: program_source_def Let_def chain_program_windows)
  show "\<exists>c. cs_expand (program_source prog) w = Some c \<and> chunk_rows c = w_end w - w_start w \<and>
      (\<forall>i < w_end w - w_start w. \<forall>m < 3. chunk_terms c i m = (program_terms prog m (w_start w + i) :: (u32 \<times> 'a) list))"
    if "w \<in> set (cs_windows (program_source prog :: 'a constraint_source) h)"
    using program_expand_ok [OF ok] that by (simp add: program_source_def Let_def)
  show "unat q < num_vars (cs_layout (program_source prog :: 'a constraint_source))"
    if "i < cs_num_constraints (program_source prog :: 'a constraint_source)" "m < 3" "(q, k) \<in> set (program_terms prog m i)"
  proof -
    have r: "rp_constraints prog ! i \<in> set (rp_constraints prog)" using that(1) by (simp add: program_source_def Let_def)
    have "row_lcs (rp_constraints prog ! i) ! m \<in> set (row_lcs (rp_constraints prog ! i))"
      using that(2) by (intro nth_mem) (simp add: row_lcs_def)
    from lc_row_terms_bounded [OF ok r this] that(3) show ?thesis
      by (simp add: program_terms_def program_source_def Let_def)
  qed
qed (simp add: program_source_def Let_def)

end
