(* ===== verification/Fft_Domain.thy ===== *)
theory Fft_Domain
  imports Fft_Passes
begin

text \<open>
  The transforms of a domain: every domain the constructors build is well formed, and on it the
  blocked transforms, forward and inverse, to and from T-layout and to a coset, are the discrete
  Fourier transform.
\<close>

section \<open>Well-formed domains\<close>

definition smooth_cols :: "nat \<Rightarrow> bool" where
  "smooth_cols n1 \<longleftrightarrow> (\<exists>b k. n1 = 3 ^ b * 2 ^ k \<and> k \<le> 64)"

definition domain_ok :: "'a::field \<Rightarrow> 'a fft_domain \<Rightarrow> bool" where
  "domain_ok w D \<longleftrightarrow> dom_n D = dom_n1 D * dom_n2 D \<and> smooth_cols (dom_n1 D) \<and>
    (\<exists>k\<le>64. dom_n2 D = 2 ^ k) \<and> 0 < dom_tile D \<and> root_of_order (dom_n D) w \<and>
    size_inv D * of_nat (dom_n D) = 1 \<and> (3 dvd dom_n1 D \<longrightarrow> (2 :: 'a) \<noteq> 0) \<and>
    dom_fwd D = tables_new w (dom_n1 D) (dom_n2 D) \<and>
    dom_inv D = tables_new (inverse w) (dom_n1 D) (dom_n2 D)"

lemma domain_zeros_split: "n \<noteq> 0 \<Longrightarrow> 2 ^ trailing_zeros_usize n * (n div 2 ^ trailing_zeros_usize n) = n"
proof (induction n rule: trailing_zeros_usize.induct)
  case (1 n)
  show ?case
  proof (cases "odd n")
    case True
    then show ?thesis using 1(2) by (simp add: trailing_zeros_usize.simps [of n])
  next
    case False
    then have "n div 2 \<noteq> 0" using 1(2) by auto
    with 1 False have "2 ^ trailing_zeros_usize (n div 2) * (n div 2 div 2 ^ trailing_zeros_usize (n div 2)) = n div 2" by simp
    then have "2 * (2 ^ trailing_zeros_usize (n div 2) * (n div 2 div 2 ^ trailing_zeros_usize (n div 2))) = n"
      using False by (simp only:) simp
    then show ?thesis using 1(2) False
      by (subst (1 2) trailing_zeros_usize.simps) (simp add: div_mult2_eq mult.assoc)
  qed
qed

lemma with_split_ok:
  fixes root :: "nat \<Rightarrow> 'a::field option"
  assumes "with_split root n1 n2 tile = Some D" "\<And>w. root (n1 * n2) = Some w \<Longrightarrow> root_of_order (n1 * n2) w" "(2 :: 'a) \<noteq> 0"
  shows "dom_n D = n1 * n2" "dom_n1 D = n1" "dom_n2 D = n2" "\<exists>w. root (n1 * n2) = Some w \<and> domain_ok w D"
proof -
  define z where "z = trailing_zeros_usize n1"
  have ok: "is_power_of_two n2" "z < 64" "n1 div 2 ^ z \<in> {1, 3, 9}" "n1 * n2 < 2 ^ 64"
    using assms(1) by (auto simp: with_split_def Let_def z_def not_le split: if_splits)
  obtain w wi ni where w: "root (n1 * n2) = Some w" "field_inverse w = Some wi" "field_inverse (of_nat (n1 * n2) :: 'a) = Some ni"
    and D: "D = \<lparr>dom_n = n1 * n2, dom_log_n = ilog2 (n1 * n2), dom_n1 = n1, dom_n2 = n2,
               dom_tile = max 1 (min tile n2), size_inv = ni,
               dom_fwd = tables_new w n1 n2, dom_inv = tables_new wi n1 n2\<rparr>"
    using assms(1) ok by (auto simp: with_split_def Let_def z_def bind_eq_Some_conv split: if_splits)
  have n1: "n1 = 2 ^ z * (n1 div 2 ^ z)"
  proof (cases "n1 = 0")
    case False
    then show ?thesis using domain_zeros_split [of n1] by (simp add: z_def)
  qed simp
  have "smooth_cols n1"
  proof -
    have "n1 div 2 ^ z = 3 ^ 0 \<or> n1 div 2 ^ z = 3 ^ 1 \<or> n1 div 2 ^ z = 3 ^ 2" using ok(3) by simp
    then obtain b where "n1 div 2 ^ z = 3 ^ b" by blast
    then show ?thesis using n1 ok(2) unfolding smooth_cols_def by (metis less_imp_le mult.commute)
  qed
  moreover have "\<exists>k\<le>64. n2 = 2 ^ k"
  proof -
    have n2: "n2 = 2 ^ trailing_zeros_usize n2" "0 < n1" using ok by (auto simp: is_power_of_two_def intro: gr0I)
    have "n2 \<le> n1 * n2" using n2(2) by simp
    then have "n2 < 2 ^ 64" using ok(4) by linarith
    then have "trailing_zeros_usize n2 < 64" using n2(1) by (metis nat_power_less_imp_less zero_less_numeral)
    then show ?thesis using n2(1) less_imp_le by blast
  qed
  moreover have "field_inverse y = Some yi \<Longrightarrow> yi = inverse y \<and> yi * y = 1" for y yi :: 'a
    by (auto simp: field_inverse_def split: if_splits)
  from this [OF w(2)] this [OF w(3)] have "wi = inverse w" "ni * of_nat (n1 * n2) = 1" by blast+
  ultimately show "\<exists>w. root (n1 * n2) = Some w \<and> domain_ok w D"
    using w(1) assms(2) [OF w(1)] assms(3) by (auto simp: domain_ok_def D)
  show "dom_n D = n1 * n2" "dom_n1 D = n1" "dom_n2 D = n2" by (simp_all add: D)
qed

lemma split_of_product: "split_of n cfg = Some (n1, n2) \<Longrightarrow> n1 * n2 = n"
  unfolding split_of_def Let_def
  by (auto split: if_splits simp flip: power_add)

lemma with_size_ok:
  fixes root :: "nat \<Rightarrow> 'a::field option"
  assumes "with_size root n cfg = Some D" "\<And>w. root n = Some w \<Longrightarrow> root_of_order n w" "(2 :: 'a) \<noteq> 0"
  shows "dom_n D = n" "\<exists>w. root n = Some w \<and> domain_ok w D"
proof -
  obtain n1 n2 where s: "split_of n cfg = Some (n1, n2)" "with_split root n1 n2 (cfg_tile cfg) = Some D"
    using assms(1) by (auto simp: with_size_def split: option.splits)
  have n: "n1 * n2 = n" by (rule split_of_product [OF s(1)])
  from with_split_ok [OF s(2), unfolded n, OF assms(2,3)]
  show "dom_n D = n" "\<exists>w. root n = Some w \<and> domain_ok w D" by simp_all
qed

section \<open>Columns and rows\<close>

lemma domain_okD:
  assumes "domain_ok w D"
  shows "dom_n D = dom_n1 D * dom_n2 D" "0 < dom_n1 D" "0 < dom_n2 D" "0 < dom_tile D"
    "root_of_order (dom_n1 D * dom_n2 D) w" "root_of_order (dom_n1 D * dom_n2 D) (inverse w)"
    "size_inv D * of_nat (dom_n1 D * dom_n2 D) = 1"
  using assms root_of_order_inverse unfolding domain_ok_def smooth_cols_def by auto

lemma col_fft_dft:
  assumes ok: "domain_ok w D" and v: "root_of_order (dom_n1 D * dom_n2 D) v" and len: "length col = dom_n1 D"
  shows "col_fft D (tables_new v (dom_n1 D) (dom_n2 D)) col = map (dft (v ^ dom_n2 D) (dom_n1 D) ((!) col)) [0..<dom_n1 D]"
proof -
  let ?n1 = "dom_n1 D" and ?n2 = "dom_n2 D"
  have pos: "0 < ?n1" "0 < ?n2" by (rule domain_okD [OF ok])+
  have r: "root_of_order ?n1 (v ^ ?n2)" using root_of_order_power [of ?n2 ?n1 v] v pos by (simp add: mult.commute)
  obtain b k where bk: "?n1 = 3 ^ b * 2 ^ k" "k \<le> 64" using ok by (auto simp: domain_ok_def smooth_cols_def)
  show ?thesis
  proof (cases "?n1 mod 3 = 0")
    case True
    have "powers (v ^ ?n2) ?n1 ! (j * 1) = (v ^ ?n2) ^ j" if "j < length col" for j using that len by simp
    moreover have "(2 :: 'a) \<noteq> 0" using ok True by (simp add: domain_ok_def dvd_eq_mod_eq_0)
    ultimately show ?thesis using mixed_fft_dft [of col b k "v ^ ?n2" "powers (v ^ ?n2) ?n1" 1] bk r len pos True
      by (simp add: col_fft_def tables_new_def Let_def)
  next
    case False
    then have "b = 0" using bk(1) by (cases b) auto
    then have "?n1 = 2 ^ k" using bk by simp
    then show ?thesis using radix2_fft_strided_dft [of col k "v ^ ?n2" "powers (v ^ ?n2) (?n1 div 2)" 1] bk(2) r len pos False
      by (simp add: col_fft_def tables_new_def Let_def radix2_fft_def)
  qed
qed

lemma row_fft_dft:
  assumes ok: "domain_ok w D" and v: "root_of_order (dom_n1 D * dom_n2 D) v" and len: "length row = dom_n2 D"
  shows "radix2_fft row (tw_n2 (tables_new v (dom_n1 D) (dom_n2 D))) = map (dft (v ^ dom_n1 D) (dom_n2 D) ((!) row)) [0..<dom_n2 D]"
proof -
  let ?n1 = "dom_n1 D" and ?n2 = "dom_n2 D"
  have pos: "0 < ?n1" "0 < ?n2" by (rule domain_okD [OF ok])+
  obtain k where k: "?n2 = 2 ^ k" "k \<le> 64" using ok by (auto simp: domain_ok_def)
  have "root_of_order ?n2 (v ^ ?n1)" using root_of_order_power [of ?n1 ?n2 v] v pos by simp
  then show ?thesis using radix2_fft_strided_dft [of row k "v ^ ?n1" "powers (v ^ ?n1) (?n2 div 2)" 1] k len pos
    by (simp add: tables_new_def Let_def radix2_fft_def)
qed

lemma col_core_post:
  assumes "domain_ok w D" "root_of_order (dom_n1 D * dom_n2 D) v" "length col = dom_n1 D" "k < dom_n1 D"
  shows "col_core D (tables_new v (dom_n1 D) (dom_n2 D)) Post sc step col ! k =
    dft (v ^ dom_n2 D) (dom_n1 D) ((!) col) k * (sc * step ^ k)"
  using assms(4) by (simp add: col_core_def col_fft_dft [OF assms(1-3)] geo_scale_eq)

lemma col_core_pre:
  assumes "domain_ok w D" "root_of_order (dom_n1 D * dom_n2 D) v" "length col = dom_n1 D" "k < dom_n1 D"
  shows "col_core D (tables_new v (dom_n1 D) (dom_n2 D)) Pre sc step col ! k =
    dft (v ^ dom_n2 D) (dom_n1 D) (\<lambda>r. col ! r * (sc * step ^ r)) k"
proof -
  have "col_core D (tables_new v (dom_n1 D) (dom_n2 D)) Pre sc step col ! k =
      dft (v ^ dom_n2 D) (dom_n1 D) ((!) (geo_scale sc step col)) k"
    using assms(3,4) col_fft_dft [OF assms(1,2), of "geo_scale sc step col"] by (simp add: col_core_def)
  also have "\<dots> = dft (v ^ dom_n2 D) (dom_n1 D) (\<lambda>r. col ! r * (sc * step ^ r)) k"
    by (rule dft_cong) (simp add: geo_scale_eq assms(3))
  finally show ?thesis .
qed

section \<open>Four steps\<close>

text \<open>Position \<open>k1 * n2 + k2\<close> of a T-layout buffer holds index \<open>k1 + n1 * k2\<close>.\<close>

definition t_list :: "nat \<Rightarrow> nat \<Rightarrow> (nat \<Rightarrow> 'a) \<Rightarrow> 'a list" where
  "t_list n1 n2 x = map (\<lambda>i. x (i div n2 + n1 * (i mod n2))) [0..<n1 * n2]"

lemma length_t_list [simp]: "length (t_list n1 n2 x) = n1 * n2"
  by (simp add: t_list_def)

lemma nth_t_list: "r < n1 \<Longrightarrow> c < n2 \<Longrightarrow> t_list n1 n2 x ! (r * n2 + c) = x (r + n1 * c)"
  using cell_bound [of r n1 c n2] by (simp add: t_list_def)

lemma t_list_flat: "t_list 1 n x = map x [0..<n]"
  by (rule nth_equalityI) (simp_all add: t_list_def)

lemma list_eq_cells:
  assumes "length xs = n1 * n2" "length ys = n1 * n2"
    and "\<And>r c. r < n1 \<Longrightarrow> c < n2 \<Longrightarrow> xs ! (r * n2 + c) = ys ! (r * n2 + c)"
  shows "xs = ys"
proof (rule nth_equalityI)
  fix i assume "i < length xs"
  then have i: "i < n1 * n2" using assms(1) by simp
  then have "i div n2 < n1" "i mod n2 < n2" by (auto simp: less_mult_imp_div_less intro!: mod_less_divisor gr0I)
  from assms(3) [OF this] show "xs ! i = ys ! i" by simp
qed (simp add: assms(1,2))

lemma power_swap: "(w ^ a) ^ b = (w ^ b) ^ a" for w :: "'a::monoid_mult"
  by (simp add: power_mult [symmetric] mult.commute)

lemma four_steps_to_t:
  fixes v :: "'a::field"
  assumes v: "v ^ (n1 * n2) = 1"
  shows "dft v (n1 * n2) x (k1 + n1 * k2) =
    dft (v ^ n1) n2 (\<lambda>c. dft (v ^ n2) n1 (\<lambda>r. x (r * n2 + c)) k1 * (v ^ c) ^ k1) k2"
proof -
  have e: "v ^ ((r * n2 + c) * (k1 + n1 * k2)) = (v ^ n2) ^ (r * k1) * (v ^ c) ^ k1 * (v ^ n1) ^ (c * k2)" for r c
  proof -
    have "v ^ ((r * n2 + c) * (k1 + n1 * k2)) =
        (v ^ n2) ^ (r * k1) * (v ^ c) ^ k1 * (v ^ n1) ^ (c * k2) * (v ^ (n1 * n2)) ^ (r * k2)"
      by (simp add: power_mult [symmetric] power_add [symmetric] algebra_simps)
    then show ?thesis using v by simp
  qed
  have "dft v (n1 * n2) x (k1 + n1 * k2) = (\<Sum>r<n1. \<Sum>c<n2. x (r * n2 + c) * v ^ ((r * n2 + c) * (k1 + n1 * k2)))"
    unfolding dft_def sum_blocks ..
  also have "\<dots> = (\<Sum>c<n2. \<Sum>r<n1. x (r * n2 + c) * v ^ ((r * n2 + c) * (k1 + n1 * k2)))" by (rule sum.swap)
  also have "\<dots> = (\<Sum>c<n2. (\<Sum>r<n1. x (r * n2 + c) * (v ^ n2) ^ (r * k1)) * (v ^ c) ^ k1 * (v ^ n1) ^ (c * k2))"
    unfolding e sum_distrib_right by (simp add: mult.assoc)
  finally show ?thesis by (simp add: dft_def)
qed

lemma four_steps_from_t:
  fixes v :: "'a::field"
  assumes v: "v ^ (n1 * n2) = 1"
  shows "dft v (n1 * n2) x (r * n2 + c) =
    dft (v ^ n2) n1 (\<lambda>k1. dft (v ^ n1) n2 (\<lambda>k2. x (k1 + n1 * k2)) c * (v ^ c) ^ k1) r"
proof -
  have e: "v ^ ((k2 * n1 + k1) * (r * n2 + c)) = (v ^ n1) ^ (k2 * c) * (v ^ c) ^ k1 * (v ^ n2) ^ (k1 * r)" for k1 k2
  proof -
    have "v ^ ((k2 * n1 + k1) * (r * n2 + c)) =
        (v ^ n1) ^ (k2 * c) * (v ^ c) ^ k1 * (v ^ n2) ^ (k1 * r) * (v ^ (n1 * n2)) ^ (r * k2)"
      by (simp add: power_mult [symmetric] power_add [symmetric] algebra_simps)
    then show ?thesis using v by simp
  qed
  have "dft v (n1 * n2) x (r * n2 + c) = (\<Sum>k2<n2. \<Sum>k1<n1. x (k2 * n1 + k1) * v ^ ((k2 * n1 + k1) * (r * n2 + c)))"
    unfolding dft_def mult.commute [of n1 n2] sum_blocks ..
  also have "\<dots> = (\<Sum>k1<n1. \<Sum>k2<n2. x (k2 * n1 + k1) * v ^ ((k2 * n1 + k1) * (r * n2 + c)))" by (rule sum.swap)
  also have "\<dots> = (\<Sum>k1<n1. (\<Sum>k2<n2. x (k1 + n1 * k2) * (v ^ n1) ^ (k2 * c)) * (v ^ c) ^ k1 * (v ^ n2) ^ (k1 * r))"
    unfolding e sum_distrib_right by (simp add: mult.assoc add.commute mult.commute [of n1])
  finally show ?thesis by (simp add: dft_def)
qed

lemma col_step_nth:
  "c < n2 \<Longrightarrow> 1 < n1 \<Longrightarrow> col_step (tables_new v n1 n2) ! c = v ^ c"
  by (simp add: tables_new_def Let_def)

lemma dft_scale: "dft w n (\<lambda>j. x j * s) k = dft w n x k * s"
  unfolding dft_def sum_distrib_right by (rule sum.cong) (simp_all add: mult_ac)

text \<open>\<open>st\<close> is the row stage of the root \<open>v\<close>.\<close>

definition fft_stage :: "'a::field fft_domain \<Rightarrow> 'a \<Rightarrow> 'a row_stage \<Rightarrow> bool" where
  "fft_stage D v st \<longleftrightarrow> (\<forall>k row. row_stage D k st row = radix2_fft row (tw_n2 (tables_new v (dom_n1 D) (dom_n2 D))))"

lemma fft_stages:
  assumes "domain_ok w D"
  shows "fft_stage D w Stage_Fft" "fft_stage D (inverse w) Stage_Ifft"
  using assms by (simp_all add: fft_stage_def row_stage_def domain_ok_def)

lemma row_of_map: "length xs = n \<Longrightarrow> map (\<lambda>c. xs ! c) [0..<n] = xs"
  by (rule nth_equalityI) simp_all

lemma to_t_blocked:
  assumes ok: "domain_ok w D" and v: "root_of_order (dom_n1 D * dom_n2 D) v" and b: "1 < dom_n1 D"
    and st: "fft_stage D v st" and len: "length buf = dom_n1 D * dom_n2 D"
  shows "rows_pass D [st] (col_pass D (tables_new v (dom_n1 D) (dom_n2 D)) Post sc buf) =
    t_list (dom_n1 D) (dom_n2 D) (\<lambda>i. dft v (dom_n1 D * dom_n2 D) ((!) buf) i * sc)"
proof (rule list_eq_cells)
  let ?n1 = "dom_n1 D" and ?n2 = "dom_n2 D"
  let ?cols = "col_pass D (tables_new v ?n1 ?n2) Post sc buf"
  note pos = domain_okD [OF ok]
  show "length (rows_pass D [st] ?cols) = ?n1 * ?n2" by (simp add: len)
  fix r c assume rc: "r < ?n1" "c < ?n2"
  have cell: "?cols ! (r * ?n2 + c) = dft (v ^ ?n2) ?n1 (\<lambda>q. buf ! (q * ?n2 + c)) r * (v ^ c) ^ r * sc" if "c < ?n2" for c
  proof -
    have "?cols ! (r * ?n2 + c) = dft (v ^ ?n2) ?n1 ((!) (column ?n1 ?n2 buf c)) r * (sc * (v ^ c) ^ r)"
      using nth_col_pass [OF len pos(4) rc(1) that] col_step_nth [OF that b, of v] col_core_post [OF ok v _ rc(1)] by simp
    also have "dft (v ^ ?n2) ?n1 ((!) (column ?n1 ?n2 buf c)) r = dft (v ^ ?n2) ?n1 (\<lambda>q. buf ! (q * ?n2 + c)) r"
      by (rule dft_cong) (simp add: column_def)
    finally show ?thesis by (simp add: mult_ac)
  qed
  have "rows_pass D [st] ?cols ! (r * ?n2 + c) = dft (v ^ ?n1) ?n2 ((!) (map (\<lambda>c. ?cols ! (r * ?n2 + c)) [0..<?n2])) c"
    using nth_rows_pass [OF pos(3) _ rc, of ?cols "[st]"] st row_fft_dft [OF ok v] rc(2) len
    by (simp add: fft_stage_def)
  also have "\<dots> = dft (v ^ ?n1) ?n2 (\<lambda>c. dft (v ^ ?n2) ?n1 (\<lambda>q. buf ! (q * ?n2 + c)) r * (v ^ c) ^ r * sc) c"
    by (rule dft_cong) (simp add: cell)
  also have "\<dots> = dft v (?n1 * ?n2) ((!) buf) (r + ?n1 * c) * sc"
    using four_steps_to_t [OF root_of_orderD [OF v], of "(!) buf" r c] by (simp add: dft_scale)
  finally show "rows_pass D [st] ?cols ! (r * ?n2 + c) = t_list ?n1 ?n2 (\<lambda>i. dft v (?n1 * ?n2) ((!) buf) i * sc) ! (r * ?n2 + c)"
    using rc by (simp add: nth_t_list)
qed simp

lemma from_t_blocked:
  assumes ok: "domain_ok w D" and v: "root_of_order (dom_n1 D * dom_n2 D) v" and b: "1 < dom_n1 D"
    and st: "fft_stage D v st"
  shows "col_pass D (tables_new v (dom_n1 D) (dom_n2 D)) Pre sc (rows_pass D [st] (t_list (dom_n1 D) (dom_n2 D) x)) =
    map (\<lambda>i. dft v (dom_n1 D * dom_n2 D) x i * sc) [0..<dom_n1 D * dom_n2 D]"
proof (rule list_eq_cells)
  let ?n1 = "dom_n1 D" and ?n2 = "dom_n2 D"
  let ?rows = "rows_pass D [st] (t_list ?n1 ?n2 x)"
  note pos = domain_okD [OF ok]
  show "length (col_pass D (tables_new v ?n1 ?n2) Pre sc ?rows) = ?n1 * ?n2" by simp
  fix r c assume rc: "r < ?n1" "c < ?n2"
  have cell: "?rows ! (q * ?n2 + c) = dft (v ^ ?n1) ?n2 (\<lambda>k2. x (q + ?n1 * k2)) c" if q: "q < ?n1" for q
  proof -
    have "?rows ! (q * ?n2 + c) = dft (v ^ ?n1) ?n2 ((!) (map (\<lambda>c. t_list ?n1 ?n2 x ! (q * ?n2 + c)) [0..<?n2])) c"
      using nth_rows_pass [OF pos(3) _ q rc(2), of "t_list ?n1 ?n2 x" "[st]"] st row_fft_dft [OF ok v] rc(2)
      by (simp add: fft_stage_def)
    also have "\<dots> = dft (v ^ ?n1) ?n2 (\<lambda>k2. x (q + ?n1 * k2)) c"
      by (rule dft_cong) (simp add: nth_t_list q)
    finally show ?thesis .
  qed
  have "col_pass D (tables_new v ?n1 ?n2) Pre sc ?rows ! (r * ?n2 + c) =
      dft (v ^ ?n2) ?n1 (\<lambda>q. column ?n1 ?n2 ?rows c ! q * (sc * (v ^ c) ^ q)) r"
    using nth_col_pass [OF _ pos(4) rc, of ?rows] col_step_nth [OF rc(2) b, of v] col_core_pre [OF ok v _ rc(1)] by simp
  also have "\<dots> = dft (v ^ ?n2) ?n1 (\<lambda>q. dft (v ^ ?n1) ?n2 (\<lambda>k2. x (q + ?n1 * k2)) c * (v ^ c) ^ q * sc) r"
    by (rule dft_cong) (simp add: column_def cell mult_ac)
  also have "\<dots> = dft v (?n1 * ?n2) x (r * ?n2 + c) * sc"
    using four_steps_from_t [OF root_of_orderD [OF v], of x r c] by (simp add: dft_scale)
  finally show "col_pass D (tables_new v ?n1 ?n2) Pre sc ?rows ! (r * ?n2 + c) =
      map (\<lambda>i. dft v (?n1 * ?n2) x i * sc) [0..<?n1 * ?n2] ! (r * ?n2 + c)"
    using cell_bound [OF rc] by simp
qed simp

section \<open>The transforms to and from T-layout\<close>

lemma flat_domain:
  assumes "domain_ok w D" "\<not> is_blocked D"
  shows "dom_n1 D = 1" "dom_n D = dom_n2 D"
  using domain_okD [OF assms(1)] assms(2) by (simp_all add: is_blocked_def)

lemma flat_fft:
  assumes "domain_ok w D" "\<not> is_blocked D" "root_of_order (dom_n D) v" "length row = dom_n D"
  shows "radix2_fft row (tw_n2 (tables_new v (dom_n1 D) (dom_n2 D))) = map (dft v (dom_n D) ((!) row)) [0..<dom_n D]"
  using row_fft_dft [OF assms(1), of v row] assms(3,4) flat_domain [OF assms(1,2)] by simp

lemma domain_tables:
  "domain_ok w D \<Longrightarrow> dom_fwd D = tables_new w (dom_n1 D) (dom_n2 D)"
  "domain_ok w D \<Longrightarrow> dom_inv D = tables_new (inverse w) (dom_n1 D) (dom_n2 D)"
  by (simp_all add: domain_ok_def)

lemma domain_roots:
  "domain_ok w D \<Longrightarrow> root_of_order (dom_n D) w" "domain_ok w D \<Longrightarrow> root_of_order (dom_n D) (inverse w)"
  using domain_okD(1,5,6) [of w D] by simp_all

lemma scale_all_map: "scale_all k buf = map (\<lambda>v. v * k) buf"
  unfolding scale_all_def by (rule par_chunks_map) simp

definition idft :: "'a::field \<Rightarrow> 'a fft_domain \<Rightarrow> (nat \<Rightarrow> 'a) \<Rightarrow> nat \<Rightarrow> 'a" where
  "idft w D x = (\<lambda>i. dft (inverse w) (dom_n D) x i * size_inv D)"

lemma map_nth_const: "(!) (map f [0..<n]) i = f i" if "i < n"
  using that by simp

lemma fft_to_t_eq:
  assumes "domain_ok w D" "length buf = dom_n D"
  shows "fft_to_t D buf = Some (t_list (dom_n1 D) (dom_n2 D) (dft w (dom_n D) ((!) buf)))"
proof (cases "is_blocked D")
  case True
  then show ?thesis using to_t_blocked [OF assms(1) _ _ fft_stages(1) [OF assms(1)], of buf 1] assms domain_okD [OF assms(1)]
    by (simp add: fft_to_t_def checked_def domain_tables is_blocked_def)
next
  case False
  then show ?thesis using flat_fft [OF assms(1) False domain_roots(1) [OF assms(1)] assms(2)] flat_domain [OF assms(1) False] assms
    by (simp add: fft_to_t_def checked_def domain_tables t_list_flat [simplified])
qed

lemma ifft_to_t_eq:
  assumes "domain_ok w D" "length buf = dom_n D"
  shows "ifft_to_t D buf = Some (t_list (dom_n1 D) (dom_n2 D) (idft w D ((!) buf)))"
proof (cases "is_blocked D")
  case True
  then show ?thesis using to_t_blocked [OF assms(1) _ _ fft_stages(2) [OF assms(1)], of buf "size_inv D"] assms domain_okD [OF assms(1)]
    by (simp add: ifft_to_t_def checked_def domain_tables is_blocked_def idft_def)
next
  case False
  then show ?thesis using flat_fft [OF assms(1) False domain_roots(2) [OF assms(1)] assms(2)] flat_domain [OF assms(1) False] assms
    by (simp add: ifft_to_t_def checked_def domain_tables t_list_flat [simplified] scale_all_map idft_def comp_def)
qed

lemma dft_of_map: "dft w n ((!) (map x [0..<n])) = dft w n x"
  by (rule ext) (rule dft_cong, simp)

lemma fft_from_t_eq:
  assumes "domain_ok w D"
  shows "fft_from_t D (t_list (dom_n1 D) (dom_n2 D) x) = Some (map (dft w (dom_n D) x) [0..<dom_n D])"
proof (cases "is_blocked D")
  case True
  then show ?thesis using from_t_blocked [OF assms(1) _ _ fft_stages(1) [OF assms(1)], of 1 x] assms domain_okD [OF assms(1)]
    by (simp add: fft_from_t_def checked_def domain_tables is_blocked_def)
next
  case False
  then show ?thesis using flat_fft [OF assms(1) False domain_roots(1) [OF assms(1)], of "map x [0..<dom_n D]"]
      flat_domain [OF assms(1) False] assms
    by (simp add: fft_from_t_def checked_def domain_tables t_list_flat [simplified] dft_of_map)
qed

lemma ifft_from_t_eq:
  assumes "domain_ok w D"
  shows "ifft_from_t D (t_list (dom_n1 D) (dom_n2 D) x) = Some (map (idft w D x) [0..<dom_n D])"
proof (cases "is_blocked D")
  case True
  then show ?thesis using from_t_blocked [OF assms(1) _ _ fft_stages(2) [OF assms(1)], of "size_inv D" x] assms domain_okD [OF assms(1)]
    by (simp add: ifft_from_t_def checked_def domain_tables is_blocked_def idft_def)
next
  case False
  then show ?thesis using flat_fft [OF assms(1) False domain_roots(2) [OF assms(1)], of "map x [0..<dom_n D]"]
      flat_domain [OF assms(1) False] assms
    by (simp add: ifft_from_t_def checked_def domain_tables t_list_flat [simplified] dft_of_map scale_all_map idft_def comp_def)
qed

lemma coset_row:
  assumes "r < n1" "c < n2"
  shows "geo_scale (g ^ r) (g ^ n1) (map (\<lambda>c. t_list n1 n2 x ! (r * n2 + c)) [0..<n2]) ! c = x (r + n1 * c) * g ^ (r + n1 * c)"
  using assms by (simp add: geo_scale_eq nth_t_list power_add power_mult)

lemma coset_scale_t_eq:
  assumes "domain_ok w D"
  shows "coset_scale_t D g (t_list (dom_n1 D) (dom_n2 D) x) = t_list (dom_n1 D) (dom_n2 D) (\<lambda>i. x i * g ^ i)"
proof (rule list_eq_cells)
  let ?n1 = "dom_n1 D" and ?n2 = "dom_n2 D" and ?x = "t_list (dom_n1 D) (dom_n2 D) x"
  show "length (coset_scale_t D g ?x) = ?n1 * ?n2" unfolding coset_scale_t_def by (subst length_par_chunks) simp_all
  fix r c assume rc: "r < ?n1" "c < ?n2"
  have fit: "r * ?n2 + ?n2 \<le> ?n1 * ?n2" using rc(1) by (metis Suc_leI add.commute mult_Suc mult_le_mono1)
  have "r * ?n2 \<le> ?n1 * ?n2" using fit by linarith
  then have "take ?n2 (drop (r * ?n2) ?x) = map (\<lambda>c. ?x ! (r * ?n2 + c)) [0..<?n2]"
    by (intro nth_equalityI) (use fit in simp_all)
  then have "coset_scale_t D g ?x ! (r * ?n2 + c) = geo_scale (g ^ r) (g ^ ?n1) (map (\<lambda>c. ?x ! (r * ?n2 + c)) [0..<?n2]) ! c"
    unfolding coset_scale_t_def using cell_bound [OF rc] rc(2) domain_okD(3) [OF assms]
    by (subst nth_par_chunks) simp_all
  then show "coset_scale_t D g ?x ! (r * ?n2 + c) = t_list ?n1 ?n2 (\<lambda>i. x i * g ^ i) ! (r * ?n2 + c)"
    using coset_row [OF rc] rc by (simp add: nth_t_list)
qed simp

section \<open>Natural order\<close>

lemma set_tiles_of: "0 < tile \<Longrightarrow> set (tiles_of rows tile) = {0..<rows}"
proof -
  assume t: "0 < tile"
  have "r \<in> set (tiles_of rows tile)" if r: "r < rows" for r
  proof -
    have "r = (r div tile) * tile + r mod tile" "r mod tile < tile" using t by simp_all
    then have "(r div tile) * tile \<le> r" "r < (r div tile) * tile + min tile (rows - (r div tile) * tile)"
      using r by linarith+
    then have "r \<in> set [(r div tile) * tile..<(r div tile) * tile + min tile (rows - (r div tile) * tile)]" by simp
    moreover have "r div tile \<in> set [0..<div_ceil rows tile]" using tile_index [OF t r] by simp
    ultimately show ?thesis unfolding tiles_of_def set_concat set_map by blast
  qed
  moreover have "r < rows" if "r \<in> set (tiles_of rows tile)" for r
    using that by (auto simp: tiles_of_def)
  ultimately show ?thesis by auto
qed

lemma nth_transpose_map:
  assumes "length src = rows * cols" "length dst = rows * cols" "r < rows" "c < cols"
    and d: "transpose_map src dst rows cols tile f = Some d"
  shows "d ! (c * rows + r) = f (src ! (r * cols + c))"
proof -
  define t where "t = max 1 tile"
  have t: "0 < t" by (simp add: t_def)
  define q m where "q = c div t" and "m = c mod t"
  have c: "c = q * t + m" "m < t" using t by (simp_all add: q_def m_def)
  let ?p = "\<lambda>(r, dc). dc * rows + r" and ?g = "\<lambda>bc (r, dc). f (src ! (r * cols + bc * t + dc))"
  let ?body = "\<lambda>bc out. write_all ?p (?g bc) (List.product (tiles_of rows t) [0..<length out div rows]) out"
  have d: "d = par_chunks (t * rows) ?body 0 dst" using d assms(1,2) by (simp add: transpose_map_def Let_def t_def)
  have idx: "c * rows + r = q * (t * rows) + (m * rows + r)" by (subst c(1)) (simp add: algebra_simps)
  have low: "m * rows + r < t * rows" using cell_bound [OF c(2) assms(3)] .
  have at: "c * rows + r < length dst" using cell_bound [OF assms(4,3)] assms(2) by (simp add: mult.commute)
  let ?out = "take (t * rows) (drop (q * (t * rows)) dst)"
  have "d ! (c * rows + r) = ?body q ?out ! (m * rows + r)"
    unfolding d using at low t assms(3) unfolding idx by (subst nth_par_chunks) simp_all
  also have "\<dots> = ?g q (r, m)"
  proof -
    have fit: "m * rows + r < length ?out" using at low unfolding idx by simp
    have "length ?out = min (cols * rows - q * t * rows) (t * rows)" using assms(2) by (simp add: mult_ac)
    also have "\<dots> = min (cols - q * t) t * rows" unfolding diff_mult_distrib [symmetric] by (simp only: nat_mult_min_left)
    finally have "m < length ?out div rows" using c assms(3,4) by simp
    then have "(r, m) \<in> set (List.product (tiles_of rows t) [0..<length ?out div rows])"
      using assms(3) set_tiles_of [OF t] by simp
    moreover have "inj_on ?p (set (List.product (tiles_of rows t) [0..<length ?out div rows]))"
      using set_tiles_of [OF t] by (auto simp: inj_on_def cell_eq_iff)
    ultimately show ?thesis using write_all_at [of "(r, m)" _ ?p ?out "?g q"] fit by simp
  qed
  also have "\<dots> = f (src ! (r * cols + c))" by (simp add: add.assoc flip: c(1))
  finally show ?thesis .
qed

lemma length_transpose_map: "transpose_map src dst rows cols tile f = Some d \<Longrightarrow> length d = rows * cols"
  by (auto simp: transpose_map_def Let_def length_par_chunks split: if_splits)

lemma t_to_natural_eq:
  assumes "domain_ok w D"
  shows "t_to_natural D f u (t_list (dom_n1 D) (dom_n2 D) x) = Some (map (\<lambda>i. f (x i)) [0..<dom_n D])"
proof -
  let ?n1 = "dom_n1 D" and ?n2 = "dom_n2 D"
  let ?src = "t_list ?n1 ?n2 x" and ?dst = "replicate (dom_n D) u"
  have n: "dom_n D = ?n1 * ?n2" by (rule domain_okD [OF assms])
  obtain d where d: "transpose_map ?src ?dst ?n1 ?n2 (dom_tile D) f = Some d"
    by (simp add: transpose_map_def n Let_def)
  have "d = map (\<lambda>i. f (x i)) [0..<dom_n D]"
  proof (rule list_eq_cells [of _ ?n2 ?n1])
    fix c r assume cr: "c < ?n2" "r < ?n1"
    have "d ! (c * ?n1 + r) = f (x (r + ?n1 * c))"
      using nth_transpose_map [OF _ _ cr(2,1) d] n by (simp add: nth_t_list cr)
    then show "d ! (c * ?n1 + r) = map (\<lambda>i. f (x i)) [0..<dom_n D] ! (c * ?n1 + r)"
      using cell_bound [OF cr] n by (simp add: algebra_simps)
  qed (use length_transpose_map [OF d] n in \<open>simp_all add: mult.commute\<close>)
  then show ?thesis using d n by (simp add: t_to_natural_def checked_def)
qed

lemma fft_eq:
  assumes "domain_ok w D" "length buf = dom_n D"
  shows "fft D buf = Some (map (dft w (dom_n D) ((!) buf)) [0..<dom_n D])"
  using fft_to_t_eq [OF assms] t_to_natural_eq [OF assms(1), of "\<lambda>x. x" 0] flat_domain [OF assms(1)]
  by (auto simp: fft_def t_list_flat [simplified])

lemma ifft_eq:
  assumes "domain_ok w D" "length buf = dom_n D"
  shows "ifft D buf = Some (map (idft w D ((!) buf)) [0..<dom_n D])"
  using ifft_to_t_eq [OF assms] t_to_natural_eq [OF assms(1), of "\<lambda>x. x" 0] flat_domain [OF assms(1)]
  by (auto simp: ifft_def t_list_flat [simplified])

section \<open>Inversion\<close>

lemma root_power_inj:
  fixes w :: "'a::field"
  assumes w: "root_of_order n w" and "i < n" "j < n" "w ^ i = w ^ j"
  shows "i = j"
proof -
  have w0: "w \<noteq> 0" using root_of_orderD [OF w] assms(2) by (cases "w = 0") (auto simp: power_0_left)
  have "\<not> a < b" if "w ^ a = w ^ b" "b < n" for a b
  proof
    assume "a < b"
    then have "w ^ b = w ^ a * w ^ (b - a)" by (simp flip: power_add)
    then have "w ^ (b - a) = 1" using that w0 by simp
    then show False using w \<open>a < b\<close> that(2) unfolding root_of_order_def by (metis diff_le_self le_less_trans zero_less_diff)
  qed
  from this [OF assms(4,3)] this [OF assms(4) [symmetric] assms(2)] show ?thesis by simp
qed

lemma dft_orthogonal:
  fixes w :: "'a::field"
  assumes w: "root_of_order n w" and i: "i < n" and j: "j < n"
  shows "(\<Sum>k<n. w ^ (j * k) * inverse w ^ (k * i)) = (if i = j then of_nat n else 0)"
proof -
  have w0: "w \<noteq> 0" using root_of_orderD [OF w] i by (cases "w = 0") (auto simp: power_0_left)
  define u where "u = w ^ j * inverse w ^ i"
  have e: "w ^ (j * k) * inverse w ^ (k * i) = u ^ k" for k
    by (simp add: u_def power_mult_distrib power_mult [symmetric] mult.commute [of i k])
  have un: "u ^ n = 1"
    using root_of_orderD [OF w] by (simp add: u_def power_mult_distrib power_inverse power_swap [of w _ n])
  show ?thesis
  proof (cases "i = j")
    case True
    then have "u = 1" using w0 by (simp add: u_def power_inverse)
    then show ?thesis unfolding e using True by simp
  next
    case False
    have "u \<noteq> 1"
    proof
      assume "u = 1"
      then have "w ^ j = w ^ i" using w0 by (simp add: u_def power_inverse field_simps)
      then show False using root_power_inj [OF w j i] False by simp
    qed
    then show ?thesis unfolding e using False un by (simp add: sum_gp_strict)
  qed
qed

lemma dft_idft:
  fixes w :: "'a::field"
  assumes ok: "domain_ok w D" and i: "i < dom_n D"
  shows "dft w (dom_n D) (idft w D x) i = x i"
proof -
  let ?n = "dom_n D" and ?s = "size_inv D"
  have s: "of_nat ?n * ?s = 1"
    using domain_okD(7) [OF ok] unfolding domain_okD(1) [OF ok, symmetric] by (simp only: mult.commute)
  have "dft w ?n (idft w D x) i = (\<Sum>k<?n. \<Sum>j<?n. x j * inverse w ^ (j * k) * ?s * w ^ (k * i))"
    by (simp add: dft_def idft_def sum_distrib_right)
  also have "\<dots> = (\<Sum>j<?n. \<Sum>k<?n. x j * inverse w ^ (j * k) * ?s * w ^ (k * i))" by (rule sum.swap)
  also have "\<dots> = (\<Sum>j<?n. x j * ?s * (\<Sum>k<?n. w ^ (i * k) * inverse w ^ (k * j)))"
    by (simp add: sum_distrib_left mult_ac)
  also have "\<dots> = (\<Sum>j<?n. if j = i then x j * ?s * of_nat ?n else 0)"
    by (rule sum.cong) (simp_all add: dft_orthogonal [OF domain_roots(1) [OF ok] _ i])
  also have "\<dots> = x i" using i s by (simp add: sum.delta mult.assoc mult.commute [of ?s])
  finally show ?thesis .
qed

lemma idft_dft:
  fixes w :: "'a::field"
  assumes ok: "domain_ok w D" and i: "i < dom_n D"
  shows "idft w D (dft w (dom_n D) x) i = x i"
proof -
  let ?n = "dom_n D" and ?s = "size_inv D"
  have s: "of_nat ?n * ?s = 1"
    using domain_okD(7) [OF ok] unfolding domain_okD(1) [OF ok, symmetric] by (simp only: mult.commute)
  have "idft w D (dft w ?n x) i = (\<Sum>k<?n. \<Sum>j<?n. x j * w ^ (j * k) * inverse w ^ (k * i) * ?s)"
    by (simp add: dft_def idft_def sum_distrib_right)
  also have "\<dots> = (\<Sum>j<?n. \<Sum>k<?n. x j * w ^ (j * k) * inverse w ^ (k * i) * ?s)" by (rule sum.swap)
  also have "\<dots> = (\<Sum>j<?n. x j * ?s * (\<Sum>k<?n. w ^ (j * k) * inverse w ^ (k * i)))"
    by (simp add: sum_distrib_left mult_ac)
  also have "\<dots> = (\<Sum>j<?n. if j = i then x j * ?s * of_nat ?n else 0)"
    by (rule sum.cong) (simp_all add: dft_orthogonal [OF domain_roots(1) [OF ok] i])
  also have "\<dots> = x i" using i s by (simp add: sum.delta mult.assoc mult.commute [of ?s])
  finally show ?thesis .
qed

section \<open>Cosets\<close>

lemma rows_pass_stages:
  assumes "0 < dom_n2 D" "length buf = dom_n1 D * dom_n2 D"
  shows "rows_pass D (st # st' # sts) buf = rows_pass D (st' # sts) (rows_pass D [st] buf)"
proof (rule list_eq_cells)
  fix r c assume rc: "r < dom_n1 D" "c < dom_n2 D"
  let ?n2 = "dom_n2 D" and ?row = "\<lambda>b. map (\<lambda>c. b ! (r * dom_n2 D + c)) [0..<dom_n2 D]"
  have "?row (rows_pass D [st] buf) = row_stage D r st (?row buf)"
    by (rule nth_equalityI) (simp_all add: nth_rows_pass [OF assms rc(1)])
  then show "rows_pass D (st # st' # sts) buf ! (r * ?n2 + c) = rows_pass D (st' # sts) (rows_pass D [st] buf) ! (r * ?n2 + c)"
    by (simp add: nth_rows_pass [OF assms(1) _ rc] assms(2))
qed (simp_all add: assms(2))

lemma rows_pass_coset:
  assumes "domain_ok w D"
  shows "rows_pass D [Stage_Coset g] (t_list (dom_n1 D) (dom_n2 D) x) = t_list (dom_n1 D) (dom_n2 D) (\<lambda>i. x i * g ^ i)"
proof (rule list_eq_cells)
  let ?x = "t_list (dom_n1 D) (dom_n2 D) x"
  fix r c assume rc: "r < dom_n1 D" "c < dom_n2 D"
  have "rows_pass D [Stage_Coset g] ?x ! (r * dom_n2 D + c) = x (r + dom_n1 D * c) * g ^ (r + dom_n1 D * c)"
    using nth_rows_pass [OF domain_okD(3) [OF assms] _ rc, of ?x "[Stage_Coset g]"] coset_row [OF rc, of g x]
    by (simp add: row_stage_def)
  then show "rows_pass D [Stage_Coset g] ?x ! (r * dom_n2 D + c) =
      t_list (dom_n1 D) (dom_n2 D) (\<lambda>i. x i * g ^ i) ! (r * dom_n2 D + c)"
    by (simp add: nth_t_list rc)
qed simp_all

text \<open>Evaluations on the domain become those of the interpolating polynomial on the coset \<open>g * w ^ i\<close>, and back.\<close>

definition poly_at :: "(nat \<Rightarrow> 'a::comm_ring_1) \<Rightarrow> nat \<Rightarrow> 'a \<Rightarrow> 'a" where
  "poly_at c n x = (\<Sum>j<n. c j * x ^ j)"

lemma dft_poly_at: "dft w n c i = poly_at c n (w ^ i)"
  by (simp add: dft_def poly_at_def power_mult [symmetric] mult.commute)

lemma poly_at_coset: "poly_at (\<lambda>j. c j * g ^ j) n x = poly_at c n (g * x)"
  by (simp add: poly_at_def power_mult_distrib mult.assoc)

lemma to_coset_eq:
  assumes ok: "domain_ok w D" and len: "length buf = dom_n D"
  shows "to_coset D g buf = Some (map (\<lambda>i. poly_at (idft w D ((!) buf)) (dom_n D) (g * w ^ i)) [0..<dom_n D])"
proof -
  let ?n1 = "dom_n1 D" and ?n2 = "dom_n2 D" and ?c = "idft w D ((!) buf)"
  let ?cg = "\<lambda>i. ?c i * g ^ i"
  have r: "map (\<lambda>i. poly_at ?c (dom_n D) (g * w ^ i)) [0..<dom_n D] = map (dft w (dom_n D) ?cg) [0..<dom_n D]"
    by (simp add: dft_poly_at poly_at_coset)
  show ?thesis
  proof (cases "is_blocked D")
    case False
    then show ?thesis using ifft_to_t_eq [OF ok len] fft_from_t_eq [OF ok, of ?cg] coset_scale_t_eq [OF ok, of g ?c] len
      unfolding r by (simp add: to_coset_def checked_def)
  next
    case True
    have n: "dom_n D = ?n1 * ?n2" by (rule domain_okD [OF ok])
    have l: "length (col_pass D (dom_inv D) Post (size_inv D) buf) = ?n1 * ?n2" using len n by simp
    have a: "rows_pass D [Stage_Ifft] (col_pass D (dom_inv D) Post (size_inv D) buf) = t_list ?n1 ?n2 ?c"
      using ifft_to_t_eq [OF ok len] True len by (simp add: ifft_to_t_def checked_def)
    have "col_pass D (dom_fwd D) Pre 1 (rows_pass D [Stage_Fft] (t_list ?n1 ?n2 ?cg)) = map (dft w (dom_n D) ?cg) [0..<dom_n D]"
      using fft_from_t_eq [OF ok, of ?cg] True n by (simp add: fft_from_t_def checked_def)
    then show ?thesis unfolding r
      using True len a rows_pass_coset [OF ok, of g ?c] domain_okD(3) [OF ok] l
      by (simp add: to_coset_def checked_def col_op_pass_def tables_of_op_def rows_pass_stages)
  qed
qed

lemma from_coset_to_t_eq:
  assumes ok: "domain_ok w D" and len: "length buf = dom_n D"
  shows "from_coset_to_t D h buf = Some (t_list (dom_n1 D) (dom_n2 D) (\<lambda>i. idft w D ((!) buf) i * h ^ i))"
proof (cases "is_blocked D")
  case False
  then show ?thesis using ifft_to_t_eq [OF ok len] coset_scale_t_eq [OF ok, of h] len
    by (simp add: from_coset_to_t_def checked_def)
next
  case True
  let ?n1 = "dom_n1 D" and ?n2 = "dom_n2 D" and ?c = "idft w D ((!) buf)"
  have n: "dom_n D = ?n1 * ?n2" by (rule domain_okD [OF ok])
  have l: "length (col_pass D (dom_inv D) Post (size_inv D) buf) = ?n1 * ?n2" using len n by simp
  have a: "rows_pass D [Stage_Ifft] (col_pass D (dom_inv D) Post (size_inv D) buf) = t_list ?n1 ?n2 ?c"
    using ifft_to_t_eq [OF ok len] True len by (simp add: ifft_to_t_def checked_def)
  then show ?thesis using True len rows_pass_coset [OF ok, of h ?c] domain_okD(3) [OF ok] l
    by (simp add: from_coset_to_t_def checked_def col_op_pass_def tables_of_op_def rows_pass_stages)
qed

end
