(* ===== verification/Qap.thy ===== *)
theory Qap
  imports Complex_Main Groth_Program Fft_Domain
begin

text \<open>
  The quotient of the prover (\<open>crates/groth16/src/qap.rs\<close>): the three row vectors are moved to a
  coset, combined there, and moved back to coefficients. The generator of the field
  (\<open>Fr::GENERATOR\<close>) is the argument \<open>g\<close>; nothing is offloaded (\<open>accel::Local\<close>), and the spill
  store is the one in memory. \<open>None\<close> is a panic.
\<close>

section \<open>Domains for a source\<close>

datatype qap_error = Domain_Too_Small nat nat | No_Domain nat | No_Key_Domain nat nat

definition qap_rows :: "'a constraint_source \<Rightarrow> nat" where
  "qap_rows src = cs_num_constraints src + vl_num_instance (cs_layout src)"

definition domain_for :: "(nat \<Rightarrow> 'a::field option) \<Rightarrow> 'a constraint_source \<Rightarrow> fft_config \<Rightarrow> 'a fft_domain option" where
  "domain_for uroot src cfg = domain_new uroot (qap_rows src) cfg"

definition domain_of_size ::
    "(nat \<Rightarrow> 'a::field option) \<Rightarrow> 'a constraint_source \<Rightarrow> nat \<Rightarrow> fft_config \<Rightarrow> qap_error + 'a fft_domain" where
  "domain_of_size uroot src n cfg =
    (if n < qap_rows src then Inl (Domain_Too_Small n (qap_rows src))
     else (case with_size uroot n cfg of None \<Rightarrow> Inl (No_Domain n) | Some D \<Rightarrow> Inr D))"

definition key_domain ::
    "(nat \<Rightarrow> 'a::field option) \<Rightarrow> 'a constraint_source \<Rightarrow> nat \<Rightarrow> fft_config \<Rightarrow> qap_error + 'a fft_domain" where
  "key_domain uroot src h_len cfg =
    (case domain_of_size uroot src (h_len + 1) cfg of
       Inr D \<Rightarrow> Inr D
     | Inl _ \<Rightarrow> (case domain_of_size uroot src h_len cfg of
         Inr D \<Rightarrow> Inr D
       | Inl _ \<Rightarrow> Inl (No_Key_Domain h_len (qap_rows src))))"

section \<open>The quotient\<close>

record 'a quotient =
  q_t :: "'a list"
  q_n1 :: nat
  q_n2 :: nat

definition q_len :: "'a quotient \<Rightarrow> nat" where
  "q_len q = length (q_t q)"

definition q_gather :: "'a quotient \<Rightarrow> nat \<Rightarrow> nat \<Rightarrow> ('a \<Rightarrow> 'u) \<Rightarrow> 'u list" where
  "q_gather q off len f = map (\<lambda>i. f (q_t q ! ((i mod q_n1 q) * q_n2 q + i div q_n1 q))) [off..<off + len]"

definition SPILL_BLOCK :: nat where
  "SPILL_BLOCK = 2 ^ 16"

text \<open>\<open>spill.load\<close> reads the block of the stored vector beside the block of the buffer.\<close>

definition combine :: "('a \<Rightarrow> 'a \<Rightarrow> 'a) \<Rightarrow> 'a list \<Rightarrow> 'a list \<Rightarrow> 'a list" where
  "combine f spilled buf =
    par_chunks SPILL_BLOCK (\<lambda>bi blk. map (\<lambda>j. f (blk ! j) (spilled ! (bi * SPILL_BLOCK + j))) [0..<length blk]) 0 buf"

text \<open>\<open>eval_rows\<close> into the first \<open>m\<close> elements of zeroed vectors, for the matrices in \<open>ms\<close>.\<close>

definition rows_into :: "'a::field constraint_source \<Rightarrow> 'a list \<Rightarrow> nat \<Rightarrow> nat \<Rightarrow> nat set \<Rightarrow> 'a list option list option" where
  "rows_into src z hint n ms =
    (let m = cs_num_constraints src; zeros = replicate n 0 in
     if n < m then None
     else map_option (map (map_option (\<lambda>o'. o' @ drop m zeros)))
       (eval_rows src z hint (map (\<lambda>k. if k \<in> ms then Some (take m zeros) else None) [0..<3])))"

definition matrix_of :: "nat \<Rightarrow> 'a list option list \<Rightarrow> 'a list" where
  "matrix_of k outs = (case outs ! k of Some o' \<Rightarrow> o' | None \<Rightarrow> [])"

definition copy_instance :: "nat \<Rightarrow> nat \<Rightarrow> 'a list \<Rightarrow> 'a list \<Rightarrow> 'a list option" where
  "copy_instance m ninst z a =
    (if length a < m + ninst \<or> length z < ninst then None
     else Some (take m a @ take ninst z @ drop (m + ninst) a))"

definition coset_rows ::
    "'a::field \<Rightarrow> 'a constraint_source \<Rightarrow> 'a list \<Rightarrow> 'a fft_domain \<Rightarrow> nat \<Rightarrow> nat \<Rightarrow> 'a list option" where
  "coset_rows g src z D hint k = Option.bind (rows_into src z hint (dom_n D) {k}) (\<lambda>outs. to_coset D g (matrix_of k outs))"

definition quotient_evals ::
    "'a::field \<Rightarrow> 'a constraint_source \<Rightarrow> 'a list \<Rightarrow> 'a fft_domain \<Rightarrow> nat \<Rightarrow> bool \<Rightarrow> 'a \<Rightarrow> 'a list option" where
  "quotient_evals g src z D hint spill z_inv =
    (let m = cs_num_constraints src; ninst = vl_num_instance (cs_layout src) in
     if spill then
       Option.bind (rows_into src z hint (dom_n D) {0}) (\<lambda>outs.
       Option.bind (copy_instance m ninst z (matrix_of 0 outs)) (\<lambda>a.
       Option.bind (to_coset D g a) (\<lambda>a.
       Option.bind (coset_rows g src z D hint 1) (\<lambda>b.
         let ab = combine (\<lambda>b a. b * a) a b in
       Option.bind (coset_rows g src z D hint 2) (\<lambda>c.
         Some (combine (\<lambda>c ab. (ab - c) * z_inv) ab c))))))
     else
       Option.bind (rows_into src z hint (dom_n D) {0, 1}) (\<lambda>outs.
       Option.bind (copy_instance m ninst z (matrix_of 0 outs)) (\<lambda>a.
       Option.bind (to_coset D g a) (\<lambda>a.
       Option.bind (to_coset D g (matrix_of 1 outs)) (\<lambda>b.
         let ab = map2 (\<lambda>x y. x * y) a b in
       Option.bind (coset_rows g src z D hint 2) (\<lambda>c.
         Some (map2 (\<lambda>x y. (x - y) * z_inv) ab c)))))))"

definition quotient_of ::
    "'a::field \<Rightarrow> 'a constraint_source \<Rightarrow> 'a list \<Rightarrow> 'a fft_domain \<Rightarrow> nat \<Rightarrow> bool \<Rightarrow> 'a quotient option" where
  "quotient_of g src z D hint spill =
    (if length z \<noteq> num_vars (cs_layout src) then None
     else Option.bind (field_inverse (g ^ dom_n D - 1)) (\<lambda>z_inv.
       Option.bind (quotient_evals g src z D hint spill z_inv) (\<lambda>a.
       Option.bind (field_inverse g) (\<lambda>g_inv.
       Option.bind (from_coset_to_t D g_inv a) (\<lambda>t.
         Some \<lparr>q_t = t, q_n1 = dom_n1 D, q_n2 = dom_n2 D\<rparr>)))))"

definition witness_map ::
    "'a::field \<Rightarrow> (nat \<Rightarrow> 'a option) \<Rightarrow> 'a constraint_source \<Rightarrow> 'a list \<Rightarrow> fft_config \<Rightarrow> nat \<Rightarrow> bool \<Rightarrow> 'a list option" where
  "witness_map g uroot src z cfg hint spill =
    Option.bind (domain_for uroot src cfg) (\<lambda>D.
    Option.bind (quotient_of g src z D hint spill) (\<lambda>q. Some (q_gather q 0 (q_len q) (\<lambda>x. x))))"

section \<open>Polynomials\<close>

definition is_poly :: "nat \<Rightarrow> ('a::comm_ring_1 \<Rightarrow> 'a) \<Rightarrow> bool" where
  "is_poly n f \<longleftrightarrow> (\<exists>c. \<forall>x. f x = poly_at c n x)"

lemma poly_at_Suc: "poly_at c (Suc n) x = c 0 + x * poly_at (\<lambda>i. c (Suc i)) n x"
  unfolding poly_at_def sum.lessThan_Suc_shift by (simp add: sum_distrib_left mult_ac)

lemma is_poly_at: "is_poly n (poly_at c n)"
  by (auto simp: is_poly_def)

lemma is_poly_add: "is_poly n f \<Longrightarrow> is_poly n h \<Longrightarrow> is_poly n (\<lambda>x. f x + h x)"
proof -
  assume "is_poly n f" "is_poly n h"
  then obtain c d where "\<And>x. f x = poly_at c n x" "\<And>x. h x = poly_at d n x" by (auto simp: is_poly_def)
  then have "f x + h x = poly_at (\<lambda>i. c i + d i) n x" for x by (simp add: poly_at_def sum.distrib distrib_right)
  then show ?thesis by (auto simp: is_poly_def)
qed

lemma is_poly_scale: "is_poly n f \<Longrightarrow> is_poly n (\<lambda>x. k * f x)"
proof -
  assume "is_poly n f"
  then obtain c where "\<And>x. f x = poly_at c n x" by (auto simp: is_poly_def)
  then have "k * f x = poly_at (\<lambda>i. k * c i) n x" for x by (simp add: poly_at_def sum_distrib_left mult.assoc)
  then show ?thesis by (auto simp: is_poly_def)
qed

lemma is_poly_diff: "is_poly n f \<Longrightarrow> is_poly n h \<Longrightarrow> is_poly n (\<lambda>x. f x - h x)"
  using is_poly_add [OF _ is_poly_scale [of n h "- 1"]] by simp

lemma is_poly_Suc: "is_poly n f \<Longrightarrow> is_poly (Suc n) f"
proof -
  assume "is_poly n f"
  then obtain c where "\<And>x. f x = poly_at c n x" by (auto simp: is_poly_def)
  then have "f x = poly_at (\<lambda>i. if i < n then c i else 0) (Suc n) x" for x by (simp add: poly_at_def)
  then show ?thesis unfolding is_poly_def by blast
qed

lemma is_poly_shift: "is_poly n f \<Longrightarrow> is_poly (Suc n) (\<lambda>x. x * f x)"
proof -
  assume "is_poly n f"
  then obtain c where "\<And>x. f x = poly_at c n x" by (auto simp: is_poly_def)
  then have "x * f x = poly_at (\<lambda>i. case i of 0 \<Rightarrow> 0 | Suc j \<Rightarrow> c j) (Suc n) x" for x by (simp add: poly_at_Suc)
  then show ?thesis unfolding is_poly_def by blast
qed

lemma is_poly_mono: "is_poly n f \<Longrightarrow> n \<le> k \<Longrightarrow> is_poly k f"
  by (induction k) (auto simp: le_Suc_eq intro: is_poly_Suc)

lemma is_poly_mult:
  assumes "is_poly n f" "is_poly k h"
  shows "is_poly (n + k) (\<lambda>x. f x * h x)"
  using assms(1)
proof (induction n arbitrary: f)
  case 0
  have "\<forall>x. 0 = poly_at (\<lambda>_. 0) k x" by (simp add: poly_at_def)
  then have "is_poly k (\<lambda>_. 0 :: 'a)" unfolding is_poly_def by blast
  moreover have "f x = 0" for x using 0 by (auto simp: is_poly_def poly_at_def)
  ultimately show ?case by simp
next
  case (Suc n)
  then obtain c where c: "\<And>x. f x = poly_at c (Suc n) x" by (auto simp: is_poly_def)
  let ?f = "poly_at (\<lambda>i. c (Suc i)) n"
  have "is_poly (Suc (n + k)) (\<lambda>x. c 0 * h x)" by (intro is_poly_mono [OF is_poly_scale [OF assms(2)]]) simp
  moreover have "is_poly (Suc (n + k)) (\<lambda>x. x * (?f x * h x))" by (intro is_poly_shift Suc.IH is_poly_at)
  ultimately have "is_poly (Suc (n + k)) (\<lambda>x. c 0 * h x + x * (?f x * h x))" by (rule is_poly_add)
  then show ?case unfolding c poly_at_Suc by (simp add: distrib_right mult.assoc)
qed

lemma is_poly_power: "is_poly (Suc n) (\<lambda>x. x ^ n)"
proof -
  have "x ^ n = poly_at (\<lambda>i. if i = n then 1 else 0) (Suc n) x" for x :: 'a
    by (simp add: poly_at_def if_distrib [of "\<lambda>y. y * _"] sum.delta cong: if_cong)
  then show ?thesis unfolding is_poly_def by blast
qed

text \<open>A polynomial with \<open>n\<close> coefficients that vanishes at \<open>n\<close> points vanishes.\<close>

lemma is_poly_zero:
  fixes f :: "'a::idom \<Rightarrow> 'a"
  assumes "is_poly n f" "finite R" "n \<le> card R" "\<And>x. x \<in> R \<Longrightarrow> f x = 0"
  shows "f x = 0"
  using assms
proof (induction n arbitrary: f R x)
  case 0
  then show ?case by (auto simp: is_poly_def poly_at_def)
next
  case (Suc n)
  obtain c where c: "\<And>x. f x = (\<Sum>i\<le>n. c i * x ^ i)"
    using Suc.prems(1) by (auto simp: is_poly_def poly_at_def lessThan_Suc_atMost)
  from Suc.prems(2,3) obtain a where a: "a \<in> R" by (metis card.empty equals0I not_less_zero Suc_le_eq)
  then have "(\<Sum>i\<le>n. c i * a ^ i) = 0" using Suc.prems(4) c by simp
  from polyfun_linear_factor_root [OF this]
  obtain b where b: "\<And>x. (\<Sum>i\<le>n. c i * x ^ i) = (x - a) * (\<Sum>i<n. b i * x ^ i)" by blast
  have "poly_at b n y = 0" for y
  proof (rule Suc.IH [of "poly_at b n" "R - {a}"])
    show "n \<le> card (R - {a})" using Suc.prems(2,3) a by simp
    show "poly_at b n x = 0" if "x \<in> R - {a}" for x
      using Suc.prems(4) [of x] that c [of x] b [of x] by (simp add: poly_at_def)
  qed (use Suc.prems(2) is_poly_at in auto)
  then show ?case using c [of x] b [of x] by (simp add: poly_at_def)
qed

section \<open>What the quotient is\<close>

lemma length_combine [simp]: "length (combine f sp buf) = length buf"
  unfolding combine_def by (rule length_par_chunks) simp

lemma combine_map2:
  assumes "length sp = length buf"
  shows "combine f sp buf = map2 f buf sp"
proof (rule nth_equalityI)
  fix i assume "i < length (combine f sp buf)"
  then have i: "i < length buf" by simp
  let ?B = SPILL_BLOCK
  have B: "0 < ?B" by (simp add: SPILL_BLOCK_def)
  have e: "i = (i div ?B) * ?B + i mod ?B" by simp
  let ?blk = "take ?B (drop (i div ?B * ?B) buf)"
  have m: "i mod ?B < ?B" using B by simp
  have "i mod ?B = i - i div ?B * ?B" by (simp add: minus_div_mult_eq_mod)
  then have "i mod ?B < length buf - i div ?B * ?B" using i by (metis diff_less_mono div_times_less_eq_dividend)
  then have lb: "i mod ?B < length ?blk" using m by simp
  have "combine f sp buf ! i = map (\<lambda>j. f (?blk ! j) (sp ! (i div ?B * ?B + j))) [0..<length ?blk] ! (i mod ?B)"
    unfolding combine_def
    using nth_par_chunks [of "\<lambda>bi blk. map (\<lambda>j. f (blk ! j) (sp ! (bi * ?B + j))) [0..<length blk]" ?B "i div ?B" "i mod ?B" buf 0] B i m
    by simp
  also have "\<dots> = f (?blk ! (i mod ?B)) (sp ! (i div ?B * ?B + i mod ?B))" using lb by simp
  also have "?blk ! (i mod ?B) = buf ! i"
    using nth_take_drop [of "i div ?B * ?B" "i mod ?B" buf ?B] i m by simp
  finally show "combine f sp buf ! i = map2 f buf sp ! i" using i assms by simp
qed (simp add: assms)

locale field_source = row_source mk ok row_terms
  for mk :: "'s \<Rightarrow> 'a::field constraint_source" and ok row_terms
begin

definition padded :: "'s \<Rightarrow> 'a list \<Rightarrow> nat \<Rightarrow> nat \<Rightarrow> 'a list" where
  "padded s z n k = map (row_value s z k) [0..<cs_num_constraints (mk s)] @ replicate (n - cs_num_constraints (mk s)) 0"

lemma upt_3: "[0..<3] = [0, 1, 2 :: nat]"
  by (simp add: upt_rec)

lemma rows_into_eq:
  assumes "ok s" "cs_num_constraints (mk s) \<le> n"
  shows "rows_into (mk s) z hint n ms = Some (map (\<lambda>k. if k \<in> ms then Some (padded s z n k) else None) [0..<3])"
  using eval_rows_eq [OF assms(1), of "map (\<lambda>k. if k \<in> ms then Some (replicate (cs_num_constraints (mk s)) 0) else None) [0..<3]" z hint]
    assms(2)
  by (auto simp: rows_into_def Let_def upt_3 padded_def min_def numeral_2_eq_2)

text \<open>The three vectors on the domain; \<open>A\<close> carries the instance after its rows.\<close>

definition vec :: "'s \<Rightarrow> 'a list \<Rightarrow> nat \<Rightarrow> nat \<Rightarrow> 'a" where
  "vec s z k i =
    (let m = cs_num_constraints (mk s) in
     if i < m then row_value s z k i
     else if k = 0 \<and> i < qap_rows (mk s) then z ! (i - m) else 0)"

lemma padded_vec: "k \<noteq> 0 \<Longrightarrow> cs_num_constraints (mk s) \<le> n \<Longrightarrow> padded s z n k = map (vec s z k) [0..<n]"
  by (intro nth_equalityI) (auto simp: padded_def vec_def Let_def nth_append)

lemma copy_instance_vec:
  assumes "qap_rows (mk s) \<le> n" "vl_num_instance (cs_layout (mk s)) \<le> length z"
  shows "copy_instance (cs_num_constraints (mk s)) (vl_num_instance (cs_layout (mk s))) z (padded s z n 0) = Some (map (vec s z 0) [0..<n])"
proof -
  let ?m = "cs_num_constraints (mk s)" and ?i = "vl_num_instance (cs_layout (mk s))"
  have l: "length (padded s z n 0) = n" "?m + ?i \<le> n" using assms(1) by (simp_all add: padded_def qap_rows_def)
  have "take ?m (padded s z n 0) @ take ?i z @ drop (?m + ?i) (padded s z n 0) = map (vec s z 0) [0..<n]"
    by (rule nth_equalityI) (use l assms(2) in \<open>auto simp: padded_def vec_def Let_def nth_append qap_rows_def\<close>)
  then show ?thesis using l assms(2) by (simp add: copy_instance_def)
qed

definition coset_vec :: "'a \<Rightarrow> 'a \<Rightarrow> 'a fft_domain \<Rightarrow> 's \<Rightarrow> 'a list \<Rightarrow> nat \<Rightarrow> nat \<Rightarrow> 'a" where
  "coset_vec g w D s z k i = poly_at (idft w D (vec s z k)) (dom_n D) (g * w ^ i)"

lemma idft_cong: "(\<And>i. i < dom_n D \<Longrightarrow> x i = y i) \<Longrightarrow> idft w D x = idft w D y"
  unfolding idft_def by (intro ext arg_cong2 [where f = "(*)"] dft_cong) auto

lemma to_coset_vec:
  assumes "domain_ok w D"
  shows "to_coset D g (map (vec s z k) [0..<dom_n D]) = Some (map (coset_vec g w D s z k) [0..<dom_n D])"
  using to_coset_eq [OF assms, of "map (vec s z k) [0..<dom_n D]" g] idft_cong [of D "(!) (map (vec s z k) [0..<dom_n D])" "vec s z k" w]
  by (simp add: coset_vec_def)

lemma quotient_evals_eq:
  assumes "ok s" "domain_ok w D" "qap_rows (mk s) \<le> dom_n D" "vl_num_instance (cs_layout (mk s)) \<le> length z"
  shows "quotient_evals g (mk s) z D hint spill zi =
    Some (map (\<lambda>i. (coset_vec g w D s z 0 i * coset_vec g w D s z 1 i - coset_vec g w D s z 2 i) * zi) [0..<dom_n D])"
proof -
  have m: "cs_num_constraints (mk s) \<le> dom_n D" using assms(3) by (simp add: qap_rows_def)
  have rows: "rows_into (mk s) z hint (dom_n D) ms = Some (map (\<lambda>k. if k \<in> ms then Some (padded s z (dom_n D) k) else None) [0..<3])" for ms
    by (rule rows_into_eq [OF assms(1) m])
  have row: "coset_rows g (mk s) z D hint k = Some (map (coset_vec g w D s z k) [0..<dom_n D])" if "k = 1 \<or> k = 2" for k
    using that m to_coset_vec [OF assms(2)] by (auto simp: coset_rows_def rows matrix_of_def upt_3 padded_vec)
  have zip_maps: "map2 f (map a xs) (map b xs) = map (\<lambda>i. f (a i) (b i)) xs" for f and a b :: "nat \<Rightarrow> 'a" and xs
    by (simp add: zip_map_map map_zip_map2 zip_same_conv_map comp_def)
  show ?thesis
    using copy_instance_vec [OF assms(3,4)] to_coset_vec [OF assms(2), of g s z] m
    by (simp add: quotient_evals_def Let_def rows matrix_of_def upt_3 padded_vec row combine_map2 zip_maps mult.commute)
qed

text \<open>The polynomial the prover commits to, and its coefficients.\<close>

definition h_coeff :: "'a \<Rightarrow> 'a \<Rightarrow> 'a fft_domain \<Rightarrow> 's \<Rightarrow> 'a list \<Rightarrow> nat \<Rightarrow> 'a" where
  "h_coeff g w D s z = (\<lambda>i.
    idft w D (\<lambda>i. (coset_vec g w D s z 0 i * coset_vec g w D s z 1 i - coset_vec g w D s z 2 i) * inverse (g ^ dom_n D - 1)) i
      * inverse g ^ i)"

lemma quotient_of_eq:
  assumes "ok s" "domain_ok w D" "qap_rows (mk s) \<le> dom_n D" "length z = num_vars (cs_layout (mk s))"
    and "vl_num_instance (cs_layout (mk s)) \<le> length z" "g \<noteq> 0" "g ^ dom_n D \<noteq> 1"
  shows "quotient_of g (mk s) z D hint spill =
    Some \<lparr>q_t = t_list (dom_n1 D) (dom_n2 D) (h_coeff g w D s z), q_n1 = dom_n1 D, q_n2 = dom_n2 D\<rparr>"
proof -
  let ?f = "\<lambda>i. (coset_vec g w D s z 0 i * coset_vec g w D s z 1 i - coset_vec g w D s z 2 i) * inverse (g ^ dom_n D - 1)"
  have "from_coset_to_t D (inverse g) (map ?f [0..<dom_n D]) = Some (t_list (dom_n1 D) (dom_n2 D) (h_coeff g w D s z))"
    using from_coset_to_t_eq [OF assms(2), of "map ?f [0..<dom_n D]" "inverse g"]
      idft_cong [of D "(!) (map ?f [0..<dom_n D])" ?f w]
    by (simp add: h_coeff_def)
  then show ?thesis using assms(4,6,7) quotient_evals_eq [OF assms(1,2,3,5)]
    by (simp add: quotient_of_def field_inverse_def)
qed

lemma gather_natural:
  assumes "domain_ok w D"
  shows "q_gather \<lparr>q_t = t_list (dom_n1 D) (dom_n2 D) x, q_n1 = dom_n1 D, q_n2 = dom_n2 D\<rparr> 0 (dom_n D) f = map (\<lambda>i. f (x i)) [0..<dom_n D]"
proof -
  have n: "dom_n D = dom_n1 D * dom_n2 D" "0 < dom_n1 D" by (rule domain_okD [OF assms])+
  have "t_list (dom_n1 D) (dom_n2 D) x ! (i mod dom_n1 D * dom_n2 D + i div dom_n1 D) = x i" if i: "i < dom_n D" for i
  proof -
    have "i div dom_n1 D < dom_n2 D" using i n by (simp add: div_less_iff_less_mult mult.commute)
    then show ?thesis using nth_t_list [of "i mod dom_n1 D" "dom_n1 D" "i div dom_n1 D" "dom_n2 D" x] n(2) by simp
  qed
  then show ?thesis by (simp add: q_gather_def)
qed

text \<open>On the coset the prover's polynomial is \<open>(A B - C) / (x ^ n - 1)\<close>.\<close>

lemma h_on_coset:
  assumes "domain_ok w D" "g \<noteq> 0" "i < dom_n D"
  shows "poly_at (h_coeff g w D s z) (dom_n D) (g * w ^ i) =
    (coset_vec g w D s z 0 i * coset_vec g w D s z 1 i - coset_vec g w D s z 2 i) * inverse (g ^ dom_n D - 1)"
proof -
  let ?f = "\<lambda>i. (coset_vec g w D s z 0 i * coset_vec g w D s z 1 i - coset_vec g w D s z 2 i) * inverse (g ^ dom_n D - 1)"
  have "poly_at (h_coeff g w D s z) (dom_n D) (g * w ^ i) = (\<Sum>j<dom_n D. idft w D ?f j * (w ^ i) ^ j)"
    unfolding poly_at_def
    by (rule sum.cong) (use assms(2) in \<open>simp_all add: h_coeff_def power_mult_distrib power_inverse field_simps\<close>)
  also have "\<dots> = dft w (dom_n D) (idft w D ?f) i" by (simp add: dft_poly_at poly_at_def)
  also have "\<dots> = ?f i" by (rule dft_idft [OF assms(1,3)])
  finally show ?thesis .
qed

end

lemma is_poly_power_mult: "is_poly k f \<Longrightarrow> is_poly (n + k) (\<lambda>x. x ^ n * f x)"
proof (induction n)
  case (Suc n)
  then show ?case using is_poly_shift [of "n + k" "\<lambda>x. x ^ n * f x"] by (simp add: mult.assoc)
qed simp

lemma domain_points:
  fixes g :: "'a::field"
  assumes w: "root_of_order n w" and g: "g ^ n \<noteq> 1" "g \<noteq> 0"
  shows "card ((\<lambda>i. w ^ i) ` {..<n}) = n" "card ((\<lambda>i. w ^ i) ` {..<n} \<union> (\<lambda>i. g * w ^ i) ` {..<n}) = n + n"
proof -
  have wn: "w ^ n = 1" by (rule root_of_orderD [OF w])
  have inj: "inj_on (\<lambda>i. w ^ i) {..<n}" using root_power_inj [OF w] by (auto simp: inj_on_def)
  then show c: "card ((\<lambda>i. w ^ i) ` {..<n}) = n" by (simp add: card_image)
  have disj: "w ^ i \<noteq> g * w ^ j" for i j
  proof
    assume "w ^ i = g * w ^ j"
    then have "(w ^ i) ^ n = g ^ n * (w ^ j) ^ n" by (simp add: power_mult_distrib)
    then show False using g wn by (simp add: power_swap [of w _ n])
  qed
  have "inj_on (\<lambda>i. g * w ^ i) {..<n}" using inj g(2) by (simp add: inj_on_def)
  then show "card ((\<lambda>i. w ^ i) ` {..<n} \<union> (\<lambda>i. g * w ^ i) ` {..<n}) = n + n"
    using c disj by (subst card_Un_disjoint) (auto simp: card_image)
qed

lemma poly_at_unique:
  fixes w :: "'a::field"
  assumes "root_of_order n w" "\<And>i. i < n \<Longrightarrow> poly_at a n (w ^ i) = poly_at b n (w ^ i)"
  shows "poly_at a n x = poly_at b n x"
proof -
  have inj: "inj_on (\<lambda>i. w ^ i) {..<n}" using root_power_inj [OF assms(1)] by (auto simp: inj_on_def)
  have "poly_at a n x - poly_at b n x = 0"
  proof (rule is_poly_zero [of n "\<lambda>x. poly_at a n x - poly_at b n x" "(\<lambda>i. w ^ i) ` {..<n}" x])
    show "is_poly n (\<lambda>x. poly_at a n x - poly_at b n x)" by (intro is_poly_diff is_poly_at)
  qed (use assms(2) inj in \<open>auto simp: card_image\<close>)
  then show ?thesis by simp
qed

context field_source
begin

lemma qap_identity:
  assumes ok: "domain_ok w D" and g: "g \<noteq> 0" "g ^ dom_n D \<noteq> 1" and rows: "qap_rows (mk s) \<le> dom_n D"
    and a: "\<And>i. i < dom_n D \<Longrightarrow> poly_at a (dom_n D) (w ^ i) = vec s z 0 i"
    and b: "\<And>i. i < dom_n D \<Longrightarrow> poly_at b (dom_n D) (w ^ i) = vec s z 1 i"
    and c: "\<And>i. i < dom_n D \<Longrightarrow> poly_at c (dom_n D) (w ^ i) = vec s z 2 i"
  shows "(\<forall>x. poly_at a (dom_n D) x * poly_at b (dom_n D) x - poly_at c (dom_n D) x =
      poly_at (h_coeff g w D s z) (dom_n D) x * (x ^ dom_n D - 1)) \<longleftrightarrow>
    (\<forall>i < cs_num_constraints (mk s). satisfied s z i)"
proof -
  let ?n = "dom_n D" and ?m = "cs_num_constraints (mk s)"
  let ?h = "poly_at (h_coeff g w D s z) ?n"
  let ?P = "\<lambda>x. poly_at a ?n x * poly_at b ?n x - poly_at c ?n x - (x ^ ?n * ?h x - ?h x)"
  have w: "root_of_order ?n w" by (rule domain_roots [OF ok])
  have wn: "(w ^ i) ^ ?n = 1" for i using root_of_orderD [OF w] by (simp add: power_swap [of w _ ?n])
  have interp: "poly_at d ?n x = poly_at (idft w D (vec s z k)) ?n x"
    if "\<And>i. i < ?n \<Longrightarrow> poly_at d ?n (w ^ i) = vec s z k i" for d k x
  proof (rule poly_at_unique [OF w])
    fix i assume i: "i < ?n"
    show "poly_at d ?n (w ^ i) = poly_at (idft w D (vec s z k)) ?n (w ^ i)"
      using that [OF i] dft_idft [OF ok i, of "vec s z k"] by (simp add: dft_poly_at)
  qed
  have ia: "poly_at a ?n x = poly_at (idft w D (vec s z 0)) ?n x" for x by (rule interp) (rule a)
  have ib: "poly_at b ?n x = poly_at (idft w D (vec s z 1)) ?n x" for x by (rule interp) (rule b)
  have ic: "poly_at c ?n x = poly_at (idft w D (vec s z 2)) ?n x" for x by (rule interp) (rule c)
  have on_coset: "?P (g * w ^ i) = 0" if i: "i < ?n" for i
  proof -
    have gn: "(g * w ^ i) ^ ?n = g ^ ?n" by (simp add: power_mult_distrib wn)
    have "?h (g * w ^ i) * (g ^ ?n - 1) =
        coset_vec g w D s z 0 i * coset_vec g w D s z 1 i - coset_vec g w D s z 2 i"
      using h_on_coset [OF ok g(1) i] g(2) by simp
    then show ?thesis unfolding ia ib ic gn
      by (simp add: coset_vec_def algebra_simps)
  qed
  have on_domain: "?P (w ^ i) = vec s z 0 i * vec s z 1 i - vec s z 2 i" if "i < ?n" for i
    using a [OF that] b [OF that] c [OF that] wn by simp
  have eq: "poly_at a ?n x * poly_at b ?n x - poly_at c ?n x = ?h x * (x ^ ?n - 1) \<longleftrightarrow> ?P x = 0" for x
    by (simp add: algebra_simps)
  have m: "?m \<le> ?n" using rows by (simp add: qap_rows_def)
  have sat: "satisfied s z i \<longleftrightarrow> vec s z 0 i * vec s z 1 i - vec s z 2 i = 0" if "i < ?m" for i
    using that by (simp add: satisfied_def vec_def Let_def)
  show ?thesis unfolding eq
  proof
    assume "\<forall>x. ?P x = 0"
    then show "\<forall>i<?m. satisfied s z i" using on_domain m sat by (metis less_le_trans)
  next
    assume all: "\<forall>i<?m. satisfied s z i"
    have dom0: "?P (w ^ i) = 0" if i: "i < ?n" for i
    proof (cases "i < ?m")
      case True
      then show ?thesis using all sat on_domain [OF i] by simp
    next
      case False
      then show ?thesis using on_domain [OF i] by (simp add: vec_def Let_def)
    qed
    let ?R = "(\<lambda>i. w ^ i) ` {..<?n} \<union> (\<lambda>i. g * w ^ i) ` {..<?n}"
    have "is_poly (?n + ?n) (\<lambda>x. poly_at a ?n x * poly_at b ?n x)" by (rule is_poly_mult [OF is_poly_at is_poly_at])
    moreover have "is_poly (?n + ?n) (poly_at d ?n)" for d by (rule is_poly_mono [OF is_poly_at]) simp
    moreover have "is_poly (?n + ?n) (\<lambda>x. x ^ ?n * ?h x)" by (rule is_poly_power_mult [OF is_poly_at])
    ultimately have poly: "is_poly (?n + ?n) ?P" by (intro is_poly_diff)
    have "?P x = 0" for x
    proof (rule is_poly_zero [OF poly, of ?R x])
      show "?n + ?n \<le> card ?R" using domain_points(2) [OF w g(2,1)] by simp
      show "?P x = 0" if "x \<in> ?R" for x using that dom0 on_coset by blast
    qed simp
    then show "\<forall>x. ?P x = 0" by blast
  qed
qed

end

interpretation program_field: field_source program_source program_ok program_terms
  by unfold_locales

end
