(* ===== verification/Qap_Props.thy ===== *)
theory Qap_Props
  imports Qap "HOL-Library.Multiset"
begin

text \<open>
  The properties of the prover's transforms and of its quotient, on domains built by the code's
  constructors and on the rows of a program.
\<close>

section \<open>Sizes\<close>

lemma ilog2_less: "n < 2 ^ Suc (ilog2 n)"
proof (induction n rule: ilog2.induct)
  case (1 n)
  show ?case
  proof (cases "n < 2")
    case True
    then show ?thesis by (simp add: ilog2.simps [of n])
  next
    case False
    with 1 have "n div 2 < 2 ^ Suc (ilog2 (n div 2))" by simp
    then have "n < 2 * 2 ^ Suc (ilog2 (n div 2))" by linarith
    then show ?thesis using False by (subst ilog2.simps) simp
  qed
qed

lemma next_power_of_two_ge: "n \<le> next_power_of_two n"
  using ilog2_less [of "n - 1"] by (auto simp: next_power_of_two_def)

lemma next_power_of_two_power: "\<exists>k. next_power_of_two n = 2 ^ k"
  unfolding next_power_of_two_def by (metis power_0)

lemma smooth_from_spec:
  assumes "smooth_from r n = Some s"
  shows "(\<exists>k. s = r * 2 ^ k) \<and> n \<le> s \<and> (\<forall>j. n \<le> r * 2 ^ j \<longrightarrow> s \<le> r * 2 ^ j) \<and> (r < 2 ^ 64 \<longrightarrow> s < 2 ^ 64)"
  using assms
proof (induction r n rule: smooth_from.induct)
  case (1 r n)
  show ?case
  proof (cases "n \<le> r")
    case True
    then have s: "s = r" using 1(2) by (simp add: smooth_from.simps)
    then show ?thesis using True by (intro conjI exI [of _ 0]) simp_all
  next
    case False
    then have next_step: "r \<noteq> 0" "\<not> 2 ^ 64 \<le> 2 * r" "smooth_from (2 * r) n = Some s"
      using 1(2) by (simp_all add: smooth_from.simps [of r] split: if_splits)
    from 1(1) [OF False _ next_step(3)] next_step(1,2)
    have IH: "\<exists>k. s = 2 * r * 2 ^ k" "n \<le> s" "\<And>j. n \<le> 2 * r * 2 ^ j \<Longrightarrow> s \<le> 2 * r * 2 ^ j" "s < 2 ^ 64"
      by auto
    have "s \<le> r * 2 ^ j" if "n \<le> r * 2 ^ j" for j
      using that False IH(3) [of "j - 1"] by (cases j) (simp_all add: mult_ac)
    moreover have "\<exists>k. s = r * 2 ^ k"
    proof -
      obtain k where "s = 2 * r * 2 ^ k" using IH(1) by blast
      then have "s = r * 2 ^ Suc k" by simp
      then show ?thesis by blast
    qed
    ultimately show ?thesis using IH(2,4) by blast
  qed
qed

lemma smooth_from_total:
  "0 < r \<Longrightarrow> n \<le> r * 2 ^ e \<Longrightarrow> r * 2 ^ e < 2 ^ 64 \<Longrightarrow> \<exists>s. smooth_from r n = Some s"
proof (induction e arbitrary: r)
  case (Suc e)
  have "2 * r \<le> r * 2 ^ Suc e" by simp
  then have "2 * r < 2 ^ 64" using Suc.prems(3) by linarith
  then show ?case
    using Suc.IH [of "2 * r"] Suc.prems by (cases "n \<le> r") (simp_all add: smooth_from.simps [of r] mult_ac)
qed (simp add: smooth_from.simps)

lemma smooth_size_min:
  "smooth_size n = Some s \<longleftrightarrow> (\<exists>a b c. smooth_from 1 n = Some a \<and> smooth_from 3 n = Some b \<and> smooth_from 9 n = Some c \<and>
    s = min (min a b) c)"
  by (auto simp: smooth_size_def split: option.splits)

lemma supported_no_3: "2 ^ k mod 3 \<noteq> (0 :: nat)"
proof (induction k)
  case (Suc k)
  have "(2 ^ Suc k) mod 3 = (2 * (2 ^ k mod 3)) mod (3 :: nat)" by (simp add: mod_mult_right_eq)
  moreover have "(2 :: nat) ^ k mod 3 = 1 \<or> (2 :: nat) ^ k mod 3 = 2" using Suc by linarith
  ultimately show ?case by auto
qed simp

lemma trailing_zeros_odd: "odd q \<Longrightarrow> trailing_zeros_usize (q * 2 ^ k) = k"
  by (induction k) (auto simp: trailing_zeros_usize.simps [of q] trailing_zeros_usize.simps [of "q * (2 * _)"] odd_pos)

lemma split_of_supported:
  assumes "q \<in> {1, 3, 9}"
  obtains j i where "split_of (q * 2 ^ k) cfg = Some (q * 2 ^ j, 2 ^ i)" "j + i = k"
proof -
  have q: "odd q" "0 < q" using assms by auto
  have q': "(if q * 2 ^ k mod 9 = 0 then 9 else if q * 2 ^ k mod 3 = 0 then 3 else 1) = q"
  proof -
    have "(3 * 2 ^ k) mod 9 = 3 * (2 ^ k mod 3 :: nat)" by (simp add: mult_mod_right)
    moreover have "(2 :: nat) ^ k mod 9 \<noteq> 0" using supported_no_3 [of k] mod_mod_cancel [of 3 9 "2 ^ k :: nat"] by auto
    ultimately show ?thesis using assms supported_no_3 [of k] by auto
  qed
  have tz: "trailing_zeros_usize (q * 2 ^ k div q) = k" using q(2) trailing_zeros_power by simp
  have "split_of (q * 2 ^ k) cfg = Some (q * 2 ^ 0, 2 ^ k) \<or>
      split_of (q * 2 ^ k) cfg = Some (q * 2 ^ (k div 2), 2 ^ (k - k div 2))"
    unfolding split_of_def Let_def q' tz using q by auto
  then show ?thesis using that [of 0 k] that [of "k div 2" "k - k div 2"] by auto
qed

lemma with_size_total:
  fixes rt :: "nat \<Rightarrow> 'a::field option"
  assumes "q \<in> {1, 3, 9}" "q * 2 ^ k < 2 ^ 64" "rt (q * 2 ^ k) = Some w" "w \<noteq> 0" "of_nat (q * 2 ^ k) \<noteq> (0 :: 'a)"
  shows "\<exists>D. with_size rt (q * 2 ^ k) cfg = Some D"
proof -
  obtain j i where s: "split_of (q * 2 ^ k) cfg = Some (q * 2 ^ j, 2 ^ i)" "j + i = k"
    by (rule split_of_supported [OF assms(1)])
  have q: "odd q" "0 < q" using assms(1) by auto
  have n: "q * 2 ^ j * 2 ^ i = q * 2 ^ k" using s(2) by (simp add: mult.assoc flip: power_add)
  have "2 ^ j \<le> q * 2 ^ k" using s(2) q(2) by (intro order.trans [OF power_increasing [of j k "2 :: nat"]]) simp_all
  then have "(2 :: nat) ^ j < 2 ^ 64" using assms(2) by linarith
  then have j: "j < 64" using nat_power_less_imp_less [of 2 j 64] by simp
  have tz: "trailing_zeros_usize (q * 2 ^ j) = j" by (rule trailing_zeros_odd [OF q(1)])
  have p: "is_power_of_two (2 ^ i)" by (simp add: is_power_of_two_def trailing_zeros_power)
  show ?thesis using assms j by (auto simp: with_size_def s(1) with_split_def Let_def tz p n field_inverse_def)
qed

text \<open>C26: The size chosen for a smooth domain. There is one exactly up to \<open>2 ^ 63\<close> points (beyond, the
  doubling of the power of two leaves \<open>usize\<close>); it fits the width, is of a supported form, holds the
  requested number of points and is the least supported size that does.\<close>

theorem smooth_size_least:
  "(smooth_size n = None \<longleftrightarrow> 2 ^ 63 < n) \<and>
   (\<forall>s. smooth_size n = Some s \<longrightarrow> n \<le> s \<and> s < 2 ^ 64 \<and> (\<exists>q \<in> {1, 3, 9}. \<exists>k. s = q * 2 ^ k) \<and>
     (\<forall>q \<in> {1, 3, 9}. \<forall>k. n \<le> q * 2 ^ k \<longrightarrow> s \<le> q * 2 ^ k))"
proof (intro conjI allI impI)
  show "smooth_size n = None \<longleftrightarrow> 2 ^ 63 < n"
  proof (cases "n \<le> 2 ^ 63")
    case True
    then show ?thesis
      using smooth_from_total [of 1 n 63] smooth_from_total [of 3 n 62] smooth_from_total [of 9 n 60]
      by (auto simp: smooth_size_def)
  next
    case False
    have "smooth_from 1 n = None"
    proof (rule ccontr)
      assume "smooth_from 1 n \<noteq> None"
      then obtain s where "smooth_from 1 n = Some s" by blast
      from smooth_from_spec [OF this] obtain k where k: "s = 2 ^ k" "n \<le> s" "s < 2 ^ 64" by auto
      then have "k < 64" using nat_power_less_imp_less [of 2 k 64] by simp
      then have "(2 :: nat) ^ k \<le> 2 ^ 63" by (intro power_increasing) simp_all
      with k False show False by simp
    qed
    then show ?thesis using False by (simp add: smooth_size_def)
  qed
next
  fix s assume "smooth_size n = Some s"
  then obtain a b c where f: "smooth_from 1 n = Some a" "smooth_from 3 n = Some b" "smooth_from 9 n = Some c"
    and s: "s = min (min a b) c" by (auto simp: smooth_size_min)
  note spec = smooth_from_spec [OF f(1)] smooth_from_spec [OF f(2)] smooth_from_spec [OF f(3)]
  have cases: "s = a \<or> s = b \<or> s = c" unfolding s by linarith
  show "n \<le> s" "s < 2 ^ 64" using spec cases by auto
  show "\<exists>q \<in> {1, 3, 9}. \<exists>k. s = q * 2 ^ k" proof -
    have "\<exists>k. s = 1 * 2 ^ k \<or> s = 3 * 2 ^ k \<or> s = 9 * 2 ^ k" using spec cases by auto
    then show ?thesis by auto
  qed
  show "\<forall>q \<in> {1, 3, 9}. \<forall>k. n \<le> q * 2 ^ k \<longrightarrow> s \<le> q * 2 ^ k"
    using spec unfolding s by (simp add: min_le_iff_disj)
qed

lemma smooth_size_least_witness: "smooth_size (2 ^ 63 + 1) = None \<and> (\<exists>s. smooth_size 17 = Some s \<and> 17 \<le> s \<and> s \<le> 18)"
proof -
  obtain s where s: "smooth_size 17 = Some s" using smooth_size_least [of 17] by (cases "smooth_size 17") auto
  note h = smooth_size_least [of 17, THEN conjunct2, THEN spec, THEN mp, OF s]
  have "s \<le> 18"
    using h [THEN conjunct2, THEN conjunct2, THEN conjunct2, THEN bspec [of _ _ 9], THEN spec [of _ 1]] by simp
  then show ?thesis using s h smooth_size_least [of "2 ^ 63 + 1"] by simp
qed

section \<open>Transforms\<close>

lemma supported_domain:
  fixes rt :: "nat \<Rightarrow> 'a::field option"
  assumes "q \<in> {1, 3, 9}" "q * 2 ^ k < 2 ^ 64" "rt (q * 2 ^ k) = Some w" "root_of_order (q * 2 ^ k) w"
    "of_nat (q * 2 ^ k) \<noteq> (0 :: 'a)" "(2 :: 'a) \<noteq> 0"
  obtains D where "with_size rt (q * 2 ^ k) cfg = Some D" "dom_n D = q * 2 ^ k" "domain_ok w D"
proof -
  let ?n = "q * 2 ^ k"
  have "0 < ?n" using assms(1) by auto
  then have "w \<noteq> 0" using root_of_orderD [OF assms(4)] by (cases "w = 0") (auto simp: power_0_left)
  then obtain D where D: "with_size rt ?n cfg = Some D" using with_size_total [of q k rt w cfg] assms by blast
  from with_size_ok [OF D _ assms(6)] assms(3,4) have "dom_n D = ?n" "domain_ok w D" by auto
  then show ?thesis using that D by blast
qed

text \<open>C7: On every supported size, blocked or not, with factors of three or not, the transform of a domain
  is the discrete Fourier transform: output \<open>k\<close> is the sum of the inputs times the powers of the root.\<close>

theorem fft_computes_dft:
  fixes rt :: "nat \<Rightarrow> 'a::field option"
  assumes "q \<in> {1, 3, 9}" "n = q * 2 ^ k" "n < 2 ^ 64" "rt n = Some w" "root_of_order n w"
    "of_nat n \<noteq> (0 :: 'a)" "(2 :: 'a) \<noteq> 0" "length buf = n"
  shows "\<exists>D. with_size rt n cfg = Some D \<and> fft D buf = Some (map (\<lambda>k. \<Sum>j<n. buf ! j * w ^ (j * k)) [0..<n])"
proof -
  obtain D where D: "with_size rt n cfg = Some D" "dom_n D = n" "domain_ok w D"
    using supported_domain [of q k rt w cfg] assms by auto
  have "fft D buf = Some (map (\<lambda>k. \<Sum>j<n. buf ! j * w ^ (j * k)) [0..<n])"
    using fft_eq [OF D(3), of buf] D(2) assms(8) by (simp add: dft_def)
  then show ?thesis using D(1) by blast
qed

text \<open>The complex numbers have a root of order 4; with \<open>min_blocked_log\<close> 0 its domain is a \<open>2 \<times> 2\<close> matrix.\<close>

definition quarter_root :: "nat \<Rightarrow> complex option" where
  "quarter_root n = (if n = 4 then Some \<i> else None)"

lemma quarter_root_order: "root_of_order 4 \<i>"
proof -
  have "\<i> ^ k \<noteq> 1" if "0 < k" "k < 4" for k
  proof -
    from that have "k = 1 \<or> k = 2 \<or> k = 3" by auto
    then show ?thesis by (auto simp: complex_eq_iff power2_eq_square power3_eq_cube)
  qed
  then show ?thesis by (simp add: root_of_order_def)
qed

lemma fft_computes_dft_witness:
  "\<exists>D. with_size quarter_root 4 \<lparr>cfg_tile = 1, min_blocked_log = 0\<rparr> = Some D \<and>
    fft D [1, 2, 0, 5] = Some [8, 1 - 3 * \<i>, - 6, 1 + 3 * \<i>]"
proof -
  have "[0..<4] = [0, 1, 2, 3 :: nat]" by (simp add: upt_rec)
  moreover have "{..<4} = {0, 1, 2, 3 :: nat}" by auto
  moreover have "\<i> ^ 6 = - 1" "\<i> ^ 9 = \<i>"
    by (simp_all add: power_numeral_even power_numeral_odd complex_eq_iff)
  ultimately show ?thesis
    using fft_computes_dft [of 1 4 2 quarter_root \<i> "[1, 2, 0, 5]" "\<lparr>cfg_tile = 1, min_blocked_log = 0\<rparr>"] quarter_root_order
    by (simp add: quarter_root_def power2_eq_square power3_eq_cube algebra_simps)
qed

text \<open>C24: The inverse transform undoes the transform, and the transform undoes it.\<close>

theorem ifft_inverts_fft:
  fixes rt :: "nat \<Rightarrow> 'a::field option"
  assumes "with_size rt n cfg = Some D" "\<And>w. rt n = Some w \<Longrightarrow> root_of_order n w" "(2 :: 'a) \<noteq> 0"
    "length buf = n"
  shows "Option.bind (fft D buf) (ifft D) = Some buf \<and> Option.bind (ifft D buf) (fft D) = Some buf"
proof -
  obtain w where D: "dom_n D = n" "domain_ok w D" using with_size_ok [OF assms(1-3)] by blast
  have len: "length buf = dom_n D" using D(1) assms(4) by simp
  have idft: "idft w D ((!) (map x [0..<dom_n D])) = idft w D x" for x
    unfolding idft_def by (simp add: dft_of_map)
  have self: "map ((!) buf) [0..<dom_n D] = buf" using len by (rule row_of_map)
  have "map (idft w D (dft w (dom_n D) ((!) buf))) [0..<dom_n D] = map ((!) buf) [0..<dom_n D]"
    "map (dft w (dom_n D) (idft w D ((!) buf))) [0..<dom_n D] = map ((!) buf) [0..<dom_n D]"
    by (auto simp: idft_dft [OF D(2)] dft_idft [OF D(2)])
  then show ?thesis
    using fft_eq [OF D(2)] ifft_eq [OF D(2)] len by (simp_all add: idft dft_of_map self)
qed

lemma ifft_inverts_fft_witness:
  "\<exists>D. with_size quarter_root 4 \<lparr>cfg_tile = 1, min_blocked_log = 0\<rparr> = Some D \<and>
    Option.bind (fft D [1, 2, 0, 5]) (ifft D) = Some [1, 2, 0, 5]"
proof -
  obtain D where D: "with_size quarter_root 4 \<lparr>cfg_tile = 1, min_blocked_log = 0\<rparr> = Some D"
    using supported_domain [of 1 2 quarter_root \<i>] quarter_root_order by (auto simp: quarter_root_def)
  then show ?thesis using ifft_inverts_fft [OF D, of "[1, 2, 0, 5]"] quarter_root_order
    by (auto simp: quarter_root_def split: if_splits)
qed

text \<open>C25: The column tiles of a pass, which the code runs in parallel on shared memory, give the same buffer
  in whatever order they run.\<close>

theorem column_tiles_commute:
  assumes "length buf = dom_n1 D * dom_n2 D" "0 < dom_tile D"
    "mset order = mset [0..<div_ceil (dom_n2 D) (dom_tile D)]"
  shows "col_pass_order order D t tw sc buf = col_pass D t tw sc buf"
proof (rule list_eq_cells [of _ "dom_n1 D" "dom_n2 D"])
  have order: "distinct order" "set order = {0..<div_ceil (dom_n2 D) (dom_tile D)}"
    using mset_eq_imp_distinct_iff [OF assms(3)] mset_eq_setD [OF assms(3)] by simp_all
  fix r c assume "r < dom_n1 D" "c < dom_n2 D"
  then show "col_pass_order order D t tw sc buf ! (r * dom_n2 D + c) = col_pass D t tw sc buf ! (r * dom_n2 D + c)"
    using assms(1,2) order tile_index by (simp add: nth_col_pass_order nth_col_pass)
qed (simp_all add: assms(1))

definition half_domain :: "rat fft_domain" where
  "half_domain = \<lparr>dom_n = 4, dom_log_n = 2, dom_n1 = 2, dom_n2 = 2, dom_tile = 1, size_inv = 1,
    dom_fwd = tables_new (- 1) 2 2, dom_inv = tables_new (- 1) 2 2\<rparr>"

lemma column_tiles_commute_witness:
  "col_pass_order [1, 0] half_domain (dom_fwd half_domain) Post 1 [3, 1, 4, 1] =
   col_pass half_domain (dom_fwd half_domain) Post 1 [3, 1, 4, 1]"
  using column_tiles_commute [of "[3, 1, 4, 1]" half_domain "[1, 0]"]
  by (simp add: half_domain_def div_ceil_def numeral_2_eq_2)

section \<open>Rows\<close>

text \<open>The value of a combination under values of its variables, those without one being zero.\<close>

definition value_or_zero :: "(var_id \<Rightarrow> 'a::comm_ring_1 option) \<Rightarrow> var_id \<Rightarrow> 'a" where
  "value_or_zero val i = (case val i of Some v \<Rightarrow> v | None \<Rightarrow> 0)"

definition lc_at :: "(var_id \<Rightarrow> 'a::comm_ring_1 option) \<Rightarrow> lin_comb \<Rightarrow> 'a" where
  "lc_at val lc = of_int (fc_big (lc_const lc)) +
    (\<Sum>t \<leftarrow> lc_terms lc. of_int (fc_big (t_coeff t)) * value_or_zero val (t_var t))"

lemma length_assignment [simp]: "length (assignment l val) = num_vars l"
  by (simp add: assignment_def num_vars_def)

lemma assignment_position:
  assumes "program_ok prog" "position (layout_from_program prog) i = Some p"
  shows "assignment (layout_from_program prog) val ! p = value_or_zero val i"
proof -
  have "1 \<le> p" "p < num_vars (layout_from_program prog)" "vl_ids (layout_from_program prog) ! (p - 1) = i"
    using position_program [OF assms(1)] assms(2) by blast+
  then show ?thesis by (simp add: assignment_def num_vars_def value_or_zero_def nth_Cons')
qed

lemma terms_value_append: "terms_value (xs @ ys) z = terms_value xs z + terms_value ys z"
  by (simp add: terms_value_def)

lemma terms_value_program:
  assumes ok: "program_ok prog" and r: "r \<in> set (rp_constraints prog)" "lc \<in> set (row_lcs r)"
  shows "terms_value (lc_row_terms (layout_from_program prog) lc) (assignment (layout_from_program prog) val) = lc_at val lc"
proof -
  let ?l = "layout_from_program prog" and ?z = "assignment (layout_from_program prog) val"
  have t: "?z ! unat (of_nat (the (position ?l (t_var t))) :: u32) = value_or_zero val (t_var t)" if "t \<in> set (lc_terms lc)" for t
  proof -
    have "t_var t \<in> rv_id ` set (rp_variables prog)" using ok r that by (simp add: program_ok_def)
    then obtain p where p: "position ?l (t_var t) = Some p" "p < num_vars ?l" by (rule position_some [OF ok])
    then have "unat (of_nat p :: u32) = p" using num_vars_small [OF ok] by (simp add: unat_of_nat take_bit_nat_eq_self)
    then show ?thesis using assignment_position [OF ok p(1)] p(1) by simp
  qed
  have "terms_value (map (\<lambda>t. (of_nat (the (position ?l (t_var t))), of_int (fc_big (t_coeff t)))) (lc_terms lc)) ?z =
      (\<Sum>t \<leftarrow> lc_terms lc. of_int (fc_big (t_coeff t)) * value_or_zero val (t_var t))"
    unfolding terms_value_def by (simp add: comp_def) (intro arg_cong [of _ _ sum_list] map_cong refl, simp add: t mult.commute)
  moreover have "fc_is_zero c \<Longrightarrow> fc_big c = 0" for c by (cases c) (simp_all add: fc_is_zero_def)
  ultimately show ?thesis
    by (simp add: lc_row_terms_def terms_value_append lc_at_def assignment_def)
qed

lemma program_row_value:
  assumes "program_ok prog" "i < length (rp_constraints prog)" "m < 3"
  shows "program.row_value prog (assignment (layout_from_program prog) val) m i =
    lc_at val (row_lcs (rp_constraints prog ! i) ! m)"
proof -
  have "row_lcs (rp_constraints prog ! i) ! m \<in> set (row_lcs (rp_constraints prog ! i))"
    using assms(3) by (intro nth_mem) (simp add: row_lcs_def)
  then show ?thesis using assms terms_value_program [OF assms(1) nth_mem [OF assms(2)]]
    by (simp add: program.row_value_def program_terms_def)
qed

lemma program_source_simps [simp]:
  "cs_num_constraints (program_source prog) = length (rp_constraints prog)"
  "cs_layout (program_source prog) = layout_from_program prog"
  by (simp_all add: program_source_def Let_def)

text \<open>C22: Whatever the window size, streaming the rows of a program against an assignment gives each row's
  three values in order, and the first row reported unsatisfied is the first that is.\<close>

theorem streamed_rows_exact:
  fixes val :: "var_id \<Rightarrow> 'a::comm_ring_1 option"
  assumes "program_ok prog"
  defines "n \<equiv> length (rp_constraints prog)" and "z \<equiv> assignment (layout_from_program prog) val"
  shows "eval_rows (program_source prog) z hint [Some (replicate n 0), Some (replicate n 0), Some (replicate n 0)] =
      Some [Some (map (\<lambda>r. lc_at val (rc_a r)) (rp_constraints prog)),
            Some (map (\<lambda>r. lc_at val (rc_b r)) (rp_constraints prog)),
            Some (map (\<lambda>r. lc_at val (rc_c r)) (rp_constraints prog))]
    \<and> first_unsatisfied (program_source prog) z = Some (List.find (\<lambda>i. let r = rp_constraints prog ! i in
      lc_at val (rc_a r) * lc_at val (rc_b r) \<noteq> lc_at val (rc_c r)) [0..<n])"
proof -
  have rows: "map (program.row_value prog z m) [0..<n] = map (\<lambda>r. lc_at val (row_lcs r ! m)) (rp_constraints prog)"
    if "m < 3" for m
    by (rule nth_equalityI) (use that program_row_value [OF assms(1)] in \<open>auto simp: n_def z_def\<close>)
  have evals: "eval_rows (program_source prog) z hint [Some (replicate n 0), Some (replicate n 0), Some (replicate n 0)] =
      Some [Some (map (\<lambda>r. lc_at val (rc_a r)) (rp_constraints prog)),
            Some (map (\<lambda>r. lc_at val (rc_b r)) (rp_constraints prog)),
            Some (map (\<lambda>r. lc_at val (rc_c r)) (rp_constraints prog))]"
    using program.eval_rows_eq [OF assms(1), of "[Some (replicate n 0), Some (replicate n 0), Some (replicate n 0)]" z hint]
      rows [of 0] rows [of 1] rows [of 2]
    by (simp add: n_def [symmetric] row_lcs_def numeral_2_eq_2)
  have "program.satisfied prog z i \<longleftrightarrow> (let r = rp_constraints prog ! i in
      lc_at val (rc_a r) * lc_at val (rc_b r) = lc_at val (rc_c r))" if "i < n" for i
    using program_row_value [OF assms(1), of i 0 val] program_row_value [OF assms(1), of i 1 val]
      program_row_value [OF assms(1), of i 2 val] that
    by (simp add: program.satisfied_def z_def n_def row_lcs_def Let_def numeral_2_eq_2)
  then have "first_unsatisfied (program_source prog) z = Some (List.find (\<lambda>i. let r = rp_constraints prog ! i in
      lc_at val (rc_a r) * lc_at val (rc_b r) \<noteq> lc_at val (rc_c r)) [0..<n])"
    using program.first_unsatisfied_eq [OF assms(1), of z]
    by (simp add: n_def [symmetric]) (intro find_cong refl, simp add: Let_def)
  with evals show ?thesis by blast
qed

text \<open>Two rows over a public and a private variable.\<close>

definition two_rows :: r1cs_program where
  "two_rows = \<lparr>rp_field = fs_unknown,
    rp_variables = [\<lparr>rv_id = 5, rv_name = ''x'', rv_visibility = Private\<rparr>, \<lparr>rv_id = 2, rv_name = ''y'', rv_visibility = Public\<rparr>],
    rp_constraints =
      [\<lparr>rc_id = 0, rc_a = lc_var 5, rc_b = lc_var 5, rc_c = lc_var 2, rc_debug = None\<rparr>,
       \<lparr>rc_id = 1, rc_a = lc_var 2, rc_b = lc_one, rc_c = \<lparr>lc_const = fc_from_i64 9, lc_terms = []\<rparr>, rc_debug = None\<rparr>]\<rparr>"

definition two_values :: "'a::comm_ring_1 \<Rightarrow> 'a \<Rightarrow> var_id \<Rightarrow> 'a option" where
  "two_values x y i = (if i = 5 then Some x else if i = 2 then Some y else None)"

lemma two_rows_ok: "program_ok two_rows"
  by (simp add: program_ok_def two_rows_def row_lcs_def lc_var_def lc_one_def lc_zero_def rows_nnz_def lc_nnz_def
      fc_is_zero_def fc_zero_def fc_one_def fc_from_i64_def)

lemma two_rows_values:
  "lc_at (two_values x y) (lc_var 5) = x" "lc_at (two_values x y) (lc_var 2) = y" "lc_at (two_values x y) lc_one = 1"
  "lc_at (two_values x y) \<lparr>lc_const = fc_from_i64 9, lc_terms = []\<rparr> = 9"
  by (simp_all add: lc_at_def lc_var_def lc_one_def lc_zero_def fc_zero_def fc_one_def fc_from_i64_def two_values_def
      value_or_zero_def)

lemma streamed_rows_exact_witness:
  "first_unsatisfied (program_source two_rows)
    (assignment (layout_from_program two_rows) (two_values (4 :: int) 16)) = Some (Some 1)"
  using streamed_rows_exact [OF two_rows_ok, of "two_values (4 :: int) 16", THEN conjunct2]
  by (simp add: two_rows_def two_rows_values numeral_2_eq_2 Let_def)

text \<open>C23: The transpose that setup runs is the adjoint of the rows' evaluation: against every assignment, the
  vector it accumulates for a matrix pairs to the weighted sum of that matrix's row values.\<close>

theorem transpose_is_adjoint:
  fixes w :: "'a::comm_ring_1 list"
  assumes "program_ok prog" "length w = length (rp_constraints prog)"
  defines "zeros \<equiv> replicate (num_vars (layout_from_program prog)) 0"
  shows "\<exists>outs. transpose_eval (program_source prog) w [zeros, zeros, zeros] = Some outs \<and>
    (\<forall>m < 3. \<forall>val. (\<Sum>p<num_vars (layout_from_program prog). outs ! m ! p * assignment (layout_from_program prog) val ! p) =
      (\<Sum>i<length (rp_constraints prog). w ! i * lc_at val (row_lcs (rp_constraints prog ! i) ! m)))"
proof -
  let ?l = "layout_from_program prog" and ?n = "length (rp_constraints prog)"
  have ok: "program.outs_ok prog [zeros, zeros, zeros]"
    by (auto simp: program.outs_ok_def zeros_def less_Suc_eq numeral_3_eq_3)
  obtain outs where t: "transpose_eval (program_source prog) w [zeros, zeros, zeros] = Some outs"
    "program.transposed prog w 0 ?n [zeros, zeros, zeros] outs"
    using program.transpose_from_ok [OF assms(1) order_refl program.windows_chain [OF assms(1)] ok, of w "2 ^ 14"] assms(2)
    by (auto simp: transpose_eval_def)
  have "(\<Sum>p<num_vars ?l. outs ! m ! p * assignment ?l val ! p) =
      (\<Sum>i<?n. w ! i * lc_at val (row_lcs (rp_constraints prog ! i) ! m))" if m: "m < 3" for m val
  proof -
    let ?z = "assignment ?l val"
    have z0: "[zeros, zeros, zeros] ! m = zeros" using m by (auto simp: less_Suc_eq numeral_3_eq_3)
    have len: "length (outs ! m) = num_vars ?l" using t(2) m z0 by (simp add: program.transposed_def zeros_def)
    have "program.dot (outs ! m) ?z = program.dot zeros ?z + (\<Sum>i\<in>{0..<?n}. w ! i * program.row_value prog ?z m i)"
      using t(2) m z0 by (simp add: program.transposed_def)
    also have "program.dot zeros ?z = 0" by (simp add: program.dot_def zeros_def)
    also have "(\<Sum>i\<in>{0..<?n}. w ! i * program.row_value prog ?z m i) =
        (\<Sum>i<?n. w ! i * lc_at val (row_lcs (rp_constraints prog ! i) ! m))"
      unfolding lessThan_atLeast0 by (rule sum.cong) (simp_all add: program_row_value [OF assms(1) _ m])
    finally show ?thesis by (simp add: program.dot_def len)
  qed
  then show ?thesis using t(1) by blast
qed

lemma transpose_is_adjoint_witness:
  "\<exists>outs. transpose_eval (program_source two_rows) [2, 3 :: int] [replicate 3 0, replicate 3 0, replicate 3 0] = Some outs \<and>
    (\<forall>x y. (\<Sum>p<3. outs ! 0 ! p * assignment (layout_from_program two_rows) (two_values x y) ! p) = 2 * x + 3 * y)"
proof -
  have n: "num_vars (layout_from_program two_rows) = 3"
    by (simp add: num_vars_def program_layout layout_new_def Let_def length_layout_ids) (simp add: two_rows_def)
  have len: "length (rp_constraints two_rows) = 2" by (simp add: two_rows_def)
  obtain outs where o: "transpose_eval (program_source two_rows) [2, 3 :: int] [replicate 3 0, replicate 3 0, replicate 3 0] = Some outs"
    "\<forall>m < 3. \<forall>val. (\<Sum>p<3. outs ! m ! p * assignment (layout_from_program two_rows) val ! p) =
      (\<Sum>i<2. [2, 3] ! i * lc_at val (row_lcs (rp_constraints two_rows ! i) ! m))"
    using transpose_is_adjoint [OF two_rows_ok, of "[2, 3 :: int]"] by (auto simp: n len)
  have "(\<Sum>p<3. outs ! 0 ! p * assignment (layout_from_program two_rows) (two_values x y) ! p) = 2 * x + 3 * y" for x y
  proof -
    have "(\<Sum>p<3. outs ! 0 ! p * assignment (layout_from_program two_rows) (two_values x y) ! p) =
        (\<Sum>i<2. [2, 3] ! i * lc_at (two_values x y) (row_lcs (rp_constraints two_rows ! i) ! 0))"
      by (rule o(2) [rule_format]) simp
    also have "\<dots> = 2 * x + 3 * y" by (simp add: two_rows_def row_lcs_def two_rows_values numeral_2_eq_2)
    finally show ?thesis .
  qed
  then show ?thesis using o(1) by blast
qed

section \<open>The quotient\<close>

text \<open>The vectors on the domain: \<open>A\<close> carries the instance after the rows, and all are padded with zeros.\<close>

definition qap_vector :: "r1cs_program \<Rightarrow> (var_id \<Rightarrow> 'a::comm_ring_1 option) \<Rightarrow> nat \<Rightarrow> nat \<Rightarrow> 'a" where
  "qap_vector prog val k i =
    (let l = layout_from_program prog; m = length (rp_constraints prog) in
     if i < m then lc_at val (row_lcs (rp_constraints prog ! i) ! k)
     else if k = 0 \<and> i < m + vl_num_instance l then assignment l val ! (i - m) else 0)"

lemma program_vec:
  assumes "program_ok prog" "k < 3"
  shows "program_field.vec prog (assignment (layout_from_program prog) val) k i = qap_vector prog val k i"
  using program_row_value [OF assms(1) _ assms(2), of i val]
  by (simp add: program_field.vec_def qap_vector_def Let_def qap_rows_def)

lemma domain_for_ok:
  fixes rt :: "nat \<Rightarrow> 'a::field option"
  assumes "domain_for rt src cfg = Some D" "rt (dom_n D) = Some w" "root_of_order (dom_n D) w" "(2 :: 'a) \<noteq> 0"
  shows "domain_ok w D" "qap_rows src \<le> dom_n D"
proof -
  let ?n = "next_power_of_two (max (qap_rows src) 1)"
  have D: "with_size rt ?n cfg = Some D" using assms(1) by (simp add: domain_for_def domain_new_def)
  obtain n1 n2 where s: "split_of ?n cfg = Some (n1, n2)" "with_split rt n1 n2 (cfg_tile cfg) = Some D"
    using D by (auto simp: with_size_def split: option.splits)
  have "dom_n D = n1 * n2" using s(2) by (auto simp: with_split_def Let_def bind_eq_Some_conv split: if_splits)
  then have n: "dom_n D = ?n" using split_of_product [OF s(1)] by simp
  from with_size_ok [OF D _ assms(4)] assms(2,3) show "domain_ok w D" by (auto simp: n)
  show "qap_rows src \<le> dom_n D" using next_power_of_two_ge [of "max (qap_rows src) 1"] unfolding n by simp
qed

lemma num_instance_le: "vl_num_instance (layout_from_program prog) \<le> num_vars (layout_from_program prog)"
  by (simp add: program_layout layout_new_def Let_def num_vars_def layout_ids_def)

text \<open>C2: The coefficients the prover computes are those of a polynomial \<open>h\<close> with \<open>A B - C = h (x ^ n - 1)\<close>
  exactly when the assignment satisfies every row, for the polynomials \<open>A\<close>, \<open>B\<close>, \<open>C\<close> that interpolate the
  row values (and the instance) on the domain; they do not depend on the window size or on spilling.\<close>

theorem quotient_identity:
  fixes rt :: "nat \<Rightarrow> 'a::field option"
  assumes prog: "program_ok prog" and D: "domain_for rt (program_source prog) cfg = Some D"
    and w: "rt (dom_n D) = Some w" "root_of_order (dom_n D) w" and two: "(2 :: 'a) \<noteq> 0"
    and g: "g \<noteq> 0" "g ^ dom_n D \<noteq> 1"
  defines "n \<equiv> dom_n D"
  shows "\<exists>h. (\<forall>hint spill. witness_map g rt (program_source prog) (assignment (layout_from_program prog) val) cfg hint spill
        = Some (map h [0..<n])) \<and>
    (\<forall>a b c. (\<forall>i<n. poly_at a n (w ^ i) = qap_vector prog val 0 i \<and> poly_at b n (w ^ i) = qap_vector prog val 1 i \<and>
        poly_at c n (w ^ i) = qap_vector prog val 2 i) \<longrightarrow>
      ((\<forall>x. poly_at a n x * poly_at b n x - poly_at c n x = poly_at h n x * (x ^ n - 1)) \<longleftrightarrow>
       (\<forall>r \<in> set (rp_constraints prog). lc_at val (rc_a r) * lc_at val (rc_b r) = lc_at val (rc_c r))))"
proof (intro exI conjI allI impI)
  let ?l = "layout_from_program prog" and ?z = "assignment (layout_from_program prog) val"
  let ?h = "program_field.h_coeff g w D prog ?z"
  have ok: "domain_ok w D" and rows: "qap_rows (program_source prog :: 'a constraint_source) \<le> dom_n D"
    by (rule domain_for_ok [OF D w two])+
  have q: "quotient_of g (program_source prog) ?z D hint spill =
      Some \<lparr>q_t = t_list (dom_n1 D) (dom_n2 D) ?h, q_n1 = dom_n1 D, q_n2 = dom_n2 D\<rparr>" for hint spill
    using num_instance_le by (intro program_field.quotient_of_eq [OF prog ok rows]) (simp_all add: g)
  show "witness_map g rt (program_source prog) ?z cfg hint spill = Some (map ?h [0..<n])" for hint spill
    using program_field.gather_natural [OF ok, of ?h "\<lambda>x. x"] domain_okD(1) [OF ok]
    by (simp add: witness_map_def D q q_len_def n_def)
  fix a b c
  assume *: "\<forall>i<n. poly_at a n (w ^ i) = qap_vector prog val 0 i \<and> poly_at b n (w ^ i) = qap_vector prog val 1 i \<and>
        poly_at c n (w ^ i) = qap_vector prog val 2 i"
  have sat: "program.satisfied prog ?z i \<longleftrightarrow> lc_at val (rc_a (rp_constraints prog ! i)) * lc_at val (rc_b (rp_constraints prog ! i))
      = lc_at val (rc_c (rp_constraints prog ! i))" if "i < length (rp_constraints prog)" for i
    using program_row_value [OF prog that, of 0 val] program_row_value [OF prog that, of 1 val] program_row_value [OF prog that, of 2 val]
    by (simp add: program.satisfied_def row_lcs_def numeral_2_eq_2)
  have "(\<forall>x. poly_at a n x * poly_at b n x - poly_at c n x = poly_at ?h n x * (x ^ n - 1)) \<longleftrightarrow>
      (\<forall>i < length (rp_constraints prog). program.satisfied prog ?z i)"
    unfolding n_def using * program_vec [OF prog, of _ val]
    by (subst program_field.qap_identity [OF ok g rows, where a = a and b = b and c = c and z = ?z]) (simp_all add: n_def)
  also have "\<dots> \<longleftrightarrow> (\<forall>r \<in> set (rp_constraints prog). lc_at val (rc_a r) * lc_at val (rc_b r) = lc_at val (rc_c r))"
    using sat by (auto simp: all_set_conv_all_nth)
  finally show "(\<forall>x. poly_at a n x * poly_at b n x - poly_at c n x = poly_at ?h n x * (x ^ n - 1)) \<longleftrightarrow>
      (\<forall>r \<in> set (rp_constraints prog). lc_at val (rc_a r) * lc_at val (rc_b r) = lc_at val (rc_c r))" .
qed

text \<open>The two rows and their two instance values fill the domain of four points.\<close>

lemma quotient_identity_witness:
  "\<exists>h. witness_map 2 quarter_root (program_source two_rows)
      (assignment (layout_from_program two_rows) (two_values 3 9)) fft_config_default 7 True = Some (map h [0..<4]) \<and>
    (\<forall>a b c. (\<forall>i<4. poly_at a 4 (\<i> ^ i) = qap_vector two_rows (two_values 3 9) 0 i \<and>
        poly_at b 4 (\<i> ^ i) = qap_vector two_rows (two_values 3 9) 1 i \<and>
        poly_at c 4 (\<i> ^ i) = qap_vector two_rows (two_values 3 9) 2 i) \<longrightarrow>
      (\<forall>x. poly_at a 4 x * poly_at b 4 x - poly_at c 4 x = poly_at h 4 x * (x ^ 4 - 1)))"
proof -
  have inst: "vl_num_instance (layout_from_program two_rows) = 2"
    by (simp add: program_layout layout_new_def Let_def program_vars_def two_rows_def)
  have rows: "qap_rows (program_source two_rows) = 4"
    by (simp add: qap_rows_def inst) (simp add: two_rows_def)
  obtain D where D: "with_size quarter_root 4 fft_config_default = Some D" "dom_n D = 4"
    using supported_domain [of 1 2 quarter_root \<i>] quarter_root_order by (auto simp: quarter_root_def)
  have "next_power_of_two 4 = 4" by (simp add: next_power_of_two_def ilog2.simps)
  then have df: "domain_for quarter_root (program_source two_rows) fft_config_default = Some D"
    by (simp add: domain_for_def domain_new_def rows D(1))
  have sat: "\<forall>r \<in> set (rp_constraints two_rows).
      lc_at (two_values (3 :: complex) 9) (rc_a r) * lc_at (two_values 3 9) (rc_b r) = lc_at (two_values 3 9) (rc_c r)"
    by (simp add: two_rows_def two_rows_values)
  show ?thesis
    using quotient_identity [OF two_rows_ok df, of \<i> 2 "two_values 3 9"] quarter_root_order sat
    unfolding D(2) by (auto simp: quarter_root_def)
qed

end
