(* ===== verification/Builder.thy ===== *)
theory Builder
  imports Prim_IR "HOL-Library.Monad_Syntax" "HOL-Library.Signed_Division"
begin

text \<open>
  The circuit builder (\<open>crates/frontend/src/builder.rs\<close>): variables, rows, the hint program and
  the rewrites it does on the way, which are reusing a repeated product and folding a product into
  the equality that follows it. The state is a record, an operation returns its result with the
  new state, a panic is \<open>None\<close>.

  Debug notes are off, as in a build that writes no \<^verbatim>\<open>r1cs.json\<close>. What only reports read is left
  out: the attribution of rows to source lines, call regions and recorded gadget calls.
\<close>

unbundle bit_operations_syntax

section \<open>Keys\<close>

text \<open>\<^verbatim>\<open>lc_hash\<close>: the content hash that keys the table of products.\<close>

definition hash_mix :: "u64 \<Rightarrow> u64 \<Rightarrow> u64" where
  "hash_mix h x = (word_rotl 5 h XOR x) * 0x517cc1b727220a95"

fun u64_digits :: "nat \<Rightarrow> u64 list" where
  "u64_digits n = (if n = 0 then [] else of_nat n # u64_digits (n div 2 ^ 64))"

declare u64_digits.simps [simp del]

definition hash_const :: "u64 \<Rightarrow> field_const \<Rightarrow> u64" where
  "hash_const h c = (case c of
      Small i \<Rightarrow> hash_mix h (ucast i)
    | Big v \<Rightarrow> foldl hash_mix (hash_mix h (0xb16 XOR (if v < 0 then 1 else 0))) (u64_digits (nat \<bar>v\<bar>)))"

definition lc_hash :: "lin_comb \<Rightarrow> u64" where
  "lc_hash lc =
    (let h = hash_const 0x1c5 (lc_const lc);
         h = hash_mix h (of_nat (length (lc_terms lc)));
         h = foldl (\<lambda>h t. hash_const (hash_mix h (ucast (t_var t))) (t_coeff t)) h (lc_terms lc);
         h = h XOR drop_bit 33 h;
         h = h * 0xff51afd7ed558ccd
     in h XOR drop_bit 33 h)"

definition canonical_lc_key :: "lin_comb \<Rightarrow> string \<times> (string \<times> var_id) list" where
  "canonical_lc_key lc =
    (let lc = simplified lc
     in (fc_decimal (lc_const lc), map (\<lambda>t. (fc_decimal (t_coeff t), t_var t)) (lc_terms lc)))"

section \<open>Recognizing bits\<close>

definition one_var :: "lin_comb \<Rightarrow> var_id option" where
  "one_var lc =
    (if fc_is_zero (lc_const lc) \<and> length (lc_terms lc) = 1 \<and> fc_is_one (t_coeff (lc_terms lc ! 0))
     then Some (t_var (lc_terms lc ! 0)) else None)"

definition booleanity_var :: "r1cs_constraint \<Rightarrow> var_id option" where
  "booleanity_var c = do {
     a \<leftarrow> one_var (rc_a c);
     b \<leftarrow> one_var (rc_b c);
     cc \<leftarrow> one_var (rc_c c);
     (if a = b \<and> b = cc then Some a else None)
   }"

fun pows_from :: "nat \<Rightarrow> field_const \<Rightarrow> field_const list" where
  "pows_from 0 p = []"
| "pows_from (Suc n) p = p # pows_from n (fc_mul p (fc_from_i64 2))"

definition first_index :: "('a \<Rightarrow> bool) \<Rightarrow> 'a list \<Rightarrow> nat option" where
  "first_index P xs = List.find (\<lambda>i. P (xs ! i)) [0..<length xs]"

fun fill_slots :: "field_const list \<Rightarrow> (var_id \<Rightarrow> bool) \<Rightarrow> lc_term list \<Rightarrow> var_id option list \<Rightarrow> var_id set \<Rightarrow>
    var_id option list option" where
  "fill_slots pows is_boolean [] slot seen = Some slot"
| "fill_slots pows is_boolean (t # ts) slot seen = do {
     i \<leftarrow> first_index (\<lambda>p. p = t_coeff t) pows;
     (if slot ! i \<noteq> None \<or> t_var t \<in> seen \<or> \<not> is_boolean (t_var t) then None
      else fill_slots pows is_boolean ts (slot[i := Some (t_var t)]) (insert (t_var t) seen))
   }"

definition bit_sum_match :: "lin_comb \<Rightarrow> nat \<Rightarrow> (var_id \<Rightarrow> bool) \<Rightarrow> var_id list option" where
  "bit_sum_match x n is_boolean =
    (if n = 0 \<or> \<not> fc_is_zero (lc_const x) \<or> length (lc_terms x) \<noteq> n then None
     else fill_slots (pows_from n fc_one) is_boolean (lc_terms x) (replicate n None) {} \<bind> those)"

definition pow2_fc :: "nat \<Rightarrow> field_const" where
  "pow2_fc n = ((\<lambda>p. fc_mul p (fc_from_i64 2)) ^^ n) (fc_from_i64 1)"

definition pow2_lc :: "('f, 'z) libs_scheme \<Rightarrow> nat \<Rightarrow> lin_comb" where
  "pow2_lc L n = lc_constant L (fc_decimal (pow2_fc n))"

section \<open>The state\<close>

text \<open>
  \<open>b_pending\<close> holds the products whose output may still be folded away, with the index of the row
  and of the slot in the hint program; \<open>b_merged\<close> those that were, with slot and row;
  \<open>b_deferred\<close> the slots of all products, with row and output.
\<close>

record builder =
  b_variables :: "variable list"
  b_var_names :: "string list"
  b_constraints :: "r1cs_constraint list"
  b_next_var :: var_id
  b_internal_counter :: u32
  b_advice_counter :: u32
  b_next_constraint :: u32
  b_pending :: "var_id \<Rightarrow> (nat \<times> nat) option"
  b_merged :: "(var_id, nat \<times> nat) btree"
  b_deferred :: "(nat \<times> nat \<times> var_id) list"
  b_witness :: "witness_op option list"
  b_computed :: "var_id \<Rightarrow> lin_comb list option"
  b_witness_only :: bool
  b_witness_only_vars :: "var_id set"
  b_boolean :: "var_id set"
  b_products :: "u64 \<times> u64 \<Rightarrow> (var_id \<times> nat) option"
  b_cse :: bool
  b_mat_threshold :: nat
  b_input_ids :: "var_id list"

text \<open>\<^verbatim>\<open>Builder::new\<close>, given the two settings read from the environment.\<close>

definition builder_new :: "bool \<Rightarrow> nat \<Rightarrow> builder" where
  "builder_new cse mat_threshold = \<lparr>b_variables = [], b_var_names = [], b_constraints = [], b_next_var = 0,
     b_internal_counter = 0, b_advice_counter = 0, b_next_constraint = 0, b_pending = Map.empty, b_merged = [],
     b_deferred = [], b_witness = [], b_computed = Map.empty, b_witness_only = False, b_witness_only_vars = {},
     b_boolean = {}, b_products = Map.empty, b_cse = cse, b_mat_threshold = mat_threshold, b_input_ids = []\<rparr>"

definition alloc_var :: "string \<Rightarrow> visibility \<Rightarrow> builder \<Rightarrow> var_id \<times> builder" where
  "alloc_var name vis b =
    (let id = b_next_var b in
     (id, b\<lparr>b_next_var := id + 1,
        b_variables := b_variables b @ [\<lparr>rv_id = id, rv_name = name, rv_visibility = vis\<rparr>],
        b_var_names := b_var_names b @ [name],
        b_witness_only_vars := (if b_witness_only b then insert id (b_witness_only_vars b) else b_witness_only_vars b)\<rparr>))"

definition alloc_internal :: "builder \<Rightarrow> var_id \<times> builder" where
  "alloc_internal b = alloc_var '''' Internal (b\<lparr>b_internal_counter := b_internal_counter b + 1\<rparr>)"

definition alloc_advice :: "builder \<Rightarrow> var_id \<times> builder" where
  "alloc_advice b = alloc_var '''' Private (b\<lparr>b_advice_counter := b_advice_counter b + 1\<rparr>)"

definition fresh_constraint_id :: "builder \<Rightarrow> u32 \<times> builder" where
  "fresh_constraint_id b = (b_next_constraint b, b\<lparr>b_next_constraint := b_next_constraint b + 1\<rparr>)"

definition push_constraint :: "r1cs_constraint \<Rightarrow> builder \<Rightarrow> builder" where
  "push_constraint c b =
    (if b_witness_only b then b
     else b\<lparr>b_boolean := (case booleanity_var c of Some v \<Rightarrow> insert v (b_boolean b) | None \<Rightarrow> b_boolean b),
            b_constraints := b_constraints b @ [c]\<rparr>)"

definition push_witness :: "witness_op option \<Rightarrow> builder \<Rightarrow> builder" where
  "push_witness w b = b\<lparr>b_witness := b_witness b @ [w]\<rparr>"

section \<open>Pending products\<close>

definition as_pending_var :: "lin_comb \<Rightarrow> builder \<Rightarrow> var_id option" where
  "as_pending_var lc b =
    (if fc_is_zero (lc_const lc) \<and> length (lc_terms lc) = 1 \<and> fc_is_one (t_coeff (lc_terms lc ! 0)) \<and>
       b_pending b (t_var (lc_terms lc ! 0)) \<noteq> None
     then Some (t_var (lc_terms lc ! 0)) else None)"

definition consume_pending_var :: "var_id \<Rightarrow> builder \<Rightarrow> builder" where
  "consume_pending_var v b = b\<lparr>b_pending := (b_pending b)(v := None)\<rparr>"

definition consume_pending :: "lin_comb \<Rightarrow> builder \<Rightarrow> builder" where
  "consume_pending lc b = (case as_pending_var lc b of Some v \<Rightarrow> consume_pending_var v b | None \<Rightarrow> b)"

definition is_witness_only_lc :: "lin_comb \<Rightarrow> builder \<Rightarrow> bool" where
  "is_witness_only_lc lc b \<longleftrightarrow> list_ex (\<lambda>t. t_var t \<in> b_witness_only_vars b) (lc_terms lc)"

text \<open>The row \<open>idx\<close> of the product with output \<open>v\<close> becomes \<open>a * b = target\<close>; its slot in the hint
  program stays empty.\<close>

definition merge_mul :: "var_id \<Rightarrow> lin_comb \<Rightarrow> builder \<Rightarrow> builder option" where
  "merge_mul v target b = do {
     (idx, wg_idx) \<leftarrow> b_pending b v;
     (if length (b_constraints b) \<le> idx then None
      else
        let target = simplified target;
            row = (b_constraints b ! idx)\<lparr>rc_c := target\<rparr>;
            boolean = (case booleanity_var row of Some u \<Rightarrow> insert u (b_boolean b) | None \<Rightarrow> b_boolean b);
            row = row\<lparr>rc_debug := map_option (\<lambda>d. d\<lparr>d_note := Some ''''\<rparr>) (rc_debug row)\<rparr>
        in Some (b\<lparr>b_pending := (b_pending b)(v := None), b_merged := bt_insert v (wg_idx, idx) (b_merged b),
             b_constraints := (b_constraints b)[idx := row], b_boolean := boolean\<rparr>))
   }"

section \<open>Multiplication\<close>

text \<open>A sum of more terms than the threshold gets a name of its own.\<close>

definition materialize :: "lin_comb \<Rightarrow> builder \<Rightarrow> lin_comb \<times> builder" where
  "materialize lc b =
    (if length (lc_terms lc) \<le> b_mat_threshold b then (lc, b)
     else
       let (v, b) = alloc_internal b;
           (id, b) = fresh_constraint_id b;
           b = push_witness (Some (Linear v lc)) b;
           b = push_constraint (rc_equal id lc (lc_var v) '''') b
       in (lc_var v, b))"

definition is_boolean_lc :: "lin_comb \<Rightarrow> builder \<Rightarrow> bool" where
  "is_boolean_lc lc b =
    (case lc_terms lc of
       [] \<Rightarrow> fc_is_zero (lc_const lc) \<or> fc_is_one (lc_const lc)
     | [t] \<Rightarrow> t_var t \<in> b_boolean b \<and>
         (fc_is_zero (lc_const lc) \<and> fc_is_one (t_coeff t) \<or> fc_is_one (lc_const lc) \<and> fc_is_neg_one (t_coeff t))
     | ts \<Rightarrow> (case b_computed b (t_var (last ts)) of
           None \<Rightarrow> False
         | Some bits \<Rightarrow> lc_is_zero (lc_sub lc (bits ! 0)) \<or>
             lc_is_zero (lc_sub (lc_add lc (bits ! 0)) lc_one)))"

definition product_key :: "lin_comb \<Rightarrow> lin_comb \<Rightarrow> builder \<Rightarrow> (u64 \<times> u64) option" where
  "product_key lhs rhs b =
    (if \<not> b_witness_only b \<and> b_cse b
     then (let x = lc_hash lhs; y = lc_hash rhs in Some (min x y, max x y)) else None)"

text \<open>The output of an earlier row that is literally this product and may be read; indexing the rows
  out of range is a panic.\<close>

definition reusable :: "lin_comb \<Rightarrow> lin_comb \<Rightarrow> var_id \<Rightarrow> r1cs_constraint \<Rightarrow> builder \<Rightarrow> bool" where
  "reusable lhs rhs out c b \<longleftrightarrow>
    b_pending b out = None \<and> bt_get (b_merged b) out = None \<and>
    (rc_a c = lhs \<and> rc_b c = rhs \<or> rc_a c = rhs \<and> rc_b c = lhs) \<and> rc_c c = lc_var out"

definition reuse_product :: "lin_comb \<Rightarrow> lin_comb \<Rightarrow> builder \<Rightarrow> var_id option option" where
  "reuse_product lhs rhs b =
    (case Option.bind (product_key lhs rhs b) (b_products b) of
       None \<Rightarrow> Some None
     | Some (out, c_idx) \<Rightarrow>
         if length (b_constraints b) \<le> c_idx then None
         else Some (if reusable lhs rhs out (b_constraints b ! c_idx) b then Some out else None))"

definition emit_product :: "lin_comb \<Rightarrow> lin_comb \<Rightarrow> builder \<Rightarrow> var_id \<times> builder" where
  "emit_product lhs rhs b =
    (let key = product_key lhs rhs b; (out, b) = alloc_internal b in
     if b_witness_only b then (out, push_witness (Some (Product out lhs rhs)) b)
     else
       let both_bool = is_boolean_lc lhs b \<and> is_boolean_lc rhs b;
           (id, b) = fresh_constraint_id b;
           b = push_constraint (rc_mul id lhs rhs out '''') b;
           c_idx = length (b_constraints b) - 1;
           b = (if both_bool then b\<lparr>b_boolean := insert out (b_boolean b)\<rparr> else b);
           b = push_witness None b;
           wg_idx = length (b_witness b) - 1;
           b = b\<lparr>b_deferred := b_deferred b @ [(wg_idx, c_idx, out)]\<rparr>;
           b = (case key of Some k \<Rightarrow> b\<lparr>b_products := (b_products b)(k \<mapsto> (out, c_idx))\<rparr> | None \<Rightarrow> b)
       in (out, b\<lparr>b_pending := (b_pending b)(out \<mapsto> (c_idx, wg_idx))\<rparr>))"

definition emit_mul_var :: "lin_comb \<Rightarrow> lin_comb \<Rightarrow> builder \<Rightarrow> (var_id \<times> builder) option" where
  "emit_mul_var lhs rhs b =
    (let (lhs, b) = materialize lhs b; (rhs, b) = materialize rhs b in do {
       reused \<leftarrow> reuse_product lhs rhs b;
       Some (case reused of Some out \<Rightarrow> (out, b) | None \<Rightarrow> emit_product lhs rhs b)
     })"

definition emit_mul :: "lin_comb \<Rightarrow> lin_comb \<Rightarrow> builder \<Rightarrow> (lin_comb \<times> builder) option" where
  "emit_mul lhs rhs b = map_option (\<lambda>(v, b). (lc_var v, b)) (emit_mul_var lhs rhs b)"

text \<open>Squaring and multiplying; the loop's \<^verbatim>\<open>u64\<close> counter only shrinks.\<close>

function pow_loop :: "lin_comb option \<Rightarrow> lin_comb \<Rightarrow> nat \<Rightarrow> builder \<Rightarrow> (lin_comb option \<times> builder) option" where
  "pow_loop res base e b =
    (if e = 0 then Some (res, b)
     else do {
       (res, b) \<leftarrow>
         (if odd e then
            (case res of
               None \<Rightarrow> Some (Some base, b)
             | Some r \<Rightarrow> map_option (\<lambda>(r, b). (Some r, b)) (emit_mul r base (consume_pending base (consume_pending r b))))
          else Some (res, b));
       (if 0 < e div 2 then do {
          (base, b) \<leftarrow> emit_mul base base (consume_pending base b);
          pow_loop res base (e div 2) b
        }
        else Some (res, b))
     })"
  by pat_completeness auto
termination by (relation "measure (\<lambda>(res, base, e, b). e)") auto

declare pow_loop.simps [simp del]

definition emit_pow :: "lin_comb \<Rightarrow> u64 \<Rightarrow> builder \<Rightarrow> (lin_comb \<times> builder) option" where
  "emit_pow base n b =
    (if n = 0 then Some (lc_one, b)
     else if n = 1 then Some (base, b)
     else if n = 2 then emit_mul base base b
     else if n = 3 then do {
       (sq, b) \<leftarrow> emit_mul base base b;
       emit_mul sq base (consume_pending sq b)
     }
     else do {
       (res, b) \<leftarrow> pow_loop None base (unat n) b;
       map_option (\<lambda>r. (r, b)) res
     })"

section \<open>Boolean gates\<close>

definition mark_gate :: "lin_comb \<Rightarrow> lin_comb \<Rightarrow> var_id \<Rightarrow> builder \<Rightarrow> builder" where
  "mark_gate x y c b =
    (if \<not> b_witness_only b \<and> is_boolean_lc x b \<and> is_boolean_lc y b
     then b\<lparr>b_boolean := insert c (b_boolean b)\<rparr> else b)"

definition emit_xor :: "lin_comb \<Rightarrow> lin_comb \<Rightarrow> builder \<Rightarrow> lin_comb \<times> builder" where
  "emit_xor x y b =
    (let b = consume_pending y (consume_pending x b);
         (c, b) = alloc_internal b;
         (id, b) = fresh_constraint_id b;
         x2 = lc_scale x (fc_from_i64 2);
         c_side = lc_sub (lc_add x y) (lc_var c);
         b = push_constraint (rc_general id x2 y c_side '''') b;
         b = push_witness (Some (Xor c x y)) b
     in (lc_var c, mark_gate x y c b))"

definition emit_or :: "lin_comb \<Rightarrow> lin_comb \<Rightarrow> builder \<Rightarrow> lin_comb \<times> builder" where
  "emit_or x y b =
    (let b = consume_pending y (consume_pending x b);
         (c, b) = alloc_internal b;
         (id, b) = fresh_constraint_id b;
         c_side = lc_sub (lc_add x y) (lc_var c);
         b = push_constraint (rc_general id x y c_side '''') b;
         b = push_witness (Some (Or c x y)) b
     in (lc_var c, mark_gate x y c b))"

section \<open>Equalities\<close>

definition emit_require_eq :: "lin_comb \<Rightarrow> lin_comb \<Rightarrow> builder \<Rightarrow> builder option" where
  "emit_require_eq lhs rhs b =
    (if b_witness_only b then Some b
     else case (if is_witness_only_lc rhs b then None else as_pending_var lhs b) of
       Some v \<Rightarrow> merge_mul v rhs b
     | None \<Rightarrow> (case (if is_witness_only_lc lhs b then None else as_pending_var rhs b) of
         Some v \<Rightarrow> merge_mul v lhs b
       | None \<Rightarrow>
           let diff = lc_sub lhs rhs in
           if lc_is_zero diff then Some b
           else
             let (id, b) = fresh_constraint_id b
             in Some (push_constraint (rc_equal id diff lc_zero '''') b)))"

definition emit_require_eq_gated :: "lin_comb \<Rightarrow> lin_comb \<Rightarrow> lin_comb \<Rightarrow> builder \<Rightarrow> builder" where
  "emit_require_eq_gated g lhs rhs b =
    (let b = consume_pending g (consume_pending rhs (consume_pending lhs b));
         diff = lc_sub lhs rhs
     in if lc_is_constant diff \<and> fc_is_zero (lc_const diff) then b
        else
          let (id, b) = fresh_constraint_id b
          in push_constraint (rc_general id g diff lc_zero '''') b)"

definition gate_input :: "lin_comb option \<Rightarrow> lin_comb \<Rightarrow> builder \<Rightarrow> (lin_comb \<times> builder) option" where
  "gate_input g x b =
    (case g of
       None \<Rightarrow> Some (x, b)
     | Some g \<Rightarrow>
         if lc_is_constant x \<and> fc_is_zero (lc_const x) then Some (x, b)
         else emit_mul g x (consume_pending g (consume_pending x b)))"

definition pin_dead_to :: "('f, 'z) libs_scheme \<Rightarrow> lin_comb option \<Rightarrow> var_id \<Rightarrow> i64 \<Rightarrow> builder \<Rightarrow> builder" where
  "pin_dead_to L g v val b =
    (case g of
       None \<Rightarrow> b
     | Some g \<Rightarrow> emit_require_eq_gated (lc_sub lc_one g) (lc_var v) (lc_constant L (show_int (sint val))) b)"

definition pin_dead :: "('f, 'z) libs_scheme \<Rightarrow> lin_comb option \<Rightarrow> var_id \<Rightarrow> builder \<Rightarrow> builder" where
  "pin_dead L g v b = pin_dead_to L g v 0 b"

section \<open>Bit decomposition\<close>

fun alloc_advices :: "nat \<Rightarrow> builder \<Rightarrow> var_id list \<times> builder" where
  "alloc_advices 0 b = ([], b)"
| "alloc_advices (Suc n) b = (let (v, b) = alloc_advice b; (vs, b) = alloc_advices n b in (v # vs, b))"

text \<open>The hinted bits from index \<open>i\<close> on: each is pinned boolean and added to the sum with its power.\<close>

fun emit_high_bits :: "lin_comb \<Rightarrow> nat \<Rightarrow> var_id list \<Rightarrow> lin_comb \<Rightarrow> field_const \<Rightarrow> builder \<Rightarrow> lin_comb \<times> builder" where
  "emit_high_bits val i [] acc pow b = (acc, b)"
| "emit_high_bits val i (v # high) acc pow b =
    (let b = push_witness (Some (Bit v val (of_nat i + 1))) b;
         (id, b) = fresh_constraint_id b;
         b = push_constraint (rc_general id (lc_var v) (lc_var v) (lc_var v) '''') b;
         pow = fc_mul pow (fc_from_i64 2);
         acc = lc_add acc (lc_scale (lc_var v) pow)
     in emit_high_bits val (i + 1) high acc pow b)"

definition note_bits :: "var_id list \<Rightarrow> lin_comb list \<Rightarrow> builder \<Rightarrow> builder" where
  "note_bits high bits b =
    (if b_witness_only b then b
     else if high \<noteq> [] then b\<lparr>b_computed := (b_computed b)(last high \<mapsto> bits)\<rparr>
     else (case one_var (bits ! 0) of Some v \<Rightarrow> b\<lparr>b_boolean := insert v (b_boolean b)\<rparr> | None \<Rightarrow> b))"

definition decompose_bits_gated ::
    "lin_comb \<Rightarrow> nat \<Rightarrow> lin_comb option \<Rightarrow> builder \<Rightarrow> (lin_comb list \<times> builder) option" where
  "decompose_bits_gated val n gate b =
    (if 253 < n then None
     else do {
       (val, b) \<leftarrow> gate_input gate val b;
       Some (if n = 0 then
         (let (id, b) = fresh_constraint_id b
          in ([], push_constraint (rc_equal id val lc_zero '''') b))
       else
         let (high, b) = alloc_advices (n - 1) b;
             (acc, b) = emit_high_bits val 0 high lc_zero fc_one b;
             low = lc_sub val acc;
             (id, b) = fresh_constraint_id b;
             b = push_constraint (rc_general id low (lc_sub low lc_one) lc_zero '''') b;
             bits = low # map lc_var high
         in (bits, note_bits high bits b))
     })"

definition decompose_bits :: "lin_comb \<Rightarrow> nat \<Rightarrow> builder \<Rightarrow> (lin_comb list \<times> builder) option" where
  "decompose_bits val n b = decompose_bits_gated val n None b"

definition emit_range_proof_lc :: "lin_comb \<Rightarrow> nat \<Rightarrow> builder \<Rightarrow> builder option" where
  "emit_range_proof_lc val n b = map_option snd (decompose_bits val n b)"

text \<open>The sum \<open>\<Sum>i<n. 2 ^ i * bit i\<close> of known bits.\<close>

definition low_sum :: "lin_comb list \<Rightarrow> lin_comb" where
  "low_sum bits =
    fst (foldl (\<lambda>(low, pow) x. (lc_add low (lc_scale x pow), fc_mul pow (fc_from_i64 2))) (lc_zero, fc_one) bits)"

definition bit_sum_shortcut :: "lin_comb \<Rightarrow> nat \<Rightarrow> builder \<Rightarrow> lin_comb list option" where
  "bit_sum_shortcut x n b =
    (case bit_sum_match x n (\<lambda>v. v \<in> b_boolean b) of
       Some vars \<Rightarrow> Some (map lc_var vars)
     | None \<Rightarrow>
         if lc_terms x = [] then None
         else do {
           bits \<leftarrow> b_computed b (t_var (last (lc_terms x)));
           (if length bits < n then None
            else if lc_is_zero (lc_sub x (low_sum (take n bits))) then Some (take n bits) else None)
         })"

text \<open>\<^verbatim>\<open>i64\<close>'s \<^verbatim>\<open>%\<close> and \<^verbatim>\<open>/\<close> truncate; a zero divisor or \<open>MIN / -1\<close> is a panic. The first term, from
  the last, that splits.\<close>

definition split_at_term :: "lin_comb \<Rightarrow> builder \<Rightarrow> lc_term \<Rightarrow> (i64 \<times> lin_comb) option option" where
  "split_at_term lc b t =
    (case b_computed b (t_var t) of None \<Rightarrow> Some None
     | Some bits \<Rightarrow>
         let b0 = bits ! 0 in
         if lc_terms b0 = [] then Some None
         else (case (fc_as_i64 (t_coeff (last (lc_terms b0))), fc_as_i64 (t_coeff t)) of
             (Some tp, Some coeff) \<Rightarrow>
               if tp = 0 \<or> sint tp = - 1 \<and> sint coeff = - (2 ^ 63) then None
               else if sint coeff smod sint tp \<noteq> 0 then Some None
               else let c = word_of_int (sint coeff sdiv sint tp) in
                 if sint c \<le> 0 then Some None
                 else Some (Some (c, lc_sub lc (lc_scale b0 (fc_from_i64 c))))
           | _ \<Rightarrow> Some None))"

fun first_split :: "lin_comb \<Rightarrow> builder \<Rightarrow> lc_term list \<Rightarrow> (i64 \<times> lin_comb) option option" where
  "first_split lc b [] = Some None"
| "first_split lc b (t # ts) = do {
     r \<leftarrow> split_at_term lc b t;
     (case r of Some x \<Rightarrow> Some (Some x) | None \<Rightarrow> first_split lc b ts)
   }"

definition split_computed_bit0 :: "lin_comb \<Rightarrow> builder \<Rightarrow> (i64 \<times> lin_comb) option option" where
  "split_computed_bit0 lc b = first_split lc b (rev (lc_terms lc))"

section \<open>Tests and wrapping arithmetic\<close>

definition emit_is_zero :: "lin_comb \<Rightarrow> builder \<Rightarrow> (lin_comb \<times> builder) option" where
  "emit_is_zero input b =
    (let (inv, b) = alloc_advice b;
         b = push_witness (Some (InverseOrZero inv input)) b
     in do {
       (prod, b) \<leftarrow> emit_mul input (lc_var inv) b;
       let out = lc_sub lc_one prod;
       (input_out, b) \<leftarrow> emit_mul input out b;
       b \<leftarrow> emit_require_eq input_out lc_zero b;
       let b = consume_pending out b;
       (inv_out, b) \<leftarrow> emit_mul (lc_var inv) out b;
       b \<leftarrow> emit_require_eq inv_out lc_zero b;
       Some (out, b)
     })"

datatype compile_error = Comparison_too_wide

definition emit_less_than_gated :: "('f, 'z) libs_scheme \<Rightarrow> nat \<Rightarrow> lin_comb \<Rightarrow> lin_comb \<Rightarrow> lin_comb option \<Rightarrow> builder \<Rightarrow>
    (compile_error + lin_comb \<times> builder) option" where
  "emit_less_than_gated L n x y gate b =
    (if 252 < n then Some (Inl Comparison_too_wide)
     else
       let two_pow_n = pow2_lc L n;
           diff_plus = lc_add (lc_sub x y) two_pow_n
       in do {
         (diff_plus, b) \<leftarrow> gate_input gate diff_plus b;
         let (tp, b) = alloc_advice b;
         let b = push_witness (Some (Bit tp diff_plus (of_nat n))) b;
         let (id, b) = fresh_constraint_id b;
         let b = push_constraint (rc_general id (lc_var tp) (lc_var tp) (lc_var tp) '''') b;
         let b = pin_dead L gate tp b;
         let lt = lc_sub lc_one (lc_var tp);
         (lt_pow, b) \<leftarrow> emit_mul lt two_pow_n b;
         let r = lc_add (lc_sub x y) lt_pow;
         (bits, b) \<leftarrow> decompose_bits_gated r n gate b;
         Some (Inr (lt, b))
       })"

definition emit_less_than :: "('f, 'z) libs_scheme \<Rightarrow> nat \<Rightarrow> lin_comb \<Rightarrow> lin_comb \<Rightarrow> builder \<Rightarrow>
    (compile_error + lin_comb \<times> builder) option" where
  "emit_less_than L n x y b = emit_less_than_gated L n x y None b"

definition emit_booleanity :: "var_id \<Rightarrow> string \<Rightarrow> builder \<Rightarrow> builder" where
  "emit_booleanity v note b =
    (let (id, b) = fresh_constraint_id b;
         b = push_constraint (rc_general id (lc_var v) (lc_var v) (lc_var v) note) b
     in if b_witness_only b then b else b\<lparr>b_boolean := insert v (b_boolean b)\<rparr>)"

text \<open>The note is a literal of the code; its membership sign is three bytes.\<close>

definition wrap_note :: string where
  "wrap_note = ''wrap-sub !borrow '' @ [CHR 0xE2, CHR 0x88, CHR 0x88] @ '' {0,1}''"

definition emit_wrapping_sub :: "('f, 'z) libs_scheme \<Rightarrow> nat \<Rightarrow> lin_comb \<Rightarrow> lin_comb \<Rightarrow> builder \<Rightarrow>
    (lin_comb \<times> builder) option" where
  "emit_wrapping_sub L n x y b =
    (let shifted = lc_add (lc_sub x y) (pow2_lc L n);
         (ge, b) = alloc_advice b;
         b = push_witness (Some (Bit ge shifted (of_nat n))) b;
         b = emit_booleanity ge wrap_note b;
         borrow = lc_sub lc_one (lc_var ge);
         res = lc_add (lc_sub x y) (lc_scale borrow (pow2_fc n))
     in map_option (\<lambda>b. (res, b)) (emit_range_proof_lc res n b))"

section \<open>Filling in the products\<close>

fun fill_product :: "r1cs_constraint list \<Rightarrow> (var_id, nat \<times> nat) btree \<Rightarrow> nat \<times> nat \<times> var_id \<Rightarrow>
    witness_op option list \<Rightarrow> witness_op option list option" where
  "fill_product cs merged (wg_idx, c_idx, out) ws =
    (if bt_get merged out \<noteq> None then Some ws
     else if length ws \<le> wg_idx \<or> length cs \<le> c_idx then None
     else Some (ws[wg_idx := Some (Product out (rc_a (cs ! c_idx)) (rc_b (cs ! c_idx)))]))"

fun fill_all :: "r1cs_constraint list \<Rightarrow> (var_id, nat \<times> nat) btree \<Rightarrow> (nat \<times> nat \<times> var_id) list \<Rightarrow>
    witness_op option list \<Rightarrow> witness_op option list option" where
  "fill_all cs merged [] ws = Some ws"
| "fill_all cs merged (d # ds) ws = fill_product cs merged d ws \<bind> fill_all cs merged ds"

definition fill_products :: "builder \<Rightarrow> builder option" where
  "fill_products b =
    map_option (\<lambda>ws. b\<lparr>b_deferred := [], b_witness := ws\<rparr>)
      (fill_all (b_constraints b) (b_merged b) (b_deferred b) (b_witness b))"

end
