(* ===== verification/Builder_Sem.thy ===== *)
theory Builder_Sem
  imports Builder
begin

text \<open>
  What the rows of a builder say. An assignment satisfies a state when every row holds modulo the
  field's prime and every folded product still has the value of its row's two sides (the row that
  says so is written back at the end if anything reads it). The invariant says that what the
  builder remembers is true: pending products are defined by their row, variables it calls boolean
  are. A step relates two states: it adds variables and narrows the satisfying assignments by
  exactly its condition.
\<close>

section \<open>Satisfying assignments\<close>

type_synonym assignment = "var_id \<Rightarrow> int"

definition row_holds :: "nat \<Rightarrow> assignment \<Rightarrow> r1cs_constraint \<Rightarrow> bool" where
  "row_holds p \<sigma> c \<longleftrightarrow> int p dvd lc_val \<sigma> (rc_a c) * lc_val \<sigma> (rc_b c) - lc_val \<sigma> (rc_c c)"

definition row_product :: "assignment \<Rightarrow> r1cs_constraint \<Rightarrow> int" where
  "row_product \<sigma> c = lc_val \<sigma> (rc_a c) * lc_val \<sigma> (rc_b c)"

definition bsem :: "nat \<Rightarrow> builder \<Rightarrow> assignment \<Rightarrow> bool" where
  "bsem p b \<sigma> \<longleftrightarrow> (\<forall>c \<in> set (b_constraints b). row_holds p \<sigma> c) \<and>
    (\<forall>v w i. bt_get (b_merged b) v = Some (w, i) \<longrightarrow> int p dvd \<sigma> v - row_product \<sigma> (b_constraints b ! i))"

definition is_bit :: "nat \<Rightarrow> int \<Rightarrow> bool" where
  "is_bit p x \<longleftrightarrow> int p dvd x * (x - 1)"

abbreviation nv :: "builder \<Rightarrow> nat" where
  "nv b \<equiv> length (b_variables b)"

definition lc_below :: "nat \<Rightarrow> lin_comb \<Rightarrow> bool" where
  "lc_below n lc \<longleftrightarrow> (\<forall>t \<in> set (lc_terms lc). unat (t_var t) < n)"

definition row_below :: "nat \<Rightarrow> r1cs_constraint \<Rightarrow> bool" where
  "row_below n c \<longleftrightarrow> lc_below n (rc_a c) \<and> lc_below n (rc_b c) \<and> lc_below n (rc_c c)"

definition eq_below :: "nat \<Rightarrow> assignment \<Rightarrow> assignment \<Rightarrow> bool" where
  "eq_below n \<sigma> \<sigma>' \<longleftrightarrow> (\<forall>v. unat v < n \<longrightarrow> \<sigma> v = \<sigma>' v)"

named_theorems below_intros

lemma eq_below_refl [simp]: "eq_below n \<sigma> \<sigma>"
  by (simp add: eq_below_def)

lemma eq_below_trans: "eq_below n \<sigma> \<sigma>' \<Longrightarrow> eq_below n' \<sigma>' \<sigma>'' \<Longrightarrow> n \<le> n' \<Longrightarrow> eq_below n \<sigma> \<sigma>''"
  unfolding eq_below_def by (metis less_le_trans)

lemma eq_below_sym: "eq_below n \<sigma> \<sigma>' \<Longrightarrow> eq_below n \<sigma>' \<sigma>"
  by (simp add: eq_below_def)

lemma eq_below_upd: "n \<le> unat v \<Longrightarrow> eq_below n \<sigma> (\<sigma>(v := x))"
  by (auto simp: eq_below_def)

lemma lc_below_mono: "lc_below n lc \<Longrightarrow> n \<le> m \<Longrightarrow> lc_below m lc"
  unfolding lc_below_def by (meson less_le_trans)

lemma row_below_mono: "row_below n c \<Longrightarrow> n \<le> m \<Longrightarrow> row_below m c"
  unfolding row_below_def by (meson lc_below_mono)

lemma lc_val_eq_below: "eq_below n \<sigma> \<sigma>' \<Longrightarrow> lc_below n lc \<Longrightarrow> lc_val \<sigma> lc = lc_val \<sigma>' lc"
  unfolding lc_val_def eq_below_def lc_below_def by (simp cong: terms_val_cong)

lemma row_holds_eq_below: "eq_below n \<sigma> \<sigma>' \<Longrightarrow> row_below n c \<Longrightarrow> row_holds p \<sigma> c = row_holds p \<sigma>' c"
  by (simp add: row_holds_def row_below_def lc_val_eq_below [of n \<sigma> \<sigma>'])

lemma row_product_eq_below: "eq_below n \<sigma> \<sigma>' \<Longrightarrow> row_below n c \<Longrightarrow> row_product \<sigma> c = row_product \<sigma>' c"
  by (simp add: row_product_def row_below_def lc_val_eq_below [of n \<sigma> \<sigma>'])

lemma lc_below_basic [simp]:
  "lc_below n lc_zero" "lc_below n lc_one" "lc_below n (lc_var v) \<longleftrightarrow> unat v < n" "lc_below n (lc_constant L s)"
  "lc_below n \<lparr>lc_const = c, lc_terms = []\<rparr>"
  by (simp_all add: lc_below_def lc_zero_def lc_one_def lc_var_def lc_constant_def)

text \<open>Operations on combinations read no new variables.\<close>

lemma merge_into_last_vars: "t_var ` set (merge_into_last ts t) \<subseteq> insert (t_var t) (t_var ` set ts)"
  by (cases ts) auto

lemma foldl_merge_vars: "t_var ` set (foldl merge_into_last acc ts) \<subseteq> t_var ` set acc \<union> t_var ` set ts"
proof (induction ts arbitrary: acc)
  case (Cons t ts)
  show ?case using Cons.IH [of "merge_into_last acc t"] merge_into_last_vars [of acc t] by auto
qed simp

lemma simplified_vars: "t_var ` set (lc_terms (simplified lc)) \<subseteq> t_var ` set (lc_terms lc)"
  using foldl_merge_vars [of "[]" "sort_key t_var (lc_terms lc)"] by (auto simp: simplified_def Let_def)

lemma lc_below_vars: "lc_below n lc \<longleftrightarrow> (\<forall>v \<in> t_var ` set (lc_terms lc). unat v < n)"
  by (simp add: lc_below_def)

lemma lc_below_simplified [below_intros]: "lc_below n lc \<Longrightarrow> lc_below n (simplified lc)"
  unfolding lc_below_vars using simplified_vars [of lc] by blast

lemma lc_add_vars:
  "t_var ` set (lc_terms (lc_add x y)) \<subseteq> t_var ` set (lc_terms x) \<union> t_var ` set (lc_terms y)" (is "?l \<subseteq> ?r")
proof -
  let ?c = "\<lparr>lc_const = fc_add (lc_const x) (lc_const y), lc_terms = lc_terms x @ lc_terms y\<rparr>"
  have "t_var ` set (lc_terms (simplified ?c)) \<subseteq> ?r" using simplified_vars [of ?c] by (simp add: image_Un)
  then show ?thesis using merge_terms_vars [of "lc_terms x" "lc_terms y"]
    unfolding lc_add_def Let_def by (simp add: image_Un split del: if_split) (simp add: image_Un split: if_split)
qed

lemma lc_below_add [below_intros]: "lc_below n x \<Longrightarrow> lc_below n y \<Longrightarrow> lc_below n (lc_add x y)"
  unfolding lc_below_vars using lc_add_vars [of x y] by (metis (no_types) Un_iff subsetD)

lemma lc_below_neg [below_intros]: "lc_below n x \<Longrightarrow> lc_below n (lc_neg x)"
  by (simp add: lc_below_def lc_neg_def)

lemma lc_below_sub [below_intros]: "lc_below n x \<Longrightarrow> lc_below n y \<Longrightarrow> lc_below n (lc_sub x y)"
  by (simp add: lc_sub_def lc_below_add lc_below_neg)

lemma lc_below_scale [below_intros]: "lc_below n x \<Longrightarrow> lc_below n (lc_scale x k)"
  unfolding lc_scale_def by (rule lc_below_simplified) (simp add: lc_below_def)

lemma row_below_simps [simp]:
  "row_below n (rc_general i x y z s) \<longleftrightarrow> lc_below n x \<and> lc_below n y \<and> lc_below n z"
  "row_below n (rc_mul i x y v s) \<longleftrightarrow> lc_below n x \<and> lc_below n y \<and> unat v < n"
  "row_below n (rc_equal i x y s) \<longleftrightarrow> lc_below n (lc_sub x y)"
  by (simp_all add: row_below_def rc_general_def rc_mul_def rc_equal_def)

lemma row_holds_simps [simp]:
  "row_holds p \<sigma> (rc_general i x y z s) \<longleftrightarrow> int p dvd lc_val \<sigma> x * lc_val \<sigma> y - lc_val \<sigma> z"
  "row_holds p \<sigma> (rc_mul i x y v s) \<longleftrightarrow> int p dvd lc_val \<sigma> x * lc_val \<sigma> y - \<sigma> v"
  "row_holds p \<sigma> (rc_equal i x y s) \<longleftrightarrow> int p dvd lc_val \<sigma> x - lc_val \<sigma> y"
  by (simp_all add: row_holds_def rc_general_def rc_mul_def rc_equal_def lc_zero_def [symmetric])

section \<open>Bits\<close>

lemma is_bit_cong: "int p dvd x - y \<Longrightarrow> is_bit p x \<longleftrightarrow> is_bit p y"
proof -
  assume "int p dvd x - y"
  then have "int p dvd (x - y) * (x + y - 1)" by (rule dvd_mult2)
  then have "int p dvd x * (x - 1) - y * (y - 1)" by (simp add: algebra_simps)
  then show ?thesis unfolding is_bit_def by (metis dvd_diffD dvd_diffD1 dvd_add_right_iff diff_add_cancel)
qed

lemma is_bit_0_1 [simp]: "is_bit p 0" "is_bit p 1"
  by (simp_all add: is_bit_def)

lemma is_bit_mult: "is_bit p x \<Longrightarrow> is_bit p y \<Longrightarrow> is_bit p (x * y)"
proof -
  assume "is_bit p x" "is_bit p y"
  then have "int p dvd y * y * (x * (x - 1)) + x * (y * (y - 1))"
    unfolding is_bit_def by (rule dvd_add [OF dvd_mult dvd_mult])
  then show ?thesis by (simp add: is_bit_def algebra_simps)
qed

lemma is_bit_not [simp]: "is_bit p (1 - x) \<longleftrightarrow> is_bit p x"
  by (simp add: is_bit_def algebra_simps)

lemma is_bit_xor: "is_bit p x \<Longrightarrow> is_bit p y \<Longrightarrow> is_bit p (x + y - 2 * x * y)"
proof -
  assume "is_bit p x" "is_bit p y"
  then have "int p dvd (1 - 2 * y) * (1 - 2 * y) * (x * (x - 1)) + y * (y - 1)"
    unfolding is_bit_def by (rule dvd_add [OF dvd_mult])
  then show ?thesis by (simp add: is_bit_def algebra_simps)
qed

lemma is_bit_or: "is_bit p x \<Longrightarrow> is_bit p y \<Longrightarrow> is_bit p (x + y - x * y)"
proof -
  assume "is_bit p x" "is_bit p y"
  then have "is_bit p (1 - (1 - x) * (1 - y))" by (simp add: is_bit_mult)
  moreover have "1 - (1 - x) * (1 - y) = x + y - x * y" by (simp add: algebra_simps)
  ultimately show ?thesis by simp
qed

lemma is_bit_cases: "nat_prime p \<Longrightarrow> is_bit p x \<Longrightarrow> int p dvd x \<or> int p dvd x - 1"
  by (simp add: is_bit_def int_prime_dvd_mult)

section \<open>The invariant\<close>

definition pending_ok :: "builder \<Rightarrow> bool" where
  "pending_ok b \<longleftrightarrow> (\<forall>v ci wi. b_pending b v = Some (ci, wi) \<longrightarrow>
    unat v < nv b \<and> ci < length (b_constraints b) \<and> rc_c (b_constraints b ! ci) = lc_var v \<and> bt_get (b_merged b) v = None)"

definition merged_ok :: "builder \<Rightarrow> bool" where
  "merged_ok b \<longleftrightarrow> bt_invar (b_merged b) \<and>
    (\<forall>v wi ci. bt_get (b_merged b) v = Some (wi, ci) \<longrightarrow> unat v < nv b \<and> ci < length (b_constraints b))"

definition boolean_ok :: "nat \<Rightarrow> builder \<Rightarrow> bool" where
  "boolean_ok p b \<longleftrightarrow> (\<forall>v \<in> b_boolean b. unat v < nv b \<and> (\<forall>\<sigma>. bsem p b \<sigma> \<longrightarrow> is_bit p (\<sigma> v)))"

definition computed_ok :: "nat \<Rightarrow> builder \<Rightarrow> bool" where
  "computed_ok p b \<longleftrightarrow> (\<forall>v bits. b_computed b v = Some bits \<longrightarrow> bits \<noteq> [] \<and>
    (\<forall>x \<in> set bits. lc_below (nv b) x \<and> (\<forall>\<sigma>. bsem p b \<sigma> \<longrightarrow> is_bit p (lc_val \<sigma> x))))"

definition binv :: "nat \<Rightarrow> builder \<Rightarrow> bool" where
  "binv p b \<longleftrightarrow> b_next_var b = of_nat (nv b) \<and> nv b \<le> 2 ^ 32 \<and> (\<forall>c \<in> set (b_constraints b). row_below (nv b) c) \<and>
    (\<forall>k out ci. b_products b k = Some (out, ci) \<longrightarrow> ci < length (b_constraints b)) \<and>
    pending_ok b \<and> merged_ok b \<and> boolean_ok p b \<and> computed_ok p b"

lemma binvI:
  assumes "b_next_var b = of_nat (nv b)" "nv b \<le> 2 ^ 32" "\<And>c. c \<in> set (b_constraints b) \<Longrightarrow> row_below (nv b) c"
    "\<And>k out ci. b_products b k = Some (out, ci) \<Longrightarrow> ci < length (b_constraints b)"
    "pending_ok b" "merged_ok b" "boolean_ok p b" "computed_ok p b"
  shows "binv p b"
  using assms by (simp add: binv_def)

lemma binvD:
  assumes "binv p b"
  shows "b_next_var b = of_nat (nv b)" "nv b \<le> 2 ^ 32" "c \<in> set (b_constraints b) \<Longrightarrow> row_below (nv b) c"
    "b_products b k = Some (out, ci) \<Longrightarrow> ci < length (b_constraints b)"
    "pending_ok b" "merged_ok b" "boolean_ok p b" "computed_ok p b"
  using assms unfolding binv_def by blast+

lemma bsem_eq_below:
  assumes inv: "binv p b" and e: "eq_below (nv b) \<sigma> \<sigma>'"
  shows "bsem p b \<sigma> \<longleftrightarrow> bsem p b \<sigma>'"
proof -
  have "row_product \<sigma> (b_constraints b ! i) = row_product \<sigma>' (b_constraints b ! i) \<and> \<sigma> u = \<sigma>' u"
    if "bt_get (b_merged b) u = Some (w, i)" for u w i
  proof -
    have m: "unat u < nv b" "i < length (b_constraints b)" using binvD(6) [OF inv] that by (auto simp: merged_ok_def)
    then show ?thesis using row_product_eq_below [OF e binvD(3) [OF inv nth_mem]] e by (simp add: eq_below_def)
  qed
  moreover have "row_holds p \<sigma> c \<longleftrightarrow> row_holds p \<sigma>' c" if "c \<in> set (b_constraints b)" for c
    by (rule row_holds_eq_below [OF e binvD(3) [OF inv that]])
  ultimately show ?thesis unfolding bsem_def by metis
qed

text \<open>What makes the two semantic parts of the invariant survive a step: more variables, fewer
  satisfying assignments.\<close>

lemma boolean_ok_step:
  assumes "boolean_ok p b" "nv b \<le> nv b'" "\<And>\<sigma>. bsem p b' \<sigma> \<Longrightarrow> bsem p b \<sigma>"
    "\<And>v. v \<in> b_boolean b' \<Longrightarrow> v \<in> b_boolean b \<or> unat v < nv b' \<and> (\<forall>\<sigma>. bsem p b' \<sigma> \<longrightarrow> is_bit p (\<sigma> v))"
  shows "boolean_ok p b'"
  unfolding boolean_ok_def using assms unfolding boolean_ok_def by (meson less_le_trans)

lemma computed_ok_step:
  assumes "computed_ok p b" "nv b \<le> nv b'" "\<And>\<sigma>. bsem p b' \<sigma> \<Longrightarrow> bsem p b \<sigma>" "b_computed b' = b_computed b"
  shows "computed_ok p b'"
  using assms(1,3) lc_below_mono [OF _ assms(2)] unfolding computed_ok_def assms(4) by blast

section \<open>Steps\<close>

text \<open>
  A step from \<open>b\<close> to \<open>b'\<close>: assignments that satisfy \<open>b'\<close> satisfy \<open>b\<close> and \<open>S\<close>; one that satisfies
  \<open>b\<close> and \<open>Q\<close> satisfies \<open>b'\<close> and \<open>R\<close> after its new variables are chosen.
\<close>

definition sound :: "nat \<Rightarrow> builder \<Rightarrow> builder \<Rightarrow> (assignment \<Rightarrow> bool) \<Rightarrow> bool" where
  "sound p b b' S \<longleftrightarrow> (\<forall>\<sigma>. bsem p b' \<sigma> \<longrightarrow> bsem p b \<sigma> \<and> S \<sigma>)"

definition complete :: "nat \<Rightarrow> builder \<Rightarrow> builder \<Rightarrow> (assignment \<Rightarrow> bool) \<Rightarrow> (assignment \<Rightarrow> bool) \<Rightarrow> bool" where
  "complete p b b' Q R \<longleftrightarrow>
    (\<forall>\<sigma>. bsem p b \<sigma> \<and> Q \<sigma> \<longrightarrow> (\<exists>\<sigma>'. eq_below (nv b) \<sigma> \<sigma>' \<and> bsem p b' \<sigma>' \<and> R \<sigma>'))"

definition step ::
    "nat \<Rightarrow> builder \<Rightarrow> builder \<Rightarrow> (assignment \<Rightarrow> bool) \<Rightarrow> (assignment \<Rightarrow> bool) \<Rightarrow> (assignment \<Rightarrow> bool) \<Rightarrow> bool" where
  "step p b b' Q R S \<longleftrightarrow> binv p b' \<and> nv b \<le> nv b' \<and> b_witness_only b' = b_witness_only b \<and>
    sound p b b' S \<and> complete p b b' Q R"

lemma stepD:
  assumes "step p b b' Q R S"
  shows "binv p b'" "nv b \<le> nv b'" "b_witness_only b' = b_witness_only b" "bsem p b' \<sigma> \<Longrightarrow> bsem p b \<sigma>" "bsem p b' \<sigma> \<Longrightarrow> S \<sigma>"
    "bsem p b \<sigma> \<Longrightarrow> Q \<sigma> \<Longrightarrow> \<exists>\<sigma>'. eq_below (nv b) \<sigma> \<sigma>' \<and> bsem p b' \<sigma>' \<and> R \<sigma>'"
  using assms unfolding step_def sound_def complete_def by blast+

lemma step_trans:
  assumes 1: "step p b b1 Q1 R1 S1" and 2: "step p b1 b2 Q2 R2 S2"
    and Q1: "\<And>\<sigma>. Q \<sigma> \<Longrightarrow> Q1 \<sigma>"
    and Q2: "\<And>\<sigma> \<sigma>1. Q \<sigma> \<Longrightarrow> eq_below (nv b) \<sigma> \<sigma>1 \<Longrightarrow> bsem p b1 \<sigma>1 \<Longrightarrow> R1 \<sigma>1 \<Longrightarrow> S1 \<sigma>1 \<Longrightarrow> Q2 \<sigma>1"
    and R: "\<And>\<sigma>1 \<sigma>2. eq_below (nv b1) \<sigma>1 \<sigma>2 \<Longrightarrow> R1 \<sigma>1 \<Longrightarrow> S1 \<sigma>2 \<Longrightarrow> R2 \<sigma>2 \<Longrightarrow> S2 \<sigma>2 \<Longrightarrow> R \<sigma>2"
    and S: "\<And>\<sigma>. bsem p b2 \<sigma> \<Longrightarrow> S1 \<sigma> \<Longrightarrow> S2 \<sigma> \<Longrightarrow> S \<sigma>"
  shows "step p b b2 Q R S"
proof -
  have "\<exists>\<sigma>'. eq_below (nv b) \<sigma> \<sigma>' \<and> bsem p b2 \<sigma>' \<and> R \<sigma>'" if \<sigma>: "bsem p b \<sigma>" "Q \<sigma>" for \<sigma>
  proof -
    obtain \<sigma>1 where s1: "eq_below (nv b) \<sigma> \<sigma>1" "bsem p b1 \<sigma>1" "R1 \<sigma>1" using stepD(6) [OF 1 \<sigma>(1) Q1 [OF \<sigma>(2)]] by blast
    have "Q2 \<sigma>1" using Q2 [OF \<sigma>(2) s1] stepD(5) [OF 1 s1(2)] .
    then obtain \<sigma>2 where s2: "eq_below (nv b1) \<sigma>1 \<sigma>2" "bsem p b2 \<sigma>2" "R2 \<sigma>2" using stepD(6) [OF 2 s1(2)] by blast
    have "R \<sigma>2" by (rule R [OF s2(1) s1(3) stepD(5) [OF 1 stepD(4) [OF 2 s2(2)]] s2(3) stepD(5) [OF 2 s2(2)]])
    then show ?thesis using s2(2) eq_below_trans [OF s1(1) s2(1) stepD(2) [OF 1]] by blast
  qed
  moreover have "bsem p b \<sigma> \<and> S \<sigma>" if "bsem p b2 \<sigma>" for \<sigma>
    using that S stepD(4,5) [OF 1] stepD(4,5) [OF 2] by blast
  ultimately show ?thesis using stepD(1-3) [OF 1] stepD(1-3) [OF 2] unfolding step_def sound_def complete_def by simp
qed

lemma step_weaken:
  assumes "step p b b' Q R S" "\<And>\<sigma>. Q' \<sigma> \<Longrightarrow> Q \<sigma>" "\<And>\<sigma>. R \<sigma> \<Longrightarrow> S \<sigma> \<Longrightarrow> R' \<sigma>" "\<And>\<sigma>. bsem p b' \<sigma> \<Longrightarrow> S \<sigma> \<Longrightarrow> S' \<sigma>"
  shows "step p b b' Q' R' S'"
  using assms unfolding step_def sound_def complete_def by blast

lemma step_refl: "binv p b \<Longrightarrow> step p b b (\<lambda>_. True) (\<lambda>_. True) (\<lambda>_. True)"
  unfolding step_def sound_def complete_def using eq_below_refl by blast

text \<open>A step followed by bookkeeping, or by a step that adds nothing.\<close>

lemma step_then:
  assumes "step p b b1 Q R S" "step p b1 b2 (\<lambda>_. True) (\<lambda>_. True) (\<lambda>_. True)"
    "\<And>\<sigma>1 \<sigma>2. eq_below (nv b1) \<sigma>1 \<sigma>2 \<Longrightarrow> R \<sigma>1 \<Longrightarrow> R \<sigma>2"
  shows "step p b b2 Q R S"
  by (rule step_trans [OF assms(1,2)]) (use assms(3) in auto)

end
