(* ===== verification/Builder_Steps.thy ===== *)
theory Builder_Steps
  imports Builder_Sem
begin

text \<open>
  The single changes a builder operation is made of, as steps: allocating a variable, pushing a
  row, forgetting a pending product, folding one, marking a variable boolean.
\<close>

section \<open>Bookkeeping\<close>

text \<open>A step that needs no new variables.\<close>

lemma step_here:
  assumes "binv p b'" "nv b \<le> nv b'" "b_witness_only b' = b_witness_only b"
    "\<And>\<sigma>. bsem p b' \<sigma> \<Longrightarrow> bsem p b \<sigma> \<and> S \<sigma>" "\<And>\<sigma>. bsem p b \<sigma> \<Longrightarrow> Q \<sigma> \<Longrightarrow> bsem p b' \<sigma> \<and> R \<sigma>"
  shows "step p b b' Q R S"
  unfolding step_def sound_def complete_def using assms eq_below_refl by blast

lemma bsem_cong:
  "b_constraints b' = b_constraints b \<Longrightarrow> b_merged b' = b_merged b \<Longrightarrow> bsem p b' = bsem p b"
  by (simp add: bsem_def fun_eq_iff)

lemma step_same:
  assumes "binv p b" "b_variables b' = b_variables b" "b_next_var b' = b_next_var b" "b_constraints b' = b_constraints b"
    "b_merged b' = b_merged b" "b_boolean b' = b_boolean b" "b_computed b' = b_computed b"
    "\<And>k out ci. b_products b' k = Some (out, ci) \<Longrightarrow> ci < length (b_constraints b)"
    "b_witness_only b' = b_witness_only b" "b_pending b' \<subseteq>\<^sub>m b_pending b"
  shows "step p b b' (\<lambda>_. True) (\<lambda>_. True) (\<lambda>_. True)"
proof -
  have sem: "bsem p b' = bsem p b" by (rule bsem_cong [OF assms(4,5)])
  have "pending_ok b'" using binvD(5) [OF assms(1)] assms(10) unfolding pending_ok_def assms(2,4,5)
    by (metis map_le_def domI)
  moreover have "merged_ok b'" "boolean_ok p b'" "computed_ok p b'"
    using binvD(6-8) [OF assms(1)] by (simp_all add: merged_ok_def boolean_ok_def computed_ok_def assms sem)
  ultimately have "binv p b'" using binvD(1,2,3) [OF assms(1)] assms(2-4,8) by (intro binvI) auto
  then show ?thesis by (rule step_here) (simp_all add: assms sem)
qed

lemma fun_upd_None_le: "m(v := None) \<subseteq>\<^sub>m m"
  by (simp add: map_le_def)

lemma step_consume_var: "binv p b \<Longrightarrow> step p b (consume_pending_var v b) (\<lambda>_. True) (\<lambda>_. True) (\<lambda>_. True)"
  by (rule step_same) (simp_all add: consume_pending_var_def fun_upd_None_le binvD(4))

lemma step_consume: "binv p b \<Longrightarrow> step p b (consume_pending lc b) (\<lambda>_. True) (\<lambda>_. True) (\<lambda>_. True)"
  by (simp add: consume_pending_def step_consume_var step_refl split: option.split)

lemma step_push_witness: "binv p b \<Longrightarrow> step p b (push_witness w b) (\<lambda>_. True) (\<lambda>_. True) (\<lambda>_. True)"
  by (rule step_same) (simp_all add: push_witness_def binvD(4))

lemma step_fresh_id: "binv p b \<Longrightarrow> step p b (snd (fresh_constraint_id b)) (\<lambda>_. True) (\<lambda>_. True) (\<lambda>_. True)"
  by (rule step_same) (simp_all add: fresh_constraint_id_def binvD(4))

lemma consume_simps [simp]:
  "b_variables (consume_pending_var v b) = b_variables b" "b_variables (consume_pending lc b) = b_variables b"
  "b_witness_only (consume_pending_var v b) = b_witness_only b" "b_witness_only (consume_pending lc b) = b_witness_only b"
  by (simp_all add: consume_pending_def consume_pending_var_def split: option.split)

lemma push_witness_simps [simp]:
  "b_variables (push_witness w b) = b_variables b" "b_witness_only (push_witness w b) = b_witness_only b"
  by (simp_all add: push_witness_def)

section \<open>Variables\<close>

lemma alloc_var_simps [simp]:
  "fst (alloc_var nm vis b) = b_next_var b" "nv (snd (alloc_var nm vis b)) = Suc (nv b)"
  "b_witness_only (snd (alloc_var nm vis b)) = b_witness_only b"
  by (simp_all add: alloc_var_def Let_def)

lemma fresh_id:
  assumes "binv p b" "nv b < 2 ^ 32"
  shows "unat (b_next_var b) = nv b"
  using assms(2) binvD(1) [OF assms(1)] by (simp add: unat_of_nat take_bit_nat_eq_self)

lemma step_alloc_var:
  fixes f :: "assignment \<Rightarrow> int"
  assumes inv: "binv p b" and room: "nv b < 2 ^ 32" and f: "\<And>\<sigma> \<sigma>'. eq_below (nv b) \<sigma> \<sigma>' \<Longrightarrow> f \<sigma> = f \<sigma>'"
  shows "step p b (snd (alloc_var nm vis b)) (\<lambda>_. True) (\<lambda>\<sigma>. \<sigma> (b_next_var b) = f \<sigma>) (\<lambda>_. True)"
proof -
  let ?b = "snd (alloc_var nm vis b)" and ?v = "b_next_var b"
  have eqs: "b_constraints ?b = b_constraints b" "b_merged ?b = b_merged b" "b_boolean ?b = b_boolean b"
    "b_computed ?b = b_computed b" "b_products ?b = b_products b" "b_pending ?b = b_pending b"
    "b_next_var ?b = b_next_var b + 1"
    by (simp_all add: alloc_var_def Let_def)
  have sem: "bsem p ?b = bsem p b" by (rule bsem_cong [OF eqs(1,2)])
  have "binv p ?b"
  proof (rule binvI)
    show "b_next_var ?b = of_nat (nv ?b)" using binvD(1) [OF inv] by (simp add: eqs)
    show "nv ?b \<le> 2 ^ 32" using room by simp
    show "row_below (nv ?b) c" if "c \<in> set (b_constraints ?b)" for c
      using binvD(3) [OF inv] that row_below_mono [of "nv b" c "nv ?b"] by (simp add: eqs)
    show "pending_ok ?b" "merged_ok ?b" using binvD(5,6) [OF inv] unfolding pending_ok_def merged_ok_def
      by (fastforce simp: eqs)+
    show "boolean_ok p ?b" by (rule boolean_ok_step [OF binvD(7) [OF inv]]) (simp_all add: sem eqs)
    show "computed_ok p ?b" by (rule computed_ok_step [OF binvD(8) [OF inv]]) (simp_all add: sem eqs)
  qed (use binvD(4) [OF inv] in \<open>simp add: eqs\<close>)
  moreover have "\<exists>\<sigma>'. eq_below (nv b) \<sigma> \<sigma>' \<and> bsem p b \<sigma>' \<and> \<sigma>' ?v = f \<sigma>'" if \<sigma>: "bsem p b \<sigma>" for \<sigma>
  proof (intro exI conjI)
    let ?s = "\<sigma>(?v := f \<sigma>)"
    show e: "eq_below (nv b) \<sigma> ?s" by (rule eq_below_upd) (simp add: fresh_id [OF inv room])
    then show "?s ?v = f ?s" using f [OF e] by simp
    show "bsem p b ?s" using \<sigma> bsem_eq_below [OF inv e] by simp
  qed
  ultimately show ?thesis unfolding step_def sound_def complete_def sem by simp
qed

lemma alloc_internal_simps [simp]:
  "fst (alloc_internal b) = b_next_var b" "nv (snd (alloc_internal b)) = Suc (nv b)"
  "b_witness_only (snd (alloc_internal b)) = b_witness_only b"
  "fst (alloc_advice b) = b_next_var b" "nv (snd (alloc_advice b)) = Suc (nv b)"
  "b_witness_only (snd (alloc_advice b)) = b_witness_only b"
  by (simp_all add: alloc_internal_def alloc_advice_def)

lemma step_alloc:
  fixes f :: "assignment \<Rightarrow> int"
  assumes inv: "binv p b" and room: "nv b < 2 ^ 32" and f: "\<And>\<sigma> \<sigma>'. eq_below (nv b) \<sigma> \<sigma>' \<Longrightarrow> f \<sigma> = f \<sigma>'"
  shows "step p b (snd (alloc_internal b)) (\<lambda>_. True) (\<lambda>\<sigma>. \<sigma> (b_next_var b) = f \<sigma>) (\<lambda>_. True)"
    and "step p b (snd (alloc_advice b)) (\<lambda>_. True) (\<lambda>\<sigma>. \<sigma> (b_next_var b) = f \<sigma>) (\<lambda>_. True)"
proof -
  have same: "step p b (b\<lparr>b_internal_counter := x\<rparr>) (\<lambda>_. True) (\<lambda>_. True) (\<lambda>_. True)"
    "step p b (b\<lparr>b_advice_counter := x\<rparr>) (\<lambda>_. True) (\<lambda>_. True) (\<lambda>_. True)" for x
    by (rule step_same [OF inv]; simp add: binvD(4) [OF inv])+
  show "step p b (snd (alloc_internal b)) (\<lambda>_. True) (\<lambda>\<sigma>. \<sigma> (b_next_var b) = f \<sigma>) (\<lambda>_. True)"
    unfolding alloc_internal_def
    by (rule step_trans [OF same(1) step_alloc_var [OF stepD(1) [OF same(1)]]]) (use room f in simp_all)
  show "step p b (snd (alloc_advice b)) (\<lambda>_. True) (\<lambda>\<sigma>. \<sigma> (b_next_var b) = f \<sigma>) (\<lambda>_. True)"
    unfolding alloc_advice_def
    by (rule step_trans [OF same(2) step_alloc_var [OF stepD(1) [OF same(2)]]]) (use room f in simp_all)
qed

section \<open>Rows\<close>

lemma fc_is_one_big: "fc_is_one c \<Longrightarrow> fc_big c = 1"
  by (auto simp: fc_is_one_def split: field_const.splits)

lemma one_var_lc_val: "one_var lc = Some v \<Longrightarrow> lc_val \<sigma> lc = \<sigma> v"
  by (auto simp: one_var_def lc_val_def fc_is_zero_big fc_is_one_big length_Suc_conv split: if_splits)

lemma one_var_below: "one_var lc = Some v \<Longrightarrow> lc_below n lc \<Longrightarrow> unat v < n"
  by (auto simp: one_var_def lc_below_def length_Suc_conv split: if_splits)

lemma booleanity_bit:
  assumes "booleanity_var c = Some v" "row_holds p \<sigma> c"
  shows "is_bit p (\<sigma> v)"
proof -
  have "one_var (rc_a c) = Some v" "one_var (rc_b c) = Some v" "one_var (rc_c c) = Some v"
    using assms(1) by (auto simp: booleanity_var_def Option.bind_eq_Some_conv split: if_splits)
  then have "row_holds p \<sigma> c \<longleftrightarrow> int p dvd \<sigma> v * \<sigma> v - \<sigma> v"
    by (simp add: row_holds_def one_var_lc_val)
  then show ?thesis using assms(2) by (simp add: is_bit_def algebra_simps)
qed

lemma booleanity_below: "booleanity_var c = Some v \<Longrightarrow> row_below n c \<Longrightarrow> unat v < n"
  by (auto simp: booleanity_var_def Option.bind_eq_Some_conv row_below_def dest: one_var_below split: if_splits)

lemma push_constraint_simps [simp]:
  "b_variables (push_constraint c b) = b_variables b" "b_witness_only (push_constraint c b) = b_witness_only b"
  "b_next_var (push_constraint c b) = b_next_var b" "b_merged (push_constraint c b) = b_merged b"
  "b_pending (push_constraint c b) = b_pending b" "b_products (push_constraint c b) = b_products b"
  "b_computed (push_constraint c b) = b_computed b"
  "\<not> b_witness_only b \<Longrightarrow> b_constraints (push_constraint c b) = b_constraints b @ [c]"
  by (simp_all add: push_constraint_def)

lemma bsem_push:
  assumes "merged_ok b" "\<not> b_witness_only b"
  shows "bsem p (push_constraint c b) \<sigma> \<longleftrightarrow> bsem p b \<sigma> \<and> row_holds p \<sigma> c"
proof -
  have "(b_constraints b @ [c]) ! i = b_constraints b ! i" if "bt_get (b_merged b) v = Some (w, i)" for v w i
    using assms(1) that by (auto simp: merged_ok_def nth_append)
  then show ?thesis using assms(2) by (auto simp: bsem_def)
qed

lemma step_push:
  assumes inv: "binv p b" and wo: "\<not> b_witness_only b" and below: "row_below (nv b) c"
  shows "step p b (push_constraint c b) (\<lambda>\<sigma>. row_holds p \<sigma> c) (\<lambda>_. True) (\<lambda>\<sigma>. row_holds p \<sigma> c)"
proof (rule step_here)
  let ?b = "push_constraint c b"
  note sem = bsem_push [OF binvD(6) [OF inv] wo]
  show "binv p ?b"
  proof (rule binvI)
    show "row_below (nv ?b) r" if "r \<in> set (b_constraints ?b)" for r
      using that binvD(3) [OF inv] below wo by auto
    show "ci < length (b_constraints ?b)" if "b_products ?b k = Some (out, ci)" for k out ci
      using binvD(4) [OF inv] that wo by (simp add: less_Suc_eq)
    show "pending_ok ?b" "merged_ok ?b" using binvD(5,6) [OF inv] wo
      by (auto simp: pending_ok_def merged_ok_def nth_append less_Suc_eq)
    show "computed_ok p ?b" by (rule computed_ok_step [OF binvD(8) [OF inv]]) (simp_all add: sem)
    show "boolean_ok p ?b"
    proof (rule boolean_ok_step [OF binvD(7) [OF inv]])
      show "v \<in> b_boolean b \<or> unat v < nv ?b \<and> (\<forall>\<sigma>. bsem p ?b \<sigma> \<longrightarrow> is_bit p (\<sigma> v))" if "v \<in> b_boolean ?b" for v
        using that booleanity_below [OF _ below] booleanity_bit unfolding sem
        by (auto simp: push_constraint_def wo split: option.splits)
    qed (simp_all add: sem)
  qed (use binvD(1,2) [OF inv] in simp_all)
qed (simp_all add: bsem_push [OF binvD(6) [OF inv] wo])

text \<open>A row that defines a fresh variable can always be satisfied.\<close>

lemma step_mark:
  assumes inv: "binv p b" and v: "unat v < nv b" "\<And>\<sigma>. bsem p b \<sigma> \<Longrightarrow> is_bit p (\<sigma> v)"
  shows "step p b (b\<lparr>b_boolean := insert v (b_boolean b)\<rparr>) (\<lambda>_. True) (\<lambda>_. True) (\<lambda>_. True)"
proof (rule step_here)
  let ?b = "b\<lparr>b_boolean := insert v (b_boolean b)\<rparr>"
  have sem: "bsem p ?b = bsem p b" by (rule bsem_cong) simp_all
  show "binv p ?b"
  proof (rule binvI)
    show "pending_ok ?b" "merged_ok ?b" using binvD(5,6) [OF inv] by (simp_all add: pending_ok_def merged_ok_def)
    show "boolean_ok p ?b" by (rule boolean_ok_step [OF binvD(7) [OF inv]]) (use v in \<open>auto simp: sem\<close>)
    show "computed_ok p ?b" by (rule computed_ok_step [OF binvD(8) [OF inv]]) (simp_all add: sem)
  qed (use binvD(1-4) [OF inv] in simp_all)
  show "bsem p b \<sigma> \<and> True" if "bsem p ?b \<sigma>" for \<sigma> using that by (simp add: sem)
  show "bsem p ?b \<sigma> \<and> True" if "bsem p b \<sigma>" for \<sigma> using that by (simp add: sem)
qed simp_all

lemma step_computed:
  assumes inv: "binv p b" and bits: "bits \<noteq> []" "\<And>x. x \<in> set bits \<Longrightarrow> lc_below (nv b) x"
    "\<And>x \<sigma>. x \<in> set bits \<Longrightarrow> bsem p b \<sigma> \<Longrightarrow> is_bit p (lc_val \<sigma> x)"
  shows "step p b (b\<lparr>b_computed := (b_computed b)(v \<mapsto> bits)\<rparr>) (\<lambda>_. True) (\<lambda>_. True) (\<lambda>_. True)"
proof (rule step_here)
  let ?b = "b\<lparr>b_computed := (b_computed b)(v \<mapsto> bits)\<rparr>"
  have sem: "bsem p ?b = bsem p b" by (rule bsem_cong) simp_all
  show "binv p ?b"
  proof (rule binvI)
    show "pending_ok ?b" "merged_ok ?b" using binvD(5,6) [OF inv] by (simp_all add: pending_ok_def merged_ok_def)
    show "boolean_ok p ?b" by (rule boolean_ok_step [OF binvD(7) [OF inv]]) (simp_all add: sem)
    show "computed_ok p ?b" using binvD(8) [OF inv] bits by (simp add: computed_ok_def sem)
  qed (use binvD(1-4) [OF inv] in simp_all)
  show "bsem p b \<sigma> \<and> True" if "bsem p ?b \<sigma>" for \<sigma> using that by (simp add: sem)
  show "bsem p ?b \<sigma> \<and> True" if "bsem p b \<sigma>" for \<sigma> using that by (simp add: sem)
qed simp_all

end
