(* ===== verification/Builder_Gates.thy ===== *)
theory Builder_Gates
  imports Builder_Steps
begin

text \<open>
  What each gate of the builder does: the assignments that satisfy the new state are those of the
  old one, extended by the gate's variables, on which its result has the intended value.
\<close>

section \<open>Defining rows\<close>

definition emits ::
    "nat \<Rightarrow> nat \<Rightarrow> builder \<Rightarrow> lin_comb \<Rightarrow> builder \<Rightarrow> (assignment \<Rightarrow> bool) \<Rightarrow> (assignment \<Rightarrow> int \<Rightarrow> bool) \<Rightarrow> bool" where
  "emits p k b r b' Q S \<longleftrightarrow> step p b b' Q (\<lambda>_. True) (\<lambda>\<sigma>. S \<sigma> (lc_val \<sigma> r)) \<and> lc_below (nv b') r \<and> nv b' \<le> nv b + k"

lemma emitsI:
  "step p b b' Q (\<lambda>_. True) (\<lambda>\<sigma>. S \<sigma> (lc_val \<sigma> r)) \<Longrightarrow> lc_below (nv b') r \<Longrightarrow> nv b' \<le> nv b + k \<Longrightarrow> emits p k b r b' Q S"
  by (simp add: emits_def)

lemma emitsD:
  assumes "emits p k b r b' Q S"
  shows "step p b b' Q (\<lambda>_. True) (\<lambda>\<sigma>. S \<sigma> (lc_val \<sigma> r))" "lc_below (nv b') r" "nv b' \<le> nv b + k"
  using assms by (simp_all add: emits_def)

text \<open>A fresh variable with the row that defines it.\<close>

lemma step_define:
  fixes f :: "assignment \<Rightarrow> int"
  assumes inv: "binv p b" and wo: "\<not> b_witness_only b" and room: "nv b < 2 ^ 32"
    and f: "\<And>\<sigma> \<sigma>'. eq_below (nv b) \<sigma> \<sigma>' \<Longrightarrow> f \<sigma> = f \<sigma>'"
    and row: "\<And>\<sigma>. \<sigma> (b_next_var b) = f \<sigma> \<Longrightarrow> row_holds p \<sigma> c" "row_below (Suc (nv b)) c"
    and b1: "b1 = snd (alloc_internal b) \<or> b1 = snd (alloc_advice b)"
    and b2: "step p b1 b2 (\<lambda>_. True) (\<lambda>_. True) (\<lambda>_. True)" "nv b2 = nv b1"
  shows "step p b (push_constraint c b2) (\<lambda>_. True) (\<lambda>\<sigma>. \<sigma> (b_next_var b) = f \<sigma>) (\<lambda>\<sigma>. row_holds p \<sigma> c)"
proof -
  have v: "unat (b_next_var b) = nv b" by (rule fresh_id [OF inv room])
  have nv1: "nv b1 = Suc (nv b)" "\<not> b_witness_only b1" using b1 wo by auto
  have 1: "step p b b1 (\<lambda>_. True) (\<lambda>\<sigma>. \<sigma> (b_next_var b) = f \<sigma>) (\<lambda>_. True)"
    using b1 step_alloc [OF inv room f] by auto
  have keep: "\<sigma>2 (b_next_var b) = f \<sigma>2"
    if "eq_below (Suc (nv b)) \<sigma>1 \<sigma>2" "\<sigma>1 (b_next_var b) = f \<sigma>1" for \<sigma>1 \<sigma>2
  proof -
    have "eq_below (nv b) \<sigma>1 \<sigma>2" "\<sigma>1 (b_next_var b) = \<sigma>2 (b_next_var b)" using that(1) v by (simp_all add: eq_below_def)
    moreover from this(1) have "f \<sigma>1 = f \<sigma>2" by (rule f)
    ultimately show ?thesis using that(2) by simp
  qed
  have 2: "step p b b2 (\<lambda>_. True) (\<lambda>\<sigma>. \<sigma> (b_next_var b) = f \<sigma>) (\<lambda>_. True)"
    by (rule step_then [OF 1 b2(1)]) (use keep nv1 in simp)
  have "step p b2 (push_constraint c b2) (\<lambda>\<sigma>. row_holds p \<sigma> c) (\<lambda>_. True) (\<lambda>\<sigma>. row_holds p \<sigma> c)"
    using stepD(3) [OF b2(1)] nv1 row(2) b2(2) by (intro step_push stepD(1) [OF 2]) simp_all
  from step_trans [OF 2 this] show ?thesis
    using row(1) keep nv1 b2(2) by simp
qed

lemma alloc_fields [simp]:
  "b_constraints (snd (alloc_internal b)) = b_constraints b" "b_merged (snd (alloc_internal b)) = b_merged b"
  "b_constraints (snd (alloc_advice b)) = b_constraints b" "b_merged (snd (alloc_advice b)) = b_merged b"
  by (simp_all add: alloc_internal_def alloc_advice_def alloc_var_def Let_def)

lemma fresh_constraint_id_simps [simp]:
  "nv (snd (fresh_constraint_id b)) = nv b" "b_witness_only (snd (fresh_constraint_id b)) = b_witness_only b"
  "b_constraints (snd (fresh_constraint_id b)) = b_constraints b" "b_merged (snd (fresh_constraint_id b)) = b_merged b"
  by (simp_all add: fresh_constraint_id_def)

lemma f_lc_val: "lc_below n lc \<Longrightarrow> eq_below n \<sigma> \<sigma>' \<Longrightarrow> lc_val \<sigma> lc = lc_val \<sigma>' lc"
  by (rule lc_val_eq_below)

lemma dvd_self_diff [simp]: "int p dvd x - x"
  by simp

lemma dvd_diff_trans: "int p dvd x - y \<Longrightarrow> int p dvd y - z \<Longrightarrow> int p dvd x - z"
  by (metis diff_add_cancel diff_add_eq dvd_add add_diff_eq)

lemma dvd_diff_sym: "int p dvd x - y \<Longrightarrow> int p dvd y - x"
  by (simp add: dvd_diff_commute)

lemma dvd_diff_mult: "int p dvd x - x' \<Longrightarrow> int p dvd y - y' \<Longrightarrow> int p dvd x * y - x' * y'"
proof -
  assume "int p dvd x - x'" "int p dvd y - y'"
  then have "int p dvd (x - x') * y + x' * (y - y')" by (intro dvd_add dvd_mult dvd_mult2)
  then show ?thesis by (simp add: algebra_simps)
qed

section \<open>Materializing\<close>

lemma materialize_emits:
  assumes inv: "binv p b" and wo: "\<not> b_witness_only b" and room: "nv b < 2 ^ 32" and below: "lc_below (nv b) x"
    and eq: "materialize x b = (x', b')"
  shows "emits p 1 b x' b' (\<lambda>_. True) (\<lambda>\<sigma> r. int p dvd r - lc_val \<sigma> x)"
proof (cases "length (lc_terms x) \<le> b_mat_threshold b")
  case True
  then have "x' = x" "b' = b" using eq by (simp_all add: materialize_def)
  then show ?thesis using below step_refl [OF inv] by (simp add: emits_def)
next
  case False
  let ?v = "b_next_var b" and ?b1 = "snd (alloc_internal b)"
  let ?b2 = "push_witness (Some (Linear ?v x)) (snd (fresh_constraint_id ?b1))"
  let ?c = "rc_equal (fst (fresh_constraint_id ?b1)) x (lc_var ?v) ''''"
  have out: "x' = lc_var ?v" "b' = push_constraint ?c ?b2"
    using False eq by (auto simp: materialize_def Let_def split: prod.splits)
      (metis alloc_internal_simps(1) fst_conv snd_conv)+
  have v: "unat ?v = nv b" by (rule fresh_id [OF inv room])
  have b1: "binv p ?b1" using step_alloc(1) [OF inv room, of "\<lambda>_. 0"] by (auto dest: stepD(1))
  have "step p ?b1 ?b2 (\<lambda>_. True) (\<lambda>_. True) (\<lambda>_. True)"
    by (rule step_then [OF step_fresh_id [OF b1] step_push_witness [OF stepD(1) [OF step_fresh_id [OF b1]]]]) simp
  then have "step p b b' (\<lambda>_. True) (\<lambda>\<sigma>. \<sigma> ?v = lc_val \<sigma> x) (\<lambda>\<sigma>. row_holds p \<sigma> ?c)"
    unfolding out using f_lc_val [OF below] below v
    by (intro step_define [OF inv wo room, of "\<lambda>\<sigma>. lc_val \<sigma> x" ?c ?b1 ?b2] disjI1)
      (auto intro!: below_intros intro: lc_below_mono)
  then have "step p b b' (\<lambda>_. True) (\<lambda>_. True) (\<lambda>\<sigma>. int p dvd lc_val \<sigma> x' - lc_val \<sigma> x)"
    by (rule step_weaken) (simp_all add: out dvd_diff_commute)
  then show ?thesis by (rule emitsI) (simp_all add: out v)
qed

section \<open>Multiplication\<close>

lemma lc_is_zero_val: "lc_is_zero lc \<Longrightarrow> lc_val \<sigma> lc = 0"
  by (auto simp: lc_is_zero_def lc_val_def fc_is_zero_big)

lemma fc_is_neg_one_big: "fc_is_neg_one c \<Longrightarrow> fc_big c = - 1"
  by (auto simp: fc_is_neg_one_def split: field_const.splits)

lemma is_boolean_lc_bit:
  assumes inv: "binv p b" and bool: "is_boolean_lc lc b" and sem: "bsem p b \<sigma>"
  shows "is_bit p (lc_val \<sigma> lc)"
proof (cases "lc_terms lc")
  case Nil
  then show ?thesis using bool by (auto simp: is_boolean_lc_def lc_val_def fc_is_zero_big fc_is_one_big)
next
  case (Cons t ts)
  show ?thesis
  proof (cases "ts = []")
    case True
    then have "is_bit p (\<sigma> (t_var t))"
      "fc_is_zero (lc_const lc) \<and> fc_is_one (t_coeff t) \<or> fc_is_one (lc_const lc) \<and> fc_is_neg_one (t_coeff t)"
      using bool Cons binvD(7) [OF inv] sem by (auto simp: is_boolean_lc_def boolean_ok_def)
    then show ?thesis using Cons True
      by (auto simp: lc_val_def fc_is_zero_big fc_is_one_big fc_is_neg_one_big)
  next
    case False
    then obtain bits where bits: "b_computed b (t_var (last (lc_terms lc))) = Some bits"
      "lc_is_zero (lc_sub lc (bits ! 0)) \<or> lc_is_zero (lc_sub (lc_add lc (bits ! 0)) lc_one)"
      using bool Cons by (auto simp: is_boolean_lc_def neq_Nil_conv split: option.splits)
    then have "is_bit p (lc_val \<sigma> (bits ! 0))" using binvD(8) [OF inv] sem by (fastforce simp: computed_ok_def)
    moreover have "lc_val \<sigma> lc = lc_val \<sigma> (bits ! 0) \<or> lc_val \<sigma> lc = 1 - lc_val \<sigma> (bits ! 0)"
      using bits(2) lc_is_zero_val [of "lc_sub lc (bits ! 0)" \<sigma>] lc_is_zero_val [of "lc_sub (lc_add lc (bits ! 0)) lc_one" \<sigma>]
      by auto
    ultimately show ?thesis by auto
  qed
qed

lemma step_pending:
  assumes inv: "binv p b" and v: "unat v < nv b" "bt_get (b_merged b) v = None"
    and row: "ci < length (b_constraints b)" "rc_c (b_constraints b ! ci) = lc_var v"
    and same: "b_variables b' = b_variables b" "b_next_var b' = b_next_var b" "b_constraints b' = b_constraints b"
      "b_merged b' = b_merged b" "b_boolean b' = b_boolean b" "b_computed b' = b_computed b" "b_witness_only b' = b_witness_only b"
    and pend: "b_pending b' = (b_pending b)(v \<mapsto> (ci, wi))"
    and prods: "b_products b' = b_products b \<or> b_products b' = (b_products b)(k \<mapsto> (u, ci))"
  shows "step p b b' (\<lambda>_. True) (\<lambda>_. True) (\<lambda>_. True)"
proof (rule step_here)
  have sem: "bsem p b' = bsem p b" by (rule bsem_cong [OF same(3,4)])
  show "binv p b'"
  proof (rule binvI)
    show "pending_ok b'" using binvD(5) [OF inv] v row by (simp add: pending_ok_def pend same)
    show "merged_ok b'" "boolean_ok p b'" "computed_ok p b'"
      using binvD(6-8) [OF inv] by (simp_all add: merged_ok_def boolean_ok_def computed_ok_def same sem)
    show "cj < length (b_constraints b')" if "b_products b' l = Some (out, cj)" for l out cj
      using prods that binvD(4) [OF inv, of l out cj] row(1) by (auto simp: same split: if_splits)
  qed (use binvD(1-3) [OF inv] in \<open>simp_all add: same\<close>)
  show "bsem p b \<sigma> \<and> True" if "bsem p b' \<sigma>" for \<sigma> using that by (simp add: sem)
  show "bsem p b' \<sigma> \<and> True" if "bsem p b \<sigma>" for \<sigma> using that by (simp add: sem)
qed (simp_all add: same)

lemma emit_product_step:
  assumes inv: "binv p b" and wo: "\<not> b_witness_only b" and room: "nv b < 2 ^ 32"
    and below: "lc_below (nv b) x" "lc_below (nv b) y" and eq: "emit_product x y b = (out, b')"
  shows "step p b b' (\<lambda>_. True) (\<lambda>_. True) (\<lambda>\<sigma>. int p dvd \<sigma> out - lc_val \<sigma> x * lc_val \<sigma> y)"
    "nv b' = Suc (nv b)" "unat out = nv b" "b_pending b' out \<noteq> None"
proof -
  let ?b1 = "snd (alloc_internal b)" and ?v = "b_next_var b"
  let ?b2 = "snd (fresh_constraint_id ?b1)"
  let ?c = "rc_mul (fst (fresh_constraint_id ?b1)) x y ?v ''''"
  let ?b3 = "push_constraint ?c ?b2"
  define b4 where "b4 = (if is_boolean_lc x ?b1 \<and> is_boolean_lc y ?b1 then ?b3\<lparr>b_boolean := insert ?v (b_boolean ?b3)\<rparr> else ?b3)"
  let ?b5 = "push_witness None b4" and ?ci = "length (b_constraints ?b3) - 1"
  let ?wi = "length (b_witness ?b5) - 1"
  let ?b6 = "?b5\<lparr>b_deferred := b_deferred ?b5 @ [(?wi, ?ci, ?v)]\<rparr>"
  define b7 where "b7 = (case product_key x y b of Some k \<Rightarrow> ?b6\<lparr>b_products := (b_products ?b6)(k \<mapsto> (?v, ?ci))\<rparr> | None \<Rightarrow> ?b6)"
  have out: "out = ?v" "b' = b7\<lparr>b_pending := (b_pending b7)(?v \<mapsto> (?ci, ?wi))\<rparr>"
    using eq wo unfolding emit_product_def b7_def b4_def Let_def split_beta by (auto split: option.split)
  have v: "unat ?v = nv b" by (rule fresh_id [OF inv room])
  have b1: "binv p ?b1" using step_alloc(1) [OF inv room, of "\<lambda>_. 0"] by (auto dest: stepD(1))
  have f: "lc_val \<sigma> x * lc_val \<sigma> y = lc_val \<sigma>' x * lc_val \<sigma>' y" if "eq_below (nv b) \<sigma> \<sigma>'" for \<sigma> \<sigma>'
    using f_lc_val [OF below(1) that] f_lc_val [OF below(2) that] by simp
  have 3: "step p b ?b3 (\<lambda>_. True) (\<lambda>\<sigma>. \<sigma> ?v = lc_val \<sigma> x * lc_val \<sigma> y) (\<lambda>\<sigma>. row_holds p \<sigma> ?c)"
    using below v step_fresh_id [OF b1] by (intro step_define [OF inv wo room f] disjI1) (auto intro: lc_below_mono)
  have bit: "is_bit p (\<sigma> ?v)" if b: "is_boolean_lc x ?b1" "is_boolean_lc y ?b1" and \<sigma>: "bsem p ?b3 \<sigma>" for \<sigma>
  proof -
    have "bsem p ?b1 \<sigma>" using \<sigma> bsem_push [OF binvD(6) [OF stepD(1) [OF step_fresh_id [OF b1]]], of p ?c \<sigma>] wo
      by (simp add: bsem_cong [of ?b2 ?b1])
    then have "is_bit p (lc_val \<sigma> x * lc_val \<sigma> y)" using is_boolean_lc_bit [OF b1] b by (simp add: is_bit_mult)
    moreover have "int p dvd lc_val \<sigma> x * lc_val \<sigma> y - \<sigma> ?v" using stepD(5) [OF 3 \<sigma>] by simp
    ultimately show ?thesis using is_bit_cong by blast
  qed
  have 34: "step p ?b3 b4 (\<lambda>_. True) (\<lambda>_. True) (\<lambda>_. True)"
    unfolding b4_def using bit v by (auto intro!: step_mark step_refl stepD(1) [OF 3])
  have 35: "step p ?b3 ?b5 (\<lambda>_. True) (\<lambda>_. True) (\<lambda>_. True)"
    by (rule step_then [OF 34 step_push_witness [OF stepD(1) [OF 34]]]) simp
  have b5: "binv p ?b5" "b_constraints ?b5 = b_constraints b @ [?c]" "b_merged ?b5 = b_merged b" "nv ?b5 = Suc (nv b)"
    using stepD(1) [OF 35] wo
    by (simp_all add: b4_def push_witness_def alloc_internal_def alloc_var_def Let_def fresh_constraint_id_def)
  have "bt_get (b_merged b) ?v = None"
    using binvD(6) [OF inv] v unfolding merged_ok_def by (metis not_less_iff_gr_or_eq option.exhaust surj_pair)
  then have 57: "step p ?b5 b' (\<lambda>_. True) (\<lambda>_. True) (\<lambda>_. True)"
    unfolding out using b5(4) v wo
    by (intro step_pending [OF b5(1), of ?v ?ci _ ?wi "the (product_key x y b)" ?v])
      (auto simp: b5(2,3) b7_def rc_mul_def split: option.split)
  have "step p b ?b5 (\<lambda>_. True) (\<lambda>_. True) (\<lambda>\<sigma>. row_holds p \<sigma> ?c)"
    by (rule step_trans [OF 3 35]) auto
  then have "step p b b' (\<lambda>_. True) (\<lambda>_. True) (\<lambda>\<sigma>. row_holds p \<sigma> ?c)"
    by (rule step_then [OF _ 57]) simp
  then show "step p b b' (\<lambda>_. True) (\<lambda>_. True) (\<lambda>\<sigma>. int p dvd \<sigma> out - lc_val \<sigma> x * lc_val \<sigma> y)"
    by (rule step_weaken) (simp_all add: out(1) dvd_diff_commute)
  show "nv b' = Suc (nv b)" using b5(4) by (simp add: out(2) b7_def split: option.split)
  show "unat out = nv b" "b_pending b' out \<noteq> None" by (simp_all add: out v)
qed

lemma reuse_product_val:
  assumes inv: "binv p b" and reuse: "reuse_product x y b = Some (Some out)"
  shows "unat out < nv b" "bsem p b \<sigma> \<Longrightarrow> int p dvd \<sigma> out - lc_val \<sigma> x * lc_val \<sigma> y"
proof -
  obtain ci where ci: "ci < length (b_constraints b)" "reusable x y out (b_constraints b ! ci) b"
    using reuse unfolding reuse_product_def by (auto simp: not_le split: option.splits if_splits)
  let ?c = "b_constraints b ! ci"
  have c: "?c \<in> set (b_constraints b)" using ci(1) by simp
  have out: "rc_c ?c = lc_var out" using ci(2) by (simp add: reusable_def)
  show "unat out < nv b" using binvD(3) [OF inv c] out by (simp add: row_below_def)
  assume "bsem p b \<sigma>"
  then have "row_holds p \<sigma> ?c" using c by (simp add: bsem_def)
  then have "int p dvd lc_val \<sigma> x * lc_val \<sigma> y - \<sigma> out"
    using ci(2) out by (auto simp: row_holds_def reusable_def mult.commute)
  then show "int p dvd \<sigma> out - lc_val \<sigma> x * lc_val \<sigma> y" by (simp add: dvd_diff_commute)
qed

lemma reuse_product_total:
  assumes "binv p b"
  shows "reuse_product x y b \<noteq> None"
proof
  assume "reuse_product x y b = None"
  then obtain out ci k where "b_products b k = Some (out, ci)" "length (b_constraints b) \<le> ci"
    by (auto simp: reuse_product_def bind_eq_Some_conv split: option.splits if_splits)
  then show False using binvD(4) [OF assms] by fastforce
qed

lemma emit_mul_emits:
  assumes inv: "binv p b" and wo: "\<not> b_witness_only b" and room: "nv b + 3 \<le> 2 ^ 32"
    and below: "lc_below (nv b) x" "lc_below (nv b) y"
  shows "\<exists>r b'. emit_mul x y b = Some (r, b') \<and>
    emits p 3 b r b' (\<lambda>_. True) (\<lambda>\<sigma> z. int p dvd z - lc_val \<sigma> x * lc_val \<sigma> y)"
proof -
  obtain x1 b1 where 1: "materialize x b = (x1, b1)" by (cases "materialize x b")
  note m1 = materialize_emits [OF inv wo _ below(1) 1]
  have e1: "emits p 1 b x1 b1 (\<lambda>_. True) (\<lambda>\<sigma> r. int p dvd r - lc_val \<sigma> x)" using m1 room by simp
  note s1 = emitsD [OF e1]
  have inv1: "binv p b1" "\<not> b_witness_only b1" "nv b1 \<le> nv b + 1" "nv b \<le> nv b1"
    using stepD(1-3) [OF s1(1)] s1(3) wo by simp_all
  obtain y1 b2 where 2: "materialize y b1 = (y1, b2)" by (cases "materialize y b1")
  have e2: "emits p 1 b1 y1 b2 (\<lambda>_. True) (\<lambda>\<sigma> r. int p dvd r - lc_val \<sigma> y)"
    using materialize_emits [OF inv1(1,2) _ lc_below_mono [OF below(2) inv1(4)] 2] room inv1(3) by simp
  note s2 = emitsD [OF e2]
  have inv2: "binv p b2" "\<not> b_witness_only b2" "nv b2 \<le> nv b + 2" "nv b1 \<le> nv b2"
    using stepD(1-3) [OF s2(1)] s2(3) inv1 by simp_all
  have below2: "lc_below (nv b2) x1" "lc_below (nv b2) y1" using lc_below_mono [OF s1(2) inv2(4)] s2(2) by simp_all
  have 12: "step p b b2 (\<lambda>_. True) (\<lambda>_. True)
      (\<lambda>\<sigma>. int p dvd lc_val \<sigma> x1 * lc_val \<sigma> y1 - lc_val \<sigma> x * lc_val \<sigma> y)"
    by (rule step_trans [OF s1(1) s2(1)]) (simp_all add: dvd_diff_mult)
  obtain reused where reuse: "reuse_product x1 y1 b2 = Some reused" using reuse_product_total [OF inv2(1)] by blast
  obtain out b3 where ob: "(case reused of Some out \<Rightarrow> (out, b2) | None \<Rightarrow> emit_product x1 y1 b2) = (out, b3)" by fastforce
  have 23: "step p b2 b3 (\<lambda>_. True) (\<lambda>_. True) (\<lambda>\<sigma>. int p dvd \<sigma> out - lc_val \<sigma> x1 * lc_val \<sigma> y1)
      \<and> unat out < nv b3 \<and> nv b3 \<le> nv b2 + 1"
  proof (cases reused)
    case None
    then show ?thesis using emit_product_step [OF inv2(1,2) _ below2, of out b3] ob room inv2(3) by simp
  next
    case (Some o')
    then have o': "o' = out" "b3 = b2" using ob by simp_all
    have "step p b2 b2 (\<lambda>_. True) (\<lambda>_. True) (\<lambda>\<sigma>. int p dvd \<sigma> out - lc_val \<sigma> x1 * lc_val \<sigma> y1)"
      by (rule step_weaken [OF step_refl [OF inv2(1)]]) (use reuse_product_val [OF inv2(1)] reuse Some o' in auto)
    then show ?thesis using reuse_product_val [OF inv2(1)] reuse Some o' by simp
  qed
  have "step p b b3 (\<lambda>_. True) (\<lambda>_. True) (\<lambda>\<sigma>. int p dvd \<sigma> out - lc_val \<sigma> x * lc_val \<sigma> y)"
    by (rule step_trans [OF 12 conjunct1 [OF 23]]) (auto intro: dvd_diff_trans)
  then have "emits p 3 b (lc_var out) b3 (\<lambda>_. True) (\<lambda>\<sigma> z. int p dvd z - lc_val \<sigma> x * lc_val \<sigma> y)"
    using 23 inv2(3) by (intro emitsI) simp_all
  moreover have "emit_mul x y b = Some (lc_var out, b3)"
    unfolding emit_mul_def emit_mul_var_def 1 2 Let_def prod.case reuse using ob by simp
  ultimately show ?thesis by blast
qed

section \<open>Boolean gates\<close>

lemma step_consume2:
  assumes "binv p b"
  shows "step p b (consume_pending y (consume_pending x b)) (\<lambda>_. True) (\<lambda>_. True) (\<lambda>_. True)"
  by (rule step_then [OF step_consume [OF assms] step_consume [OF stepD(1) [OF step_consume [OF assms]]]]) simp

lemma gate_step:
  fixes f :: "assignment \<Rightarrow> int"
  assumes inv: "binv p b" and wo: "\<not> b_witness_only b" and room: "nv b < 2 ^ 32"
    and below: "lc_below (nv b) x" "lc_below (nv b) y" and b0: "b0 = consume_pending y (consume_pending x b)"
    and b2: "b2 = snd (fresh_constraint_id (snd (alloc_internal b0)))"
    and b': "b' = mark_gate x y (b_next_var b0) (push_witness w (push_constraint c b2))"
    and f: "\<And>\<sigma> \<sigma>'. eq_below (nv b) \<sigma> \<sigma>' \<Longrightarrow> f \<sigma> = f \<sigma>'"
    and row: "\<And>\<sigma>. \<sigma> (b_next_var b0) = f \<sigma> \<Longrightarrow> row_holds p \<sigma> c" "row_below (Suc (nv b)) c"
    and bit: "\<And>\<sigma>. row_holds p \<sigma> c \<Longrightarrow> is_bit p (lc_val \<sigma> x) \<Longrightarrow> is_bit p (lc_val \<sigma> y) \<Longrightarrow> is_bit p (\<sigma> (b_next_var b0))"
  shows "step p b b' (\<lambda>_. True) (\<lambda>_. True) (\<lambda>\<sigma>. row_holds p \<sigma> c)" "nv b' = Suc (nv b)" "unat (b_next_var b0) = nv b"
proof -
  let ?v = "b_next_var b0" and ?b3 = "push_constraint c b2"
  let ?b4 = "push_witness w ?b3"
  have 0: "step p b b0 (\<lambda>_. True) (\<lambda>_. True) (\<lambda>_. True)" unfolding b0 by (rule step_consume2 [OF inv])
  have inv0: "binv p b0" "\<not> b_witness_only b0" "nv b0 = nv b" using stepD(1) [OF 0] wo by (simp_all add: b0)
  have room0: "nv b0 < 2 ^ 32" using room inv0(3) by simp
  show v: "unat ?v = nv b" using fresh_id [OF inv0(1) room0] inv0(3) by simp
  have b1: "binv p (snd (alloc_internal b0))" using step_alloc(1) [OF inv0(1) room0, of "\<lambda>_. 0"] by (auto dest: stepD(1))
  have 3: "step p b0 ?b3 (\<lambda>_. True) (\<lambda>\<sigma>. \<sigma> ?v = f \<sigma>) (\<lambda>\<sigma>. row_holds p \<sigma> c)"
    using step_fresh_id [OF b1] f row inv0(3)
    by (intro step_define [OF inv0(1,2) room0, of f c "snd (alloc_internal b0)"]) (auto simp: b2)
  have b3: "step p b ?b3 (\<lambda>_. True) (\<lambda>_. True) (\<lambda>\<sigma>. row_holds p \<sigma> c)" by (rule step_trans [OF 0 3]) auto
  have 34: "step p ?b3 ?b4 (\<lambda>_. True) (\<lambda>_. True) (\<lambda>_. True)" by (rule step_push_witness [OF stepD(1) [OF 3]])
  have 4: "step p b ?b4 (\<lambda>_. True) (\<lambda>_. True) (\<lambda>\<sigma>. row_holds p \<sigma> c)"
    by (rule step_then [OF b3 34]) simp
  have nv4: "nv ?b4 = Suc (nv b)" using inv0(3) by (simp add: b2)
  have "step p ?b4 b' (\<lambda>_. True) (\<lambda>_. True) (\<lambda>_. True)"
  proof (cases "\<not> b_witness_only ?b4 \<and> is_boolean_lc x ?b4 \<and> is_boolean_lc y ?b4")
    case True
    then have "is_bit p (\<sigma> ?v)" if "bsem p ?b4 \<sigma>" for \<sigma>
      using bit is_boolean_lc_bit [OF stepD(1) [OF 4] _ that] stepD(5) [OF 4 that] by blast
    then show ?thesis unfolding b' mark_gate_def using True v nv4
      by (auto intro!: step_mark stepD(1) [OF 4])
  next
    case False
    then show ?thesis unfolding b' mark_gate_def using step_refl [OF stepD(1) [OF 4]] by auto
  qed
  then show "step p b b' (\<lambda>_. True) (\<lambda>_. True) (\<lambda>\<sigma>. row_holds p \<sigma> c)" by (rule step_then [OF 4]) simp
  show "nv b' = Suc (nv b)" using nv4 by (simp add: b' mark_gate_def)
qed

lemma boolean_gate:
  assumes inv: "binv p b" and wo: "\<not> b_witness_only b" and room: "nv b < 2 ^ 32"
    and below: "lc_below (nv b) x" "lc_below (nv b) y" "lc_below (nv b) x2"
    and x2: "\<And>\<sigma>. lc_val \<sigma> x2 = k * lc_val \<sigma> x"
    and bit: "\<And>u v. is_bit p u \<Longrightarrow> is_bit p v \<Longrightarrow> is_bit p (u + v - k * u * v)"
    and b0: "b0 = consume_pending y (consume_pending x b)" and v: "v = b_next_var b0"
    and b2: "b2 = snd (fresh_constraint_id (snd (alloc_internal b0)))"
    and c: "c = rc_general i x2 y (lc_sub (lc_add x y) (lc_var v)) s"
    and b': "b' = mark_gate x y v (push_witness w (push_constraint c b2))"
  shows "emits p 1 b (lc_var v) b' (\<lambda>_. True) (\<lambda>\<sigma> z. int p dvd z - (lc_val \<sigma> x + lc_val \<sigma> y - k * lc_val \<sigma> x * lc_val \<sigma> y))"
proof -
  let ?f = "\<lambda>\<sigma>. lc_val \<sigma> x + lc_val \<sigma> y - k * lc_val \<sigma> x * lc_val \<sigma> y"
  have row: "row_holds p \<sigma> c \<longleftrightarrow> int p dvd \<sigma> v - ?f \<sigma>" for \<sigma>
    by (simp add: c x2 algebra_simps)
  have nv0: "unat v = nv b"
    using fresh_id [OF stepD(1) [OF step_consume2 [OF inv]]] room by (simp add: v b0)
  have f: "?f \<sigma> = ?f \<sigma>'" if "eq_below (nv b) \<sigma> \<sigma>'" for \<sigma> \<sigma>'
    using f_lc_val [OF below(1) that] f_lc_val [OF below(2) that] by simp
  have holds: "row_holds p \<sigma> c" if "\<sigma> (b_next_var b0) = ?f \<sigma>" for \<sigma>
    using that by (simp add: row v)
  have c': "row_below (Suc (nv b)) c"
    using below nv0 by (auto simp: c intro!: below_intros intro: lc_below_mono)
  have bit': "is_bit p (\<sigma> (b_next_var b0))"
    if "row_holds p \<sigma> c" "is_bit p (lc_val \<sigma> x)" "is_bit p (lc_val \<sigma> y)" for \<sigma>
    using that(1) bit [OF that(2,3)] is_bit_cong unfolding row v [symmetric] by blast
  have "step p b b' (\<lambda>_. True) (\<lambda>_. True) (\<lambda>\<sigma>. row_holds p \<sigma> c)"
    by (rule gate_step(1) [where f = ?f, OF inv wo room below(1,2) b0 b2 b' [unfolded v]])
      (rule c' | erule f | erule holds | (erule (2) bit'))+
  moreover have "nv b' = Suc (nv b)"
    by (rule gate_step(2) [where f = ?f, OF inv wo room below(1,2) b0 b2 b' [unfolded v]])
      (rule c' | erule f | erule holds | (erule (2) bit'))+
  ultimately show ?thesis unfolding row by (intro emitsI) (simp_all add: nv0)
qed

lemma emit_xor_emits:
  assumes "binv p b" "\<not> b_witness_only b" "nv b < 2 ^ 32" "lc_below (nv b) x" "lc_below (nv b) y"
    and eq: "emit_xor x y b = (r, b')"
  shows "emits p 1 b r b' (\<lambda>_. True) (\<lambda>\<sigma> z. int p dvd z - (lc_val \<sigma> x + lc_val \<sigma> y - 2 * lc_val \<sigma> x * lc_val \<sigma> y))"
proof -
  let ?b0 = "consume_pending y (consume_pending x b)"
  let ?v = "b_next_var ?b0" and ?i = "fst (fresh_constraint_id (snd (alloc_internal ?b0)))"
  have out: "r = lc_var ?v" "b' = mark_gate x y ?v (push_witness (Some (Xor ?v x y)) (push_constraint
      (rc_general ?i (lc_scale x (fc_from_i64 2)) y (lc_sub (lc_add x y) (lc_var ?v)) '''')
      (snd (fresh_constraint_id (snd (alloc_internal ?b0))))))"
    using eq unfolding emit_xor_def Let_def split_beta by auto
  show ?thesis unfolding out(1)
    by (rule boolean_gate [OF assms(1-5) lc_below_scale [OF assms(4)] _ is_bit_xor refl refl refl refl out(2)]) simp_all
qed

lemma emit_or_emits:
  assumes "binv p b" "\<not> b_witness_only b" "nv b < 2 ^ 32" "lc_below (nv b) x" "lc_below (nv b) y"
    and eq: "emit_or x y b = (r, b')"
  shows "emits p 1 b r b' (\<lambda>_. True) (\<lambda>\<sigma> z. int p dvd z - (lc_val \<sigma> x + lc_val \<sigma> y - lc_val \<sigma> x * lc_val \<sigma> y))"
proof -
  let ?b0 = "consume_pending y (consume_pending x b)"
  let ?v = "b_next_var ?b0" and ?i = "fst (fresh_constraint_id (snd (alloc_internal ?b0)))"
  have out: "r = lc_var ?v" "b' = mark_gate x y ?v (push_witness (Some (Or ?v x y)) (push_constraint
      (rc_general ?i x y (lc_sub (lc_add x y) (lc_var ?v)) '''')
      (snd (fresh_constraint_id (snd (alloc_internal ?b0))))))"
    using eq unfolding emit_or_def Let_def split_beta by auto
  have bit: "is_bit p (u + v - 1 * u * v)" if "is_bit p u" "is_bit p v" for u v using is_bit_or [OF that] by simp
  have "emits p 1 b r b' (\<lambda>_. True) (\<lambda>\<sigma> z. int p dvd z - (lc_val \<sigma> x + lc_val \<sigma> y - 1 * lc_val \<sigma> x * lc_val \<sigma> y))"
    unfolding out(1) by (rule boolean_gate [OF assms(1-5) assms(4) _ bit refl refl refl refl out(2)]) simp_all
  then show ?thesis by simp
qed

section \<open>Powers\<close>

lemma emits_after:
  assumes s: "step p b b0 (\<lambda>_. True) (\<lambda>_. True) (\<lambda>_. True)" and nv: "nv b0 = nv b" and e: "emits p k b0 r b' Q S"
    and Q: "\<And>\<sigma> \<sigma>'. eq_below (nv b) \<sigma> \<sigma>' \<Longrightarrow> Q \<sigma> = Q \<sigma>'"
  shows "emits p k b r b' Q S"
proof (rule emitsI)
  show "step p b b' Q (\<lambda>_. True) (\<lambda>\<sigma>. S \<sigma> (lc_val \<sigma> r))"
    by (rule step_trans [OF s emitsD(1) [OF e]]) (use Q in auto)
qed (use emitsD [OF e] nv in simp_all)

lemma dvd_diff_power: "int p dvd x - y \<Longrightarrow> int p dvd x ^ n - y ^ n"
  by (induction n) (simp_all add: dvd_diff_mult)

abbreviation opt_val :: "assignment \<Rightarrow> lin_comb option \<Rightarrow> int" where
  "opt_val \<sigma> res \<equiv> (case res of Some r \<Rightarrow> lc_val \<sigma> r | None \<Rightarrow> 1)"

definition opt_below :: "nat \<Rightarrow> lin_comb option \<Rightarrow> bool" where
  "opt_below n res \<longleftrightarrow> (\<forall>r. res = Some r \<longrightarrow> lc_below n r)"

lemma pow_odd_step:
  assumes inv: "binv p b" and wo: "\<not> b_witness_only b" and room: "nv b + 3 \<le> 2 ^ 32"
    and below: "lc_below (nv b) base" "opt_below (nv b) res"
  shows "\<exists>res1 b1. (if odd e then (case res of None \<Rightarrow> Some (Some base, b)
        | Some r \<Rightarrow> map_option (\<lambda>(r, b). (Some r, b)) (emit_mul r base (consume_pending base (consume_pending r b))))
      else Some (res, b)) = Some (res1, b1) \<and>
    step p b b1 (\<lambda>_. True) (\<lambda>_. True) (\<lambda>\<sigma>. int p dvd opt_val \<sigma> res1 - opt_val \<sigma> res * lc_val \<sigma> base ^ (e mod 2)) \<and>
    opt_below (nv b1) res1 \<and> nv b1 \<le> nv b + 3 \<and> (odd e \<longrightarrow> res1 \<noteq> None)"
proof -
  note here = step_weaken [OF step_refl [OF inv]]
  show ?thesis
  proof (cases "odd e")
    case False
    then show ?thesis using below here [of "\<lambda>_. True" "\<lambda>_. True" "\<lambda>_. True"] by (simp add: even_iff_mod_2_eq_zero)
  next
    case True
    show ?thesis
    proof (cases res)
      case None
      then show ?thesis using True below here [of "\<lambda>_. True" "\<lambda>_. True" "\<lambda>_. True"]
        by (simp add: odd_iff_mod_2_eq_one opt_below_def)
    next
      case (Some r)
      let ?b0 = "consume_pending base (consume_pending r b)"
      have 0: "step p b ?b0 (\<lambda>_. True) (\<lambda>_. True) (\<lambda>_. True)" by (rule step_consume2 [OF inv])
      obtain z b1 where 1: "emit_mul r base ?b0 = Some (z, b1)"
        "emits p 3 ?b0 z b1 (\<lambda>_. True) (\<lambda>\<sigma> z. int p dvd z - lc_val \<sigma> r * lc_val \<sigma> base)"
        using emit_mul_emits [OF stepD(1) [OF 0], of r base] wo room below Some by (auto simp: opt_below_def)
      have e: "emits p 3 b z b1 (\<lambda>_. True) (\<lambda>\<sigma> z. int p dvd z - lc_val \<sigma> r * lc_val \<sigma> base)"
        by (rule emits_after [OF 0 _ 1(2)]) simp_all
      show ?thesis using True Some 1(1) emitsD [OF e]
        by (simp add: odd_iff_mod_2_eq_one opt_below_def)
    qed
  qed
qed

lemma pow_value:
  fixes x y :: int
  assumes r: "int p dvd z - u1 * y ^ (e div 2)" and u: "int p dvd u1 - u * x ^ (e mod 2)" and y: "int p dvd y - x * x"
  shows "int p dvd z - u * x ^ e"
proof -
  have "int p dvd u1 * y ^ (e div 2) - (u * x ^ (e mod 2)) * (x * x) ^ (e div 2)"
    by (rule dvd_diff_mult [OF u dvd_diff_power [OF y]])
  moreover have "x ^ (e mod 2) * (x * x) ^ (e div 2) = x ^ e"
    by (metis mod_mult_div_eq power2_eq_square power_add power_mult)
  ultimately have "int p dvd u1 * y ^ (e div 2) - u * x ^ e" by (simp add: mult.assoc)
  then show ?thesis by (rule dvd_diff_trans [OF r])
qed

lemma pow_loop_emits:
  assumes "e < 2 ^ k" "0 < e" "binv p b" "\<not> b_witness_only b" "nv b + 6 * k \<le> 2 ^ 32" "lc_below (nv b) base" "opt_below (nv b) res"
  shows "\<exists>r b'. pow_loop res base e b = Some (Some r, b') \<and>
    emits p (6 * k) b r b' (\<lambda>_. True) (\<lambda>\<sigma> z. int p dvd z - opt_val \<sigma> res * lc_val \<sigma> base ^ e)"
  using assms
proof (induction k arbitrary: res base e b)
  case (Suc k)
  note inv = Suc.prems(3,4)
  have "nv b + 3 \<le> 2 ^ 32" using Suc.prems(5) by simp
  then obtain res1 b1 where 1: "(if odd e then (case res of None \<Rightarrow> Some (Some base, b)
        | Some r \<Rightarrow> map_option (\<lambda>(r, b). (Some r, b)) (emit_mul r base (consume_pending base (consume_pending r b))))
      else Some (res, b)) = Some (res1, b1)"
    "step p b b1 (\<lambda>_. True) (\<lambda>_. True) (\<lambda>\<sigma>. int p dvd opt_val \<sigma> res1 - opt_val \<sigma> res * lc_val \<sigma> base ^ (e mod 2))"
    "opt_below (nv b1) res1" "nv b1 \<le> nv b + 3" "odd e \<longrightarrow> res1 \<noteq> None"
    using pow_odd_step [OF inv _ Suc.prems(6,7), of e] by blast
  have inv1: "binv p b1" "\<not> b_witness_only b1" "nv b \<le> nv b1" using stepD(1-3) [OF 1(2)] inv by simp_all
  have base1: "lc_below (nv b1) base" by (rule lc_below_mono [OF Suc.prems(6) inv1(3)])
  show ?case
  proof (cases "e div 2 = 0")
    case True
    then have e: "e = 1" using Suc.prems(2) by simp
    then obtain r where r: "res1 = Some r" using 1(5) by auto
    have "emits p (6 * Suc k) b r b1 (\<lambda>_. True) (\<lambda>\<sigma> z. int p dvd z - opt_val \<sigma> res * lc_val \<sigma> base ^ e)"
      using 1(2,3,4) r e by (intro emitsI) (simp_all add: opt_below_def)
    moreover have "pow_loop res base e b = Some (Some r, b1)"
      using 1(1) True r Suc.prems(2) by (subst pow_loop.simps) simp
    ultimately show ?thesis by blast
  next
    case False
    let ?b0 = "consume_pending base b1"
    have 10: "step p b1 ?b0 (\<lambda>_. True) (\<lambda>_. True) (\<lambda>_. True)" by (rule step_consume [OF inv1(1)])
    obtain base2 b2 where 2: "emit_mul base base ?b0 = Some (base2, b2)"
      "emits p 3 ?b0 base2 b2 (\<lambda>_. True) (\<lambda>\<sigma> z. int p dvd z - lc_val \<sigma> base * lc_val \<sigma> base)"
      using emit_mul_emits [OF stepD(1) [OF 10], of base base] inv1 base1 Suc.prems(5) 1(4) by auto
    have e2: "emits p 3 b1 base2 b2 (\<lambda>_. True) (\<lambda>\<sigma> z. int p dvd z - lc_val \<sigma> base * lc_val \<sigma> base)"
      by (rule emits_after [OF 10 _ 2(2)]) simp_all
    note s2 = emitsD [OF e2]
    have inv2: "binv p b2" "\<not> b_witness_only b2" "nv b1 \<le> nv b2" using stepD(1-3) [OF s2(1)] inv1 by simp_all
    have "opt_below (nv b2) res1" using 1(3) lc_below_mono [OF _ inv2(3)] by (auto simp: opt_below_def)
    moreover have "e div 2 < 2 ^ k" using Suc.prems(1) by (simp add: less_mult_imp_div_less mult.commute)
    ultimately obtain r b' where r: "pow_loop res1 base2 (e div 2) b2 = Some (Some r, b')"
      "emits p (6 * k) b2 r b' (\<lambda>_. True) (\<lambda>\<sigma> z. int p dvd z - opt_val \<sigma> res1 * lc_val \<sigma> base2 ^ (e div 2))"
      using Suc.IH [of "e div 2" b2 base2 res1] inv2 s2(2,3) 1(4) False Suc.prems(5) by auto
    have s12: "step p b b2 (\<lambda>_. True) (\<lambda>_. True)
        (\<lambda>\<sigma>. int p dvd opt_val \<sigma> res1 - opt_val \<sigma> res * lc_val \<sigma> base ^ (e mod 2) \<and>
          int p dvd lc_val \<sigma> base2 - lc_val \<sigma> base * lc_val \<sigma> base)"
      by (rule step_trans [OF 1(2) s2(1)]) auto
    have "step p b b' (\<lambda>_. True) (\<lambda>_. True) (\<lambda>\<sigma>. int p dvd lc_val \<sigma> r - opt_val \<sigma> res * lc_val \<sigma> base ^ e)"
      by (rule step_trans [OF s12 emitsD(1) [OF r(2)]]) (auto intro: pow_value)
    then have "emits p (6 * Suc k) b r b' (\<lambda>_. True) (\<lambda>\<sigma> z. int p dvd z - opt_val \<sigma> res * lc_val \<sigma> base ^ e)"
      using emitsD(2,3) [OF r(2)] s2(3) 1(4) by (intro emitsI) simp_all
    moreover have "pow_loop res base e b = Some (Some r, b')"
      using 1(1) False Suc.prems(2) 2(1) r(1) by (subst pow_loop.simps) simp
    ultimately show ?thesis by blast
  qed
qed simp

lemma emit_pow_emits:
  assumes inv: "binv p b" and wo: "\<not> b_witness_only b" and room: "nv b + 384 \<le> 2 ^ 32" and below: "lc_below (nv b) x"
  shows "\<exists>r b'. emit_pow x n b = Some (r, b') \<and>
    emits p 384 b r b' (\<lambda>_. True) (\<lambda>\<sigma> z. int p dvd z - lc_val \<sigma> x ^ unat n)"
proof -
  consider "n = 0" | "n = 1" | "n = 2" | "n = 3" | "n \<noteq> 0 \<and> n \<noteq> 1 \<and> n \<noteq> 2 \<and> n \<noteq> 3" by blast
  then show ?thesis
  proof cases
    case 1
    then show ?thesis using step_refl [OF inv] by (simp add: emit_pow_def emits_def)
  next
    case 2
    then show ?thesis using step_refl [OF inv] below by (simp add: emit_pow_def emits_def)
  next
    case 3
    obtain r b' where r: "emit_mul x x b = Some (r, b')"
      "emits p 3 b r b' (\<lambda>_. True) (\<lambda>\<sigma> z. int p dvd z - lc_val \<sigma> x * lc_val \<sigma> x)"
      using emit_mul_emits [OF inv wo _ below below] room by auto
    have "emits p 384 b r b' (\<lambda>_. True) (\<lambda>\<sigma> z. int p dvd z - lc_val \<sigma> x ^ unat n)"
      using emitsD [OF r(2)] 3 by (intro emitsI) (simp_all add: power2_eq_square)
    then show ?thesis using r(1) 3 by (simp add: emit_pow_def)
  next
    case 4
    obtain sq b1 where 1: "emit_mul x x b = Some (sq, b1)"
      "emits p 3 b sq b1 (\<lambda>_. True) (\<lambda>\<sigma> z. int p dvd z - lc_val \<sigma> x * lc_val \<sigma> x)"
      using emit_mul_emits [OF inv wo _ below below] room by auto
    note s1 = emitsD [OF 1(2)]
    have inv1: "binv p b1" "\<not> b_witness_only b1" "nv b \<le> nv b1" using stepD(1-3) [OF s1(1)] wo by simp_all
    let ?b0 = "consume_pending sq b1"
    have 10: "step p b1 ?b0 (\<lambda>_. True) (\<lambda>_. True) (\<lambda>_. True)" by (rule step_consume [OF inv1(1)])
    obtain r b' where 2: "emit_mul sq x ?b0 = Some (r, b')"
      "emits p 3 ?b0 r b' (\<lambda>_. True) (\<lambda>\<sigma> z. int p dvd z - lc_val \<sigma> sq * lc_val \<sigma> x)"
      using emit_mul_emits [OF stepD(1) [OF 10], of sq x] inv1 s1(2,3) room lc_below_mono [OF below inv1(3)] by auto
    have e2: "emits p 3 b1 r b' (\<lambda>_. True) (\<lambda>\<sigma> z. int p dvd z - lc_val \<sigma> sq * lc_val \<sigma> x)"
      by (rule emits_after [OF 10 _ 2(2)]) simp_all
    have val: "int p dvd z - x' ^ unat n" if "int p dvd y - x' * x'" "int p dvd z - y * x'" for x' y z
    proof -
      have "int p dvd y * x' - x' * x' * x'" by (rule dvd_diff_mult [OF that(1)]) simp
      from dvd_diff_trans [OF that(2) this] show ?thesis using 4 by (simp add: power3_eq_cube)
    qed
    have "step p b b' (\<lambda>_. True) (\<lambda>_. True) (\<lambda>\<sigma>. int p dvd lc_val \<sigma> r - lc_val \<sigma> x ^ unat n)"
      by (rule step_trans [OF s1(1) emitsD(1) [OF e2]]) (auto intro: val)
    then have "emits p 384 b r b' (\<lambda>_. True) (\<lambda>\<sigma> z. int p dvd z - lc_val \<sigma> x ^ unat n)"
      using emitsD(2,3) [OF e2] s1(3) by (intro emitsI) simp_all
    then show ?thesis using 1(1) 2(1) 4 by (simp add: emit_pow_def)
  next
    case 5
    have n: "0 < unat n" "unat n < 2 ^ 64" using 5 unsigned_less [of n] by (auto simp: unat_gt_0)
    obtain r b' where r: "pow_loop None x (unat n) b = Some (Some r, b')"
      "emits p (6 * 64) b r b' (\<lambda>_. True) (\<lambda>\<sigma> z. int p dvd z - opt_val \<sigma> None * lc_val \<sigma> x ^ unat n)"
      using pow_loop_emits [OF n(2,1) inv wo _ below, of None] room by (auto simp: opt_below_def)
    then show ?thesis using 5 by (simp add: emit_pow_def)
  qed
qed

end
