(* ===== verification/Builder_Eq.thy ===== *)
theory Builder_Eq
  imports Builder_Gates
begin

text \<open>
  Equalities of the builder: folding a pending product into the equality that follows it says the
  same as a row of its own, and the test for zero.
\<close>

section \<open>Folding a product\<close>

lemma merge_mul_step:
  assumes inv: "binv p b" and below: "lc_below (nv b) target" and pend: "b_pending b v = Some (idx, wi)"
    and eq: "merge_mul v target b = Some b'"
  shows "step p b b' (\<lambda>\<sigma>. int p dvd \<sigma> v - lc_val \<sigma> target) (\<lambda>_. True) (\<lambda>\<sigma>. int p dvd \<sigma> v - lc_val \<sigma> target)"
    and "b_variables b' = b_variables b"
proof -
  let ?cs = "b_constraints b"
  let ?row = "(?cs ! idx)\<lparr>rc_c := simplified target\<rparr>"
  define row where "row = ?row\<lparr>rc_debug := map_option (\<lambda>d. d\<lparr>d_note := Some ''''\<rparr>) (rc_debug ?row)\<rparr>"
  have p: "unat v < nv b" "idx < length ?cs" "rc_c (?cs ! idx) = lc_var v" "bt_get (b_merged b) v = None"
    using binvD(5) [OF inv] pend by (auto simp: pending_ok_def)
  have b': "b' = b\<lparr>b_pending := (b_pending b)(v := None), b_merged := bt_insert v (wi, idx) (b_merged b),
      b_constraints := ?cs[idx := row],
      b_boolean := (case booleanity_var ?row of Some u \<Rightarrow> insert u (b_boolean b) | None \<Rightarrow> b_boolean b)\<rparr>"
    using eq pend p(2) by (simp add: merge_mul_def row_def Let_def)
  show "b_variables b' = b_variables b" by (simp add: b')
  have sides: "rc_a row = rc_a (?cs ! idx)" "rc_b row = rc_b (?cs ! idx)" "rc_c row = simplified target"
    by (simp_all add: row_def)
  have inv_m: "bt_invar (b_merged b)" using binvD(6) [OF inv] by (simp add: merged_ok_def)
  have prod: "row_product \<sigma> (?cs[idx := row] ! i) = row_product \<sigma> (?cs ! i)" for \<sigma> i
    by (cases "i = idx") (use p(2) in \<open>simp_all add: row_product_def sides\<close>)
  have old: "row_holds p \<sigma> (?cs ! idx) \<longleftrightarrow> int p dvd row_product \<sigma> (?cs ! idx) - \<sigma> v" for \<sigma>
    by (simp add: row_holds_def row_product_def p(3))
  have new: "row_holds p \<sigma> row \<longleftrightarrow> int p dvd row_product \<sigma> (?cs ! idx) - lc_val \<sigma> target" for \<sigma>
    by (simp add: row_holds_def row_product_def sides)
  have rows: "(\<forall>c \<in> set (?cs[idx := row]). P c) \<longleftrightarrow> P row \<and> (\<forall>j < length ?cs. j \<noteq> idx \<longrightarrow> P (?cs ! j))"
    "(\<forall>c \<in> set ?cs. P c) \<longleftrightarrow> P (?cs ! idx) \<and> (\<forall>j < length ?cs. j \<noteq> idx \<longrightarrow> P (?cs ! j))" for P
    using p(2) by (auto simp: all_set_conv_all_nth nth_list_update)
  have merged: "(\<forall>u w i. bt_get (b_merged b') u = Some (w, i) \<longrightarrow> P u i) \<longleftrightarrow>
      P v idx \<and> (\<forall>u w i. bt_get (b_merged b) u = Some (w, i) \<longrightarrow> P u i)" for P
    using p(4) by (auto simp: b' inv_m) (metis option.distinct(1))
  have sem: "bsem p b' \<sigma> \<longleftrightarrow> bsem p b \<sigma> \<and> int p dvd \<sigma> v - lc_val \<sigma> target" for \<sigma>
  proof -
    have "bsem p b' \<sigma> \<longleftrightarrow> (row_holds p \<sigma> row \<and> (\<forall>j < length ?cs. j \<noteq> idx \<longrightarrow> row_holds p \<sigma> (?cs ! j))) \<and>
        int p dvd \<sigma> v - row_product \<sigma> (?cs ! idx) \<and>
        (\<forall>u w i. bt_get (b_merged b) u = Some (w, i) \<longrightarrow> int p dvd \<sigma> u - row_product \<sigma> (?cs ! i))"
      unfolding bsem_def merged by (simp add: b' rows(1) prod)
    moreover have "int p dvd \<sigma> v - row_product \<sigma> (?cs ! idx) \<Longrightarrow>
        row_holds p \<sigma> row \<longleftrightarrow> int p dvd \<sigma> v - lc_val \<sigma> target"
      unfolding new using dvd_diff_trans dvd_diff_sym by blast
    ultimately show ?thesis unfolding bsem_def rows(2) old using dvd_diff_sym by blast
  qed
  have row_below: "row_below (nv b) row"
    using binvD(3) [OF inv nth_mem [OF p(2)]] below by (simp add: row_below_def sides lc_below_simplified)
  have bool: "row_holds p \<sigma> ?row \<longleftrightarrow> row_holds p \<sigma> row" "row_below n ?row \<longleftrightarrow> row_below n row" for \<sigma> n
    by (simp_all add: row_holds_def row_below_def sides)
  show "step p b b' (\<lambda>\<sigma>. int p dvd \<sigma> v - lc_val \<sigma> target) (\<lambda>_. True) (\<lambda>\<sigma>. int p dvd \<sigma> v - lc_val \<sigma> target)"
  proof (rule step_here)
    show "binv p b'"
    proof (rule binvI)
      show "row_below (nv b') c" if "c \<in> set (b_constraints b')" for c
        using that binvD(3) [OF inv] row_below set_update_subset_insert [of ?cs idx row] by (auto simp: b')
      show "pending_ok b'"
        unfolding pending_ok_def
      proof (intro allI impI)
        fix u ci w assume u: "b_pending b' u = Some (ci, w)"
        then have "u \<noteq> v" "b_pending b u = Some (ci, w)" by (auto simp: b' split: if_splits)
        moreover from this have "unat u < nv b" "ci < length ?cs" "rc_c (?cs ! ci) = lc_var u" "bt_get (b_merged b) u = None"
          using binvD(5) [OF inv] by (auto simp: pending_ok_def)
        moreover from this calculation p(3) have "ci \<noteq> idx" by (auto simp: lc_var_def)
        ultimately show "unat u < nv b' \<and> ci < length (b_constraints b') \<and> rc_c (b_constraints b' ! ci) = lc_var u \<and>
            bt_get (b_merged b') u = None"
          using inv_m by (simp add: b')
      qed
      show "merged_ok b'" using binvD(6) [OF inv] p(1,2) by (simp add: merged_ok_def b')
      show "computed_ok p b'" by (rule computed_ok_step [OF binvD(8) [OF inv]]) (simp_all add: b' sem [unfolded b'])
      show "boolean_ok p b'"
      proof (rule boolean_ok_step [OF binvD(7) [OF inv]])
        fix u assume "u \<in> b_boolean b'"
        then consider "u \<in> b_boolean b" | "booleanity_var ?row = Some u" by (auto simp: b' split: option.splits)
        then show "u \<in> b_boolean b \<or> unat u < nv b' \<and> (\<forall>\<sigma>. bsem p b' \<sigma> \<longrightarrow> is_bit p (\<sigma> u))"
        proof cases
          case 2
          have "row_holds p \<sigma> row" if "bsem p b' \<sigma>" for \<sigma>
            using that p(2) unfolding bsem_def by (simp add: b' set_update_memI)
          then show ?thesis
            using booleanity_bit [OF 2, of p] booleanity_below [OF 2, of "nv b"] row_below unfolding bool by (simp add: b')
        qed simp
      qed (simp_all add: sem, simp add: b')
    qed (use binvD(1,2,4) [OF inv] in \<open>simp_all add: b'\<close>)
  qed (simp_all add: sem, simp_all add: b')
qed

lemma merge_mul_total:
  assumes "binv p b" "b_pending b v = Some (idx, wi)"
  shows "merge_mul v target b \<noteq> None"
proof -
  have "idx < length (b_constraints b)" using binvD(5) [OF assms(1)] assms(2) unfolding pending_ok_def by blast
  then show ?thesis using assms(2) by (simp add: merge_mul_def Let_def)
qed

section \<open>Equality\<close>

lemma as_pending_var_val:
  assumes "as_pending_var lc b = Some v"
  shows "lc_val \<sigma> lc = \<sigma> v" "\<exists>idx wi. b_pending b v = Some (idx, wi)"
proof -
  have "one_var lc = Some v" "b_pending b v \<noteq> None"
    using assms by (auto simp: as_pending_var_def one_var_def split: if_splits)
  then show "lc_val \<sigma> lc = \<sigma> v" "\<exists>idx wi. b_pending b v = Some (idx, wi)"
    using one_var_lc_val by auto
qed

lemma require_merge:
  assumes inv: "binv p b" and pend: "as_pending_var x b = Some v" and below: "lc_below (nv b) y"
  shows "\<exists>b'. merge_mul v y b = Some b' \<and> step p b b' (\<lambda>\<sigma>. int p dvd lc_val \<sigma> x - lc_val \<sigma> y) (\<lambda>_. True)
    (\<lambda>\<sigma>. int p dvd lc_val \<sigma> x - lc_val \<sigma> y) \<and> nv b' = nv b"
proof -
  obtain idx wi where v: "b_pending b v = Some (idx, wi)" using as_pending_var_val(2) [OF pend] by blast
  then obtain b' where b': "merge_mul v y b = Some b'" using merge_mul_total [OF inv v] by blast
  show ?thesis using merge_mul_step [OF inv below v b'] b' by (simp add: as_pending_var_val(1) [OF pend])
qed

lemma step_fresh_push:
  assumes inv: "binv p b" and wo: "\<not> b_witness_only b" and below: "row_below (nv b) c"
  shows "step p b (push_constraint c (snd (fresh_constraint_id b))) (\<lambda>\<sigma>. row_holds p \<sigma> c) (\<lambda>_. True) (\<lambda>\<sigma>. row_holds p \<sigma> c)"
proof -
  let ?b = "snd (fresh_constraint_id b)"
  note s = step_fresh_id [OF inv]
  have "step p ?b (push_constraint c ?b) (\<lambda>\<sigma>. row_holds p \<sigma> c) (\<lambda>_. True) (\<lambda>\<sigma>. row_holds p \<sigma> c)"
    using below wo by (intro step_push stepD(1) [OF s]) simp_all
  then show ?thesis by (rule step_trans [OF s]) (use row_holds_eq_below [OF _ below] in auto)
qed

lemma emit_require_eq_step:
  assumes inv: "binv p b" and wo: "\<not> b_witness_only b" and below: "lc_below (nv b) x" "lc_below (nv b) y"
  shows "\<exists>b'. emit_require_eq x y b = Some b' \<and> step p b b' (\<lambda>\<sigma>. int p dvd lc_val \<sigma> x - lc_val \<sigma> y) (\<lambda>_. True)
    (\<lambda>\<sigma>. int p dvd lc_val \<sigma> x - lc_val \<sigma> y) \<and> nv b' = nv b"
proof (cases "if is_witness_only_lc y b then None else as_pending_var x b")
  case (Some v)
  then show ?thesis using wo require_merge [OF inv _ below(2)] by (auto simp: emit_require_eq_def split: if_splits)
next
  case no_x: None
  show ?thesis
  proof (cases "if is_witness_only_lc x b then None else as_pending_var y b")
    case (Some v)
    then have "as_pending_var y b = Some v" by (auto split: if_splits)
    from require_merge [OF inv this below(1)] show ?thesis
      using wo no_x Some by (auto simp: emit_require_eq_def dvd_diff_commute)
  next
    case None
    let ?d = "lc_sub x y"
    show ?thesis
    proof (cases "lc_is_zero ?d")
      case True
      have "lc_val \<sigma> x - lc_val \<sigma> y = 0" for \<sigma> using lc_is_zero_val [OF True, of \<sigma>] by simp
      then have "step p b b (\<lambda>\<sigma>. int p dvd lc_val \<sigma> x - lc_val \<sigma> y) (\<lambda>_. True) (\<lambda>\<sigma>. int p dvd lc_val \<sigma> x - lc_val \<sigma> y)"
        using step_refl [OF inv] by simp
      then show ?thesis using True wo no_x None by (simp add: emit_require_eq_def)
    next
      case False
      let ?c = "rc_equal (fst (fresh_constraint_id b)) ?d lc_zero ''''"
      have "step p b (push_constraint ?c (snd (fresh_constraint_id b))) (\<lambda>\<sigma>. row_holds p \<sigma> ?c) (\<lambda>_. True) (\<lambda>\<sigma>. row_holds p \<sigma> ?c)"
        using below by (intro step_fresh_push [OF inv wo]) (simp add: below_intros)
      then show ?thesis using False wo no_x None by (simp add: emit_require_eq_def split_beta)
    qed
  qed
qed

lemma step_consume3:
  assumes "binv p b"
  shows "step p b (consume_pending z (consume_pending y (consume_pending x b))) (\<lambda>_. True) (\<lambda>_. True) (\<lambda>_. True)"
  by (rule step_then [OF step_consume2 [OF assms] step_consume [OF stepD(1) [OF step_consume2 [OF assms]]]]) simp

lemma emit_require_eq_gated_step:
  assumes inv: "binv p b" and wo: "\<not> b_witness_only b"
    and below: "lc_below (nv b) g" "lc_below (nv b) x" "lc_below (nv b) y"
  defines "holds \<equiv> \<lambda>\<sigma>. int p dvd lc_val \<sigma> g * (lc_val \<sigma> x - lc_val \<sigma> y)"
  shows "step p b (emit_require_eq_gated g x y b) holds (\<lambda>_. True) holds" "nv (emit_require_eq_gated g x y b) = nv b"
proof -
  let ?b = "consume_pending g (consume_pending y (consume_pending x b))" and ?d = "lc_sub x y"
  let ?c = "rc_general (fst (fresh_constraint_id ?b)) g ?d lc_zero ''''"
  have 0: "step p b ?b (\<lambda>_. True) (\<lambda>_. True) (\<lambda>_. True)" by (rule step_consume3 [OF inv])
  have stable: "holds \<sigma> = holds \<sigma>'" if "eq_below (nv b) \<sigma> \<sigma>'" for \<sigma> \<sigma>'
    unfolding holds_def using that below by (simp add: f_lc_val [of "nv b" _ \<sigma> \<sigma>'])
  show "nv (emit_require_eq_gated g x y b) = nv b"
    by (simp add: emit_require_eq_gated_def Let_def split_beta)
  show "step p b (emit_require_eq_gated g x y b) holds (\<lambda>_. True) holds"
  proof (cases "lc_is_constant ?d \<and> fc_is_zero (lc_const ?d)")
    case True
    then have "lc_is_zero ?d" by (simp add: lc_is_constant_def lc_is_zero_def)
    then have "holds = (\<lambda>_. True)" using lc_is_zero_val [of ?d] by (auto simp: holds_def)
    then show ?thesis using True 0 by (simp add: emit_require_eq_gated_def)
  next
    case False
    have "step p ?b (push_constraint ?c (snd (fresh_constraint_id ?b))) (\<lambda>\<sigma>. row_holds p \<sigma> ?c) (\<lambda>_. True) (\<lambda>\<sigma>. row_holds p \<sigma> ?c)"
      using below wo by (intro step_fresh_push stepD(1) [OF 0]) (simp_all add: below_intros)
    then have "step p ?b (emit_require_eq_gated g x y b) holds (\<lambda>_. True) holds"
      using False by (auto simp: emit_require_eq_gated_def Let_def split_beta holds_def)
    then show ?thesis by (rule step_trans [OF 0]) (use stable in auto)
  qed
qed

section \<open>Keeping facts along a chain\<close>

lemma step_snoc:
  assumes 1: "step p b b1 Q R S" and 2: "step p b1 b2 Q2 (\<lambda>_. True) S2"
    and R: "\<And>\<sigma> \<sigma>1. eq_below (nv b1) \<sigma> \<sigma>1 \<Longrightarrow> R \<sigma> \<Longrightarrow> R \<sigma>1"
    and Q2: "\<And>\<sigma>. R \<sigma> \<Longrightarrow> S \<sigma> \<Longrightarrow> Q2 \<sigma>"
  shows "step p b b2 Q R (\<lambda>\<sigma>. S \<sigma> \<and> S2 \<sigma>)"
  by (rule step_trans [OF 1 2]) (use R Q2 in auto)

lemma step_add:
  assumes 1: "step p b b1 Q R S" and 2: "step p b1 b2 (\<lambda>_. True) (\<lambda>_. True) S2"
    and R: "\<And>\<sigma> \<sigma>1. eq_below (nv b1) \<sigma> \<sigma>1 \<Longrightarrow> R \<sigma> \<Longrightarrow> R \<sigma>1"
  shows "step p b b2 Q R (\<lambda>\<sigma>. S \<sigma> \<and> S2 \<sigma>)"
  by (rule step_snoc [OF 1 2 R]) simp_all

lemma step_keep:
  assumes "step p b b1 Q R S" "\<And>\<sigma> \<sigma>'. eq_below (nv b) \<sigma> \<sigma>' \<Longrightarrow> Q \<sigma> \<Longrightarrow> Q \<sigma>'"
  shows "step p b b1 Q (\<lambda>\<sigma>. R \<sigma> \<and> Q \<sigma>) S"
  using assms unfolding step_def sound_def complete_def by blast

end
