(* ===== verification/Builder_Bits.thy ===== *)
theory Builder_Bits
  imports Builder_Eq
begin

text \<open>
  The builder's test for zero, bit decompositions, comparisons and wrapping subtraction, over a
  prime field.
\<close>

section \<open>The test for zero\<close>

lemma inverse_choice:
  assumes "nat_prime p"
  shows "\<exists>g. \<forall>x. \<not> int p dvd x \<longrightarrow> int p dvd x * g x - 1"
proof (rule choice, rule allI)
  fix x
  show "\<exists>y. \<not> int p dvd x \<longrightarrow> int p dvd x * y - 1"
  proof (cases "int p dvd x")
    case False
    then have "\<not> p dvd nat \<bar>x\<bar>" by (simp add: nat_abs_dvd_iff)
    then have "coprime (int (nat \<bar>x\<bar>)) (int p)" using nat_prime_coprime [OF assms] by (simp only: coprime_int_iff)
    then have "coprime x (int p)" by simp
    then obtain u v where "u * x + v * int p = 1" using bezout_int [of x "int p"] by auto
    then have "x * u - 1 = int p * (- v)" by (simp add: algebra_simps)
    then show ?thesis by (metis dvd_triv_left)
  qed simp
qed

lemma dvd_from_diff: "int p dvd x - y \<Longrightarrow> int p dvd y \<Longrightarrow> int p dvd x"
  by (metis diff_add_cancel dvd_add)

lemma is_zero_sound:
  assumes "nat_prime p" "int p dvd pr - x * v" "int p dvd io - x * (1 - pr)" "int p dvd io"
  shows "int p dvd (1 - pr) - of_bool (int p dvd x)"
proof (cases "int p dvd x")
  case True
  then have "int p dvd pr" using dvd_from_diff [OF assms(2)] by simp
  then show ?thesis using True by simp
next
  case False
  have "int p dvd x * (1 - pr)" using dvd_from_diff [OF dvd_diff_sym [OF assms(3)] assms(4)] .
  then show ?thesis using False assms(1) by (simp add: int_prime_dvd_mult)
qed

lemma is_zero_complete:
  assumes "int p dvd pr - x * v" "v = (if int p dvd x then 0 else g)" "\<not> int p dvd x \<Longrightarrow> int p dvd x * g - 1"
  shows "int p dvd io - x * (1 - pr) \<Longrightarrow> int p dvd io" "int p dvd iv - v * (1 - pr) \<Longrightarrow> int p dvd iv"
proof -
  have "int p dvd x * (1 - pr) \<and> int p dvd v * (1 - pr)"
  proof (cases "int p dvd x")
    case False
    then have "int p dvd pr - 1" using dvd_diff_trans [OF assms(1)] assms(2,3) by simp
    then have "int p dvd 1 - pr" by (rule dvd_diff_sym)
    then show ?thesis by simp
  qed (use assms(2) in simp)
  then show "int p dvd io - x * (1 - pr) \<Longrightarrow> int p dvd io" "int p dvd iv - v * (1 - pr) \<Longrightarrow> int p dvd iv"
    using dvd_from_diff by blast+
qed

lemma emit_is_zero_emits:
  assumes inv: "binv p b" and wo: "\<not> b_witness_only b" and prime: "nat_prime p" and room: "nv b + 10 \<le> 2 ^ 32"
    and below: "lc_below (nv b) x"
  shows "\<exists>r b'. emit_is_zero x b = Some (r, b') \<and>
    emits p 10 b r b' (\<lambda>_. True) (\<lambda>\<sigma> z. int p dvd z - of_bool (int p dvd lc_val \<sigma> x))"
proof -
  obtain g where g: "\<And>x. \<not> int p dvd x \<Longrightarrow> int p dvd x * g x - 1" using inverse_choice [OF prime] by blast
  let ?f = "\<lambda>\<sigma>. if int p dvd lc_val \<sigma> x then 0 else g (lc_val \<sigma> x)"
  let ?v = "b_next_var b" and ?b1 = "snd (alloc_advice b)"
  let ?b2 = "push_witness (Some (InverseOrZero ?v x)) ?b1"
  let ?R = "\<lambda>\<sigma>. \<sigma> ?v = ?f \<sigma>"
  have v: "unat ?v = nv b" using fresh_id [OF inv] room by simp
  have f: "?f \<sigma> = ?f \<sigma>'" if "eq_below n \<sigma> \<sigma>'" "nv b \<le> n" for n \<sigma> \<sigma>'
    using f_lc_val [OF lc_below_mono [OF below that(2)] that(1)] by simp
  have keep: "Suc (nv b) \<le> n \<Longrightarrow> eq_below n \<sigma> \<sigma>' \<Longrightarrow> ?R \<sigma> \<Longrightarrow> ?R \<sigma>'" for n \<sigma> \<sigma>'
    using f [of n \<sigma> \<sigma>'] v by (simp add: eq_below_def)
  have 1: "step p b ?b1 (\<lambda>_. True) ?R (\<lambda>_. True)" using step_alloc(2) [OF inv _ f] room by auto
  have nv1: "Suc (nv b) \<le> nv ?b1" by simp
  have 2: "step p b ?b2 (\<lambda>_. True) ?R (\<lambda>_. True)"
    by (rule step_then [OF 1 step_push_witness [OF stepD(1) [OF 1]] keep [OF nv1]])
  have inv2: "binv p ?b2" "\<not> b_witness_only ?b2" "nv ?b2 = Suc (nv b)" using stepD(1) [OF 2] wo by simp_all
  obtain pr b3 where 3: "emit_mul x (lc_var ?v) ?b2 = Some (pr, b3)"
    "emits p 3 ?b2 pr b3 (\<lambda>_. True) (\<lambda>\<sigma> z. int p dvd z - lc_val \<sigma> x * lc_val \<sigma> (lc_var ?v))"
    using emit_mul_emits [OF inv2(1,2), of x "lc_var ?v"] inv2(3) room v lc_below_mono [OF below] by auto
  note s3 = emitsD [OF 3(2)]
  let ?out = "lc_sub lc_one pr"
  have inv3: "binv p b3" "\<not> b_witness_only b3" "Suc (nv b) \<le> nv b3" "nv b3 \<le> nv b + 4" "Suc (nv b) \<le> nv ?b2"
    using stepD(1-3) [OF s3(1)] s3(3) inv2 by simp_all
  have out3: "lc_below (nv b3) ?out" "lc_below (nv b3) x" "lc_below (nv b3) (lc_var ?v)"
    using s3(2) lc_below_mono [OF below] inv3(3) v by (auto intro!: below_intros)
  note c3 = step_add [OF 2 s3(1) keep [OF inv3(5)]]
  obtain io b4 where 4: "emit_mul x ?out b3 = Some (io, b4)"
    "emits p 3 b3 io b4 (\<lambda>_. True) (\<lambda>\<sigma> z. int p dvd z - lc_val \<sigma> x * lc_val \<sigma> ?out)"
    using emit_mul_emits [OF inv3(1,2) _ out3(2,1)] inv3(4) room by auto
  note s4 = emitsD [OF 4(2)]
  have inv4: "binv p b4" "\<not> b_witness_only b4" "nv b3 \<le> nv b4" "nv b4 \<le> nv b + 7" "Suc (nv b) \<le> nv b4"
    using stepD(1-3) [OF s4(1)] s4(3) inv3 by simp_all
  note c4 = step_add [OF c3 s4(1) keep [OF inv3(3)]]
  obtain b5 where 5: "emit_require_eq io lc_zero b4 = Some b5"
    "step p b4 b5 (\<lambda>\<sigma>. int p dvd lc_val \<sigma> io - lc_val \<sigma> lc_zero) (\<lambda>_. True) (\<lambda>\<sigma>. int p dvd lc_val \<sigma> io - lc_val \<sigma> lc_zero)"
    "nv b5 = nv b4"
    using emit_require_eq_step [OF inv4(1,2) s4(2), of lc_zero] by auto
  have c5: "step p b b5 (\<lambda>_. True) ?R (\<lambda>\<sigma>. ((True \<and> int p dvd lc_val \<sigma> pr - lc_val \<sigma> x * lc_val \<sigma> (lc_var ?v)) \<and>
      int p dvd lc_val \<sigma> io - lc_val \<sigma> x * lc_val \<sigma> ?out) \<and> int p dvd lc_val \<sigma> io - lc_val \<sigma> lc_zero)"
  proof (rule step_snoc [OF c4 5(2) keep [OF inv4(5)]])
    fix \<sigma> assume "?R \<sigma>" "(True \<and> int p dvd lc_val \<sigma> pr - lc_val \<sigma> x * lc_val \<sigma> (lc_var ?v)) \<and> int p dvd lc_val \<sigma> io - lc_val \<sigma> x * lc_val \<sigma> ?out"
    then show "int p dvd lc_val \<sigma> io - lc_val \<sigma> lc_zero"
      using is_zero_complete(1) [of p "lc_val \<sigma> pr" "lc_val \<sigma> x" "\<sigma> ?v" "g (lc_val \<sigma> x)" "lc_val \<sigma> io"] g by simp
  qed
  let ?b6 = "consume_pending ?out b5"
  have 6: "step p b5 ?b6 (\<lambda>_. True) (\<lambda>_. True) (\<lambda>_. True)" by (rule step_consume [OF stepD(1) [OF 5(2)]])
  have inv6: "binv p ?b6" "\<not> b_witness_only ?b6" "nv ?b6 = nv b4" "Suc (nv b) \<le> nv ?b6" "Suc (nv b) \<le> nv b5"
    using stepD(1,3) [OF 6] stepD(3) [OF 5(2)] 5(3) inv4 by simp_all
  have out6: "lc_below (nv ?b6) ?out" "lc_below (nv ?b6) (lc_var ?v)"
    using out3 inv4(3) inv6(3) by (auto intro: lc_below_mono)
  obtain iv b7 where 7: "emit_mul (lc_var ?v) ?out ?b6 = Some (iv, b7)"
    "emits p 3 ?b6 iv b7 (\<lambda>_. True) (\<lambda>\<sigma> z. int p dvd z - lc_val \<sigma> (lc_var ?v) * lc_val \<sigma> ?out)"
    using emit_mul_emits [OF inv6(1,2) _ out6(2,1)] inv6(3) inv4(4) room by auto
  note s7 = emitsD [OF 7(2)]
  have inv7: "binv p b7" "\<not> b_witness_only b7" "nv b4 \<le> nv b7" "nv b7 \<le> nv b + 10" "Suc (nv b) \<le> nv b7"
    using stepD(1-3) [OF s7(1)] s7(3) inv6 inv4 by simp_all
  note c7 = step_add [OF step_add [OF c5 6 keep [OF inv6(5)]] s7(1) keep [OF inv6(4)]]
  obtain b8 where 8: "emit_require_eq iv lc_zero b7 = Some b8"
    "step p b7 b8 (\<lambda>\<sigma>. int p dvd lc_val \<sigma> iv - lc_val \<sigma> lc_zero) (\<lambda>_. True) (\<lambda>\<sigma>. int p dvd lc_val \<sigma> iv - lc_val \<sigma> lc_zero)"
    "nv b8 = nv b7"
    using emit_require_eq_step [OF inv7(1,2) s7(2), of lc_zero] by auto
  have c8: "step p b b8 (\<lambda>_. True) ?R (\<lambda>\<sigma>. (((((True \<and> int p dvd lc_val \<sigma> pr - lc_val \<sigma> x * lc_val \<sigma> (lc_var ?v)) \<and>
      int p dvd lc_val \<sigma> io - lc_val \<sigma> x * lc_val \<sigma> ?out) \<and> int p dvd lc_val \<sigma> io - lc_val \<sigma> lc_zero) \<and> True) \<and>
      int p dvd lc_val \<sigma> iv - lc_val \<sigma> (lc_var ?v) * lc_val \<sigma> ?out) \<and> int p dvd lc_val \<sigma> iv - lc_val \<sigma> lc_zero)"
  proof (rule step_snoc [OF c7 8(2) keep [OF inv7(5)]])
    fix \<sigma> assume "?R \<sigma>" "((((True \<and> int p dvd lc_val \<sigma> pr - lc_val \<sigma> x * lc_val \<sigma> (lc_var ?v)) \<and>
      int p dvd lc_val \<sigma> io - lc_val \<sigma> x * lc_val \<sigma> ?out) \<and> int p dvd lc_val \<sigma> io - lc_val \<sigma> lc_zero) \<and> True) \<and>
      int p dvd lc_val \<sigma> iv - lc_val \<sigma> (lc_var ?v) * lc_val \<sigma> ?out"
    then show "int p dvd lc_val \<sigma> iv - lc_val \<sigma> lc_zero"
      using is_zero_complete(2) [of p "lc_val \<sigma> pr" "lc_val \<sigma> x" "\<sigma> ?v" "g (lc_val \<sigma> x)" "lc_val \<sigma> iv"] g by simp
  qed
  have "step p b b8 (\<lambda>_. True) (\<lambda>_. True) (\<lambda>\<sigma>. int p dvd lc_val \<sigma> ?out - of_bool (int p dvd lc_val \<sigma> x))"
  proof (rule step_weaken [OF c8])
    fix \<sigma> assume "(((((True \<and> int p dvd lc_val \<sigma> pr - lc_val \<sigma> x * lc_val \<sigma> (lc_var ?v)) \<and>
      int p dvd lc_val \<sigma> io - lc_val \<sigma> x * lc_val \<sigma> ?out) \<and> int p dvd lc_val \<sigma> io - lc_val \<sigma> lc_zero) \<and> True) \<and>
      int p dvd lc_val \<sigma> iv - lc_val \<sigma> (lc_var ?v) * lc_val \<sigma> ?out) \<and> int p dvd lc_val \<sigma> iv - lc_val \<sigma> lc_zero"
    then show "int p dvd lc_val \<sigma> ?out - of_bool (int p dvd lc_val \<sigma> x)"
      using is_zero_sound [OF prime, of "lc_val \<sigma> pr" "lc_val \<sigma> x" "\<sigma> ?v" "lc_val \<sigma> io"] by simp
  qed simp_all
  then have "emits p 10 b ?out b8 (\<lambda>_. True) (\<lambda>\<sigma> z. int p dvd z - of_bool (int p dvd lc_val \<sigma> x))"
    using 8(3) inv7(3,4) inv4(3) lc_below_mono [OF out3(1)] by (intro emitsI) auto
  moreover have "emit_is_zero x b = Some (?out, b8)"
    using 3(1) 4(1) 5(1) 7(1) 8(1) by (simp add: emit_is_zero_def Let_def split_beta)
  ultimately show ?thesis by blast
qed

section \<open>Binary digits of a residue\<close>

lemma bit_sum: "0 \<le> m \<Longrightarrow> m < 2 ^ n \<Longrightarrow> (\<Sum>i<n. 2 ^ i * of_bool (bit m i)) = (m :: int)"
  using take_bit_sum [of n m] by (simp add: take_bit_int_eq_self push_bit_eq_mult mult.commute lessThan_atLeast0)

lemma bits_unique:
  assumes p: "nat_prime p" and n: "2 ^ n \<le> int p" and bits: "\<And>i. i < n \<Longrightarrow> is_bit p (x i)"
    and V: "V = (\<Sum>i<n. 2 ^ i * x i)"
  shows "V mod int p < 2 ^ n \<and> (\<forall>i<n. int p dvd x i - of_bool (bit (V mod int p) i))"
proof -
  define c where "c = (\<lambda>i. \<not> int p dvd x i)"
  define N :: int where "N = horner_sum of_bool 2 (map c [0..<n])"
  have x: "int p dvd x i - of_bool (c i)" if "i < n" for i
    using is_bit_cases [OF p bits [OF that]] by (auto simp: c_def)
  have N: "0 \<le> N" "N < 2 ^ n" "bit N i \<longleftrightarrow> i < n \<and> c i" for i
    using horner_sum_of_bool_2_less [of "map c [0..<n]", where 'a = int]
    by (auto simp: N_def bit_horner_sum_bit_iff possible_bit_def intro!: horner_sum_nonnegative)
  have "(\<Sum>i<n. 2 ^ i * of_bool (bit N i)) = (\<Sum>i<n. 2 ^ i * of_bool (c i) :: int)" by (rule sum.cong) (simp_all add: N(3))
  then have "N = (\<Sum>i<n. 2 ^ i * of_bool (c i))" using bit_sum [OF N(1,2)] by simp
  then have "V - N = (\<Sum>i<n. 2 ^ i * (x i - of_bool (c i)))" by (simp add: V sum_subtractf right_diff_distrib)
  then have "int p dvd V - N" using x by (auto intro!: dvd_sum dvd_mult)
  then have "V mod int p = N mod int p" by (simp add: mod_eq_dvd_iff)
  then have "V mod int p = N" using N(1,2) n by simp
  then show ?thesis using N x by auto
qed

lemma low_digit:
  assumes m: "V mod int p < 2 ^ n" and n: "0 < n" and p: "0 < p"
  shows "is_bit p (V - (\<Sum>j<n - 1. 2 ^ (j + 1) * of_bool (bit (V mod int p) (j + 1))))"
proof -
  let ?M = "V mod int p"
  obtain k where k: "n = Suc k" using n by (cases n) auto
  have "?M = (\<Sum>i<Suc k. 2 ^ i * of_bool (bit ?M i))" using bit_sum [of ?M n] m p k by simp
  also have "\<dots> = of_bool (bit ?M 0) + (\<Sum>j<k. 2 ^ (j + 1) * of_bool (bit ?M (j + 1)))"
    by (subst sum.lessThan_Suc_shift) simp
  finally have "V - (\<Sum>j<k. 2 ^ (j + 1) * of_bool (bit ?M (j + 1))) - of_bool (bit ?M 0) = V - ?M" by linarith
  moreover have "int p dvd V - ?M" by (simp add: dvd_minus_mod)
  ultimately have "int p dvd V - (\<Sum>j<k. 2 ^ (j + 1) * of_bool (bit ?M (j + 1))) - of_bool (bit ?M 0)" by (simp only:)
  then have "is_bit p (V - (\<Sum>j<k. 2 ^ (j + 1) * of_bool (bit ?M (j + 1)))) \<longleftrightarrow> is_bit p (of_bool (bit ?M 0))" by (rule is_bit_cong)
  then show ?thesis using k by (simp split: if_split)
qed

section \<open>Decomposition\<close>

lemma alloc_advices_step:
  fixes f :: "nat \<Rightarrow> assignment \<Rightarrow> int"
  assumes "binv p b" "nv b + k \<le> 2 ^ 32" "\<And>i \<sigma> \<sigma>'. eq_below (nv b) \<sigma> \<sigma>' \<Longrightarrow> f i \<sigma> = f i \<sigma>'"
    "alloc_advices k b = (vs, b')"
  shows "step p b b' (\<lambda>_. True) (\<lambda>\<sigma>. \<forall>i<k. \<sigma> (vs ! i) = f i \<sigma>) (\<lambda>_. True) \<and> nv b' = nv b + k \<and> length vs = k \<and>
    (\<forall>i<k. unat (vs ! i) = nv b + i)"
  using assms
proof (induction k arbitrary: b f vs)
  case 0
  then show ?case using step_refl by simp
next
  case (Suc k)
  let ?v = "b_next_var b" and ?b1 = "snd (alloc_advice b)"
  obtain vs1 b2 where vs1: "alloc_advices k ?b1 = (vs1, b2)" by fastforce
  then have 1: "alloc_advices k ?b1 = (vs1, b')" "vs = ?v # vs1"
    using Suc.prems(4) by (simp_all add: Let_def split_beta)
  have room: "nv b < 2 ^ 32" using Suc.prems(2) by simp
  have v: "unat ?v = nv b" by (rule fresh_id [OF Suc.prems(1) room])
  have s1: "step p b ?b1 (\<lambda>_. True) (\<lambda>\<sigma>. \<sigma> ?v = f 0 \<sigma>) (\<lambda>_. True)"
    by (rule step_alloc(2) [OF Suc.prems(1) room Suc.prems(3)])
  have below: "eq_below (nv b) \<sigma> \<sigma>'" if "eq_below (nv ?b1) \<sigma> \<sigma>'" for \<sigma> \<sigma>'
    using that by (simp add: eq_below_def)
  have IH: "step p ?b1 b' (\<lambda>_. True) (\<lambda>\<sigma>. \<forall>i<k. \<sigma> (vs1 ! i) = f (Suc i) \<sigma>) (\<lambda>_. True) \<and> nv b' = nv ?b1 + k \<and>
      length vs1 = k \<and> (\<forall>i<k. unat (vs1 ! i) = nv ?b1 + i)"
    by (rule Suc.IH [OF stepD(1) [OF s1] _ _ 1(1)]) (use Suc.prems(2,3) below in auto)
  have "step p b b' (\<lambda>_. True) (\<lambda>\<sigma>. \<forall>i<Suc k. \<sigma> (vs ! i) = f i \<sigma>) (\<lambda>_. True)"
  proof (rule step_trans [OF s1 conjunct1 [OF IH]])
    fix \<sigma>1 \<sigma>2 assume e: "eq_below (nv ?b1) \<sigma>1 \<sigma>2" and r: "\<sigma>1 ?v = f 0 \<sigma>1" "\<forall>i<k. \<sigma>2 (vs1 ! i) = f (Suc i) \<sigma>2"
    have "\<sigma>2 ?v = f 0 \<sigma>2" using e r(1) v Suc.prems(3) [OF below [OF e]] by (simp add: eq_below_def)
    then show "\<forall>i<Suc k. \<sigma>2 (vs ! i) = f i \<sigma>2" using r(2) by (auto simp: 1(2) nth_Cons split: nat.split)
  qed simp_all
  then show ?case using IH v by (auto simp: 1(2) nth_Cons split: nat.split)
qed

lemma emit_high_bits_step:
  assumes "binv p b" "\<not> b_witness_only b" "\<forall>v \<in> set vs. unat v < nv b" "lc_below (nv b) acc"
    "emit_high_bits val i vs acc pow b = (acc', b')"
  shows "step p b b' (\<lambda>\<sigma>. \<forall>v \<in> set vs. is_bit p (\<sigma> v)) (\<lambda>_. True) (\<lambda>\<sigma>. \<forall>v \<in> set vs. is_bit p (\<sigma> v)) \<and> nv b' = nv b \<and>
    lc_below (nv b) acc' \<and>
    (\<forall>\<sigma>. lc_val \<sigma> acc' = lc_val \<sigma> acc + fc_big pow * (\<Sum>j<length vs. 2 ^ (j + 1) * \<sigma> (vs ! j)))"
  using assms
proof (induction vs arbitrary: i acc pow b)
  case Nil
  then show ?case using step_refl by simp
next
  case (Cons v vs)
  let ?b0 = "push_witness (Some (Bit v val (of_nat i + 1))) b"
  let ?c = "rc_general (fst (fresh_constraint_id ?b0)) (lc_var v) (lc_var v) (lc_var v) ''''"
  let ?b1 = "push_constraint ?c (snd (fresh_constraint_id ?b0))"
  let ?pow = "fc_mul pow (fc_from_i64 2)"
  let ?acc = "lc_add acc (lc_scale (lc_var v) ?pow)"
  have eq: "emit_high_bits val (i + 1) vs ?acc ?pow ?b1 = (acc', b')"
    using Cons.prems(5) by (simp add: Let_def split_beta)
  have 0: "step p b ?b0 (\<lambda>_. True) (\<lambda>_. True) (\<lambda>_. True)" by (rule step_push_witness [OF Cons.prems(1)])
  have row: "row_holds p \<sigma> ?c \<longleftrightarrow> is_bit p (\<sigma> v)" for \<sigma> by (simp add: is_bit_def algebra_simps)
  have "step p ?b0 ?b1 (\<lambda>\<sigma>. row_holds p \<sigma> ?c) (\<lambda>_. True) (\<lambda>\<sigma>. row_holds p \<sigma> ?c)"
    using Cons.prems(2,3) by (intro step_fresh_push stepD(1) [OF 0]) simp_all
  then have 1: "step p b ?b1 (\<lambda>\<sigma>. is_bit p (\<sigma> v)) (\<lambda>_. True) (\<lambda>\<sigma>. is_bit p (\<sigma> v))"
    unfolding row by (rule step_trans [OF 0]) (use Cons.prems(3) in \<open>auto simp: eq_below_def\<close>)
  have IH: "step p ?b1 b' (\<lambda>\<sigma>. \<forall>v \<in> set vs. is_bit p (\<sigma> v)) (\<lambda>_. True) (\<lambda>\<sigma>. \<forall>v \<in> set vs. is_bit p (\<sigma> v)) \<and> nv b' = nv ?b1 \<and>
      lc_below (nv ?b1) acc' \<and>
      (\<forall>\<sigma>. lc_val \<sigma> acc' = lc_val \<sigma> ?acc + fc_big ?pow * (\<Sum>j<length vs. 2 ^ (j + 1) * \<sigma> (vs ! j)))"
    using Cons.prems by (intro Cons.IH [OF stepD(1) [OF 1] _ _ _ eq]) (auto intro!: below_intros)
  have "step p b b' (\<lambda>\<sigma>. \<forall>v \<in> set (v # vs). is_bit p (\<sigma> v)) (\<lambda>_. True) (\<lambda>\<sigma>. \<forall>v \<in> set (v # vs). is_bit p (\<sigma> v))"
  proof (rule step_trans [OF 1 conjunct1 [OF IH]])
    fix \<sigma> \<sigma>1 assume "\<forall>v \<in> set (v # vs). is_bit p (\<sigma> v)" "eq_below (nv b) \<sigma> \<sigma>1"
    then show "\<forall>v \<in> set vs. is_bit p (\<sigma>1 v)" using Cons.prems(3) by (simp add: eq_below_def)
  qed simp_all
  moreover have "(\<Sum>j<Suc (length vs). 2 ^ (j + 1) * \<sigma> ((v # vs) ! j)) = 2 * \<sigma> v + 2 * (\<Sum>j<length vs. 2 ^ (j + 1) * \<sigma> (vs ! j))" for \<sigma> :: assignment
    by (subst sum.lessThan_Suc_shift) (simp add: sum_distrib_left mult.assoc)
  ultimately show ?case using IH by (simp add: algebra_simps)
qed

text \<open>What a decomposition into \<open>n\<close> bits says of the value \<open>V\<close>: it is below \<open>2 ^ n\<close>, and the results are
  its binary digits.\<close>

definition digits_of :: "nat \<Rightarrow> nat \<Rightarrow> int \<Rightarrow> lin_comb list \<Rightarrow> assignment \<Rightarrow> bool" where
  "digits_of p n V bits \<sigma> \<longleftrightarrow> V mod int p < 2 ^ n \<and>
    (\<forall>i<n. int p dvd lc_val \<sigma> (bits ! i) - of_bool (bit (V mod int p) i))"

lemma note_bits_step:
  assumes inv: "binv p b" and bits: "bits \<noteq> []" "\<And>x. x \<in> set bits \<Longrightarrow> lc_below (nv b) x"
    "\<And>x \<sigma>. x \<in> set bits \<Longrightarrow> bsem p b \<sigma> \<Longrightarrow> is_bit p (lc_val \<sigma> x)"
  shows "step p b (note_bits high bits b) (\<lambda>_. True) (\<lambda>_. True) (\<lambda>_. True)" "nv (note_bits high bits b) = nv b"
proof -
  have hd: "bits ! 0 \<in> set bits" using bits(1) by simp
  show "step p b (note_bits high bits b) (\<lambda>_. True) (\<lambda>_. True) (\<lambda>_. True)"
  proof (cases "one_var (bits ! 0)")
    case None
    then show ?thesis unfolding note_bits_def using bits by (auto intro!: step_refl [OF inv] step_computed [OF inv])
  next
    case (Some v)
    have "is_bit p (\<sigma> v)" if "bsem p b \<sigma>" for \<sigma> using bits(3) [OF hd that] one_var_lc_val [OF Some] by simp
    then show ?thesis unfolding note_bits_def using bits Some one_var_below [OF Some bits(2) [OF hd]]
      by (auto intro!: step_refl [OF inv] step_computed [OF inv] step_mark [OF inv])
  qed
  show "nv (note_bits high bits b) = nv b" by (simp add: note_bits_def split: option.split)
qed

lemma decompose_bits_step:
  assumes inv: "binv p b" and wo: "\<not> b_witness_only b" and prime: "nat_prime p" and n: "n \<le> 253" "2 ^ n \<le> int p"
    and room: "nv b + n \<le> 2 ^ 32" and below: "lc_below (nv b) x"
  shows "\<exists>bits b'. decompose_bits x n b = Some (bits, b') \<and>
    step p b b' (\<lambda>\<sigma>. lc_val \<sigma> x mod int p < 2 ^ n) (\<lambda>_. True) (\<lambda>\<sigma>. digits_of p n (lc_val \<sigma> x) bits \<sigma>) \<and>
    length bits = n \<and> (\<forall>y \<in> set bits. lc_below (nv b') y) \<and> nv b' \<le> nv b + n"
proof (cases "n = 0")
  case True
  let ?c = "rc_equal (fst (fresh_constraint_id b)) x lc_zero ''''"
  have p0: "0 < p" using nat_prime_gt_1 [OF prime] by simp
  have row: "row_holds p \<sigma> ?c \<longleftrightarrow> lc_val \<sigma> x mod int p < 2 ^ 0" for \<sigma>
  proof -
    have "0 \<le> lc_val \<sigma> x mod int p" using p0 by simp
    then show ?thesis by (simp add: dvd_eq_mod_eq_0) linarith
  qed
  have "step p b (push_constraint ?c (snd (fresh_constraint_id b))) (\<lambda>\<sigma>. row_holds p \<sigma> ?c) (\<lambda>_. True) (\<lambda>\<sigma>. row_holds p \<sigma> ?c)"
    using below by (intro step_fresh_push [OF inv wo]) (simp add: below_intros)
  then show ?thesis unfolding row
    by (simp add: True decompose_bits_def decompose_bits_gated_def gate_input_def split_beta digits_of_def)
next
  case False
  let ?k = "n - 1" and ?V = "lc_val" and ?M = "\<lambda>\<sigma>. lc_val \<sigma> x mod int p"
  have p0: "0 < p" using nat_prime_gt_1 [OF prime] by simp
  obtain high b1 where 1: "alloc_advices ?k b = (high, b1)" by fastforce
  obtain acc b2 where 2: "emit_high_bits x 0 high lc_zero fc_one b1 = (acc, b2)" by fastforce
  let ?low = "lc_sub x acc"
  let ?c = "rc_general (fst (fresh_constraint_id b2)) ?low (lc_sub ?low lc_one) lc_zero ''''"
  let ?b3 = "push_constraint ?c (snd (fresh_constraint_id b2))" and ?bits = "?low # map lc_var high"
  have eq: "decompose_bits x n b = Some (?bits, note_bits high ?bits ?b3)"
    using False n(1) 1 2 by (simp add: decompose_bits_def decompose_bits_gated_def gate_input_def split_beta Let_def)
  let ?R = "\<lambda>\<sigma>. \<forall>i<?k. \<sigma> (high ! i) = of_bool (bit (?M \<sigma>) (i + 1))"
  have V_eq: "?M \<sigma> = ?M \<sigma>'" if "eq_below n' \<sigma> \<sigma>'" "nv b \<le> n'" for n' \<sigma> \<sigma>'
    using f_lc_val [OF lc_below_mono [OF below that(2)] that(1)] by simp
  have s1: "step p b b1 (\<lambda>_. True) ?R (\<lambda>_. True)" "nv b1 = nv b + ?k" "length high = ?k" "\<forall>i<?k. unat (high ! i) = nv b + i"
    using alloc_advices_step [OF inv _ _ 1, of "\<lambda>i \<sigma>. of_bool (bit (?M \<sigma>) (i + 1))"] room V_eq by auto
  have inv1: "binv p b1" "\<not> b_witness_only b1" using stepD(1,3) [OF s1(1)] wo by simp_all
  have high: "unat v < nv b1" if "v \<in> set high" for v using that s1(2-4) by (auto simp: in_set_conv_nth)
  have s2: "step p b1 b2 (\<lambda>\<sigma>. \<forall>v \<in> set high. is_bit p (\<sigma> v)) (\<lambda>_. True) (\<lambda>\<sigma>. \<forall>v \<in> set high. is_bit p (\<sigma> v))"
    "nv b2 = nv b1" "lc_below (nv b1) acc" "lc_val \<sigma> acc = (\<Sum>j<?k. 2 ^ (j + 1) * \<sigma> (high ! j))" for \<sigma>
    using emit_high_bits_step [OF inv1 _ _ 2] high s1(3) by (auto simp del: power_Suc)
  have inv2: "binv p b2" "\<not> b_witness_only b2" using stepD(1,3) [OF s2(1)] inv1 by simp_all
  have keep: "?R \<sigma>'" if "eq_below (nv b1) \<sigma> \<sigma>'" "?R \<sigma>" for \<sigma> \<sigma>'
    using that V_eq [OF that(1)] s1(2-4) high by (simp add: eq_below_def)
  have row: "row_holds p \<sigma> ?c \<longleftrightarrow> is_bit p (lc_val \<sigma> ?low)" for \<sigma> by (simp add: is_bit_def)
  have below3: "lc_below (nv b1) ?low" using lc_below_mono [OF below] s1(2) s2(3) by (auto intro!: below_intros)
  have s3: "step p b2 ?b3 (\<lambda>\<sigma>. is_bit p (lc_val \<sigma> ?low)) (\<lambda>_. True) (\<lambda>\<sigma>. is_bit p (lc_val \<sigma> ?low))"
    unfolding row [symmetric] using below3 s2(2) by (intro step_fresh_push [OF inv2]) (simp add: below_intros)
  let ?Q = "\<lambda>\<sigma>. ?M \<sigma> < 2 ^ n"
  have "step p b b1 ?Q (\<lambda>\<sigma>. ?R \<sigma> \<and> ?Q \<sigma>) (\<lambda>_. True)"
    by (rule step_keep [OF step_weaken [OF s1(1)]]) (use V_eq in auto)
  then have "step p b b2 ?Q (\<lambda>\<sigma>. ?R \<sigma> \<and> ?Q \<sigma>) (\<lambda>\<sigma>. True \<and> (\<forall>v \<in> set high. is_bit p (\<sigma> v)))"
  proof (rule step_snoc [OF _ s2(1)])
    show "?R \<sigma>1 \<and> ?Q \<sigma>1" if "eq_below (nv b1) \<sigma> \<sigma>1" "?R \<sigma> \<and> ?Q \<sigma>" for \<sigma> \<sigma>1
      using keep [OF that(1)] that V_eq [OF that(1)] s1(2) by simp
    show "\<forall>v \<in> set high. is_bit p (\<sigma> v)" if "?R \<sigma> \<and> ?Q \<sigma>" for \<sigma>
      using that s1(3) by (auto simp: in_set_conv_nth split: if_split)
  qed
  then have "step p b ?b3 ?Q (\<lambda>\<sigma>. ?R \<sigma> \<and> ?Q \<sigma>)
      (\<lambda>\<sigma>. (True \<and> (\<forall>v \<in> set high. is_bit p (\<sigma> v))) \<and> is_bit p (lc_val \<sigma> ?low))"
  proof (rule step_snoc [OF _ s3])
    show "?R \<sigma>1 \<and> ?Q \<sigma>1" if "eq_below (nv b2) \<sigma> \<sigma>1" "?R \<sigma> \<and> ?Q \<sigma>" for \<sigma> \<sigma>1
      using keep [OF that(1) [unfolded s2(2)]] that V_eq [OF that(1)] s1(2) s2(2) by simp
    show "is_bit p (lc_val \<sigma> ?low)" if "?R \<sigma> \<and> ?Q \<sigma>" for \<sigma>
    proof -
      have "lc_val \<sigma> ?low = lc_val \<sigma> x - (\<Sum>j<?k. 2 ^ (j + 1) * of_bool (bit (?M \<sigma>) (j + 1)))"
        using that by (simp add: s2(4) del: power_Suc)
      then show ?thesis using low_digit [of "lc_val \<sigma> x" p n] that False p0 by simp
    qed
  qed
  then have 3: "step p b ?b3 ?Q (\<lambda>_. True) (\<lambda>\<sigma>. (\<forall>v \<in> set high. is_bit p (\<sigma> v)) \<and> is_bit p (lc_val \<sigma> ?low))"
    by (rule step_weaken) auto
  have nv3: "nv ?b3 = nv b1" using s2(2) by simp
  have noted: "step p ?b3 (note_bits high ?bits ?b3) (\<lambda>_. True) (\<lambda>_. True) (\<lambda>_. True)" "nv (note_bits high ?bits ?b3) = nv ?b3"
  proof -
    have bits: "lc_below (nv ?b3) y" "bsem p ?b3 \<sigma> \<Longrightarrow> is_bit p (lc_val \<sigma> y)" if "y \<in> set ?bits" for y \<sigma>
      using that below3 high nv3 stepD(5) [OF 3, of \<sigma>] by auto
    show "step p ?b3 (note_bits high ?bits ?b3) (\<lambda>_. True) (\<lambda>_. True) (\<lambda>_. True)" "nv (note_bits high ?bits ?b3) = nv ?b3"
      by (rule note_bits_step [OF stepD(1) [OF 3] _ bits]; simp)+
  qed
  have "step p b (note_bits high ?bits ?b3) ?Q (\<lambda>_. True) (\<lambda>\<sigma>. digits_of p n (lc_val \<sigma> x) ?bits \<sigma>)"
  proof (rule step_weaken [OF step_then [OF 3 noted(1)]])
    fix \<sigma> assume h: "(\<forall>v \<in> set high. is_bit p (\<sigma> v)) \<and> is_bit p (lc_val \<sigma> ?low)"
    let ?x = "\<lambda>i. lc_val \<sigma> (?bits ! i)"
    have "lc_val \<sigma> x = (\<Sum>i<Suc ?k. 2 ^ i * ?x i)"
      by (subst sum.lessThan_Suc_shift) (simp add: s2(4), intro sum.cong, simp_all add: s1(3))
    then have V: "lc_val \<sigma> x = (\<Sum>i<n. 2 ^ i * ?x i)" using False by simp
    have "is_bit p (?x i)" if "i < n" for i
      using that h s1(3) by (cases i) auto
    from bits_unique [OF prime n(2) this V] show "digits_of p n (lc_val \<sigma> x) ?bits \<sigma>"
      by (simp add: digits_of_def)
  qed simp_all
  then show ?thesis using eq s1(2,3) nv3 noted(2) below3 high False by auto
qed

end
