(* ===== verification/Builder_Cmp.thy ===== *)
theory Builder_Cmp
  imports Builder_Bits
begin

text \<open>
  Comparisons and wrapping subtraction of the builder: one hinted bit tells whether the difference
  borrows, and the range proof of the corrected difference leaves only the right value for it. At
  the end, the shortcut that returns bits already proven, and the gated decomposition.
\<close>

section \<open>Powers of two\<close>

lemma pow2_fc_value [simp]: "fc_big (pow2_fc n) = 2 ^ n"
proof -
  have "fc_big (((\<lambda>p. fc_mul p (fc_from_i64 2)) ^^ n) (fc_from_i64 1)) = 2 ^ n" by (induction n) simp_all
  then show ?thesis by (simp add: pow2_fc_def)
qed

context decimal_laws
begin

lemma pow2_lc_val: "lc_val \<sigma> (pow2_lc L n) = 2 ^ n"
proof -
  have "fc_wf (pow2_fc n)" unfolding pow2_fc_def by (induction n) simp_all
  then show ?thesis by (simp add: pow2_lc_def lc_constant_def fc_from_str_def fc_decimal_roundtrip lc_val_def)
qed

end

section \<open>The borrow\<close>

lemma borrow_value:
  fixes X Y :: int
  assumes x: "X mod int p < 2 ^ n" and y: "Y mod int p < 2 ^ n" and p: "2 ^ (n + 1) \<le> int p"
  shows "(X - Y + 2 ^ n) mod int p = X mod int p - Y mod int p + 2 ^ n"
    "Y mod int p \<le> X mod int p \<Longrightarrow> (X - Y) mod int p = X mod int p - Y mod int p"
    "X mod int p < Y mod int p \<Longrightarrow> (X - Y) mod int p = X mod int p - Y mod int p + int p"
proof -
  let ?x = "X mod int p" and ?y = "Y mod int p"
  have p0: "0 < int p" using p by (meson less_le_trans zero_less_numeral zero_less_power)
  have nonneg: "0 \<le> ?x" "0 \<le> ?y" using p0 by simp_all
  have small: "?x - ?y + 2 ^ n < int p" using x nonneg(2) p by simp
  have "(X - Y + 2 ^ n) mod int p = (?x - ?y + 2 ^ n) mod int p" by (metis mod_add_left_eq mod_diff_eq)
  then show "(X - Y + 2 ^ n) mod int p = ?x - ?y + 2 ^ n"
    using small nonneg y by simp
  have d: "(X - Y) mod int p = (?x - ?y) mod int p" by (metis mod_diff_eq)
  show "(X - Y) mod int p = ?x - ?y" if "?y \<le> ?x"
    using d that nonneg p0 pos_mod_bound [OF p0, of X] by simp
  show "(X - Y) mod int p = ?x - ?y + int p" if "?x < ?y"
  proof -
    have "(?x - ?y + int p) mod int p = ?x - ?y + int p"
      using that nonneg pos_mod_bound [OF p0, of Y] by (intro mod_pos_pos_trivial) linarith+
    then show ?thesis using d by simp
  qed
qed

lemma borrow_hint:
  fixes X Y :: int
  assumes x: "X mod int p < 2 ^ n" and y: "Y mod int p < 2 ^ n" and p: "2 ^ (n + 1) \<le> int p"
  shows "bit ((X - Y + 2 ^ n) mod int p) n \<longleftrightarrow> Y mod int p \<le> X mod int p"
proof -
  let ?x = "X mod int p" and ?y = "Y mod int p"
  have p0: "0 < int p" using p by (meson less_le_trans zero_less_numeral zero_less_power)
  have nonneg: "0 \<le> ?x" "0 \<le> ?y" using p0 by simp_all
  have D: "(X - Y + 2 ^ n) mod int p = ?x - ?y + 2 ^ n" by (rule borrow_value(1) [OF assms])
  have "bit (?x - ?y + 2 ^ n) n \<longleftrightarrow> odd ((?x - ?y + 2 ^ n) div 2 ^ n)" by (simp add: bit_iff_odd)
  also have "(?x - ?y + 2 ^ n) div 2 ^ n = (?x - ?y) div 2 ^ n + 1" by (rule div_add_self2) simp
  also have "(?x - ?y) div 2 ^ n = (if ?y \<le> ?x then 0 else - 1)"
    using x y nonneg int_div_pos_eq [of "?x - ?y" "2 ^ n" "- 1" "?x - ?y + 2 ^ n"] by (auto simp: div_pos_pos_trivial)
  finally show ?thesis unfolding D by auto
qed

lemma borrow_range:
  fixes X Y :: int
  assumes x: "X mod int p < 2 ^ n" and y: "Y mod int p < 2 ^ n" and p: "2 ^ (n + 1) \<le> int p"
  shows "(X - Y + (1 - of_bool (Y mod int p \<le> X mod int p)) * 2 ^ n) mod int p = (X mod int p - Y mod int p) mod 2 ^ n"
proof -
  let ?x = "X mod int p" and ?y = "Y mod int p"
  have p0: "0 < int p" using p by (meson less_le_trans zero_less_numeral zero_less_power)
  have nonneg: "0 \<le> ?x" "0 \<le> ?y" using p0 by simp_all
  show ?thesis
  proof (cases "?y \<le> ?x")
    case True
    then show ?thesis using borrow_value(2) [OF assms] x nonneg by simp
  next
    case False
    then have "(?x - ?y) mod 2 ^ n = (?x - ?y + 2 ^ n) mod 2 ^ n" by simp
    also have "\<dots> = ?x - ?y + 2 ^ n" using False y nonneg by (intro mod_pos_pos_trivial) simp_all
    finally show ?thesis using False borrow_value(1) [OF assms] by simp
  qed
qed

lemma borrow_unique:
  fixes X Y t :: int
  assumes prime: "nat_prime p" and x: "X mod int p < 2 ^ n" and y: "Y mod int p < 2 ^ n" and p: "2 ^ (n + 1) \<le> int p"
    and t: "is_bit p t" and r: "(X - Y + (1 - t) * 2 ^ n) mod int p < 2 ^ n"
  shows "int p dvd t - of_bool (Y mod int p \<le> X mod int p)"
proof -
  let ?x = "X mod int p" and ?y = "Y mod int p"
  have p0: "0 < int p" using p by (meson less_le_trans zero_less_numeral zero_less_power)
  have nonneg: "0 \<le> ?x" "0 \<le> ?y" using p0 by simp_all
  from is_bit_cases [OF prime t] show ?thesis
  proof
    assume t0: "int p dvd t"
    then have "int p dvd (X - Y + (1 - t) * 2 ^ n) - (X - Y + 2 ^ n)" by (simp add: algebra_simps)
    then have "(X - Y + (1 - t) * 2 ^ n) mod int p = (X - Y + 2 ^ n) mod int p" by (simp add: mod_eq_dvd_iff)
    then have "?x - ?y + 2 ^ n < 2 ^ n" using r borrow_value(1) [OF x y p] by simp
    then show ?thesis using t0 by simp
  next
    assume t1: "int p dvd t - 1"
    then have "int p dvd (1 - t) * 2 ^ n" by (metis dvd_diff_sym dvd_mult2)
    then have "int p dvd (X - Y + (1 - t) * 2 ^ n) - (X - Y)" by simp
    then have "(X - Y + (1 - t) * 2 ^ n) mod int p = (X - Y) mod int p" by (simp add: mod_eq_dvd_iff)
    then have "(X - Y) mod int p < 2 ^ n" using r by simp
    then have "?y \<le> ?x" using borrow_value(3) [OF x y p] nonneg y p by (cases "?y \<le> ?x") simp_all
    then show ?thesis using t1 by simp
  qed
qed

section \<open>Comparison\<close>

text \<open>The hinted bit, pinned boolean: the common start of a comparison and of a subtraction.\<close>

lemma borrow_bit_step:
  fixes F :: "assignment \<Rightarrow> int"
  assumes inv: "binv p b" and wo: "\<not> b_witness_only b" and room: "nv b < 2 ^ 32"
    and F: "\<And>\<sigma> \<sigma>'. eq_below (nv b) \<sigma> \<sigma>' \<Longrightarrow> F \<sigma> = F \<sigma>'"
    and b1: "b1 = push_witness w (snd (alloc_advice b))"
    and c: "c = rc_general (fst (fresh_constraint_id b1)) (lc_var (b_next_var b)) (lc_var (b_next_var b)) (lc_var (b_next_var b)) s"
    and b2: "b2 = push_constraint c (snd (fresh_constraint_id b1))"
  shows "step p b b2 (\<lambda>_. True) (\<lambda>\<sigma>. \<sigma> (b_next_var b) = of_bool (bit (F \<sigma>) n)) (\<lambda>\<sigma>. is_bit p (\<sigma> (b_next_var b)))"
    "nv b2 = Suc (nv b)"
proof -
  let ?v = "b_next_var b" and ?b0 = "snd (alloc_advice b)"
  let ?f = "\<lambda>\<sigma>. of_bool (bit (F \<sigma>) n) :: int"
  have v: "unat ?v = nv b" by (rule fresh_id [OF inv room])
  have b0: "binv p ?b0" using step_alloc(2) [OF inv room, of "\<lambda>_. 0"] by (auto dest: stepD(1))
  have 01: "step p ?b0 b1 (\<lambda>_. True) (\<lambda>_. True) (\<lambda>_. True)" unfolding b1 by (rule step_push_witness [OF b0])
  have 02: "step p ?b0 (snd (fresh_constraint_id b1)) (\<lambda>_. True) (\<lambda>_. True) (\<lambda>_. True)"
    by (rule step_then [OF 01 step_fresh_id [OF stepD(1) [OF 01]]]) simp
  have row: "row_holds p \<sigma> c \<longleftrightarrow> is_bit p (\<sigma> ?v)" for \<sigma> by (simp add: c is_bit_def algebra_simps)
  have "step p b b2 (\<lambda>_. True) (\<lambda>\<sigma>. \<sigma> ?v = ?f \<sigma>) (\<lambda>\<sigma>. row_holds p \<sigma> c)"
    unfolding b2
  proof (rule step_define [OF inv wo room, of ?f c ?b0])
    show "?f \<sigma> = ?f \<sigma>'" if "eq_below (nv b) \<sigma> \<sigma>'" for \<sigma> \<sigma>' using F [OF that] by simp
    show "row_holds p \<sigma> c" if "\<sigma> ?v = ?f \<sigma>" for \<sigma> unfolding row that by simp
  qed (use 02 v in \<open>simp_all add: c b1\<close>)
  then show "step p b b2 (\<lambda>_. True) (\<lambda>\<sigma>. \<sigma> ?v = ?f \<sigma>) (\<lambda>\<sigma>. is_bit p (\<sigma> ?v))" unfolding row .
  show "nv b2 = Suc (nv b)" by (simp add: b2 b1)
qed

context decimal_laws
begin

lemma emit_less_than_step:
  assumes inv: "binv p b" and wo: "\<not> b_witness_only b" and prime: "nat_prime p" and n: "n \<le> 252" "2 ^ (n + 1) \<le> int p"
    and room: "nv b + n + 4 \<le> 2 ^ 32" and below: "lc_below (nv b) x" "lc_below (nv b) y"
  defines "Q \<equiv> \<lambda>\<sigma>. lc_val \<sigma> x mod int p < 2 ^ n \<and> lc_val \<sigma> y mod int p < 2 ^ n"
  shows "\<exists>lt b'. emit_less_than L n x y b = Some (Inr (lt, b')) \<and>
    emits p (n + 4) b lt b' Q (\<lambda>\<sigma> z. Q \<sigma> \<longrightarrow> int p dvd z - of_bool (lc_val \<sigma> x mod int p < lc_val \<sigma> y mod int p))"
proof -
  let ?X = "\<lambda>\<sigma>. lc_val \<sigma> x" and ?Y = "\<lambda>\<sigma>. lc_val \<sigma> y" and ?v = "b_next_var b"
  let ?F = "\<lambda>\<sigma>. (?X \<sigma> - ?Y \<sigma> + 2 ^ n) mod int p"
  let ?d = "lc_add (lc_sub x y) (pow2_lc L n)"
  define b1 where "b1 = push_witness (Some (Bit ?v ?d (of_nat n))) (snd (alloc_advice b))"
  define c where "c = rc_general (fst (fresh_constraint_id b1)) (lc_var ?v) (lc_var ?v) (lc_var ?v) ''''"
  define b2 where "b2 = push_constraint c (snd (fresh_constraint_id b1))"
  let ?R = "\<lambda>\<sigma>. \<sigma> ?v = of_bool (bit (?F \<sigma>) n) \<and> Q \<sigma>"
  have room0: "nv b < 2 ^ 32" using room by simp
  have v: "unat ?v = nv b" by (rule fresh_id [OF inv room0])
  have XY: "?X \<sigma> = ?X \<sigma>'" "?Y \<sigma> = ?Y \<sigma>'" if "nv b \<le> k" "eq_below k \<sigma> \<sigma>'" for k \<sigma> \<sigma>'
    using f_lc_val [OF lc_below_mono [OF below(1) that(1)] that(2)] f_lc_val [OF lc_below_mono [OF below(2) that(1)] that(2)] by simp_all
  have keep: "?R \<sigma>'" if "Suc (nv b) \<le> k" "eq_below k \<sigma> \<sigma>'" "?R \<sigma>" for k \<sigma> \<sigma>'
    using that XY [of k \<sigma> \<sigma>'] v by (simp add: eq_below_def Q_def)
  have s2: "step p b b2 (\<lambda>_. True) (\<lambda>\<sigma>. \<sigma> ?v = of_bool (bit (?F \<sigma>) n)) (\<lambda>\<sigma>. is_bit p (\<sigma> ?v))"
    by (rule borrow_bit_step(1) [where F = ?F, OF inv wo room0 _ b1_def c_def b2_def]) (use XY [of "nv b"] in simp)
  have nv2: "nv b2 = Suc (nv b)" by (simp add: b2_def b1_def)
  have "step p b b2 Q (\<lambda>\<sigma>. \<sigma> ?v = of_bool (bit (?F \<sigma>) n)) (\<lambda>\<sigma>. is_bit p (\<sigma> ?v))"
    by (rule step_weaken [OF s2]) simp_all
  then have 2: "step p b b2 Q ?R (\<lambda>\<sigma>. is_bit p (\<sigma> ?v))"
    by (rule step_keep) (use XY [of "nv b"] in \<open>simp add: Q_def\<close>)
  have inv2: "binv p b2" "\<not> b_witness_only b2" using stepD(1,3) [OF s2] wo by simp_all
  let ?lt = "lc_sub lc_one (lc_var ?v)"
  have lt2: "lc_below (nv b2) ?lt" using v nv2 by (auto intro!: below_intros)
  have pow2_below: "lc_below k (pow2_lc L n)" for k by (simp add: pow2_lc_def)
  obtain lp b3 where 3: "emit_mul ?lt (pow2_lc L n) b2 = Some (lp, b3)"
    "emits p 3 b2 lp b3 (\<lambda>_. True) (\<lambda>\<sigma> z. int p dvd z - lc_val \<sigma> ?lt * lc_val \<sigma> (pow2_lc L n))"
    using emit_mul_emits [OF inv2 _ lt2 pow2_below] room nv2 by auto
  note s3 = emitsD [OF 3(2)]
  have inv3: "binv p b3" "\<not> b_witness_only b3" "nv b2 \<le> nv b3" "Suc (nv b) \<le> nv b2" "Suc (nv b) \<le> nv b3"
    using stepD(1-3) [OF s3(1)] inv2 nv2 by simp_all
  note c3 = step_add [OF 2 s3(1) keep [OF inv3(4)]]
  let ?r = "lc_add (lc_sub x y) lp"
  have r3: "lc_below (nv b3) ?r" using s3(2) lc_below_mono [OF below(1)] lc_below_mono [OF below(2)] inv3(5)
    by (auto intro!: below_intros)
  have pn: "2 ^ n \<le> int p" by (rule order_trans [OF _ n(2)]) simp
  obtain bits b4 where 4: "decompose_bits ?r n b3 = Some (bits, b4)"
    "step p b3 b4 (\<lambda>\<sigma>. lc_val \<sigma> ?r mod int p < 2 ^ n) (\<lambda>_. True) (\<lambda>\<sigma>. digits_of p n (lc_val \<sigma> ?r) bits \<sigma>)" "nv b4 \<le> nv b3 + n"
    using decompose_bits_step [OF inv3(1,2) prime _ pn _ r3] n(1) room nv2 s3(3) by auto
  have val: "lc_val \<sigma> ?r mod int p = (?X \<sigma> - ?Y \<sigma> + (1 - \<sigma> ?v) * 2 ^ n) mod int p"
    if "int p dvd lc_val \<sigma> lp - lc_val \<sigma> ?lt * lc_val \<sigma> (pow2_lc L n)" for \<sigma>
    using that by (simp add: mod_eq_dvd_iff pow2_lc_val)
  have "step p b b4 Q ?R (\<lambda>\<sigma>. (is_bit p (\<sigma> ?v) \<and> int p dvd lc_val \<sigma> lp - lc_val \<sigma> ?lt * lc_val \<sigma> (pow2_lc L n)) \<and>
      digits_of p n (lc_val \<sigma> ?r) bits \<sigma>)"
  proof (rule step_snoc [OF c3 4(2) keep [OF inv3(5)]])
    fix \<sigma> assume R: "?R \<sigma>" and S: "is_bit p (\<sigma> ?v) \<and> int p dvd lc_val \<sigma> lp - lc_val \<sigma> ?lt * lc_val \<sigma> (pow2_lc L n)"
    have Q: "?X \<sigma> mod int p < 2 ^ n" "?Y \<sigma> mod int p < 2 ^ n" using R by (simp_all add: Q_def)
    then have "\<sigma> ?v = of_bool (?Y \<sigma> mod int p \<le> ?X \<sigma> mod int p)" using R borrow_hint [OF Q n(2)] by simp
    then have "lc_val \<sigma> ?r mod int p = (?X \<sigma> mod int p - ?Y \<sigma> mod int p) mod 2 ^ n"
      using val [OF conjunct2 [OF S]] borrow_range [OF Q n(2)] by simp
    then show "lc_val \<sigma> ?r mod int p < 2 ^ n" by simp
  qed
  then have "step p b b4 Q (\<lambda>_. True) (\<lambda>\<sigma>. Q \<sigma> \<longrightarrow> int p dvd lc_val \<sigma> ?lt - of_bool (?X \<sigma> mod int p < ?Y \<sigma> mod int p))"
  proof (rule step_weaken)
    fix \<sigma> assume S: "(is_bit p (\<sigma> ?v) \<and> int p dvd lc_val \<sigma> lp - lc_val \<sigma> ?lt * lc_val \<sigma> (pow2_lc L n)) \<and>
      digits_of p n (lc_val \<sigma> ?r) bits \<sigma>"
    show "Q \<sigma> \<longrightarrow> int p dvd lc_val \<sigma> ?lt - of_bool (?X \<sigma> mod int p < ?Y \<sigma> mod int p)"
    proof
      assume "Q \<sigma>"
      then have "int p dvd \<sigma> ?v - of_bool (?Y \<sigma> mod int p \<le> ?X \<sigma> mod int p)"
        using S val [of \<sigma>] by (intro borrow_unique [OF prime _ _ n(2)]) (auto simp: Q_def digits_of_def)
      then have "int p dvd (1 - \<sigma> ?v) - (1 - of_bool (?Y \<sigma> mod int p \<le> ?X \<sigma> mod int p))"
        by (simp add: dvd_diff_commute)
      moreover have "1 - of_bool (?Y \<sigma> mod int p \<le> ?X \<sigma> mod int p) = (of_bool (?X \<sigma> mod int p < ?Y \<sigma> mod int p) :: int)"
        by (cases "?Y \<sigma> mod int p \<le> ?X \<sigma> mod int p") simp_all
      ultimately show "int p dvd lc_val \<sigma> ?lt - of_bool (?X \<sigma> mod int p < ?Y \<sigma> mod int p)" by simp
    qed
  qed simp_all
  then have "emits p (n + 4) b ?lt b4 Q (\<lambda>\<sigma> z. Q \<sigma> \<longrightarrow> int p dvd z - of_bool (?X \<sigma> mod int p < ?Y \<sigma> mod int p))"
    using 4(3) s3(3) nv2 stepD(2) [OF 4(2)] inv3(3) lc_below_mono [OF lt2] by (intro emitsI) auto
  moreover have "emit_less_than L n x y b = Some (Inr (?lt, b4))"
    using n(1) 3(1) 4(1)
    by (simp add: emit_less_than_def emit_less_than_gated_def gate_input_def pin_dead_def pin_dead_to_def Let_def split_beta
        b1_def c_def b2_def decompose_bits_def)
  ultimately show ?thesis by blast
qed

lemma emit_less_than_too_wide: "252 < n \<Longrightarrow> emit_less_than L n x y b = Some (Inl Comparison_too_wide)"
  by (simp add: emit_less_than_def emit_less_than_gated_def)

text \<open>\<open>emit_booleanity\<close> pushes the same row and also records the bit.\<close>

lemma emit_wrapping_sub_step:
  assumes inv: "binv p b" and wo: "\<not> b_witness_only b" and prime: "nat_prime p" and n: "n \<le> 253" "2 ^ (n + 1) \<le> int p"
    and room: "nv b + n + 1 \<le> 2 ^ 32" and below: "lc_below (nv b) x" "lc_below (nv b) y"
  defines "Q \<equiv> \<lambda>\<sigma>. lc_val \<sigma> x mod int p < 2 ^ n \<and> lc_val \<sigma> y mod int p < 2 ^ n"
  shows "\<exists>r b'. emit_wrapping_sub L n x y b = Some (r, b') \<and>
    emits p (n + 1) b r b' Q (\<lambda>\<sigma> z. Q \<sigma> \<longrightarrow> z mod int p = (lc_val \<sigma> x mod int p - lc_val \<sigma> y mod int p) mod 2 ^ n)"
proof -
  let ?X = "\<lambda>\<sigma>. lc_val \<sigma> x" and ?Y = "\<lambda>\<sigma>. lc_val \<sigma> y" and ?v = "b_next_var b"
  let ?F = "\<lambda>\<sigma>. (?X \<sigma> - ?Y \<sigma> + 2 ^ n) mod int p"
  let ?d = "lc_add (lc_sub x y) (pow2_lc L n)"
  define b1 where "b1 = push_witness (Some (Bit ?v ?d (of_nat n))) (snd (alloc_advice b))"
  define c where "c = rc_general (fst (fresh_constraint_id b1)) (lc_var ?v) (lc_var ?v) (lc_var ?v) wrap_note"
  define b2 where "b2 = push_constraint c (snd (fresh_constraint_id b1))"
  define b3 where "b3 = b2\<lparr>b_boolean := insert ?v (b_boolean b2)\<rparr>"
  let ?R = "\<lambda>\<sigma>. \<sigma> ?v = of_bool (bit (?F \<sigma>) n) \<and> Q \<sigma>"
  have room0: "nv b < 2 ^ 32" using room by simp
  have v: "unat ?v = nv b" by (rule fresh_id [OF inv room0])
  have XY: "?X \<sigma> = ?X \<sigma>'" "?Y \<sigma> = ?Y \<sigma>'" if "nv b \<le> k" "eq_below k \<sigma> \<sigma>'" for k \<sigma> \<sigma>'
    using f_lc_val [OF lc_below_mono [OF below(1) that(1)] that(2)] f_lc_val [OF lc_below_mono [OF below(2) that(1)] that(2)] by simp_all
  have keep: "?R \<sigma>'" if "Suc (nv b) \<le> k" "eq_below k \<sigma> \<sigma>'" "?R \<sigma>" for k \<sigma> \<sigma>'
    using that XY [of k \<sigma> \<sigma>'] v by (simp add: eq_below_def Q_def)
  have s2: "step p b b2 (\<lambda>_. True) (\<lambda>\<sigma>. \<sigma> ?v = of_bool (bit (?F \<sigma>) n)) (\<lambda>\<sigma>. is_bit p (\<sigma> ?v))"
    by (rule borrow_bit_step(1) [where F = ?F, OF inv wo room0 _ b1_def c_def b2_def]) (use XY [of "nv b"] in simp)
  have nv2: "nv b2 = Suc (nv b)" "nv b3 = Suc (nv b)" by (simp_all add: b3_def b2_def b1_def)
  have "step p b b2 Q (\<lambda>\<sigma>. \<sigma> ?v = of_bool (bit (?F \<sigma>) n)) (\<lambda>\<sigma>. is_bit p (\<sigma> ?v))"
    by (rule step_weaken [OF s2]) simp_all
  then have 2: "step p b b2 Q ?R (\<lambda>\<sigma>. is_bit p (\<sigma> ?v))"
    by (rule step_keep) (use XY [of "nv b"] in \<open>simp add: Q_def\<close>)
  have 23: "step p b2 b3 (\<lambda>_. True) (\<lambda>_. True) (\<lambda>_. True)"
    unfolding b3_def by (rule step_mark [OF stepD(1) [OF s2]]) (use v nv2 stepD(5) [OF s2] in auto)
  have 3: "step p b b3 Q ?R (\<lambda>\<sigma>. is_bit p (\<sigma> ?v))"
    by (rule step_then [OF 2 23 keep [OF eq_refl [OF nv2(1) [symmetric]]]])
  have inv3: "binv p b3" "\<not> b_witness_only b3" "Suc (nv b) \<le> nv b3" using stepD(1,3) [OF 3] wo nv2 by simp_all
  let ?r = "lc_add (lc_sub x y) (lc_scale (lc_sub lc_one (lc_var ?v)) (pow2_fc n))"
  have r3: "lc_below (nv b3) ?r" using v lc_below_mono [OF below(1)] lc_below_mono [OF below(2)] inv3(3)
    by (auto intro!: below_intros)
  have pn: "2 ^ n \<le> int p" by (rule order_trans [OF _ n(2)]) simp
  obtain bits b4 where 4: "decompose_bits ?r n b3 = Some (bits, b4)"
    "step p b3 b4 (\<lambda>\<sigma>. lc_val \<sigma> ?r mod int p < 2 ^ n) (\<lambda>_. True) (\<lambda>\<sigma>. digits_of p n (lc_val \<sigma> ?r) bits \<sigma>)" "nv b4 \<le> nv b3 + n"
    using decompose_bits_step [OF inv3(1,2) prime n(1) pn _ r3] room nv2 by auto
  have val: "lc_val \<sigma> ?r = ?X \<sigma> - ?Y \<sigma> + (1 - \<sigma> ?v) * 2 ^ n" for \<sigma> by (simp add: algebra_simps)
  have hon: "lc_val \<sigma> ?r mod int p = (?X \<sigma> mod int p - ?Y \<sigma> mod int p) mod 2 ^ n"
    if q: "Q \<sigma>" and t: "int p dvd \<sigma> ?v - of_bool (?Y \<sigma> mod int p \<le> ?X \<sigma> mod int p)" for \<sigma>
  proof -
    have "int p dvd lc_val \<sigma> ?r - (?X \<sigma> - ?Y \<sigma> + (1 - of_bool (?Y \<sigma> mod int p \<le> ?X \<sigma> mod int p)) * 2 ^ n)"
    proof -
      have "lc_val \<sigma> ?r - (?X \<sigma> - ?Y \<sigma> + (1 - of_bool (?Y \<sigma> mod int p \<le> ?X \<sigma> mod int p)) * 2 ^ n) =
        - (\<sigma> ?v - of_bool (?Y \<sigma> mod int p \<le> ?X \<sigma> mod int p)) * 2 ^ n"
        unfolding val by (simp only: left_diff_distrib minus_diff_eq mult_1_left mult_minus_left)
      then show ?thesis using t by (metis dvd_minus_iff dvd_mult2 mult_minus_left)
    qed
    then have "lc_val \<sigma> ?r mod int p = (?X \<sigma> - ?Y \<sigma> + (1 - of_bool (?Y \<sigma> mod int p \<le> ?X \<sigma> mod int p)) * 2 ^ n) mod int p"
      by (simp only: mod_eq_dvd_iff)
    then show ?thesis using q borrow_range [OF _ _ n(2)] by (simp only: Q_def)
  qed
  have "step p b b4 Q ?R (\<lambda>\<sigma>. is_bit p (\<sigma> ?v) \<and> digits_of p n (lc_val \<sigma> ?r) bits \<sigma>)"
  proof (rule step_snoc [OF 3 4(2) keep [OF inv3(3)]])
    fix \<sigma> assume R: "?R \<sigma>"
    have Q: "?X \<sigma> mod int p < 2 ^ n" "?Y \<sigma> mod int p < 2 ^ n" using R by (simp_all add: Q_def)
    then have "\<sigma> ?v = of_bool (?Y \<sigma> mod int p \<le> ?X \<sigma> mod int p)" using R borrow_hint [OF Q n(2)] by simp
    then have "lc_val \<sigma> ?r mod int p = (?X \<sigma> mod int p - ?Y \<sigma> mod int p) mod 2 ^ n" using R by (intro hon) simp_all
    then show "lc_val \<sigma> ?r mod int p < 2 ^ n" by simp
  qed
  then have "step p b b4 Q (\<lambda>_. True) (\<lambda>\<sigma>. Q \<sigma> \<longrightarrow> lc_val \<sigma> ?r mod int p = (?X \<sigma> mod int p - ?Y \<sigma> mod int p) mod 2 ^ n)"
  proof (rule step_weaken)
    fix \<sigma> assume S: "is_bit p (\<sigma> ?v) \<and> digits_of p n (lc_val \<sigma> ?r) bits \<sigma>"
    show "Q \<sigma> \<longrightarrow> lc_val \<sigma> ?r mod int p = (?X \<sigma> mod int p - ?Y \<sigma> mod int p) mod 2 ^ n"
    proof
      assume q: "Q \<sigma>"
      have "lc_val \<sigma> ?r mod int p < 2 ^ n" using S by (simp add: digits_of_def)
      then have "int p dvd \<sigma> ?v - of_bool (?Y \<sigma> mod int p \<le> ?X \<sigma> mod int p)"
        unfolding val using q S by (intro borrow_unique [OF prime _ _ n(2)]) (simp_all add: Q_def)
      then show "lc_val \<sigma> ?r mod int p = (?X \<sigma> mod int p - ?Y \<sigma> mod int p) mod 2 ^ n" by (rule hon [OF q])
    qed
  qed simp_all
  then have "emits p (n + 1) b ?r b4 Q (\<lambda>\<sigma> z. Q \<sigma> \<longrightarrow> z mod int p = (?X \<sigma> mod int p - ?Y \<sigma> mod int p) mod 2 ^ n)"
    using 4(3) nv2 stepD(2) [OF 4(2)] lc_below_mono [OF r3] by (intro emitsI) simp_all
  moreover have "emit_wrapping_sub L n x y b = Some (?r, b4)"
    using 4(1) wo
    by (simp add: emit_wrapping_sub_def emit_booleanity_def Let_def split_beta b1_def c_def b2_def b3_def
        emit_range_proof_lc_def pow2_lc_def)
  ultimately show ?thesis by blast
qed

end


section \<open>Bits that are already known\<close>

lemma first_index_Some: "first_index P xs = Some i \<Longrightarrow> i < length xs \<and> P (xs ! i)"
  by (auto simp: first_index_def find_Some_iff)

lemma pows_from_nth: "i < n \<Longrightarrow> fc_big (pows_from n c ! i) = 2 ^ i * fc_big c"
  by (induction n c arbitrary: i rule: pows_from.induct) (auto simp: nth_Cons split: nat.split)

lemma length_pows_from [simp]: "length (pows_from n c) = n"
  by (induction n c rule: pows_from.induct) simp_all

definition slots_val :: "assignment \<Rightarrow> var_id option list \<Rightarrow> int" where
  "slots_val \<sigma> slot = (\<Sum>i<length slot. 2 ^ i * (case slot ! i of None \<Rightarrow> 0 | Some v \<Rightarrow> \<sigma> v))"

lemma slots_val_fill:
  assumes "i < length slot" "slot ! i = None"
  shows "slots_val \<sigma> (slot[i := Some v]) = slots_val \<sigma> slot + 2 ^ i * \<sigma> v"
proof -
  have "(\<Sum>j<length slot. 2 ^ j * (case slot[i := Some v] ! j of None \<Rightarrow> 0 | Some v \<Rightarrow> \<sigma> v)) =
    (\<Sum>j<length slot. 2 ^ j * (case slot ! j of None \<Rightarrow> 0 | Some v \<Rightarrow> \<sigma> v) + (if j = i then 2 ^ i * \<sigma> v else 0))"
    using assms by (intro sum.cong) (auto simp: nth_list_update)
  then show ?thesis using assms(1) by (simp add: slots_val_def sum.distrib)
qed

lemma fill_slots_val:
  assumes "fill_slots pows isb ts slot seen = Some slot'" "length pows = length slot"
    "\<And>i. i < length slot \<Longrightarrow> fc_big (pows ! i) = 2 ^ i"
  shows "slots_val \<sigma> slot' = slots_val \<sigma> slot + terms_val \<sigma> ts \<and> length slot' = length slot \<and>
    (\<forall>v. Some v \<in> set slot' \<longrightarrow> Some v \<in> set slot \<or> isb v)"
  using assms
proof (induction pows isb ts slot seen arbitrary: slot' rule: fill_slots.induct)
  case (2 pows isb t ts slot seen)
  obtain i where i: "first_index (\<lambda>p. p = t_coeff t) pows = Some i" "slot ! i = None" "isb (t_var t)"
    and rec: "fill_slots pows isb ts (slot[i := Some (t_var t)]) (insert (t_var t) seen) = Some slot'"
    using 2(2) by (auto simp: Option.bind_eq_Some_conv split: if_splits)
  have c: "i < length slot" "fc_big (t_coeff t) = 2 ^ i" using first_index_Some [OF i(1)] 2(3,4) by metis+
  have "slots_val \<sigma> slot' = slots_val \<sigma> (slot[i := Some (t_var t)]) + terms_val \<sigma> ts \<and> length slot' = length slot \<and>
    (\<forall>v. Some v \<in> set slot' \<longrightarrow> Some v \<in> set (slot[i := Some (t_var t)]) \<or> isb v)"
    using 2(1) [OF i(1) _ rec] 2(2-4) i by (simp split: if_splits)
  then show ?case using slots_val_fill [OF c(1) i(2)] c(2) i(3) subsetD [OF set_update_subset_insert [of slot i "Some (t_var t)"]]
    by (auto simp: terms_val_def)
qed (simp add: terms_val_def)

lemma those_Some: "those xs = Some ys \<Longrightarrow> xs = map Some ys"
  by (induction xs arbitrary: ys) (auto split: option.splits)

lemma bit_sum_match_val:
  assumes "bit_sum_match x n isb = Some vars"
  shows "length vars = n" "lc_val \<sigma> x = (\<Sum>i<n. 2 ^ i * \<sigma> (vars ! i))" "\<And>v. v \<in> set vars \<Longrightarrow> isb v"
proof -
  obtain slot where slot: "fill_slots (pows_from n fc_one) isb (lc_terms x) (replicate n None) {} = Some slot"
      "those slot = Some vars" and c: "fc_is_zero (lc_const x)"
    using assms by (auto simp: bit_sum_match_def Option.bind_eq_Some_conv split: if_splits)
  have vars: "slot = map Some vars" using slot(2) by (rule those_Some)
  have "slots_val \<sigma> slot = slots_val \<sigma> (replicate n None) + terms_val \<sigma> (lc_terms x) \<and> length slot = n \<and>
    (\<forall>v. Some v \<in> set slot \<longrightarrow> Some v \<in> set (replicate n None) \<or> isb v)"
    using fill_slots_val [OF slot(1)] by (simp add: pows_from_nth)
  then show "length vars = n" "lc_val \<sigma> x = (\<Sum>i<n. 2 ^ i * \<sigma> (vars ! i))" "\<And>v. v \<in> set vars \<Longrightarrow> isb v"
    using c by (auto simp: vars slots_val_def lc_val_def fc_is_zero_big)
qed

lemma low_sum_val: "lc_val \<sigma> (low_sum bits) = (\<Sum>i<length bits. 2 ^ i * lc_val \<sigma> (bits ! i))"
proof -
  have "lc_val \<sigma> (fst (foldl (\<lambda>(low, pow) x. (lc_add low (lc_scale x pow), fc_mul pow (fc_from_i64 2))) (low, pow) bits)) =
    lc_val \<sigma> low + fc_big pow * (\<Sum>i<length bits. 2 ^ i * lc_val \<sigma> (bits ! i))" for low pow
  proof (induction bits arbitrary: low pow)
    case (Cons x bits)
    show ?case by (simp add: Cons.IH sum.lessThan_Suc_shift sum_distrib_left algebra_simps del: sum.lessThan_Suc)
  qed simp
  then show ?thesis by (simp add: low_sum_def)
qed

lemma bit_sum_shortcut_digits:
  assumes inv: "binv p b" and prime: "nat_prime p" and n: "2 ^ n \<le> int p" and sem: "bsem p b \<sigma>"
    and eq: "bit_sum_shortcut x n b = Some bits"
  shows "digits_of p n (lc_val \<sigma> x) bits \<sigma>" "length bits = n"
proof -
  have "length bits = n \<and> lc_val \<sigma> x = (\<Sum>i<n. 2 ^ i * lc_val \<sigma> (bits ! i)) \<and> (\<forall>y \<in> set bits. is_bit p (lc_val \<sigma> y))"
  proof (cases "bit_sum_match x n (\<lambda>v. v \<in> b_boolean b)")
    case (Some vars)
    have "is_bit p (\<sigma> v)" if "v \<in> set vars" for v
      using binvD(7) [OF inv] bit_sum_match_val(3) [OF Some that] sem by (simp add: boolean_ok_def)
    then show ?thesis using eq bit_sum_match_val(1,2) [OF Some] by (auto simp: bit_sum_shortcut_def Some)
  next
    case None
    obtain bs where bs: "b_computed b (t_var (last (lc_terms x))) = Some bs" "n \<le> length bs"
        "lc_is_zero (lc_sub x (low_sum (take n bs)))" "bits = take n bs"
      using eq by (auto simp: bit_sum_shortcut_def None Option.bind_eq_Some_conv split: if_splits)
    have "is_bit p (lc_val \<sigma> y)" if "y \<in> set bs" for y
      using binvD(8) [OF inv] bs(1) that sem unfolding computed_ok_def by blast
    then show ?thesis using bs(2,4) lc_is_zero_val [OF bs(3), of \<sigma>] by (auto simp: low_sum_val dest: in_set_takeD)
  qed
  then show "digits_of p n (lc_val \<sigma> x) bits \<sigma>" "length bits = n"
    using bits_unique [OF prime n, of "\<lambda>i. lc_val \<sigma> (bits ! i)"] by (simp_all add: digits_of_def)
qed

end
