(* ===== verification/Finish.thy ===== *)
theory Finish
  imports Builder_Cmp
begin

text \<open>
  Finishing a circuit (\<open>crates/frontend/src/output.rs\<close>): the products are filled in, the inputs
  become the first variables, a folded product that some row still reads gets its row back, dead
  hint operations go, variables nothing reads go, and the result is checked for variables that no
  row pins. The compact container and the recorded gadget calls, which are built from the same
  state and do not change it, are left out; notes are off, so there is no expression view.
\<close>

section \<open>Reading and renaming operations\<close>

text \<open>\<^verbatim>\<open>subst_witness_vars\<close>: ids through \<open>f\<close>, combinations through \<open>s\<close>.\<close>

definition subst_witness_vars :: "(var_id \<Rightarrow> var_id) \<Rightarrow> (lin_comb \<Rightarrow> lin_comb) \<Rightarrow> witness_op \<Rightarrow> witness_op" where
  "subst_witness_vars f s w = wg_map s f w"

fun witness_gen_outs :: "witness_op \<Rightarrow> var_id list" where
  "witness_gen_outs (Product out _ _) = [out]"
| "witness_gen_outs (Linear out _) = [out]"
| "witness_gen_outs (Xor out _ _) = [out]"
| "witness_gen_outs (Or out _ _) = [out]"
| "witness_gen_outs (Inverse out _) = [out]"
| "witness_gen_outs (InverseOrZero out _) = [out]"
| "witness_gen_outs (Bit out _ _) = [out]"
| "witness_gen_outs (Bits outs _) = outs"
| "witness_gen_outs (DivRem q r _ _) = [q, r]"
| "witness_gen_outs (MulModDivMod q r _ _ _ _) = q @ r"
| "witness_gen_outs (ModInverse out _ _ _) = out"
| "witness_gen_outs (FakeGlv out _ _ _ _) = out"
| "witness_gen_outs (Sub2 qabs r _ _ _ _ _) = qabs # r"

definition lc_ids :: "lin_comb \<Rightarrow> var_id list" where
  "lc_ids lc = map t_var (lc_terms lc)"

definition lcs_ids :: "lin_comb list \<Rightarrow> var_id list" where
  "lcs_ids ls = concat (map lc_ids ls)"

fun witness_gen_input_vars :: "witness_op \<Rightarrow> var_id list" where
  "witness_gen_input_vars (Product _ left right) = lc_ids left @ lc_ids right"
| "witness_gen_input_vars (Linear _ lc) = lc_ids lc"
| "witness_gen_input_vars (Xor _ a b) = lc_ids a @ lc_ids b"
| "witness_gen_input_vars (Or _ a b) = lc_ids a @ lc_ids b"
| "witness_gen_input_vars (Inverse _ input) = lc_ids input"
| "witness_gen_input_vars (InverseOrZero _ input) = lc_ids input"
| "witness_gen_input_vars (Bit _ input _) = lc_ids input"
| "witness_gen_input_vars (Bits _ input) = lc_ids input"
| "witness_gen_input_vars (DivRem _ _ num den) = lc_ids num @ lc_ids den"
| "witness_gen_input_vars (MulModDivMod _ _ a b modulus _) = lcs_ids (a @ b @ modulus)"
| "witness_gen_input_vars (ModInverse _ a modulus _) = lcs_ids (a @ modulus)"
| "witness_gen_input_vars (FakeGlv _ u modulus lambda _) = lcs_ids (u @ modulus @ lambda)"
| "witness_gen_input_vars (Sub2 _ _ a b c modulus _) = lcs_ids (a @ b @ c @ modulus)"

text \<open>The first element, or \<open>0\<close>.\<close>

definition first_or_0 :: "var_id list \<Rightarrow> var_id" where
  "first_or_0 vs = (case vs of [] \<Rightarrow> 0 | v # _ \<Rightarrow> v)"

fun witness_gen_out :: "witness_op \<Rightarrow> var_id" where
  "witness_gen_out (Product out _ _) = out"
| "witness_gen_out (Linear out _) = out"
| "witness_gen_out (Xor out _ _) = out"
| "witness_gen_out (Or out _ _) = out"
| "witness_gen_out (Inverse out _) = out"
| "witness_gen_out (InverseOrZero out _) = out"
| "witness_gen_out (Bit out _ _) = out"
| "witness_gen_out (Bits outs _) = first_or_0 outs"
| "witness_gen_out (DivRem q _ _ _) = q"
| "witness_gen_out (MulModDivMod q r _ _ _ _) = first_or_0 (q @ r)"
| "witness_gen_out (ModInverse out _ _ _) = first_or_0 out"
| "witness_gen_out (FakeGlv out _ _ _ _) = first_or_0 out"
| "witness_gen_out (Sub2 qabs _ _ _ _ _ _) = qabs"

section \<open>Inputs first\<close>

text \<open>Indexing out of range is a panic.\<close>

fun mark_inputs :: "var_id list \<Rightarrow> bool list \<Rightarrow> bool list option" where
  "mark_inputs [] flags = Some flags"
| "mark_inputs (v # vs) flags =
    (if length flags \<le> unat v then None else mark_inputs vs (flags[unat v := True]))"

fun place_inputs :: "nat \<Rightarrow> var_id list \<Rightarrow> var_id list \<Rightarrow> var_id list" where
  "place_inputs i [] m = m"
| "place_inputs i (v # vs) m = place_inputs (i + 1) vs (m[unat v := of_nat i])"

fun place_others :: "nat \<Rightarrow> bool list \<Rightarrow> var_id \<Rightarrow> var_id list \<Rightarrow> var_id list" where
  "place_others v [] nxt m = m"
| "place_others v (f # flags) nxt m =
    (if f then place_others (v + 1) flags nxt m
     else place_others (v + 1) flags (nxt + 1) (m[v := nxt]))"

definition input_map :: "nat \<Rightarrow> var_id list \<Rightarrow> var_id list option" where
  "input_map n ids = do {
     flags \<leftarrow> mark_inputs ids (replicate n False);
     Some (place_others 0 flags (of_nat (length ids)) (place_inputs 0 ids (replicate n 0)))
   }"

definition rename_lc :: "(var_id \<Rightarrow> var_id) \<Rightarrow> lin_comb \<Rightarrow> lin_comb" where
  "rename_lc m lc = simplified (lc\<lparr>lc_terms := map (\<lambda>t. t\<lparr>t_var := m (t_var t)\<rparr>) (lc_terms lc)\<rparr>)"

definition rename_row :: "(var_id \<Rightarrow> var_id) \<Rightarrow> r1cs_constraint \<Rightarrow> r1cs_constraint" where
  "rename_row m c = c\<lparr>rc_a := rename_lc m (rc_a c), rc_b := rename_lc m (rc_b c), rc_c := rename_lc m (rc_c c)\<rparr>"

definition row_ids :: "r1cs_constraint \<Rightarrow> var_id list" where
  "row_ids c = lc_ids (rc_a c) @ lc_ids (rc_b c) @ lc_ids (rc_c c)"

fun place_variables :: "(var_id \<Rightarrow> var_id) \<Rightarrow> nat \<Rightarrow> variable list \<Rightarrow> string list \<Rightarrow>
    variable option list \<times> string list \<Rightarrow> variable option list \<times> string list" where
  "place_variables m v [] names (vars', names') = (vars', names')"
| "place_variables m v (x # xs) names (vars', names') =
    (let id = m (of_nat v)
     in place_variables m (v + 1) xs names
          (vars'[unat id := Some (x\<lparr>rv_id := id\<rparr>)],
           names'[unat id := (if v < length names then names ! v else [])]))"

text \<open>All ids that \<^verbatim>\<open>renumber_inputs\<close> looks up: outside the table any of them is a panic, as is a
  slot of the new variable list that stays empty.\<close>

definition looked_up :: "builder \<Rightarrow> var_id set" where
  "looked_up b = set (concat (map row_ids (b_constraints b))) \<union>
    set (concat (map (\<lambda>w. witness_gen_outs w @ witness_gen_input_vars w) (List.map_filter id (b_witness b)))) \<union>
    set (bt_keys (b_merged b)) \<union> b_witness_only_vars b"

definition renumber_inputs :: "builder \<Rightarrow> (var_id list \<times> builder) option" where
  "renumber_inputs b =
    (let n_vars = nv b in
     if list_all (\<lambda>(i, v). unat v = i) (enumerate 0 (b_input_ids b))
     then Some (map of_nat [0..<n_vars], b)
     else do {
       mp \<leftarrow> input_map n_vars (b_input_ids b);
       let m = (\<lambda>v. mp ! unat v);
       (if \<exists>v \<in> looked_up b. n_vars \<le> unat v then None else Some ());
       let (vars, names) = place_variables m 0 (b_variables b) (b_var_names b) (replicate n_vars None, replicate n_vars []);
       variables \<leftarrow> those vars;
       Some (mp, b\<lparr>
         b_constraints := map (rename_row m) (b_constraints b),
         b_witness := map (map_option (subst_witness_vars m (rename_lc m))) (b_witness b),
         b_variables := variables, b_var_names := names,
         b_merged := foldl (\<lambda>t (k, x). bt_insert (m k) x t) [] (b_merged b),
         b_witness_only_vars := m ` b_witness_only_vars b,
         b_input_ids := map of_nat [0..<length (b_input_ids b)]\<rparr>)
     })"

section \<open>Folded products that are still read\<close>

definition referenced_by :: "r1cs_constraint list \<Rightarrow> var_id set" where
  "referenced_by cs = set (concat (map row_ids cs))"

definition revived_note :: string where
  "revived_note = ''revived a*b = out (product reused after require_eq merge)''"

fun revive :: "(var_id \<times> nat \<times> nat) list \<Rightarrow> builder \<Rightarrow> var_id set \<Rightarrow> (builder \<times> var_id set) option" where
  "revive [] b referenced = Some (b, referenced)"
| "revive ((out, wg_idx, orig_idx) # ms) b referenced =
    (if length (b_constraints b) \<le> orig_idx then None
     else
       let a = rc_a (b_constraints b ! orig_idx);
           y = rc_b (b_constraints b ! orig_idx);
           (id, b) = fresh_constraint_id b;
           referenced = insert out (referenced \<union> set (lc_ids a @ lc_ids y));
           b = b\<lparr>b_constraints := b_constraints b @ [rc_mul id a y out revived_note]\<rparr>
       in if length (b_witness b) \<le> wg_idx then None
          else revive ms (b\<lparr>b_witness := (b_witness b)[wg_idx := Some (Product out a y)]\<rparr>) referenced)"

definition revive_merged :: "builder \<Rightarrow> (builder \<times> var_id set) option" where
  "revive_merged b =
    (let referenced = referenced_by (b_constraints b);
         merged = filter (\<lambda>(out, _). out \<in> referenced) (b_merged b)
     in revive merged (b\<lparr>b_merged := []\<rparr>) referenced)"

section \<open>Dead hint operations\<close>

text \<open>One pass over the operations, last first: a live output makes all outputs and inputs live.\<close>

fun spread_live :: "witness_op list \<Rightarrow> var_id set \<Rightarrow> var_id set" where
  "spread_live [] live = live"
| "spread_live (op # ops) live =
    (if \<exists>out \<in> set (witness_gen_outs op). out \<in> live
     then spread_live ops (live \<union> set (witness_gen_outs op) \<union> set (witness_gen_input_vars op))
     else spread_live ops live)"

definition dead_op :: "var_id set \<Rightarrow> var_id set \<Rightarrow> witness_op \<Rightarrow> bool" where
  "dead_op wo live op \<longleftrightarrow>
    (\<exists>out \<in> set (witness_gen_outs op). out \<in> wo) \<and> (\<forall>out \<in> set (witness_gen_outs op). out \<notin> live)"

definition drop_dead :: "builder \<Rightarrow> builder" where
  "drop_dead b =
    (if b_witness_only_vars b = {} then b
     else
       let live = spread_live (rev (List.map_filter id (b_witness b))) (referenced_by (b_constraints b))
       in b\<lparr>b_witness := map (\<lambda>w. case w of
              Some op \<Rightarrow> if dead_op (b_witness_only_vars b) live op then None else w
            | None \<Rightarrow> w) (b_witness b)\<rparr>)"

section \<open>The finished programs\<close>

record lower_output =
  lo_r1cs :: r1cs_program
  lo_primitive :: primitive_program
  lo_witness_only_vars :: "var_id set"
  lo_var_map :: "var_id list"

definition primitive_field :: "field_spec \<Rightarrow> prim_field_spec" where
  "primitive_field field = (case fs_modulus_decimal field of
      Some m \<Rightarrow> \<lparr>pf_name = fs_name field, pf_modulus_decimal = m\<rparr>
    | None \<Rightarrow> pf_bn254)"

definition input_role :: "nat \<Rightarrow> variable \<Rightarrow> var_role" where
  "input_role n_inputs v =
    (if unat (rv_id v) < n_inputs then (if rv_visibility v = Public then PublicInput else PrivateInput) else Derived)"

definition finish_out :: "field_spec \<Rightarrow> nat \<Rightarrow> builder \<Rightarrow> var_id set \<Rightarrow> var_id list \<Rightarrow> lower_output" where
  "finish_out field n_inputs b referenced var_map =
    (let wo = b_witness_only_vars b;
         variables = filter (\<lambda>v. rv_visibility v \<noteq> Internal \<or> rv_id v \<in> referenced \<or> rv_id v \<in> wo) (b_variables b);
         kept = set (map rv_id variables);
         pvars = map (\<lambda>v. \<lparr>v_id = rv_id v, v_name = rv_name v, v_role = input_role n_inputs v\<rparr>) variables;
         ops = filter (\<lambda>op. witness_gen_out op \<in> kept) (List.map_filter id (b_witness b))
     in \<lparr>lo_r1cs = \<lparr>rp_field = field, rp_variables = variables, rp_constraints = b_constraints b\<rparr>,
         lo_primitive = \<lparr>pp_field = primitive_field field, pp_vars = pvars, pp_constraints = [], pp_witness_gen = ops\<rparr>,
         lo_witness_only_vars = wo, lo_var_map = var_map\<rparr>)"

definition finish :: "builder \<Rightarrow> field_spec \<Rightarrow> nat \<Rightarrow> lower_output option" where
  "finish b field n_inputs = do {
     b \<leftarrow> fill_products b;
     (var_map, b) \<leftarrow> renumber_inputs b;
     (b, referenced) \<leftarrow> revive_merged b;
     Some (finish_out field n_inputs (drop_dead b) referenced var_map)
   }"

section \<open>The pinning gate\<close>

datatype pinning_error = Unused_public_input string | Unpinned_output string

fun check_variables :: "var_id set \<Rightarrow> var_id set \<Rightarrow> nat \<Rightarrow> variable list \<Rightarrow> pinning_error + unit" where
  "check_variables referenced wo n_inputs [] = Inr ()"
| "check_variables referenced wo n_inputs (v # vs) =
    (if rv_id v \<in> referenced \<or> rv_id v \<in> wo then check_variables referenced wo n_inputs vs
     else case rv_visibility v of
       Public \<Rightarrow> Inl (Unused_public_input (rv_name v))
     | Private \<Rightarrow>
         if unat (rv_id v) < n_inputs then check_variables referenced wo n_inputs vs
         else Inl (Unpinned_output (rv_name v))
     | Internal \<Rightarrow> check_variables referenced wo n_inputs vs)"

definition check_pinning :: "lower_output \<Rightarrow> nat \<Rightarrow> pinning_error + unit" where
  "check_pinning out n_inputs =
    check_variables (referenced_by (rp_constraints (lo_r1cs out))) (lo_witness_only_vars out) n_inputs
      (rp_variables (lo_r1cs out))"

end
