(* ===== verification/Finish_Renumber.thy ===== *)
theory Finish_Renumber
  imports Finish
begin

text \<open>
  The renumbering of a finished circuit: a bijection of the variables that puts the inputs first
  and keeps the order of the others; the rows of the renumbered state hold at an assignment exactly
  when the old ones hold at its composition with the renumbering.
\<close>

section \<open>The renumbering\<close>

lemma mark_inputs_flags:
  "mark_inputs vs flags = Some flags' \<Longrightarrow> length flags' = length flags \<and> (\<forall>v \<in> set vs. unat v < length flags) \<and>
    (\<forall>i<length flags. flags' ! i \<longleftrightarrow> flags ! i \<or> i \<in> unat ` set vs)"
  by (induction vs flags rule: mark_inputs.induct) (auto simp: nth_list_update split: if_splits)

lemma mark_inputs_total: "(\<forall>v \<in> set vs. unat v < length flags) \<Longrightarrow> mark_inputs vs flags \<noteq> None"
  by (induction vs flags rule: mark_inputs.induct) auto

lemma length_place [simp]:
  "length (place_inputs i vs m) = length m" "length (place_others v flags nxt m') = length m'"
proof -
  show "length (place_inputs i vs m) = length m" by (induction i vs m rule: place_inputs.induct) simp_all
  show "length (place_others v flags nxt m') = length m'"
    by (induction v flags nxt m' rule: place_others.induct) simp_all
qed

lemma unat_image [simp]: "unat v \<in> unat ` A \<longleftrightarrow> v \<in> A"
  by (auto simp: word_unat_eq_iff [symmetric])

lemma place_inputs_other: "w \<notin> unat ` set vs \<Longrightarrow> place_inputs i vs m ! w = m ! w"
  by (induction i vs m rule: place_inputs.induct) auto

lemma place_inputs_nth:
  "distinct vs \<Longrightarrow> \<forall>v \<in> set vs. unat v < length m \<Longrightarrow> j < length vs \<Longrightarrow>
   place_inputs i vs m ! unat (vs ! j) = of_nat (i + j)"
proof (induction i vs m arbitrary: j rule: place_inputs.induct)
  case (2 i v vs m)
  show ?case
  proof (cases j)
    case 0
    have "unat v \<notin> unat ` set vs" using 2(2) by simp
    then show ?thesis using 0 2(3) by (simp add: place_inputs_other)
  next
    case (Suc k)
    then show ?thesis using 2(1) [of k] 2(2-4) by simp
  qed
qed simp

definition rank_of :: "bool list \<Rightarrow> nat \<Rightarrow> nat" where
  "rank_of flags w = length (filter Not (take w flags))"

lemma place_others_nth:
  "v + length flags \<le> length m \<Longrightarrow> place_others v flags nxt m ! w =
    (if v \<le> w \<and> w < v + length flags \<and> \<not> flags ! (w - v) then nxt + of_nat (rank_of flags (w - v)) else m ! w)"
proof (induction v flags nxt m rule: place_others.induct)
  case (2 v f flags nxt m)
  consider "w \<le> v" | "v < w" by linarith
  then show ?case
  proof cases
    case 2
    then obtain d where "w = Suc v + d" by (metis less_iff_Suc_add add_Suc)
    then show ?thesis using 2 "2.IH" "2.prems" by (simp add: rank_of_def)
  qed (use 2 in \<open>auto simp: rank_of_def\<close>)
qed auto

lemma rank_Suc: "v < length flags \<Longrightarrow> rank_of flags (Suc v) = rank_of flags v + (if flags ! v then 0 else 1)"
  by (simp add: rank_of_def take_Suc_conv_app_nth)

lemma rank_le: "v \<le> w \<Longrightarrow> rank_of flags v \<le> rank_of flags w"
proof -
  assume "v \<le> w"
  then have "take w flags = take v flags @ drop v (take w flags)" by (metis append_take_drop_id min.absorb1 take_take)
  then show ?thesis unfolding rank_of_def by (metis filter_append le_add1 length_append)
qed

lemma rank_mono: "v < w \<Longrightarrow> w \<le> length flags \<Longrightarrow> \<not> flags ! v \<Longrightarrow> rank_of flags v < rank_of flags w"
  using rank_Suc [of v flags] rank_le [of "Suc v" w flags] by simp

lemma rank_total: "rank_of flags w + length (filter (\<lambda>f. f) flags) \<le> length flags"
proof -
  have "length (filter Not (take w flags)) \<le> length (filter Not flags)"
    by (metis append_take_drop_id filter_append le_add1 length_append)
  then show ?thesis using sum_length_filter_compl [of "\<lambda>f. f" flags] by (simp add: rank_of_def)
qed

lemma marked_count:
  assumes "distinct ids" "\<forall>v \<in> set ids. unat v < n" "length flags = n" "\<forall>i<n. flags ! i \<longleftrightarrow> i \<in> unat ` set ids"
  shows "length (filter (\<lambda>f. f) flags) = length ids"
proof -
  have "length (filter (\<lambda>f. f) flags) = card {i. i < length flags \<and> flags ! i}" by (rule length_filter_conv_card)
  also have "{i. i < length flags \<and> flags ! i} = unat ` set ids" using assms(2-4) by auto
  also have "card (unat ` set ids) = length ids"
    using assms(1) by (simp add: card_image inj_on_def word_unat_eq_iff [symmetric] distinct_card)
  finally show ?thesis .
qed

text \<open>The table in one statement: the position of every variable.\<close>

lemma input_map_entries:
  assumes ids: "distinct ids" "\<forall>v \<in> set ids. unat v < n" and n: "n \<le> 2 ^ 32"
  obtains mp flags where "input_map n ids = Some mp" "length mp = n"
    "\<And>j. j < length ids \<Longrightarrow> unat (mp ! unat (ids ! j)) = j"
    "\<And>v. v < n \<Longrightarrow> v \<notin> unat ` set ids \<Longrightarrow> unat (mp ! v) = length ids + rank_of flags v"
    "\<And>v. length ids + rank_of flags v \<le> n" "length flags = n" "\<And>i. i < n \<Longrightarrow> flags ! i \<longleftrightarrow> i \<in> unat ` set ids"
proof -
  obtain flags where fl: "mark_inputs ids (replicate n False) = Some flags"
    using mark_inputs_total [of ids "replicate n False"] ids(2) by auto
  have flags: "length flags = n" "\<forall>i<n. flags ! i \<longleftrightarrow> i \<in> unat ` set ids"
    using mark_inputs_flags [OF fl] by auto
  define mp where "mp = place_others 0 flags (of_nat (length ids)) (place_inputs 0 ids (replicate n 0))"
  have k: "length ids + rank_of flags v \<le> n" for v
    using rank_total [of flags v] marked_count [OF ids flags] flags(1) by simp
  have mp: "mp ! w = (if w < n \<and> w \<notin> unat ` set ids then of_nat (length ids) + of_nat (rank_of flags w)
      else place_inputs 0 ids (replicate n 0) ! w)" for w
    using flags by (auto simp: mp_def place_others_nth)
  have "unat (mp ! unat (ids ! j)) = j" if "j < length ids" for j
  proof -
    have "mp ! unat (ids ! j) = of_nat j" using that ids by (simp add: mp place_inputs_nth)
    moreover have "j < 2 ^ 32" using that k [of 0] n by simp
    ultimately show ?thesis by (simp add: unat_of_nat take_bit_nat_eq_self)
  qed
  moreover have "unat (mp ! v) = length ids + rank_of flags v" if v: "v < n" "v \<notin> unat ` set ids" for v
  proof -
    have "rank_of flags v < rank_of flags n" using v flags by (intro rank_mono) simp_all
    then have "length ids + rank_of flags v < 2 ^ 32" using k [of n] n by simp
    moreover have "mp ! v = of_nat (length ids + rank_of flags v)" using v by (simp add: mp)
    ultimately show ?thesis by (simp add: unat_of_nat take_bit_nat_eq_self del: of_nat_add)
  qed
  moreover have "input_map n ids = Some mp" "length mp = n" by (simp_all add: input_map_def fl mp_def)
  ultimately show ?thesis using that k flags by blast
qed

lemma input_map_bijection:
  assumes ids: "distinct ids" "\<forall>v \<in> set ids. unat v < n" and n: "n \<le> 2 ^ 32" and mp: "input_map n ids = Some mp"
  shows "length mp = n" "bij_betw (\<lambda>v. unat (mp ! v)) {..<n} {..<n}"
    "\<And>j. j < length ids \<Longrightarrow> unat (mp ! unat (ids ! j)) = j"
    "\<And>u v. u < v \<Longrightarrow> v < n \<Longrightarrow> u \<notin> unat ` set ids \<Longrightarrow> v \<notin> unat ` set ids \<Longrightarrow> unat (mp ! u) < unat (mp ! v)"
proof -
  obtain flags where h: "length mp = n" "\<And>j. j < length ids \<Longrightarrow> unat (mp ! unat (ids ! j)) = j"
    "\<And>v. v < n \<Longrightarrow> v \<notin> unat ` set ids \<Longrightarrow> unat (mp ! v) = length ids + rank_of flags v"
    "\<And>v. length ids + rank_of flags v \<le> n" "length flags = n" "\<And>i. i < n \<Longrightarrow> flags ! i \<longleftrightarrow> i \<in> unat ` set ids"
  proof -
    show thesis by (rule input_map_entries [OF ids n]) (use mp that in auto)
  qed
  let ?f = "\<lambda>v. unat (mp ! v)"
  have order: "?f u < ?f v" if "u < v" "v < n" "u \<notin> unat ` set ids" "v \<notin> unat ` set ids" for u v
    using that h(3) [of u] h(3) [of v] rank_mono [of u v flags] h(5,6) by simp
  have inp: "\<exists>j<length ids. v = unat (ids ! j) \<and> ?f v = j" if "v \<in> unat ` set ids" for v
    using that h(2) by (auto simp: in_set_conv_nth)
  have "inj_on ?f {..<n}"
  proof (rule inj_onI)
    fix u v assume uv: "u \<in> {..<n}" "v \<in> {..<n}" "?f u = ?f v"
    show "u = v"
    proof (cases "u \<in> unat ` set ids"; cases "v \<in> unat ` set ids")
      assume "u \<in> unat ` set ids" "v \<in> unat ` set ids"
      then show ?thesis using inp uv(3) by metis
    next
      assume "u \<in> unat ` set ids" "v \<notin> unat ` set ids"
      then show ?thesis using inp [of u] h(3) [of v] uv by auto
    next
      assume "u \<notin> unat ` set ids" "v \<in> unat ` set ids"
      then show ?thesis using inp [of v] h(3) [of u] uv by auto
    next
      assume "u \<notin> unat ` set ids" "v \<notin> unat ` set ids"
      then show ?thesis using order [of u v] order [of v u] uv by (metis lessThan_iff less_irrefl linorder_neqE_nat)
    qed
  qed
  moreover have "?f ` {..<n} \<subseteq> {..<n}"
  proof -
    have "?f v < n" if "v < n" for v
    proof (cases "v \<in> unat ` set ids")
      case True
      then show ?thesis using inp [OF True] h(4) [of 0] by auto
    next
      case False
      then show ?thesis using h(3) [OF that False] h(4) [of n] rank_mono [of v n flags] that h(5,6) by simp
    qed
    then show ?thesis by auto
  qed
  ultimately have "bij_betw ?f {..<n} {..<n}"
    by (simp add: bij_betw_def endo_inj_surj)
  then show "length mp = n" "bij_betw ?f {..<n} {..<n}" "\<And>j. j < length ids \<Longrightarrow> unat (mp ! unat (ids ! j)) = j"
    "\<And>u v. u < v \<Longrightarrow> v < n \<Longrightarrow> u \<notin> unat ` set ids \<Longrightarrow> v \<notin> unat ` set ids \<Longrightarrow> unat (mp ! u) < unat (mp ! v)"
    using h(1,2) order by blast+
qed


section \<open>Renamed rows\<close>

lemma rename_lc_val [simp]: "lc_val \<sigma> (rename_lc m lc) = lc_val (\<sigma> \<circ> m) lc"
  unfolding rename_lc_def simplified_val by (simp add: lc_val_def terms_val_def comp_def)

lemma rename_row_holds [simp]: "row_holds p \<sigma> (rename_row m c) \<longleftrightarrow> row_holds p (\<sigma> \<circ> m) c"
  by (simp add: row_holds_def rename_row_def)

lemma rename_row_product [simp]: "row_product \<sigma> (rename_row m c) = row_product (\<sigma> \<circ> m) c"
  by (simp add: row_product_def rename_row_def)

lemma rename_lc_below:
  assumes "lc_below n lc" "\<And>v. unat v < n \<Longrightarrow> unat (m v) < k"
  shows "lc_below k (rename_lc m lc)"
  unfolding rename_lc_def by (rule lc_below_simplified) (use assms in \<open>simp add: lc_below_def\<close>)

lemma rename_row_below:
  "row_below n c \<Longrightarrow> (\<And>v. unat v < n \<Longrightarrow> unat (m v) < k) \<Longrightarrow> row_below k (rename_row m c)"
  by (simp add: row_below_def rename_row_def rename_lc_below [of n _ m k])

lemma bt_rename:
  fixes m :: "'k :: linorder \<Rightarrow> 'j :: linorder"
  assumes "bt_invar t0" "distinct (map fst t)" "inj_on m (fst ` set t)"
  shows "bt_invar (foldl (\<lambda>t (k, x). bt_insert (m k) x t) t0 t) \<and>
    (bt_get (foldl (\<lambda>t (k, x). bt_insert (m k) x t) t0 t) j = Some x \<longleftrightarrow>
      (\<exists>k. (k, x) \<in> set t \<and> m k = j) \<or> (\<forall>k \<in> fst ` set t. m k \<noteq> j) \<and> bt_get t0 j = Some x)"
  using assms
proof (induction t arbitrary: t0)
  case (Cons e t)
  obtain k y where e: "e = (k, y)" by (cases e)
  have k: "k \<notin> fst ` set t" "\<And>k'. k' \<in> fst ` set t \<Longrightarrow> m k' \<noteq> m k"
    using Cons.prems(2,3) e by (auto simp: inj_on_def)
  have mem: "(k', x) \<in> set t \<Longrightarrow> m k' \<noteq> m k" for k' x using k(2) by force
  have other: "(\<forall>k' \<in> fst ` set (e # t). m k' \<noteq> j) \<longleftrightarrow> m k \<noteq> j \<and> (\<forall>k' \<in> fst ` set t. m k' \<noteq> j)" by (simp add: e)
  show ?case
    using Cons.IH [of "bt_insert (m k) y t0"] Cons.prems k(2) mem unfolding other by (cases "m k = j") (auto simp: e)
qed simp

text \<open>Looking up a renamed key.\<close>

lemma bt_rename_get:
  fixes m :: "'k :: linorder \<Rightarrow> 'j :: linorder"
  assumes t: "bt_invar t" and m: "inj_on m (fst ` set t)"
  shows "bt_invar (foldl (\<lambda>t (k, x). bt_insert (m k) x t) [] t)"
    "bt_get (foldl (\<lambda>t (k, x). bt_insert (m k) x t) [] t) j = Some x \<longleftrightarrow> (\<exists>k. bt_get t k = Some x \<and> m k = j)"
proof -
  have d: "distinct (map fst t)" using t by (simp add: bt_invar_def strict_sorted_iff)
  show "bt_invar (foldl (\<lambda>t (k, x). bt_insert (m k) x t) [] t)"
    "bt_get (foldl (\<lambda>t (k, x). bt_insert (m k) x t) [] t) j = Some x \<longleftrightarrow> (\<exists>k. bt_get t k = Some x \<and> m k = j)"
    using bt_rename [of "[]" t m j x] d m by (simp_all add: bt_invar_def bt_get_map_of)
qed


section \<open>The renumbered state\<close>

lemma place_variables_spec:
  assumes "\<And>j. j < length xs \<Longrightarrow> unat (m (of_nat (v + j))) < length vs" "length ns = length vs"
    "inj_on (\<lambda>j. unat (m (of_nat j))) {v..<v + length xs}"
    "place_variables m v xs names (vs, ns) = (vs', ns')"
  shows "length vs' = length vs \<and>
    (\<forall>j<length xs. vs' ! unat (m (of_nat (v + j))) = Some ((xs ! j)\<lparr>rv_id := m (of_nat (v + j))\<rparr>)) \<and>
    (\<forall>i. i \<notin> (\<lambda>j. unat (m (of_nat (v + j)))) ` {..<length xs} \<longrightarrow> vs' ! i = vs ! i)"
  using assms
proof (induction xs arbitrary: v vs ns)
  case (Cons x xs)
  let ?id = "m (of_nat v)"
  let ?vs = "vs[unat ?id := Some (x\<lparr>rv_id := ?id\<rparr>)]"
  have id: "unat ?id < length vs" using Cons.prems(1) [of 0] by simp
  have "\<And>j. j < length xs \<Longrightarrow> unat (m (of_nat (Suc v + j))) < length ?vs" using Cons.prems(1) [of "Suc j" for j] by simp
  moreover have "inj_on (\<lambda>j. unat (m (of_nat j))) {Suc v..<Suc v + length xs}"
    using Cons.prems(3) by (rule inj_on_subset) auto
  ultimately have IH: "length vs' = length ?vs \<and>
    (\<forall>j<length xs. vs' ! unat (m (of_nat (Suc v + j))) = Some ((xs ! j)\<lparr>rv_id := m (of_nat (Suc v + j))\<rparr>)) \<and>
    (\<forall>i. i \<notin> (\<lambda>j. unat (m (of_nat (Suc v + j)))) ` {..<length xs} \<longrightarrow> vs' ! i = ?vs ! i)"
    using Cons.prems(2,4) by (intro Cons.IH) (simp_all add: Let_def)
  have new: "unat ?id \<notin> (\<lambda>j. unat (m (of_nat (Suc v + j)))) ` {..<length xs}"
  proof
    assume "unat ?id \<in> (\<lambda>j. unat (m (of_nat (Suc v + j)))) ` {..<length xs}"
    then obtain j where "j < length xs" "unat ?id = unat (m (of_nat (Suc v + j)))" by blast
    then show False using inj_onD [OF Cons.prems(3), of v "Suc v + j"] by simp
  qed
  have B: "vs' ! unat (m (of_nat (v + j))) = Some (((x # xs) ! j)\<lparr>rv_id := m (of_nat (v + j))\<rparr>)" if "j < Suc (length xs)" for j
  proof (cases j)
    case 0
    then show ?thesis using IH new id by simp
  next
    case (Suc k)
    then show ?thesis using IH that by simp
  qed
  have C: "vs' ! i = vs ! i" if "i \<notin> (\<lambda>j. unat (m (of_nat (v + j)))) ` {..<Suc (length xs)}" for i
  proof -
    have "i \<noteq> unat ?id" using that by force
    moreover have "i \<notin> (\<lambda>j. unat (m (of_nat (Suc v + j)))) ` {..<length xs}"
    proof
      assume "i \<in> (\<lambda>j. unat (m (of_nat (Suc v + j)))) ` {..<length xs}"
      then obtain j where "j < length xs" "i = unat (m (of_nat (v + Suc j)))" by auto
      then show False using that by blast
    qed
    ultimately show ?thesis using IH by simp
  qed
  have A: "length vs' = length vs" using IH by simp
  show ?case
  proof (intro conjI allI impI)
    show "length vs' = length vs" by (rule A)
    show "vs' ! unat (m (of_nat (v + j))) = Some (((x # xs) ! j)\<lparr>rv_id := m (of_nat (v + j))\<rparr>)" if "j < length (x # xs)" for j
      using B [of j] that by (simp only: length_Cons)
    show "vs' ! i = vs ! i" if "i \<notin> (\<lambda>j. unat (m (of_nat (v + j)))) ` {..<length (x # xs)}" for i
      using C [of i] that unfolding length_Cons by blast
  qed
qed simp

lemma those_total: "(\<forall>i<length xs. xs ! i \<noteq> None) \<Longrightarrow> \<exists>ys. those xs = Some ys"
proof (induction xs)
  case (Cons x xs)
  obtain y where "x = Some y" using Cons.prems [rule_format, of 0] by auto
  moreover have "\<forall>i<length xs. xs ! i \<noteq> None" using Cons.prems by auto
  then obtain ys where "those xs = Some ys" using Cons.IH by blast
  ultimately show ?case by simp
qed simp

definition hint_ids :: "builder \<Rightarrow> var_id set" where
  "hint_ids b = set (concat (map (\<lambda>w. witness_gen_outs w @ witness_gen_input_vars w) (List.map_filter id (b_witness b))))"

text \<open>The renaming of the finished programs: \<open>m v\<close> is the new id of \<open>v\<close>.\<close>

definition renames :: "nat \<Rightarrow> var_id list \<Rightarrow> var_id list \<Rightarrow> bool" where
  "renames n ids mp \<longleftrightarrow> length mp = n \<and> bij_betw (\<lambda>v. unat (mp ! v)) {..<n} {..<n} \<and>
    (\<forall>j<length ids. unat (mp ! unat (ids ! j)) = j) \<and>
    (\<forall>u v. u < v \<and> v < n \<and> u \<notin> unat ` set ids \<and> v \<notin> unat ` set ids \<longrightarrow> unat (mp ! u) < unat (mp ! v))"

lemma renames_inj:
  assumes "renames n ids mp" "unat u < n" "unat v < n" "mp ! unat u = mp ! unat v"
  shows "u = v"
proof -
  have "inj_on (\<lambda>v. unat (mp ! v)) {..<n}" using assms(1) by (simp add: renames_def bij_betw_def)
  then have "unat u = unat v" using inj_on_eq_iff [of "\<lambda>v. unat (mp ! v)" _ "unat u" "unat v"] assms(2-4) by simp
  then show ?thesis by (simp only: word_unat_eq_iff)
qed

lemma bsem_rename:
  fixes m :: "var_id \<Rightarrow> var_id"
  assumes cs: "b_constraints b' = map (rename_row m) (b_constraints b)"
    and mg: "\<And>j x. bt_get (b_merged b') j = Some x \<longleftrightarrow> (\<exists>k. bt_get (b_merged b) k = Some x \<and> m k = j)" and ok: "merged_ok b"
  shows "bsem p b' \<sigma> \<longleftrightarrow> bsem p b (\<sigma> \<circ> m)"
proof -
  have 1: "row_product \<sigma> (b_constraints b' ! i) = row_product (\<sigma> \<circ> m) (b_constraints b ! i)"
    if "bt_get (b_merged b) k = Some (w, i)" for k w i
    using ok that by (auto simp: merged_ok_def cs)
  show ?thesis unfolding bsem_def mg using 1 by (auto simp: cs) metis
qed


lemma place_all:
  assumes mp: "renames n ids mp" and n: "n \<le> 2 ^ 32" "length xs = n"
  shows "\<exists>vs ns. place_variables (\<lambda>v. mp ! unat v) 0 xs names (replicate n None, replicate n []) = (vs, ns) \<and>
    (\<exists>ys. those vs = Some ys \<and> length ys = n \<and>
      (\<forall>v<n. ys ! unat (mp ! v) = (xs ! v)\<lparr>rv_id := mp ! v\<rparr>))"
proof -
  let ?m = "\<lambda>v :: var_id. mp ! unat v"
  obtain vs ns where eq: "place_variables ?m 0 xs names (replicate n None, replicate n []) = (vs, ns)" by fastforce
  have bij: "bij_betw (\<lambda>v. unat (mp ! v)) {..<n} {..<n}" using mp by (simp add: renames_def)
  have id: "unat (of_nat j :: var_id) = j" if "j < n" for j using that n(1) by (simp add: unat_of_nat take_bit_nat_eq_self)
  have "inj_on (\<lambda>j. unat (?m (of_nat j))) {0..<0 + length xs}"
    using inj_on_cong [of "{..<n}" "\<lambda>j. unat (?m (of_nat j))" "\<lambda>v. unat (mp ! v)"] bij_betw_imp_inj_on [OF bij]
    by (simp add: id n(2) lessThan_atLeast0)
  moreover have "unat (?m (of_nat (0 + j))) < length (replicate n (None :: variable option))" if "j < length xs" for j
    using bij_betwE [OF bij] that n(2) by (simp add: id)
  ultimately have P: "length vs = length (replicate n (None :: variable option)) \<and>
    (\<forall>j<length xs. vs ! unat (?m (of_nat (0 + j))) = Some ((xs ! j)\<lparr>rv_id := ?m (of_nat (0 + j))\<rparr>)) \<and>
    (\<forall>i. i \<notin> (\<lambda>j. unat (?m (of_nat (0 + j)))) ` {..<length xs} \<longrightarrow> vs ! i = replicate n None ! i)"
    using eq by (intro place_variables_spec) simp_all
  have len: "length vs = n" using P by simp
  have at: "vs ! unat (mp ! v) = Some ((xs ! v)\<lparr>rv_id := mp ! v\<rparr>)" if "v < n" for v
    using P [THEN conjunct2, THEN conjunct1, rule_format, of v] that n(2) by (simp add: id)
  have "\<forall>i<length vs. vs ! i \<noteq> None"
  proof (intro allI impI)
    fix i assume "i < length vs"
    then have "i \<in> (\<lambda>v. unat (mp ! v)) ` {..<n}" using bij len by (simp add: bij_betw_def)
    then show "vs ! i \<noteq> None" using at by auto
  qed
  then obtain ys where ys: "those vs = Some ys" using those_total by blast
  have map: "vs = map Some ys" by (rule those_Some [OF ys])
  have "ys ! unat (mp ! v) = (xs ! v)\<lparr>rv_id := mp ! v\<rparr>" if "v < n" for v
  proof -
    have "unat (mp ! v) < n" using bij that by (auto simp: bij_betw_def)
    then show ?thesis using at [OF that] len by (simp add: map)
  qed
  then show ?thesis using eq ys len by (auto simp: map)
qed

lemma renames_id: "n \<le> 2 ^ 32 \<Longrightarrow> \<forall>j<length ids. unat (ids ! j) = j \<and> j < n \<Longrightarrow> renames n ids (map of_nat [0..<n])"
proof -
  assume n: "n \<le> 2 ^ 32" and ids: "\<forall>j<length ids. unat (ids ! j) = j \<and> j < n"
  have at: "unat (map of_nat [0..<n] ! v :: var_id) = v" if "v < n" for v
    using that n by (simp add: unat_of_nat take_bit_nat_eq_self)
  have "bij_betw (\<lambda>v. unat (map of_nat [0..<n] ! v :: var_id)) {..<n} {..<n}"
    by (rule bij_betw_cong [THEN iffD1, OF _ bij_betw_id]) (simp only: lessThan_iff at id_apply)
  then show ?thesis using ids at by (auto simp: renames_def)
qed

lemma enumerate_all: "list_all (\<lambda>(i, v). unat v = i) (enumerate 0 ids) \<longleftrightarrow> (\<forall>j<length ids. unat (ids ! j) = j)"
  by (auto simp: list_all_length nth_enumerate_eq)

text \<open>What renumbering does to a state whose ids are in range.\<close>

lemma renumber_spec:
  assumes inv: "binv p b" and ids: "distinct (b_input_ids b)" "\<forall>v \<in> set (b_input_ids b). unat v < nv b"
    and range: "\<forall>v \<in> looked_up b. unat v < nv b" and num: "\<forall>v<nv b. rv_id (b_variables b ! v) = of_nat v"
  obtains mp b' where "renumber_inputs b = Some (mp, b')" "renames (nv b) (b_input_ids b) mp"
    "\<And>\<sigma>. bsem p b' \<sigma> \<longleftrightarrow> bsem p b (\<sigma> \<circ> (\<lambda>v. mp ! unat v))" "merged_ok b'" "nv b' = nv b"
    "length (b_witness b') = length (b_witness b)"
    "\<And>v x. bt_get (b_merged b') v = Some x \<Longrightarrow> \<exists>k. bt_get (b_merged b) k = Some x"
    "\<And>v. v < nv b \<Longrightarrow> b_variables b' ! unat (mp ! v) = (b_variables b ! v)\<lparr>rv_id := mp ! v\<rparr>"
    "\<And>c. c \<in> set (b_constraints b') \<Longrightarrow> row_below (nv b) c"
proof (cases "list_all (\<lambda>(i, v). unat v = i) (enumerate 0 (b_input_ids b))")
  case True
  let ?mp = "map of_nat [0..<nv b] :: var_id list"
  have n: "nv b \<le> 2 ^ 32" by (rule binvD(2) [OF inv])
  have at: "unat (?mp ! v) = v" if "v < nv b" for v
    using that n by (simp add: unat_of_nat take_bit_nat_eq_self)
  have ren: "renames (nv b) (b_input_ids b) ?mp"
    using True ids(2) by (intro renames_id [OF n]) (metis enumerate_all nth_mem)
  have sem: "bsem p b \<sigma> \<longleftrightarrow> bsem p b (\<sigma> \<circ> (\<lambda>v. ?mp ! unat v))" for \<sigma>
    by (rule bsem_eq_below [OF inv]) (simp add: eq_below_def)
  have eq: "renumber_inputs b = Some (?mp, b)" using True by (simp add: renumber_inputs_def)
  show thesis by (rule that [OF eq ren sem binvD(6) [OF inv]]) (use at num binvD(3) [OF inv] in auto)
next
  case False
  have n: "nv b \<le> 2 ^ 32" by (rule binvD(2) [OF inv])
  obtain mp where mp: "input_map (nv b) (b_input_ids b) = Some mp"
    by (rule input_map_entries [OF ids n])
  let ?m = "\<lambda>v :: var_id. mp ! unat v"
  have ren: "renames (nv b) (b_input_ids b) mp"
    using input_map_bijection [OF ids n mp] by (simp add: renames_def)
  obtain vs ns ys where place: "place_variables ?m 0 (b_variables b) (b_var_names b) (replicate (nv b) None, replicate (nv b) []) = (vs, ns)"
      "those vs = Some ys" "length ys = nv b" "\<forall>v<nv b. ys ! unat (mp ! v) = (b_variables b ! v)\<lparr>rv_id := mp ! v\<rparr>"
    using place_all [OF ren n refl] by blast
  define b' where "b' = b\<lparr>
         b_constraints := map (rename_row ?m) (b_constraints b),
         b_witness := map (map_option (subst_witness_vars ?m (rename_lc ?m))) (b_witness b),
         b_variables := ys, b_var_names := ns,
         b_merged := foldl (\<lambda>t (k, x). bt_insert (?m k) x t) [] (b_merged b),
         b_witness_only_vars := ?m ` b_witness_only_vars b,
         b_input_ids := map of_nat [0..<length (b_input_ids b)]\<rparr>"
  have no_panic: "\<not> (\<exists>v \<in> looked_up b. nv b \<le> unat v)" using range by force
  have eq: "renumber_inputs b = Some (mp, b')"
    using False no_panic place(1,2) by (simp add: renumber_inputs_def Let_def mp b'_def)
  have inj: "inj_on ?m (fst ` set (b_merged b))"
  proof (rule inj_onI)
    fix u v assume uv: "u \<in> fst ` set (b_merged b)" "v \<in> fst ` set (b_merged b)" "?m u = ?m v"
    have "unat w < nv b" if "w \<in> fst ` set (b_merged b)" for w
      using that range by (force simp: looked_up_def bt_keys_def)
    then show "u = v" using renames_inj [OF ren _ _ uv(3)] uv by blast
  qed
  have inv_m: "bt_invar (b_merged b)" using binvD(6) [OF inv] by (simp add: merged_ok_def)
  note mg = bt_rename_get [OF inv_m inj]
  have get: "bt_get (b_merged b') j = Some x \<longleftrightarrow> (\<exists>k. bt_get (b_merged b) k = Some x \<and> ?m k = j)" for j x
    by (simp add: b'_def mg(2))
  have sem: "bsem p b' \<sigma> \<longleftrightarrow> bsem p b (\<sigma> \<circ> ?m)" for \<sigma>
    by (rule bsem_rename [OF _ get binvD(6) [OF inv]]) (simp add: b'_def)
  have ok: "merged_ok b'"
    unfolding merged_ok_def
  proof (intro conjI allI impI)
    show "bt_invar (b_merged b')" by (simp add: b'_def mg(1))
    fix v wi ci assume "bt_get (b_merged b') v = Some (wi, ci)"
    then obtain k where k: "bt_get (b_merged b) k = Some (wi, ci)" "?m k = v" using get by blast
    then have "unat k < nv b" "ci < length (b_constraints b)" using binvD(6) [OF inv] by (auto simp: merged_ok_def)
    then show "unat v < nv b'" "ci < length (b_constraints b')"
      using k(2) ren place(3) by (auto simp: renames_def bij_betw_def b'_def)
  qed
  show thesis
  proof (rule that [OF eq ren sem ok])
    show "\<exists>k. bt_get (b_merged b) k = Some x" if "bt_get (b_merged b') v = Some x" for v x using get that by blast
    fix c assume "c \<in> set (b_constraints b')"
    then obtain c0 where "c0 \<in> set (b_constraints b)" "c = rename_row ?m c0" by (auto simp: b'_def)
    moreover have "unat (?m v) < nv b" if "unat v < nv b" for v
      using ren that by (auto simp: renames_def bij_betw_def)
    ultimately show "row_below (nv b) c" using binvD(3) [OF inv] rename_row_below [of "nv b" c0 ?m "nv b"] by simp
  qed (use place(3,4) in \<open>simp_all add: b'_def\<close>)
qed


text \<open>Every assignment of the old variables is one of the new.\<close>

lemma renames_surj:
  fixes \<sigma> :: assignment
  assumes "renames n ids mp"
  shows "\<exists>\<tau>. eq_below n \<sigma> (\<tau> \<circ> (\<lambda>v. mp ! unat v))"
proof (intro exI)
  let ?inv = "\<lambda>w. SOME v. unat v < n \<and> mp ! unat v = w"
  have inv: "?inv (mp ! unat v) = v" if "unat v < n" for v
    by (rule some_equality) (use that renames_inj [OF assms] in auto)
  show "eq_below n \<sigma> ((\<sigma> \<circ> ?inv) \<circ> (\<lambda>v. mp ! unat v))"
    unfolding eq_below_def comp_apply by (intro allI impI) (simp only: inv)
qed

end
