(* ===== verification/Finish_Rows.thy ===== *)
theory Finish_Rows
  imports Finish_Renumber
begin

text \<open>
  What finishing keeps: the finished rows say what the builder's rows and folded products said, up
  to the renumbering and to variables that no row reads; a hint operation that is kept keeps the
  operations it reads from; a circuit that passes the pinning gate has no free hint output.
\<close>

section \<open>Filling in the products\<close>

lemma fill_product_spec:
  "fill_product cs mg d ws = Some ws' \<Longrightarrow> length ws' = length ws \<and>
    (\<forall>w \<in> set ws'. w \<in> set ws \<or> (\<exists>w' i out. d = (w', i, out) \<and> i < length cs \<and> w = Some (Product out (rc_a (cs ! i)) (rc_b (cs ! i)))))"
  by (cases d) (auto split: if_splits dest: set_update_subset_insert [THEN subsetD])

lemma fill_all_spec:
  "fill_all cs mg ds ws = Some ws' \<Longrightarrow> length ws' = length ws \<and>
    (\<forall>w \<in> set ws'. w \<in> set ws \<or>
      (\<exists>(w', i, out) \<in> set ds. i < length cs \<and> w = Some (Product out (rc_a (cs ! i)) (rc_b (cs ! i)))))"
proof (induction cs mg ds ws arbitrary: ws' rule: fill_all.induct)
  case (2 cs mg d ds ws)
  then obtain ws1 where 1: "fill_product cs mg d ws = Some ws1" "fill_all cs mg ds ws1 = Some ws'"
    by (auto simp: Option.bind_eq_Some_conv)
  show ?case using 2(1) [OF 1] fill_product_spec [OF 1(1)] by fastforce
qed simp

lemma fill_all_total:
  "\<forall>(w, i, out) \<in> set ds. w < length ws \<and> i < length cs \<Longrightarrow> fill_all cs mg ds ws \<noteq> None"
proof (induction cs mg ds ws rule: fill_all.induct)
  case (2 cs mg d ds ws)
  have "fill_product cs mg d ws \<noteq> None" using 2(2) by (cases d) auto
  then obtain ws1 where ws1: "fill_product cs mg d ws = Some ws1" by blast
  show ?case using 2(1) [OF ws1] 2(2) fill_product_spec [OF ws1] by (simp add: ws1)
qed simp

section \<open>Folded products that are still read\<close>

definition revived_row :: "r1cs_constraint list \<Rightarrow> var_id \<times> nat \<times> nat \<Rightarrow> u32 \<Rightarrow> r1cs_constraint" where
  "revived_row cs e i = (case e of (out, _, k) \<Rightarrow> rc_mul i (rc_a (cs ! k)) (rc_b (cs ! k)) out revived_note)"

lemma revive_spec:
  assumes "\<forall>(out, w, i) \<in> set ms. i < length cs \<and> w < length (b_witness b)" "b_constraints b = cs @ new"
    "referenced = referenced_by (b_constraints b)"
  shows "\<exists>b' ids. revive ms b referenced = Some (b', referenced_by (b_constraints b')) \<and> length ids = length ms \<and>
    b_constraints b' = cs @ new @ map (\<lambda>(e, i). revived_row cs e i) (zip ms ids) \<and>
    b_variables b' = b_variables b \<and> b_witness_only_vars b' = b_witness_only_vars b \<and> length (b_witness b') = length (b_witness b)"
  using assms
proof (induction ms arbitrary: b referenced new)
  case (Cons e ms)
  obtain out w i where e: "e = (out, w, i)" by (cases e)
  let ?id = "fst (fresh_constraint_id b)" and ?b = "snd (fresh_constraint_id b)"
  let ?row = "rc_mul ?id (rc_a (cs ! i)) (rc_b (cs ! i)) out revived_note"
  let ?b1 = "?b\<lparr>b_constraints := b_constraints ?b @ [?row]\<rparr>"
  let ?b2 = "?b1\<lparr>b_witness := (b_witness b)[w := Some (Product out (rc_a (cs ! i)) (rc_b (cs ! i)))]\<rparr>"
  let ?ref = "insert out (referenced \<union> set (lc_ids (rc_a (cs ! i)) @ lc_ids (rc_b (cs ! i))))"
  have i: "i < length cs" "w < length (b_witness b)" using Cons.prems(1) e by auto
  have at: "b_constraints b ! i = cs ! i" using i Cons.prems(2) by (simp add: nth_append)
  have same: "b_constraints ?b = b_constraints b" "b_witness ?b = b_witness b" by (simp_all add: fresh_constraint_id_def)
  have unfold: "revive (e # ms) b referenced = revive ms ?b2 ?ref"
    using i Cons.prems(2) by (simp add: e Let_def split_beta at same nth_append)
  have ref: "?ref = referenced_by (b_constraints ?b2)"
    using Cons.prems(3) by (auto simp: referenced_by_def row_ids_def rc_mul_def lc_ids_def lc_var_def same)
  have "\<exists>b' ids. revive ms ?b2 ?ref = Some (b', referenced_by (b_constraints b')) \<and> length ids = length ms \<and>
    b_constraints b' = cs @ (new @ [?row]) @ map (\<lambda>(e, i). revived_row cs e i) (zip ms ids) \<and>
    b_variables b' = b_variables ?b2 \<and> b_witness_only_vars b' = b_witness_only_vars ?b2 \<and> length (b_witness b') = length (b_witness ?b2)"
    using Cons.prems(1,2) by (intro Cons.IH [OF _ _ ref]) (auto simp: same)
  then obtain b' ids where b': "revive ms ?b2 ?ref = Some (b', referenced_by (b_constraints b'))" "length ids = length ms"
    "b_constraints b' = cs @ (new @ [?row]) @ map (\<lambda>(e, i). revived_row cs e i) (zip ms ids)"
    "b_variables b' = b_variables ?b2" "b_witness_only_vars b' = b_witness_only_vars ?b2"
    "length (b_witness b') = length (b_witness ?b2)" by blast
  then show ?case unfolding unfold
    by (intro exI [of _ b'] exI [of _ "?id # ids"]) (simp add: e revived_row_def fresh_constraint_id_def)
qed (auto intro: exI [of _ "[]"])

lemma revived_row_holds [simp]:
  "row_holds p \<sigma> (revived_row cs (out, w, k) i) \<longleftrightarrow> int p dvd \<sigma> out - row_product \<sigma> (cs ! k)"
  unfolding revived_row_def by (simp add: row_product_def) (metis dvd_diff_commute)

text \<open>The rows with the folded products back say what the builder's state says, except for folded
  outputs that nothing reads.\<close>

lemma revive_merged_spec:
  assumes ok: "merged_ok b" and slots: "\<And>v w i. bt_get (b_merged b) v = Some (w, i) \<Longrightarrow> w < length (b_witness b)"
  obtains b' where "revive_merged b = Some (b', referenced_by (b_constraints b'))"
    "b_variables b' = b_variables b" "b_witness_only_vars b' = b_witness_only_vars b"
    "referenced_by (b_constraints b') \<subseteq> referenced_by (b_constraints b)"
    "\<And>\<sigma>. bsem p b \<sigma> \<Longrightarrow> \<forall>c \<in> set (b_constraints b'). row_holds p \<sigma> c"
    "\<And>\<tau>. \<forall>c \<in> set (b_constraints b'). row_holds p \<tau> c \<Longrightarrow>
      \<exists>\<sigma>. bsem p b \<sigma> \<and> (\<forall>v \<in> referenced_by (b_constraints b'). \<sigma> v = \<tau> v)"
proof -
  let ?cs = "b_constraints b" and ?ref = "referenced_by (b_constraints b)"
  let ?ms = "filter (\<lambda>(out, _). out \<in> ?ref) (b_merged b)"
  have d: "distinct (map fst (b_merged b))" using ok by (simp add: merged_ok_def bt_invar_def strict_sorted_iff)
  have get: "(v, w, i) \<in> set (b_merged b) \<longleftrightarrow> bt_get (b_merged b) v = Some (w, i)" for v w i
    by (simp add: bt_get_map_of d)
  have ms: "\<forall>(out, w, i) \<in> set ?ms. i < length ?cs \<and> w < length (b_witness (b\<lparr>b_merged := []\<rparr>))"
    using ok slots by (auto simp: merged_ok_def get)
  obtain b' ids where b': "revive ?ms (b\<lparr>b_merged := []\<rparr>) ?ref = Some (b', referenced_by (b_constraints b'))"
    "length ids = length ?ms" "b_constraints b' = ?cs @ [] @ map (\<lambda>(e, i). revived_row ?cs e i) (zip ?ms ids)"
    "b_variables b' = b_variables b" "b_witness_only_vars b' = b_witness_only_vars b"
    using revive_spec [OF ms, of "[]" ?ref] by auto
  have rows: "(\<forall>c \<in> set (b_constraints b'). row_holds p \<sigma> c) \<longleftrightarrow> (\<forall>c \<in> set ?cs. row_holds p \<sigma> c) \<and>
      (\<forall>v w i. bt_get (b_merged b) v = Some (w, i) \<and> v \<in> ?ref \<longrightarrow> int p dvd \<sigma> v - row_product \<sigma> (?cs ! i))" for \<sigma>
  proof -
    have "(\<forall>x \<in> set (zip ?ms ids). case x of (e, i) \<Rightarrow> row_holds p \<sigma> (revived_row ?cs e i)) \<longleftrightarrow>
      (\<forall>e \<in> set ?ms. case e of (v, w, i) \<Rightarrow> int p dvd \<sigma> v - row_product \<sigma> (?cs ! i))"
    proof -
      have "(\<forall>x \<in> set (zip ?ms ids). case x of (e, i) \<Rightarrow> row_holds p \<sigma> (revived_row ?cs e i)) \<longleftrightarrow>
        (\<forall>x \<in> set (zip ?ms ids). case fst x of (v, w, i) \<Rightarrow> int p dvd \<sigma> v - row_product \<sigma> (?cs ! i))"
        by (rule ball_cong) auto
      also have "\<dots> \<longleftrightarrow> (\<forall>e \<in> fst ` set (zip ?ms ids). case e of (v, w, i) \<Rightarrow> int p dvd \<sigma> v - row_product \<sigma> (?cs ! i))"
        by simp
      also have "fst ` set (zip ?ms ids) = set ?ms" 
        unfolding set_map [symmetric] by (subst map_fst_zip) (simp_all only: b'(2))
      finally show ?thesis .
    qed
    then show ?thesis unfolding b'(3) by (auto simp: get split_beta)
  qed
  have refs: "referenced_by (b_constraints b') \<subseteq> ?ref"
  proof -
    have new: "set (row_ids (revived_row ?cs e i)) \<subseteq> ?ref" if e: "e \<in> set ?ms" for e i
    proof -
      obtain v w k where e': "e = (v, w, k)" by (cases e)
      have "k < length ?cs" "v \<in> ?ref" using ms e e' by auto
      moreover have "set (row_ids (?cs ! k)) \<subseteq> ?ref" using nth_mem [OF \<open>k < length ?cs\<close>] by (auto simp: referenced_by_def)
      ultimately show ?thesis by (auto simp: e' revived_row_def rc_mul_def row_ids_def lc_ids_def lc_var_def)
    qed
    have "set (row_ids c) \<subseteq> ?ref" if c: "c \<in> set (b_constraints b')" for c
    proof (cases "c \<in> set ?cs")
      case False
      then obtain e i where ei: "(e, i) \<in> set (zip ?ms ids)" "c = revived_row ?cs e i" using c unfolding b'(3) by auto
      show ?thesis unfolding ei(2) by (rule new [OF set_zip_leftD [OF ei(1)]])
    qed (auto simp: referenced_by_def)
    then show ?thesis unfolding referenced_by_def [of "b_constraints b'"] by auto
  qed
  have "\<exists>\<sigma>. bsem p b \<sigma> \<and> (\<forall>v \<in> referenced_by (b_constraints b'). \<sigma> v = \<tau> v)"
    if \<tau>: "\<forall>c \<in> set (b_constraints b'). row_holds p \<tau> c" for \<tau>
  proof (intro exI conjI)
    let ?s = "\<lambda>v. case bt_get (b_merged b) v of
        Some (w, i) \<Rightarrow> if v \<in> ?ref then \<tau> v else row_product \<tau> (?cs ! i) | None \<Rightarrow> \<tau> v"
    have on_ref: "?s v = \<tau> v" if "v \<in> ?ref" for v using that by (simp split: option.split)
    have lc: "lc_val ?s l = lc_val \<tau> l" if "set (lc_ids l) \<subseteq> ?ref" for l
      unfolding lc_val_def using that on_ref by (intro arg_cong2 [of _ _ _ _ plus] terms_val_cong) (auto simp: lc_ids_def)
    have row: "row_product ?s c = row_product \<tau> c" "row_holds p ?s c = row_holds p \<tau> c" if "c \<in> set ?cs" for c
    proof -
      have "set (row_ids c) \<subseteq> ?ref" using that by (auto simp: referenced_by_def)
      then show "row_product ?s c = row_product \<tau> c" "row_holds p ?s c = row_holds p \<tau> c"
        by (simp_all add: row_product_def row_holds_def row_ids_def lc)
    qed
    have "int p dvd ?s v - row_product ?s (?cs ! i)" if h: "bt_get (b_merged b) v = Some (w, i)" for v w i
    proof -
      have "i < length ?cs" using ok h by (auto simp: merged_ok_def)
      then have "row_product ?s (?cs ! i) = row_product \<tau> (?cs ! i)" by (intro row(1)) simp
      then show ?thesis using \<tau> h unfolding rows by (auto simp: h)
    qed
    then show "bsem p b ?s" using \<tau> row(2) unfolding rows bsem_def by blast
    show "\<forall>v \<in> referenced_by (b_constraints b'). ?s v = \<tau> v" using on_ref refs by blast
  qed
  moreover have "\<forall>c \<in> set (b_constraints b'). row_holds p \<sigma> c" if "bsem p b \<sigma>" for \<sigma>
    using that unfolding rows bsem_def by blast
  ultimately show thesis using b'(1,4,5) refs by (intro that [of b']) (simp_all add: revive_merged_def Let_def)
qed

section \<open>The finished rows\<close>

text \<open>What finishing asks of a state besides its invariant: ids are in range, inputs are distinct,
  variables are numbered in order, and the slots of products are slots of the hint program.\<close>

definition finishable :: "builder \<Rightarrow> bool" where
  "finishable b \<longleftrightarrow> distinct (b_input_ids b) \<and> (\<forall>v \<in> set (b_input_ids b). unat v < nv b) \<and>
    (\<forall>v<nv b. rv_id (b_variables b ! v) = of_nat v) \<and>
    (\<forall>v \<in> hint_ids b \<union> b_witness_only_vars b. unat v < nv b) \<and>
    (\<forall>(w, i, out) \<in> set (b_deferred b). w < length (b_witness b) \<and> i < length (b_constraints b) \<and> unat out < nv b) \<and>
    (\<forall>(v, w, i) \<in> set (b_merged b). w < length (b_witness b))"

lemma hint_ids_iff:
  "v \<in> hint_ids b \<longleftrightarrow> (\<exists>op. Some op \<in> set (b_witness b) \<and> v \<in> set (witness_gen_outs op @ witness_gen_input_vars op))"
  by (force simp: hint_ids_def List.map_filter_def)

lemma fill_products_spec:
  assumes inv: "binv p b" and fin: "finishable b"
  obtains b' where "fill_products b = Some b'" "binv p b'" "bsem p b' = bsem p b"
    "nv b' = nv b" "b_input_ids b' = b_input_ids b" "b_variables b' = b_variables b" "b_merged b' = b_merged b"
    "length (b_witness b') = length (b_witness b)" "\<forall>v \<in> looked_up b'. unat v < nv b"
proof -
  have "\<forall>(w, i, out) \<in> set (b_deferred b). w < length (b_witness b) \<and> i < length (b_constraints b)"
    using fin unfolding finishable_def by fast
  then obtain ws where ws: "fill_all (b_constraints b) (b_merged b) (b_deferred b) (b_witness b) = Some ws"
    using fill_all_total by blast
  define b' where "b' = b\<lparr>b_deferred := [], b_witness := ws\<rparr>"
  have eq: "fill_products b = Some b'" by (simp add: fill_products_def ws b'_def)
  have "step p b b' (\<lambda>_. True) (\<lambda>_. True) (\<lambda>_. True)" by (rule step_same [OF inv]) (simp_all add: b'_def binvD(4) [OF inv])
  then have inv': "binv p b'" by (rule stepD(1))
  have A: "unat v < nv b" if h: "v \<in> hint_ids b'" for v
  proof -
    obtain op where op: "Some op \<in> set ws" "v \<in> set (witness_gen_outs op @ witness_gen_input_vars op)"
      using h unfolding hint_ids_iff by (auto simp: b'_def)
    consider "Some op \<in> set (b_witness b)"
      | w i out where "(w, i, out) \<in> set (b_deferred b)" "i < length (b_constraints b)"
          "op = Product out (rc_a (b_constraints b ! i)) (rc_b (b_constraints b ! i))"
      using fill_all_spec [OF ws] op(1) by blast
    then show ?thesis
    proof cases
      case 1
      then have "v \<in> hint_ids b" using op(2) by (auto simp: hint_ids_iff)
      then show ?thesis using fin by (simp add: finishable_def)
    next
      case 2
      have "row_below (nv b) (b_constraints b ! i)" using binvD(3) [OF inv] 2(2) by simp
      moreover have "unat out < nv b" using fin 2(1) unfolding finishable_def by fast
      ultimately show ?thesis using op(2) 2(3) by (auto simp: row_below_def lc_below_def lc_ids_def)
    qed
  qed
  have B: "unat v < nv b" if "v \<in> referenced_by (b_constraints b)" for v
    using that binvD(3) [OF inv] by (fastforce simp: referenced_by_def row_ids_def lc_ids_def row_below_def lc_below_def)
  have C: "unat v < nv b" if h: "v \<in> set (bt_keys (b_merged b))" for v
  proof -
    have "distinct (map fst (b_merged b))" using binvD(6) [OF inv] by (simp add: merged_ok_def bt_invar_def strict_sorted_iff)
    then obtain w i where "bt_get (b_merged b) v = Some (w, i)" using h by (force simp: bt_keys_def bt_get_map_of)
    then show ?thesis using binvD(6) [OF inv] by (auto simp: merged_ok_def)
  qed
  have D: "unat v < nv b" if "v \<in> b_witness_only_vars b" for v using fin that by (simp add: finishable_def)
  have E: "looked_up b' = referenced_by (b_constraints b) \<union> hint_ids b' \<union> set (bt_keys (b_merged b)) \<union> b_witness_only_vars b"
    by (simp add: looked_up_def hint_ids_def referenced_by_def b'_def)
  have "unat v < nv b" if "v \<in> looked_up b'" for v using that A [of v] B [of v] C [of v] D [of v] unfolding E by blast
  then have range: "\<forall>v \<in> looked_up b'. unat v < nv b" by blast
  have "bsem p b' = bsem p b" by (rule bsem_cong) (simp_all add: b'_def)
  then show thesis using fill_all_spec [OF ws] by (intro that [OF eq inv' _ _ _ _ _ _ range]) (simp_all add: b'_def)
qed

lemma finish_exact:
  assumes inv: "binv p b" and fin: "finishable b"
  obtains out where "finish b field n = Some out" "renames (nv b) (b_input_ids b) (lo_var_map out)"
    "\<And>\<sigma>. bsem p b (\<sigma> \<circ> (\<lambda>v. lo_var_map out ! unat v)) \<Longrightarrow> \<forall>c \<in> set (rp_constraints (lo_r1cs out)). row_holds p \<sigma> c"
    "\<And>\<tau>. \<forall>c \<in> set (rp_constraints (lo_r1cs out)). row_holds p \<tau> c \<Longrightarrow>
      \<exists>\<sigma>. bsem p b (\<sigma> \<circ> (\<lambda>v. lo_var_map out ! unat v)) \<and> (\<forall>v \<in> referenced_by (rp_constraints (lo_r1cs out)). \<sigma> v = \<tau> v)"
    "distinct (map rv_id (rp_variables (lo_r1cs out)))"
    "referenced_by (rp_constraints (lo_r1cs out)) \<subseteq> rv_id ` set (rp_variables (lo_r1cs out))"
proof -
  obtain b1 where 1: "fill_products b = Some b1" "binv p b1" "bsem p b1 = bsem p b"
    "nv b1 = nv b" "b_input_ids b1 = b_input_ids b" "b_variables b1 = b_variables b" "b_merged b1 = b_merged b"
    "length (b_witness b1) = length (b_witness b)" "\<forall>v \<in> looked_up b1. unat v < nv b"
    by (rule fill_products_spec [OF inv fin])
  obtain mp b2 where 2: "renumber_inputs b1 = Some (mp, b2)" "renames (nv b1) (b_input_ids b1) mp"
    "\<And>\<sigma>. bsem p b2 \<sigma> \<longleftrightarrow> bsem p b1 (\<sigma> \<circ> (\<lambda>v. mp ! unat v))" "merged_ok b2" "nv b2 = nv b1"
    "length (b_witness b2) = length (b_witness b1)"
    "\<And>v x. bt_get (b_merged b2) v = Some x \<Longrightarrow> \<exists>k. bt_get (b_merged b1) k = Some x"
    "\<And>v. v < nv b1 \<Longrightarrow> b_variables b2 ! unat (mp ! v) = (b_variables b1 ! v)\<lparr>rv_id := mp ! v\<rparr>"
    "\<And>c. c \<in> set (b_constraints b2) \<Longrightarrow> row_below (nv b1) c"
    by (rule renumber_spec [OF 1(2)]) (use fin 1(4-6,9) in \<open>simp_all add: finishable_def\<close>)
  have slots: "w < length (b_witness b2)" if m: "bt_get (b_merged b2) v = Some (w, i)" for v w i
  proof -
    obtain k where "bt_get (b_merged b) k = Some (w, i)" using 2(7) [OF m] 1(7) by auto
    then have "(k, w, i) \<in> set (b_merged b)" by (auto simp: bt_get_map_of dest: map_of_SomeD)
    then show ?thesis using fin 1(8) 2(6) unfolding finishable_def by fastforce
  qed
  obtain b3 where 3: "revive_merged b2 = Some (b3, referenced_by (b_constraints b3))"
    "b_variables b3 = b_variables b2" "b_witness_only_vars b3 = b_witness_only_vars b2"
    "referenced_by (b_constraints b3) \<subseteq> referenced_by (b_constraints b2)"
    "\<And>\<sigma>. bsem p b2 \<sigma> \<Longrightarrow> \<forall>c \<in> set (b_constraints b3). row_holds p \<sigma> c"
    "\<And>\<tau>. \<forall>c \<in> set (b_constraints b3). row_holds p \<tau> c \<Longrightarrow>
      \<exists>\<sigma>. bsem p b2 \<sigma> \<and> (\<forall>v \<in> referenced_by (b_constraints b3). \<sigma> v = \<tau> v)"
    by (rule revive_merged_spec [where p = p, OF 2(4)]) (rule slots, assumption, rule that)
  define out where "out = finish_out field n (drop_dead b3) (referenced_by (b_constraints b3)) mp"
  have eq: "finish b field n = Some out" by (simp add: finish_def 1(1) 2(1) 3(1) out_def)
  have out: "rp_constraints (lo_r1cs out) = b_constraints b3" "lo_var_map out = mp"
    "\<exists>P. rp_variables (lo_r1cs out) = filter P (b_variables b2) \<and> (\<forall>v. rv_id v \<in> referenced_by (b_constraints b3) \<longrightarrow> P v)"
    using 3(2) by (auto simp: out_def finish_out_def drop_dead_def Let_def)
  have n: "nv b \<le> 2 ^ 32" by (rule binvD(2) [OF inv])
  have id: "rv_id (b_variables b2 ! i) = of_nat i" if i: "i < nv b" for i
  proof -
    have "i \<in> (\<lambda>v. unat (mp ! v)) ` {..<nv b}" using 2(2) i 1(4) by (simp add: renames_def bij_betw_def)
    then obtain v where "v < nv b" "i = unat (mp ! v)" by auto
    then show ?thesis using 2(8) [of v] 1(4) by simp
  qed
  have ids: "map rv_id (b_variables b2) = map of_nat [0..<nv b]"
    by (rule nth_equalityI) (use 2(5) 1(4) id in simp_all)
  have "distinct (map rv_id (b_variables b2))"
    unfolding ids distinct_map using n by (auto intro!: inj_on_inverseI [where g = unat] simp: unat_of_nat take_bit_nat_eq_self)
  then have dist: "distinct (map rv_id (rp_variables (lo_r1cs out)))" using out(3) by (auto intro: distinct_map_filter)
  have "v \<in> rv_id ` set (rp_variables (lo_r1cs out))" if v: "v \<in> referenced_by (b_constraints b3)" for v
  proof -
    have "v \<in> referenced_by (b_constraints b2)" using v 3(4) by blast
    then have "unat v < nv b" using 2(9) 1(4)
      by (fastforce simp: referenced_by_def row_ids_def lc_ids_def row_below_def lc_below_def)
    then have "b_variables b2 ! unat v \<in> set (b_variables b2)" "rv_id (b_variables b2 ! unat v) = v"
      using id [of "unat v"] 2(5) 1(4) by simp_all
    then show ?thesis using out(3) v by force
  qed
  then have decl: "referenced_by (rp_constraints (lo_r1cs out)) \<subseteq> rv_id ` set (rp_variables (lo_r1cs out))"
    unfolding out(1) by blast
  show thesis
  proof (rule that [OF eq _ _ _ dist decl])
    show "renames (nv b) (b_input_ids b) (lo_var_map out)" using 2(2) 1(4,5) out(2) by simp
    show "\<forall>c \<in> set (rp_constraints (lo_r1cs out)). row_holds p \<sigma> c"
      if "bsem p b (\<sigma> \<circ> (\<lambda>v. lo_var_map out ! unat v))" for \<sigma>
      using that 3(5) 2(3) 1(3) out(1,2) by simp
    show "\<exists>\<sigma>. bsem p b (\<sigma> \<circ> (\<lambda>v. lo_var_map out ! unat v)) \<and> (\<forall>v \<in> referenced_by (rp_constraints (lo_r1cs out)). \<sigma> v = \<tau> v)"
      if "\<forall>c \<in> set (rp_constraints (lo_r1cs out)). row_holds p \<tau> c" for \<tau>
      using 3(6) that 2(3) 1(3) out(1,2) by simp
  qed
qed


section \<open>Hint operations that stay\<close>

text \<open>No operation writes what an earlier one reads or writes.\<close>

fun hints_ordered :: "witness_op list \<Rightarrow> bool" where
  "hints_ordered [] = True"
| "hints_ordered (op # ops) \<longleftrightarrow>
    (\<forall>op' \<in> set ops. set (witness_gen_outs op') \<inter> (set (witness_gen_outs op) \<union> set (witness_gen_input_vars op)) = {}) \<and>
    hints_ordered ops"

lemma hints_ordered_snoc: "hints_ordered (ops @ [op]) \<longleftrightarrow> hints_ordered ops \<and>
    (\<forall>op' \<in> set ops. set (witness_gen_outs op) \<inter> (set (witness_gen_outs op') \<union> set (witness_gen_input_vars op')) = {})"
  by (induction ops) auto

lemma spread_live_bounds:
  "live \<subseteq> spread_live ops live"
  "spread_live ops live \<subseteq> live \<union> (\<Union>op \<in> set ops. set (witness_gen_outs op) \<union> set (witness_gen_input_vars op))"
  by (induction ops live rule: spread_live.induct) auto

text \<open>One pass is enough: the live set is closed.\<close>

lemma spread_live_closed:
  assumes "hints_ordered ops" "op \<in> set ops" "\<exists>out \<in> set (witness_gen_outs op). out \<in> spread_live (rev ops) live"
  shows "set (witness_gen_outs op) \<union> set (witness_gen_input_vars op) \<subseteq> spread_live (rev ops) live"
  using assms
proof (induction ops arbitrary: live rule: rev_induct)
  case (snoc x ops)
  define live1 where "live1 = (if \<exists>out \<in> set (witness_gen_outs x). out \<in> live
    then live \<union> set (witness_gen_outs x) \<union> set (witness_gen_input_vars x) else live)"
  have L: "spread_live (rev (ops @ [x])) live = spread_live (rev ops) live1" by (simp add: live1_def)
  have ord: "hints_ordered ops" "\<forall>op' \<in> set ops. set (witness_gen_outs x) \<inter> (set (witness_gen_outs op') \<union> set (witness_gen_input_vars op')) = {}"
    using snoc.prems(1) by (simp_all add: hints_ordered_snoc)
  show ?case
  proof (cases "op \<in> set ops")
    case True
    then show ?thesis using snoc.IH [OF ord(1) True] snoc.prems(3) unfolding L by blast
  next
    case False
    then have x: "op = x" using snoc.prems(2) by simp
    obtain out where out: "out \<in> set (witness_gen_outs x)" "out \<in> spread_live (rev ops) live1"
      using snoc.prems(3) unfolding L x by blast
    have "out \<in> live1" using out ord(2) spread_live_bounds(2) [of "rev ops" live1] by auto
    then have "set (witness_gen_outs x) \<union> set (witness_gen_input_vars x) \<subseteq> live1"
      using out(1) by (auto simp: live1_def split: if_splits)
    then show ?thesis using spread_live_bounds(1) [of live1 "rev ops"] unfolding L x by blast
  qed
qed simp

definition hint_ops :: "builder \<Rightarrow> witness_op list" where
  "hint_ops b = List.map_filter id (b_witness b)"

lemma hint_ops_iff: "op \<in> set (hint_ops b) \<longleftrightarrow> Some op \<in> set (b_witness b)"
  by (force simp: hint_ops_def List.map_filter_def)

text \<open>What the rows need, hint by hint: the variables they read, and with a needed output all the
  outputs and inputs of its operation.\<close>

inductive needed :: "builder \<Rightarrow> var_id \<Rightarrow> bool" for b where
  read: "v \<in> referenced_by (b_constraints b) \<Longrightarrow> needed b v"
| hint: "op \<in> set (hint_ops b) \<Longrightarrow> out \<in> set (witness_gen_outs op) \<Longrightarrow> needed b out \<Longrightarrow>
    v \<in> set (witness_gen_outs op) \<union> set (witness_gen_input_vars op) \<Longrightarrow> needed b v"

lemma spread_live_needed:
  "set ops \<subseteq> set (hint_ops b) \<Longrightarrow> \<forall>v \<in> live. needed b v \<Longrightarrow> \<forall>v \<in> spread_live ops live. needed b v"
proof (induction ops live rule: spread_live.induct)
  case (2 op ops live)
  show ?case
  proof (cases "\<exists>out \<in> set (witness_gen_outs op). out \<in> live")
    case True
    then obtain out where out: "out \<in> set (witness_gen_outs op)" "needed b out" using 2(4) by blast
    have "op \<in> set (hint_ops b)" using 2(3) by simp
    from needed.hint [OF this out]
    have "\<forall>v \<in> live \<union> set (witness_gen_outs op) \<union> set (witness_gen_input_vars op). needed b v"
      using 2(4) by blast
    with 2(1) [OF True] 2(3) show ?thesis using True by simp
  qed (use 2 in simp)
qed simp

lemma spread_live_exact:
  assumes "hints_ordered (hint_ops b)"
  shows "v \<in> spread_live (rev (hint_ops b)) (referenced_by (b_constraints b)) \<longleftrightarrow> needed b v" (is "_ \<in> ?L \<longleftrightarrow> _")
proof
  show "v \<in> ?L \<Longrightarrow> needed b v"
    using spread_live_needed [of "rev (hint_ops b)" b "referenced_by (b_constraints b)"] needed.read by auto
  show "v \<in> ?L" if "needed b v"
    using that
  proof induction
    case (read v)
    then show ?case using spread_live_bounds(1) by blast
  next
    case (hint op out v)
    then show ?case using spread_live_closed [OF assms hint(1)] by blast
  qed
qed

lemma drop_dead_slots:
  assumes "hints_ordered (hint_ops b)"
  shows "b_witness (drop_dead b) = map (\<lambda>w. case w of
      Some op \<Rightarrow> if (\<exists>out \<in> set (witness_gen_outs op). out \<in> b_witness_only_vars b) \<and>
          (\<forall>out \<in> set (witness_gen_outs op). \<not> needed b out) then None else Some op
    | None \<Rightarrow> None) (b_witness b)"
proof -
  note live = spread_live_exact [OF assms, unfolded hint_ops_def]
  show ?thesis
  proof (cases "b_witness_only_vars b = {}")
    case True
    then have "map (\<lambda>w. case w of Some op \<Rightarrow> if (\<exists>out \<in> set (witness_gen_outs op). out \<in> b_witness_only_vars b) \<and>
          (\<forall>out \<in> set (witness_gen_outs op). \<not> needed b out) then None else Some op | None \<Rightarrow> None) (b_witness b) = b_witness b"
      by (intro map_idI) (auto split: option.splits)
    then show ?thesis using True by (simp add: drop_dead_def)
  next
    case False
    then show ?thesis by (auto simp: drop_dead_def Let_def dead_op_def live split: option.splits)
  qed
qed

section \<open>The pinning gate\<close>

definition pinned :: "lower_output \<Rightarrow> var_id \<Rightarrow> bool" where
  "pinned out v \<longleftrightarrow> v \<in> referenced_by (rp_constraints (lo_r1cs out)) \<or> v \<in> lo_witness_only_vars out"

lemma check_variables_iff:
  "check_variables ref wo n vs = Inr () \<longleftrightarrow> (\<forall>v \<in> set vs. rv_id v \<in> ref \<or> rv_id v \<in> wo \<or>
    rv_visibility v = Internal \<or> rv_visibility v = Private \<and> unat (rv_id v) < n)"
  by (induction ref wo n vs rule: check_variables.induct) (auto split: visibility.splits)

lemma check_pinning_iff:
  "check_pinning out n = Inr () \<longleftrightarrow> (\<forall>v \<in> set (rp_variables (lo_r1cs out)). pinned out (rv_id v) \<or>
    rv_visibility v = Internal \<or> rv_visibility v = Private \<and> unat (rv_id v) < n)"
  by (auto simp: check_pinning_def check_variables_iff pinned_def)

end
