(* ===== verification/Circuit_Props.thy ===== *)
theory Circuit_Props
  imports Finish_Rows Fp
begin

text \<open>
  The properties of the circuit builder and of the finished circuit. Those of an operation say that
  it returns, that the state it leaves satisfies the builder's invariant, that every assignment of
  its rows gives the result its value (soundness), and that every assignment of the rows before it
  that meets the operation's condition extends to its new variables (completeness): all of this is
  \<open>emits\<close> and \<open>step\<close>. A sample circuit shows that the hypotheses can hold.
\<close>

section \<open>A sample state\<close>

definition sample_inputs :: "bool \<Rightarrow> builder" where
  "sample_inputs cse = (snd (alloc_var ''z'' Private (snd (alloc_var ''y'' Private
    (snd (alloc_var ''x'' Public (builder_new cse 4096)))))))\<lparr>b_input_ids := [2, 0, 1]\<rparr>"

lemma binv_new: "binv p (builder_new cse n)"
  by (rule binvI) (simp_all add: builder_new_def pending_ok_def merged_ok_def bt_invar_def boolean_ok_def computed_ok_def)

lemma step_alloc_input:
  "binv p b \<Longrightarrow> nv b < 2 ^ 32 \<Longrightarrow> step p b (snd (alloc_var nm vis b)) (\<lambda>_. True) (\<lambda>_. True) (\<lambda>_. True)"
  by (rule step_weaken [OF step_alloc_var [of p b "\<lambda>_. 0"]]) simp_all

lemma sample_inputs_step: "step p (builder_new cse 4096) (sample_inputs cse) (\<lambda>_. True) (\<lambda>_. True) (\<lambda>_. True)"
proof -
  let ?b0 = "builder_new cse 4096"
  let ?b1 = "snd (alloc_var ''x'' Public ?b0)"
  let ?b2 = "snd (alloc_var ''y'' Private ?b1)"
  let ?b3 = "snd (alloc_var ''z'' Private ?b2)"
  have n: "nv ?b0 = 0" by (simp add: builder_new_def)
  have 1: "step p ?b0 ?b1 (\<lambda>_. True) (\<lambda>_. True) (\<lambda>_. True)" by (rule step_alloc_input [OF binv_new]) (simp add: n)
  have 2: "step p ?b0 ?b2 (\<lambda>_. True) (\<lambda>_. True) (\<lambda>_. True)"
    by (rule step_then [OF 1 step_alloc_input [OF stepD(1) [OF 1]]]) (simp_all add: n)
  have 3: "step p ?b0 ?b3 (\<lambda>_. True) (\<lambda>_. True) (\<lambda>_. True)"
    by (rule step_then [OF 2 step_alloc_input [OF stepD(1) [OF 2]]]) (simp_all add: n)
  have "step p ?b3 (sample_inputs cse) (\<lambda>_. True) (\<lambda>_. True) (\<lambda>_. True)"
    by (rule step_same [OF stepD(1) [OF 3]]) (simp_all add: sample_inputs_def binvD(4) [OF stepD(1) [OF 3]])
  then show ?thesis by (rule step_then [OF 3]) simp
qed

lemma sample_inputs_ok: "binv p (sample_inputs cse)" "nv (sample_inputs cse) = 3" "\<not> b_witness_only (sample_inputs cse)"
  using stepD(1,3) [OF sample_inputs_step [of p cse]] by (simp_all add: sample_inputs_def builder_new_def)

section \<open>Multiplication and equality\<close>

text \<open>C13: Multiplying two combinations, whether it names a long operand, reuses an earlier row or
  pushes a new one, gives a combination whose value is the product modulo the prime.\<close>

theorem emit_mul_correct:
  assumes "binv p b" "\<not> b_witness_only b" "nv b + 3 \<le> 2 ^ 32" "lc_below (nv b) x" "lc_below (nv b) y"
  shows "\<exists>r b'. emit_mul x y b = Some (r, b') \<and>
    emits p 3 b r b' (\<lambda>_. True) (\<lambda>\<sigma> z. int p dvd z - lc_val \<sigma> x * lc_val \<sigma> y)"
  by (rule emit_mul_emits [OF assms])

theorem emit_mul_correct_witness:
  "\<exists>r b'. emit_mul (lc_var 0) (lc_var 1) (sample_inputs True) = Some (r, b') \<and>
    emits 97 3 (sample_inputs True) r b' (\<lambda>_. True) (\<lambda>\<sigma> z. 97 dvd z - \<sigma> 0 * \<sigma> 1)"
  using emit_mul_correct [of 97 "sample_inputs True" "lc_var 0" "lc_var 1"] by (simp add: sample_inputs_ok)

text \<open>C14: Raising to a constant power by squaring and multiplying, folding on the way the products
  it consumes, gives the power modulo the prime, with at most 384 new variables.\<close>

theorem emit_pow_correct:
  assumes "binv p b" "\<not> b_witness_only b" "nv b + 384 \<le> 2 ^ 32" "lc_below (nv b) x"
  shows "\<exists>r b'. emit_pow x n b = Some (r, b') \<and>
    emits p 384 b r b' (\<lambda>_. True) (\<lambda>\<sigma> z. int p dvd z - lc_val \<sigma> x ^ unat n)"
  by (rule emit_pow_emits [OF assms])

theorem emit_pow_correct_witness:
  "\<exists>r b'. emit_pow (lc_var 0) 5 (sample_inputs True) = Some (r, b') \<and>
    emits 97 384 (sample_inputs True) r b' (\<lambda>_. True) (\<lambda>\<sigma> z. 97 dvd z - \<sigma> 0 ^ 5)"
  using emit_pow_correct [of 97 "sample_inputs True" "lc_var 0" 5] by (simp add: sample_inputs_ok)

text \<open>C4: Requiring two combinations equal narrows the satisfying assignments by exactly that
  equality modulo the prime, adds no variable, and never panics, also where it rewrites the row of
  a pending product instead of pushing one.\<close>

theorem emit_require_eq_exact:
  assumes "binv p b" "\<not> b_witness_only b" "lc_below (nv b) x" "lc_below (nv b) y"
  shows "\<exists>b'. emit_require_eq x y b = Some b' \<and> step p b b' (\<lambda>\<sigma>. int p dvd lc_val \<sigma> x - lc_val \<sigma> y) (\<lambda>_. True)
    (\<lambda>\<sigma>. int p dvd lc_val \<sigma> x - lc_val \<sigma> y) \<and> nv b' = nv b"
  by (rule emit_require_eq_step [OF assms])

theorem emit_require_eq_exact_witness:
  "\<exists>b'. emit_require_eq (lc_var 0) (lc_var 1) (sample_inputs True) = Some b' \<and>
    step 97 (sample_inputs True) b' (\<lambda>\<sigma>. 97 dvd \<sigma> 0 - \<sigma> 1) (\<lambda>_. True) (\<lambda>\<sigma>. 97 dvd \<sigma> 0 - \<sigma> 1) \<and> nv b' = 3"
  using emit_require_eq_exact [of 97 "sample_inputs True" "lc_var 0" "lc_var 1"] by (simp add: sample_inputs_ok)

section \<open>Tests and bits\<close>

text \<open>C6: The zero test gives 1 for a value that is zero modulo the prime and 0 for every other: no
  assignment of the hinted inverse makes it say anything else, and one always exists.\<close>

theorem emit_is_zero_correct:
  assumes "binv p b" "\<not> b_witness_only b" "nat_prime p" "nv b + 10 \<le> 2 ^ 32" "lc_below (nv b) x"
  shows "\<exists>r b'. emit_is_zero x b = Some (r, b') \<and>
    emits p 10 b r b' (\<lambda>_. True) (\<lambda>\<sigma> z. int p dvd z - of_bool (int p dvd lc_val \<sigma> x))"
  by (rule emit_is_zero_emits [OF assms])

theorem emit_is_zero_correct_witness:
  "\<exists>r b'. emit_is_zero (lc_var 0) (sample_inputs True) = Some (r, b') \<and>
    emits 97 10 (sample_inputs True) r b' (\<lambda>_. True) (\<lambda>\<sigma> z. 97 dvd z - of_bool (97 dvd \<sigma> 0))"
  using emit_is_zero_correct [of 97 "sample_inputs True" "lc_var 0"] by (simp add: sample_inputs_ok nat_prime_97)

text \<open>C5: Decomposing into \<open>n\<close> bits accepts exactly the values whose canonical residue is below
  \<open>2 ^ n\<close>, and its bits are the binary digits of that residue, the only choice there is.\<close>

theorem decompose_bits_exact:
  assumes "binv p b" "\<not> b_witness_only b" "nat_prime p" "n \<le> 253" "2 ^ n \<le> int p" "nv b + n \<le> 2 ^ 32" "lc_below (nv b) x"
  shows "\<exists>bits b'. decompose_bits x n b = Some (bits, b') \<and>
    step p b b' (\<lambda>\<sigma>. lc_val \<sigma> x mod int p < 2 ^ n) (\<lambda>_. True) (\<lambda>\<sigma>. digits_of p n (lc_val \<sigma> x) bits \<sigma>) \<and>
    length bits = n \<and> (\<forall>y \<in> set bits. lc_below (nv b') y) \<and> nv b' \<le> nv b + n"
  by (rule decompose_bits_step [OF assms])

theorem decompose_bits_exact_witness:
  "\<exists>bits b'. decompose_bits (lc_var 0) 6 (sample_inputs True) = Some (bits, b') \<and>
    step 97 (sample_inputs True) b' (\<lambda>\<sigma>. \<sigma> 0 mod 97 < 64) (\<lambda>_. True) (\<lambda>\<sigma>. digits_of 97 6 (\<sigma> 0) bits \<sigma>) \<and>
    length bits = 6 \<and> (\<forall>y \<in> set bits. lc_below (nv b') y) \<and> nv b' \<le> 9"
  using decompose_bits_exact [of 97 "sample_inputs True" 6 "lc_var 0"] by (simp add: sample_inputs_ok nat_prime_97)

text \<open>C15: When the shortcut recognizes a value as a sum of bits proven before, the bits it returns
  are those a decomposition would give, with no row added.\<close>

theorem bit_sum_shortcut_exact:
  assumes "binv p b" "nat_prime p" "2 ^ n \<le> int p" "bsem p b \<sigma>" "bit_sum_shortcut x n b = Some bits"
  shows "digits_of p n (lc_val \<sigma> x) bits \<sigma> \<and> length bits = n"
  using bit_sum_shortcut_digits [OF assms] by blast

definition sample_bit :: builder where
  "sample_bit = emit_booleanity 0 [] (sample_inputs True)"

lemma sample_bit_ok: "binv p sample_bit" "bsem p sample_bit (\<lambda>_. 0)"
proof -
  let ?b = "snd (fresh_constraint_id (sample_inputs True))" and ?c = "rc_general (fst (fresh_constraint_id (sample_inputs True))) (lc_var 0) (lc_var 0) (lc_var 0) []"
  have s: "step p (sample_inputs True) (push_constraint ?c ?b) (\<lambda>\<sigma>. row_holds p \<sigma> ?c) (\<lambda>_. True) (\<lambda>\<sigma>. row_holds p \<sigma> ?c)"
    by (rule step_fresh_push [OF sample_inputs_ok(1,3)]) (simp add: sample_inputs_ok)
  have eq: "sample_bit = (push_constraint ?c ?b)\<lparr>b_boolean := insert 0 (b_boolean (push_constraint ?c ?b))\<rparr>"
    using stepD(3) [OF s] sample_inputs_ok(3) by (simp add: sample_bit_def emit_booleanity_def split_beta Let_def)
  have "step p (push_constraint ?c ?b) sample_bit (\<lambda>_. True) (\<lambda>_. True) (\<lambda>_. True)"
    unfolding eq by (rule step_mark [OF stepD(1) [OF s]])
      (use stepD(5) [OF s] in \<open>auto simp: is_bit_def algebra_simps sample_inputs_ok fresh_constraint_id_def\<close>)
  then show "binv p sample_bit" by (rule stepD(1))
  show "bsem p sample_bit (\<lambda>_. 0)"
    by (simp add: bsem_def eq push_constraint_def fresh_constraint_id_def sample_inputs_def builder_new_def alloc_var_def Let_def)
qed

theorem bit_sum_shortcut_exact_witness:
  "bit_sum_shortcut (lc_var 0) 1 sample_bit = Some [lc_var 0] \<and>
    digits_of 97 1 0 [lc_var 0] (\<lambda>_. 0) \<and> length [lc_var 0] = 1"
proof -
  have "bit_sum_shortcut (lc_var 0) 1 sample_bit = Some [lc_var 0]"
    by code_simp
  then show ?thesis
    using bit_sum_shortcut_exact [OF sample_bit_ok(1) nat_prime_97 _ sample_bit_ok(2), of 1 "lc_var 0" "[lc_var 0]"] by simp
qed

text \<open>C11: A comparison of two values that fit \<open>n\<close> bits gives 1 when the first is the smaller and 0
  otherwise, for every choice of its hints; widths above 252 are refused.\<close>

theorem emit_less_than_correct:
  assumes "decimal_laws L" "binv p b" "\<not> b_witness_only b" "nat_prime p"
    "n \<le> 252 \<Longrightarrow> 2 ^ (n + 1) \<le> int p \<and> nv b + n + 4 \<le> 2 ^ 32" "lc_below (nv b) x" "lc_below (nv b) y"
  shows "if n \<le> 252 then
      \<exists>lt b'. emit_less_than L n x y b = Some (Inr (lt, b')) \<and>
        emits p (n + 4) b lt b' (\<lambda>\<sigma>. lc_val \<sigma> x mod int p < 2 ^ n \<and> lc_val \<sigma> y mod int p < 2 ^ n)
          (\<lambda>\<sigma> z. lc_val \<sigma> x mod int p < 2 ^ n \<and> lc_val \<sigma> y mod int p < 2 ^ n \<longrightarrow>
            int p dvd z - of_bool (lc_val \<sigma> x mod int p < lc_val \<sigma> y mod int p))
    else emit_less_than L n x y b = Some (Inl Comparison_too_wide)"
proof (cases "n \<le> 252")
  case True
  then have "2 ^ (n + 1) \<le> int p" "nv b + n + 4 \<le> 2 ^ 32" using assms(5) by blast+
  then show ?thesis using decimal_laws.emit_less_than_step [OF assms(1-4) True _ _ assms(6,7)] True by simp
next
  case False
  then show ?thesis using decimal_laws.emit_less_than_too_wide [OF assms(1), of n x y b] by simp
qed

text \<open>C12: The wrapping subtraction of two values that fit \<open>n\<close> bits is their difference modulo
  \<open>2 ^ n\<close>, with its borrow bit pinned by the range of the result.\<close>

theorem emit_wrapping_sub_correct:
  assumes "decimal_laws L" "binv p b" "\<not> b_witness_only b" "nat_prime p" "n \<le> 253" "2 ^ (n + 1) \<le> int p"
    "nv b + n + 1 \<le> 2 ^ 32" "lc_below (nv b) x" "lc_below (nv b) y"
  shows "\<exists>r b'. emit_wrapping_sub L n x y b = Some (r, b') \<and>
    emits p (n + 1) b r b' (\<lambda>\<sigma>. lc_val \<sigma> x mod int p < 2 ^ n \<and> lc_val \<sigma> y mod int p < 2 ^ n)
      (\<lambda>\<sigma> z. lc_val \<sigma> x mod int p < 2 ^ n \<and> lc_val \<sigma> y mod int p < 2 ^ n \<longrightarrow>
        z mod int p = (lc_val \<sigma> x mod int p - lc_val \<sigma> y mod int p) mod 2 ^ n)"
  by (rule decimal_laws.emit_wrapping_sub_step [OF assms])

theorem emit_wrapping_sub_correct_witness:
  "\<exists>r b'. emit_wrapping_sub ref_libs 5 (lc_var 0) (lc_var 1) (sample_inputs True) = Some (r, b') \<and>
    emits 97 6 (sample_inputs True) r b' (\<lambda>\<sigma>. \<sigma> 0 mod 97 < 32 \<and> \<sigma> 1 mod 97 < 32)
      (\<lambda>\<sigma> z. \<sigma> 0 mod 97 < 32 \<and> \<sigma> 1 mod 97 < 32 \<longrightarrow> z mod 97 = (\<sigma> 0 mod 97 - \<sigma> 1 mod 97) mod 32)"
  using emit_wrapping_sub_correct [OF ref.decimal_laws_axioms, of 97 "sample_inputs True" 5 "lc_var 0" "lc_var 1"]
  by (simp add: sample_inputs_ok nat_prime_97)

theorem emit_less_than_correct_witness:
  "\<exists>lt b'. emit_less_than ref_libs 5 (lc_var 0) (lc_var 1) (sample_inputs True) = Some (Inr (lt, b')) \<and>
    emits 97 9 (sample_inputs True) lt b' (\<lambda>\<sigma>. \<sigma> 0 mod 97 < 32 \<and> \<sigma> 1 mod 97 < 32)
      (\<lambda>\<sigma> z. \<sigma> 0 mod 97 < 32 \<and> \<sigma> 1 mod 97 < 32 \<longrightarrow> 97 dvd z - of_bool (\<sigma> 0 mod 97 < \<sigma> 1 mod 97))"
  using emit_less_than_correct [OF ref.decimal_laws_axioms, of 97 "sample_inputs True" 5 "lc_var 0" "lc_var 1"]
  by (simp add: sample_inputs_ok nat_prime_97)

section \<open>The finished circuit\<close>

text \<open>C10: Finishing a circuit returns, and its rows say what the builder's rows and folded products
  say: read through the renumbering, an assignment of the builder's state satisfies them, and one
  that satisfies them is, on every variable they read, such an assignment.\<close>

theorem finish_rows_exact:
  assumes "binv p b" "finishable b"
  shows "\<exists>out. finish b field n = Some out \<and>
    (\<forall>\<sigma>. bsem p b (\<sigma> \<circ> (\<lambda>v. lo_var_map out ! unat v)) \<longrightarrow> (\<forall>c \<in> set (rp_constraints (lo_r1cs out)). row_holds p \<sigma> c)) \<and>
    (\<forall>\<tau>. (\<forall>c \<in> set (rp_constraints (lo_r1cs out)). row_holds p \<tau> c) \<longrightarrow>
      (\<exists>\<sigma>. bsem p b (\<sigma> \<circ> (\<lambda>v. lo_var_map out ! unat v)) \<and> (\<forall>v \<in> referenced_by (rp_constraints (lo_r1cs out)). \<sigma> v = \<tau> v)))"
  by (rule finish_exact [OF assms, of field n]) blast

text \<open>C16: The renumbering of a finished circuit is a bijection of its variables that puts the inputs
  first, in binding order, and keeps the order of the rest; afterwards ids are distinct and every
  variable that a row reads is declared.\<close>

theorem finish_well_formed:
  assumes "binv p b" "finishable b" "finish b field n = Some out"
  shows "renames (nv b) (b_input_ids b) (lo_var_map out) \<and> distinct (map rv_id (rp_variables (lo_r1cs out))) \<and>
    referenced_by (rp_constraints (lo_r1cs out)) \<subseteq> rv_id ` set (rp_variables (lo_r1cs out))"
proof -
  obtain out' where "finish b field n = Some out'" "renames (nv b) (b_input_ids b) (lo_var_map out')"
    "distinct (map rv_id (rp_variables (lo_r1cs out')))"
    "referenced_by (rp_constraints (lo_r1cs out')) \<subseteq> rv_id ` set (rp_variables (lo_r1cs out'))"
    by (rule finish_exact [OF assms(1,2), of field n])
  then show ?thesis using assms(3) by simp
qed

text \<open>C3: From a builder that has only inputs to the finished rows: if the operations that built the
  state are a step with condition \<open>Q\<close> and consequence \<open>S\<close>, every solution of the finished rows is,
  on the variables they read, an assignment with \<open>S\<close>, and all input values with \<open>Q\<close> extend to a
  solution of the finished rows.\<close>

theorem finished_circuit:
  assumes "b_constraints b0 = []" "b_merged b0 = []" "step p b0 b Q R S" "finishable b"
  shows "\<exists>out. finish b field n = Some out \<and>
    (\<forall>\<tau>. (\<forall>c \<in> set (rp_constraints (lo_r1cs out)). row_holds p \<tau> c) \<longrightarrow>
      (\<exists>\<sigma>. S (\<sigma> \<circ> (\<lambda>v. lo_var_map out ! unat v)) \<and> (\<forall>v \<in> referenced_by (rp_constraints (lo_r1cs out)). \<sigma> v = \<tau> v))) \<and>
    (\<forall>\<sigma>. Q \<sigma> \<longrightarrow> (\<exists>\<tau>. (\<forall>c \<in> set (rp_constraints (lo_r1cs out)). row_holds p \<tau> c) \<and>
      eq_below (nv b0) \<sigma> (\<tau> \<circ> (\<lambda>v. lo_var_map out ! unat v))))"
proof -
  have inv: "binv p b" by (rule stepD(1) [OF assms(3)])
  obtain out where out: "finish b field n = Some out" "renames (nv b) (b_input_ids b) (lo_var_map out)"
    "\<And>\<sigma>. bsem p b (\<sigma> \<circ> (\<lambda>v. lo_var_map out ! unat v)) \<Longrightarrow> \<forall>c \<in> set (rp_constraints (lo_r1cs out)). row_holds p \<sigma> c"
    "\<And>\<tau>. \<forall>c \<in> set (rp_constraints (lo_r1cs out)). row_holds p \<tau> c \<Longrightarrow>
      \<exists>\<sigma>. bsem p b (\<sigma> \<circ> (\<lambda>v. lo_var_map out ! unat v)) \<and> (\<forall>v \<in> referenced_by (rp_constraints (lo_r1cs out)). \<sigma> v = \<tau> v)"
    by (rule finish_exact [OF inv assms(4), of field n]) (rule that)
  have "\<exists>\<tau>. (\<forall>c \<in> set (rp_constraints (lo_r1cs out)). row_holds p \<tau> c) \<and>
      eq_below (nv b0) \<sigma> (\<tau> \<circ> (\<lambda>v. lo_var_map out ! unat v))" if Q: "Q \<sigma>" for \<sigma>
  proof -
    have "bsem p b0 \<sigma>" by (simp add: bsem_def assms(1,2))
    then obtain \<sigma>' where s: "bsem p b \<sigma>'" "eq_below (nv b0) \<sigma> \<sigma>'" using stepD(6) [OF assms(3) _ Q] by blast
    obtain \<tau> where e: "eq_below (nv b) \<sigma>' (\<tau> \<circ> (\<lambda>v. lo_var_map out ! unat v))"
      using renames_surj [OF out(2)] by blast
    then have "bsem p b (\<tau> \<circ> (\<lambda>v. lo_var_map out ! unat v))" using bsem_eq_below [OF inv] s(1) by blast
    then show ?thesis using out(3) eq_below_trans [OF s(2) e stepD(2) [OF assms(3)]] by blast
  qed
  moreover have "\<exists>\<sigma>. S (\<sigma> \<circ> (\<lambda>v. lo_var_map out ! unat v)) \<and> (\<forall>v \<in> referenced_by (rp_constraints (lo_r1cs out)). \<sigma> v = \<tau> v)"
    if "\<forall>c \<in> set (rp_constraints (lo_r1cs out)). row_holds p \<tau> c" for \<tau>
    using out(4) [OF that] stepD(5) [OF assms(3)] by blast
  ultimately show ?thesis using out(1) by blast
qed

text \<open>The sample circuit: \<open>z = x * y\<close> folds the product away; \<open>y = x * y\<close> then reads the folded
  product, so its row comes back. \<open>z\<close> is the first input.\<close>

definition sample_circuit :: "builder option" where
  "sample_circuit = do {
     (xy, b) \<leftarrow> emit_mul (lc_var 0) (lc_var 1) (sample_inputs False);
     b \<leftarrow> emit_require_eq xy (lc_var 2) b;
     emit_require_eq xy (lc_var 1) b
   }"

lemma sample_circuit_finishable: "map_option finishable sample_circuit = Some True"
  by code_simp

lemma sample_circuit_rows:
  "Option.bind sample_circuit (\<lambda>b. map_option (\<lambda>out. map row_ids (rp_constraints (lo_r1cs out))) (finish b fs_bn254 3)) =
    Some [[1, 2, 0], [2, 3], [1, 2, 3]]"
  by code_simp

definition sample_holds :: "nat \<Rightarrow> assignment \<Rightarrow> bool" where
  "sample_holds p \<sigma> \<longleftrightarrow> int p dvd \<sigma> 0 * \<sigma> 1 - \<sigma> 2 \<and> int p dvd \<sigma> 0 * \<sigma> 1 - \<sigma> 1"

lemma sample_holds_eq_below: "3 \<le> k \<Longrightarrow> eq_below k \<sigma> \<sigma>' \<Longrightarrow> sample_holds p \<sigma> \<Longrightarrow> sample_holds p \<sigma>'"
proof -
  assume h: "3 \<le> k" "eq_below k \<sigma> \<sigma>'" "sample_holds p \<sigma>"
  have "\<sigma> v = \<sigma>' v" if "unat v < 3" for v using h(1,2) that by (auto simp: eq_below_def)
  from this [of 0] this [of 1] this [of 2] show ?thesis using h(3) by (simp add: sample_holds_def)
qed

lemma sample_circuit_step:
  obtains b where "sample_circuit = Some b" "finishable b"
    "step p (sample_inputs False) b (sample_holds p) (\<lambda>_. True) (sample_holds p)"
proof -
  let ?b0 = "sample_inputs False"
  obtain r b1 where 1: "emit_mul (lc_var 0) (lc_var 1) ?b0 = Some (r, b1)"
    "emits p 3 ?b0 r b1 (\<lambda>_. True) (\<lambda>\<sigma> z. int p dvd z - \<sigma> 0 * \<sigma> 1)"
    using emit_mul_emits [of p ?b0 "lc_var 0" "lc_var 1"] by (auto simp: sample_inputs_ok)
  note s1 = emitsD [OF 1(2)]
  have inv1: "binv p b1" "\<not> b_witness_only b1" "3 \<le> nv b1"
    using stepD(1-3) [OF s1(1)] sample_inputs_ok by simp_all
  obtain b2 where 2: "emit_require_eq r (lc_var 2) b1 = Some b2"
    "step p b1 b2 (\<lambda>\<sigma>. int p dvd lc_val \<sigma> r - \<sigma> 2) (\<lambda>_. True) (\<lambda>\<sigma>. int p dvd lc_val \<sigma> r - \<sigma> 2)" "nv b2 = nv b1"
    using emit_require_eq_step [OF inv1(1,2) s1(2), of "lc_var 2"] inv1(3) by auto
  have inv2: "binv p b2" "\<not> b_witness_only b2" using stepD(1,3) [OF 2(2)] inv1 by simp_all
  obtain b3 where 3: "emit_require_eq r (lc_var 1) b2 = Some b3"
    "step p b2 b3 (\<lambda>\<sigma>. int p dvd lc_val \<sigma> r - \<sigma> 1) (\<lambda>_. True) (\<lambda>\<sigma>. int p dvd lc_val \<sigma> r - \<sigma> 1)" "nv b3 = nv b2"
    using emit_require_eq_step [OF inv2, of r "lc_var 1"] s1(2) inv1(3) 2(3) by auto
  let ?S1 = "\<lambda>\<sigma>. int p dvd lc_val \<sigma> r - \<sigma> 0 * \<sigma> 1"
  have eqs: "int p dvd \<sigma> 0 * \<sigma> 1 - \<sigma> i \<longleftrightarrow> int p dvd lc_val \<sigma> r - \<sigma> i" if "?S1 \<sigma>" for \<sigma> i
    using dvd_diff_trans [OF that, of "\<sigma> i"] dvd_diff_trans [OF dvd_diff_sym [OF that], of "\<sigma> i"] by blast
  have H: "sample_holds p \<sigma>'" if "eq_below (nv ?b0) \<sigma> \<sigma>'" "sample_holds p \<sigma>" for \<sigma> \<sigma>'
    using that sample_holds_eq_below [of 3] by (simp add: sample_inputs_ok)
  have "step p ?b0 b1 (sample_holds p) (sample_holds p) ?S1"
    by (rule step_weaken [OF step_keep [OF step_weaken [OF s1(1)], of "sample_holds p"]]) (use H in auto)
  moreover have keep: "sample_holds p \<sigma>'" if "eq_below (nv b1) \<sigma> \<sigma>'" "sample_holds p \<sigma>" for \<sigma> \<sigma>'
    using that inv1(3) sample_holds_eq_below by blast
  ultimately have "step p ?b0 b2 (sample_holds p) (sample_holds p) (\<lambda>\<sigma>. ?S1 \<sigma> \<and> int p dvd lc_val \<sigma> r - \<sigma> 2)"
    by (rule step_snoc [OF _ 2(2)]) (use keep eqs in \<open>auto simp: sample_holds_def\<close>)
  then have "step p ?b0 b3 (sample_holds p) (sample_holds p)
      (\<lambda>\<sigma>. (?S1 \<sigma> \<and> int p dvd lc_val \<sigma> r - \<sigma> 2) \<and> int p dvd lc_val \<sigma> r - \<sigma> 1)"
    by (rule step_snoc [OF _ 3(2)]) (use keep eqs 2(3) in \<open>auto simp: sample_holds_def\<close>)
  then have "step p ?b0 b3 (sample_holds p) (\<lambda>_. True) (sample_holds p)"
    by (rule step_weaken) (use eqs in \<open>auto simp: sample_holds_def\<close>)
  moreover have eq: "sample_circuit = Some b3" by (simp add: sample_circuit_def 1(1) 2(1) 3(1))
  moreover have "finishable b3" using sample_circuit_finishable unfolding eq by simp
  ultimately show thesis by (intro that)
qed

theorem finished_circuit_witness:
  "\<exists>b out. sample_circuit = Some b \<and> finish b fs_bn254 3 = Some out \<and>
    (\<forall>\<tau>. (\<forall>c \<in> set (rp_constraints (lo_r1cs out)). row_holds 97 \<tau> c) \<longrightarrow>
      (\<exists>\<sigma>. sample_holds 97 (\<sigma> \<circ> (\<lambda>v. lo_var_map out ! unat v)) \<and>
        (\<forall>v \<in> referenced_by (rp_constraints (lo_r1cs out)). \<sigma> v = \<tau> v))) \<and>
    (\<forall>\<sigma>. sample_holds 97 \<sigma> \<longrightarrow> (\<exists>\<tau>. (\<forall>c \<in> set (rp_constraints (lo_r1cs out)). row_holds 97 \<tau> c) \<and>
      eq_below 3 \<sigma> (\<tau> \<circ> (\<lambda>v. lo_var_map out ! unat v))))"
proof -
  obtain b where b: "sample_circuit = Some b" "finishable b"
    "step 97 (sample_inputs False) b (sample_holds 97) (\<lambda>_. True) (sample_holds 97)" by (rule sample_circuit_step)
  have e: "b_constraints (sample_inputs False) = []" "b_merged (sample_inputs False) = []"
    by (simp_all add: sample_inputs_def builder_new_def alloc_var_def Let_def)
  show ?thesis using finished_circuit [OF e b(3,2), of fs_bn254 3] b(1) unfolding sample_inputs_ok(2) by blast
qed

theorem finish_rows_exact_witness:
  "\<exists>b out. sample_circuit = Some b \<and> finish b fs_bn254 3 = Some out \<and>
    (\<forall>\<sigma>. bsem 97 b (\<sigma> \<circ> (\<lambda>v. lo_var_map out ! unat v)) \<longrightarrow> (\<forall>c \<in> set (rp_constraints (lo_r1cs out)). row_holds 97 \<sigma> c)) \<and>
    (\<forall>\<tau>. (\<forall>c \<in> set (rp_constraints (lo_r1cs out)). row_holds 97 \<tau> c) \<longrightarrow>
      (\<exists>\<sigma>. bsem 97 b (\<sigma> \<circ> (\<lambda>v. lo_var_map out ! unat v)) \<and>
        (\<forall>v \<in> referenced_by (rp_constraints (lo_r1cs out)). \<sigma> v = \<tau> v)))"
proof -
  obtain b where b: "sample_circuit = Some b" "finishable b"
    "step 97 (sample_inputs False) b (sample_holds 97) (\<lambda>_. True) (sample_holds 97)" by (rule sample_circuit_step)
  show ?thesis using finish_rows_exact [OF stepD(1) [OF b(3)] b(2), of fs_bn254 3] b(1) by blast
qed

theorem finish_well_formed_witness:
  "\<exists>b out. sample_circuit = Some b \<and> finish b fs_bn254 3 = Some out \<and>
    renames (nv b) (b_input_ids b) (lo_var_map out) \<and> distinct (map rv_id (rp_variables (lo_r1cs out))) \<and>
    referenced_by (rp_constraints (lo_r1cs out)) \<subseteq> rv_id ` set (rp_variables (lo_r1cs out))"
proof -
  obtain b where b: "sample_circuit = Some b" "finishable b"
    "step 97 (sample_inputs False) b (sample_holds 97) (\<lambda>_. True) (sample_holds 97)" by (rule sample_circuit_step)
  obtain out where out: "finish b fs_bn254 3 = Some out"
    by (rule finish_exact [OF stepD(1) [OF b(3)] b(2), of fs_bn254 3])
  show ?thesis using finish_well_formed [OF stepD(1) [OF b(3)] b(2) out] out b(1) by blast
qed

section \<open>Hints and the pinning gate\<close>

text \<open>C17: Dropping dead hint operations, slot by slot. When no operation writes what an earlier one
  reads or writes, one backward pass finds what is needed: the variables the rows read, closed under passing
  from an output of an operation to all its outputs and inputs. An operation is dropped exactly when
  it has a scratch output and no needed output; nothing else of the builder changes. So an operation
  with a needed output stays, with every operation whose outputs it reads. (An operation without scratch
  outputs stays also when nothing needs it, and its sources may go.)\<close>

theorem drop_dead_exact:
  assumes "hints_ordered (hint_ops b)"
  shows "drop_dead b = b\<lparr>b_witness := map (\<lambda>w. case w of
        Some op \<Rightarrow> if (\<exists>out \<in> set (witness_gen_outs op). out \<in> b_witness_only_vars b) \<and>
            (\<forall>out \<in> set (witness_gen_outs op). \<not> needed b out) then None else Some op
      | None \<Rightarrow> None) (b_witness b)\<rparr> \<and>
    (\<forall>op src out v. Some op \<in> set (b_witness b) \<and> out \<in> set (witness_gen_outs op) \<and> needed b out \<longrightarrow>
      Some op \<in> set (b_witness (drop_dead b)) \<and>
      (Some src \<in> set (b_witness b) \<and> v \<in> set (witness_gen_outs src) \<and> v \<in> set (witness_gen_input_vars op) \<longrightarrow>
        needed b v \<and> Some src \<in> set (b_witness (drop_dead b))))"
proof (intro conjI allI impI)
  show "drop_dead b = b\<lparr>b_witness := map (\<lambda>w. case w of
        Some op \<Rightarrow> if (\<exists>out \<in> set (witness_gen_outs op). out \<in> b_witness_only_vars b) \<and>
            (\<forall>out \<in> set (witness_gen_outs op). \<not> needed b out) then None else Some op
      | None \<Rightarrow> None) (b_witness b)\<rparr>"
    unfolding drop_dead_slots [OF assms, symmetric] by (simp add: drop_dead_def Let_def)
  have stays: "Some op \<in> set (b_witness (drop_dead b))"
    if "Some op \<in> set (b_witness b)" "out \<in> set (witness_gen_outs op)" "needed b out" for op out
    unfolding drop_dead_slots [OF assms] set_map by (rule image_eqI [OF _ that(1)]) (use that in auto)
  fix op src out v
  assume op: "Some op \<in> set (b_witness b) \<and> out \<in> set (witness_gen_outs op) \<and> needed b out"
  then show "Some op \<in> set (b_witness (drop_dead b))" using stays by blast
  assume src: "Some src \<in> set (b_witness b) \<and> v \<in> set (witness_gen_outs src) \<and> v \<in> set (witness_gen_input_vars op)"
  show v: "needed b v" using op src needed.hint [of op b out v] by (simp add: hint_ops_iff)
  show "Some src \<in> set (b_witness (drop_dead b))" using src v stays by blast
qed

definition sample_hints :: builder where
  "sample_hints = (sample_inputs False)\<lparr>b_witness_only_vars := {3, 5},
     b_constraints := [rc_mul 0 (lc_var 0) (lc_var 1) 4 []],
     b_witness := [Some (Linear 3 (lc_var 0)), Some (Product 4 (lc_var 3) (lc_var 1)), Some (Bit 5 (lc_var 0) 0)]\<rparr>"

lemma sample_hints_dropped:
  "b_witness (drop_dead sample_hints) = [Some (Linear 3 (lc_var 0)), Some (Product 4 (lc_var 3) (lc_var 1)), None]"
  by (simp add: sample_hints_def drop_dead_def Let_def List.map_filter_def referenced_by_def row_ids_def lc_ids_def
      rc_mul_def lc_var_def dead_op_def)

theorem drop_dead_exact_witness:
  "needed sample_hints 4 \<and> Some (Product 4 (lc_var 3) (lc_var 1)) \<in> set (b_witness (drop_dead sample_hints)) \<and>
   Some (Linear 3 (lc_var 0)) \<in> set (b_witness (drop_dead sample_hints)) \<and>
   Some (Bit 5 (lc_var 0) 0) \<notin> set (b_witness (drop_dead sample_hints))"
proof -
  let ?op = "Product 4 (lc_var 3) (lc_var 1)" and ?src = "Linear 3 (lc_var 0)"
  have ord: "hints_ordered (hint_ops sample_hints)"
    by (simp add: sample_hints_def hint_ops_def List.map_filter_def lc_ids_def lc_var_def)
  have four: "needed sample_hints 4"
    by (rule needed.read) (simp add: sample_hints_def referenced_by_def row_ids_def lc_ids_def rc_mul_def lc_var_def)
  have ops: "Some ?op \<in> set (b_witness sample_hints)" "Some ?src \<in> set (b_witness sample_hints)"
    by (simp_all add: sample_hints_def)
  have io: "4 \<in> set (witness_gen_outs ?op)" "3 \<in> set (witness_gen_outs ?src)" "3 \<in> set (witness_gen_input_vars ?op)"
    by (simp_all add: lc_ids_def lc_var_def)
  have "Some ?op \<in> set (b_witness (drop_dead sample_hints)) \<and> Some ?src \<in> set (b_witness (drop_dead sample_hints))"
    using drop_dead_exact [OF ord] ops io four by blast
  then show ?thesis using four by (simp add: sample_hints_dropped)
qed

text \<open>C18: The pinning gate refuses a circuit exactly when a public input, or a private variable that
  is not an input, is read by no row and is not marked as scratch.\<close>

theorem check_pinning_exact:
  "check_pinning out n = Inr () \<longleftrightarrow> \<not> (\<exists>v \<in> set (rp_variables (lo_r1cs out)). \<not> pinned out (rv_id v) \<and>
    (rv_visibility v = Public \<or> rv_visibility v = Private \<and> n \<le> unat (rv_id v)))"
proof -
  have "rv_visibility v = Internal \<or> rv_visibility v = Private \<or> rv_visibility v = Public" for v :: variable
    by (cases "rv_visibility v") simp_all
  then show ?thesis unfolding check_pinning_iff by (metis linorder_not_less visibility.distinct(1,3,5))
qed

end
