(* ===== verification/Spec2Isabelle.thy ===== *)
theory Spec2Isabelle
  imports Lattice_Reduction Hint_Props Solve_Props Analyzer Minimize_Props Roll_Limits Range_Min Qap_Props Circuit_Props
begin

text \<open>
  xark compiles circuits to rank-1 constraint systems (rows \<open>a * b = c\<close> of linear combinations over
  a prime field) together with a hint program that computes the assignment, stores both in a rolled
  bytecode, solves and checks witnesses, looks for under-constrained variables, minimizes the rows
  and proves them with Groth16. This development models the data model and the algorithms of
  \<^verbatim>\<open>crates/ir/src\<close>, the circuit builder of \<^verbatim>\<open>crates/frontend/src\<close> and the field-generic part of
  the prover, \<^verbatim>\<open>crates/groth16/src\<close>.

  \<^bold>\<open>Conventions.\<close> A struct is a record, an enum a datatype, \<^verbatim>\<open>u8\<close>, \<^verbatim>\<open>u32\<close>, \<^verbatim>\<open>u64\<close> and
  \<^verbatim>\<open>i64\<close> are words of that width; \<^verbatim>\<open>usize\<close> is a natural number, with the 64-bit bound
  written out where the code tests it. A \<^verbatim>\<open>Result\<close> is a sum with the error at the left, a panic
  or a loop that may not end is \<open>None\<close> around it; inside the decoder a panic is the outcome \<open>Panic\<close>
  beside the errors, which its callers turn into \<open>None\<close>. \<^verbatim>\<open>BTreeMap\<close> is an ordered association list
  (\<open>Ordered_Map\<close>, behind a locale of map laws), a hash map a partial function or such a list.
  Big integers, 254-bit field elements and base conversion come from crates outside the
  repository. Big integers are the naturals and integers; field elements and decimal parsing are the
  fields of a record of functions \<open>libs\<close> (theory \<open>Ext_Libs\<close>) whose documented laws are the locale
  \<open>num_libs\<close>, interpreted on a reference instance \<open>ref_libs\<close> that computes.

  \<^bold>\<open>Theories, from the bottom.\<close>
  \<^item> \<open>Prelude\<close>, \<open>Ext_Libs\<close>, \<open>Ordered_Map\<close>: shared lemmas, results, the outside world, maps.
  \<^item> \<open>Field_Const\<close> (\<^verbatim>\<open>field.rs\<close>): exact integer constants with an \<^verbatim>\<open>i64\<close> fast path.
    \<open>Lin_Comb\<close> (\<^verbatim>\<open>linear_combination.rs\<close>): linear combinations and their canonical form.
    \<open>Field_Spec\<close> (\<^verbatim>\<open>r1cs.rs\<close>): rows, programs, the parser of a field's name with its
    Miller-Rabin test.
  \<^item> \<open>Prim_IR\<close> (\<^verbatim>\<open>primitive.rs\<close>, \<^verbatim>\<open>circuit.rs\<close>): quadratic expressions, hint operations,
    flattening of rows into expressions with factored products.
  \<^item> \<open>Fp\<close>, \<open>Lattice_Hint\<close>, \<open>Witness_Exec\<close>, \<open>Witness_Run\<close> (\<^verbatim>\<open>solver.rs\<close>): field elements, the
    LLL lattice hint, one hint operation, and the sequential, streamed and level-parallel runs;
    \<open>Hint_Props\<close> and \<open>Solve_Props\<close> hold their guarantees. \<open>Analyzer\<close> is the under-constraint
    analysis of the same file.
  \<^item> \<open>Lattice_Reduction\<close> gives the reduction its theory: the integral Gram-Schmidt numbers of
    \<open>gram\<close> are determinants of inner products, size reduction and exchange act on them as in the
    textbook, so the loop returns, its result is reduced, and its first vector is short.
  \<^item> \<open>Builder\<close> (\<^verbatim>\<open>builder.rs\<close>): the state a circuit is emitted into (variables, rows, the
    hint program, products whose row may still be rewritten, tables of reused products and known
    booleans) and the operations that emit. \<open>Builder_Sem\<close> gives a state its meaning: the
    assignments (\<open>bsem\<close>) that satisfy its rows and the products folded out of them, and its invariant;
    \<open>Builder_Steps\<close> the shape all contracts have (\<open>step\<close>: what every satisfying assignment of the new
    state has, and how the old ones extend to it; \<open>emits\<close> for the operations that return a value) and their
    composition. \<open>Builder_Gates\<close>, \<open>Builder_Eq\<close>, \<open>Builder_Bits\<close>, \<open>Builder_Cmp\<close> prove the contracts
    of products and powers, of equality, of bits and of comparison and wrapping arithmetic.
  \<^item> \<open>Finish\<close> (\<^verbatim>\<open>output.rs\<close>): filling in products, renumbering, revival of folded products,
    dead-code elimination, pruning, the pinning gate; \<open>Finish_Renumber\<close>, \<open>Finish_Rows\<close> and
    \<open>Circuit_Props\<close> carry the builder's meaning over to the finished rows.
  \<^item> \<open>Minimize\<close> (\<^verbatim>\<open>minimize.rs\<close>) with \<open>Minimize_Forms\<close>, \<open>Minimize_Run\<close>, \<open>Minimize_Inv\<close>,
    \<open>Minimize_Props\<close>: the worklist that eliminates linear rows, as a state machine with an
    invariant, from which termination, equal solutions and idempotence follow.
  \<^item> \<open>Codec\<close>, \<open>Bytecode\<close>, \<open>Rolled\<close>, \<open>Roll\<close> (\<^verbatim>\<open>bytecode.rs\<close>): cursor and varints, opcodes, loops
    of opcodes and their expansion, the search for loops. \<open>Rolled_Codec\<close>, \<open>Roll_Shape\<close>,
    \<open>Roll_Lossless\<close>, \<open>Roll_Pass\<close>, \<open>Roll_Props\<close>, \<open>Decode_Props\<close>, \<open>Range_Min\<close> prove round trips,
    losslessness, termination and error behaviour; \<open>Roll_Limits\<close> evaluates inputs outside their
    hypotheses on which the code does less than its comments say.
  \<^item> \<open>Fft\<close> (\<^verbatim>\<open>fft.rs\<close>) with \<open>Fft_Radix\<close>, \<open>Fft_Passes\<close>, \<open>Fft_Domain\<close>: the blocked transform.
    \<open>Groth_Rows\<close> (\<^verbatim>\<open>r1cs.rs\<close> of the prover): the streamed rows, \<open>Groth_Source\<close> the contract of a
    source of rows as a locale, \<open>Groth_Program\<close> its interpretation on an in-memory program.
    \<open>Qap\<close> (\<^verbatim>\<open>qap.rs\<close>) the quotient; \<open>Qap_Props\<close> the properties of this part.

  \<^bold>\<open>How the parts meet.\<close> The rows of a circuit are seen three times: as expressions by the solver
  (\<open>to_primitive\<close>), as rows by the R1CS checker and the minimizer, as sparse vectors by the prover.
  The builder emits these rows; \<open>finished_circuit\<close> says that what its operations promise holds of
  every solution of the finished rows. \<open>to_primitive_equivalent\<close> and \<open>r1cs_path_agrees\<close> say that the first two views accept the same
  assignments, \<open>streamed_rows_exact\<close> and \<open>quotient_identity\<close> that the prover's view does.

  \<^bold>\<open>Bounds and fuel.\<close> A decoder of nested loops runs with fuel one more than the remaining bytes;
  \<open>item_fuel_enough\<close> shows that more changes nothing, since every level of nesting consumes its tag.
  The loop over rolling passes is bounded by the code's own constant; a pass is a partial function
  shown to return on streams of fewer than \<open>2 ^ 32\<close> items. The minimizer's loop is a partial
  function shown to return over a prime field; the lattice reduction is a partial function shown to
  return on the bases of the hint, by the product of the Gram determinants and the distance to
  the last row. \<open>flat_rollable\<close> asks that a stream of opcodes fits the code's index types, that its constants are
  at most \<open>2 ^ 4096\<close> and that its notes write numbers without leading zeros; the losslessness of rolling is
  proved for the first pass, whose compared bytes determine an opcode. In later passes the compared
  bytes of loops carry no lengths (\<open>loop_bytes_ambiguous\<close>), so the theorem \<open>roll_stream_lossless\<close> about all
  passes has the hypothesis \<open>rollable\<close>, which asks that they determine the loops. An announced length is
  reserved at the width of its elements, below \<open>2 ^ 63\<close> bytes; smooth sizes double in
  \<^verbatim>\<open>usize\<close> and exist up to \<open>2 ^ 63\<close> points. The field parser's test is characterised as
  trial division by the first twenty primes and a strong-probable-prime test to each: which
  composites pass from \<open>73\<^sup>2\<close> on is number theory left open. \<open>program_ok\<close> says that ids are distinct and declared and
  that row indices fit 32 bits. The builder's contracts hold over a prime field, while a step's
  new variables fit the 32-bit ids, with \<open>2 ^ n \<le> p\<close> where bits are compared with a residue; notes
  rendered for people are off. The transforms are generic in the field, whose roots of unity are
  an argument (they come from a crate outside the repository); row windows are visited in order,
  parallel column tiles in any order; the spill store is memory and nothing is offloaded to an
  accelerator.

  \<^bold>\<open>Not modelled.\<close> Serialization by serde, rendering for people (diagnostics, graphs, profiles, source maps),
  curve arithmetic with keys and proofs (arkworks), the interpreter of compiled circuits with
  its host calls and the templates detected in a finished circuit (\<^verbatim>\<open>interp.rs\<close>, \<^verbatim>\<open>host.rs\<close>,
  \<^verbatim>\<open>templates.rs\<close>), the container of function templates (\<^verbatim>\<open>function_decode.rs\<close>) and the file of
  minimized rows (\<^verbatim>\<open>r1cs_stream.rs\<close>) with the sources of rows that read them, the witness search, the
  circuit library and gadgets (circuit source code), input schemas, command line and bindings.
\<close>

end
